(* ===== verification/Prelude.thy ===== *)
theory Prelude
  imports Main "HOL-Library.Word" "HOL-Library.List_Lexorder" "HOL-Library.Product_Lexorder"
    "HOL-Library.Option_ord" "HOL-Library.Code_Target_Nat"
begin

text \<open>
  Shared notation, automation and generic lemmas of the development: the result type of fallible
  code and its combinators (the \<^verbatim>\<open>?\<close> operator, \<^verbatim>\<open>try_fold\<close>, collecting an iterator of results), the
  checked arithmetic of the 64-bit signed integer, and the list lemmas the components share.
\<close>

named_theorems res_simps \<open>rewrite rules of the result combinators\<close>
named_theorems res_elims \<open>inversion of a computation that returned Ok\<close>

section \<open>Results\<close>

type_synonym ('e, 'a) res = "'e + 'a"

abbreviation Err :: "'e \<Rightarrow> ('e, 'a) res" where "Err \<equiv> Inl"
abbreviation Ok :: "'a \<Rightarrow> ('e, 'a) res" where "Ok \<equiv> Inr"

text \<open>The question-mark operator: continue with the value, or return the error at once.\<close>

fun bindR :: "('e, 'a) res \<Rightarrow> ('a \<Rightarrow> ('e, 'b) res) \<Rightarrow> ('e, 'b) res" where
  "bindR (Inl e) f = Inl e"
| "bindR (Inr x) f = f x"

fun ok_or :: "'a option \<Rightarrow> 'e \<Rightarrow> ('e, 'a) res" where
  "ok_or None e = Err e"
| "ok_or (Some x) e = Ok x"

fun map_err :: "('e \<Rightarrow> 'f) \<Rightarrow> ('e, 'a) res \<Rightarrow> ('f, 'a) res" where
  "map_err f (Inl e) = Inl (f e)"
| "map_err f (Inr x) = Inr x"

fun is_ok :: "('e, 'a) res \<Rightarrow> bool" where
  "is_ok (Inl e) = False"
| "is_ok (Inr x) = True"

definition guardR :: "bool \<Rightarrow> 'e \<Rightarrow> ('e, unit) res" where
  "guardR b e = (if b then Ok () else Err e)"

text \<open>A loop with \<^verbatim>\<open>?\<close> in its body, and \<^verbatim>\<open>iter.map(f).collect::<Result<Vec<_>, _>>()\<close>.\<close>

fun try_fold :: "('s \<Rightarrow> 'a \<Rightarrow> ('e, 's) res) \<Rightarrow> 's \<Rightarrow> 'a list \<Rightarrow> ('e, 's) res" where
  "try_fold f s [] = Ok s"
| "try_fold f s (x # xs) = bindR (f s x) (\<lambda>s'. try_fold f s' xs)"

fun try_map :: "('a \<Rightarrow> ('e, 'b) res) \<Rightarrow> 'a list \<Rightarrow> ('e, 'b list) res" where
  "try_map f [] = Ok []"
| "try_map f (x # xs) = bindR (f x) (\<lambda>y. bindR (try_map f xs) (\<lambda>ys. Ok (y # ys)))"

lemma bindR_Ok [simp, res_simps]: "bindR r f = Inr y \<longleftrightarrow> (\<exists>x. r = Inr x \<and> f x = Inr y)"
  by (cases r) auto

lemma bindR_Err [res_simps]: "bindR r f = Inl e \<longleftrightarrow> r = Inl e \<or> (\<exists>x. r = Inr x \<and> f x = Inl e)"
  by (cases r) auto

lemma ok_or_Ok [simp, res_simps]: "ok_or x e = Inr y \<longleftrightarrow> x = Some y"
  by (cases x) auto

lemma ok_or_Err [simp, res_simps]: "ok_or x e = Inl e' \<longleftrightarrow> x = None \<and> e = e'"
  by (cases x) auto

lemma map_err_Ok [simp, res_simps]: "map_err f r = Inr y \<longleftrightarrow> r = Inr y"
  by (cases r) auto

lemma map_err_Err [simp, res_simps]: "map_err f r = Inl e \<longleftrightarrow> (\<exists>e'. r = Inl e' \<and> e = f e')"
  by (cases r) auto

lemma guardR_Ok [simp, res_simps]: "guardR b e = Inr y \<longleftrightarrow> b"
  by (simp add: guardR_def)

lemma guardR_Err [simp, res_simps]: "guardR b e = Inl e' \<longleftrightarrow> \<not> b \<and> e = e'"
  by (auto simp add: guardR_def)

lemma is_ok_iff [res_simps]: "is_ok r \<longleftrightarrow> (\<exists>x. r = Inr x)"
  by (cases r) auto

lemma bindR_assoc [simp]: "bindR (bindR r f) g = bindR r (\<lambda>x. bindR (f x) g)"
  by (cases r) auto

lemma try_fold_append:
  "try_fold f s (xs @ ys) = bindR (try_fold f s xs) (\<lambda>s'. try_fold f s' ys)"
  by (induction xs arbitrary: s) simp_all

lemma try_fold_invariant:
  assumes "try_fold f s xs = Ok s'" and "I s"
    and "\<And>s x t. x \<in> set xs \<Longrightarrow> I s \<Longrightarrow> f s x = Ok t \<Longrightarrow> I t"
  shows "I s'"
  using assms
proof (induction xs arbitrary: s)
  case (Cons x xs)
  from Cons.prems(1) obtain t where t: "f s x = Ok t" "try_fold f t xs = Ok s'" by auto
  moreover have "I t" using Cons.prems(2,3) t(1) by (meson list.set_intros(1))
  ultimately show ?case using Cons.IH Cons.prems(3) by (meson list.set_intros(2))
qed simp

lemma try_map_Ok: "try_map f xs = Ok ys \<longleftrightarrow> list_all2 (\<lambda>x y. f x = Ok y) xs ys"
  by (induction xs arbitrary: ys) (auto simp: list_all2_Cons1)

lemma try_map_Ok_length: "try_map f xs = Ok ys \<Longrightarrow> length ys = length xs"
  by (auto simp: try_map_Ok dest: list_all2_lengthD)

lemma try_map_total: "(\<And>x. x \<in> set xs \<Longrightarrow> f x = Ok (g x)) \<Longrightarrow> try_map f xs = Ok (map g xs)"
  by (induction xs) auto

section \<open>Checked arithmetic on \<^verbatim>\<open>i64\<close>\<close>

type_synonym i64 = "64 word"

definition i64_min :: int where "i64_min = - 9223372036854775808"
definition i64_max :: int where "i64_max = 9223372036854775807"

definition in_i64 :: "int \<Rightarrow> bool" where
  "in_i64 z \<longleftrightarrow> i64_min \<le> z \<and> z \<le> i64_max"

definition i64_try :: "int \<Rightarrow> i64 option" where
  "i64_try z = (if in_i64 z then Some (word_of_int z) else None)"

definition i64_checked_add :: "i64 \<Rightarrow> i64 \<Rightarrow> i64 option" where
  "i64_checked_add a b = i64_try (sint a + sint b)"

definition i64_checked_sub :: "i64 \<Rightarrow> i64 \<Rightarrow> i64 option" where
  "i64_checked_sub a b = i64_try (sint a - sint b)"

definition i64_checked_mul :: "i64 \<Rightarrow> i64 \<Rightarrow> i64 option" where
  "i64_checked_mul a b = i64_try (sint a * sint b)"

definition i64_checked_neg :: "i64 \<Rightarrow> i64 option" where
  "i64_checked_neg a = i64_try (- sint a)"

definition i64_checked_abs :: "i64 \<Rightarrow> i64 option" where
  "i64_checked_abs a = i64_try \<bar>sint a\<bar>"

definition i64_unsigned_abs :: "i64 \<Rightarrow> nat" where
  "i64_unsigned_abs a = nat \<bar>sint a\<bar>"

lemma sint_inj: "sint (a :: 'a::len word) = sint b \<longleftrightarrow> a = b"
  by (simp flip: word_eq_iff_signed)

lemma sint_zero_iff: "sint (a :: 'a::len word) = 0 \<longleftrightarrow> a = 0"
  using sint_inj [of a 0] by simp

lemma unat_bound: "unat (w :: 'a::len word) < 2 ^ LENGTH('a)"
  by (rule unsigned_less)

lemma in_i64_sint [simp]: "in_i64 (sint (a :: i64))"
  using sint_ge [of a] sint_less [of a] by (simp add: in_i64_def i64_min_def i64_max_def)

lemma in_i64_0 [simp]: "in_i64 0"
  by (simp add: in_i64_def i64_min_def i64_max_def)

lemma in_i64_le: "in_i64 z \<Longrightarrow> z \<le> i64_max"
  by (simp add: in_i64_def)

lemma in_i64_up: "in_i64 a \<Longrightarrow> a \<le> z \<Longrightarrow> z \<le> i64_max \<Longrightarrow> in_i64 z"
  by (simp add: in_i64_def)

lemma sint_i64_of_int: "in_i64 z \<Longrightarrow> sint (word_of_int z :: i64) = z"
  by (simp add: in_i64_def i64_min_def i64_max_def signed_take_bit_int_eq_self sint_sbintrunc')

lemma i64_try_Some [simp]: "i64_try z = Some w \<longleftrightarrow> sint w = z"
  by (auto simp: i64_try_def sint_i64_of_int)

lemma i64_try_None [simp]: "i64_try z = None \<longleftrightarrow> \<not> in_i64 z"
  by (simp add: i64_try_def)

lemma i64_range: "i64_min \<le> sint (a :: i64)" "sint (a :: i64) \<le> i64_max"
  using in_i64_sint [of a] unfolding in_i64_def by auto

lemma i64_unsigned_abs_bound: "i64_unsigned_abs a \<le> 9223372036854775808"
  using i64_range [of a] by (simp add: i64_unsigned_abs_def i64_min_def i64_max_def)

section \<open>Lists\<close>

lemma list_all2_same_length_append:
  "length xs = length ys \<Longrightarrow> list_all2 P (xs @ us) (ys @ vs) \<longleftrightarrow> list_all2 P xs ys \<and> list_all2 P us vs"
  by (rule list_all2_append)

lemma append_eq_prefix:
  assumes "xs @ us = ys @ vs" and "length xs = length ys"
  shows "xs = ys \<and> us = vs"
  using assms by simp

text \<open>\<^verbatim>\<open>split_once\<close>: the parts before and after the first occurrence of a separator.\<close>

fun split_once :: "'a \<Rightarrow> 'a list \<Rightarrow> ('a list \<times> 'a list) option" where
  "split_once c [] = None"
| "split_once c (x # xs) =
     (if x = c then Some ([], xs)
      else (case split_once c xs of None \<Rightarrow> None | Some (a, b) \<Rightarrow> Some (x # a, b)))"

lemma split_once_None: "split_once c xs = None \<longleftrightarrow> c \<notin> set xs"
  by (induction xs) (auto split: option.splits)

lemma split_once_Some:
  "split_once c xs = Some (a, b) \<longleftrightarrow> xs = a @ c # b \<and> c \<notin> set a"
proof (induction xs arbitrary: a)
  case Nil
  show ?case by simp
next
  case (Cons x xs)
  show ?case
  proof (cases a)
    case Nil
    then show ?thesis by (auto split: option.splits)
  next
    case (Cons y a')
    have "split_once c (x # xs) = Some (a, b) \<longleftrightarrow> x \<noteq> c \<and> x = y \<and> split_once c xs = Some (a', b)"
      using Cons by (auto split: option.splits)
    then show ?thesis using Cons.IH [of a'] Cons by auto
  qed
qed

text \<open>\<^verbatim>\<open>split\<close>: the segments between separators; a string without separator is one segment.\<close>

fun split_on :: "'a \<Rightarrow> 'a list \<Rightarrow> 'a list list" where
  "split_on c [] = [[]]"
| "split_on c (x # xs) =
     (if x = c then [] # split_on c xs
      else (case split_on c xs of [] \<Rightarrow> [[x]] | s # ss \<Rightarrow> (x # s) # ss))"

fun join_with :: "'a \<Rightarrow> 'a list list \<Rightarrow> 'a list" where
  "join_with c [] = []"
| "join_with c [s] = s"
| "join_with c (s # t # ss) = s @ c # join_with c (t # ss)"

lemma split_on_nonempty [simp]: "split_on c xs \<noteq> []"
  by (induction xs) (auto split: list.splits)

lemma split_on_append:
  "c \<notin> set s \<Longrightarrow> split_on c (s @ c # xs) = s # split_on c xs"
  by (induction s) auto

lemma split_on_single: "c \<notin> set s \<Longrightarrow> split_on c s = [s]"
  by (induction s) auto

lemma split_on_join:
  "ss \<noteq> [] \<Longrightarrow> \<forall>s\<in>set ss. c \<notin> set s \<Longrightarrow> split_on c (join_with c ss) = ss"
  by (induction c ss rule: join_with.induct) (auto simp: split_on_append split_on_single)

lemma join_split_on: "join_with c (split_on c xs) = xs"
proof (induction xs)
  case (Cons x xs)
  then show ?case by (cases "split_on c xs"; cases "tl (split_on c xs)") auto
qed simp

lemma split_on_no_sep: "s \<in> set (split_on c xs) \<Longrightarrow> c \<notin> set s"
  by (induction xs arbitrary: s) (fastforce split: list.splits if_splits)+

end
