(* ===== verification/Unicode.thy ===== *)
theory Unicode
  imports Prelude
begin

text \<open>
  Rust strings: a \<^verbatim>\<open>str\<close> is a list of Unicode scalar values, with the UTF-8 encoding that
  \<^verbatim>\<open>as_bytes\<close> and \<^verbatim>\<open>len\<close> see, the character classes the program tests, and decimal numerals. All of
  it is the standard library's; the laws are that UTF-8 is injective and numerals read back.
\<close>

type_synonym uchar = nat
type_synonym ustr = "uchar list"
type_synonym byte = "8 word"

text \<open>A literal of the program's source, as scalar values and as bytes.\<close>

definition lit :: "string \<Rightarrow> ustr" where
  "lit s = map of_char s"

definition blit :: "string \<Rightarrow> byte list" where
  "blit s = map of_char s"

definition is_scalar :: "uchar \<Rightarrow> bool" where
  "is_scalar c \<longleftrightarrow> c < 0xD800 \<or> 0xE000 \<le> c \<and> c < 0x110000"

definition valid_str :: "ustr \<Rightarrow> bool" where
  "valid_str s \<longleftrightarrow> list_all is_scalar s"

definition is_control :: "uchar \<Rightarrow> bool" where
  "is_control c \<longleftrightarrow> c \<le> 0x1F \<or> 0x7F \<le> c \<and> c \<le> 0x9F"

definition is_whitespace :: "uchar \<Rightarrow> bool" where
  "is_whitespace c \<longleftrightarrow> 9 \<le> c \<and> c \<le> 13 \<or> c = 0x20 \<or> c = 0x85 \<or> c = 0xA0 \<or> c = 0x1680
     \<or> 0x2000 \<le> c \<and> c \<le> 0x200A \<or> c = 0x2028 \<or> c = 0x2029 \<or> c = 0x202F \<or> c = 0x205F \<or> c = 0x3000"

definition str_trim :: "ustr \<Rightarrow> ustr" where
  "str_trim s = rev (dropWhile is_whitespace (rev (dropWhile is_whitespace s)))"

definition trim_end_matches :: "uchar \<Rightarrow> ustr \<Rightarrow> ustr" where
  "trim_end_matches c s = rev (dropWhile (\<lambda>x. x = c) (rev s))"

fun strip_prefix :: "uchar \<Rightarrow> ustr \<Rightarrow> ustr option" where
  "strip_prefix c [] = None"
| "strip_prefix c (x # xs) = (if x = c then Some xs else None)"

section \<open>UTF-8\<close>

definition utf8_char :: "uchar \<Rightarrow> byte list" where
  "utf8_char c =
     (if c < 0x80 then [of_nat c]
      else if c < 0x800 then [of_nat (0xC0 + c div 64), of_nat (0x80 + c mod 64)]
      else if c < 0x10000 then
        [of_nat (0xE0 + c div 4096), of_nat (0x80 + c div 64 mod 64), of_nat (0x80 + c mod 64)]
      else [of_nat (0xF0 + c div 262144), of_nat (0x80 + c div 4096 mod 64),
            of_nat (0x80 + c div 64 mod 64), of_nat (0x80 + c mod 64)])"

definition utf8 :: "ustr \<Rightarrow> byte list" where
  "utf8 s = concat (map utf8_char s)"

text \<open>The decoder, used only to show that the encoding is injective.\<close>

definition utf8_next :: "byte list \<Rightarrow> (uchar \<times> byte list) option" where
  "utf8_next bs = (case map unat bs of [] \<Rightarrow> None | a # ns \<Rightarrow>
     if a < 0x80 then Some (a, drop 1 bs)
     else if a < 0xE0 then Some ((a - 0xC0) * 64 + (ns ! 0 - 0x80), drop 2 bs)
     else if a < 0xF0 then
       Some ((a - 0xE0) * 4096 + (ns ! 0 - 0x80) * 64 + (ns ! 1 - 0x80), drop 3 bs)
     else Some ((a - 0xF0) * 262144 + (ns ! 0 - 0x80) * 4096 + (ns ! 1 - 0x80) * 64
                + (ns ! 2 - 0x80), drop 4 bs))"

lemma unat_byte: "n < 256 \<Longrightarrow> unat (of_nat n :: byte) = n"
  by (simp add: unat_of_nat)

lemma scalar_bound: "is_scalar c \<Longrightarrow> c < 0x110000"
  by (auto simp: is_scalar_def)

lemma utf8_next_char:
  assumes "is_scalar c"
  shows "utf8_next (utf8_char c @ bs) = Some (c, bs)"
proof -
  have c: "c < 0x110000" by (rule scalar_bound [OF assms])
  have m: "\<And>n::nat. 0x80 + n mod 64 < 256" using mod_less_divisor [of 64] by (simp add: trans_less_add1)
  have d2: "c div 4096 = c div 64 div 64" "c div 262144 = c div 64 div 64 div 64"
    by (simp_all add: div_mult2_eq [symmetric])
  have split2: "c div 64 * 64 + c mod 64 = c" by simp
  have split3: "c div 4096 * 4096 + c div 64 mod 64 * 64 + c mod 64 = c"
    using div_mult_mod_eq [of "c div 64" 64] div_mult_mod_eq [of c 64] unfolding d2 by linarith
  have split4: "c div 262144 * 262144 + c div 4096 mod 64 * 4096 + c div 64 mod 64 * 64 + c mod 64 = c"
    using div_mult_mod_eq [of "c div 64 div 64" 64] div_mult_mod_eq [of "c div 64" 64]
      div_mult_mod_eq [of c 64] unfolding d2 by linarith
  consider "c < 0x80" | "0x80 \<le> c" "c < 0x800" | "0x800 \<le> c" "c < 0x10000" | "0x10000 \<le> c" by linarith
  then show ?thesis
  proof cases
    case 1
    then show ?thesis by (simp add: utf8_next_def utf8_char_def unat_byte)
  next
    case 2
    then have "0xC0 + c div 64 < 256" "c div 64 < 32" by linarith+
    then show ?thesis using 2 m split2 by (simp add: utf8_next_def utf8_char_def unat_byte del: of_nat_add)
  next
    case 3
    then have "0xE0 + c div 4096 < 256" "c div 4096 < 16" by linarith+
    then show ?thesis using 3 m split3 by (simp add: utf8_next_def utf8_char_def unat_byte del: of_nat_add)
  next
    case 4
    then have "0xF0 + c div 262144 < 256" using c by linarith
    then show ?thesis using 4 m split4 by (simp add: utf8_next_def utf8_char_def unat_byte del: of_nat_add)
  qed
qed

lemma utf8_char_nonempty [simp]: "utf8_char c \<noteq> []"
  by (simp add: utf8_char_def)

lemma utf8_simps [simp]: "utf8 [] = []" "utf8 (c # s) = utf8_char c @ utf8 s"
  "utf8 (s @ t) = utf8 s @ utf8 t"
  by (simp_all add: utf8_def)

lemma valid_str_simps [simp]: "valid_str []" "valid_str (c # s) \<longleftrightarrow> is_scalar c \<and> valid_str s"
  "valid_str (s @ t) \<longleftrightarrow> valid_str s \<and> valid_str t"
  by (simp_all add: valid_str_def)

lemma utf8_inj:
  assumes "valid_str s" "valid_str t" "utf8 s = utf8 t"
  shows "s = t"
  using assms
proof (induction s arbitrary: t)
  case Nil
  then show ?case by (cases t) auto
next
  case (Cons c s)
  then obtain d t' where t: "t = d # t'" by (cases t) auto
  have "utf8_next (utf8 (c # s)) = utf8_next (utf8 t)" using Cons.prems(3) by simp
  then have "(c, utf8 s) = (d, utf8 t')" using Cons.prems(1,2) t by (simp add: utf8_next_char)
  then show ?case using Cons t by simp
qed

lemma utf8_ascii: "list_all (\<lambda>c. c < 0x80) s \<Longrightarrow> utf8 s = map of_nat s"
  by (induction s) (auto simp: utf8_char_def)

lemma length_utf8: "length s \<le> length (utf8 s)" "length (utf8 s) \<le> 4 * length s"
  by (induction s) (auto simp: utf8_char_def)

section \<open>Decimal numerals\<close>

fun dec_digits :: "nat \<Rightarrow> ustr" where
  "dec_digits n = (if n < 10 then [48 + n] else dec_digits (n div 10) @ [48 + n mod 10])"

declare dec_digits.simps [simp del]

definition digits_value :: "ustr \<Rightarrow> nat" where
  "digits_value ds = foldl (\<lambda>n d. 10 * n + (d - 48)) 0 ds"

definition is_digit :: "uchar \<Rightarrow> bool" where
  "is_digit c \<longleftrightarrow> 48 \<le> c \<and> c \<le> 57"

text \<open>\<^verbatim>\<open>{:0>width$}\<close>: pad with zeros on the left.\<close>

definition pad_zeros :: "nat \<Rightarrow> ustr \<Rightarrow> ustr" where
  "pad_zeros w s = replicate (w - length s) 48 @ s"

lemma dec_digits_nonempty [simp]: "dec_digits n \<noteq> []"
  by (subst dec_digits.simps) simp

lemma dec_digits_digit: "list_all is_digit (dec_digits n)"
proof (induction n rule: dec_digits.induct)
  case (1 n)
  have "n mod 10 < 10" by simp
  then have "is_digit (48 + n mod 10)" unfolding is_digit_def by linarith
  moreover have "n < 10 \<Longrightarrow> is_digit (48 + n)" by (simp add: is_digit_def)
  ultimately show ?case using 1 by (subst dec_digits.simps) simp
qed

lemma digits_value_append: "digits_value (ds @ [48 + k]) = 10 * digits_value ds + k"
  by (simp add: digits_value_def)

lemma digits_value_dec: "digits_value (dec_digits n) = n"
proof (induction n rule: dec_digits.induct)
  case (1 n)
  show ?case
  proof (cases "n < 10")
    case True
    then show ?thesis by (subst dec_digits.simps) (simp add: digits_value_def)
  next
    case False
    then have "digits_value (dec_digits n) = 10 * (n div 10) + n mod 10"
      using 1 [OF False] by (subst dec_digits.simps) (simp only: digits_value_append if_False)
    then show ?thesis by simp
  qed
qed

lemma digits_value_zeros: "digits_value (replicate k 48 @ ds) = digits_value ds"
  by (induction k) (auto simp: digits_value_def)

lemma dec_digits_length: "n < 10 ^ k \<Longrightarrow> 0 < k \<Longrightarrow> length (dec_digits n) \<le> k"
proof (induction n arbitrary: k rule: dec_digits.induct)
  case (1 n)
  show ?case
  proof (cases "n < 10")
    case True
    then show ?thesis using 1 by (subst dec_digits.simps) simp
  next
    case False
    with 1 obtain j where j: "k = Suc j" by (cases k) auto
    then have "n div 10 < 10 ^ j" using 1 by (simp add: less_mult_imp_div_less mult.commute)
    moreover have "0 < j" using False 1 j by (cases j) auto
    ultimately show ?thesis using False 1 j by (subst dec_digits.simps) simp
  qed
qed

lemma digit_ascii: "list_all is_digit s \<Longrightarrow> list_all (\<lambda>c. c < 0x80) s"
  by (induction s) (auto simp: is_digit_def)

end
