(* ===== verification/Machine_Words.thy ===== *)
theory Machine_Words
  imports Prelude
begin

text \<open>
  The unsigned machine integers. Fields of the program's records are words of their width; the
  intermediate \<^verbatim>\<open>u128\<close> of the split is a natural number with the range check of each operation
  written out, and so are the checked operations whose operands are already in range.
\<close>

type_synonym u8 = "8 word"
type_synonym u16 = "16 word"
type_synonym u32 = "32 word"
type_synonym u64 = "64 word"
type_synonym u128 = "128 word"

definition u128_max :: nat where "u128_max = 2 ^ 128 - 1"

definition u128_checked_add :: "nat \<Rightarrow> nat \<Rightarrow> nat option" where
  "u128_checked_add a b = (if a + b \<le> u128_max then Some (a + b) else None)"

definition u128_checked_mul :: "nat \<Rightarrow> nat \<Rightarrow> nat option" where
  "u128_checked_mul a b = (if a * b \<le> u128_max then Some (a * b) else None)"

definition nat_checked_sub :: "nat \<Rightarrow> nat \<Rightarrow> nat option" where
  "nat_checked_sub a b = (if b \<le> a then Some (a - b) else None)"

definition nat_checked_div :: "nat \<Rightarrow> nat \<Rightarrow> nat option" where
  "nat_checked_div a b = (if b = 0 then None else Some (a div b))"

definition nat_checked_rem :: "nat \<Rightarrow> nat \<Rightarrow> nat option" where
  "nat_checked_rem a b = (if b = 0 then None else Some (a mod b))"

definition u32_max :: nat where "u32_max = 4294967295"
definition u64_max :: nat where "u64_max = 18446744073709551615"

definition u32_saturating_add :: "u32 \<Rightarrow> u32 \<Rightarrow> u32" where
  "u32_saturating_add a b = of_nat (min (unat a + unat b) u32_max)"

definition u32_try :: "nat \<Rightarrow> u32 option" where
  "u32_try n = (if n \<le> u32_max then Some (of_nat n) else None)"

definition u16_try :: "nat \<Rightarrow> u16 option" where
  "u16_try n = (if n \<le> 65535 then Some (of_nat n) else None)"

lemma u32_try_Some: "u32_try n = Some w \<longleftrightarrow> unat w = n"
  using unat_bound [of w] by (auto simp: u32_try_def u32_max_def unat_of_nat)

lemma u16_try_Some: "u16_try n = Some w \<longleftrightarrow> unat w = n"
  using unat_bound [of w] by (auto simp: u16_try_def unat_of_nat)

lemma unat_u32_saturating: "unat (u32_saturating_add a b) = min (unat a + unat b) u32_max"
  by (simp add: u32_saturating_add_def u32_max_def unat_of_nat)

lemma unat_u64_le: "unat (w :: u64) \<le> u64_max"
  using unat_bound [of w] by (simp add: u64_max_def)

end
