(* ===== verification/Money.thy ===== *)
theory Money
  imports Unicode Machine_Words "HOL-Library.Multiset"
begin

text \<open>
  \<^verbatim>\<open>src/money.rs\<close>: currency codes, amounts as scaled 64-bit integers, checked arithmetic, the
  largest-remainder split, and the decimal literals. The const generic \<^verbatim>\<open>P\<close> of \<^verbatim>\<open>Amount<P>\<close> is an
  argument of the operations that read it; the compile-time guard is the hypothesis \<^verbatim>\<open>P \<le> 18\<close>.
\<close>

datatype money_error =
    Overflow
  | ZeroWeight
  | PrecisionLoss nat
  | InvalidCurrency
  | InvalidLiteral

section \<open>Currencies\<close>

datatype currency = Currency (currency_bytes: "byte list")

definition is_ascii_uppercase :: "byte \<Rightarrow> bool" where
  "is_ascii_uppercase b \<longleftrightarrow> 65 \<le> b \<and> b \<le> 90"

definition currency_new :: "ustr \<Rightarrow> (money_error, currency) res" where
  "currency_new code =
     (case utf8 code of
        [a, b, c] \<Rightarrow>
          if \<not> is_ascii_uppercase a \<or> \<not> is_ascii_uppercase b \<or> \<not> is_ascii_uppercase c
          then Err InvalidCurrency else Ok (Currency [a, b, c])
      | _ \<Rightarrow> Err InvalidCurrency)"

definition EUR :: currency where "EUR = Currency (blit ''EUR'')"
definition USD :: currency where "USD = Currency (blit ''USD'')"
definition GBP :: currency where "GBP = Currency (blit ''GBP'')"
definition CHF :: currency where "CHF = Currency (blit ''CHF'')"
definition JPY :: currency where "JPY = Currency (blit ''JPY'')"

definition currency_code :: "currency \<Rightarrow> ustr" where
  "currency_code c = map unat (currency_bytes c)"

definition currency_minor_units :: "currency \<Rightarrow> nat option" where
  "currency_minor_units c =
     (let code = currency_bytes c in
      if code \<in> set (map blit [''JPY'', ''KRW'', ''ISK'', ''CLP'', ''VND'', ''XAF'', ''XOF'', ''XPF'']) then Some 0
      else if code \<in> set (map blit [''BHD'', ''IQD'', ''JOD'', ''KWD'', ''LYD'', ''OMR'', ''TND'']) then Some 3
      else if code \<in> set (map blit [''EUR'', ''USD'', ''GBP'', ''CHF'', ''AUD'', ''CAD'', ''CNY'', ''CZK'',
                ''DKK'', ''HUF'', ''NOK'', ''NZD'', ''PLN'', ''RON'', ''SEK'', ''TRY'', ''ZAR'']) then Some 2
      else None)"

definition valid_currency :: "currency \<Rightarrow> bool" where
  "valid_currency c \<longleftrightarrow> length (currency_bytes c) = 3 \<and> list_all is_ascii_uppercase (currency_bytes c)"

instantiation currency :: linorder
begin

definition less_eq_currency :: "currency \<Rightarrow> currency \<Rightarrow> bool" where
  "less_eq_currency a b \<longleftrightarrow> currency_bytes a \<le> currency_bytes b"

definition less_currency :: "currency \<Rightarrow> currency \<Rightarrow> bool" where
  "less_currency a b \<longleftrightarrow> currency_bytes a < currency_bytes b"

instance
  by standard (auto simp: less_eq_currency_def less_currency_def currency.expand)

end

section \<open>Amounts\<close>

datatype amount = Amount (to_minor: i64)

instantiation amount :: linorder
begin

definition less_eq_amount :: "amount \<Rightarrow> amount \<Rightarrow> bool" where
  "less_eq_amount a b \<longleftrightarrow> sint (to_minor a) \<le> sint (to_minor b)"

definition less_amount :: "amount \<Rightarrow> amount \<Rightarrow> bool" where
  "less_amount a b \<longleftrightarrow> sint (to_minor a) < sint (to_minor b)"

instance
  by standard (auto simp: less_eq_amount_def less_amount_def sint_inj intro!: amount.expand)

end

text \<open>The count of minor units as an integer; every statement about amounts is read through it.\<close>

definition amt :: "amount \<Rightarrow> int" where
  "amt a = sint (to_minor a)"

definition amount_zero :: amount where "amount_zero = Amount 0"
definition amount_max :: amount where "amount_max = Amount (word_of_int i64_max)"
definition amount_min :: amount where "amount_min = Amount (word_of_int i64_min)"

definition max_precision :: nat where "max_precision = 18"

fun pow10_loop :: "nat \<Rightarrow> i64 \<Rightarrow> i64" where
  "pow10_loop 0 acc = acc"
| "pow10_loop (Suc k) acc =
     (case i64_checked_mul acc 10 of Some v \<Rightarrow> pow10_loop k v | None \<Rightarrow> word_of_int i64_max)"

definition pow10 :: "nat \<Rightarrow> i64" where
  "pow10 ex = pow10_loop ex 1"

definition from_major :: "nat \<Rightarrow> i64 \<Rightarrow> (money_error, amount) res" where
  "from_major P n = ok_or (map_option Amount (i64_checked_mul n (pow10 P))) Overflow"

definition is_zero :: "amount \<Rightarrow> bool" where "is_zero a \<longleftrightarrow> to_minor a = 0"
definition is_negative :: "amount \<Rightarrow> bool" where "is_negative a \<longleftrightarrow> sint (to_minor a) < 0"
definition is_positive :: "amount \<Rightarrow> bool" where "is_positive a \<longleftrightarrow> sint (to_minor a) > 0"

definition checked_add :: "amount \<Rightarrow> amount \<Rightarrow> (money_error, amount) res" where
  "checked_add a rhs = ok_or (map_option Amount (i64_checked_add (to_minor a) (to_minor rhs))) Overflow"

definition checked_sub :: "amount \<Rightarrow> amount \<Rightarrow> (money_error, amount) res" where
  "checked_sub a rhs = ok_or (map_option Amount (i64_checked_sub (to_minor a) (to_minor rhs))) Overflow"

definition checked_neg :: "amount \<Rightarrow> (money_error, amount) res" where
  "checked_neg a = ok_or (map_option Amount (i64_checked_neg (to_minor a))) Overflow"

definition checked_abs :: "amount \<Rightarrow> (money_error, amount) res" where
  "checked_abs a = ok_or (map_option Amount (i64_checked_abs (to_minor a))) Overflow"

definition checked_sum :: "amount list \<Rightarrow> (money_error, amount) res" where
  "checked_sum xs = try_fold checked_add amount_zero xs"

section \<open>Splitting\<close>

definition alloc_step :: "nat \<Rightarrow> nat \<Rightarrow> nat list \<times> (nat \<times> nat) list \<times> nat \<Rightarrow> nat \<times> u64
    \<Rightarrow> (money_error, nat list \<times> (nat \<times> nat) list \<times> nat) res" where
  "alloc_step magnitude total_w s iw =
     (case (s, iw) of ((parts, remainders, assigned), (i, w)) \<Rightarrow>
      bindR (ok_or (u128_checked_mul magnitude (unat w)) Overflow) (\<lambda>product.
      bindR (ok_or (nat_checked_div product total_w) ZeroWeight) (\<lambda>share.
      bindR (ok_or (nat_checked_rem product total_w) ZeroWeight) (\<lambda>r.
      bindR (ok_or (u128_checked_add assigned share) Overflow) (\<lambda>assigned.
      Ok (parts @ [share], remainders @ [(r, i)], assigned))))))"

fun alloc_bump :: "nat list \<Rightarrow> nat list \<Rightarrow> nat \<Rightarrow> (money_error, nat list) res" where
  "alloc_bump [] parts leftover = Ok parts"
| "alloc_bump (idx # order) parts leftover =
     (if leftover = 0 then Ok parts
      else if idx < length parts then
        bindR (ok_or (u128_checked_add (parts ! idx) 1) Overflow) (\<lambda>slot.
        bindR (ok_or (nat_checked_sub leftover 1) Overflow) (\<lambda>l.
        alloc_bump order (parts[idx := slot]) l))
      else alloc_bump order parts leftover)"

definition alloc_signed :: "bool \<Rightarrow> nat \<Rightarrow> (money_error, amount) res" where
  "alloc_signed negative p =
     bindR (ok_or (i64_try (int p)) Overflow) (\<lambda>v.
       if negative then ok_or (map_option Amount (i64_checked_neg v)) Overflow else Ok (Amount v))"

definition allocate :: "amount \<Rightarrow> u64 list \<Rightarrow> (money_error, amount list) res" where
  "allocate a weights =
     (if weights = [] then Err ZeroWeight else
      bindR (try_fold (\<lambda>t w. ok_or (u128_checked_add t (unat w)) Overflow) 0 weights) (\<lambda>total.
      if total = 0 then Err ZeroWeight else
      let negative = sint (to_minor a) < 0; magnitude = i64_unsigned_abs (to_minor a) in
      bindR (try_fold (alloc_step magnitude total) ([], [], 0) (enumerate 0 weights))
        (\<lambda>(parts, remainders, assigned).
      bindR (ok_or (nat_checked_sub magnitude assigned) Overflow) (\<lambda>leftover.
      let order = sort_key (\<lambda>(r, i). (- int r, i)) remainders in
      bindR (alloc_bump (map snd order) parts leftover) (\<lambda>parts.
      try_map (alloc_signed negative) parts)))))"

definition distribute :: "amount \<Rightarrow> nat \<Rightarrow> (money_error, amount list) res" where
  "distribute a n = (if n = 0 then Err ZeroWeight else allocate a (replicate n 1))"

section \<open>Decimal literals\<close>

definition i64_from_digits :: "ustr \<Rightarrow> i64 option" where
  "i64_from_digits ds = i64_try (int (digits_value ds))"

definition is_ascii_digit :: "byte \<Rightarrow> bool" where
  "is_ascii_digit b \<longleftrightarrow> 48 \<le> b \<and> b \<le> 57"

definition frac_digit :: "ustr \<Rightarrow> nat \<Rightarrow> i64" where
  "frac_digit frac_part i =
     (let bs = utf8 frac_part in if i < length bs then of_nat (unat (bs ! i - 48)) else 0)"

definition frac_step :: "ustr \<Rightarrow> i64 \<Rightarrow> nat \<Rightarrow> (money_error, i64) res" where
  "frac_step frac_part frac i =
     ok_or (Option.bind (i64_checked_mul frac 10) (\<lambda>f. i64_checked_add f (frac_digit frac_part i))) Overflow"

definition amount_parse :: "nat \<Rightarrow> ustr \<Rightarrow> (money_error, amount) res" where
  "amount_parse P str =
     (let s = str_trim str;
          (negative, digits) =
            (case strip_prefix 45 s of
               Some rest \<Rightarrow> (True, rest)
             | None \<Rightarrow> (False, case strip_prefix 43 s of Some rest \<Rightarrow> rest | None \<Rightarrow> s)) in
      if digits = [] then Err InvalidLiteral else
      let (int_part, frac_part) =
            (case split_once 46 digits of Some (i, f) \<Rightarrow> (i, f) | None \<Rightarrow> (digits, [])) in
      if int_part = [] \<and> frac_part = [] then Err InvalidLiteral else
      if \<not> list_all is_ascii_digit (utf8 int_part) \<or> \<not> list_all is_ascii_digit (utf8 frac_part)
      then Err InvalidLiteral else
      if length (utf8 (trim_end_matches 48 frac_part)) > P then Err (PrecisionLoss P) else
      bindR (if int_part = [] then Ok 0 else ok_or (i64_from_digits int_part) Overflow) (\<lambda>whole.
      bindR (try_fold (frac_step frac_part) 0 [0..<P]) (\<lambda>frac.
      bindR (ok_or (Option.bind (i64_checked_mul whole (pow10 P)) (\<lambda>w. i64_checked_add w frac)) Overflow) (\<lambda>value.
      if negative then ok_or (map_option Amount (i64_checked_neg value)) Overflow
      else Ok (Amount value)))))"

definition int_display :: "int \<Rightarrow> ustr" where
  "int_display z = (if z < 0 then 45 # dec_digits (nat (- z)) else dec_digits (nat z))"

definition amount_display :: "nat \<Rightarrow> amount \<Rightarrow> ustr" where
  "amount_display P a =
     (if P = 0 then int_display (sint (to_minor a)) else
      let negative = sint (to_minor a) < 0;
          magnitude = i64_unsigned_abs (to_minor a);
          divisor = i64_unsigned_abs (pow10 P);
          whole = magnitude div divisor;
          frac = magnitude mod divisor in
      (if negative then [45] else []) @ dec_digits whole @ [46] @ pad_zeros P (dec_digits frac))"

section \<open>Arithmetic is exact or refused\<close>

lemma amt_inj: "amt a = amt b \<longleftrightarrow> a = b"
  by (auto simp: amt_def sint_inj intro: amount.expand)

definition of_amt :: "int \<Rightarrow> amount" where
  "of_amt z = Amount (word_of_int z)"

lemma of_amt_amt [simp]: "of_amt (amt a) = a"
  by (cases a) (simp add: of_amt_def amt_def)

lemma amt_of_amt [simp]: "in_i64 z \<Longrightarrow> amt (of_amt z) = z"
  by (simp add: of_amt_def amt_def sint_i64_of_int)

lemma in_i64_amt [simp]: "in_i64 (amt a)"
  by (simp add: amt_def)

lemma amt_ex: "(\<exists>c. amt c = z) \<longleftrightarrow> in_i64 z"
  by (metis amount.sel amt_def in_i64_amt sint_i64_of_int)

lemma amt_zero [simp]: "amt amount_zero = 0"
  by (simp add: amt_def amount_zero_def)

lemma amt_min: "amt amount_min = i64_min" and amt_max: "amt amount_max = i64_max"
  by (simp_all add: amt_def amount_min_def amount_max_def sint_i64_of_int in_i64_def i64_min_def i64_max_def)

lemma amt_range: "i64_min \<le> amt a" "amt a \<le> i64_max"
  using in_i64_amt [of a] by (auto simp: in_i64_def)

lemma amt_le: "a \<le> b \<longleftrightarrow> amt a \<le> amt b" and amt_less: "a < b \<longleftrightarrow> amt a < amt b"
  by (simp_all add: less_eq_amount_def less_amount_def amt_def)

lemma amt_signs: "is_negative a \<longleftrightarrow> amt a < 0" "is_positive a \<longleftrightarrow> 0 < amt a" "is_zero a \<longleftrightarrow> amt a = 0"
  by (auto simp: is_negative_def is_positive_def is_zero_def amt_def sint_zero_iff)

lemma ok_or_amount_Ok:
  "ok_or (map_option Amount (i64_try z)) e = Inr c \<longleftrightarrow> amt c = z"
  by (cases c) (auto simp: amt_def)

lemma ok_or_amount_Err:
  "ok_or (map_option Amount (i64_try z)) e = Inl e' \<longleftrightarrow> \<not> in_i64 z \<and> e' = e"
  by auto

lemma checked_add_Ok [simp]: "checked_add a b = Inr c \<longleftrightarrow> amt c = amt a + amt b"
  by (simp only: checked_add_def i64_checked_add_def ok_or_amount_Ok amt_def)

lemma checked_add_Err: "checked_add a b = Inl e \<longleftrightarrow> \<not> in_i64 (amt a + amt b) \<and> e = Overflow"
  by (simp only: checked_add_def i64_checked_add_def ok_or_amount_Err amt_def)

lemma checked_sub_Ok [simp]: "checked_sub a b = Inr c \<longleftrightarrow> amt c = amt a - amt b"
  by (simp only: checked_sub_def i64_checked_sub_def ok_or_amount_Ok amt_def)

lemma checked_sub_Err: "checked_sub a b = Inl e \<longleftrightarrow> \<not> in_i64 (amt a - amt b) \<and> e = Overflow"
  by (simp only: checked_sub_def i64_checked_sub_def ok_or_amount_Err amt_def)

lemma checked_neg_Ok [simp]: "checked_neg a = Inr c \<longleftrightarrow> amt c = - amt a"
  by (simp only: checked_neg_def i64_checked_neg_def ok_or_amount_Ok amt_def)

lemma checked_neg_Err: "checked_neg a = Inl e \<longleftrightarrow> amt a = i64_min \<and> e = Overflow"
  using amt_range [of a]
  by (auto simp only: checked_neg_def i64_checked_neg_def ok_or_amount_Err in_i64_def i64_min_def
      i64_max_def simp flip: amt_def)

lemma checked_abs_Ok [simp]: "checked_abs a = Inr c \<longleftrightarrow> amt c = \<bar>amt a\<bar>"
  by (simp only: checked_abs_def i64_checked_abs_def ok_or_amount_Ok amt_def)

lemmas checked_simps = checked_add_Ok checked_add_Err checked_sub_Ok checked_sub_Err
  checked_neg_Ok checked_neg_Err checked_abs_Ok

lemma checked_sum_from: "try_fold checked_add a xs = Inr c \<Longrightarrow> amt c = amt a + sum_list (map amt xs)"
  by (induction xs arbitrary: a) (auto simp: add.assoc)

lemma checked_sum_Ok: "checked_sum xs = Inr c \<Longrightarrow> amt c = sum_list (map amt xs)"
  unfolding checked_sum_def using checked_sum_from [of amount_zero xs c] by simp

lemma pow10_loop_value:
  "0 < sint acc \<Longrightarrow> sint acc * 10 ^ k \<le> i64_max \<Longrightarrow> sint (pow10_loop k acc) = sint acc * 10 ^ k"
proof (induction k arbitrary: acc)
  case (Suc k)
  have "(1::int) \<le> 10 ^ k" by simp
  then have "sint acc * 10 * 1 \<le> sint acc * 10 * 10 ^ k"
    using Suc.prems(1) by (intro mult_left_mono) simp_all
  also have "\<dots> \<le> i64_max" using Suc.prems(2) by (simp add: mult.assoc)
  finally have "in_i64 (sint acc * 10)"
    using Suc.prems by (simp add: in_i64_def i64_min_def)
  then obtain v where v: "i64_checked_mul acc 10 = Some v" "sint v = sint acc * 10"
    by (cases "i64_checked_mul acc 10") (auto simp: i64_checked_mul_def)
  then show ?case using Suc by (simp add: algebra_simps)
qed simp

lemma pow10_value: "P \<le> 18 \<Longrightarrow> sint (pow10 P) = 10 ^ P"
proof -
  assume "P \<le> 18"
  then have "(10::int) ^ P \<le> 10 ^ 18" by (rule power_increasing) simp
  then show ?thesis
    unfolding pow10_def by (subst pow10_loop_value) (simp_all add: i64_max_def)
qed

end
