(* ===== verification/Money_Split.thy ===== *)
theory Money_Split
  imports Money
begin

text \<open>
  The largest-remainder split of \<^verbatim>\<open>Amount::allocate\<close>: it returns exactly when it should, no minor
  unit is created or lost, and the leftover units go to the largest remainders, ties to the lowest
  index.
\<close>

section \<open>The accumulation loop\<close>

abbreviation weight_sum :: "u64 list \<Rightarrow> nat" where
  "weight_sum ws \<equiv> sum_list (map unat ws)"

lemma weight_total_from:
  assumes "t + weight_sum ws \<le> u128_max"
  shows "try_fold (\<lambda>t w. ok_or (u128_checked_add t (unat w)) Overflow) t ws = Ok (t + weight_sum ws)"
  using assms by (induction ws arbitrary: t) (auto simp: u128_checked_add_def add.assoc)

lemma weight_sum_bound: "weight_sum ws \<le> length ws * 18446744073709551615"
proof (induction ws)
  case (Cons w ws)
  then show ?case using unat_u64_le [of w] by (simp add: u64_max_def)
qed simp

lemma weight_total:
  assumes "length ws < 2 ^ 64"
  shows "try_fold (\<lambda>t w. ok_or (u128_checked_add t (unat w)) Overflow) 0 ws = Ok (weight_sum ws)"
proof -
  have "weight_sum ws \<le> 18446744073709551615 * 18446744073709551615"
    using weight_sum_bound [of ws] assms by (simp add: order_trans)
  then show ?thesis using weight_total_from [of 0 ws] by (simp add: u128_max_def)
qed

definition share :: "nat \<Rightarrow> u64 list \<Rightarrow> nat \<Rightarrow> nat" where
  "share n ws i = n * unat (ws ! i) div weight_sum ws"

definition remainder :: "nat \<Rightarrow> u64 list \<Rightarrow> nat \<Rightarrow> nat" where
  "remainder n ws i = n * unat (ws ! i) mod weight_sum ws"

lemma alloc_step_fold:
  assumes "0 < T" "n \<le> 9223372036854775808"
    and "assigned + sum_list (map (\<lambda>w. n * unat w div T) ws) \<le> u128_max"
  shows "try_fold (alloc_step n T) (ps, rs, assigned) (enumerate k ws) =
    Ok (ps @ map (\<lambda>w. n * unat w div T) ws,
        rs @ zip (map (\<lambda>w. n * unat w mod T) ws) [k..<k + length ws],
        assigned + sum_list (map (\<lambda>w. n * unat w div T) ws))"
  using assms(3)
proof (induction ws arbitrary: k ps rs assigned)
  case (Cons w ws)
  have "n * unat w \<le> 9223372036854775808 * 18446744073709551615"
    using assms(2) unat_u64_le [of w] by (intro mult_mono) (simp_all add: u64_max_def)
  then have "n * unat w \<le> u128_max" by (simp add: u128_max_def)
  then have "alloc_step n T (ps, rs, assigned) (k, w) =
      Ok (ps @ [n * unat w div T], rs @ [(n * unat w mod T, k)], assigned + n * unat w div T)"
    using assms(1) Cons.prems
    by (simp add: alloc_step_def u128_checked_mul_def u128_checked_add_def nat_checked_div_def
        nat_checked_rem_def)
  moreover have "[k..<k + length (w # ws)] = k # [Suc k..<Suc k + length ws]"
    by (simp add: upt_rec)
  ultimately show ?case using Cons by (simp add: add.assoc)
qed simp

section \<open>Distributing the leftover\<close>

lemma alloc_bump_spec:
  assumes "distinct order" "set order \<subseteq> {..<length parts}" "left \<le> length order"
    and "\<forall>i\<in>set order. parts ! i < u128_max"
  shows "alloc_bump order parts left =
    Ok (map (\<lambda>i. parts ! i + (if i \<in> set (take left order) then 1 else 0)) [0..<length parts])"
  using assms
proof (induction order arbitrary: parts left)
  case Nil
  then show ?case by (simp add: map_nth)
next
  case (Cons idx order)
  show ?case
  proof (cases left)
    case 0
    then show ?thesis by (simp add: map_nth)
  next
    case (Suc l)
    let ?p = "parts[idx := Suc (parts ! idx)]"
    have idx: "idx < length parts" "parts ! idx < u128_max" using Cons.prems by auto
    have out: "idx \<notin> set order" using Cons.prems(1) by simp
    then have "\<forall>i\<in>set order. ?p ! i < u128_max" using Cons.prems(4) by (metis list.set_intros(2) nth_list_update_neq)
    then have "alloc_bump order ?p l =
        Ok (map (\<lambda>i. ?p ! i + (if i \<in> set (take l order) then 1 else 0)) [0..<length ?p])"
      using Cons.prems Suc by (intro Cons.IH) auto
    moreover have "?p ! i + (if i \<in> set (take l order) then 1 else 0)
        = parts ! i + (if i = idx \<or> i \<in> set (take l order) then 1 else 0)" if "i < length parts" for i
      using that idx out in_set_takeD [of idx l order] by (auto simp: nth_list_update)
    ultimately show ?thesis
      using Suc idx by (auto simp: u128_checked_add_def nat_checked_sub_def)
  qed
qed

section \<open>The number of leftover units\<close>

lemma share_remainder_sum:
  "sum_list (map (\<lambda>w. n * unat w div T) ws) * T + sum_list (map (\<lambda>w. n * unat w mod T) ws)
     = n * weight_sum ws"
proof (induction ws)
  case (Cons w ws)
  have "n * unat w div T * T + n * unat w mod T = n * unat w" by simp
  with Cons show ?case by (simp add: algebra_simps)
qed simp

lemma share_sum_le:
  assumes "0 < weight_sum ws"
  shows "sum_list (map (\<lambda>w. n * unat w div weight_sum ws) ws) \<le> n"
proof -
  have "sum_list (map (\<lambda>w. n * unat w div weight_sum ws) ws) * weight_sum ws \<le> n * weight_sum ws"
    using share_remainder_sum [of n "weight_sum ws" ws] by linarith
  then show ?thesis using assms by simp
qed

lemma remainder_sum_le: "0 < T \<Longrightarrow> sum_list (map (\<lambda>w. n * unat w mod T) ws) \<le> length ws * T"
proof (induction ws)
  case (Cons w ws)
  then show ?case using mod_less_divisor [of T "n * unat w"] by (simp add: add_le_mono less_imp_le_nat)
qed simp

lemma leftover_le:
  assumes "0 < weight_sum ws"
  shows "n - sum_list (map (\<lambda>w. n * unat w div weight_sum ws) ws) \<le> length ws"
proof -
  let ?T = "weight_sum ws" and ?S = "sum_list (map (\<lambda>w. n * unat w div weight_sum ws) ws)"
  have "n * ?T \<le> ?S * ?T + length ws * ?T"
    using share_remainder_sum [of n ?T ws] remainder_sum_le [OF assms, of n ws] by linarith
  then have "n * ?T \<le> (?S + length ws) * ?T" by (simp add: algebra_simps)
  then have "n \<le> ?S + length ws" using assms by simp
  then show ?thesis by simp
qed

section \<open>The bonus positions\<close>

definition alloc_order :: "nat \<Rightarrow> u64 list \<Rightarrow> nat list" where
  "alloc_order n ws = map snd (sort_key (\<lambda>(r, i). (- int r, i))
     (zip (map (\<lambda>w. n * unat w mod weight_sum ws) ws) [0..<length ws]))"

definition bonus :: "nat \<Rightarrow> u64 list \<Rightarrow> nat set" where
  "bonus n ws = set (take (n - sum_list (map (\<lambda>w. n * unat w div weight_sum ws) ws)) (alloc_order n ws))"

lemma alloc_order_perm: "mset (alloc_order n ws) = mset [0..<length ws]"
proof -
  have "mset (alloc_order n ws) = image_mset snd
      (mset (zip (map (\<lambda>w. n * unat w mod weight_sum ws) ws) [0..<length ws]))"
    by (simp add: alloc_order_def)
  also have "\<dots> = mset (map snd (zip (map (\<lambda>w. n * unat w mod weight_sum ws) ws) [0..<length ws]))"
    by (simp only: mset_map)
  finally show ?thesis by simp
qed

lemma alloc_order_facts:
  "distinct (alloc_order n ws)" "set (alloc_order n ws) = {..<length ws}"
  "length (alloc_order n ws) = length ws"
  using alloc_order_perm [of n ws]
  by (metis distinct_upt mset_eq_imp_distinct_iff, metis atLeast_upt set_mset_mset,
      metis size_mset length_upt diff_zero)

lemma bonus_subset: "bonus n ws \<subseteq> {..<length ws}"
  unfolding bonus_def using set_take_subset alloc_order_facts(2) by fastforce

lemma card_bonus:
  assumes "0 < weight_sum ws"
  shows "card (bonus n ws) = n - sum_list (map (\<lambda>w. n * unat w div weight_sum ws) ws)"
  using leftover_le [OF assms, of n] alloc_order_facts [of n ws]
  by (simp add: bonus_def distinct_card distinct_take min_def)

lemma alloc_order_sorted:
  "sorted_wrt (\<lambda>i j. remainder n ws j < remainder n ws i \<or> remainder n ws j = remainder n ws i \<and> i < j)
     (alloc_order n ws)"
proof -
  let ?z = "zip (map (\<lambda>w. n * unat w mod weight_sum ws) ws) [0..<length ws]"
  let ?s = "sort_key (\<lambda>(r, i). (- int r, i)) ?z"
  have mem: "r = remainder n ws i" if "(r, i) \<in> set ?z" for r i
    using that by (auto simp: set_zip remainder_def)
  have "sorted_wrt (\<le>) (map (\<lambda>(r, i). (- int r, i)) ?s)" by (rule sorted_sort_key)
  moreover have "sorted_wrt (\<noteq>) (map snd ?s)"
    using alloc_order_facts(1) [of n ws] by (simp add: alloc_order_def distinct_map distinct_conv_nth sorted_wrt_iff_nth_less)
  ultimately have "sorted_wrt (\<lambda>p q. (case p of (r, i) \<Rightarrow> (- int r, i)) \<le> (case q of (r, i) \<Rightarrow> (- int r, i)) \<and> snd p \<noteq> snd q) ?s"
    by (simp add: sorted_wrt_map sorted_wrt_iff_nth_less)
  then have "sorted_wrt (\<lambda>p q. remainder n ws (snd q) < remainder n ws (snd p)
      \<or> remainder n ws (snd q) = remainder n ws (snd p) \<and> snd p < snd q) ?s"
    by (rule sorted_wrt_mono_rel [rotated]) (auto dest!: mem simp: less_eq_prod_def)
  then show ?thesis unfolding alloc_order_def by (simp add: sorted_wrt_map)
qed

lemma bonus_largest:
  assumes "i \<in> bonus n ws" "j < length ws" "j \<notin> bonus n ws"
  shows "remainder n ws j < remainder n ws i \<or> remainder n ws j = remainder n ws i \<and> i < j"
proof -
  let ?k = "n - sum_list (map (\<lambda>w. n * unat w div weight_sum ws) ws)"
  have "j \<in> set (drop ?k (alloc_order n ws))"
    using assms(2,3) alloc_order_facts(2) [of n ws]
    by (metis Un_iff append_take_drop_id bonus_def lessThan_iff set_append)
  moreover have "i \<in> set (take ?k (alloc_order n ws))" using assms(1) by (simp add: bonus_def)
  moreover have "sorted_wrt (\<lambda>i j. remainder n ws j < remainder n ws i \<or> remainder n ws j = remainder n ws i \<and> i < j)
      (take ?k (alloc_order n ws) @ drop ?k (alloc_order n ws))"
    unfolding append_take_drop_id by (rule alloc_order_sorted)
  ultimately show ?thesis unfolding sorted_wrt_append by blast
qed

lemma sum_indicator: "sum_list (map (\<lambda>i. if i \<in> B then 1 else 0) [0..<N]) = card (B \<inter> {..<N})"
proof (induction N)
  case (Suc N)
  have "B \<inter> {..<Suc N} = (if N \<in> B then insert N (B \<inter> {..<N}) else B \<inter> {..<N})"
    by (auto simp: less_Suc_eq)
  then show ?case using Suc by simp
qed simp

lemma sum_list_signed:
  "sum_list (map (\<lambda>i. - int (f i)) xs) = - int (sum_list (map f xs))"
  "sum_list (map (\<lambda>i. int (f i)) xs) = int (sum_list (map f xs))"
  by (induction xs) auto

section \<open>The parts\<close>

definition part :: "nat \<Rightarrow> u64 list \<Rightarrow> nat \<Rightarrow> nat" where
  "part n ws i = share n ws i + (if i \<in> bonus n ws then 1 else 0)"

lemma sum_parts:
  assumes "0 < weight_sum ws"
  shows "sum_list (map (part n ws) [0..<length ws]) = n"
proof -
  let ?S = "sum_list (map (\<lambda>w. n * unat w div weight_sum ws) ws)"
  have "map (share n ws) [0..<length ws] = map (\<lambda>w. n * unat w div weight_sum ws) ws"
    by (intro nth_equalityI) (simp_all add: share_def)
  then have "sum_list (map (share n ws) [0..<length ws]) = ?S" by (simp only:)
  moreover have "sum_list (map (\<lambda>i. if i \<in> bonus n ws then 1 else 0) [0..<length ws]) = card (bonus n ws)"
    using bonus_subset [of n ws] by (simp add: sum_indicator Int_absorb2)
  ultimately have "sum_list (map (part n ws) [0..<length ws]) = ?S + card (bonus n ws)"
    unfolding part_def by (simp add: sum_list_addf)
  then show ?thesis using card_bonus [OF assms, of n] share_sum_le [OF assms, of n] by simp
qed

lemma allocate_parts:
  assumes "ws \<noteq> []" "0 < weight_sum ws" "length ws < 2 ^ 64" "n = nat \<bar>amt a\<bar>"
  shows "allocate a ws = try_map (alloc_signed (amt a < 0)) (map (part n ws) [0..<length ws])"
proof -
  let ?T = "weight_sum ws" and ?q = "map (\<lambda>w. n * unat w div weight_sum ws) ws"
  let ?z = "zip (map (\<lambda>w. n * unat w mod ?T) ws) [0..<length ws]"
  have n: "n = i64_unsigned_abs (to_minor a)" using assms(4) by (simp add: i64_unsigned_abs_def amt_def)
  then have nb: "n \<le> 9223372036854775808" using i64_unsigned_abs_bound by simp
  have q: "sum_list ?q \<le> n" by (rule share_sum_le [OF assms(2)])
  then have fold: "try_fold (alloc_step n ?T) ([], [], 0) (enumerate 0 ws) = Ok (?q, ?z, sum_list ?q)"
    using alloc_step_fold [OF assms(2) nb, of 0 ws "[]" "[]" 0] nb by (simp add: u128_max_def)
  have small: "?q ! i < u128_max" if "i < length ws" for i
    using member_le_sum_list [of "?q ! i" ?q] that q nb by (simp add: u128_max_def)
  have "alloc_bump (alloc_order n ws) ?q (n - sum_list ?q) = Ok (map (part n ws) [0..<length ws])"
    using alloc_order_facts [of n ws] leftover_le [OF assms(2), of n] small
    by (subst alloc_bump_spec) (simp_all add: part_def share_def bonus_def)
  then show ?thesis
    using weight_total [OF assms(3)] assms(1,2) q fold
    by (simp add: allocate_def n [symmetric] nat_checked_sub_def alloc_order_def amt_def Let_def
        del: sum_list_eq_0_iff)
qed

lemma alloc_signed_Ok:
  assumes "int p \<le> i64_max"
  shows "\<exists>v. alloc_signed neg p = Ok v \<and> amt v = (if neg then - int p else int p)"
proof -
  have p: "in_i64 (int p)" "in_i64 (- int p)" using assms by (auto simp: in_i64_def i64_min_def i64_max_def)
  then obtain v u where v: "i64_try (int p) = Some v" and u: "i64_try (- int p) = Some u"
    by (meson i64_try_None not_Some_eq)
  have amts: "sint v = int p" "sint u = - int p" using v u by auto
  then have "i64_checked_neg v = Some u" by (simp add: i64_checked_neg_def)
  then have "alloc_signed neg p = Ok (if neg then Amount u else Amount v)"
    by (simp only: alloc_signed_def v ok_or.simps bindR.simps option.map if_cancel split: if_split) simp
  then show ?thesis using amts by (auto simp: amt_def)
qed

text \<open>
  C38. Splitting any amount but the smallest over weights that are not all zero succeeds. The parts
  re-sum to the amount exactly, each is its proportional share rounded down in magnitude or one
  minor unit more and never of the opposite sign, and the extra units go to the positions with the
  largest remainders, ties to the lowest index.
\<close>

theorem allocate_exact:
  assumes "0 < weight_sum ws" "length ws < 2 ^ 64" "a \<noteq> amount_min"
  shows "\<exists>parts B. allocate a ws = Ok parts \<and> length parts = length ws
    \<and> sum_list (map amt parts) = amt a
    \<and> (\<forall>i < length ws. \<bar>amt (parts ! i)\<bar> = int (share (nat \<bar>amt a\<bar>) ws i + (if i \<in> B then 1 else 0))
         \<and> amt a * amt (parts ! i) \<ge> 0)
    \<and> (\<forall>i j. i \<in> B \<and> j < length ws \<and> j \<notin> B \<longrightarrow>
          remainder (nat \<bar>amt a\<bar>) ws j < remainder (nat \<bar>amt a\<bar>) ws i
          \<or> remainder (nat \<bar>amt a\<bar>) ws j = remainder (nat \<bar>amt a\<bar>) ws i \<and> i < j)"
proof -
  define n where "n = nat \<bar>amt a\<bar>"
  have nmax: "int n \<le> i64_max"
    using assms(3) amt_range [of a] amt_inj [of a amount_min] by (auto simp: n_def amt_min i64_min_def i64_max_def)
  have le: "part n ws i \<le> n" if "i < length ws" for i
    using member_le_sum_list [of "part n ws i" "map (part n ws) [0..<length ws]"] sum_parts [OF assms(1), of n] that
    by auto
  define g where "g p = of_amt (if amt a < 0 then - int p else int p)" for p
  have g: "alloc_signed (amt a < 0) p = Ok (g p) \<and> amt (g p) = (if amt a < 0 then - int p else int p)" if "p \<le> n" for p
  proof -
    have "int p \<le> i64_max" using that nmax by linarith
    then obtain v where v: "alloc_signed (amt a < 0) p = Ok v" "amt v = (if amt a < 0 then - int p else int p)"
      using alloc_signed_Ok by blast
    moreover have "g p = v" by (simp only: g_def of_amt_amt flip: v(2))
    ultimately show ?thesis by simp
  qed
  let ?parts = "map (g \<circ> part n ws) [0..<length ws]"
  have "ws \<noteq> []" using assms(1) by auto
  then have "allocate a ws = Ok ?parts"
    using assms g le by (subst allocate_parts [where n = n]) (auto simp: n_def try_map_Ok list_all2_conv_all_nth)
  moreover have "sum_list (map amt ?parts) = (if amt a < 0 then - int n else int n)"
  proof -
    have eq: "map amt ?parts = map (\<lambda>i. if amt a < 0 then - int (part n ws i) else int (part n ws i)) [0..<length ws]"
      using g le by simp
    moreover have "int (sum_list (map (part n ws) [0..<length ws])) = int n" using sum_parts [OF assms(1)] by simp
    ultimately show ?thesis by (cases "amt a < 0") (simp_all add: sum_list_signed del: map_map)
  qed
  ultimately show ?thesis
    using g le bonus_largest [of _ n ws]
    by (intro exI [of _ ?parts] exI [of _ "bonus n ws"]) (auto simp: n_def part_def mult_nonpos_nonpos)
qed

lemma allocate_exact_witness:
  "0 < weight_sum [1, 1, 1] \<and> length ([1, 1, 1] :: u64 list) < 2 ^ 64 \<and> Amount (- 100) \<noteq> amount_min
   \<and> (\<exists>parts. allocate (Amount (- 100)) [1, 1, 1] = Ok parts \<and> sum_list (map amt parts) = - 100)"
proof -
  have h: "0 < weight_sum [1, 1, 1]" "length ([1, 1, 1] :: u64 list) < 2 ^ 64" "Amount (- 100) \<noteq> amount_min"
    by (simp, simp, code_simp)
  have "amt (Amount (- 100)) = - 100" by (simp add: amt_def)
  with allocate_exact [OF h] h show ?thesis by auto
qed

text \<open>
  Distributing the smallest amount to a single part reports \<^verbatim>\<open>Overflow\<close>, although that part is
  representable: the sign is restored after the conversion to \<^verbatim>\<open>i64\<close>.
\<close>

theorem distribute_min_one: "distribute amount_min 1 = Err Overflow"
  by code_simp

end
