(* ===== verification/Money_Text.thy ===== *)
theory Money_Text
  imports Money
begin

text \<open>
  The decimal form of an amount: \<^verbatim>\<open>Display\<close> and \<^verbatim>\<open>Amount::parse\<close> are inverse on every amount but
  the smallest, which parse refuses.
\<close>

lemma digits_value_snoc: "digits_value (ds @ [d]) = 10 * digits_value ds + (d - 48)"
  by (simp add: digits_value_def)

lemma digits_value_bound: "list_all is_digit ds \<Longrightarrow> digits_value ds < 10 ^ length ds"
proof (induction ds rule: rev_induct)
  case (snoc d ds)
  then have "digits_value ds + 1 \<le> 10 ^ length ds" "d - 48 \<le> 9" by (auto simp: is_digit_def)
  then show ?case by (simp add: digits_value_snoc)
qed (simp add: digits_value_def)

lemma sint_frac_digit:
  assumes "list_all is_digit fs" "i < length fs"
  shows "sint (frac_digit fs i) = int (fs ! i - 48)"
proof -
  have d: "48 \<le> fs ! i" "fs ! i \<le> 57" using assms by (auto simp: list_all_length is_digit_def)
  have "(of_nat (fs ! i) - 48 :: byte) = of_nat (fs ! i - 48)"
    using of_nat_diff [OF d(1), where 'a = byte] by simp
  then have "unat (of_nat (fs ! i) - 48 :: byte) = fs ! i - 48"
    using d by (simp only: unat_byte)
  then have "frac_digit fs i = of_nat (fs ! i - 48)"
    using assms by (simp add: frac_digit_def utf8_ascii [OF digit_ascii] del: of_nat_diff)
  also have "\<dots> = word_of_int (int (fs ! i - 48))" by (simp del: of_nat_diff)
  finally show ?thesis
    by (simp only:) (rule sint_i64_of_int, use d in \<open>simp add: in_i64_def i64_min_def i64_max_def\<close>)
qed

lemma frac_fold:
  assumes "list_all is_digit fs" "length fs = P" "P \<le> 18" "k \<le> P"
  shows "\<exists>f. try_fold (frac_step fs) 0 [0..<k] = Ok f \<and> sint f = int (digits_value (take k fs))"
  using assms(4)
proof (induction k)
  case 0
  show ?case by (simp add: digits_value_def)
next
  case (Suc k)
  then obtain f where f: "try_fold (frac_step fs) 0 [0..<k] = Ok f" "sint f = int (digits_value (take k fs))"
    by auto
  have k: "k < length fs" using Suc.prems assms(2) by simp
  have val: "digits_value (take (Suc k) fs) = 10 * digits_value (take k fs) + (fs ! k - 48)"
    using k by (simp add: take_Suc_conv_app_nth digits_value_snoc)
  have "digits_value (take (Suc k) fs) < 10 ^ length (take (Suc k) fs)"
    by (rule digits_value_bound) (use assms(1) in \<open>auto simp: list_all_iff dest: in_set_takeD\<close>)
  moreover have "(10::nat) ^ length (take (Suc k) fs) \<le> 10 ^ 18"
    using assms(2,3) by (intro power_increasing) auto
  ultimately have b: "digits_value (take (Suc k) fs) < 1000000000000000000" by simp
  then have r: "in_i64 (int (digits_value (take (Suc k) fs)))" "in_i64 (sint f * 10)"
    unfolding val f(2) by (auto simp: in_i64_def i64_min_def i64_max_def)
  then obtain m where m: "i64_checked_mul f 10 = Some m" "sint m = sint f * 10"
    by (cases "i64_checked_mul f 10") (auto simp: i64_checked_mul_def)
  have "in_i64 (sint m + sint (frac_digit fs k))"
    using r(1) unfolding val m(2) f(2) sint_frac_digit [OF assms(1) k] by (simp add: algebra_simps)
  then obtain g where g: "i64_checked_add m (frac_digit fs k) = Some g" "sint g = sint m + sint (frac_digit fs k)"
    by (cases "i64_checked_add m (frac_digit fs k)") (auto simp: i64_checked_add_def)
  have "frac_step fs f k = Ok g" using m g by (simp add: frac_step_def)
  moreover have "sint g = int (digits_value (take (Suc k) fs))"
    unfolding g(2) m(2) f(2) val sint_frac_digit [OF assms(1) k] by simp
  ultimately show ?case using f(1) by (auto simp: try_fold_append)
qed

lemma str_trim_id: "s \<noteq> [] \<Longrightarrow> \<not> is_whitespace (hd s) \<Longrightarrow> \<not> is_whitespace (last s) \<Longrightarrow> str_trim s = s"
  by (simp add: str_trim_def dropWhile_eq_self_iff [THEN iffD2] hd_rev)

lemma digit_not_ws: "is_digit c \<Longrightarrow> \<not> is_whitespace c"
  by (auto simp: is_digit_def is_whitespace_def)

lemma digits_bytes: "list_all is_digit s \<Longrightarrow> list_all is_ascii_digit (utf8 s)"
proof (induction s)
  case (Cons c s)
  then have c: "48 \<le> c" "c \<le> 57" by (auto simp: is_digit_def)
  have "is_ascii_digit (of_nat c)"
    unfolding is_ascii_digit_def word_le_nat_alt using c by (simp add: unat_byte)
  then show ?case using Cons c by (simp add: utf8_char_def)
qed simp

lemma digits_no_char: "list_all is_digit s \<Longrightarrow> c < 48 \<Longrightarrow> c \<notin> set s"
  by (auto simp: list_all_iff is_digit_def)

lemma trim_end_length: "length (trim_end_matches c s) \<le> length s"
  by (simp add: trim_end_matches_def) (metis length_dropWhile_le length_rev)

text \<open>What parse does once the sign, the whole part and the fraction are told apart.\<close>

lemma parse_shape:
  assumes "list_all is_digit ws" "ws \<noteq> []" "list_all is_digit fs" "length fs = P"
    and "str = (if neg then [45] else []) @ (if P = 0 then ws else ws @ [46] @ fs)"
  shows "amount_parse P str =
    bindR (ok_or (i64_from_digits ws) Overflow) (\<lambda>whole.
    bindR (try_fold (frac_step fs) 0 [0..<P]) (\<lambda>frac.
    bindR (ok_or (Option.bind (i64_checked_mul whole (pow10 P)) (\<lambda>w. i64_checked_add w frac)) Overflow)
      (\<lambda>value. if neg then ok_or (map_option Amount (i64_checked_neg value)) Overflow
        else Ok (Amount value))))"
proof -
  let ?ds = "if P = 0 then ws else ws @ [46] @ fs"
  have ne: "?ds \<noteq> []" "str \<noteq> []" using assms(2,5) by auto
  have hd_ds: "is_digit (hd ?ds)" using assms(1,2) by (cases ws) auto
  have last_ds: "is_digit (last ?ds)"
    using assms(1-4) by (cases "fs = []") (auto simp: list_all_iff)
  have "\<not> is_whitespace (hd str)"
    using digit_not_ws [OF hd_ds] ne assms(5) by (cases neg) (simp_all add: is_whitespace_def [of 45])
  moreover have "\<not> is_whitespace (last str)" using last_ds ne assms(5) by (auto simp: digit_not_ws)
  ultimately have trim: "str_trim str = str" using ne by (intro str_trim_id) auto
  have strip: "strip_prefix 45 ?ds = None" "strip_prefix 43 ?ds = None"
    using hd_ds ne by (cases ws; auto simp: is_digit_def split: if_splits)+
  have split: "split_once 46 ?ds = (if P = 0 then None else Some (ws, fs))"
    using digits_no_char [OF assms(1), of 46] by (auto simp: split_once_None split_once_Some)
  have fl: "length (utf8 (trim_end_matches 48 fs)) \<le> P"
  proof -
    have "list_all is_digit (trim_end_matches 48 fs)"
      using assms(3) by (auto simp: trim_end_matches_def list_all_iff dest: set_dropWhileD)
    then show ?thesis using trim_end_length [of 48 fs] assms(4) by (simp add: utf8_ascii [OF digit_ascii])
  qed
  have strp: "strip_prefix 45 str = (if neg then Some ?ds else None)" "\<not> neg \<Longrightarrow> strip_prefix 43 str = None"
    using strip assms(5) by auto
  show ?thesis
  proof (cases "P = 0")
    case True
    then have "fs = []" "str = (if neg then [45] else []) @ ws" using assms(4,5) by auto
    then show ?thesis
      unfolding amount_parse_def trim Let_def
      using True strp strip split assms(1,2) by (simp add: digits_bytes trim_end_matches_def)
  next
    case False
    then show ?thesis
      unfolding amount_parse_def trim Let_def
      using strp strip split assms fl ne by (simp add: digits_bytes)
  qed
qed

lemma whole_le: "int n \<le> int n * 10 ^ P"
proof -
  have "(1::int) \<le> 10 ^ P" by simp
  then show ?thesis by (simp add: mult_le_cancel_left1)
qed

lemma parse_digits:
  assumes "list_all is_digit ws" "ws \<noteq> []" "list_all is_digit fs" "length fs = P" "P \<le> 18"
    and "str = (if neg then [45] else []) @ (if P = 0 then ws else ws @ [46] @ fs)"
    and "z = int (digits_value ws) * 10 ^ P + int (digits_value fs)" "z \<le> i64_max"
    and "amt a = (if neg then - z else z)"
  shows "amount_parse P str = Ok a"
proof -
  have r: "in_i64 (int (digits_value ws))" "in_i64 (int (digits_value ws) * 10 ^ P)" "in_i64 z" "in_i64 (- z)"
    using assms(7,8) whole_le [of "digits_value ws" P] by (auto simp: in_i64_def i64_min_def i64_max_def)
  obtain w where w: "i64_from_digits ws = Some w" "sint w = int (digits_value ws)"
    using r(1) by (cases "i64_from_digits ws") (auto simp: i64_from_digits_def)
  obtain f where f: "try_fold (frac_step fs) 0 [0..<P] = Ok f" "sint f = int (digits_value fs)"
    using frac_fold [OF assms(3-5) order_refl] assms(4) by auto
  obtain m where m: "i64_checked_mul w (pow10 P) = Some m" "sint m = int (digits_value ws) * 10 ^ P"
    using r(2) w pow10_value [OF assms(5)]
    by (cases "i64_checked_mul w (pow10 P)") (auto simp: i64_checked_mul_def)
  obtain v where v: "i64_checked_add m f = Some v" "sint v = z"
    using r(3) m f assms(7) by (cases "i64_checked_add m f") (auto simp: i64_checked_add_def)
  obtain u where u: "i64_checked_neg v = Some u" "sint u = - z"
    using r(4) v by (cases "i64_checked_neg v") (auto simp: i64_checked_neg_def)
  have "neg \<Longrightarrow> Amount u = a" "\<not> neg \<Longrightarrow> Amount v = a"
    using u v assms(9) by (auto simp: amt_inj [symmetric] amt_def)
  then show ?thesis unfolding parse_shape [OF assms(1-4,6)] by (simp add: w f m v u)
qed

lemma parse_digits_overflow:
  assumes "list_all is_digit ws" "ws \<noteq> []" "list_all is_digit fs" "length fs = P" "P \<le> 18"
    and "str = (if neg then [45] else []) @ (if P = 0 then ws else ws @ [46] @ fs)"
    and "i64_max < int (digits_value ws) * 10 ^ P + int (digits_value fs)"
  shows "amount_parse P str = Err Overflow"
proof -
  obtain f where f: "try_fold (frac_step fs) 0 [0..<P] = Ok f" "sint f = int (digits_value fs)"
    using frac_fold [OF assms(3-5) order_refl] assms(4) by auto
  have "Option.bind (i64_checked_mul w (pow10 P)) (\<lambda>m. i64_checked_add m f) = None"
    if "i64_from_digits ws = Some w" for w
  proof (cases "i64_checked_mul w (pow10 P)")
    case (Some m)
    then have "sint m = int (digits_value ws) * 10 ^ P"
      using that pow10_value [OF assms(5)] by (simp add: i64_checked_mul_def i64_from_digits_def)
    then have "\<not> in_i64 (sint m + sint f)" using f(2) assms(7) by (simp add: in_i64_def)
    then show ?thesis using Some by (simp add: i64_checked_add_def)
  qed simp
  then show ?thesis
    unfolding parse_shape [OF assms(1-4,6)] by (cases "i64_from_digits ws") (simp_all add: f)
qed

lemma display_parts:
  assumes "0 < P"
  shows "length (pad_zeros P (dec_digits (n mod 10 ^ P))) = P"
    and "list_all is_digit (pad_zeros P (dec_digits (n mod 10 ^ P)))"
    and "digits_value (pad_zeros P (dec_digits (n mod 10 ^ P))) = n mod 10 ^ P"
proof -
  have "n mod 10 ^ P < 10 ^ P" by simp
  then have "length (dec_digits (n mod 10 ^ P)) \<le> P" using assms(1) by (rule dec_digits_length)
  then show "length (pad_zeros P (dec_digits (n mod 10 ^ P))) = P" by (simp add: pad_zeros_def)
  show "list_all is_digit (pad_zeros P (dec_digits (n mod 10 ^ P)))"
    using dec_digits_digit by (auto simp: pad_zeros_def list_all_iff is_digit_def [of 48])
  show "digits_value (pad_zeros P (dec_digits (n mod 10 ^ P))) = n mod 10 ^ P"
    by (simp add: pad_zeros_def digits_value_zeros digits_value_dec)
qed

lemma divisor_value: "P \<le> 18 \<Longrightarrow> i64_unsigned_abs (pow10 P) = 10 ^ P"
  by (simp add: i64_unsigned_abs_def pow10_value nat_power_eq)

lemma display_shape:
  assumes "P \<le> 18"
  obtains ws fs where "list_all is_digit ws" "ws \<noteq> []" "list_all is_digit fs" "length fs = P"
    "amount_display P a = (if amt a < 0 then [45] else []) @ (if P = 0 then ws else ws @ [46] @ fs)"
    "\<bar>amt a\<bar> = int (digits_value ws) * 10 ^ P + int (digits_value fs)"
proof -
  define n where "n = nat \<bar>amt a\<bar>"
  define ws where "ws = dec_digits (n div 10 ^ P)"
  define fs where "fs = (if P = 0 then [] else pad_zeros P (dec_digits (n mod 10 ^ P)))"
  have n: "i64_unsigned_abs (to_minor a) = n" by (simp add: n_def amt_def i64_unsigned_abs_def)
  have fs: "length fs = P" "list_all is_digit fs" "digits_value fs = n mod 10 ^ P"
    using display_parts [of P n] by (cases "P = 0"; simp add: fs_def digits_value_def)+
  have shown: "amount_display P a = (if amt a < 0 then [45] else []) @ (if P = 0 then ws else ws @ [46] @ fs)"
    using assms(1) by (auto simp: amount_display_def n divisor_value ws_def fs_def int_display_def n_def amt_def Let_def)
  have "digits_value ws = n div 10 ^ P" by (simp add: ws_def digits_value_dec)
  then have "n = digits_value ws * 10 ^ P + digits_value fs" using fs(3) div_mult_mod_eq [of n "10 ^ P"] by simp
  then have "int n = int (digits_value ws) * 10 ^ P + int (digits_value fs)"
    by (metis of_nat_add of_nat_mult of_nat_numeral of_nat_power)
  moreover have "\<bar>amt a\<bar> = int n" by (simp add: n_def)
  ultimately show ?thesis
    using that [of ws fs] fs(1,2) shown dec_digits_digit dec_digits_nonempty by (simp add: ws_def)
qed

text \<open>
  Every amount except the smallest one prints to a decimal literal that parses back to the
  same amount, at every scale that compiles.
\<close>

theorem amount_display_parse:
  assumes "P \<le> 18" "a \<noteq> amount_min"
  shows "amount_parse P (amount_display P a) = Ok a"
proof -
  have "\<bar>amt a\<bar> \<le> i64_max"
    using assms(2) amt_range [of a] amt_inj [of a amount_min] by (auto simp: amt_min i64_min_def i64_max_def)
  moreover have "amt a = (if amt a < 0 then - \<bar>amt a\<bar> else \<bar>amt a\<bar>)" by simp
  ultimately show ?thesis
    using parse_digits [OF _ _ _ _ assms(1), where z = "\<bar>amt a\<bar>" and a = a] display_shape [OF assms(1), of a] by metis
qed

lemma amount_display_parse_witness:
  "(2::nat) \<le> 18 \<and> Amount (- 1205) \<noteq> amount_min
   \<and> amount_parse 2 (amount_display 2 (Amount (- 1205))) = Ok (Amount (- 1205))"
proof -
  have "(2::nat) \<le> 18" "Amount (- 1205) \<noteq> amount_min" by (simp, code_simp)
  then show ?thesis using amount_display_parse [of 2 "Amount (- 1205)"] by blast
qed

text \<open>
  The smallest amount prints, but its literal is refused with \<^verbatim>\<open>Overflow\<close> at every scale that
  compiles: the magnitude is built before the sign is applied.
\<close>

theorem amount_min_refused:
  assumes "P \<le> 18"
  shows "amount_parse P (amount_display P amount_min) = Err Overflow"
proof -
  have "i64_max < \<bar>amt amount_min\<bar>" by (simp add: amt_min i64_min_def i64_max_def)
  then show ?thesis
    using parse_digits_overflow [OF _ _ _ _ assms] display_shape [OF assms, of amount_min] by metis
qed

lemma amount_min_refused_witness:
  "(2::nat) \<le> 18 \<and> amount_parse 2 (amount_display 2 amount_min) = Err Overflow"
  using amount_min_refused [of 2] by simp

end
