(* ===== verification/Canonical.thy ===== *)
theory Canonical
  imports Unicode Machine_Words
begin

text \<open>
  \<^verbatim>\<open>src/canonical.rs\<close>: the canonical byte encoding. A method of \<^verbatim>\<open>CanonicalWriter\<close> only appends to
  the writer's buffer, so each is modelled by the bytes it appends and a chain of calls by their
  concatenation. The contract every encoder must meet is the locale \<open>prefix_code\<close>: two valid values
  whose encodings start the same stream are the same value and leave the same rest.
\<close>

named_theorems prefix_iffs \<open>an encoded field at the head of two equal streams\<close>

section \<open>Fixed-width integers\<close>

fun le_bytes :: "nat \<Rightarrow> nat \<Rightarrow> byte list" where
  "le_bytes 0 x = []"
| "le_bytes (Suc n) x = of_nat (x mod 256) # le_bytes n (x div 256)"

fun le_val :: "byte list \<Rightarrow> nat" where
  "le_val [] = 0"
| "le_val (b # bs) = unat b + 256 * le_val bs"

definition be_bytes :: "nat \<Rightarrow> nat \<Rightarrow> byte list" where
  "be_bytes n x = rev (le_bytes n x)"

definition be_val :: "byte list \<Rightarrow> nat" where
  "be_val bs = le_val (rev bs)"

lemma length_le_bytes [simp]: "length (le_bytes n x) = n"
  by (induction n x rule: le_bytes.induct) auto

lemma length_be_bytes [simp]: "length (be_bytes n x) = n"
  by (simp add: be_bytes_def)

lemma le_val_bytes: "le_val (le_bytes n x) = x mod 256 ^ n"
proof (induction n x rule: le_bytes.induct)
  case (2 n x)
  have "unat (of_nat (x mod 256) :: byte) = x mod 256" by (rule unat_byte) simp
  then have "le_val (le_bytes (Suc n) x) = x mod 256 + 256 * (x div 256 mod 256 ^ n)"
    by (simp only: le_bytes.simps le_val.simps 2)
  then show ?case by (simp add: mod_mult2_eq)
qed simp

lemma le_bytes_val: "length bs = n \<Longrightarrow> le_bytes n (le_val bs) = bs"
proof (induction bs arbitrary: n)
  case (Cons b bs)
  have b: "unat b < 256" using unat_bound [of b] by simp
  have "(unat b + 256 * le_val bs) div 256 = le_val bs" "(unat b + 256 * le_val bs) mod 256 = unat b"
    using b by simp_all
  then show ?case using Cons by (cases n) (simp_all del: of_nat_add)
qed simp

lemma le_bytes_inj: "x < 256 ^ n \<Longrightarrow> y < 256 ^ n \<Longrightarrow> le_bytes n x = le_bytes n y \<longleftrightarrow> x = y"
  by (metis le_val_bytes mod_less)

lemma le_val_bound: "le_val bs < 256 ^ length bs"
proof (induction bs)
  case (Cons b bs)
  have "unat b < 256" using unat_bound [of b] by simp
  with Cons show ?case by simp
qed simp

lemma be_val_bytes: "be_val (be_bytes n x) = x mod 256 ^ n"
  by (simp add: be_val_def be_bytes_def le_val_bytes)

lemma be_bytes_val: "length bs = n \<Longrightarrow> be_bytes n (be_val bs) = bs"
  by (simp add: be_val_def be_bytes_def le_bytes_val)

lemma be_val_bound: "be_val bs < 256 ^ length bs"
  using le_val_bound [of "rev bs"] by (simp add: be_val_def)

section \<open>The writer's methods\<close>

definition enc_u8 :: "u8 \<Rightarrow> byte list" where "enc_u8 v = [v]"
definition enc_u16 :: "u16 \<Rightarrow> byte list" where "enc_u16 v = le_bytes 2 (unat v)"
definition enc_u32 :: "u32 \<Rightarrow> byte list" where "enc_u32 v = le_bytes 4 (unat v)"
definition enc_u64 :: "u64 \<Rightarrow> byte list" where "enc_u64 v = le_bytes 8 (unat v)"
definition enc_i32 :: "32 word \<Rightarrow> byte list" where "enc_i32 v = le_bytes 4 (unat v)"
definition enc_i64 :: "i64 \<Rightarrow> byte list" where "enc_i64 v = le_bytes 8 (unat v)"
definition enc_u128 :: "u128 \<Rightarrow> byte list" where "enc_u128 v = le_bytes 16 (unat v)"
definition enc_bool :: "bool \<Rightarrow> byte list" where "enc_bool v = [if v then 1 else 0]"

definition enc_bytes :: "byte list \<Rightarrow> byte list" where
  "enc_bytes v = enc_u64 (of_nat (length v)) @ v"

definition enc_str :: "ustr \<Rightarrow> byte list" where
  "enc_str v = enc_bytes (utf8 v)"

definition enc_fixed :: "byte list \<Rightarrow> byte list" where
  "enc_fixed v = v"

definition enc_option :: "('a \<Rightarrow> byte list) \<Rightarrow> 'a option \<Rightarrow> byte list" where
  "enc_option f v = (case v of None \<Rightarrow> enc_u8 0 | Some inner \<Rightarrow> enc_u8 1 @ f inner)"

definition enc_seq :: "('a \<Rightarrow> byte list) \<Rightarrow> 'a list \<Rightarrow> byte list" where
  "enc_seq f items = enc_u64 (of_nat (length items)) @ concat (map f items)"

section \<open>The contract of an encoder\<close>

locale prefix_code =
  fixes enc :: "'a \<Rightarrow> 'b list" and valid :: "'a \<Rightarrow> bool"
  assumes prefix_free: "valid x \<Longrightarrow> valid y \<Longrightarrow> enc x @ r = enc y @ s \<Longrightarrow> x = y \<and> r = s"
begin

lemma append_iff: "valid x \<Longrightarrow> valid y \<Longrightarrow> enc x @ r = enc y @ s \<longleftrightarrow> x = y \<and> r = s"
  using prefix_free by blast

lemma enc_inj: "valid x \<Longrightarrow> valid y \<Longrightarrow> enc x = enc y \<longleftrightarrow> x = y"
  using append_iff [of x y "[]" "[]"] by simp

lemma inj_on_valid: "inj_on enc {x. valid x}"
  by (rule inj_onI) (simp add: enc_inj)

lemma concat_prefix_free:
  "list_all valid xs \<Longrightarrow> list_all valid ys \<Longrightarrow> length xs = length ys \<Longrightarrow>
    concat (map enc xs) @ r = concat (map enc ys) @ s \<Longrightarrow> xs = ys \<and> r = s"
proof (induction xs arbitrary: ys)
  case (Cons x xs)
  then obtain y ys' where ys: "ys = y # ys'" by (cases ys) auto
  have "enc x @ concat (map enc xs) @ r = enc y @ concat (map enc ys') @ s"
    using Cons.prems(4) ys by simp
  then have "x = y \<and> concat (map enc xs) @ r = concat (map enc ys') @ s"
    using Cons.prems(1,2) ys by (intro prefix_free) auto
  then show ?case using Cons.IH [of ys'] Cons.prems(1-3) ys by auto
qed simp

end

lemma fixed_width_prefix_code:
  assumes "\<And>x y. valid x \<Longrightarrow> valid y \<Longrightarrow> length (enc x) = length (enc y)"
    and "\<And>x y. valid x \<Longrightarrow> valid y \<Longrightarrow> enc x = enc y \<Longrightarrow> x = y"
  shows "prefix_code enc valid"
  by standard (use assms in \<open>metis append_eq_append_conv\<close>)

lemma unat_inj: "unat (a :: 'a::len word) = unat b \<longleftrightarrow> a = b"
  by (simp flip: word_unat_eq_iff)

lemma le_bytes_unat:
  fixes v w :: "'a::len word"
  assumes "LENGTH('a) \<le> 8 * n"
  shows "le_bytes n (unat v) = le_bytes n (unat w) \<longleftrightarrow> v = w"
proof -
  have "(2::nat) ^ LENGTH('a) \<le> 2 ^ (8 * n)" using assms by (intro power_increasing) auto
  also have "\<dots> = 256 ^ n" by (simp add: power_mult)
  finally have "unat v < 256 ^ n" "unat w < 256 ^ n" using unat_bound [of v] unat_bound [of w] by linarith+
  then show ?thesis by (simp add: le_bytes_inj unat_inj)
qed

section \<open>The writer's methods meet the contract\<close>

interpretation u8c: prefix_code enc_u8 "\<lambda>_. True"
  by standard (simp add: enc_u8_def)

interpretation u16c: prefix_code enc_u16 "\<lambda>_. True"
  by (rule fixed_width_prefix_code) (simp_all add: enc_u16_def le_bytes_unat)

interpretation u32c: prefix_code enc_u32 "\<lambda>_. True"
  by (rule fixed_width_prefix_code) (simp_all add: enc_u32_def le_bytes_unat)

interpretation u64c: prefix_code enc_u64 "\<lambda>_. True"
  by (rule fixed_width_prefix_code) (simp_all add: enc_u64_def le_bytes_unat)

interpretation i32c: prefix_code enc_i32 "\<lambda>_. True"
  by (rule fixed_width_prefix_code) (simp_all add: enc_i32_def le_bytes_unat)

interpretation i64c: prefix_code enc_i64 "\<lambda>_. True"
  by (rule fixed_width_prefix_code) (simp_all add: enc_i64_def le_bytes_unat)

interpretation u128c: prefix_code enc_u128 "\<lambda>_. True"
  by (rule fixed_width_prefix_code) (simp_all add: enc_u128_def le_bytes_unat)

interpretation boolc: prefix_code enc_bool "\<lambda>_. True"
  by standard (auto simp: enc_bool_def split: if_splits)

text \<open>A Rust length fits in 64 bits; only then is the length prefix exact.\<close>

definition fits :: "'a list \<Rightarrow> bool" where
  "fits xs \<longleftrightarrow> length xs \<le> u64_max"

lemma fits_prefix: "fits xs \<Longrightarrow> fits ys \<Longrightarrow> (of_nat (length xs) :: u64) = of_nat (length ys) \<longleftrightarrow> length xs = length ys"
  by (simp add: fits_def u64_max_def flip: unat_inj) (simp add: unat_of_nat)

interpretation bytesc: prefix_code enc_bytes fits
proof
  fix x y r s :: "byte list"
  assume "fits x" "fits y" "enc_bytes x @ r = enc_bytes y @ s"
  moreover from this have "length x = length y"
    by (auto simp: enc_bytes_def fits_prefix dest!: u64c.prefix_free [rotated 2])
  ultimately show "x = y \<and> r = s" by (simp add: enc_bytes_def)
qed

definition valid_text :: "ustr \<Rightarrow> bool" where
  "valid_text s \<longleftrightarrow> valid_str s \<and> fits (utf8 s)"

interpretation strc: prefix_code enc_str valid_text
proof
  fix x y r s
  assume a: "valid_text x" "valid_text y" "enc_str x @ r = enc_str y @ s"
  then have "utf8 x = utf8 y \<and> r = s"
    by (intro bytesc.prefix_free) (auto simp: valid_text_def enc_str_def)
  with a show "x = y \<and> r = s" by (auto simp: valid_text_def utf8_inj)
qed

lemma fixed_prefix_code: "prefix_code enc_fixed (\<lambda>v. length v = n)"
  by (rule fixed_width_prefix_code) (simp_all add: enc_fixed_def)

lemma option_prefix_code:
  assumes "prefix_code enc valid"
  shows "prefix_code (enc_option enc) (\<lambda>v. \<forall>x. v = Some x \<longrightarrow> valid x)"
proof
  fix x y r s
  assume "\<forall>z. x = Some z \<longrightarrow> valid z" "\<forall>z. y = Some z \<longrightarrow> valid z"
    "enc_option enc x @ r = enc_option enc y @ s"
  then show "x = y \<and> r = s"
    using prefix_code.append_iff [OF assms]
    by (cases x; cases y) (auto simp: enc_option_def enc_u8_def)
qed

lemma seq_prefix_code:
  assumes "prefix_code enc valid"
  shows "prefix_code (enc_seq enc) (\<lambda>xs. fits xs \<and> list_all valid xs)"
proof
  fix xs ys :: "'a list" and r s
  assume a: "fits xs \<and> list_all valid xs" "fits ys \<and> list_all valid ys"
    "enc_seq enc xs @ r = enc_seq enc ys @ s"
  then have "length xs = length ys \<and> concat (map enc xs) @ r = concat (map enc ys) @ s"
    using u64c.append_iff by (simp add: enc_seq_def fits_prefix)
  then show "xs = ys \<and> r = s" using a prefix_code.concat_prefix_free [OF assms] by blast
qed

lemma map_prefix_code:
  assumes "prefix_code enc valid" "\<And>x. valid' x \<Longrightarrow> valid (g x)"
    "\<And>x y. valid' x \<Longrightarrow> valid' y \<Longrightarrow> g x = g y \<Longrightarrow> x = y"
  shows "prefix_code (\<lambda>x. enc (g x)) valid'"
  by standard (use assms prefix_code.prefix_free in metis)

text \<open>Fields of fixed width need no side condition.\<close>

lemma fixed_iffs [prefix_iffs]:
  "enc_u8 a @ r = enc_u8 b @ s \<longleftrightarrow> a = b \<and> r = s"
  "enc_u16 c @ r = enc_u16 d @ s \<longleftrightarrow> c = d \<and> r = s"
  "enc_u32 e @ r = enc_u32 f @ s \<longleftrightarrow> e = f \<and> r = s"
  "enc_u64 g @ r = enc_u64 h @ s \<longleftrightarrow> g = h \<and> r = s"
  "enc_i32 i @ r = enc_i32 j @ s \<longleftrightarrow> i = j \<and> r = s"
  "enc_i64 k @ r = enc_i64 l @ s \<longleftrightarrow> k = l \<and> r = s"
  "enc_u128 m @ r = enc_u128 n @ s \<longleftrightarrow> m = n \<and> r = s"
  "enc_bool p @ r = enc_bool q @ s \<longleftrightarrow> p = q \<and> r = s"
  by (simp_all add: u8c.append_iff u16c.append_iff u32c.append_iff u64c.append_iff i32c.append_iff
      i64c.append_iff u128c.append_iff boolc.append_iff)

end
