(* ===== verification/Hashing.thy ===== *)
theory Hashing
  imports Canonical
begin

text \<open>
  \<^verbatim>\<open>src/hash.rs\<close>: 256-bit digests, their hex form, and domain-separated hashing. A digest is a list of
  exactly 32 bytes, ordered as the byte array is. BLAKE3 itself is third-party code: it is the
  argument \<open>b3\<close> of every operation that hashes, and what is needed of it (no collision among the
  preimages at hand) is a hypothesis of the theorem that needs it.
\<close>

unbundle bit_operations_syntax

typedef hash = "{bs :: byte list. length bs = 32}"
  morphisms hash_bytes Abs_hash
  by (rule exI [of _ "replicate 32 0"]) simp

setup_lifting type_definition_hash

type_synonym blake3 = "byte list \<Rightarrow> hash"

text \<open>The argument of the constructor is an array of 32 bytes; any other list does not occur.\<close>

definition hash_from_bytes :: "byte list \<Rightarrow> hash" where
  "hash_from_bytes bs = Abs_hash (if length bs = 32 then bs else replicate 32 0)"

lemma hash_bytes_from_bytes [code]:
  "hash_bytes (hash_from_bytes bs) = (if length bs = 32 then bs else replicate 32 0)"
  by (simp add: hash_from_bytes_def Abs_hash_inverse)

lemma length_hash_bytes [simp]: "length (hash_bytes h) = 32"
  using hash_bytes [of h] by simp

lemma hash_bytes_inj [simp]: "hash_bytes a = hash_bytes b \<longleftrightarrow> a = b"
  by (rule hash_bytes_inject)

instantiation hash :: equal
begin

definition equal_hash :: "hash \<Rightarrow> hash \<Rightarrow> bool" where
  "equal_hash a b \<longleftrightarrow> hash_bytes a = hash_bytes b"

instance by standard (simp add: equal_hash_def)

end

instantiation hash :: linorder
begin

definition less_eq_hash :: "hash \<Rightarrow> hash \<Rightarrow> bool" where
  "less_eq_hash a b \<longleftrightarrow> hash_bytes a \<le> hash_bytes b"

definition less_hash :: "hash \<Rightarrow> hash \<Rightarrow> bool" where
  "less_hash a b \<longleftrightarrow> hash_bytes a < hash_bytes b"

instance
  by standard (auto simp: less_eq_hash_def less_hash_def less_le)

end

lemma hash_bytes_append [prefix_iffs]: "hash_bytes a @ r = hash_bytes b @ s \<longleftrightarrow> a = b \<and> r = s"
  by simp

lemma hash_bytes_from: "length bs = 32 \<Longrightarrow> hash_bytes (hash_from_bytes bs) = bs"
  by (simp add: hash_bytes_from_bytes)

lemma hash_from_to_bytes: "hash_from_bytes (hash_bytes h) = h"
  using hash_bytes_from [OF length_hash_bytes [of h]] by simp

text \<open>A small concrete hash function and digests, for the examples that apply a theorem.\<close>

definition small_hash :: "byte \<Rightarrow> hash" where
  "small_hash b = hash_from_bytes (replicate 31 0 @ [b])"

definition toy_hash :: blake3 where
  "toy_hash bs = hash_from_bytes (replicate 30 0 @ [of_nat (length bs), sum_list bs])"

section \<open>Hex\<close>

datatype parse_hash_error = HashLength nat | InvalidDigit

definition hex_digit :: "byte \<Rightarrow> uchar" where
  "hex_digit nibble =
     (let n = unat (nibble AND 0x0f) in if n < 10 then 48 + n else 87 + n)"

definition hex_val :: "byte \<Rightarrow> (parse_hash_error, byte) res" where
  "hex_val c =
     (if 48 \<le> c \<and> c \<le> 57 then Ok (c - 48)
      else if 97 \<le> c \<and> c \<le> 102 then Ok (c - 97 + 10)
      else if 65 \<le> c \<and> c \<le> 70 then Ok (c - 65 + 10)
      else Err InvalidDigit)"

fun hex_pairs :: "byte list \<Rightarrow> (parse_hash_error, byte list) res" where
  "hex_pairs (hi # lo # rest) =
     bindR (hex_val hi) (\<lambda>h. bindR (hex_val lo) (\<lambda>l.
     bindR (hex_pairs rest) (\<lambda>bs. Ok ((push_bit 4 h OR l) # bs))))"
| "hex_pairs bs = Ok []"

definition parse_hex :: "ustr \<Rightarrow> (parse_hash_error, hash) res" where
  "parse_hex s =
     (if length (utf8 s) \<noteq> 64 then Err (HashLength (length (utf8 s)))
      else bindR (hex_pairs (utf8 s)) (\<lambda>bs. Ok (hash_from_bytes bs)))"

definition hex_byte :: "byte \<Rightarrow> ustr" where
  "hex_byte b = [hex_digit (drop_bit 4 b), hex_digit (b AND 0x0f)]"

definition to_hex :: "hash \<Rightarrow> ustr" where
  "to_hex h = concat (map hex_byte (hash_bytes h))"

section \<open>Domain separation\<close>

definition tag_entry :: "byte list" where "tag_entry = blit ''doubleentry/entry/v1''"
definition tag_account :: "byte list" where "tag_account = blit ''doubleentry/account/v1''"
definition tag_seal :: "byte list" where "tag_seal = blit ''doubleentry/seal/v1''"
definition tag_trial_balance :: "byte list" where
  "tag_trial_balance = blit ''doubleentry/trialbalance/v1''"
definition tag_account_binding :: "byte list" where
  "tag_account_binding = blit ''doubleentry/accountbinding/v1''"

text \<open>The three \<^verbatim>\<open>update\<close> calls feed the hasher this byte string.\<close>

definition tagged_preimage :: "byte list \<Rightarrow> byte list \<Rightarrow> byte list" where
  "tagged_preimage tg payload = le_bytes 8 (length tg) @ tg @ payload"

definition tagged :: "blake3 \<Rightarrow> byte list \<Rightarrow> byte list \<Rightarrow> hash" where
  "tagged b3 tg payload = b3 (tagged_preimage tg payload)"

definition digest :: "blake3 \<Rightarrow> byte list \<Rightarrow> byte list \<Rightarrow> hash" where
  "digest b3 domain payload = tagged b3 domain payload"

lemma tagged_preimage_enc: "fits tg \<Longrightarrow> tagged_preimage tg payload = enc_bytes tg @ payload"
  by (simp add: tagged_preimage_def enc_bytes_def enc_u64_def fits_def u64_max_def unat_of_nat)

text \<open>
  Domain separation: two tagged preimages are equal only when both the tag and the payload
  are, so a digest under one tag is never computed from the bytes hashed under another.
\<close>

theorem tagged_preimage_inj:
  assumes "fits t" "fits u"
  shows "tagged_preimage t p = tagged_preimage u q \<longleftrightarrow> t = u \<and> p = q"
  using assms by (simp add: tagged_preimage_enc bytesc.append_iff)

lemma tagged_preimage_inj_witness:
  "fits tag_entry \<and> fits tag_seal \<and> tagged_preimage tag_entry [1] \<noteq> tagged_preimage tag_seal [1]"
proof -
  have "fits tag_entry" "fits tag_seal" "tag_entry \<noteq> tag_seal" by code_simp+
  then show ?thesis using tagged_preimage_inj [of tag_entry tag_seal "[1]" "[1]"] by blast
qed

lemma tags_fit: "fits tag_entry" "fits tag_account" "fits tag_seal" "fits tag_trial_balance"
    "fits tag_account_binding"
  by code_simp+

lemma tags_distinct:
  "distinct [tag_entry, tag_account, tag_seal, tag_trial_balance, tag_account_binding]"
  by code_simp

lemma tagged_inj:
  assumes "inj_on b3 X" "tagged_preimage t p \<in> X" "tagged_preimage u q \<in> X" "fits t" "fits u"
  shows "tagged b3 t p = tagged b3 u q \<longleftrightarrow> t = u \<and> p = q"
  using assms by (simp add: tagged_def inj_on_eq_iff tagged_preimage_enc bytesc.append_iff)

section \<open>The hex form reads back\<close>

lemma hex_val_digit:
  fixes n :: byte
  assumes "n < 16"
  shows "hex_val (of_nat (hex_digit n)) = Ok n" and "hex_digit n < 128"
proof -
  have "list_all (\<lambda>k. hex_val (of_nat (hex_digit (of_nat k))) = Ok (of_nat k) \<and> hex_digit (of_nat k) < 128) [0..<16]"
    by code_simp
  moreover have "unat n \<in> set [0..<16]" using assms by (simp add: word_less_nat_alt)
  ultimately have "hex_val (of_nat (hex_digit (of_nat (unat n)))) = Ok (of_nat (unat n))
      \<and> hex_digit (of_nat (unat n)) < 128"
    unfolding list_all_iff by blast
  then show "hex_val (of_nat (hex_digit n)) = Ok n" and "hex_digit n < 128" by simp_all
qed

lemma low_nibble: "(b :: byte) AND 0x0f = take_bit 4 b"
  by (simp add: take_bit_eq_mask mask_eq_decr_exp)

lemma nibbles:
  fixes b :: byte
  shows "drop_bit 4 b < 16" "b AND 0x0f < 16" "push_bit 4 (drop_bit 4 b) OR (b AND 0x0f) = b"
proof -
  have "unat (drop_bit 4 b) = unat b div 16" by (simp add: drop_bit_eq_div unat_div_distrib)
  then show "drop_bit 4 b < 16" using unat_bound [of b] by (simp add: word_less_nat_alt)
  have "unat (take_bit 4 b) = unat b mod 16" by (simp only: unsigned_take_bit_eq) (simp add: take_bit_eq_mod)
  then show "b AND 0x0f < 16" by (simp add: low_nibble word_less_nat_alt)
  show "push_bit 4 (drop_bit 4 b) OR (b AND 0x0f) = b"
    unfolding low_nibble by (rule bit_word_eqI) (auto simp: bit_simps)
qed

lemma utf8_hex_bytes: "utf8 (concat (map hex_byte bs)) = map of_nat (concat (map hex_byte bs))"
proof (rule utf8_ascii)
  show "list_all (\<lambda>c. c < 128) (concat (map hex_byte bs))"
    by (induction bs) (auto simp: hex_byte_def hex_val_digit(2) nibbles)
qed

lemma hex_pairs_bytes: "hex_pairs (map of_nat (concat (map hex_byte bs))) = Ok bs"
  by (induction bs) (simp_all add: hex_byte_def hex_val_digit(1) nibbles)

text \<open>A digest rendered as hex parses back to the same digest.\<close>

theorem parse_hex_to_hex: "parse_hex (to_hex h) = Ok h"
proof -
  have "length (concat (map hex_byte bs)) = 2 * length bs" for bs
    by (induction bs) (simp_all add: hex_byte_def)
  then show ?thesis
    by (simp add: parse_hex_def to_hex_def utf8_hex_bytes hex_pairs_bytes hash_from_to_bytes)
qed

end
