(* ===== verification/Dates.thy ===== *)
theory Dates
  imports Hashing Money
begin

text \<open>
  Dates and the parameters of the model. \<^verbatim>\<open>Date\<close> belongs to the \<^verbatim>\<open>time\<close> crate: the program compares
  dates, steps to a neighbouring day and encodes year, month and day. A date is its Julian day; the
  calendar fields are a parameter. What the encoding relies on, that the fields determine the date
  over the range the crate supports, is the named hypothesis \<open>ymd_faithful\<close>.
\<close>

datatype date = Date (julian: int)

instantiation date :: linorder
begin

definition less_eq_date :: "date \<Rightarrow> date \<Rightarrow> bool" where
  "less_eq_date a b \<longleftrightarrow> julian a \<le> julian b"

definition less_date :: "date \<Rightarrow> date \<Rightarrow> bool" where
  "less_date a b \<longleftrightarrow> julian a < julian b"

instance
  by standard (auto simp: less_eq_date_def less_date_def date.expand)

end

text \<open>The documented range of the crate: the years from -9999 to 9999.\<close>

definition date_min :: int where "date_min = - 1930999"
definition date_max :: int where "date_max = 5373484"

definition valid_date :: "date \<Rightarrow> bool" where
  "valid_date d \<longleftrightarrow> date_min \<le> julian d \<and> julian d \<le> date_max"

definition next_day :: "date \<Rightarrow> date option" where
  "next_day d = (if julian d < date_max then Some (Date (julian d + 1)) else None)"

text \<open>
  What the program takes from outside: BLAKE3, the calendar fields of a date, and the const generic
  \<^verbatim>\<open>P\<close>, the scale of every amount.
\<close>

record env =
  env_b3 :: blake3
  env_ymd :: "date \<Rightarrow> 32 word \<times> u8 \<times> u8"
  env_prec :: nat

definition ymd_faithful :: "env \<Rightarrow> bool" where
  "ymd_faithful E \<longleftrightarrow> inj_on (env_ymd E) {d. valid_date d}"

definition encode_date :: "env \<Rightarrow> date \<Rightarrow> byte list" where
  "encode_date E d = (case env_ymd E d of (y, m, dd) \<Rightarrow> enc_i32 y @ enc_u8 m @ enc_u8 dd)"

lemma date_prefix_code:
  assumes "ymd_faithful E"
  shows "prefix_code (encode_date E) valid_date"
proof
  fix x y r s
  assume v: "valid_date x" "valid_date y" and "encode_date E x @ r = encode_date E y @ s"
  then have "env_ymd E x = env_ymd E y" "r = s"
    by (auto simp: encode_date_def prefix_iffs split: prod.splits)
  then show "x = y \<and> r = s" using v assms by (auto simp: ymd_faithful_def dest: inj_onD)
qed

text \<open>A concrete environment for the examples that apply a theorem.\<close>

definition toy_env :: env where
  "toy_env = \<lparr>env_b3 = toy_hash, env_ymd = (\<lambda>d. (word_of_int (julian d), 1, 1)), env_prec = 2\<rparr>"

lemma toy_env_faithful: "ymd_faithful toy_env"
proof -
  have r: "sint (word_of_int (julian a) :: 32 word) = julian a" if "valid_date a" for a
    using that by (simp add: valid_date_def date_min_def date_max_def signed_take_bit_int_eq_self sint_sbintrunc')
  show ?thesis
    unfolding ymd_faithful_def
  proof (rule inj_onI)
    fix a b
    assume v: "a \<in> {d. valid_date d}" "b \<in> {d. valid_date d}" and "env_ymd toy_env a = env_ymd toy_env b"
    then have "(word_of_int (julian a) :: 32 word) = word_of_int (julian b)"
      by (simp only: toy_env_def env.simps prod.inject)
    then have "julian a = julian b" using r [of a] r [of b] v by (metis mem_Collect_eq)
    then show "a = b" by (rule date.expand)
  qed
qed

end
