(* ===== verification/Account_Path.thy ===== *)
theory Account_Path
  imports Dates "HOL-Library.Sublist"
begin

text \<open>
  The paths of \<^verbatim>\<open>src/account.rs\<close>: validation, the tree order, ancestors and descent, and what holds
  of printing and parsing. Handles and the account errors are here too.
\<close>

definition max_segment_len :: nat where "max_segment_len = 64"
definition max_depth :: nat where "max_depth = 16"

text \<open>The separator is a colon.\<close>

definition separator :: uchar where "separator = 58"

datatype account_path = AccountPath (segments: "ustr list")

instantiation account_path :: linorder
begin

definition less_eq_account_path :: "account_path \<Rightarrow> account_path \<Rightarrow> bool" where
  "less_eq_account_path a b \<longleftrightarrow> segments a \<le> segments b"

definition less_account_path :: "account_path \<Rightarrow> account_path \<Rightarrow> bool" where
  "less_account_path a b \<longleftrightarrow> segments a < segments b"

instance
  by standard (auto simp: less_eq_account_path_def less_account_path_def account_path.expand)

end

datatype account_id = AccountId (account_index: u32)

instantiation account_id :: linorder
begin

definition less_eq_account_id :: "account_id \<Rightarrow> account_id \<Rightarrow> bool" where
  "less_eq_account_id a b \<longleftrightarrow> account_index a \<le> account_index b"

definition less_account_id :: "account_id \<Rightarrow> account_id \<Rightarrow> bool" where
  "less_account_id a b \<longleftrightarrow> account_index a < account_index b"

instance
  by standard (auto simp: less_eq_account_id_def less_account_id_def account_id.expand)

end

datatype account_error =
    AccountEmpty
  | EmptySegment nat
  | SegmentTooLong nat
  | TooDeep
  | AccountControlCharacter nat
  | AlreadyRegistered account_path
  | UnknownAccount account_id
  | NotDense u32 u32
  | RegistryFull
  | ClosedBeforeOpened account_path date date

text \<open>The checks of one segment, in the order the loop makes them.\<close>

definition check_segment :: "nat \<times> ustr \<Rightarrow> (account_error, unit) res" where
  "check_segment = (\<lambda>(position, seg).
     if seg = [] then Err (EmptySegment position)
     else if length seg > max_segment_len then Err (SegmentTooLong position)
     else if list_ex is_control seg then Err (AccountControlCharacter position)
     else Ok ())"

definition from_segments :: "ustr list \<Rightarrow> (account_error, account_path) res" where
  "from_segments raw =
     (if raw = [] then Err AccountEmpty
      else if length raw > max_depth then Err TooDeep
      else bindR (try_fold (\<lambda>_ ps. check_segment ps) () (enumerate 0 raw)) (\<lambda>_. Ok (AccountPath raw)))"

definition path_parse :: "ustr \<Rightarrow> (account_error, account_path) res" where
  "path_parse s = (if s = [] then Err AccountEmpty else from_segments (split_on separator s))"

definition path_display :: "account_path \<Rightarrow> ustr" where
  "path_display p = join_with separator (segments p)"

definition depth :: "account_path \<Rightarrow> nat" where
  "depth p = length (segments p)"

definition parent :: "account_path \<Rightarrow> account_path option" where
  "parent p = (if length (segments p) \<le> 1 then None else Some (AccountPath (butlast (segments p))))"

text \<open>The loop of \<^verbatim>\<open>ancestors\<close>: from the direct parent upwards.\<close>

function parents_up :: "account_path option \<Rightarrow> account_path list" where
  "parents_up None = []"
| "parents_up (Some p) = p # parents_up (parent p)"
  by pat_completeness auto
termination
  by (relation "measure (\<lambda>x. case x of None \<Rightarrow> 0 | Some p \<Rightarrow> Suc (depth p))")
    (auto simp: parent_def depth_def split: option.splits if_splits)

definition ancestors :: "account_path \<Rightarrow> account_path list" where
  "ancestors p = rev (parents_up (parent p))"

definition is_under :: "account_path \<Rightarrow> account_path \<Rightarrow> bool" where
  "is_under p q =
     (if length (segments p) < length (segments q) then False
      else list_all (\<lambda>(a, b). a = b) (zip (segments p) (segments q)))"

definition enc_path :: "account_path \<Rightarrow> byte list" where
  "enc_path p = enc_seq enc_str (segments p)"

definition path_content_hash :: "blake3 \<Rightarrow> account_path \<Rightarrow> hash" where
  "path_content_hash b3 p = tagged b3 tag_account (enc_path p)"

section \<open>Validation\<close>

definition good_segment :: "ustr \<Rightarrow> bool" where
  "good_segment s \<longleftrightarrow> s \<noteq> [] \<and> length s \<le> max_segment_len \<and> \<not> list_ex is_control s"

text \<open>What holds of every path the constructors let through, its segments being Rust strings.\<close>

definition valid_path :: "account_path \<Rightarrow> bool" where
  "valid_path p \<longleftrightarrow> segments p \<noteq> [] \<and> depth p \<le> max_depth
     \<and> list_all good_segment (segments p) \<and> list_all valid_str (segments p)"

lemma check_segment_Ok [simp]: "check_segment (i, s) = Inr u \<longleftrightarrow> good_segment s"
  by (simp add: check_segment_def good_segment_def)

lemma check_segments_Ok:
  "try_fold (\<lambda>_ ps. check_segment ps) u (enumerate k raw) = Inr v \<longleftrightarrow> list_all good_segment raw"
  by (induction raw arbitrary: k u) (auto simp: enumerate_simps)

lemma from_segments_Ok:
  "from_segments raw = Inr p \<longleftrightarrow>
     raw \<noteq> [] \<and> length raw \<le> max_depth \<and> list_all good_segment raw \<and> p = AccountPath raw"
  unfolding from_segments_def using check_segments_Ok [of "()" 0 raw] by (auto split: if_splits)

lemma valid_path_from_segments:
  "valid_path p \<longleftrightarrow> from_segments (segments p) = Ok p \<and> list_all valid_str (segments p)"
  by (cases p) (auto simp: valid_path_def from_segments_Ok depth_def)

section \<open>The tree\<close>

lemma is_under_prefix: "is_under p q \<longleftrightarrow> prefix (segments q) (segments p)"
proof -
  have "list_all (\<lambda>(a, b). a = b) (zip xs ys) \<and> length ys \<le> length xs \<longleftrightarrow> prefix ys xs" for xs ys :: "ustr list"
    by (induction xs ys rule: list_induct2') auto
  from this [of "segments p" "segments q"] show ?thesis by (auto simp: is_under_def)
qed

definition strictly_under :: "account_path \<Rightarrow> account_path \<Rightarrow> bool" where
  "strictly_under p q \<longleftrightarrow> is_under p q \<and> p \<noteq> q"

lemma strict_prefix_snoc: "prefix xs (ys @ [y]) \<and> xs \<noteq> ys @ [y] \<longleftrightarrow> prefix xs ys"
  by (auto dest: prefix_length_le)

lemma parents_up_set:
  "set (parents_up x) = (case x of None \<Rightarrow> {} | Some p \<Rightarrow> {q. segments q \<noteq> [] \<and> prefix (segments q) (segments p)} \<union> {p})"
proof (induction x rule: parents_up.induct)
  case (2 p)
  show ?case
  proof (cases "length (segments p) \<le> 1")
    case True
    then have "segments p = [] \<or> (\<exists>s. segments p = [s])" by (cases "segments p") auto
    then show ?thesis using True by (auto simp: parent_def account_path.expand prefix_Cons intro: account_path.expand)
  next
    case False
    then have ne: "butlast (segments p) \<noteq> []" "segments p \<noteq> []" by (cases "segments p"; auto)+
    have "prefix xs (segments p) \<longleftrightarrow> xs = segments p \<or> prefix xs (butlast (segments p))" for xs
      by (metis append_butlast_last_id ne(2) prefix_snoc)
    then show ?thesis using 2 False ne by (auto simp: parent_def account_path.expand)
  qed
qed simp

lemma set_ancestors: "set (ancestors p) = {q. segments q \<noteq> [] \<and> strictly_under p q}"
proof (cases "length (segments p) \<le> 1")
  case True
  then have "segments p = [] \<or> (\<exists>s. segments p = [s])" by (cases "segments p") auto
  then show ?thesis
    using True by (auto simp: ancestors_def parent_def strictly_under_def is_under_prefix prefix_Cons intro: account_path.expand)
next
  case False
  then have ne: "butlast (segments p) \<noteq> []" "segments p \<noteq> []" by (cases "segments p"; auto)+
  have "prefix xs (segments p) \<and> xs \<noteq> segments p \<longleftrightarrow> prefix xs (butlast (segments p))" for xs
    using strict_prefix_snoc [of xs "butlast (segments p)" "last (segments p)"] ne(2) by simp
  then have chain: "strictly_under p q \<longleftrightarrow> prefix (segments q) (butlast (segments p))" for q
    by (metis account_path.expand is_under_prefix strictly_under_def)
  have "parent p = Some (AccountPath (butlast (segments p)))" using False by (simp add: parent_def)
  then have "set (ancestors p)
      = {q. segments q \<noteq> [] \<and> prefix (segments q) (butlast (segments p))} \<union> {AccountPath (butlast (segments p))}"
    by (simp only: ancestors_def set_rev parents_up_set option.case account_path.sel)
  then show ?thesis using ne(1) by (auto simp: chain)
qed

lemma distinct_parents_up: "distinct (parents_up x)"
proof (induction x rule: parents_up.induct)
  case (2 p)
  have "depth q < depth p" if "q \<in> set (parents_up (parent p))" for q
    using that by (auto simp: parents_up_set parent_def depth_def split: if_splits dest!: prefix_length_le)
  then show ?case using 2 by auto
qed simp

lemma distinct_ancestors: "distinct (ancestors p)"
  by (simp add: ancestors_def distinct_parents_up)

section \<open>Descendants are contiguous in the tree order\<close>

lemma list_prefix_le: "prefix xs ys \<Longrightarrow> xs \<le> (ys :: 'a::linorder list)"
proof (induction xs arbitrary: ys)
  case (Cons x xs)
  then show ?case by (cases ys) auto
qed simp

lemma list_between_prefix:
  "xs \<le> ys \<Longrightarrow> ys \<le> (zs :: 'a::linorder list) \<Longrightarrow> prefix xs zs \<Longrightarrow> prefix xs ys"
proof (induction xs arbitrary: ys zs)
  case (Cons x xs)
  then obtain y ys' where "ys = y # ys'" by (cases ys) auto
  moreover obtain zs' where "zs = x # zs'" using Cons.prems(3) by (cases zs) auto
  ultimately show ?case using Cons by auto
qed simp

lemma under_contiguous: "q \<le> r \<Longrightarrow> r \<le> p \<Longrightarrow> is_under p q \<Longrightarrow> is_under r q"
  using list_between_prefix by (auto simp: is_under_prefix less_eq_account_path_def)

lemma under_le: "is_under p q \<Longrightarrow> q \<le> p"
  using list_prefix_le by (auto simp: is_under_prefix less_eq_account_path_def)

section \<open>Encoding, printing and parsing\<close>

lemma good_segment_text: "good_segment s \<Longrightarrow> valid_str s \<Longrightarrow> valid_text s"
  using length_utf8(2) [of s] by (simp add: valid_text_def fits_def u64_max_def good_segment_def max_segment_len_def)

interpretation pathc: prefix_code enc_path valid_path
proof -
  have "prefix_code (\<lambda>p. enc_seq enc_str (segments p)) valid_path"
    by (rule map_prefix_code [OF seq_prefix_code [OF strc.prefix_code_axioms]])
      (auto simp: valid_path_def fits_def depth_def max_depth_def u64_max_def list_all_iff good_segment_text
        intro: account_path.expand)
  then show "prefix_code enc_path valid_path" by (simp add: enc_path_def [abs_def])
qed

text \<open>
  Parsing and printing paths: a parsed path prints as the text it was parsed from, and a path
  that passed validation parses back from its printed form exactly when no segment contains the
  separator, which the validation of \<^verbatim>\<open>from_segments\<close> does not check.
\<close>

theorem path_parse_display:
  "(path_parse s = Ok p \<longrightarrow> path_display p = s)
   \<and> (valid_path p \<longrightarrow> (path_parse (path_display p) = Ok p \<longleftrightarrow> (\<forall>seg\<in>set (segments p). separator \<notin> set seg)))"
proof (intro conjI impI)
  assume "path_parse s = Ok p"
  then show "path_display p = s"
    by (auto simp: path_parse_def from_segments_Ok path_display_def join_split_on split: if_splits)
next
  assume v: "valid_path p"
  have ne: "path_display p \<noteq> []"
    using v by (cases "segments p"; cases "tl (segments p)") (auto simp: path_display_def valid_path_def good_segment_def)
  show "path_parse (path_display p) = Ok p \<longleftrightarrow> (\<forall>seg\<in>set (segments p). separator \<notin> set seg)"
  proof
    assume "path_parse (path_display p) = Ok p"
    then have "segments p = split_on separator (path_display p)"
      using ne by (metis account_path.sel from_segments_Ok path_parse_def)
    then show "\<forall>seg\<in>set (segments p). separator \<notin> set seg" using split_on_no_sep by metis
  next
    assume "\<forall>seg\<in>set (segments p). separator \<notin> set seg"
    then have "split_on separator (path_display p) = segments p"
      using v by (simp add: path_display_def split_on_join valid_path_def)
    then show "path_parse (path_display p) = Ok p"
      using ne v by (simp add: path_parse_def valid_path_from_segments)
  qed
qed

lemma path_parse_display_witness:
  "path_display (AccountPath [lit ''A'', lit ''B'']) = lit ''A:B''
   \<and> valid_path (AccountPath [lit ''A:B'']) \<and> path_parse (path_display (AccountPath [lit ''A:B''])) \<noteq> Ok (AccountPath [lit ''A:B''])"
proof -
  have p: "path_parse (lit ''A:B'') = Ok (AccountPath [lit ''A'', lit ''B''])" by code_simp
  have v: "valid_path (AccountPath [lit ''A:B''])" by code_simp
  have "separator \<in> set (lit ''A:B'')" by code_simp
  then show ?thesis
    using path_parse_display [of "lit ''A:B''" "AccountPath [lit ''A'', lit ''B'']"] p v
      path_parse_display [of "[]" "AccountPath [lit ''A:B'']"] by auto
qed

end
