(* ===== verification/Btree_Map.thy ===== *)
theory Btree_Map
  imports Prelude
begin

text \<open>
  The standard library's \<^verbatim>\<open>BTreeMap\<close>, which the program uses for every index: an association list
  strictly sorted by key, so that equality of maps is equality of contents and iteration is in key
  order. Only the operations the source calls are given, with their laws.
\<close>

typedef (overloaded) ('k::linorder, 'v) btmap =
  "{xs :: ('k \<times> 'v) list. sorted_wrt (<) (map fst xs)}"
  morphisms bt_iter Abs_btmap
  by (rule exI [of _ "[]"]) simp

setup_lifting type_definition_btmap

section \<open>Operations on sorted association lists\<close>

fun ins_sorted :: "'k::linorder \<Rightarrow> 'v \<Rightarrow> ('k \<times> 'v) list \<Rightarrow> ('k \<times> 'v) list" where
  "ins_sorted k v [] = [(k, v)]"
| "ins_sorted k v ((a, b) # xs) =
     (if k < a then (k, v) # (a, b) # xs
      else if k = a then (k, v) # xs
      else (a, b) # ins_sorted k v xs)"

lemma keys_ins_sorted: "set (map fst (ins_sorted k v xs)) = insert k (set (map fst xs))"
  by (induction k v xs rule: ins_sorted.induct) auto

lemma sorted_ins_sorted:
  "sorted_wrt (<) (map fst xs) \<Longrightarrow> sorted_wrt (<) (map fst (ins_sorted k v xs))"
proof (induction k v xs rule: ins_sorted.induct)
  case (2 k v a b xs)
  then show ?case
    using keys_ins_sorted [of k v xs] by (auto simp del: set_map simp: order.strict_trans)
qed simp

lemma map_of_ins_sorted:
  "sorted_wrt (<) (map fst xs) \<Longrightarrow> map_of (ins_sorted k v xs) = (map_of xs)(k \<mapsto> v)"
  by (induction k v xs rule: ins_sorted.induct) (auto simp: fun_eq_iff)

lemma sorted_filter_keys:
  "sorted_wrt (<) (map fst xs) \<Longrightarrow> sorted_wrt (<) (map fst (filter P xs))"
  by (induction xs) auto

lemma sorted_keys_distinct: "sorted_wrt (<) (map fst (xs :: ('k::linorder \<times> 'v) list)) \<Longrightarrow> distinct (map fst xs)"
  by (induction xs) force+

section \<open>The map type\<close>

lift_definition bt_empty :: "('k::linorder, 'v) btmap" is "[]" by simp

lift_definition bt_insert :: "'k::linorder \<Rightarrow> 'v \<Rightarrow> ('k, 'v) btmap \<Rightarrow> ('k, 'v) btmap"
  is ins_sorted by (rule sorted_ins_sorted)

lift_definition bt_remove :: "'k::linorder \<Rightarrow> ('k, 'v) btmap \<Rightarrow> ('k, 'v) btmap"
  is "\<lambda>k xs. filter (\<lambda>p. fst p \<noteq> k) xs" by (rule sorted_filter_keys)

lift_definition bt_get :: "('k::linorder, 'v) btmap \<Rightarrow> 'k \<Rightarrow> 'v option" is map_of .

definition bt_contains :: "('k::linorder, 'v) btmap \<Rightarrow> 'k \<Rightarrow> bool" where
  "bt_contains m k \<longleftrightarrow> bt_get m k \<noteq> None"

definition bt_keys :: "('k::linorder, 'v) btmap \<Rightarrow> 'k list" where
  "bt_keys m = map fst (bt_iter m)"

definition bt_values :: "('k::linorder, 'v) btmap \<Rightarrow> 'v list" where
  "bt_values m = map snd (bt_iter m)"

definition bt_len :: "('k::linorder, 'v) btmap \<Rightarrow> nat" where
  "bt_len m = length (bt_iter m)"

text \<open>\<^verbatim>\<open>map.range(lo..)\<close> and \<^verbatim>\<open>map.range(..=hi)\<close>, in key order.\<close>

definition bt_from :: "('k::linorder, 'v) btmap \<Rightarrow> 'k \<Rightarrow> ('k \<times> 'v) list" where
  "bt_from m lo = filter (\<lambda>p. lo \<le> fst p) (bt_iter m)"

definition bt_upto :: "('k::linorder, 'v) btmap \<Rightarrow> 'k \<Rightarrow> ('k \<times> 'v) list" where
  "bt_upto m hi = filter (\<lambda>p. fst p \<le> hi) (bt_iter m)"

text \<open>\<^verbatim>\<open>map.range(..=hi).next_back()\<close> and \<^verbatim>\<open>map.range(lo..).next()\<close>.\<close>

definition bt_floor :: "('k::linorder, 'v) btmap \<Rightarrow> 'k \<Rightarrow> ('k \<times> 'v) option" where
  "bt_floor m hi = (case rev (bt_upto m hi) of [] \<Rightarrow> None | x # _ \<Rightarrow> Some x)"

definition bt_ceiling :: "('k::linorder, 'v) btmap \<Rightarrow> 'k \<Rightarrow> ('k \<times> 'v) option" where
  "bt_ceiling m lo = (case bt_from m lo of [] \<Rightarrow> None | x # _ \<Rightarrow> Some x)"

instantiation btmap :: (linorder, type) equal
begin

definition equal_btmap :: "('a, 'b) btmap \<Rightarrow> ('a, 'b) btmap \<Rightarrow> bool" where
  "equal_btmap a b \<longleftrightarrow> bt_iter a = bt_iter b"

instance by standard (simp add: equal_btmap_def bt_iter_inject)

end

instantiation btmap :: (linorder, type) size
begin

definition size_btmap :: "('a, 'b) btmap \<Rightarrow> nat" where
  "size_btmap m = bt_len m"

instance ..

end

section \<open>Laws\<close>

lemma bt_sorted: "sorted_wrt (<) (map fst (bt_iter m))"
  using bt_iter [of m] by simp

lemma bt_distinct: "distinct (map fst (bt_iter m))"
  by (rule sorted_keys_distinct [OF bt_sorted])

lemma bt_distinct_iter: "distinct (bt_iter m)"
  using bt_distinct distinct_map by blast

lemma bt_get_empty [simp]: "bt_get bt_empty k = None"
  by transfer simp

lemma bt_get_insert [simp]: "bt_get (bt_insert k v m) k' = (if k' = k then Some v else bt_get m k')"
  by transfer (simp add: map_of_ins_sorted)

lemma bt_get_remove [simp]: "bt_get (bt_remove k m) k' = (if k' = k then None else bt_get m k')"
proof (transfer, goal_cases)
  case (1 k xs k')
  show ?case by (induction xs) auto
qed

lemma bt_contains_insert [simp]: "bt_contains (bt_insert k v m) k' \<longleftrightarrow> k' = k \<or> bt_contains m k'"
  by (simp add: bt_contains_def)

lemma bt_contains_empty [simp]: "\<not> bt_contains bt_empty k"
  by (simp add: bt_contains_def)

lemma bt_get_iter: "bt_get m k = Some v \<longleftrightarrow> (k, v) \<in> set (bt_iter m)"
  using bt_distinct [of m] by (simp add: bt_get.rep_eq)

lemma bt_contains_keys: "bt_contains m k \<longleftrightarrow> k \<in> set (bt_keys m)"
  by (force simp: bt_contains_def bt_keys_def bt_get_iter image_iff)

lemma bt_iter_empty [simp]: "bt_iter bt_empty = []"
  by (simp add: bt_empty.rep_eq)

lemma sorted_keys_unique:
  fixes xs ys :: "('k::linorder \<times> 'v) list"
  assumes "sorted_wrt (<) (map fst xs)" "sorted_wrt (<) (map fst ys)" "set xs = set ys"
  shows "xs = ys"
  using assms
proof (induction xs arbitrary: ys)
  case (Cons p xs)
  then obtain q ys' where ys: "ys = q # ys'" by (cases ys) auto
  have p_min: "\<And>r. r \<in> set xs \<Longrightarrow> fst p < fst r" and q_min: "\<And>r. r \<in> set ys' \<Longrightarrow> fst q < fst r"
    using Cons.prems(1,2) ys by auto
  have "p = q"
    using Cons.prems(3) ys p_min q_min by (metis list.set_intros(1) order_less_asym set_ConsD)
  moreover have "p \<notin> set xs" "q \<notin> set ys'" using p_min q_min by blast+
  ultimately have "set xs = set ys'" using Cons.prems(3) ys by (metis insert_ident list.simps(15))
  then show ?case using Cons ys \<open>p = q\<close> by auto
qed simp

lemma bt_eqI:
  assumes "\<And>k. bt_get m k = bt_get n k"
  shows "m = n"
proof -
  have "set (bt_iter m) = set (bt_iter n)"
    using assms by (metis bt_get_iter subsetI subset_antisym surj_pair)
  then have "bt_iter m = bt_iter n"
    by (rule sorted_keys_unique [OF bt_sorted bt_sorted])
  then show ?thesis by (simp add: bt_iter_inject)
qed

lemma bt_remove_insert: "bt_get m k = None \<Longrightarrow> bt_remove k (bt_insert k v m) = m"
  by (rule bt_eqI) simp

lemma bt_insert_restore: "bt_get m k = Some v \<Longrightarrow> bt_insert k v (bt_insert k w m) = m"
  by (rule bt_eqI) simp

lemma set_bt_iter_insert:
  "set (bt_iter (bt_insert k v m)) = insert (k, v) {p \<in> set (bt_iter m). fst p \<noteq> k}"
  by (auto simp flip: bt_get_iter split: if_splits)

lemma bt_len_insert: "bt_len (bt_insert k v m) = (if bt_contains m k then bt_len m else Suc (bt_len m))"
proof -
  have "length (ins_sorted k v xs) = (if k \<in> set (map fst xs) then length xs else Suc (length xs))"
    if "sorted_wrt (<) (map fst xs)" for xs :: "('a \<times> 'b) list"
    using that by (induction k v xs rule: ins_sorted.induct) auto
  from this [OF bt_sorted [of m]] show ?thesis
    by (simp add: bt_len_def bt_insert.rep_eq bt_contains_keys bt_keys_def)
qed

lemma bt_upto_iff: "(k, v) \<in> set (bt_upto m hi) \<longleftrightarrow> bt_get m k = Some v \<and> k \<le> hi"
  by (simp add: bt_upto_def bt_get_iter)

lemma bt_from_iff: "(k, v) \<in> set (bt_from m lo) \<longleftrightarrow> bt_get m k = Some v \<and> lo \<le> k"
  by (simp add: bt_from_def bt_get_iter)

lemma bt_floor_Some:
  assumes "bt_floor m hi = Some (k, v)"
  shows "bt_get m k = Some v" "k \<le> hi" "bt_get m k' \<noteq> None \<Longrightarrow> k' \<le> hi \<Longrightarrow> k' \<le> k"
proof -
  obtain xs where xs: "bt_upto m hi = xs @ [(k, v)]"
    using assms by (auto simp: bt_floor_def split: list.splits)
  then have "(k, v) \<in> set (bt_upto m hi)" by simp
  then show "bt_get m k = Some v" "k \<le> hi" by (simp_all add: bt_upto_iff)
  have "sorted_wrt (<) (map fst (bt_upto m hi))"
    unfolding bt_upto_def by (rule sorted_filter_keys [OF bt_sorted])
  then have less: "\<forall>x\<in>set xs. fst x < k" using xs by (simp add: sorted_wrt_append)
  assume "bt_get m k' \<noteq> None" "k' \<le> hi"
  then obtain v' where "(k', v') \<in> set (bt_upto m hi)" by (auto simp: bt_upto_iff)
  then show "k' \<le> k" using less xs by auto
qed

lemma bt_floor_None: "bt_floor m hi = None \<longleftrightarrow> (\<forall>k. bt_get m k \<noteq> None \<longrightarrow> hi < k)"
proof -
  have "bt_floor m hi = None \<longleftrightarrow> bt_upto m hi = []" by (simp add: bt_floor_def split: list.splits)
  moreover have "bt_upto m hi = [] \<longleftrightarrow> (\<forall>x. x \<notin> set (bt_upto m hi))" by (cases "bt_upto m hi") auto
  moreover have "(\<forall>x. x \<notin> set (bt_upto m hi)) \<longleftrightarrow> (\<forall>k v. bt_get m k = Some v \<longrightarrow> hi < k)"
    by (simp only: split_paired_All bt_upto_iff de_Morgan_conj not_le imp_conv_disj)
  moreover have "(\<forall>v. bt_get m k = Some v \<longrightarrow> hi < k) \<longleftrightarrow> (bt_get m k \<noteq> None \<longrightarrow> hi < k)" for k
    by (cases "bt_get m k") simp_all
  ultimately show ?thesis by (simp only:)
qed

lemma bt_ceiling_Some:
  assumes "bt_ceiling m lo = Some (k, v)"
  shows "bt_get m k = Some v" "lo \<le> k" "bt_get m k' \<noteq> None \<Longrightarrow> lo \<le> k' \<Longrightarrow> k \<le> k'"
proof -
  obtain xs where xs: "bt_from m lo = (k, v) # xs"
    using assms by (auto simp: bt_ceiling_def split: list.splits)
  then have "(k, v) \<in> set (bt_from m lo)" by simp
  then show "bt_get m k = Some v" "lo \<le> k" by (simp_all add: bt_from_iff)
  have "sorted_wrt (<) (map fst (bt_from m lo))"
    unfolding bt_from_def by (rule sorted_filter_keys [OF bt_sorted])
  then have less: "\<forall>x\<in>set xs. k < fst x" using xs by simp
  assume "bt_get m k' \<noteq> None" "lo \<le> k'"
  then obtain v' where "(k', v') \<in> set (bt_from m lo)" by (auto simp: bt_from_iff)
  then show "k \<le> k'" using less xs by auto
qed

lemma bt_ceiling_None: "bt_ceiling m lo = None \<longleftrightarrow> (\<forall>k. bt_get m k \<noteq> None \<longrightarrow> k < lo)"
proof -
  have "bt_ceiling m lo = None \<longleftrightarrow> bt_from m lo = []" by (simp add: bt_ceiling_def split: list.splits)
  moreover have "bt_from m lo = [] \<longleftrightarrow> (\<forall>x. x \<notin> set (bt_from m lo))" by (cases "bt_from m lo") auto
  moreover have "(\<forall>x. x \<notin> set (bt_from m lo)) \<longleftrightarrow> (\<forall>k v. bt_get m k = Some v \<longrightarrow> k < lo)"
    by (simp only: split_paired_All bt_from_iff de_Morgan_conj not_le imp_conv_disj)
  moreover have "(\<forall>v. bt_get m k = Some v \<longrightarrow> k < lo) \<longleftrightarrow> (bt_get m k \<noteq> None \<longrightarrow> k < lo)" for k
    by (cases "bt_get m k") simp_all
  ultimately show ?thesis by (simp only:)
qed

lemmas bt_lems = bt_get_insert bt_get_remove bt_get_empty bt_contains_insert bt_contains_empty

end
