(* ===== verification/Dimensions.thy ===== *)
theory Dimensions
  imports Dates Btree_Map
begin

text \<open>
  \<^verbatim>\<open>src/dimensions.rs\<close>: labels and the bounded, ordered dimension set of a posting. The canonical
  encoding of a set depends only on its contents.
\<close>

definition max_label_len :: nat where "max_label_len = 64"
definition max_dimensions :: nat where "max_dimensions = 8"

datatype dimension_error = DimEmpty | DimTooLong | DimControlCharacter | TooManyDimensions

datatype label = Label (label_str: ustr)

instantiation label :: linorder
begin

definition less_eq_label :: "label \<Rightarrow> label \<Rightarrow> bool" where
  "less_eq_label a b \<longleftrightarrow> label_str a \<le> label_str b"

definition less_label :: "label \<Rightarrow> label \<Rightarrow> bool" where
  "less_label a b \<longleftrightarrow> label_str a < label_str b"

instance
  by standard (auto simp: less_eq_label_def less_label_def label.expand)

end

definition label_new :: "ustr \<Rightarrow> (dimension_error, label) res" where
  "label_new s =
     (if s = [] then Err DimEmpty
      else if length s > max_label_len then Err DimTooLong
      else if list_ex is_control s then Err DimControlCharacter
      else Ok (Label s))"

definition enc_label :: "label \<Rightarrow> byte list" where
  "enc_label l = enc_str (label_str l)"

text \<open>What holds of every label the constructor lets through, its text being a Rust string.\<close>

definition valid_label :: "label \<Rightarrow> bool" where
  "valid_label l \<longleftrightarrow> label_new (label_str l) = Ok l \<and> valid_str (label_str l)"

lemma label_new_Ok: "label_new s = Ok l \<Longrightarrow> l = Label s \<and> label_new (label_str l) = Ok l"
  by (auto simp: label_new_def split: if_splits)

lemma short_text:
  assumes "valid_str s" "length s \<le> 1024"
  shows "valid_text s"
  using assms length_utf8(2) [of s] by (simp add: valid_text_def fits_def u64_max_def)

lemma valid_label_text: "valid_label l \<Longrightarrow> valid_text (label_str l)"
  by (rule short_text) (auto simp: valid_label_def label_new_def max_label_len_def split: if_splits)

interpretation labelc: prefix_code enc_label valid_label
proof -
  have "prefix_code (\<lambda>l. enc_str (label_str l)) valid_label"
    by (rule map_prefix_code [OF strc.prefix_code_axioms]) (auto simp: valid_label_text label.expand)
  then show "prefix_code enc_label valid_label" by (simp add: enc_label_def [abs_def])
qed

section \<open>Dimension sets\<close>

datatype dimensions = Dimensions (axes: "(label, label) btmap")

definition dims_none :: dimensions where
  "dims_none = Dimensions bt_empty"

definition dims_set :: "dimensions \<Rightarrow> label \<Rightarrow> label \<Rightarrow> (dimension_error, label option \<times> dimensions) res" where
  "dims_set d axis val =
     (if \<not> bt_contains (axes d) axis \<and> bt_len (axes d) \<ge> max_dimensions then Err TooManyDimensions
      else Ok (bt_get (axes d) axis, Dimensions (bt_insert axis val (axes d))))"

definition dims_with :: "dimensions \<Rightarrow> label \<Rightarrow> label \<Rightarrow> (dimension_error, dimensions) res" where
  "dims_with d axis val = bindR (dims_set d axis val) (\<lambda>(_, d'). Ok d')"

definition dims_from_pairs :: "(label \<times> label) list \<Rightarrow> (dimension_error, dimensions) res" where
  "dims_from_pairs pairs =
     try_fold (\<lambda>out (axis, val). bindR (dims_set out axis val) (\<lambda>(_, out'). Ok out')) dims_none pairs"

definition dims_get :: "dimensions \<Rightarrow> ustr \<Rightarrow> label option" where
  "dims_get d axis = bt_get (axes d) (Label axis)"

definition dims_contains :: "dimensions \<Rightarrow> ustr \<Rightarrow> bool" where
  "dims_contains d axis \<longleftrightarrow> dims_get d axis \<noteq> None"

definition dims_len :: "dimensions \<Rightarrow> nat" where
  "dims_len d = bt_len (axes d)"

definition dims_is_empty :: "dimensions \<Rightarrow> bool" where
  "dims_is_empty d \<longleftrightarrow> bt_iter (axes d) = []"

definition enc_dimensions :: "dimensions \<Rightarrow> byte list" where
  "enc_dimensions d = enc_seq (\<lambda>(axis, val). enc_label axis @ enc_label val) (bt_iter (axes d))"

definition valid_dims :: "dimensions \<Rightarrow> bool" where
  "valid_dims d \<longleftrightarrow> dims_len d \<le> max_dimensions
     \<and> list_all (\<lambda>(a, v). valid_label a \<and> valid_label v) (bt_iter (axes d))"

lemma valid_dims_none [simp]: "valid_dims dims_none"
  by (simp add: valid_dims_def dims_none_def dims_len_def bt_len_def max_dimensions_def)

lemma dims_set_valid:
  assumes "valid_dims d" "valid_label axis" "valid_label val" "dims_set d axis val = Ok (old, d')"
  shows "valid_dims d'"
  using assms
  by (auto simp: dims_set_def valid_dims_def dims_len_def bt_len_insert list_all_iff set_bt_iter_insert
      split: if_splits)

lemma pair_prefix_code:
  assumes "prefix_code e v" "prefix_code f w"
  shows "prefix_code (\<lambda>(a, b). e a @ f b) (\<lambda>(a, b). v a \<and> w b)"
  by standard (use assms in \<open>auto simp: prefix_code.append_iff\<close>)

interpretation dimsc: prefix_code enc_dimensions valid_dims
proof -
  let ?e = "\<lambda>(axis, val). enc_label axis @ enc_label val"
  have p: "prefix_code ?e (\<lambda>(a, v). valid_label a \<and> valid_label v)"
    by (rule pair_prefix_code [OF labelc.prefix_code_axioms labelc.prefix_code_axioms])
  have "prefix_code (\<lambda>d. enc_seq ?e (bt_iter (axes d))) valid_dims"
  proof (rule map_prefix_code [OF seq_prefix_code [OF p]])
    fix d :: dimensions
    assume "valid_dims d"
    then show "fits (bt_iter (axes d)) \<and> list_all (\<lambda>(a, v). valid_label a \<and> valid_label v) (bt_iter (axes d))"
      by (simp add: valid_dims_def dims_len_def bt_len_def fits_def max_dimensions_def u64_max_def)
  qed (simp add: bt_iter_inject dimensions.expand)
  then show "prefix_code enc_dimensions valid_dims" by (simp add: enc_dimensions_def [abs_def])
qed

end
