(* ===== verification/Posting.thy ===== *)
theory Posting
  imports Account_Path Dimensions
begin

text \<open>\<^verbatim>\<open>src/posting.rs\<close>: directions, layers and postings, with their canonical encoding.\<close>

datatype direction = Debit | Credit

definition dir_inverse :: "direction \<Rightarrow> direction" where
  "dir_inverse d = (case d of Debit \<Rightarrow> Credit | Credit \<Rightarrow> Debit)"

definition is_debit :: "direction \<Rightarrow> bool" where "is_debit d \<longleftrightarrow> d = Debit"
definition is_credit :: "direction \<Rightarrow> bool" where "is_credit d \<longleftrightarrow> d = Credit"

definition dir_discriminant :: "direction \<Rightarrow> u8" where
  "dir_discriminant d = (case d of Debit \<Rightarrow> 0 | Credit \<Rightarrow> 1)"

datatype layer = Settled | Pending

definition layer_discriminant :: "layer \<Rightarrow> u8" where
  "layer_discriminant l = (case l of Settled \<Rightarrow> 0 | Pending \<Rightarrow> 1)"

lemma discriminant_inj [simp]:
  "dir_discriminant a = dir_discriminant b \<longleftrightarrow> a = b"
  "layer_discriminant c = layer_discriminant d \<longleftrightarrow> c = d"
  by (auto simp: dir_discriminant_def layer_discriminant_def split: direction.splits layer.splits)

instantiation layer :: linorder
begin

definition less_eq_layer :: "layer \<Rightarrow> layer \<Rightarrow> bool" where
  "less_eq_layer a b \<longleftrightarrow> layer_discriminant a \<le> layer_discriminant b"

definition less_layer :: "layer \<Rightarrow> layer \<Rightarrow> bool" where
  "less_layer a b \<longleftrightarrow> layer_discriminant a < layer_discriminant b"

instance
  by standard (auto simp: less_eq_layer_def less_layer_def less_le)

end

record posting =
  p_account :: account_id
  p_direction :: direction
  p_amount :: amount
  p_currency :: currency
  p_layer :: layer
  p_dimensions :: dimensions

definition posting_new :: "account_id \<Rightarrow> direction \<Rightarrow> amount \<Rightarrow> currency \<Rightarrow> posting" where
  "posting_new account direction amount currency =
     \<lparr>p_account = account, p_direction = direction, p_amount = amount, p_currency = currency,
      p_layer = Settled, p_dimensions = dims_none\<rparr>"

definition posting_debit :: "account_id \<Rightarrow> amount \<Rightarrow> currency \<Rightarrow> posting" where
  "posting_debit account amount currency = posting_new account Debit amount currency"

definition posting_credit :: "account_id \<Rightarrow> amount \<Rightarrow> currency \<Rightarrow> posting" where
  "posting_credit account amount currency = posting_new account Credit amount currency"

definition in_layer :: "posting \<Rightarrow> layer \<Rightarrow> posting" where
  "in_layer p l = p\<lparr>p_layer := l\<rparr>"

definition with_dimensions :: "posting \<Rightarrow> dimensions \<Rightarrow> posting" where
  "with_dimensions p d = p\<lparr>p_dimensions := d\<rparr>"

definition inverted :: "posting \<Rightarrow> posting" where
  "inverted p =
     \<lparr>p_account = p_account p, p_direction = dir_inverse (p_direction p), p_amount = p_amount p,
      p_currency = p_currency p, p_layer = p_layer p, p_dimensions = p_dimensions p\<rparr>"

definition posting_signed :: "posting \<Rightarrow> (money_error, amount) res" where
  "posting_signed p = (case p_direction p of Debit \<Rightarrow> Ok (p_amount p) | Credit \<Rightarrow> checked_neg (p_amount p))"

definition enc_posting :: "posting \<Rightarrow> byte list" where
  "enc_posting p =
     enc_u32 (account_index (p_account p)) @
     enc_u8 (dir_discriminant (p_direction p)) @
     enc_i64 (to_minor (p_amount p)) @
     enc_fixed (currency_bytes (p_currency p)) @
     enc_u8 (layer_discriminant (p_layer p)) @
     enc_dimensions (p_dimensions p)"

definition valid_posting :: "posting \<Rightarrow> bool" where
  "valid_posting p \<longleftrightarrow> valid_currency (p_currency p) \<and> valid_dims (p_dimensions p)"

lemma inverted_involutive [simp]: "inverted (inverted p) = p"
  by (simp add: inverted_def dir_inverse_def split: direction.splits)

lemma inverted_fields [simp]:
  "p_account (inverted p) = p_account p" "p_amount (inverted p) = p_amount p"
  "p_currency (inverted p) = p_currency p" "p_layer (inverted p) = p_layer p"
  "p_dimensions (inverted p) = p_dimensions p" "p_direction (inverted p) = dir_inverse (p_direction p)"
  by (simp_all add: inverted_def)

lemma currency_append:
  "valid_currency c \<Longrightarrow> valid_currency d \<Longrightarrow>
    enc_fixed (currency_bytes c) @ r = enc_fixed (currency_bytes d) @ s \<longleftrightarrow> c = d \<and> r = s"
  using append_eq_append_conv [of "currency_bytes c" "currency_bytes d" r s]
  by (auto simp: enc_fixed_def valid_currency_def currency.expand)

interpretation postingc: prefix_code enc_posting valid_posting
proof
  fix x y r s
  assume "valid_posting x" "valid_posting y" "enc_posting x @ r = enc_posting y @ s"
  then show "x = y \<and> r = s"
    by (auto simp: enc_posting_def valid_posting_def prefix_iffs currency_append dimsc.append_iff
        account_id.expand amount.expand)
qed

end
