(* ===== verification/Balance.thy ===== *)
theory Balance
  imports Posting
begin

text \<open>
  \<^verbatim>\<open>src/balance.rs\<close>: gross debit and credit totals, and the trial balance keyed by account, currency
  and layer. The lemmas tie a trial balance to the sums of the postings it accumulated.
\<close>

record balance =
  debits :: amount
  credits :: amount

definition balance_zero :: balance where
  "balance_zero = \<lparr>debits = amount_zero, credits = amount_zero\<rparr>"

definition balance_add :: "balance \<Rightarrow> direction \<Rightarrow> amount \<Rightarrow> (money_error, balance) res" where
  "balance_add b direction amount =
     (case direction of
        Debit \<Rightarrow> bindR (checked_add (debits b) amount) (\<lambda>d. Ok (b\<lparr>debits := d\<rparr>))
      | Credit \<Rightarrow> bindR (checked_add (credits b) amount) (\<lambda>c. Ok (b\<lparr>credits := c\<rparr>)))"

definition balance_net :: "balance \<Rightarrow> (money_error, direction \<times> amount) res" where
  "balance_net b =
     (if debits b \<ge> credits b then bindR (checked_sub (debits b) (credits b)) (\<lambda>a. Ok (Debit, a))
      else bindR (checked_sub (credits b) (debits b)) (\<lambda>a. Ok (Credit, a)))"

definition signed_net :: "balance \<Rightarrow> (money_error, amount) res" where
  "signed_net b = checked_sub (debits b) (credits b)"

definition is_balanced :: "balance \<Rightarrow> bool" where
  "is_balanced b \<longleftrightarrow> debits b = credits b"

definition balance_is_empty :: "balance \<Rightarrow> bool" where
  "balance_is_empty b \<longleftrightarrow> is_zero (debits b) \<and> is_zero (credits b)"

definition balance_checked_add :: "balance \<Rightarrow> balance \<Rightarrow> (money_error, balance) res" where
  "balance_checked_add b other =
     bindR (checked_add (debits b) (debits other)) (\<lambda>d.
     bindR (checked_add (credits b) (credits other)) (\<lambda>c. Ok \<lparr>debits = d, credits = c\<rparr>))"

section \<open>Keys\<close>

datatype balance_key = BalanceKey (k_account: account_id) (k_currency: currency) (k_layer: layer)

definition key_tuple :: "balance_key \<Rightarrow> account_id \<times> currency \<times> layer" where
  "key_tuple k = (k_account k, k_currency k, k_layer k)"

lemma key_tuple_inj [simp]: "key_tuple a = key_tuple b \<longleftrightarrow> a = b"
  by (cases a; cases b) (simp add: key_tuple_def)

instantiation balance_key :: linorder
begin

definition less_eq_balance_key :: "balance_key \<Rightarrow> balance_key \<Rightarrow> bool" where
  "less_eq_balance_key a b \<longleftrightarrow> key_tuple a \<le> key_tuple b"

definition less_balance_key :: "balance_key \<Rightarrow> balance_key \<Rightarrow> bool" where
  "less_balance_key a b \<longleftrightarrow> key_tuple a < key_tuple b"

instance
proof
  fix x y z :: balance_key
  show "x < y \<longleftrightarrow> x \<le> y \<and> \<not> y \<le> x"
    unfolding less_eq_balance_key_def less_balance_key_def by (rule less_le_not_le)
  show "x \<le> x" "x \<le> y \<or> y \<le> x"
    unfolding less_eq_balance_key_def by (rule order_refl, rule linear)
  show "x \<le> y \<Longrightarrow> y \<le> z \<Longrightarrow> x \<le> z"
    unfolding less_eq_balance_key_def by (rule order_trans)
  show "x \<le> y \<Longrightarrow> y \<le> x \<Longrightarrow> x = y"
    unfolding less_eq_balance_key_def by (metis antisym key_tuple_inj)
qed

end

text \<open>The key a posting falls under.\<close>

definition key_of_posting :: "posting \<Rightarrow> balance_key" where
  "key_of_posting p = BalanceKey (p_account p) (p_currency p) (p_layer p)"

section \<open>Trial balances\<close>

type_synonym trial_balance = "(balance_key, balance) btmap"

definition tb_get_or_zero :: "trial_balance \<Rightarrow> balance_key \<Rightarrow> balance" where
  "tb_get_or_zero tb key = (case bt_get tb key of Some b \<Rightarrow> b | None \<Rightarrow> balance_zero)"

text \<open>
  \<^verbatim>\<open>entry(key).or_default().add(..)\<close>: the entry is created even when the addition then overflows.
\<close>

definition tb_apply :: "trial_balance \<Rightarrow> posting \<Rightarrow> (money_error, unit) res \<times> trial_balance" where
  "tb_apply tb p =
     (let key = key_of_posting p; b = tb_get_or_zero tb key in
      case balance_add b (p_direction p) (p_amount p) of
        Err e \<Rightarrow> (Err e, bt_insert key b tb)
      | Ok b' \<Rightarrow> (Ok (), bt_insert key b' tb))"

definition tb_set :: "trial_balance \<Rightarrow> balance_key \<Rightarrow> balance \<Rightarrow> trial_balance" where
  "tb_set tb key b = bt_insert key b tb"

definition tb_remove :: "trial_balance \<Rightarrow> balance_key \<Rightarrow> balance option \<times> trial_balance" where
  "tb_remove tb key = (bt_get tb key, bt_remove key tb)"

definition tb_totals :: "trial_balance \<Rightarrow> currency \<Rightarrow> layer \<Rightarrow> (money_error, balance) res" where
  "tb_totals tb currency layer =
     try_fold (\<lambda>acc (key, b).
       if k_currency key = currency \<and> k_layer key = layer then balance_checked_add acc b else Ok acc)
       balance_zero (bt_iter tb)"

definition tb_currencies :: "trial_balance \<Rightarrow> currency list" where
  "tb_currencies tb = remdups_adj (sort (map k_currency (bt_keys tb)))"

section \<open>The sums behind a trial balance\<close>

text \<open>The gross movement on one side of one key by a list of postings, in minor units.\<close>

definition moved :: "direction \<Rightarrow> balance_key \<Rightarrow> posting list \<Rightarrow> int" where
  "moved d key ps = sum_list (map (\<lambda>p. amt (p_amount p)) (filter (\<lambda>p. key_of_posting p = key \<and> p_direction p = d) ps))"

definition side :: "direction \<Rightarrow> balance \<Rightarrow> int" where
  "side d b = (case d of Debit \<Rightarrow> amt (debits b) | Credit \<Rightarrow> amt (credits b))"

lemma moved_simps [simp]:
  "moved d key [] = 0"
  "moved d key (p # ps) = (if key_of_posting p = key \<and> p_direction p = d then amt (p_amount p) else 0) + moved d key ps"
  "moved d key (ps @ qs) = moved d key ps + moved d key qs"
  by (simp_all add: moved_def)

lemma side_zero [simp]: "side d balance_zero = 0"
  by (simp add: side_def balance_zero_def split: direction.splits)

lemma balance_eqI: "(\<And>d. side d a = side d b) \<Longrightarrow> a = (b :: balance)"
proof -
  assume "\<And>d. side d a = side d b"
  from this [of Debit] this [of Credit] show "a = b" by (simp add: side_def amt_inj)
qed

lemma is_balanced_side: "is_balanced b \<longleftrightarrow> side Debit b = side Credit b"
  by (simp add: is_balanced_def side_def amt_inj)

lemma all_directions: "(\<forall>s. P s) \<longleftrightarrow> P Debit \<and> P Credit"
proof
  assume "P Debit \<and> P Credit"
  then have "P s" for s by (cases s) simp_all
  then show "\<forall>s. P s" ..
qed auto

lemma balance_add_Ok:
  "balance_add b d x = Ok b' \<longleftrightarrow> (\<forall>s. side s b' = side s b + (if s = d then amt x else 0))"
  unfolding all_directions
  by (cases d; cases b; cases b') (auto simp: balance_add_def side_def amt_inj)

lemma balance_add_Err:
  "balance_add b d x = Err e \<longleftrightarrow> \<not> in_i64 (side d b + amt x) \<and> e = Overflow"
  by (cases d) (auto simp: balance_add_def side_def bindR_Err checked_add_Err)

lemma balance_checked_add_Ok:
  "balance_checked_add a b = Ok c \<longleftrightarrow> (\<forall>s. side s c = side s a + side s b)"
  unfolding all_directions
  by (cases c) (auto simp: balance_checked_add_def side_def amt_inj)

lemma side_in_range: "in_i64 (side d b)"
  by (cases d) (simp_all add: side_def)

lemma tb_apply_Ok:
  assumes "tb_apply tb p = (Ok u, tb')"
  shows "side s (tb_get_or_zero tb' key) = side s (tb_get_or_zero tb key) + moved s key [p]"
    "bt_get tb' key \<noteq> None \<longleftrightarrow> key = key_of_posting p \<or> bt_get tb key \<noteq> None"
  using assms
  by (auto simp: tb_apply_def tb_get_or_zero_def balance_add_Ok Let_def split: sum.splits)

text \<open>A trial balance shows a list of postings: every key holds their gross sums, and only their keys are there.\<close>

definition shows_postings :: "trial_balance \<Rightarrow> posting list \<Rightarrow> bool" where
  "shows_postings tb ps \<longleftrightarrow>
     (\<forall>key d. side d (tb_get_or_zero tb key) = moved d key ps)
     \<and> (\<forall>key. bt_get tb key \<noteq> None \<longleftrightarrow> key \<in> key_of_posting ` set ps)"

lemma shows_key: "shows_postings tb ps \<Longrightarrow> bt_get tb key \<noteq> None \<longleftrightarrow> key \<in> key_of_posting ` set ps"
  unfolding shows_postings_def by (elim conjE) (rule spec)

lemma shows_side: "shows_postings tb ps \<Longrightarrow> side d (tb_get_or_zero tb key) = moved d key ps"
  by (simp add: shows_postings_def)

lemma shows_empty [simp]: "shows_postings bt_empty []"
  by (simp add: shows_postings_def tb_get_or_zero_def)

lemma shows_apply:
  assumes "shows_postings tb ps" "tb_apply tb p = (Ok u, tb')"
  shows "shows_postings tb' (ps @ [p])"
  using assms tb_apply_Ok [OF assms(2)] by (auto simp: shows_postings_def)

lemma shows_unique: "shows_postings a ps \<Longrightarrow> shows_postings b ps \<Longrightarrow> a = b"
proof (rule bt_eqI)
  fix key
  assume a: "shows_postings a ps" "shows_postings b ps"
  then have "tb_get_or_zero a key = tb_get_or_zero b key"
    by (intro balance_eqI) (simp add: shows_postings_def)
  moreover have "bt_get a key \<noteq> None \<longleftrightarrow> bt_get b key \<noteq> None"
    unfolding shows_key [OF a(1)] shows_key [OF a(2)] ..
  ultimately show "bt_get a key = bt_get b key"
    by (auto simp: tb_get_or_zero_def split: option.splits)
qed

end
