(* ===== verification/Merkle.thy ===== *)
theory Merkle
  imports Hashing
begin

text \<open>
  \<^verbatim>\<open>src/merkle.rs\<close>: the append-only Merkle log. Sizes and indices are \<^verbatim>\<open>u64\<close>; they are natural
  numbers here, with the saturation of the one addition that can reach the bound written out.
  Hashing takes the BLAKE3 argument \<open>b3\<close>.
\<close>

section \<open>Nodes\<close>

definition tag_empty :: "byte list" where "tag_empty = blit ''doubleentry/merkle/empty/v1''"
definition tag_leaf :: "byte list" where "tag_leaf = blit ''doubleentry/merkle/leaf/v1''"
definition tag_node :: "byte list" where "tag_node = blit ''doubleentry/merkle/node/v1''"

definition empty_root :: "blake3 \<Rightarrow> hash" where
  "empty_root b3 = tagged b3 tag_empty []"

definition leaf_hash :: "blake3 \<Rightarrow> hash \<Rightarrow> hash" where
  "leaf_hash b3 payload = tagged b3 tag_leaf (hash_bytes payload)"

definition node_hash :: "blake3 \<Rightarrow> hash \<Rightarrow> hash \<Rightarrow> hash" where
  "node_hash b3 left right = tagged b3 tag_node (hash_bytes left @ hash_bytes right)"

section \<open>The tree hash\<close>

text \<open>The loop of \<^verbatim>\<open>split_point\<close>; the variable starts at one and only doubles, so it is never zero.\<close>

function split_loop :: "nat \<Rightarrow> nat \<Rightarrow> nat" where
  "split_loop k n = (if 0 < k \<and> 2 * k < n then split_loop (2 * k) n else k)"
  by auto
termination by (relation "measure (\<lambda>(k, n). n - k)") auto

declare split_loop.simps [simp del]

definition split_point :: "nat \<Rightarrow> nat" where
  "split_point n = split_loop 1 n"

lemma split_loop_bounds:
  "0 < k \<Longrightarrow> k < n \<Longrightarrow> k \<le> split_loop k n \<and> split_loop k n < n \<and> n \<le> 2 * split_loop k n"
proof (induction k n rule: split_loop.induct)
  case (1 k n)
  then show ?case by (subst (1 2 3) split_loop.simps) auto
qed

lemma split_point_bounds: "1 < n \<Longrightarrow> 0 < split_point n \<and> split_point n < n \<and> n \<le> 2 * split_point n"
  using split_loop_bounds [of 1 n] by (simp add: split_point_def)

lemma split_point_shorter:
  assumes "xs \<noteq> []" "length xs \<noteq> Suc 0"
  shows "0 < split_point (length xs)" "split_point (length xs) < length xs"
    "length xs - split_point (length xs) < length xs" "\<not> length xs \<le> split_point (length xs)"
proof -
  have "1 < length xs" using assms by (cases xs) auto
  from split_point_bounds [OF this]
  show "0 < split_point (length xs)" "split_point (length xs) < length xs"
    "length xs - split_point (length xs) < length xs" "\<not> length xs \<le> split_point (length xs)"
    by linarith+
qed

lemma split_point_longer:
  assumes "\<not> length xs \<le> Suc 0"
  shows "min (length xs) (split_point (length xs)) < length xs" "length xs - split_point (length xs) < length xs"
  using split_point_bounds [of "length xs"] assms by linarith+

lemma split_loop_eq: "2 ^ j < n \<Longrightarrow> n \<le> 2 * 2 ^ j \<Longrightarrow> i \<le> j \<Longrightarrow> split_loop (2 ^ i) n = 2 ^ j"
proof (induction "j - i" arbitrary: i)
  case 0
  then show ?case by (subst split_loop.simps) simp
next
  case (Suc d)
  then have "2 * 2 ^ i \<le> (2::nat) ^ j" using power_increasing [of "Suc i" j "2::nat"] by simp
  then have "split_loop (2 ^ i) n = split_loop (2 ^ Suc i) n"
    using Suc.prems by (subst split_loop.simps) simp
  moreover have "d = j - Suc i" "Suc i \<le> j" using Suc.hyps(2) by auto
  ultimately show ?case using Suc.hyps(1) Suc.prems by metis
qed

lemma split_point_eq: "2 ^ j < n \<Longrightarrow> n \<le> 2 * 2 ^ j \<Longrightarrow> split_point n = 2 ^ j"
  using split_loop_eq [of j n 0] by (simp add: split_point_def)

lemma pow2_bracket: "1 < (n::nat) \<Longrightarrow> \<exists>j. 2 ^ j < n \<and> n \<le> 2 * 2 ^ j"
proof (induction n rule: less_induct)
  case (less n)
  show ?case
  proof (cases "n = 2")
    case True
    then show ?thesis by (intro exI [of _ 0]) simp
  next
    case False
    then have "1 < (n + 1) div 2" "(n + 1) div 2 < n" using less.prems by auto
    then obtain j where "2 ^ j < (n + 1) div 2" "(n + 1) div 2 \<le> 2 * 2 ^ j" using less.IH by blast
    then have "2 ^ Suc j < n" "n \<le> 2 * 2 ^ Suc j" by auto
    then show ?thesis by blast
  qed
qed

function mth :: "blake3 \<Rightarrow> hash list \<Rightarrow> hash" where
  "mth b3 leaves =
     (if length leaves = 0 then empty_root b3
      else if length leaves = 1 then leaf_hash b3 (leaves ! 0)
      else let k = split_point (length leaves) in
        node_hash b3 (mth b3 (take k leaves)) (mth b3 (drop k leaves)))"
  by auto
termination
  by (relation "measure (\<lambda>(b3, leaves). length leaves)")
    (auto simp: split_point_shorter split_point_longer)

declare mth.simps [simp del]

lemma mth_Nil [simp]: "mth b3 [] = empty_root b3"
  by (subst mth.simps) simp

lemma mth_single [simp]: "mth b3 [x] = leaf_hash b3 x"
  by (subst mth.simps) simp

lemma mth_append:
  assumes "length xs = 2 ^ j" "ys \<noteq> []" "length ys \<le> 2 ^ j"
  shows "mth b3 (xs @ ys) = node_hash b3 (mth b3 xs) (mth b3 ys)"
proof -
  have len: "2 ^ j < length (xs @ ys)" "length (xs @ ys) \<le> 2 * 2 ^ j" using assms by (simp_all)
  then have "split_point (length (xs @ ys)) = 2 ^ j" by (rule split_point_eq)
  moreover have "length (xs @ ys) \<noteq> 0" "length (xs @ ys) \<noteq> 1"
    using len(1) one_le_power [of "2::nat" j] by linarith+
  ultimately show ?thesis
    using assms(1) by (subst mth.simps) (simp add: Let_def)
qed

section \<open>Heads, proofs and errors\<close>

record tree_head =
  th_size :: nat
  th_root :: hash

datatype proof_error = IndexOutOfRange nat nat | SizeOutOfRange nat nat

record malformed_accumulator =
  ma_size :: nat
  ma_expected :: "nat list"
  ma_found :: "nat list"

record inclusion_proof =
  leaf_index :: nat
  tree_size :: nat
  ip_path :: "hash list"

record consistency_proof =
  old_size :: nat
  new_size :: nat
  cp_path :: "hash list"

section \<open>Verification\<close>

text \<open>The inner loop: halve both numbers while the first is even and not zero.\<close>

function skip_zeros :: "nat \<Rightarrow> nat \<Rightarrow> nat \<times> nat" where
  "skip_zeros fname sname =
     (if even fname \<and> fname \<noteq> 0 then skip_zeros (fname div 2) (sname div 2) else (fname, sname))"
  by auto
termination by (relation "measure fst") auto

declare skip_zeros.simps [simp del]

text \<open>
  One turn of the walk both verifiers share: whether the sibling is on the left, and the two
  numbers after the turn.
\<close>

definition walk_step :: "nat \<Rightarrow> nat \<Rightarrow> bool \<times> nat \<times> nat" where
  "walk_step fname sname =
     (if odd fname \<or> fname = sname
      then (case skip_zeros fname sname of (f, s) \<Rightarrow> (True, f div 2, s div 2))
      else (False, fname div 2, sname div 2))"

fun inclusion_walk :: "blake3 \<Rightarrow> hash list \<Rightarrow> nat \<Rightarrow> nat \<Rightarrow> hash \<Rightarrow> (nat \<times> hash) option" where
  "inclusion_walk b3 [] fname sname acc = Some (sname, acc)"
| "inclusion_walk b3 (p # path) fname sname acc =
     (if sname = 0 then None
      else (case walk_step fname sname of (on_left, f, s) \<Rightarrow>
        inclusion_walk b3 path f s (if on_left then node_hash b3 p acc else node_hash b3 acc p)))"

definition inclusion_verify :: "blake3 \<Rightarrow> inclusion_proof \<Rightarrow> hash \<Rightarrow> tree_head \<Rightarrow> bool" where
  "inclusion_verify b3 pf leaf_payload head =
     (if tree_size pf \<noteq> th_size head \<or> leaf_index pf \<ge> tree_size pf then False
      else (case inclusion_walk b3 (ip_path pf) (leaf_index pf) (tree_size pf - 1) (leaf_hash b3 leaf_payload) of
          None \<Rightarrow> False
        | Some (sname, acc) \<Rightarrow> sname = 0 \<and> acc = th_root head))"

function skip_ones :: "nat \<Rightarrow> nat \<Rightarrow> nat \<times> nat" where
  "skip_ones fname sname =
     (if odd fname then skip_ones (fname div 2) (sname div 2) else (fname, sname))"
  by auto
termination by (relation "measure fst") (auto elim: oddE)

declare skip_ones.simps [simp del]

fun consistency_walk :: "blake3 \<Rightarrow> hash list \<Rightarrow> nat \<Rightarrow> nat \<Rightarrow> hash \<Rightarrow> hash \<Rightarrow> (nat \<times> hash \<times> hash) option" where
  "consistency_walk b3 [] fname sname fr sr = Some (sname, fr, sr)"
| "consistency_walk b3 (p # path) fname sname fr sr =
     (if sname = 0 then None
      else (case walk_step fname sname of (on_left, f, s) \<Rightarrow>
        if on_left then consistency_walk b3 path f s (node_hash b3 p fr) (node_hash b3 p sr)
        else consistency_walk b3 path f s fr (node_hash b3 sr p)))"

definition is_vacuous :: "consistency_proof \<Rightarrow> bool" where
  "is_vacuous pf \<longleftrightarrow> old_size pf = 0"

definition is_pow2 :: "nat \<Rightarrow> bool" where
  "is_pow2 n \<longleftrightarrow> and n (n - 1) = 0"

definition consistency_verify :: "blake3 \<Rightarrow> consistency_proof \<Rightarrow> tree_head \<Rightarrow> tree_head \<Rightarrow> bool" where
  "consistency_verify b3 pf old new =
     (if old_size pf \<noteq> th_size old \<or> new_size pf \<noteq> th_size new then False
      else if old_size pf > new_size pf then False
      else if old_size pf = new_size pf then cp_path pf = [] \<and> th_root old = th_root new
      else if old_size pf = 0 then cp_path pf = [] \<and> th_root old = empty_root b3
      else (case (if is_pow2 (old_size pf) then Some (th_root old, cp_path pf)
                  else (case cp_path pf of [] \<Rightarrow> None | h # rest \<Rightarrow> Some (h, rest))) of
          None \<Rightarrow> False
        | Some (seed, rest) \<Rightarrow>
            (case skip_ones (old_size pf - 1) (new_size pf - 1) of (fname, sname) \<Rightarrow>
              (case consistency_walk b3 rest fname sname seed seed of
                 None \<Rightarrow> False
               | Some (s, fr, sr) \<Rightarrow> s = 0 \<and> fr = th_root old \<and> sr = th_root new))))"

section \<open>The accumulator\<close>

record accumulator =
  subtrees :: "(nat \<times> hash) list"
  acc_size :: nat

definition acc_new :: accumulator where
  "acc_new = \<lparr>subtrees = [], acc_size = 0\<rparr>"

definition cover_of :: "nat \<Rightarrow> nat list" where
  "cover_of n = filter (bit n) (rev [0..<64])"

definition try_from_parts :: "(nat \<times> hash) list \<Rightarrow> nat \<Rightarrow> (malformed_accumulator, accumulator) res" where
  "try_from_parts sts n =
     (let expected = cover_of n; found = map fst sts in
      if found = expected then Ok \<lparr>subtrees = sts, acc_size = n\<rparr>
      else Err \<lparr>ma_size = n, ma_expected = expected, ma_found = found\<rparr>)"

text \<open>The merge loop of \<^verbatim>\<open>push\<close>, on the stack with its last element first.\<close>

fun push_loop :: "blake3 \<Rightarrow> (nat \<times> hash) list \<Rightarrow> nat \<Rightarrow> hash \<Rightarrow> (nat \<times> hash) list" where
  "push_loop b3 [] level node = [(level, node)]"
| "push_loop b3 ((top_level, top_hash) # rest) level node =
     (if top_level \<noteq> level then (level, node) # (top_level, top_hash) # rest
      else push_loop b3 rest (min (level + 1) 255) (node_hash b3 top_hash node))"

definition acc_push :: "blake3 \<Rightarrow> accumulator \<Rightarrow> hash \<Rightarrow> nat \<times> accumulator" where
  "acc_push b3 acc payload =
     (acc_size acc,
      \<lparr>subtrees = rev (push_loop b3 (rev (subtrees acc)) 0 (leaf_hash b3 payload)),
       acc_size = min (acc_size acc + 1) u64_max\<rparr>)"

definition acc_root :: "blake3 \<Rightarrow> accumulator \<Rightarrow> hash" where
  "acc_root b3 acc =
     (case rev (subtrees acc) of
        [] \<Rightarrow> empty_root b3
      | (_, seed) # rest \<Rightarrow> foldl (\<lambda>a (_, left). node_hash b3 left a) seed rest)"

definition acc_head :: "blake3 \<Rightarrow> accumulator \<Rightarrow> tree_head" where
  "acc_head b3 acc = \<lparr>th_size = acc_size acc, th_root = acc_root b3 acc\<rparr>"

section \<open>The log\<close>

record merkle_log =
  leaves :: "hash list"
  accumulator :: accumulator

definition log_new :: merkle_log where
  "log_new = \<lparr>leaves = [], accumulator = acc_new\<rparr>"

definition log_len :: "merkle_log \<Rightarrow> nat" where
  "log_len lg = length (leaves lg)"

definition log_append :: "blake3 \<Rightarrow> merkle_log \<Rightarrow> hash \<Rightarrow> nat \<times> merkle_log" where
  "log_append b3 lg payload =
     (case acc_push b3 (accumulator lg) payload of (i, acc) \<Rightarrow>
      (i, \<lparr>leaves = leaves lg @ [payload], accumulator = acc\<rparr>))"

definition log_from_leaves :: "blake3 \<Rightarrow> hash list \<Rightarrow> merkle_log" where
  "log_from_leaves b3 ls = foldl (\<lambda>lg leaf. snd (log_append b3 lg leaf)) log_new ls"

definition log_truncate :: "blake3 \<Rightarrow> merkle_log \<Rightarrow> nat \<Rightarrow> merkle_log" where
  "log_truncate b3 lg len =
     (if len \<ge> length (leaves lg) then lg
      else let ls = take len (leaves lg) in
        \<lparr>leaves = ls, accumulator = foldl (\<lambda>a leaf. snd (acc_push b3 a leaf)) acc_new ls\<rparr>)"

definition log_root :: "blake3 \<Rightarrow> merkle_log \<Rightarrow> hash" where
  "log_root b3 lg = acc_root b3 (accumulator lg)"

definition verify_incremental_state :: "blake3 \<Rightarrow> merkle_log \<Rightarrow> bool" where
  "verify_incremental_state b3 lg \<longleftrightarrow> log_root b3 lg = mth b3 (leaves lg)"

definition log_head :: "blake3 \<Rightarrow> merkle_log \<Rightarrow> tree_head" where
  "log_head b3 lg = \<lparr>th_size = log_len lg, th_root = log_root b3 lg\<rparr>"

definition root_at :: "blake3 \<Rightarrow> merkle_log \<Rightarrow> nat \<Rightarrow> (proof_error, hash) res" where
  "root_at b3 lg n =
     (if n > length (leaves lg) then Err (SizeOutOfRange n (log_len lg))
      else Ok (mth b3 (take n (leaves lg))))"

definition head_at :: "blake3 \<Rightarrow> merkle_log \<Rightarrow> nat \<Rightarrow> (proof_error, tree_head) res" where
  "head_at b3 lg n = bindR (root_at b3 lg n) (\<lambda>r. Ok \<lparr>th_size = n, th_root = r\<rparr>)"

text \<open>
  \<^verbatim>\<open>PATH\<close> and \<^verbatim>\<open>SUBPROOF\<close>; the code pushes onto one output vector, so a call appends its result.
  \<^verbatim>\<open>SUBPROOF\<close> is only entered with \<open>0 < m\<close> and \<open>m\<close> at most the number of leaves, and stays there; the
  second branch, which closes the recursion outside that range, is never taken.
\<close>

function inclusion_path :: "blake3 \<Rightarrow> nat \<Rightarrow> hash list \<Rightarrow> hash list" where
  "inclusion_path b3 m ls =
     (if length ls \<le> 1 then []
      else let k = split_point (length ls) in
        if m < k then inclusion_path b3 m (take k ls) @ [mth b3 (drop k ls)]
        else inclusion_path b3 (m - k) (drop k ls) @ [mth b3 (take k ls)])"
  by auto
termination
  by (relation "measure (\<lambda>(b3, m, ls). length ls)")
    (auto simp: split_point_shorter split_point_longer)

declare inclusion_path.simps [simp del]

function consistency_path :: "blake3 \<Rightarrow> nat \<Rightarrow> hash list \<Rightarrow> bool \<Rightarrow> hash list" where
  "consistency_path b3 m ls b =
     (if m = length ls then (if \<not> b then [mth b3 ls] else [])
      else if length ls \<le> 1 then []
      else let k = split_point (length ls) in
        if m \<le> k then consistency_path b3 m (take k ls) b @ [mth b3 (drop k ls)]
        else consistency_path b3 (m - k) (drop k ls) False @ [mth b3 (take k ls)])"
  by auto
termination
  by (relation "measure (\<lambda>(b3, m, ls, b). length ls)")
    (auto simp: split_point_shorter split_point_longer)

declare consistency_path.simps [simp del]

definition inclusion_proof_at :: "blake3 \<Rightarrow> merkle_log \<Rightarrow> nat \<Rightarrow> nat \<Rightarrow> (proof_error, inclusion_proof) res" where
  "inclusion_proof_at b3 lg index n =
     (if n > length (leaves lg) then Err (SizeOutOfRange n (log_len lg))
      else if index \<ge> n then Err (IndexOutOfRange index n)
      else Ok \<lparr>leaf_index = index, tree_size = n, ip_path = inclusion_path b3 index (take n (leaves lg))\<rparr>)"

definition log_inclusion_proof :: "blake3 \<Rightarrow> merkle_log \<Rightarrow> nat \<Rightarrow> (proof_error, inclusion_proof) res" where
  "log_inclusion_proof b3 lg index = inclusion_proof_at b3 lg index (log_len lg)"

definition consistency_proof_between :: "blake3 \<Rightarrow> merkle_log \<Rightarrow> nat \<Rightarrow> nat \<Rightarrow> (proof_error, consistency_proof) res" where
  "consistency_proof_between b3 lg m n =
     (if n > length (leaves lg) then Err (SizeOutOfRange n (log_len lg))
      else if m > n then Err (SizeOutOfRange m n)
      else Ok \<lparr>old_size = m, new_size = n,
               cp_path = (if 0 < m \<and> m < n then consistency_path b3 m (take n (leaves lg)) True else [])\<rparr>)"

definition log_consistency_proof :: "blake3 \<Rightarrow> merkle_log \<Rightarrow> nat \<Rightarrow> (proof_error, consistency_proof) res" where
  "log_consistency_proof b3 lg m = consistency_proof_between b3 lg m (log_len lg)"

end
