(* ===== verification/Merkle_Log.thy ===== *)
theory Merkle_Log
  imports Merkle
begin

text \<open>
  The incremental side of the log: the subtree stack kept by \<^verbatim>\<open>append\<close> covers the leaves, its fold is
  the Merkle tree hash of the leaves, its heights are the decomposition of the size, and undoing
  appends by \<^verbatim>\<open>truncate\<close> restores the log exactly.
\<close>

section \<open>The cover invariant\<close>

text \<open>The leaves are cut into blocks, one per stack element, whose sizes are decreasing powers of two.\<close>

definition covers :: "blake3 \<Rightarrow> (nat \<times> hash) list \<Rightarrow> hash list list \<Rightarrow> bool" where
  "covers b3 st blocks \<longleftrightarrow>
     list_all2 (\<lambda>(h, x) b. length b = 2 ^ h \<and> x = mth b3 b) st blocks \<and> sorted_wrt (>) (map fst st)"

definition good_acc :: "blake3 \<Rightarrow> accumulator \<Rightarrow> hash list \<Rightarrow> bool" where
  "good_acc b3 acc ls \<longleftrightarrow> (\<exists>blocks. covers b3 (subtrees acc) blocks \<and> concat blocks = ls)
     \<and> acc_size acc = length ls"

definition good_log :: "blake3 \<Rightarrow> merkle_log \<Rightarrow> bool" where
  "good_log b3 lg \<longleftrightarrow> good_acc b3 (accumulator lg) (leaves lg)"

lemma covers_Nil [simp]: "covers b3 [] bs \<longleftrightarrow> bs = []"
  by (simp add: covers_def)

lemma list_all2_snoc: "list_all2 P (xs @ [x]) (ys @ [y]) \<longleftrightarrow> list_all2 P xs ys \<and> P x y"
proof (cases "length xs = length ys")
  case False
  then show ?thesis by (auto dest: list_all2_lengthD)
qed (simp add: list_all2_append)

lemma covers_snoc:
  "covers b3 (st @ [(h, x)]) bs \<longleftrightarrow>
     (\<exists>bs' b. bs = bs' @ [b] \<and> covers b3 st bs' \<and> length b = 2 ^ h \<and> x = mth b3 b \<and> (\<forall>p\<in>set st. h < fst p))"
  by (cases bs rule: rev_cases)
    (auto simp: covers_def list_all2_snoc sorted_wrt_append image_iff)

lemma covers_Cons:
  "covers b3 ((h, x) # st) bs \<longleftrightarrow>
     (\<exists>b bs'. bs = b # bs' \<and> covers b3 st bs' \<and> length b = 2 ^ h \<and> x = mth b3 b \<and> (\<forall>p\<in>set st. fst p < h))"
  by (auto simp: covers_def list_all2_Cons1)

lemma covers_length: "covers b3 st bs \<Longrightarrow> length (concat bs) = sum_list (map (\<lambda>p. 2 ^ fst p) st)"
  by (induction st arbitrary: bs) (auto simp: covers_Cons)

lemma decreasing_sum_less:
  "sorted_wrt (>) hs \<Longrightarrow> \<forall>h\<in>set hs. h < k \<Longrightarrow> sum_list (map (\<lambda>h. 2 ^ h) hs) < (2::nat) ^ k"
proof (induction hs arbitrary: k)
  case (Cons h hs)
  then have "sum_list (map (\<lambda>h. 2 ^ h) hs) < (2::nat) ^ h" by simp
  moreover have "(2::nat) ^ Suc h \<le> 2 ^ k" using Cons.prems(2) by (intro power_increasing) auto
  ultimately show ?case by simp
qed simp

lemma covers_tail_less:
  assumes "covers b3 st bs" "\<forall>p\<in>set st. fst p < k"
  shows "length (concat bs) < 2 ^ k"
  using decreasing_sum_less [of "map fst st" k] assms covers_length [OF assms(1)]
  by (auto simp: covers_def o_def)

section \<open>Folding the stack gives the tree hash\<close>

lemma mth_pow2_append:
  "length xs = 2 ^ l \<Longrightarrow> length ys = 2 ^ l \<Longrightarrow> mth b3 (xs @ ys) = node_hash b3 (mth b3 xs) (mth b3 ys)"
  by (rule mth_append) auto

lemma fold_root:
  "covers b3 st bs \<Longrightarrow> st \<noteq> [] \<Longrightarrow>
    foldl (\<lambda>a (_, left). node_hash b3 left a) (snd (last st)) (rev (butlast st)) = mth b3 (concat bs)"
proof (induction st arbitrary: bs)
  case (Cons p st)
  obtain h x where p: "p = (h, x)" by fastforce
  obtain b bs' where b: "bs = b # bs'" "covers b3 st bs'" "length b = 2 ^ h" "x = mth b3 b"
    "\<forall>q\<in>set st. fst q < h"
    using Cons.prems(1) p by (auto simp: covers_Cons)
  show ?case
  proof (cases "st = []")
    case True
    then show ?thesis using b p by simp
  next
    case False
    have "bs' \<noteq> []" "bs' = [] \<or> concat bs' \<noteq> []"
      using b(2) False by (cases st; auto simp: covers_Cons)+
    moreover have "length (concat bs') < 2 ^ h" by (rule covers_tail_less [OF b(2,5)])
    ultimately have "mth b3 (b @ concat bs') = node_hash b3 x (mth b3 (concat bs'))"
      using b(3,4) by (simp add: mth_append)
    then show ?thesis using Cons.IH [OF b(2) False] False p b(1) by simp
  qed
qed simp

lemma acc_root_mth:
  assumes "good_acc b3 acc ls"
  shows "acc_root b3 acc = mth b3 ls"
proof (cases "subtrees acc" rule: rev_cases)
  case Nil
  then show ?thesis using assms by (auto simp: good_acc_def acc_root_def)
next
  case (snoc st p)
  obtain bs where "covers b3 (subtrees acc) bs" "concat bs = ls"
    using assms by (auto simp: good_acc_def)
  then show ?thesis
    using fold_root [of b3 "subtrees acc" bs] snoc by (cases p) (simp add: acc_root_def)
qed

section \<open>Appending keeps the cover\<close>

lemma push_loop_covers:
  assumes "covers b3 st bs" "length b = 2 ^ level" "\<forall>p\<in>set st. level \<le> fst p"
    and "length (concat bs @ b) < 2 ^ 64"
  shows "\<exists>bs'. covers b3 (rev (push_loop b3 (rev st) level (mth b3 b))) bs' \<and> concat bs' = concat bs @ b"
  using assms
proof (induction st arbitrary: bs b level rule: rev_induct)
  case Nil
  then show ?case by (intro exI [of _ "[b]"]) (simp add: covers_Cons)
next
  case (snoc p st)
  obtain h x where p: "p = (h, x)" by fastforce
  obtain bs1 c where c: "bs = bs1 @ [c]" "covers b3 st bs1" "length c = 2 ^ h" "x = mth b3 c"
    "\<forall>q\<in>set st. h < fst q"
    using snoc.prems(1) p by (auto simp: covers_snoc)
  show ?case
  proof (cases "h = level")
    case False
    then have "\<forall>q\<in>set (st @ [p]). level < fst q" using snoc.prems(3) c(5) p by fastforce
    then have "covers b3 ((st @ [p]) @ [(level, mth b3 b)]) (bs @ [b])"
      unfolding covers_snoc using snoc.prems(1,2) by blast
    then show ?thesis using False p by (intro exI [of _ "bs @ [b]"]) simp
  next
    case True
    have "length b < 2 ^ 64" using snoc.prems(4) unfolding length_append by linarith
    then have "(2::nat) ^ level < 2 ^ 64" unfolding snoc.prems(2) .
    then have "level < 64" by (rule power_less_imp_less_exp [rotated]) simp
    have "\<exists>bs'. covers b3 (rev (push_loop b3 (rev st) (Suc level) (mth b3 (c @ b)))) bs'
        \<and> concat bs' = concat bs1 @ (c @ b)"
    proof (rule snoc.IH)
      show "covers b3 st bs1" "length (c @ b) = 2 ^ Suc level" "\<forall>q\<in>set st. Suc level \<le> fst q"
        using c snoc.prems(2) True by auto
      show "length (concat bs1 @ c @ b) < 2 ^ 64" using snoc.prems(4) c(1) by (simp only: concat_append concat.simps append.simps append_Nil2 append_assoc)
    qed
    moreover have "mth b3 (c @ b) = node_hash b3 x (mth b3 b)"
      using c True snoc.prems(2) by (simp add: mth_pow2_append)
    ultimately show ?thesis using True p c \<open>level < 64\<close> by simp
  qed
qed

lemma acc_push_good:
  assumes "good_acc b3 acc ls" "length ls < u64_max"
  shows "good_acc b3 (snd (acc_push b3 acc p)) (ls @ [p])" "fst (acc_push b3 acc p) = length ls"
proof -
  obtain bs where bs: "covers b3 (subtrees acc) bs" "concat bs = ls" "acc_size acc = length ls"
    using assms(1) by (auto simp: good_acc_def)
  have "\<exists>bs'. covers b3 (rev (push_loop b3 (rev (subtrees acc)) 0 (mth b3 [p]))) bs' \<and> concat bs' = concat bs @ [p]"
    using bs assms(2) by (intro push_loop_covers) (auto simp: u64_max_def)
  then show "good_acc b3 (snd (acc_push b3 acc p)) (ls @ [p])"
    using bs assms(2) by (simp add: acc_push_def good_acc_def)
  show "fst (acc_push b3 acc p) = length ls" using bs by (simp add: acc_push_def)
qed

lemma good_acc_new [simp]: "good_acc b3 acc_new []"
  by (simp add: good_acc_def acc_new_def)

lemma good_log_new [simp]: "good_log b3 log_new"
  by (simp add: good_log_def log_new_def)

lemma log_append_good:
  assumes "good_log b3 lg" "log_len lg < u64_max"
  shows "good_log b3 (snd (log_append b3 lg p))" "fst (log_append b3 lg p) = log_len lg"
    "leaves (snd (log_append b3 lg p)) = leaves lg @ [p]"
  using assms acc_push_good [of b3 "accumulator lg" "leaves lg" p]
  by (auto simp: log_append_def good_log_def log_len_def split: prod.splits)

lemma push_all_good:
  "length ls \<le> u64_max \<Longrightarrow> good_acc b3 (foldl (\<lambda>a leaf. snd (acc_push b3 a leaf)) acc_new ls) ls"
  by (induction ls rule: rev_induct) (auto intro: acc_push_good)

text \<open>The stack is a function of the leaves, so a rebuilt accumulator is the one that was there.\<close>

lemma covers_unique:
  "covers b3 st bs \<Longrightarrow> covers b3 st' bs' \<Longrightarrow> concat bs = concat bs' \<Longrightarrow> st = st'"
proof (induction st arbitrary: bs st' bs')
  case Nil
  then show ?case by (cases st') (auto simp: covers_Cons)
next
  case (Cons p st)
  obtain h x where p: "p = (h, x)" by fastforce
  obtain b cs where b: "bs = b # cs" "covers b3 st cs" "length b = 2 ^ h" "x = mth b3 b" "\<forall>q\<in>set st. fst q < h"
    using Cons.prems(1) p by (auto simp: covers_Cons)
  have "st' \<noteq> []" using Cons.prems b by (auto)
  then obtain h' x' st1 where st': "st' = (h', x') # st1" by (cases st') auto
  obtain b' cs' where b': "bs' = b' # cs'" "covers b3 st1 cs'" "length b' = 2 ^ h'" "x' = mth b3 b'" "\<forall>q\<in>set st1. fst q < h'"
    using Cons.prems(2) st' by (auto simp: covers_Cons)
  have l: "length (concat cs) < 2 ^ h" "length (concat cs') < 2 ^ h'"
    using covers_tail_less b b' by blast+
  have tot: "2 ^ h + length (concat cs) = 2 ^ h' + length (concat cs')"
    using Cons.prems(3) b(1,3) b'(1,3) by (metis concat.simps(2) length_append)
  have "h = h'"
  proof (rule ccontr)
    assume "h \<noteq> h'"
    then consider "Suc h \<le> h'" | "Suc h' \<le> h" by linarith
    then show False
    proof cases
      case 1
      then have "2 * 2 ^ h \<le> (2::nat) ^ h'" using power_increasing [of "Suc h" h' "2::nat"] by simp
      then show False using tot l by linarith
    next
      case 2
      then have "2 * 2 ^ h' \<le> (2::nat) ^ h" using power_increasing [of "Suc h'" h "2::nat"] by simp
      then show False using tot l by linarith
    qed
  qed
  then have "b = b' \<and> concat cs = concat cs'" using Cons.prems(3) b b' by simp
  then show ?case using Cons.IH [OF b(2) b'(2)] p st' b(4) b'(4) \<open>h = h'\<close> by simp
qed

lemma good_acc_unique: "good_acc b3 a ls \<Longrightarrow> good_acc b3 c ls \<Longrightarrow> a = c"
  using covers_unique by (auto simp: good_acc_def)

lemma good_log_unique: "good_log b3 a \<Longrightarrow> good_log b3 c \<Longrightarrow> leaves a = leaves c \<Longrightarrow> a = c"
  using good_acc_unique by (auto simp: good_log_def)

lemma log_truncate_good:
  assumes "good_log b3 lg" "log_len lg \<le> u64_max"
  shows "good_log b3 (log_truncate b3 lg n)" "leaves (log_truncate b3 lg n) = take n (leaves lg)"
  using assms push_all_good [of "take n (leaves lg)" b3]
  by (auto simp: log_truncate_def good_log_def log_len_def Let_def)

lemma good_log_accessors:
  assumes "good_log b3 lg"
  shows "log_root b3 lg = mth b3 (leaves lg)" "acc_size (accumulator lg) = log_len lg"
  using assms acc_root_mth by (auto simp: good_log_def log_root_def log_len_def good_acc_def)

section \<open>The heights are the decomposition of the size\<close>

lemma bit_high_add:
  assumes "(r::nat) < 2 ^ h"
  shows "bit (2 ^ h + r) i \<longleftrightarrow> i = h \<or> bit r i"
proof -
  have low: "\<not> bit r j" if "h \<le> j" for j
    using assms that by (metis bit_take_bit_iff not_less take_bit_nat_eq_self)
  have "2 ^ h + r = or (2 ^ h) r"
    by (rule disjunctive_add) (use low in \<open>auto simp: bit_exp_iff\<close>)
  then show ?thesis by (auto simp: bit_or_iff bit_exp_iff)
qed

lemma bit_sum_heights:
  "sorted_wrt (>) hs \<Longrightarrow> bit (sum_list (map (\<lambda>h. 2 ^ h) hs) :: nat) i \<longleftrightarrow> i \<in> set hs"
proof (induction hs)
  case (Cons h hs)
  then have "sum_list (map (\<lambda>h. 2 ^ h) hs) < (2::nat) ^ h" by (intro decreasing_sum_less) auto
  then show ?case using Cons by (simp add: bit_high_add)
qed simp

lemma sorted_desc_unique:
  "sorted_wrt (>) xs \<Longrightarrow> sorted_wrt (>) ys \<Longrightarrow> set xs = set ys \<Longrightarrow> xs = (ys :: nat list)"
  using strict_sorted_equal [of "rev xs" "rev ys"] by (simp add: sorted_wrt_rev)

lemma cover_of_heights:
  assumes "sorted_wrt (>) hs" "\<forall>h\<in>set hs. h < 64"
  shows "cover_of (sum_list (map (\<lambda>h. 2 ^ h) hs)) = hs"
proof (rule sorted_desc_unique [OF _ assms(1)])
  have "sorted_wrt (>) (rev [0..<64 :: nat])" by (simp add: sorted_wrt_rev)
  then show "sorted_wrt (>) (cover_of (sum_list (map (\<lambda>h. 2 ^ h) hs)))"
    unfolding cover_of_def by (rule sorted_wrt_filter)
  show "set (cover_of (sum_list (map (\<lambda>h. 2 ^ h) hs))) = set hs"
    using assms bit_sum_heights [OF assms(1)] by (auto simp: cover_of_def)
qed

lemma good_acc_cover:
  assumes "good_acc b3 acc ls" "length ls \<le> u64_max"
  shows "map fst (subtrees acc) = cover_of (acc_size acc)"
proof -
  obtain bs where bs: "covers b3 (subtrees acc) bs" "concat bs = ls" "acc_size acc = length ls"
    using assms(1) by (auto simp: good_acc_def)
  have srt: "sorted_wrt (>) (map fst (subtrees acc))" using bs(1) by (simp add: covers_def)
  have sz: "acc_size acc = sum_list (map (\<lambda>h. 2 ^ h) (map fst (subtrees acc)))"
    using covers_length [OF bs(1)] bs(2,3) by (simp add: o_def)
  have "h < 64" if "h \<in> set (map fst (subtrees acc))" for h
  proof -
    have "(2::nat) ^ h \<le> acc_size acc" unfolding sz using that by (intro member_le_sum_list) auto
    also have "\<dots> < 2 ^ 64" using assms(2) bs(3) by (simp add: u64_max_def)
    finally show ?thesis by (rule power_less_imp_less_exp [rotated]) simp
  qed
  then show ?thesis using cover_of_heights [OF srt] sz by simp
qed

section \<open>Properties\<close>

lemma log_from_leaves_good:
  "length ls \<le> u64_max \<Longrightarrow> good_log b3 (log_from_leaves b3 ls) \<and> leaves (log_from_leaves b3 ls) = ls"
proof (induction ls rule: rev_induct)
  case Nil
  then show ?case by (simp add: log_from_leaves_def log_new_def good_log_def)
next
  case (snoc x ls)
  then show ?case
    using log_append_good [of b3 "log_from_leaves b3 ls" x]
    by (simp add: log_from_leaves_def log_len_def)
qed

text \<open>
  C34. The incrementally maintained root is the Merkle tree hash of the leaves, for every log built
  by appending; the self-check of the code therefore accepts it, and the persisted subtree state is
  accepted back as it was written.
\<close>

theorem incremental_root:
  fixes b3 :: blake3
  assumes "length ls \<le> u64_max"
  defines "lg \<equiv> log_from_leaves b3 ls"
  shows "leaves lg = ls \<and> log_root b3 lg = mth b3 ls \<and> verify_incremental_state b3 lg
    \<and> try_from_parts (subtrees (accumulator lg)) (acc_size (accumulator lg)) = Ok (accumulator lg)"
proof -
  have g: "good_log b3 lg" "leaves lg = ls"
    using log_from_leaves_good [OF assms(1)] by (simp_all add: lg_def)
  then have "try_from_parts (subtrees (accumulator lg)) (acc_size (accumulator lg)) = Ok (accumulator lg)"
    using assms(1) good_acc_cover [of b3 "accumulator lg" ls]
    by (simp add: try_from_parts_def good_log_def Let_def)
  then show ?thesis
    using g good_log_accessors(1) [OF g(1)] by (simp add: verify_incremental_state_def)
qed

lemma incremental_root_witness:
  "length [small_hash 1, small_hash 2, small_hash 3] \<le> u64_max
   \<and> log_root toy_hash (log_from_leaves toy_hash [small_hash 1, small_hash 2, small_hash 3]) = mth toy_hash [small_hash 1, small_hash 2, small_hash 3]"
  using incremental_root [of "[small_hash 1, small_hash 2, small_hash 3]" toy_hash] by (simp add: u64_max_def)

text \<open>
  Undoing: appending any payloads to a log and truncating to the old length gives back the very
  same log, subtree stack included.
\<close>

theorem truncate_undoes_append:
  assumes "good_log b3 lg" "log_len lg + length ps \<le> u64_max"
  shows "log_truncate b3 (foldl (\<lambda>l p. snd (log_append b3 l p)) lg ps) (log_len lg) = lg"
proof -
  have "good_log b3 (foldl (\<lambda>l p. snd (log_append b3 l p)) lg ps)
      \<and> leaves (foldl (\<lambda>l p. snd (log_append b3 l p)) lg ps) = leaves lg @ ps"
    using assms(2)
  proof (induction ps rule: rev_induct)
    case (snoc p ps)
    then show ?case
      using log_append_good [of b3 "foldl (\<lambda>l p. snd (log_append b3 l p)) lg ps" p]
      by (simp add: log_len_def)
  qed (simp add: assms(1))
  then show ?thesis
    using log_truncate_good [of b3 "foldl (\<lambda>l p. snd (log_append b3 l p)) lg ps" "log_len lg"] assms
    by (intro good_log_unique [of b3]) (auto simp: log_len_def)
qed

lemma truncate_undoes_append_witness:
  "good_log toy_hash log_new \<and> log_len log_new + length [small_hash 1, small_hash 2] \<le> u64_max
   \<and> log_truncate toy_hash (foldl (\<lambda>l p. snd (log_append toy_hash l p)) log_new [small_hash 1, small_hash 2]) (log_len log_new) = log_new"
proof -
  have h: "good_log toy_hash log_new" "log_len log_new + length [small_hash 1, small_hash 2] \<le> u64_max"
    by (simp_all add: log_len_def log_new_def u64_max_def good_log_def)
  show ?thesis using h truncate_undoes_append [OF h] by blast
qed

end
