(* ===== verification/Merkle_Audit.thy ===== *)
theory Merkle_Audit
  imports Merkle_Log
begin

text \<open>
  Inclusion and consistency proofs: what the prover builds, the verifier accepts (completeness), and
  what the verifier accepts is true unless two of the byte strings hashed on the way collide
  (soundness). Both rest on one fact about the index arithmetic of the verifiers: the turns it takes
  are the turns of the recursion that built the tree.
\<close>

section \<open>Turns\<close>

text \<open>The turns (sibling on the left or not) lead the pair of numbers from one state to another.\<close>

fun moves :: "nat \<Rightarrow> nat \<Rightarrow> bool list \<Rightarrow> nat \<Rightarrow> nat \<Rightarrow> bool" where
  "moves f s [] f' s' \<longleftrightarrow> f = f' \<and> s = s'"
| "moves f s (b # bs) f' s' \<longleftrightarrow>
     s \<noteq> 0 \<and> (case walk_step f s of (left, f1, s1) \<Rightarrow> left = b \<and> moves f1 s1 bs f' s')"

fun climb :: "blake3 \<Rightarrow> bool list \<Rightarrow> hash list \<Rightarrow> hash \<Rightarrow> hash" where
  "climb b3 (b # bs) (p # ps) a = climb b3 bs ps (if b then node_hash b3 p a else node_hash b3 a p)"
| "climb b3 _ _ a = a"

fun climb_old :: "blake3 \<Rightarrow> bool list \<Rightarrow> hash list \<Rightarrow> hash \<Rightarrow> hash" where
  "climb_old b3 (b # bs) (p # ps) a = climb_old b3 bs ps (if b then node_hash b3 p a else a)"
| "climb_old b3 _ _ a = a"

lemma moves_append:
  "moves f s (bs @ cs) f' s' \<longleftrightarrow> (\<exists>f1 s1. moves f s bs f1 s1 \<and> moves f1 s1 cs f' s')"
  by (induction bs arbitrary: f s) (auto split: prod.splits)

lemma moves_trans: "moves f s bs f1 s1 \<Longrightarrow> moves f1 s1 cs f' s' \<Longrightarrow> moves f s (bs @ cs) f' s'"
  using moves_append by blast

lemma climb_append:
  "length bs = length ps \<Longrightarrow> climb b3 (bs @ cs) (ps @ qs) a = climb b3 cs qs (climb b3 bs ps a)"
  by (induction bs ps arbitrary: a rule: list_induct2) simp_all

lemma climb_old_append:
  "length bs = length ps \<Longrightarrow> climb_old b3 (bs @ cs) (ps @ qs) a = climb_old b3 cs qs (climb_old b3 bs ps a)"
  by (induction bs ps arbitrary: a rule: list_induct2) simp_all

lemma inclusion_walk_moves:
  "moves f s bs f' s' \<Longrightarrow> length path = length bs \<Longrightarrow> inclusion_walk b3 path f s a = Some (s', climb b3 bs path a)"
proof (induction bs arbitrary: f s path a)
  case (Cons b bs)
  then show ?case by (cases path) (auto split: prod.splits)
qed simp

lemma consistency_walk_moves:
  "moves f s bs f' s' \<Longrightarrow> length path = length bs \<Longrightarrow>
    consistency_walk b3 path f s a c = Some (s', climb_old b3 bs path a, climb b3 bs path c)"
proof (induction bs arbitrary: f s path a c)
  case (Cons b bs)
  then show ?case by (cases path) (auto split: prod.splits)
qed simp

text \<open>The number of turns decides the length of an accepted path.\<close>

lemma inclusion_walk_length:
  "moves f s bs f' 0 \<Longrightarrow> inclusion_walk b3 path f s a = Some (0, r) \<Longrightarrow> length path = length bs"
proof (induction bs arbitrary: f s path a)
  case Nil
  then show ?case by (cases path) auto
next
  case (Cons b bs)
  then show ?case by (cases path) (auto split: prod.splits)
qed

lemma consistency_walk_length:
  "moves f s bs f' 0 \<Longrightarrow> consistency_walk b3 path f s a c = Some (0, r) \<Longrightarrow> length path = length bs"
proof (induction bs arbitrary: f s path a c)
  case Nil
  then show ?case by (cases path) auto
next
  case (Cons b bs)
  then show ?case by (cases path) (auto split: prod.splits if_splits)
qed

section \<open>One level of the tree\<close>

definition subtree :: "nat \<Rightarrow> nat \<Rightarrow> nat \<Rightarrow> nat \<Rightarrow> nat \<Rightarrow> bool" where
  "subtree N off n h q \<longleftrightarrow> off = q * 2 ^ h \<and> 0 < n \<and> n \<le> 2 ^ h \<and> 2 ^ h < 2 * n \<and> off + n \<le> N
     \<and> (n = 2 ^ h \<or> off + n = N)"

lemma height_exists: "0 < (n::nat) \<Longrightarrow> \<exists>h. n \<le> 2 ^ h \<and> 2 ^ h < 2 * n"
proof (cases "n = 1")
  case True
  then show ?thesis by (intro exI [of _ 0]) simp
next
  case False
  assume "0 < n"
  with False pow2_bracket [of n] obtain j where "2 ^ j < n" "n \<le> 2 * 2 ^ j" by auto
  then show ?thesis by (intro exI [of _ "Suc j"]) simp
qed

lemma div_mult_add_small: "r < b \<Longrightarrow> (q * b + r) div b = (q :: nat)"
  by simp

lemma subtree_end:
  assumes "subtree N off n h q" "off + n = N"
  shows "(N - 1) div 2 ^ h = q"
proof -
  have "N - 1 = q * 2 ^ h + (n - 1)" "n - 1 < 2 ^ h" using assms by (auto simp: subtree_def)
  then show ?thesis by (simp only: div_mult_add_small)
qed

lemma subtree_whole: "0 < N \<Longrightarrow> \<exists>h. subtree N 0 N h 0 \<and> (N - 1) div 2 ^ h = 0"
  using height_exists [of N] subtree_end [of N 0 N] by (force simp: subtree_def)

lemma subtree_split:
  assumes "subtree N off n h q" "1 < n"
  obtains j where "split_point n = 2 ^ j" "h = Suc j" "2 ^ j < n" "n \<le> 2 * 2 ^ j"
proof -
  obtain j where j: "2 ^ j < n" "n \<le> 2 * 2 ^ j" using pow2_bracket assms(2) by blast
  have s: "n \<le> 2 ^ h" "2 ^ h < 2 * n" using assms(1) by (auto simp: subtree_def)
  have "(2::nat) ^ j < 2 ^ h" using j s by linarith
  then have "j < h" by (rule power_less_imp_less_exp [rotated]) simp
  have "(2::nat) ^ h < 2 ^ Suc (Suc j)" using j s by simp
  then have "h < Suc (Suc j)" by (rule power_less_imp_less_exp [rotated]) simp
  with \<open>j < h\<close> show ?thesis using that [OF split_point_eq [OF j] _ j] by simp
qed

lemma skip_zeros_odd: "odd f \<Longrightarrow> skip_zeros f s = (f, s)"
  by (subst skip_zeros.simps) simp

lemma skip_zeros_pow: "odd u \<Longrightarrow> skip_zeros (u * 2 ^ t) (u * 2 ^ t) = (u, u)"
proof (induction t)
  case (Suc t)
  have "skip_zeros (u * 2 ^ Suc t) (u * 2 ^ Suc t) = skip_zeros (u * 2 ^ t) (u * 2 ^ t)"
    using Suc.prems by (subst skip_zeros.simps) (auto elim: oddE)
  then show ?case using Suc by simp
qed (simp add: skip_zeros_odd)

lemma subtree_middle:
  assumes "subtree N off n h q" "h = Suc j" "2 ^ j < n"
  shows "2 * q + 1 \<le> (N - 1) div 2 ^ j" "(N - 1) div 2 ^ j div 2 = (N - 1) div 2 ^ h"
proof -
  have "(2 * q + 1) * 2 ^ j = off + 2 ^ j" using assms(1,2) by (simp add: subtree_def algebra_simps)
  moreover have "off + n \<le> N" using assms(1) by (simp add: subtree_def)
  ultimately have "(2 * q + 1) * 2 ^ j \<le> N - 1" using assms(3) by linarith
  then show "2 * q + 1 \<le> (N - 1) div 2 ^ j" by (simp only: less_eq_div_iff_mult_less_eq zero_less_power zero_less_numeral)
  show "(N - 1) div 2 ^ j div 2 = (N - 1) div 2 ^ h"
    using assms(2) by (simp add: div_mult2_eq [symmetric] mult.commute)
qed

lemma left_child:
  assumes "subtree N off n h q" "split_point n = 2 ^ j" "h = Suc j" "2 ^ j < n"
  shows "subtree N off (2 ^ j) j (2 * q)"
    "moves (2 * q) ((N - 1) div 2 ^ j) [False] q ((N - 1) div 2 ^ h)"
proof -
  show "subtree N off (2 ^ j) j (2 * q)" using assms by (auto simp: subtree_def)
  show "moves (2 * q) ((N - 1) div 2 ^ j) [False] q ((N - 1) div 2 ^ h)"
    using subtree_middle [OF assms(1,3,4)] by (simp add: walk_step_def)
qed

lemma right_child:
  assumes "subtree N off n h q" "split_point n = 2 ^ j" "h = Suc j" "2 ^ j < n" "n \<le> 2 * 2 ^ j"
  obtains h' q' where "subtree N (off + 2 ^ j) (n - 2 ^ j) h' q'"
    "moves q' ((N - 1) div 2 ^ h') [True] q ((N - 1) div 2 ^ h)"
proof (cases "n = 2 ^ h")
  case True
  have "subtree N (off + 2 ^ j) (n - 2 ^ j) j (2 * q + 1)"
    using assms True by (auto simp: subtree_def algebra_simps)
  then show ?thesis
    using subtree_middle [OF assms(1,3,4)] that [of j "2 * q + 1"] by (simp add: walk_step_def skip_zeros_odd)
next
  case False
  then have N: "off + n = N" using assms(1) by (simp add: subtree_def)
  obtain h' where h': "n - 2 ^ j \<le> 2 ^ h'" "2 ^ h' < 2 * (n - 2 ^ j)"
    using height_exists [of "n - 2 ^ j"] assms(4) by auto
  have "(2::nat) ^ h' < 2 ^ Suc j" using h'(2) assms(5) by simp
  then have "h' \<le> j" using power_less_imp_less_exp [of "2::nat" h' "Suc j"] by simp
  define q' where "q' = (2 * q + 1) * 2 ^ (j - h')"
  have "(2::nat) ^ (j - h') * 2 ^ h' = 2 ^ j" using \<open>h' \<le> j\<close> by (simp flip: power_add)
  then have "q' * 2 ^ h' = (2 * q + 1) * 2 ^ j" by (simp only: q'_def mult.assoc)
  then have sub: "subtree N (off + 2 ^ j) (n - 2 ^ j) h' q'"
    using assms(1,3,4) h' N by (auto simp: subtree_def algebra_simps)
  have e: "(N - 1) div 2 ^ h' = q'" "(N - 1) div 2 ^ h = q"
    using subtree_end [OF sub] subtree_end [OF assms(1) N] N assms(4) by auto
  have "walk_step q' q' = (True, q, q)"
    using skip_zeros_pow [of "2 * q + 1" "j - h'"] by (simp add: walk_step_def q'_def)
  moreover have "q' \<noteq> 0" by (simp add: q'_def)
  ultimately show ?thesis using that [OF sub] e by simp
qed

section \<open>The turns of an inclusion proof\<close>

function inclusion_sides :: "nat \<Rightarrow> nat \<Rightarrow> bool list" where
  "inclusion_sides m n =
     (if n \<le> 1 then []
      else let k = split_point n in
        if m < k then inclusion_sides m k @ [False] else inclusion_sides (m - k) (n - k) @ [True])"
  by auto
termination
  by (relation "measure snd") (use split_point_bounds in \<open>auto simp: not_le\<close>)

declare inclusion_sides.simps [simp del]

lemma inclusion_moves:
  "subtree N off n h q \<Longrightarrow> m < n \<Longrightarrow> moves (off + m) (N - 1) (inclusion_sides m n) q ((N - 1) div 2 ^ h)"
proof (induction m n arbitrary: off h q rule: inclusion_sides.induct)
  case (1 m n)
  show ?case
  proof (cases "n \<le> 1")
    case True
    then have "n = 1" using "1.prems" by simp
    moreover from this have "h = 0" using "1.prems" by (cases h) (auto simp: subtree_def)
    ultimately have "n = 1" "h = 0" .
    then show ?thesis using "1.prems" by (subst inclusion_sides.simps) (simp add: subtree_def)
  next
    case False
    then have n: "1 < n" by simp
    obtain j where j: "split_point n = 2 ^ j" "h = Suc j" "2 ^ j < n" "n \<le> 2 * 2 ^ j"
      using subtree_split [OF "1.prems"(1) n] .
    show ?thesis
    proof (cases "m < 2 ^ j")
      case True
      have "moves (off + m) (N - 1) (inclusion_sides m (2 ^ j)) (2 * q) ((N - 1) div 2 ^ j)"
        using "1.IH"(1) [OF False refl, of off j "2 * q"] left_child(1) [OF "1.prems"(1) j(1-3)] True j(1) by simp
      moreover have "inclusion_sides m n = inclusion_sides m (2 ^ j) @ [False]"
        using True False j(1) by (subst inclusion_sides.simps) (simp add: Let_def)
      ultimately show ?thesis using moves_trans left_child(2) [OF "1.prems"(1) j(1-3)] by metis
    next
      case right: False
      obtain h' q' where r: "subtree N (off + 2 ^ j) (n - 2 ^ j) h' q'"
        "moves q' ((N - 1) div 2 ^ h') [True] q ((N - 1) div 2 ^ h)"
        using right_child [OF "1.prems"(1) j] .
      have "moves (off + 2 ^ j + (m - 2 ^ j)) (N - 1) (inclusion_sides (m - 2 ^ j) (n - 2 ^ j)) q' ((N - 1) div 2 ^ h')"
        using "1.IH"(2) [OF False refl, of "off + 2 ^ j" h' q'] r(1) right "1.prems"(2) j(1) by simp
      moreover have "inclusion_sides m n = inclusion_sides (m - 2 ^ j) (n - 2 ^ j) @ [True]"
        using right False j(1) by (subst inclusion_sides.simps) (simp add: Let_def)
      moreover have "off + 2 ^ j + (m - 2 ^ j) = off + m" using right by simp
      ultimately show ?thesis using moves_trans r(2) by metis
    qed
  qed
qed

lemma inclusion_climb:
  "m < length ls \<Longrightarrow>
    length (inclusion_path b3 m ls) = length (inclusion_sides m (length ls))
    \<and> climb b3 (inclusion_sides m (length ls)) (inclusion_path b3 m ls) (leaf_hash b3 (ls ! m)) = mth b3 ls"
proof (induction b3 m ls rule: inclusion_path.induct)
  case (1 b3 m ls)
  show ?case
  proof (cases "length ls \<le> 1")
    case True
    then obtain x where "ls = [x]" using "1.prems" by (cases ls) auto
    then show ?thesis
      using "1.prems" by (subst (1 2) inclusion_sides.simps, subst (1 2) inclusion_path.simps) simp
  next
    case False
    let ?k = "split_point (length ls)"
    have k: "0 < ?k" "?k < length ls" using split_point_bounds [of "length ls"] False by auto
    have tree: "mth b3 ls = node_hash b3 (mth b3 (take ?k ls)) (mth b3 (drop ?k ls))"
      using False by (subst mth.simps) (auto simp: Let_def)
    show ?thesis
    proof (cases "m < ?k")
      case True
      have "length (inclusion_path b3 m (take ?k ls)) = length (inclusion_sides m ?k)
          \<and> climb b3 (inclusion_sides m ?k) (inclusion_path b3 m (take ?k ls)) (leaf_hash b3 (ls ! m)) = mth b3 (take ?k ls)"
        using "1.IH"(1) [OF False refl True] True k by (simp add: min_def)
      moreover have "inclusion_path b3 m ls = inclusion_path b3 m (take ?k ls) @ [mth b3 (drop ?k ls)]"
        "inclusion_sides m (length ls) = inclusion_sides m ?k @ [False]"
        using True False by (subst inclusion_path.simps inclusion_sides.simps; simp add: Let_def)+
      ultimately show ?thesis using tree by (simp add: climb_append)
    next
      case right: False
      have "length (inclusion_path b3 (m - ?k) (drop ?k ls)) = length (inclusion_sides (m - ?k) (length ls - ?k))
          \<and> climb b3 (inclusion_sides (m - ?k) (length ls - ?k)) (inclusion_path b3 (m - ?k) (drop ?k ls)) (leaf_hash b3 (ls ! m)) = mth b3 (drop ?k ls)"
        using "1.IH"(2) [OF False refl right] right k "1.prems" by simp
      moreover have "inclusion_path b3 m ls = inclusion_path b3 (m - ?k) (drop ?k ls) @ [mth b3 (take ?k ls)]"
        "inclusion_sides m (length ls) = inclusion_sides (m - ?k) (length ls - ?k) @ [True]"
        using right False by (subst inclusion_path.simps inclusion_sides.simps; simp add: Let_def)+
      ultimately show ?thesis using tree by (simp add: climb_append)
    qed
  qed
qed

section \<open>The turns of a consistency proof\<close>

function consistency_sides :: "nat \<Rightarrow> nat \<Rightarrow> bool list" where
  "consistency_sides m n =
     (if m = n \<or> n \<le> 1 then []
      else let k = split_point n in
        if m \<le> k then consistency_sides m k @ [False] else consistency_sides (m - k) (n - k) @ [True])"
  by auto
termination
  by (relation "measure snd") (use split_point_bounds in \<open>auto simp: not_le\<close>)

declare consistency_sides.simps [simp del]

text \<open>The last block of the old tree, and the hashes that join it to the new root.\<close>

function last_block :: "blake3 \<Rightarrow> nat \<Rightarrow> hash list \<Rightarrow> hash" where
  "last_block b3 m ls =
     (if m = length ls \<or> length ls \<le> 1 then mth b3 ls
      else let k = split_point (length ls) in
        if m \<le> k then last_block b3 m (take k ls) else last_block b3 (m - k) (drop k ls))"
  by auto
termination
  by (relation "measure (\<lambda>(b3, m, ls). length ls)") (auto simp: split_point_shorter split_point_longer)

function joins :: "blake3 \<Rightarrow> nat \<Rightarrow> hash list \<Rightarrow> hash list" where
  "joins b3 m ls =
     (if m = length ls \<or> length ls \<le> 1 then []
      else let k = split_point (length ls) in
        if m \<le> k then joins b3 m (take k ls) @ [mth b3 (drop k ls)]
        else joins b3 (m - k) (drop k ls) @ [mth b3 (take k ls)])"
  by auto
termination
  by (relation "measure (\<lambda>(b3, m, ls). length ls)") (auto simp: split_point_shorter split_point_longer)

declare last_block.simps [simp del] joins.simps [simp del]

lemma skip_ones_pow: "even q \<Longrightarrow> skip_ones ((q + 1) * 2 ^ h - 1) s = (q, s div 2 ^ h)"
proof (induction h arbitrary: s)
  case (Suc h)
  have e: "(q + 1) * 2 ^ Suc h - 1 = 2 * ((q + 1) * 2 ^ h - 1) + 1"
  proof -
    have "(q + 1) * 2 ^ Suc h = 2 * ((q + 1) * 2 ^ h)" by simp
    moreover have "0 < (q + 1) * (2::nat) ^ h" by (simp only: nat_0_less_mult_iff) simp
    ultimately show ?thesis by linarith
  qed
  have "skip_ones (2 * x + 1) s = skip_ones x (s div 2)" for x
    by (subst skip_ones.simps) simp
  then have "skip_ones ((q + 1) * 2 ^ Suc h - 1) s = skip_ones ((q + 1) * 2 ^ h - 1) (s div 2)"
    unfolding e by blast
  also have "\<dots> = (q, s div 2 div 2 ^ h)" by (rule Suc.IH [OF Suc.prems])
  finally show ?case by (simp add: div_mult2_eq [symmetric])
qed (subst skip_ones.simps, simp)

lemma consistency_moves:
  "subtree N off n h q \<Longrightarrow> 0 < m \<Longrightarrow> m \<le> n \<Longrightarrow> (m = n \<Longrightarrow> even q \<and> n = 2 ^ h) \<Longrightarrow>
    case skip_ones (off + m - 1) (N - 1) of (f, s) \<Rightarrow> moves f s (consistency_sides m n) q ((N - 1) div 2 ^ h)"
proof (induction m n arbitrary: off h q rule: consistency_sides.induct)
  case (1 m n)
  show ?case
  proof (cases "m = n")
    case True
    then have "off + m = (q + 1) * 2 ^ h" "even q" using "1.prems" by (auto simp: subtree_def)
    then show ?thesis
      using True skip_ones_pow [of q h "N - 1"] by (subst consistency_sides.simps) simp
  next
    case False
    then have n: "1 < n" and guard: "\<not> (m = n \<or> n \<le> 1)" using "1.prems" by auto
    obtain j where j: "split_point n = 2 ^ j" "h = Suc j" "2 ^ j < n" "n \<le> 2 * 2 ^ j"
      using subtree_split [OF "1.prems"(1) n] .
    show ?thesis
    proof (cases "m \<le> 2 ^ j")
      case True
      have "case skip_ones (off + m - 1) (N - 1) of (f, s) \<Rightarrow>
          moves f s (consistency_sides m (2 ^ j)) (2 * q) ((N - 1) div 2 ^ j)"
        using "1.IH"(1) [OF guard refl, of off j "2 * q"] left_child(1) [OF "1.prems"(1) j(1-3)] True j(1) "1.prems"(2)
        by simp
      moreover have "consistency_sides m n = consistency_sides m (2 ^ j) @ [False]"
        using True guard j(1) by (subst consistency_sides.simps) (simp add: Let_def)
      ultimately show ?thesis
        using moves_trans [OF _ left_child(2) [OF "1.prems"(1) j(1-3)]] by (simp split: prod.splits)
    next
      case right: False
      obtain h' q' where r: "subtree N (off + 2 ^ j) (n - 2 ^ j) h' q'"
        "moves q' ((N - 1) div 2 ^ h') [True] q ((N - 1) div 2 ^ h)"
        using right_child [OF "1.prems"(1) j] .
      have "case skip_ones (off + 2 ^ j + (m - 2 ^ j) - 1) (N - 1) of (f, s) \<Rightarrow>
          moves f s (consistency_sides (m - 2 ^ j) (n - 2 ^ j)) q' ((N - 1) div 2 ^ h')"
        using "1.IH"(2) [OF guard refl, of "off + 2 ^ j" h' q'] r(1) right "1.prems"(3) False j(1) by simp
      moreover have "consistency_sides m n = consistency_sides (m - 2 ^ j) (n - 2 ^ j) @ [True]"
        using right guard j(1) by (subst consistency_sides.simps) (simp add: Let_def)
      moreover have "off + 2 ^ j + (m - 2 ^ j) = off + m" using right by simp
      ultimately show ?thesis using moves_trans [OF _ r(2)] by (simp split: prod.splits)
    qed
  qed
qed

lemma mth_take_split:
  assumes "1 < length ls" "split_point (length ls) < m" "m \<le> length ls"
  shows "mth b3 (take m ls) = node_hash b3 (mth b3 (take (split_point (length ls)) ls))
    (mth b3 (take (m - split_point (length ls)) (drop (split_point (length ls)) ls)))"
proof -
  obtain j where j: "2 ^ j < length ls" "length ls \<le> 2 * 2 ^ j" using pow2_bracket [OF assms(1)] by blast
  then have k: "split_point (length ls) = 2 ^ j" by (rule split_point_eq)
  have "take m ls = take (2 ^ j) ls @ take (m - 2 ^ j) (drop (2 ^ j) ls)"
    using assms(2) k by (metis take_add le_add_diff_inverse less_imp_le_nat)
  then show ?thesis
    unfolding k using mth_append [of "take (2 ^ j) ls" j "take (m - 2 ^ j) (drop (2 ^ j) ls)" b3] j assms k by auto
qed

lemma consistency_climb:
  "0 < m \<Longrightarrow> m \<le> length ls \<Longrightarrow>
    length (joins b3 m ls) = length (consistency_sides m (length ls))
    \<and> climb b3 (consistency_sides m (length ls)) (joins b3 m ls) (last_block b3 m ls) = mth b3 ls
    \<and> climb_old b3 (consistency_sides m (length ls)) (joins b3 m ls) (last_block b3 m ls) = mth b3 (take m ls)"
proof (induction b3 m ls rule: joins.induct)
  case (1 b3 m ls)
  show ?case
  proof (cases "m = length ls \<or> length ls \<le> 1")
    case True
    then have "m = length ls" using "1.prems" by auto
    then show ?thesis
      by (subst (1 2 3) consistency_sides.simps, subst (1 2 3) joins.simps, subst (1 2) last_block.simps) simp
  next
    case False
    let ?k = "split_point (length ls)"
    have n: "1 < length ls" using False by simp
    have k: "0 < ?k" "?k < length ls" using split_point_bounds [OF n] by auto
    have tree: "mth b3 ls = node_hash b3 (mth b3 (take ?k ls)) (mth b3 (drop ?k ls))"
      using n by (subst mth.simps) (auto simp: Let_def)
    show ?thesis
    proof (cases "m \<le> ?k")
      case True
      have eqs: "joins b3 m ls = joins b3 m (take ?k ls) @ [mth b3 (drop ?k ls)]"
        "consistency_sides m (length ls) = consistency_sides m ?k @ [False]"
        "last_block b3 m ls = last_block b3 m (take ?k ls)"
        using True False by (subst joins.simps consistency_sides.simps last_block.simps; simp add: Let_def)+
      have "take m (take ?k ls) = take m ls" using True by (simp add: min_def)
      then show ?thesis
        using "1.IH"(1) [OF False refl True] "1.prems" True k tree unfolding eqs
        by (simp add: climb_append climb_old_append min_def)
    next
      case right: False
      have eqs: "joins b3 m ls = joins b3 (m - ?k) (drop ?k ls) @ [mth b3 (take ?k ls)]"
        "consistency_sides m (length ls) = consistency_sides (m - ?k) (length ls - ?k) @ [True]"
        "last_block b3 m ls = last_block b3 (m - ?k) (drop ?k ls)"
        using right False by (subst joins.simps consistency_sides.simps last_block.simps; simp add: Let_def)+
      show ?thesis
        using "1.IH"(2) [OF False refl right] "1.prems" right k tree mth_take_split [OF n] unfolding eqs
        by (simp add: climb_append climb_old_append)
    qed
  qed
qed

lemma consistency_path_False: "0 < m \<Longrightarrow> m \<le> length ls \<Longrightarrow> consistency_path b3 m ls False = last_block b3 m ls # joins b3 m ls"
proof (induction b3 m ls rule: joins.induct)
  case (1 b3 m ls)
  show ?case
  proof (cases "m = length ls \<or> length ls \<le> 1")
    case True
    then have "m = length ls" using "1.prems" by auto
    then show ?thesis by (subst consistency_path.simps, subst joins.simps, subst last_block.simps) simp
  next
    case False
    then have "split_point (length ls) < length ls" using split_point_bounds [of "length ls"] by simp
    then show ?thesis
      using "1.IH" [OF False refl] "1.prems" False
      by (subst consistency_path.simps, subst joins.simps, subst last_block.simps) (auto simp: Let_def min_def)
  qed
qed

lemma is_pow2_iff: "is_pow2 (2 ^ j)" "2 ^ j < m \<Longrightarrow> m < 2 * 2 ^ j \<Longrightarrow> \<not> is_pow2 m"
proof -
  have "and (2 ^ j) (mask j) = (0 :: nat)" by (rule bit_eqI) (auto simp: bit_simps)
  then show "is_pow2 (2 ^ j)" unfolding is_pow2_def by (simp add: mask_eq_exp_minus_1)
next
  assume m: "2 ^ j < m" "m < 2 * 2 ^ j"
  obtain r where r: "m = 2 ^ j + r" "0 < r" "r < 2 ^ j" using m by (metis add.commute less_diff_conv mult_2 nat_add_left_cancel_less less_imp_add_positive)
  have "bit m j" "bit (m - 1) j"
    using bit_high_add [of r j j] bit_high_add [of "r - 1" j j] r by auto
  then have "bit (and m (m - 1)) j" by (simp add: bit_and_iff)
  then show "\<not> is_pow2 m" unfolding is_pow2_def by (metis bit_0_eq bot_apply bot_bool_def)
qed

lemma consistency_path_True:
  "0 < m \<Longrightarrow> m < length ls \<Longrightarrow>
    consistency_path b3 m ls True = (if is_pow2 m then joins b3 m ls else last_block b3 m ls # joins b3 m ls)
    \<and> (is_pow2 m \<longrightarrow> last_block b3 m ls = mth b3 (take m ls))"
proof (induction b3 m ls rule: joins.induct)
  case (1 b3 m ls)
  then have guard: "\<not> (m = length ls \<or> length ls \<le> 1)" by auto
  let ?k = "split_point (length ls)"
  have n: "1 < length ls" using guard by simp
  obtain j where j: "2 ^ j < length ls" "length ls \<le> 2 * 2 ^ j" using pow2_bracket [OF n] by blast
  then have k: "?k = 2 ^ j" by (rule split_point_eq)
  show ?case
  proof (cases "m \<le> ?k")
    case True
    have eqs: "joins b3 m ls = joins b3 m (take ?k ls) @ [mth b3 (drop ?k ls)]"
      "last_block b3 m ls = last_block b3 m (take ?k ls)"
      "consistency_path b3 m ls True = consistency_path b3 m (take ?k ls) True @ [mth b3 (drop ?k ls)]"
      using True guard by (subst joins.simps last_block.simps consistency_path.simps; simp add: Let_def)+
    have tk: "length (take ?k ls) = ?k" "take m (take ?k ls) = take m ls" using k j True by (auto simp: min_def)
    show ?thesis
    proof (cases "m = ?k")
      case True
      then have "is_pow2 m" using is_pow2_iff(1) k by simp
      moreover have "joins b3 m (take ?k ls) = []" "consistency_path b3 m (take ?k ls) True = []"
        "last_block b3 m (take ?k ls) = mth b3 (take m ls)"
        using True tk by (subst joins.simps consistency_path.simps last_block.simps; simp)+
      ultimately show ?thesis unfolding eqs by simp
    next
      case False
      then show ?thesis
        using "1.IH"(1) [OF guard refl True] "1.prems" True tk unfolding eqs by simp
    qed
  next
    case False
    then have "\<not> is_pow2 m" using is_pow2_iff(2) [of j m] k j "1.prems" by simp
    moreover have "consistency_path b3 m ls True = last_block b3 m ls # joins b3 m ls"
      using False guard consistency_path_False [of "m - ?k" "drop ?k ls" b3] "1.prems"
      by (subst consistency_path.simps, subst joins.simps, subst last_block.simps) (simp add: Let_def)
    ultimately show ?thesis by simp
  qed
qed

section \<open>The byte strings a climb hashes\<close>

fun climb_preimages :: "blake3 \<Rightarrow> bool list \<Rightarrow> hash list \<Rightarrow> hash \<Rightarrow> byte list list" where
  "climb_preimages b3 (b # bs) (p # ps) a =
     tagged_preimage tag_node (if b then hash_bytes p @ hash_bytes a else hash_bytes a @ hash_bytes p)
     # climb_preimages b3 bs ps (if b then node_hash b3 p a else node_hash b3 a p)"
| "climb_preimages b3 _ _ a = []"

lemma merkle_tags_fit: "fits tag_empty" "fits tag_leaf" "fits tag_node"
  by code_simp+

lemma merkle_tags_distinct: "tag_leaf \<noteq> tag_node" "tag_empty \<noteq> tag_leaf" "tag_empty \<noteq> tag_node"
  by code_simp+

lemma node_hash_inj:
  assumes "inj_on b3 X" "tagged_preimage tag_node (hash_bytes a @ hash_bytes b) \<in> X"
    "tagged_preimage tag_node (hash_bytes c @ hash_bytes d) \<in> X"
  shows "node_hash b3 a b = node_hash b3 c d \<longleftrightarrow> a = c \<and> b = d"
  using assms merkle_tags_fit(3) by (simp add: node_hash_def tagged_inj)

lemma climb_inj:
  assumes "length ps = length bs" "length qs = length bs" "climb b3 bs ps a = climb b3 bs qs c"
    and "inj_on b3 X" "set (climb_preimages b3 bs ps a) \<subseteq> X" "set (climb_preimages b3 bs qs c) \<subseteq> X"
  shows "a = c \<and> ps = qs"
  using assms(1-3,5,6)
proof (induction bs arbitrary: ps qs a c)
  case (Cons b bs)
  obtain p ps' q qs' where pq: "ps = p # ps'" "qs = q # qs'"
    using Cons.prems(1,2) by (cases ps; cases qs) auto
  let ?n = "\<lambda>p a. if b then node_hash b3 p a else node_hash b3 a p"
  have "?n p a = ?n q c \<and> ps' = qs'"
    using Cons.prems by (intro Cons.IH) (auto simp: pq)
  moreover have "tagged_preimage tag_node (if b then hash_bytes p @ hash_bytes a else hash_bytes a @ hash_bytes p) \<in> X"
    "tagged_preimage tag_node (if b then hash_bytes q @ hash_bytes c else hash_bytes c @ hash_bytes q) \<in> X"
    using Cons.prems(4,5) pq by auto
  ultimately show ?case
    using node_hash_inj [OF assms(4)] pq by (cases b) auto
qed simp

text \<open>All byte strings hashed when a leaf payload is walked up a path.\<close>

definition inclusion_preimages :: "blake3 \<Rightarrow> nat \<Rightarrow> nat \<Rightarrow> hash list \<Rightarrow> hash \<Rightarrow> byte list list" where
  "inclusion_preimages b3 m n path payload =
     tagged_preimage tag_leaf (hash_bytes payload)
     # climb_preimages b3 (inclusion_sides m n) path (leaf_hash b3 payload)"

section \<open>Properties\<close>

lemma inclusion_turns: "m < n \<Longrightarrow> moves m (n - 1) (inclusion_sides m n) 0 0"
  using subtree_whole [of n] inclusion_moves [of n 0 n _ 0 m] by fastforce

lemma inclusion_proof_accepted:
  assumes "index < n" "n \<le> log_len lg"
  shows "\<exists>pf head. inclusion_proof_at b3 lg index n = Ok pf \<and> head_at b3 lg n = Ok head
    \<and> leaf_index pf = index \<and> tree_size pf = n
    \<and> inclusion_verify b3 pf (leaves lg ! index) head"
proof -
  let ?ls = "take n (leaves lg)"
  have n: "length ?ls = n" "?ls ! index = leaves lg ! index"
    using assms by (simp_all add: log_len_def)
  have "inclusion_walk b3 (inclusion_path b3 index ?ls) index (n - 1) (leaf_hash b3 (leaves lg ! index))
      = Some (0, mth b3 ?ls)"
    using inclusion_walk_moves [OF inclusion_turns [OF assms(1)]] inclusion_climb [of index ?ls b3] assms n
    by simp
  then show ?thesis
    using assms by (simp add: inclusion_proof_at_def head_at_def root_at_def inclusion_verify_def log_len_def)
qed

text \<open>
  Completeness of inclusion proofs: for every leaf of every size the log has passed through,
  the prover succeeds and the verifier accepts the proof against the head of that size.
\<close>

theorem inclusion_complete:
  assumes "index < n" "n \<le> log_len lg"
  shows "\<exists>pf head. inclusion_proof_at b3 lg index n = Ok pf \<and> head_at b3 lg n = Ok head
    \<and> leaf_index pf = index \<and> tree_size pf = n
    \<and> inclusion_verify b3 pf (leaves lg ! index) head"
  by (rule inclusion_proof_accepted [OF assms])

lemma inclusion_complete_witness:
  "(1::nat) < 3 \<and> 3 \<le> log_len (log_from_leaves toy_hash [small_hash 1, small_hash 2, small_hash 3])
   \<and> (\<exists>pf head. inclusion_proof_at toy_hash (log_from_leaves toy_hash [small_hash 1, small_hash 2, small_hash 3]) 1 3 = Ok pf
        \<and> inclusion_verify toy_hash pf (leaves (log_from_leaves toy_hash [small_hash 1, small_hash 2, small_hash 3]) ! 1) head)"
proof -
  have h: "(1::nat) < 3" "3 \<le> log_len (log_from_leaves toy_hash [small_hash 1, small_hash 2, small_hash 3])"
    using log_from_leaves_good [of "[small_hash 1, small_hash 2, small_hash 3]" toy_hash] by (simp_all add: log_len_def u64_max_def)
  show ?thesis using inclusion_complete [OF h, of toy_hash] h by blast
qed

lemma inclusion_accepted_genuine:
  assumes "inclusion_verify b3 pf payload head"
    and "th_size head = length ls" "th_root head = mth b3 ls"
    and "inj_on b3 (set (inclusion_preimages b3 (leaf_index pf) (length ls) (ip_path pf) payload)
           \<union> set (inclusion_preimages b3 (leaf_index pf) (length ls)
                    (inclusion_path b3 (leaf_index pf) ls) (ls ! leaf_index pf)))"
  shows "leaf_index pf < length ls \<and> tree_size pf = length ls
    \<and> payload = ls ! leaf_index pf \<and> ip_path pf = inclusion_path b3 (leaf_index pf) ls"
proof -
  let ?m = "leaf_index pf" and ?n = "length ls"
  let ?bs = "inclusion_sides ?m ?n" and ?honest = "inclusion_path b3 ?m ls"
  have m: "?m < ?n" "tree_size pf = ?n"
    and w: "inclusion_walk b3 (ip_path pf) ?m (?n - 1) (leaf_hash b3 payload) = Some (0, mth b3 ls)"
    using assms(1-3) by (auto simp: inclusion_verify_def split: if_splits option.splits)
  have len: "length (ip_path pf) = length ?bs" by (rule inclusion_walk_length [OF inclusion_turns [OF m(1)] w])
  have h: "length ?honest = length ?bs" "climb b3 ?bs ?honest (leaf_hash b3 (ls ! ?m)) = mth b3 ls"
    using inclusion_climb [OF m(1)] by auto
  have "climb b3 ?bs (ip_path pf) (leaf_hash b3 payload) = mth b3 ls"
    using inclusion_walk_moves [OF inclusion_turns [OF m(1)] len] w by simp
  then have "leaf_hash b3 payload = leaf_hash b3 (ls ! ?m) \<and> ip_path pf = ?honest"
    using h by (intro climb_inj [OF len h(1) _ assms(4)]) (auto simp: inclusion_preimages_def)
  moreover from this have "payload = ls ! ?m"
    using tagged_inj [OF assms(4)] merkle_tags_fit by (auto simp: leaf_hash_def inclusion_preimages_def)
  ultimately show ?thesis using m by simp
qed

text \<open>
  C35. Soundness of inclusion proofs: if the verifier accepts a proof against the head of a log with
  leaves \<open>ls\<close>, the payload is the leaf at the index the proof states and the path is the one the
  prover would have built, unless two of the byte strings hashed on the two climbs collide.
\<close>

theorem inclusion_sound:
  assumes "inclusion_verify b3 pf payload head"
    and "th_size head = length ls" "th_root head = mth b3 ls"
    and "inj_on b3 (set (inclusion_preimages b3 (leaf_index pf) (length ls) (ip_path pf) payload)
           \<union> set (inclusion_preimages b3 (leaf_index pf) (length ls)
                    (inclusion_path b3 (leaf_index pf) ls) (ls ! leaf_index pf)))"
  shows "leaf_index pf < length ls \<and> tree_size pf = length ls
    \<and> payload = ls ! leaf_index pf \<and> ip_path pf = inclusion_path b3 (leaf_index pf) ls"
  by (rule inclusion_accepted_genuine [OF assms])

lemma inclusion_sound_witness:
  "\<exists>b3 pf payload head ls. inclusion_verify b3 pf payload head \<and> th_size head = length ls \<and> th_root head = mth b3 ls
     \<and> leaf_index pf = 1 \<and> payload = ls ! 1"
proof -
  define ls where "ls = [small_hash 1, small_hash 2]"
  define pf where "pf = \<lparr>leaf_index = 1, tree_size = 2, ip_path = inclusion_path toy_hash 1 ls\<rparr>"
  define head where "head = \<lparr>th_size = 2, th_root = mth toy_hash ls\<rparr>"
  have v: "inclusion_verify toy_hash pf (small_hash 2) head"
    unfolding pf_def head_def ls_def by code_simp
  have "distinct (map toy_hash (remdups (inclusion_preimages toy_hash 1 2 (inclusion_path toy_hash 1 [small_hash 1, small_hash 2]) (small_hash 2))))"
    by code_simp
  then have "inj_on toy_hash (set (inclusion_preimages toy_hash 1 2 (inclusion_path toy_hash 1 ls) (small_hash 2)))"
    unfolding ls_def by (simp add: distinct_map)
  then have "payload = ls ! leaf_index pf" if "payload = small_hash 2" for payload
    using inclusion_sound [of toy_hash pf payload head ls] v that by (simp add: pf_def head_def ls_def)
  then show ?thesis using v by (intro exI [of _ toy_hash] exI [of _ pf] exI [of _ "small_hash 2"] exI [of _ head] exI [of _ ls])
      (auto simp: pf_def head_def ls_def)
qed

lemma consistency_turns:
  assumes "0 < m" "m < n"
  obtains f s where "skip_ones (m - 1) (n - 1) = (f, s)" "moves f s (consistency_sides m n) 0 0"
proof -
  obtain h where "subtree n 0 n h 0" "(n - 1) div 2 ^ h = 0" using subtree_whole [of n] assms by auto
  then show ?thesis using consistency_moves [of n 0 n h 0 m] assms that by (auto split: prod.splits)
qed

text \<open>
  Completeness of consistency proofs: for any two sizes the log has passed through, the smaller
  first, the prover succeeds and the verifier accepts the proof against the two heads.
\<close>

theorem consistency_complete:
  assumes "m \<le> n" "n \<le> log_len lg"
  shows "\<exists>pf old new. consistency_proof_between b3 lg m n = Ok pf \<and> head_at b3 lg m = Ok old
    \<and> head_at b3 lg n = Ok new \<and> consistency_verify b3 pf old new"
proof -
  let ?ls = "take n (leaves lg)"
  have n: "length ?ls = n" and t: "take m ?ls = take m (leaves lg)"
    using assms by (simp_all add: log_len_def)
  define pf where "pf = \<lparr>old_size = m, new_size = n,
      cp_path = (if 0 < m \<and> m < n then consistency_path b3 m ?ls True else [])\<rparr>"
  have "consistency_verify b3 pf \<lparr>th_size = m, th_root = mth b3 (take m (leaves lg))\<rparr> \<lparr>th_size = n, th_root = mth b3 ?ls\<rparr>"
  proof (cases "0 < m \<and> m < n")
    case True
    then obtain f s where turns: "skip_ones (m - 1) (n - 1) = (f, s)" "moves f s (consistency_sides m n) 0 0"
      using consistency_turns by blast
    have "consistency_walk b3 (joins b3 m ?ls) f s (last_block b3 m ?ls) (last_block b3 m ?ls)
        = Some (0, mth b3 (take m (leaves lg)), mth b3 ?ls)"
      using consistency_walk_moves [OF turns(2)] consistency_climb [of m ?ls b3] True n t assms(2)
      by (simp add: log_len_def)
    moreover have "consistency_path b3 m ?ls True
        = (if is_pow2 m then joins b3 m ?ls else last_block b3 m ?ls # joins b3 m ?ls)
      \<and> (is_pow2 m \<longrightarrow> last_block b3 m ?ls = mth b3 (take m (leaves lg)))"
      using consistency_path_True [of m ?ls b3] True unfolding n t by blast
    ultimately show ?thesis
      using True turns(1)
      by (cases "is_pow2 m") (simp_all add: consistency_verify_def pf_def)
  next
    case False
    then show ?thesis using assms by (auto simp: consistency_verify_def pf_def)
  qed
  then show ?thesis
    using assms by (auto simp: consistency_proof_between_def head_at_def root_at_def log_len_def pf_def)
qed

lemma consistency_complete_witness:
  "(2::nat) \<le> 3 \<and> 3 \<le> log_len (log_from_leaves toy_hash [small_hash 1, small_hash 2, small_hash 3])
   \<and> (\<exists>pf old new. consistency_proof_between toy_hash (log_from_leaves toy_hash [small_hash 1, small_hash 2, small_hash 3]) 2 3 = Ok pf
        \<and> consistency_verify toy_hash pf old new)"
proof -
  have h: "(2::nat) \<le> 3" "3 \<le> log_len (log_from_leaves toy_hash [small_hash 1, small_hash 2, small_hash 3])"
    using log_from_leaves_good [of "[small_hash 1, small_hash 2, small_hash 3]" toy_hash] by (simp_all add: log_len_def u64_max_def)
  show ?thesis using consistency_complete [OF h, of toy_hash] h by blast
qed

text \<open>The byte strings hashed when the seed of a consistency proof is walked up to the new root.\<close>

definition consistency_preimages :: "blake3 \<Rightarrow> nat \<Rightarrow> nat \<Rightarrow> hash list \<Rightarrow> hash \<Rightarrow> byte list list" where
  "consistency_preimages b3 m n path seed = climb_preimages b3 (consistency_sides m n) path seed"

text \<open>
  C36. Soundness of consistency proofs: if the verifier accepts a proof from a non-empty old head to
  the head of a log with leaves \<open>ls\<close>, then the old root is the tree hash of the first \<open>old_size\<close> of
  those very leaves, unless two of the byte strings hashed on the two climbs collide.
\<close>

theorem consistency_sound:
  assumes "consistency_verify b3 pf old new" "0 < th_size old"
    and "th_size new = length ls" "th_root new = mth b3 ls"
    and "\<And>seed rest. (if is_pow2 (th_size old) then (seed, rest) = (th_root old, cp_path pf)
            else cp_path pf = seed # rest) \<Longrightarrow>
          inj_on b3 (set (consistency_preimages b3 (th_size old) (length ls) rest seed)
            \<union> set (consistency_preimages b3 (th_size old) (length ls)
                     (joins b3 (th_size old) ls) (last_block b3 (th_size old) ls)))"
  shows "th_size old \<le> length ls \<and> th_root old = mth b3 (take (th_size old) ls)"
proof (cases "th_size old = length ls")
  case True
  then show ?thesis using assms(1,3,4) by (auto simp: consistency_verify_def split: if_splits)
next
  case False
  let ?m = "th_size old" and ?n = "length ls"
  have m: "old_size pf = ?m" "new_size pf = ?n" "?m < ?n"
    using assms(1,3) False by (auto simp: consistency_verify_def split: if_splits)
  obtain seed rest where seed: "(if is_pow2 ?m then Some (th_root old, cp_path pf)
          else (case cp_path pf of [] \<Rightarrow> None | h # rest \<Rightarrow> Some (h, rest))) = Some (seed, rest)"
    using assms(1,2) m by (auto simp: consistency_verify_def split: if_splits option.splits)
  obtain f s where turns: "skip_ones (?m - 1) (?n - 1) = (f, s)" "moves f s (consistency_sides ?m ?n) 0 0"
    using consistency_turns [OF assms(2) m(3)] .
  have walk: "consistency_walk b3 rest f s seed seed = Some (0, th_root old, mth b3 ls)"
    using assms(1,2,4) m seed turns(1)
    by (auto simp: consistency_verify_def split: if_splits option.splits prod.splits)
  have len: "length rest = length (consistency_sides ?m ?n)"
    by (rule consistency_walk_length [OF turns(2) walk])
  have mine: "climb b3 (consistency_sides ?m ?n) rest seed = mth b3 ls"
    "climb_old b3 (consistency_sides ?m ?n) rest seed = th_root old"
    using consistency_walk_moves [OF turns(2) len] walk by auto
  have honest: "length (joins b3 ?m ls) = length (consistency_sides ?m ?n)"
    "climb b3 (consistency_sides ?m ?n) (joins b3 ?m ls) (last_block b3 ?m ls) = mth b3 ls"
    "climb_old b3 (consistency_sides ?m ?n) (joins b3 ?m ls) (last_block b3 ?m ls) = mth b3 (take ?m ls)"
    using consistency_climb [of ?m ls b3] assms(2) m(3) by auto
  have "if is_pow2 ?m then (seed, rest) = (th_root old, cp_path pf) else cp_path pf = seed # rest"
    using seed by (auto split: if_splits list.splits)
  from assms(5) [OF this] have "seed = last_block b3 ?m ls \<and> rest = joins b3 ?m ls"
    using mine(1) honest(2) by (intro climb_inj [OF len honest(1)]) (auto simp: consistency_preimages_def)
  then show ?thesis using mine(2) honest(3) m(3) by simp
qed

lemma consistency_sound_witness:
  "\<exists>b3 pf old new ls. consistency_verify b3 pf old new \<and> 0 < th_size old \<and> th_size new = length ls
     \<and> th_root new = mth b3 ls \<and> th_root old = mth b3 (take (th_size old) ls)"
proof -
  define ls where "ls = [small_hash 1, small_hash 2]"
  define pf where "pf = \<lparr>old_size = 1, new_size = 2, cp_path = consistency_path toy_hash 1 ls True\<rparr>"
  define old where "old = \<lparr>th_size = 1, th_root = leaf_hash toy_hash (small_hash 1)\<rparr>"
  define new where "new = \<lparr>th_size = 2, th_root = mth toy_hash ls\<rparr>"
  have v: "consistency_verify toy_hash pf old new" unfolding pf_def old_def new_def ls_def by code_simp
  have "length (consistency_preimages toy_hash 1 2 (joins toy_hash 1 [small_hash 1, small_hash 2])
      (last_block toy_hash 1 [small_hash 1, small_hash 2])) = 1" by code_simp
  then obtain x where x: "consistency_preimages toy_hash 1 2 (joins toy_hash 1 ls) (last_block toy_hash 1 ls) = [x]"
    unfolding ls_def by (auto simp: length_Suc_conv)
  have same: "cp_path pf = joins toy_hash 1 ls" "th_root old = last_block toy_hash 1 ls" "is_pow2 1"
    unfolding pf_def old_def ls_def by (simp, code_simp)+
  have "th_root old = mth toy_hash (take (th_size old) ls)"
    using consistency_sound [of toy_hash pf old new ls] v x same by (simp add: old_def new_def ls_def)
  then show ?thesis using v by (intro exI [of _ toy_hash] exI [of _ pf] exI [of _ old] exI [of _ new] exI [of _ ls])
      (simp add: old_def new_def ls_def)
qed

end
