(* ===== verification/Account.thy ===== *)
theory Account
  imports Balance Merkle_Audit
begin

text \<open>
  The accounts and the registry of \<^verbatim>\<open>src/account.rs\<close>. An operation that takes \<^verbatim>\<open>&mut self\<close> returns its
  result together with the registry afterwards.
\<close>

datatype account_kind = Asset | Liability | Equity | Income | Expense

definition normal_side :: "account_kind \<Rightarrow> direction" where
  "normal_side k = (case k of Asset \<Rightarrow> Debit | Expense \<Rightarrow> Debit | Liability \<Rightarrow> Credit | Equity \<Rightarrow> Credit | Income \<Rightarrow> Credit)"

definition kind_discriminant :: "account_kind \<Rightarrow> u8" where
  "kind_discriminant k = (case k of Asset \<Rightarrow> 0 | Liability \<Rightarrow> 1 | Equity \<Rightarrow> 2 | Income \<Rightarrow> 3 | Expense \<Rightarrow> 4)"

datatype balance_limit = Unlimited | NoCreditBalance | NoDebitBalance

definition permits :: "balance_limit \<Rightarrow> balance \<Rightarrow> bool" where
  "permits l b =
     (case l of
        Unlimited \<Rightarrow> True
      | NoCreditBalance \<Rightarrow> debits b \<ge> credits b
      | NoDebitBalance \<Rightarrow> credits b \<ge> debits b)"

definition is_unlimited :: "balance_limit \<Rightarrow> bool" where
  "is_unlimited l \<longleftrightarrow> l = Unlimited"

definition limit_discriminant :: "balance_limit \<Rightarrow> u8" where
  "limit_discriminant l = (case l of Unlimited \<Rightarrow> 0 | NoCreditBalance \<Rightarrow> 1 | NoDebitBalance \<Rightarrow> 2)"

record account =
  a_path :: account_path
  a_kind :: "account_kind option"
  opened_on :: date
  closed_on :: "date option"
  a_limit :: balance_limit

definition account_new :: "account_path \<Rightarrow> date \<Rightarrow> account" where
  "account_new path opened =
     \<lparr>a_path = path, a_kind = None, opened_on = opened, closed_on = None, a_limit = Unlimited\<rparr>"

definition with_kind :: "account \<Rightarrow> account_kind \<Rightarrow> account" where
  "with_kind a k = a\<lparr>a_kind := Some k\<rparr>"

definition closing_on :: "account \<Rightarrow> date \<Rightarrow> account" where
  "closing_on a d = a\<lparr>closed_on := Some d\<rparr>"

definition limited_to :: "account \<Rightarrow> balance_limit \<Rightarrow> account" where
  "limited_to a l = a\<lparr>a_limit := l\<rparr>"

definition is_open_on :: "account \<Rightarrow> date \<Rightarrow> bool" where
  "is_open_on a d \<longleftrightarrow> d \<ge> opened_on a \<and> (case closed_on a of None \<Rightarrow> True | Some c \<Rightarrow> d \<le> c)"

definition enc_account :: "env \<Rightarrow> account \<Rightarrow> byte list" where
  "enc_account E a =
     enc_path (a_path a) @
     enc_option (\<lambda>k. enc_u8 (kind_discriminant k)) (a_kind a) @
     encode_date E (opened_on a) @
     enc_option (encode_date E) (closed_on a) @
     enc_u8 (limit_discriminant (a_limit a))"

record account_record =
  r_id :: account_id
  r_account :: account

definition enc_account_record :: "env \<Rightarrow> account_record \<Rightarrow> byte list" where
  "enc_account_record E r = enc_u32 (account_index (r_id r)) @ enc_account E (r_account r)"

definition binding_payload :: "account_id \<Rightarrow> account_path \<Rightarrow> byte list" where
  "binding_payload i path = enc_u32 (account_index i) @ enc_path path"

definition account_binding_leaf :: "blake3 \<Rightarrow> account_id \<Rightarrow> account_path \<Rightarrow> hash" where
  "account_binding_leaf b3 i path = tagged b3 tag_account_binding (binding_payload i path)"

record account_binding_proof =
  b_id :: account_id
  b_path :: account_path
  b_proof :: inclusion_proof

definition binding_verify :: "blake3 \<Rightarrow> account_binding_proof \<Rightarrow> tree_head \<Rightarrow> bool" where
  "binding_verify b3 p accounts \<longleftrightarrow>
     leaf_index (b_proof p) = unat (account_index (b_id p))
     \<and> inclusion_verify b3 (b_proof p) (account_binding_leaf b3 (b_id p) (b_path p)) accounts"

section \<open>The registry\<close>

record registry =
  accounts :: "account list"
  path_index :: "(account_path, account_id) btmap"
  child_count :: "u32 list"

definition registry_new :: registry where
  "registry_new = \<lparr>accounts = [], path_index = bt_empty, child_count = []\<rparr>"

definition idx :: "account_id \<Rightarrow> nat" where
  "idx i = unat (account_index i)"

definition reg_get :: "registry \<Rightarrow> account_id \<Rightarrow> account option" where
  "reg_get r i = (if idx i < length (accounts r) then Some (accounts r ! idx i) else None)"

definition id_of :: "registry \<Rightarrow> account_path \<Rightarrow> account_id option" where
  "id_of r path = bt_get (path_index r) path"

definition reg_len :: "registry \<Rightarrow> nat" where
  "reg_len r = length (accounts r)"

definition is_leaf :: "registry \<Rightarrow> account_id \<Rightarrow> bool" where
  "is_leaf r i \<longleftrightarrow> (if idx i < length (child_count r) then child_count r ! idx i else 0) = 0"

definition descendant_range :: "registry \<Rightarrow> account_path \<Rightarrow> (account_path \<times> account_id) list" where
  "descendant_range r pre =
     takeWhile (\<lambda>(path, _). is_under path pre)
       (dropWhile (\<lambda>(path, _). path = pre) (bt_from (path_index r) pre))"

text \<open>The loop over the ancestors: each registered one gains a child.\<close>

definition bump_parent :: "registry \<Rightarrow> u32 list \<Rightarrow> account_path \<Rightarrow> u32 list" where
  "bump_parent r counts ancestor =
     (case bt_get (path_index r) ancestor of
        None \<Rightarrow> counts
      | Some parent_id \<Rightarrow>
          if idx parent_id < length counts
          then counts[idx parent_id := u32_saturating_add (counts ! idx parent_id) 1]
          else counts)"

definition register :: "account \<Rightarrow> registry \<Rightarrow> (account_error, account_id) res \<times> registry" where
  "register acct r =
     (if (case closed_on acct of Some closed \<Rightarrow> closed < opened_on acct | None \<Rightarrow> False)
      then (Err (ClosedBeforeOpened (a_path acct) (opened_on acct) (the (closed_on acct))), r)
      else if bt_contains (path_index r) (a_path acct) then (Err (AlreadyRegistered (a_path acct)), r)
      else case u32_try (length (accounts r)) of
        None \<Rightarrow> (Err RegistryFull, r)
      | Some n \<Rightarrow>
          let i = AccountId n; path = a_path acct;
              counts = foldl (bump_parent r) (child_count r) (ancestors path);
              existing_children = length (descendant_range r path) in
          (Ok i,
           \<lparr>accounts = accounts r @ [acct],
            path_index = bt_insert path i (path_index r),
            child_count = counts @ [case u32_try existing_children of Some c \<Rightarrow> c | None \<Rightarrow> of_nat u32_max]\<rparr>))"

definition register_path :: "ustr \<Rightarrow> date \<Rightarrow> registry \<Rightarrow> (account_error, account_id) res \<times> registry" where
  "register_path path opened r =
     (case path_parse path of Err e \<Rightarrow> (Err e, r) | Ok p \<Rightarrow> register (account_new p opened) r)"

definition reg_iter :: "registry \<Rightarrow> (account_id \<times> account) list" where
  "reg_iter r = List.map_filter (\<lambda>i. map_option (Pair i) (reg_get r i)) (bt_values (path_index r))"

definition update_account :: "registry \<Rightarrow> account_id \<Rightarrow> account \<Rightarrow> registry" where
  "update_account r i a = r\<lparr>accounts := (accounts r)[idx i := a]\<rparr>"

definition close :: "account_id \<Rightarrow> date \<Rightarrow> registry \<Rightarrow> (account_error, unit) res \<times> registry" where
  "close i on r =
     (case reg_get r i of
        None \<Rightarrow> (Err (UnknownAccount i), r)
      | Some a \<Rightarrow>
          if on < opened_on a then (Err (ClosedBeforeOpened (a_path a) (opened_on a) on), r)
          else (Ok (), update_account r i (a\<lparr>closed_on := Some on\<rparr>)))"

definition reopen :: "account_id \<Rightarrow> registry \<Rightarrow> (account_error, unit) res \<times> registry" where
  "reopen i r =
     (case reg_get r i of
        None \<Rightarrow> (Err (UnknownAccount i), r)
      | Some a \<Rightarrow> (Ok (), update_account r i (a\<lparr>closed_on := None\<rparr>)))"

definition set_limit :: "account_id \<Rightarrow> balance_limit \<Rightarrow> registry \<Rightarrow> (account_error, unit) res \<times> registry" where
  "set_limit i l r =
     (case reg_get r i of
        None \<Rightarrow> (Err (UnknownAccount i), r)
      | Some a \<Rightarrow> (Ok (), update_account r i (a\<lparr>a_limit := l\<rparr>)))"

definition limit_of :: "registry \<Rightarrow> account_id \<Rightarrow> balance_limit" where
  "limit_of r i = (case reg_get r i of None \<Rightarrow> Unlimited | Some a \<Rightarrow> a_limit a)"

text \<open>The handle at a position; the cast saturates beyond the 32-bit range.\<close>

definition handle_at :: "nat \<Rightarrow> account_id" where
  "handle_at i = AccountId (case u32_try i of Some n \<Rightarrow> n | None \<Rightarrow> of_nat u32_max)"

definition records :: "registry \<Rightarrow> account_record list" where
  "records r = map (\<lambda>(i, a). \<lparr>r_id = handle_at i, r_account = a\<rparr>) (enumerate 0 (accounts r))"

definition restore :: "account_record \<Rightarrow> registry \<Rightarrow> (account_error, unit) res \<times> registry" where
  "restore rc r =
     (let nxt = account_index (handle_at (length (accounts r))) in
      case reg_get r (r_id rc) of
        Some existing \<Rightarrow>
          if a_path existing \<noteq> a_path (r_account rc) then (Err (AlreadyRegistered (a_path existing)), r)
          else if (case closed_on (r_account rc) of Some closed \<Rightarrow> closed < opened_on (r_account rc) | None \<Rightarrow> False)
          then (Err (ClosedBeforeOpened (a_path (r_account rc)) (opened_on (r_account rc)) (the (closed_on (r_account rc)))), r)
          else (Ok (), update_account r (r_id rc) (r_account rc))
      | None \<Rightarrow>
          if account_index (r_id rc) \<noteq> nxt then (Err (NotDense nxt (account_index (r_id rc))), r)
          else (case register (r_account rc) r of (res, r') \<Rightarrow> (bindR res (\<lambda>_. Ok ()), r')))"

definition from_records :: "account_record list \<Rightarrow> (account_error, registry) res" where
  "from_records rs =
     try_fold (\<lambda>r rc. case restore rc r of (res, r') \<Rightarrow> bindR res (\<lambda>_. Ok r')) registry_new
       (sort_key (\<lambda>rc. account_index (r_id rc)) rs)"

definition binding_leaves :: "blake3 \<Rightarrow> account list \<Rightarrow> hash list" where
  "binding_leaves b3 as = map (\<lambda>(i, a). account_binding_leaf b3 (handle_at i) (a_path a)) (enumerate 0 as)"

definition binding_log :: "blake3 \<Rightarrow> registry \<Rightarrow> merkle_log" where
  "binding_log b3 r = log_from_leaves b3 (binding_leaves b3 (accounts r))"

definition commitment :: "blake3 \<Rightarrow> registry \<Rightarrow> tree_head" where
  "commitment b3 r = log_head b3 (binding_log b3 r)"

definition prove_binding_at :: "blake3 \<Rightarrow> registry \<Rightarrow> account_id \<Rightarrow> nat \<Rightarrow> account_binding_proof option" where
  "prove_binding_at b3 r i n =
     (if n > length (accounts r) \<or> idx i \<ge> n then None
      else case reg_get r i of
        None \<Rightarrow> None
      | Some a \<Rightarrow>
          (case log_inclusion_proof b3 (log_from_leaves b3 (binding_leaves b3 (take n (accounts r)))) (idx i) of
             Err _ \<Rightarrow> None
           | Ok proof \<Rightarrow> Some \<lparr>b_id = i, b_path = a_path a, b_proof = proof\<rparr>))"

definition prove_binding :: "blake3 \<Rightarrow> registry \<Rightarrow> account_id \<Rightarrow> account_binding_proof option" where
  "prove_binding b3 r i = prove_binding_at b3 r i (reg_len r)"

definition descendants_of :: "registry \<Rightarrow> account_path \<Rightarrow> account_id list" where
  "descendants_of r pre = map snd (takeWhile (\<lambda>(path, _). is_under path pre) (bt_from (path_index r) pre))"

end
