(* ===== verification/Closing.thy ===== *)
theory Closing
  imports Balance Account
begin

text \<open>
  \<^verbatim>\<open>src/closing.rs\<close>: the postings that close the accounts of some kinds into an equity account, and
  what they do to the balances: every account in scope nets to zero, the equity account takes the sum,
  and the postings balance in every currency.
\<close>

datatype closing_error = UnknownEquityAccount account_id | EquityInScope account_id | ClosingMoney money_error

definition close_row :: "registry \<Rightarrow> account_kind list \<Rightarrow> account_id \<Rightarrow> layer
    \<Rightarrow> (currency, amount) btmap \<times> posting list \<Rightarrow> balance_key \<times> balance
    \<Rightarrow> (closing_error, (currency, amount) btmap \<times> posting list) res" where
  "close_row accts kinds equity layer st row =
     (case (st, row) of ((offsets, postings), (key, balance)) \<Rightarrow>
      if k_layer key \<noteq> layer \<or> k_account key = equity then Ok (offsets, postings)
      else case reg_get accts (k_account key) of
        None \<Rightarrow> Ok (offsets, postings)
      | Some account \<Rightarrow>
        (case a_kind account of
           None \<Rightarrow> Ok (offsets, postings)
         | Some kind \<Rightarrow>
           if kind \<notin> set kinds then Ok (offsets, postings)
           else bindR (map_err ClosingMoney (balance_net balance)) (\<lambda>(side, magnitude).
             if is_zero magnitude then Ok (offsets, postings)
             else
               let posting = \<lparr>p_account = k_account key, p_direction = dir_inverse side, p_amount = magnitude,
                              p_currency = k_currency key, p_layer = layer, p_dimensions = dims_none\<rparr>;
                   slot = (case bt_get offsets (k_currency key) of Some a \<Rightarrow> a | None \<Rightarrow> amount_zero) in
               bindR (map_err ClosingMoney (case side of Debit \<Rightarrow> Ok magnitude | Credit \<Rightarrow> checked_neg magnitude)) (\<lambda>signed.
               bindR (map_err ClosingMoney (checked_add slot signed)) (\<lambda>total_net.
               Ok (bt_insert (k_currency key) total_net offsets, postings @ [posting]))))))"

definition equity_leg :: "account_id \<Rightarrow> layer \<Rightarrow> posting list \<Rightarrow> currency \<times> amount \<Rightarrow> (closing_error, posting list) res" where
  "equity_leg equity layer postings slot =
     (case slot of (currency, net) \<Rightarrow>
      if is_zero net then Ok postings
      else bindR (if is_positive net then Ok (Debit, net)
                  else bindR (map_err ClosingMoney (checked_neg net)) (\<lambda>m. Ok (Credit, m))) (\<lambda>(direction, magnitude).
        Ok (postings @ [\<lparr>p_account = equity, p_direction = direction, p_amount = magnitude,
                          p_currency = currency, p_layer = layer, p_dimensions = dims_none\<rparr>])))"

definition closing_postings :: "trial_balance \<Rightarrow> registry \<Rightarrow> account_kind list \<Rightarrow> account_id \<Rightarrow> layer
    \<Rightarrow> (closing_error, posting list) res" where
  "closing_postings tb accts kinds equity layer =
     (case reg_get accts equity of
        None \<Rightarrow> Err (UnknownEquityAccount equity)
      | Some account \<Rightarrow>
          if (case a_kind account of Some kind \<Rightarrow> kind \<in> set kinds | None \<Rightarrow> False) then Err (EquityInScope equity)
          else bindR (try_fold (close_row accts kinds equity layer) (bt_empty, []) (bt_iter tb)) (\<lambda>(offsets, postings).
               try_fold (equity_leg equity layer) postings (bt_iter offsets)))"

section \<open>What is in scope, and the signed sums\<close>

definition closes :: "registry \<Rightarrow> account_kind list \<Rightarrow> account_id \<Rightarrow> layer \<Rightarrow> balance_key \<Rightarrow> bool" where
  "closes accts kinds equity layer key \<longleftrightarrow>
     k_layer key = layer \<and> k_account key \<noteq> equity
     \<and> (\<exists>a kind. reg_get accts (k_account key) = Some a \<and> a_kind a = Some kind \<and> kind \<in> set kinds)"

definition net_of :: "balance \<Rightarrow> int" where
  "net_of b = side Debit b - side Credit b"

definition signed_amt :: "posting \<Rightarrow> int" where
  "signed_amt p = (case p_direction p of Debit \<Rightarrow> amt (p_amount p) | Credit \<Rightarrow> - amt (p_amount p))"

definition signed_on :: "(posting \<Rightarrow> bool) \<Rightarrow> posting list \<Rightarrow> int" where
  "signed_on P ps = sum_list (map signed_amt (filter P ps))"

lemma signed_on_simps [simp]:
  "signed_on P [] = 0" "signed_on P (p # ps) = (if P p then signed_amt p else 0) + signed_on P ps"
  "signed_on P (ps @ qs) = signed_on P ps + signed_on P qs"
  by (simp_all add: signed_on_def)

lemma moved_signed: "moved Debit key ps - moved Credit key ps = signed_on (\<lambda>p. key_of_posting p = key) ps"
  by (induction ps) (auto simp: signed_amt_def split: direction.splits)

lemma balance_net_Ok:
  "balance_net b = Ok (d, m) \<longleftrightarrow> amt m = \<bar>net_of b\<bar> \<and> d = (if 0 \<le> net_of b then Debit else Credit)"
  by (auto simp: balance_net_def net_of_def side_def amt_le)

section \<open>The two loops\<close>

definition flattens :: "account_id \<Rightarrow> layer \<Rightarrow> posting \<Rightarrow> balance_key \<Rightarrow> int \<Rightarrow> bool" where
  "flattens equity layer p key n \<longleftrightarrow>
     key_of_posting p = key \<and> signed_amt p = - n \<and> 0 < amt (p_amount p) \<and> p_dimensions p = dims_none"

definition slot_of :: "(currency, amount) btmap \<Rightarrow> currency \<Rightarrow> int" where
  "slot_of offsets c = (case bt_get offsets c of Some a \<Rightarrow> amt a | None \<Rightarrow> 0)"

lemma close_row_skip: "\<not> closes accts kinds equity layer key \<Longrightarrow> close_row accts kinds equity layer (offs, ps) (key, b) = Ok (offs, ps)"
  by (auto simp: close_row_def closes_def split: option.splits)

lemma close_row_in:
  assumes "closes accts kinds equity layer key" "close_row accts kinds equity layer (offs, ps) (key, b) = Ok (offs', ps')"
  obtains (zero) "net_of b = 0" "offs' = offs" "ps' = ps"
  | (move) p where "net_of b \<noteq> 0" "ps' = ps @ [p]" "flattens equity layer p key (net_of b)"
      "\<And>c. slot_of offs' c = slot_of offs c + (if c = k_currency key then net_of b else 0)"
proof -
  obtain a kind where a: "reg_get accts (k_account key) = Some a" "a_kind a = Some kind" "kind \<in> set kinds"
    "k_layer key = layer" "k_account key \<noteq> equity" using assms(1) by (auto simp: closes_def)
  obtain d m where n: "balance_net b = Ok (d, m)" using assms(2) a by (cases "balance_net b") (auto simp: close_row_def)
  show ?thesis
  proof (cases "is_zero m")
    case True
    then show ?thesis using zero assms(2) a n by (auto simp: close_row_def balance_net_Ok amt_signs)
  next
    case False
    let ?p = "\<lparr>p_account = k_account key, p_direction = dir_inverse d, p_amount = m,
                              p_currency = k_currency key, p_layer = layer, p_dimensions = dims_none\<rparr>"
    obtain s t where s: "(case d of Debit \<Rightarrow> Ok m | Credit \<Rightarrow> checked_neg m) = Ok s"
      "amt t = slot_of offs (k_currency key) + amt s" "offs' = bt_insert (k_currency key) t offs" "ps' = ps @ [?p]"
      using assms(2) a n False by (auto simp: close_row_def Let_def slot_of_def split: option.splits)
    have m: "amt m = \<bar>net_of b\<bar>" "d = (if 0 \<le> net_of b then Debit else Credit)" "net_of b \<noteq> 0"
      using n False by (auto simp: balance_net_Ok amt_signs)
    have "amt s = net_of b" using s(1) m by (auto split: if_splits)
    moreover have "flattens equity layer ?p key (net_of b)"
      using m a(4) by (cases key) (auto simp: flattens_def key_of_posting_def signed_amt_def dir_inverse_def)
    ultimately show ?thesis using move [OF m(3) s(4)] s(2,3) by (simp add: slot_of_def)
  qed
qed

text \<open>The net a row carries to equity: nothing unless its account is in scope.\<close>

definition carried :: "(balance_key \<Rightarrow> bool) \<Rightarrow> (balance_key \<times> balance) list \<Rightarrow> (balance_key \<Rightarrow> bool) \<Rightarrow> int" where
  "carried scope rows P = sum_list (map (\<lambda>(k, b). if scope k \<and> P k then net_of b else 0) rows)"

lemma carried_simps [simp]:
  "carried scope [] P = 0"
  "carried scope ((k, b) # rows) P = (if scope k \<and> P k then net_of b else 0) + carried scope rows P"
  by (simp_all add: carried_def)

definition plain_leg :: "layer \<Rightarrow> posting \<Rightarrow> bool" where
  "plain_leg layer p \<longleftrightarrow> 0 < amt (p_amount p) \<and> p_layer p = layer \<and> p_dimensions p = dims_none"

lemma flattening_loop:
  assumes "try_fold (close_row accts kinds equity layer) (offs, ps) rows = Ok (offs', ps')"
  shows "(\<exists>qs. ps' = ps @ qs \<and> (\<forall>p\<in>set qs. plain_leg layer p \<and> closes accts kinds equity layer (key_of_posting p))
            \<and> (\<forall>P. signed_on (\<lambda>p. P (key_of_posting p)) qs = - carried (closes accts kinds equity layer) rows P))
    \<and> (\<forall>c. slot_of offs' c = slot_of offs c + carried (closes accts kinds equity layer) rows (\<lambda>k. k_currency k = c))"
  using assms
proof (induction rows arbitrary: offs ps)
  case Nil
  then show ?case by simp
next
  case (Cons row rows)
  obtain key b where row: "row = (key, b)" by fastforce
  obtain offs1 ps1 where st: "close_row accts kinds equity layer (offs, ps) (key, b) = Ok (offs1, ps1)"
    "try_fold (close_row accts kinds equity layer) (offs1, ps1) rows = Ok (offs', ps')"
    using Cons.prems row by auto
  note IH = Cons.IH [OF st(2)]
  show ?case
  proof (cases "closes accts kinds equity layer key")
    case False
    then show ?thesis using IH st(1) by (simp add: close_row_skip row)
  next
    case True
    show ?thesis using True st(1)
    proof (cases rule: close_row_in)
      case zero
      then have "carried (closes accts kinds equity layer) (row # rows) = carried (closes accts kinds equity layer) rows"
        by (simp add: fun_eq_iff row)
      then show ?thesis using IH zero by simp
    next
      case (move p)
      from IH obtain qs where qs: "ps' = ps1 @ qs"
        "\<forall>p\<in>set qs. plain_leg layer p \<and> closes accts kinds equity layer (key_of_posting p)"
        "\<forall>P. signed_on (\<lambda>p. P (key_of_posting p)) qs = - carried (closes accts kinds equity layer) rows P" by blast
      have p: "key_of_posting p = key" "signed_amt p = - net_of b" "plain_leg layer p"
        using move(3) True by (auto simp: flattens_def plain_leg_def key_of_posting_def closes_def)
      have "ps' = ps @ (p # qs)" "\<forall>x\<in>set (p # qs). plain_leg layer x \<and> closes accts kinds equity layer (key_of_posting x)"
        "\<forall>P. signed_on (\<lambda>x. P (key_of_posting x)) (p # qs) = - carried (closes accts kinds equity layer) (row # rows) P"
        using qs p move(2) True by (simp_all add: row)
      moreover have "\<forall>c. slot_of offs' c = slot_of offs c
          + carried (closes accts kinds equity layer) (row # rows) (\<lambda>k. k_currency k = c)"
        using IH move(4) True by (simp add: row)
      ultimately show ?thesis by blast
    qed
  qed
qed

lemma equity_loop:
  assumes "try_fold (equity_leg equity layer) ps slots = Ok ps'"
  shows "\<exists>qs. ps' = ps @ qs \<and> (\<forall>p\<in>set qs. plain_leg layer p \<and> p_account p = equity)
    \<and> (\<forall>P. signed_on (\<lambda>p. P (p_currency p)) qs = sum_list (map (\<lambda>(c, a). if P c then amt a else 0) slots))"
  using assms
proof (induction slots arbitrary: ps)
  case Nil
  then show ?case by simp
next
  case (Cons slot slots)
  obtain c a where slot: "slot = (c, a)" by fastforce
  obtain ps1 where st: "equity_leg equity layer ps (c, a) = Ok ps1" "try_fold (equity_leg equity layer) ps1 slots = Ok ps'"
    using Cons.prems slot by auto
  obtain qs where qs: "ps' = ps1 @ qs" "\<forall>p\<in>set qs. plain_leg layer p \<and> p_account p = equity"
    "\<forall>P. signed_on (\<lambda>p. P (p_currency p)) qs = sum_list (map (\<lambda>(c, a). if P c then amt a else 0) slots)"
    using Cons.IH [OF st(2)] by blast
  obtain ls where ls: "ps1 = ps @ ls" "\<forall>p\<in>set ls. plain_leg layer p \<and> p_account p = equity"
    "\<forall>P. signed_on (\<lambda>p. P (p_currency p)) ls = (if P c then amt a else 0)"
  proof (cases "is_zero a")
    case True
    then show ?thesis using st(1) that [of "[]"] by (simp add: equity_leg_def amt_signs)
  next
    case False
    then obtain d m where dm: "ps1 = ps @ [\<lparr>p_account = equity, p_direction = d, p_amount = m,
         p_currency = c, p_layer = layer, p_dimensions = dims_none\<rparr>]" "amt m = \<bar>amt a\<bar>" "amt a \<noteq> 0"
       "d = (if 0 < amt a then Debit else Credit)"
      using st(1) by (auto simp: equity_leg_def amt_signs split: if_splits)
    then show ?thesis using that [of "[\<lparr>p_account = equity, p_direction = d, p_amount = m,
         p_currency = c, p_layer = layer, p_dimensions = dims_none\<rparr>]"] by (simp add: plain_leg_def signed_amt_def)
  qed
  have "\<forall>P. signed_on (\<lambda>p. P (p_currency p)) (ls @ qs) = sum_list (map (\<lambda>(c, a). if P c then amt a else 0) (slot # slots))"
    using ls(3) qs(3) by (simp add: slot)
  moreover have "ps' = ps @ (ls @ qs)" "\<forall>p\<in>set (ls @ qs). plain_leg layer p \<and> p_account p = equity"
    using ls qs by auto
  ultimately show ?case by blast
qed

lemma sum_slots: "sum_list (map (\<lambda>(c, a). if c = d then amt a else 0) (bt_iter offs)) = slot_of offs d"
proof -
  have "sum_list (map (\<lambda>(c, a). if c = d then amt a else 0) xs)
      = (case map_of xs d of Some a \<Rightarrow> amt a | None \<Rightarrow> 0)" if "distinct (map fst xs)" for xs :: "(currency \<times> amount) list"
    using that by (induction xs) (force split: option.splits)+
  then show ?thesis using bt_distinct [of offs] by (simp add: slot_of_def bt_get_def)
qed

section \<open>What closing achieves\<close>

lemma closing_parts:
  assumes "closing_postings tb accts kinds equity layer = Ok ps"
  obtains flat legs where "ps = flat @ legs"
    "\<forall>p\<in>set flat. plain_leg layer p \<and> closes accts kinds equity layer (key_of_posting p)"
    "\<forall>p\<in>set legs. plain_leg layer p \<and> p_account p = equity"
    "\<And>P. signed_on (\<lambda>p. P (key_of_posting p)) flat = - carried (closes accts kinds equity layer) (bt_iter tb) P"
    "\<And>c. signed_on (\<lambda>p. p_currency p = c) legs
       = carried (closes accts kinds equity layer) (bt_iter tb) (\<lambda>k. k_currency k = c)"
proof -
  obtain offs flat where l: "try_fold (close_row accts kinds equity layer) (bt_empty, []) (bt_iter tb) = Ok (offs, flat)"
    "try_fold (equity_leg equity layer) flat (bt_iter offs) = Ok ps"
    using assms by (auto simp: closing_postings_def split: option.splits if_splits)
  obtain legs where legs: "ps = flat @ legs" "\<forall>p\<in>set legs. plain_leg layer p \<and> p_account p = equity"
    "\<And>P. signed_on (\<lambda>p. P (p_currency p)) legs = sum_list (map (\<lambda>(c, a). if P c then amt a else 0) (bt_iter offs))"
    using equity_loop [OF l(2)] by blast
  have "signed_on (\<lambda>p. p_currency p = c) legs = slot_of offs c" for c
    using legs(3) [of "\<lambda>d. d = c"] sum_slots [of c offs] by simp
  then show ?thesis using that [OF legs(1)] legs(2) flattening_loop [OF l(1)] by (simp add: slot_of_def)
qed

lemma carried_key: "carried scope (bt_iter tb) (\<lambda>k. k = key) = (if scope key then net_of (tb_get_or_zero tb key) else 0)"
proof -
  have "carried scope xs (\<lambda>k. k = key) = (if scope key then net_of (case map_of xs key of Some b \<Rightarrow> b | None \<Rightarrow> balance_zero) else 0)"
    if "distinct (map fst xs)" for xs
    using that
  proof (induction xs)
    case (Cons x xs)
    then show ?case by (cases x) (force simp: net_of_def split: option.splits)
  qed (simp add: net_of_def carried_def)
  then show ?thesis using bt_distinct [of tb] by (simp add: tb_get_or_zero_def bt_get_def)
qed

text \<open>
  C40. The closing postings do what closing means: together they balance in every currency and carry
  strictly positive amounts on the layer closed, and on top of the trial balance they bring every
  account in scope to a net of zero, leave every other account alone, and move the sum of the closed
  nets to the equity account.
\<close>

theorem closing_flattens:
  assumes "closing_postings tb accts kinds equity layer = Ok ps"
  shows "(\<forall>p\<in>set ps. 0 < amt (p_amount p) \<and> p_layer p = layer \<and> p_dimensions p = dims_none)
    \<and> (\<forall>c. signed_on (\<lambda>p. p_currency p = c) ps = 0)
    \<and> (\<forall>key. closes accts kinds equity layer key \<longrightarrow>
          net_of (tb_get_or_zero tb key) + (moved Debit key ps - moved Credit key ps) = 0)
    \<and> (\<forall>p\<in>set ps. closes accts kinds equity layer (key_of_posting p) \<or> p_account p = equity)
    \<and> (\<forall>c. signed_on (\<lambda>p. p_account p = equity \<and> p_currency p = c) ps
          = carried (closes accts kinds equity layer) (bt_iter tb) (\<lambda>k. k_currency k = c))"
proof -
  obtain flat legs where p: "ps = flat @ legs"
    "\<forall>p\<in>set flat. plain_leg layer p \<and> closes accts kinds equity layer (key_of_posting p)"
    "\<forall>p\<in>set legs. plain_leg layer p \<and> p_account p = equity"
    "\<And>P. signed_on (\<lambda>p. P (key_of_posting p)) flat = - carried (closes accts kinds equity layer) (bt_iter tb) P"
    "\<And>c. signed_on (\<lambda>p. p_currency p = c) legs
       = carried (closes accts kinds equity layer) (bt_iter tb) (\<lambda>k. k_currency k = c)"
    using closing_parts [OF assms] by metis
  have none: "signed_on P xs = 0" if "\<forall>x\<in>set xs. \<not> P x" for P and xs :: "posting list"
    using that by (induction xs) auto
  have same: "signed_on P xs = signed_on Q xs" if "\<forall>x\<in>set xs. P x = Q x" for P Q and xs :: "posting list"
    using that by (induction xs) auto
  have "closes accts kinds equity layer key \<Longrightarrow> signed_on (\<lambda>p. key_of_posting p = key) legs = 0" for key
    using p(3) by (intro none) (auto simp: closes_def key_of_posting_def)
  then have flat: "closes accts kinds equity layer key \<Longrightarrow>
      net_of (tb_get_or_zero tb key) + signed_on (\<lambda>p. key_of_posting p = key) ps = 0" for key
    using p(1) p(4) [of "\<lambda>k. k = key"] carried_key [of "closes accts kinds equity layer" tb key] by simp
  have "signed_on (\<lambda>p. p_currency p = c) ps = 0" for c
    using p(1) p(4) [of "\<lambda>k. k_currency k = c"] p(5) [of c] by (simp add: key_of_posting_def)
  moreover have "signed_on (\<lambda>p. p_account p = equity \<and> p_currency p = c) flat = 0" for c
    using p(2) by (intro none) (auto simp: closes_def key_of_posting_def)
  then have "signed_on (\<lambda>p. p_account p = equity \<and> p_currency p = c) ps = signed_on (\<lambda>p. p_currency p = c) legs" for c
    using p(1,3) same [of legs "\<lambda>p. p_account p = equity \<and> p_currency p = c" "\<lambda>p. p_currency p = c"] by simp
  moreover have "\<forall>p\<in>set ps. plain_leg layer p \<and> (closes accts kinds equity layer (key_of_posting p) \<or> p_account p = equity)"
    using p(1-3) by auto
  moreover have "\<forall>key. closes accts kinds equity layer key \<longrightarrow>
      net_of (tb_get_or_zero tb key) + (moved Debit key ps - moved Credit key ps) = 0"
    unfolding moved_signed using flat by blast
  ultimately show ?thesis using p(5) by (simp add: plain_leg_def)
qed

lemma closing_flattens_witness:
  "\<exists>ps. closing_postings (bt_insert (BalanceKey (AccountId 1) EUR Settled) \<lparr>debits = Amount 3, credits = Amount 10\<rparr> bt_empty)
       \<lparr>accounts = [account_new (AccountPath [lit ''E'']) (Date 0), (account_new (AccountPath [lit ''I'']) (Date 0))\<lparr>a_kind := Some Income\<rparr>],
         path_index = bt_empty, child_count = [0, 0]\<rparr> [Income, Expense] (AccountId 0) Settled = Ok ps
     \<and> length ps = 2 \<and> (\<forall>c. signed_on (\<lambda>p. p_currency p = c) ps = 0)"
  (is "\<exists>ps. ?run = Ok ps \<and> _")
proof -
  have "case ?run of Ok ps \<Rightarrow> length ps = 2 | Err _ \<Rightarrow> False" by code_simp
  then obtain ps where ps: "?run = Ok ps" "length ps = 2" by (auto split: sum.splits)
  show ?thesis using ps closing_flattens [OF ps(1)] by blast
qed

end
