(* ===== verification/Period.thy ===== *)
theory Period
  imports Dimensions
begin

text \<open>
  \<^verbatim>\<open>src/period.rs\<close>: accounting periods, their lifecycle, and the calendar with its sealed watermark.
\<close>

datatype period_state = Open | Closing | Sealed

definition accepts_postings :: "period_state \<Rightarrow> bool" where
  "accepts_postings s \<longleftrightarrow> s = Open"

datatype period_id = PeriodId (period_label: label)

instantiation period_id :: linorder
begin

definition less_eq_period_id :: "period_id \<Rightarrow> period_id \<Rightarrow> bool" where
  "less_eq_period_id a b \<longleftrightarrow> period_label a \<le> period_label b"

definition less_period_id :: "period_id \<Rightarrow> period_id \<Rightarrow> bool" where
  "less_period_id a b \<longleftrightarrow> period_label a < period_label b"

instance
  by standard (auto simp: less_eq_period_id_def less_period_id_def period_id.expand)

end

definition period_id_new :: "ustr \<Rightarrow> (dimension_error, period_id) res" where
  "period_id_new s = bindR (label_new s) (\<lambda>l. Ok (PeriodId l))"

definition enc_period_id :: "period_id \<Rightarrow> byte list" where
  "enc_period_id i = enc_label (period_label i)"

datatype ledger_id = LedgerId (ledger_label: label)

definition ledger_id_new :: "ustr \<Rightarrow> (dimension_error, ledger_id) res" where
  "ledger_id_new s = bindR (label_new s) (\<lambda>l. Ok (LedgerId l))"

definition enc_ledger_id :: "ledger_id \<Rightarrow> byte list" where
  "enc_ledger_id i = enc_label (ledger_label i)"

interpretation periodidc: prefix_code enc_period_id "\<lambda>i. valid_label (period_label i)"
  unfolding enc_period_id_def [abs_def]
  by (rule map_prefix_code [OF labelc.prefix_code_axioms]) (auto simp: period_id.expand)

interpretation ledgeridc: prefix_code enc_ledger_id "\<lambda>i. valid_label (ledger_label i)"
  unfolding enc_ledger_id_def [abs_def]
  by (rule map_prefix_code [OF labelc.prefix_code_axioms]) (auto simp: ledger_id.expand)

datatype period_error =
    EndBeforeStart period_id date date
  | Overlap period_id period_id
  | DuplicatePeriod period_id
  | UnknownPeriod period_id
  | InvalidTransition period_id period_state period_state
  | NotClosing period_id period_state
  | SealedOutOfOrder period_id date date
  | UnsealedPredecessor period_id period_id period_state

record period =
  pd_id :: period_id
  pd_start :: date
  pd_end :: date
  pd_state :: period_state

definition period_new :: "period_id \<Rightarrow> date \<Rightarrow> date \<Rightarrow> (period_error, period) res" where
  "period_new i start stop =
     (if stop < start then Err (EndBeforeStart i start stop)
      else Ok \<lparr>pd_id = i, pd_start = start, pd_end = stop, pd_state = Open\<rparr>)"

definition pd_contains :: "period \<Rightarrow> date \<Rightarrow> bool" where
  "pd_contains p d \<longleftrightarrow> d \<ge> pd_start p \<and> d \<le> pd_end p"

definition overlaps :: "period \<Rightarrow> period \<Rightarrow> bool" where
  "overlaps p q \<longleftrightarrow> pd_start p \<le> pd_end q \<and> pd_start q \<le> pd_end p"

section \<open>The calendar\<close>

record calendar =
  periods :: "(period_id, period) btmap"
  by_start :: "(date, period_id) btmap"
  sealed_through :: "date option"

definition calendar_new :: calendar where
  "calendar_new = \<lparr>periods = bt_empty, by_start = bt_empty, sealed_through = None\<rparr>"

definition mark_sealed_through :: "period \<Rightarrow> calendar \<Rightarrow> calendar" where
  "mark_sealed_through p c =
     (if pd_state p = Sealed \<and> (case sealed_through c of None \<Rightarrow> True | Some through \<Rightarrow> pd_end p > through)
      then c\<lparr>sealed_through := Some (pd_end p)\<rparr> else c)"

text \<open>\<^verbatim>\<open>range(..=d).next_back()\<close> and \<^verbatim>\<open>range(d..).next()\<close> of the start index.\<close>

definition start_before :: "calendar \<Rightarrow> date \<Rightarrow> period_id option" where
  "start_before c d = map_option snd (bt_floor (by_start c) d)"

definition start_after :: "calendar \<Rightarrow> date \<Rightarrow> period_id option" where
  "start_after c d = map_option snd (bt_ceiling (by_start c) d)"

definition colliding :: "calendar \<Rightarrow> period \<Rightarrow> period_id option \<Rightarrow> period option" where
  "colliding c p neighbour =
     (case neighbour of
        None \<Rightarrow> None
      | Some i \<Rightarrow> (case bt_get (periods c) i of
          None \<Rightarrow> None
        | Some existing \<Rightarrow> if overlaps existing p then Some existing else None))"

definition cal_define :: "period \<Rightarrow> calendar \<Rightarrow> (period_error, unit) res \<times> calendar" where
  "cal_define p c =
     (if bt_contains (periods c) (pd_id p) then (Err (DuplicatePeriod (pd_id p)), c)
      else case colliding c p (start_before c (pd_start p)) of
        Some existing \<Rightarrow> (Err (Overlap (pd_id p) (pd_id existing)), c)
      | None \<Rightarrow>
          (case colliding c p (start_after c (pd_start p)) of
             Some existing \<Rightarrow> (Err (Overlap (pd_id p) (pd_id existing)), c)
           | None \<Rightarrow>
               let c1 = mark_sealed_through p (c\<lparr>by_start := bt_insert (pd_start p) (pd_id p) (by_start c)\<rparr>) in
               (Ok (), c1\<lparr>periods := bt_insert (pd_id p) p (periods c1)\<rparr>)))"

definition from_periods :: "period list \<Rightarrow> (period_error, calendar) res" where
  "from_periods ps =
     try_fold (\<lambda>c p. case cal_define p c of (res, c') \<Rightarrow> bindR res (\<lambda>_. Ok c')) calendar_new ps"

definition cal_ensure :: "period \<Rightarrow> calendar \<Rightarrow> (period_error, unit) res \<times> calendar" where
  "cal_ensure p c =
     (case bt_get (periods c) (pd_id p) of
        Some existing \<Rightarrow>
          if pd_start existing = pd_start p \<and> pd_end existing = pd_end p
          then let c1 = mark_sealed_through p c in (Ok (), c1\<lparr>periods := bt_insert (pd_id p) p (periods c1)\<rparr>)
          else (Err (DuplicatePeriod (pd_id p)), c)
      | None \<Rightarrow> cal_define p c)"

definition period_on :: "calendar \<Rightarrow> date \<Rightarrow> period option" where
  "period_on c d =
     (case start_before c d of
        None \<Rightarrow> None
      | Some i \<Rightarrow> (case bt_get (periods c) i of
          None \<Rightarrow> None
        | Some p \<Rightarrow> if pd_contains p d then Some p else None))"

definition state_on :: "calendar \<Rightarrow> date \<Rightarrow> period_state" where
  "state_on c d =
     (if (case sealed_through c of None \<Rightarrow> False | Some through \<Rightarrow> d \<le> through) then Sealed
      else case period_on c d of None \<Rightarrow> Open | Some p \<Rightarrow> pd_state p)"

definition cal_accepts :: "calendar \<Rightarrow> date \<Rightarrow> bool" where
  "cal_accepts c d \<longleftrightarrow> accepts_postings (state_on c d)"

definition cal_get :: "calendar \<Rightarrow> period_id \<Rightarrow> period option" where
  "cal_get c i = bt_get (periods c) i"

definition permitted :: "period_state \<Rightarrow> period_state \<Rightarrow> bool" where
  "permitted from to \<longleftrightarrow> (from, to) \<in> {(Open, Closing), (Closing, Sealed), (Closing, Open)}"

definition transition :: "period_id \<Rightarrow> period_state \<Rightarrow> calendar \<Rightarrow> (period_error, unit) res \<times> calendar" where
  "transition i to c =
     (case bt_get (periods c) i of
        None \<Rightarrow> (Err (UnknownPeriod i), c)
      | Some p \<Rightarrow>
          if \<not> permitted (pd_state p) to then (Err (InvalidTransition i (pd_state p) to), c)
          else let p' = p\<lparr>pd_state := to\<rparr> in
            (Ok (), mark_sealed_through p' (c\<lparr>periods := bt_insert i p' (periods c)\<rparr>)))"

definition unsealed_before :: "calendar \<Rightarrow> date \<Rightarrow> period option" where
  "unsealed_before c d =
     find (\<lambda>p. pd_state p \<noteq> Sealed)
       (List.map_filter (\<lambda>(_, i). bt_get (periods c) i) (filter (\<lambda>x. fst x < d) (bt_iter (by_start c))))"

definition check_sealable :: "calendar \<Rightarrow> period_id \<Rightarrow> (period_error, period) res" where
  "check_sealable c i =
     (case bt_get (periods c) i of
        None \<Rightarrow> Err (UnknownPeriod i)
      | Some p \<Rightarrow>
          if pd_state p \<noteq> Closing then Err (NotClosing i (pd_state p))
          else case unsealed_before c (pd_start p) of
            Some blocker \<Rightarrow> Err (UnsealedPredecessor i (pd_id blocker) (pd_state blocker))
          | None \<Rightarrow>
              (case sealed_through c of
                 None \<Rightarrow> Ok p
               | Some through \<Rightarrow> if pd_end p \<le> through then Err (SealedOutOfOrder i (pd_end p) through) else Ok p))"

definition cal_iter :: "calendar \<Rightarrow> period list" where
  "cal_iter c = List.map_filter (bt_get (periods c)) (bt_values (by_start c))"

definition cal_len :: "calendar \<Rightarrow> nat" where
  "cal_len c = bt_len (periods c)"

end
