(* ===== verification/Entry.thy ===== *)
theory Entry
  imports Account Period
begin

text \<open>
  \<^verbatim>\<open>src/entry.rs\<close>: entries, their fields, the draft builders, validation (\<^verbatim>\<open>seal\<close>), content hashes and
  reversals. A draft and a balanced entry are the same data; that an entry is balanced is the fact
  that \<open>entry_seal\<close> or \<open>adopt_verified\<close> returned it.
\<close>

definition max_description_len :: nat where "max_description_len = 512"
definition max_idempotency_key_len :: nat where "max_idempotency_key_len = 128"
definition max_postings :: nat where "max_postings = 32767"

section \<open>Identifiers and bounded fields\<close>

datatype entry_id = EntryId (entry_uuid: u128)

definition enc_uuid :: "u128 \<Rightarrow> byte list" where
  "enc_uuid u = enc_fixed (be_bytes 16 (unat u))"

instantiation entry_id :: linorder
begin

definition less_eq_entry_id :: "entry_id \<Rightarrow> entry_id \<Rightarrow> bool" where
  "less_eq_entry_id a b \<longleftrightarrow> entry_uuid a \<le> entry_uuid b"

definition less_entry_id :: "entry_id \<Rightarrow> entry_id \<Rightarrow> bool" where
  "less_entry_id a b \<longleftrightarrow> entry_uuid a < entry_uuid b"

instance
  by standard (auto simp: less_eq_entry_id_def less_entry_id_def entry_id.expand)

end

datatype entry_field_error =
    EmptyIdempotencyKey
  | IdempotencyKeyTooLong
  | MalformedIdempotencyKey
  | DescriptionTooLong
  | DescriptionControlCharacter

datatype idempotency_key = IdempotencyKey (key_bytes: "byte list")

instantiation idempotency_key :: linorder
begin

definition less_eq_idempotency_key :: "idempotency_key \<Rightarrow> idempotency_key \<Rightarrow> bool" where
  "less_eq_idempotency_key a b \<longleftrightarrow> key_bytes a \<le> key_bytes b"

definition less_idempotency_key :: "idempotency_key \<Rightarrow> idempotency_key \<Rightarrow> bool" where
  "less_idempotency_key a b \<longleftrightarrow> key_bytes a < key_bytes b"

instance
  by standard (auto simp: less_eq_idempotency_key_def less_idempotency_key_def idempotency_key.expand)

end

definition key_new :: "byte list \<Rightarrow> (entry_field_error, idempotency_key) res" where
  "key_new bytes =
     (if bytes = [] then Err EmptyIdempotencyKey
      else if length bytes > max_idempotency_key_len then Err IdempotencyKeyTooLong
      else Ok (IdempotencyKey bytes))"

definition key_to_hex :: "idempotency_key \<Rightarrow> ustr" where
  "key_to_hex k = concat (map hex_byte (key_bytes k))"

definition hex_to_nibble :: "byte \<Rightarrow> (entry_field_error, byte) res" where
  "hex_to_nibble c =
     (if 48 \<le> c \<and> c \<le> 57 then Ok (c - 48)
      else if 97 \<le> c \<and> c \<le> 102 then Ok (c - 97 + 10)
      else if 65 \<le> c \<and> c \<le> 70 then Ok (c - 65 + 10)
      else Err MalformedIdempotencyKey)"

fun nibble_pairs :: "byte list \<Rightarrow> (entry_field_error, byte list) res" where
  "nibble_pairs (hi # lo # rest) =
     bindR (hex_to_nibble hi) (\<lambda>h. bindR (hex_to_nibble lo) (\<lambda>l.
     bindR (nibble_pairs rest) (\<lambda>bs. Ok ((push_bit 4 h OR l) # bs))))"
| "nibble_pairs bs = Ok []"

definition key_parse_hex :: "ustr \<Rightarrow> (entry_field_error, idempotency_key) res" where
  "key_parse_hex s =
     (if odd (length (utf8 s)) then Err MalformedIdempotencyKey
      else bindR (nibble_pairs (utf8 s)) key_new)"

datatype description = Description (description_str: ustr)

definition description_new :: "ustr \<Rightarrow> (entry_field_error, description) res" where
  "description_new s =
     (if length s > max_description_len then Err DescriptionTooLong
      else if list_ex (\<lambda>c. is_control c \<and> c \<noteq> 10) s then Err DescriptionControlCharacter
      else Ok (Description s))"

record provenance =
  actor :: "label option"
  source :: "label option"
  correlation :: "label option"

definition provenance_none :: provenance where
  "provenance_none = \<lparr>actor = None, source = None, correlation = None\<rparr>"

definition with_actor :: "provenance \<Rightarrow> ustr \<Rightarrow> (dimension_error, provenance) res" where
  "with_actor p s = bindR (label_new s) (\<lambda>l. Ok (p\<lparr>actor := Some l\<rparr>))"

definition with_source :: "provenance \<Rightarrow> ustr \<Rightarrow> (dimension_error, provenance) res" where
  "with_source p s = bindR (label_new s) (\<lambda>l. Ok (p\<lparr>source := Some l\<rparr>))"

definition with_correlation :: "provenance \<Rightarrow> ustr \<Rightarrow> (dimension_error, provenance) res" where
  "with_correlation p s = bindR (label_new s) (\<lambda>l. Ok (p\<lparr>correlation := Some l\<rparr>))"

definition enc_provenance :: "provenance \<Rightarrow> byte list" where
  "enc_provenance p =
     enc_option enc_label (actor p) @ enc_option enc_label (source p) @ enc_option enc_label (correlation p)"

record document_ref =
  doc_id :: label
  doc_hash :: "hash option"

definition document_new :: "ustr \<Rightarrow> hash \<Rightarrow> (dimension_error, document_ref) res" where
  "document_new i h = bindR (label_new i) (\<lambda>l. Ok \<lparr>doc_id = l, doc_hash = Some h\<rparr>)"

definition document_unverified :: "ustr \<Rightarrow> (dimension_error, document_ref) res" where
  "document_unverified i = bindR (label_new i) (\<lambda>l. Ok \<lparr>doc_id = l, doc_hash = None\<rparr>)"

definition is_verifiable :: "document_ref \<Rightarrow> bool" where
  "is_verifiable d \<longleftrightarrow> doc_hash d \<noteq> None"

definition enc_document :: "document_ref \<Rightarrow> byte list" where
  "enc_document d = enc_label (doc_id d) @ enc_option (\<lambda>h. enc_fixed (hash_bytes h)) (doc_hash d)"

section \<open>Policy and errors\<close>

datatype currency_policy = Multi | Single currency

record ledger_policy =
  pol_currency :: currency_policy
  required_dimensions :: "label list"
  max_drift_days :: "i64 option"

definition policy_permissive :: ledger_policy where
  "policy_permissive = \<lparr>pol_currency = Multi, required_dimensions = [], max_drift_days = None\<rparr>"

definition in_currency :: "ledger_policy \<Rightarrow> currency \<Rightarrow> ledger_policy" where
  "in_currency p c = p\<lparr>pol_currency := Single c\<rparr>"

definition requiring :: "ledger_policy \<Rightarrow> label \<Rightarrow> ledger_policy" where
  "requiring p axis =
     (if axis \<in> set (required_dimensions p) then p
      else p\<lparr>required_dimensions := required_dimensions p @ [axis]\<rparr>)"

definition with_max_value_date_drift :: "ledger_policy \<Rightarrow> i64 \<Rightarrow> ledger_policy" where
  "with_max_value_date_drift p days = p\<lparr>max_drift_days := Some days\<rparr>"

record seal_context =
  ctx_accounts :: registry
  ctx_calendar :: calendar
  ctx_policy :: ledger_policy

datatype validation_error =
    TooFewPostings nat
  | TooManyPostings nat
  | ZeroAmount nat
  | NegativeAmount nat
  | EntryUnknownAccount nat account_id
  | NonLeafAccount nat account_id
  | AccountNotOpen nat account_id date
  | EntryUnbalanced currency i64 i64 i64 nat
  | ClosedPeriod date period_state
  | CurrencyNotAllowed currency
  | MissingDimension nat label
  | ValueDateDrift date date i64
  | EntryOverflow currency

section \<open>Entries\<close>

record entry =
  e_id :: entry_id
  e_key :: idempotency_key
  booking_date :: date
  value_date :: date
  e_description :: description
  e_postings :: "posting list"
  e_kind :: "label option"
  e_provenance :: provenance
  e_document :: "document_ref option"
  e_reverses :: "entry_id option"
  original_booking_date :: "date option"

definition entry_new :: "entry_id \<Rightarrow> idempotency_key \<Rightarrow> date \<Rightarrow> entry" where
  "entry_new i key d =
     \<lparr>e_id = i, e_key = key, booking_date = d, value_date = d, e_description = Description [],
      e_postings = [], e_kind = None, e_provenance = provenance_none, e_document = None,
      e_reverses = None, original_booking_date = None\<rparr>"

definition post :: "entry \<Rightarrow> posting \<Rightarrow> entry" where
  "post e p = e\<lparr>e_postings := e_postings e @ [p]\<rparr>"

definition entry_debit :: "entry \<Rightarrow> account_id \<Rightarrow> amount \<Rightarrow> currency \<Rightarrow> entry" where
  "entry_debit e a x c = post e (posting_debit a x c)"

definition entry_credit :: "entry \<Rightarrow> account_id \<Rightarrow> amount \<Rightarrow> currency \<Rightarrow> entry" where
  "entry_credit e a x c = post e (posting_credit a x c)"

definition with_value_date :: "entry \<Rightarrow> date \<Rightarrow> entry" where
  "with_value_date e d = e\<lparr>value_date := d\<rparr>"

definition with_description :: "entry \<Rightarrow> description \<Rightarrow> entry" where
  "with_description e d = e\<lparr>e_description := d\<rparr>"

definition entry_with_kind :: "entry \<Rightarrow> label \<Rightarrow> entry" where
  "entry_with_kind e k = e\<lparr>e_kind := Some k\<rparr>"

definition with_provenance :: "entry \<Rightarrow> provenance \<Rightarrow> entry" where
  "with_provenance e p = e\<lparr>e_provenance := p\<rparr>"

definition with_document :: "entry \<Rightarrow> document_ref \<Rightarrow> entry" where
  "with_document e d = e\<lparr>e_document := Some d\<rparr>"

definition reversing :: "entry \<Rightarrow> entry_id \<Rightarrow> date \<Rightarrow> entry" where
  "reversing e original d = e\<lparr>e_reverses := Some original, original_booking_date := Some d\<rparr>"

definition entry_reverse :: "entry \<Rightarrow> entry_id \<Rightarrow> idempotency_key \<Rightarrow> date \<Rightarrow> entry" where
  "entry_reverse e i key d =
     foldl (\<lambda>draft p. post draft (inverted p))
       (reversing (with_description (entry_new i key d) (e_description e)) (e_id e) (booking_date e))
       (e_postings e)"

section \<open>The content hash\<close>

definition enc_entry :: "env \<Rightarrow> entry \<Rightarrow> byte list" where
  "enc_entry E e =
     enc_u8 (of_nat (env_prec E)) @
     enc_bytes (key_bytes (e_key e)) @
     encode_date E (booking_date e) @
     encode_date E (value_date e) @
     enc_str (description_str (e_description e)) @
     enc_seq enc_posting (e_postings e) @
     enc_option enc_label (e_kind e) @
     enc_provenance (e_provenance e) @
     enc_option enc_document (e_document e) @
     enc_option (\<lambda>i. enc_uuid (entry_uuid i)) (e_reverses e) @
     enc_option (encode_date E) (original_booking_date e)"

definition content_hash :: "env \<Rightarrow> entry \<Rightarrow> hash" where
  "content_hash E e = tagged (env_b3 E) tag_entry (enc_entry E e)"

record integrity_error =
  ie_expected :: hash
  ie_actual :: hash

definition adopt_verified :: "env \<Rightarrow> entry \<Rightarrow> hash \<Rightarrow> (integrity_error, entry) res" where
  "adopt_verified E e expected =
     (let actual = content_hash E e in
      if actual = expected then Ok e else Err \<lparr>ie_expected = expected, ie_actual = actual\<rparr>)"

section \<open>Validation\<close>

definition totals_get :: "(currency, balance) btmap \<Rightarrow> currency \<Rightarrow> balance" where
  "totals_get m c = (case bt_get m c of Some b \<Rightarrow> b | None \<Rightarrow> balance_zero)"

definition account_errors :: "seal_context \<Rightarrow> date \<Rightarrow> nat \<Rightarrow> posting \<Rightarrow> validation_error list" where
  "account_errors ctx d i p =
     (case reg_get (ctx_accounts ctx) (p_account p) of
        None \<Rightarrow> [EntryUnknownAccount i (p_account p)]
      | Some a \<Rightarrow>
          (if \<not> is_leaf (ctx_accounts ctx) (p_account p) then [NonLeafAccount i (p_account p)] else []) @
          (if \<not> is_open_on a d then [AccountNotOpen i (p_account p) d] else []))"

definition posting_errors :: "seal_context \<Rightarrow> date \<Rightarrow> nat \<Rightarrow> posting \<Rightarrow> validation_error list" where
  "posting_errors ctx d i p =
     (if is_zero (p_amount p) then [ZeroAmount i] else []) @
     (if is_negative (p_amount p) then [NegativeAmount i] else []) @
     account_errors ctx d i p @
     (case pol_currency (ctx_policy ctx) of
        Single allowed \<Rightarrow> if p_currency p \<noteq> allowed then [CurrencyNotAllowed (p_currency p)] else []
      | Multi \<Rightarrow> []) @
     List.map_filter (\<lambda>axis. if dims_contains (p_dimensions p) (label_str axis) then None else Some (MissingDimension i axis))
       (required_dimensions (ctx_policy ctx))"

text \<open>One turn of the loop over the postings: the errors so far and the totals per currency.\<close>

definition seal_posting :: "seal_context \<Rightarrow> date \<Rightarrow> validation_error list \<times> (currency, balance) btmap \<Rightarrow> nat \<times> posting
    \<Rightarrow> validation_error list \<times> (currency, balance) btmap" where
  "seal_posting ctx d s ip =
     (case (s, ip) of ((errs, totals), (i, p)) \<Rightarrow>
      let b = totals_get totals (p_currency p); errs' = errs @ posting_errors ctx d i p in
      case balance_add b (p_direction p) (p_amount p) of
        Ok b' \<Rightarrow> (errs', bt_insert (p_currency p) b' totals)
      | Err _ \<Rightarrow> (errs' @ [EntryOverflow (p_currency p)], bt_insert (p_currency p) b totals))"

definition i64_saturate :: "int \<Rightarrow> int" where
  "i64_saturate z = max i64_min (min i64_max z)"

definition unbalanced_errors :: "nat \<Rightarrow> (currency, balance) btmap \<Rightarrow> validation_error list" where
  "unbalanced_errors P totals =
     List.map_filter (\<lambda>(c, b). if is_balanced b then None
       else Some (EntryUnbalanced c (to_minor (debits b)) (to_minor (credits b))
                    (word_of_int (i64_saturate (sint (to_minor (debits b)) - sint (to_minor (credits b))))) P))
       (bt_iter totals)"

definition drift_errors :: "ledger_policy \<Rightarrow> date \<Rightarrow> date \<Rightarrow> validation_error list" where
  "drift_errors pol booking val =
     (case max_drift_days pol of
        None \<Rightarrow> []
      | Some max_days \<Rightarrow>
          let drift = i64_saturate \<bar>i64_saturate (julian val - julian booking)\<bar> in
          if drift > sint max_days then [ValueDateDrift booking val max_days] else [])"

definition seal_errors :: "env \<Rightarrow> seal_context \<Rightarrow> entry \<Rightarrow> validation_error list" where
  "seal_errors E ctx e =
     (let n = length (e_postings e);
          (errs, totals) = foldl (seal_posting ctx (booking_date e))
            ((if n < 2 then [TooFewPostings n] else []) @ (if n > max_postings then [TooManyPostings n] else []), bt_empty)
            (enumerate 0 (e_postings e));
          state = state_on (ctx_calendar ctx) (booking_date e) in
      errs @ unbalanced_errors (env_prec E) totals @
      (if \<not> accepts_postings state then [ClosedPeriod (booking_date e) state] else []) @
      drift_errors (ctx_policy ctx) (booking_date e) (value_date e))"

definition entry_seal :: "env \<Rightarrow> seal_context \<Rightarrow> entry \<Rightarrow> (validation_error list, entry) res" where
  "entry_seal E ctx e = (let errs = seal_errors E ctx e in if errs = [] then Ok e else Err errs)"

text \<open>Gross totals per currency of a balanced entry.\<close>

definition entry_totals :: "entry \<Rightarrow> (money_error, (currency, balance) btmap) res" where
  "entry_totals e =
     try_fold (\<lambda>out p. bindR (balance_add (totals_get out (p_currency p)) (p_direction p) (p_amount p))
       (\<lambda>b. Ok (bt_insert (p_currency p) b out))) bt_empty (e_postings e)"

end
