(* ===== verification/Clearing.thy ===== *)
theory Clearing
  imports Entry
begin

text \<open>
  \<^verbatim>\<open>src/clearing.rs\<close>: assigning postings to one another, releasing an assignment, and the open items
  that follow. The trait \<^verbatim>\<open>PostingLookup\<close> is the argument \<open>lookup\<close>.
\<close>

datatype posting_ref = PostingRef (ref_entry: entry_id) (ref_index: u16)

definition ref_tuple :: "posting_ref \<Rightarrow> entry_id \<times> u16" where
  "ref_tuple r = (ref_entry r, ref_index r)"

lemma ref_tuple_inj [simp]: "ref_tuple a = ref_tuple b \<longleftrightarrow> a = b"
  by (cases a; cases b) (simp add: ref_tuple_def)

instantiation posting_ref :: linorder
begin

definition less_eq_posting_ref :: "posting_ref \<Rightarrow> posting_ref \<Rightarrow> bool" where
  "less_eq_posting_ref a b \<longleftrightarrow> ref_tuple a \<le> ref_tuple b"

definition less_posting_ref :: "posting_ref \<Rightarrow> posting_ref \<Rightarrow> bool" where
  "less_posting_ref a b \<longleftrightarrow> ref_tuple a < ref_tuple b"

instance
proof
  fix x y z :: posting_ref
  show "x < y \<longleftrightarrow> x \<le> y \<and> \<not> y \<le> x"
    unfolding less_eq_posting_ref_def less_posting_ref_def by (rule less_le_not_le)
  show "x \<le> x" "x \<le> y \<or> y \<le> x"
    unfolding less_eq_posting_ref_def by (rule order_refl, rule linear)
  show "x \<le> y \<Longrightarrow> y \<le> z \<Longrightarrow> x \<le> z"
    unfolding less_eq_posting_ref_def by (rule order_trans)
  show "x \<le> y \<Longrightarrow> y \<le> x \<Longrightarrow> x = y"
    unfolding less_eq_posting_ref_def by (metis antisym ref_tuple_inj)
qed

end

text \<open>A log index is the \<^verbatim>\<open>u64\<close> position of an entry, read as a natural number.\<close>

type_synonym log_index = nat

record posting_position =
  pos_index :: log_index
  pos_posting :: u16

datatype clearing_id = ClearingId (clearing_uuid: u128)

instantiation clearing_id :: linorder
begin

definition less_eq_clearing_id :: "clearing_id \<Rightarrow> clearing_id \<Rightarrow> bool" where
  "less_eq_clearing_id a b \<longleftrightarrow> clearing_uuid a \<le> clearing_uuid b"

definition less_clearing_id :: "clearing_id \<Rightarrow> clearing_id \<Rightarrow> bool" where
  "less_clearing_id a b \<longleftrightarrow> clearing_uuid a < clearing_uuid b"

instance
  by standard (auto simp: less_eq_clearing_id_def less_clearing_id_def clearing_id.expand)

end

record cleared_item =
  ci_posting :: posting_ref
  ci_applied :: amount

record clearing =
  cl_id :: clearing_id
  cl_account :: account_id
  cl_currency :: currency
  cl_layer :: layer
  cleared_on :: date
  cl_items :: "cleared_item list"

definition clearing_key :: "clearing \<Rightarrow> balance_key" where
  "clearing_key c = BalanceKey (cl_account c) (cl_currency c) (cl_layer c)"

definition clearing_new :: "clearing_id \<Rightarrow> balance_key \<Rightarrow> date \<Rightarrow> clearing" where
  "clearing_new i key on =
     \<lparr>cl_id = i, cl_account = k_account key, cl_currency = k_currency key, cl_layer = k_layer key,
      cleared_on = on, cl_items = []\<rparr>"

definition clearing_apply :: "clearing \<Rightarrow> posting_ref \<Rightarrow> amount \<Rightarrow> clearing" where
  "clearing_apply c r x = c\<lparr>cl_items := cl_items c @ [\<lparr>ci_posting = r, ci_applied = x\<rparr>]\<rparr>"

datatype clearing_error =
    TooFewItems nat
  | DuplicateItem posting_ref
  | UnknownPosting posting_ref
  | WrongAccount posting_ref account_id
  | WrongCurrency posting_ref currency
  | WrongLayer posting_ref layer
  | NonPositiveApplication posting_ref
  | OverApplied posting_ref i64 i64 nat
  | ClearingUnbalanced i64 i64 nat
  | ClearingDuplicateId clearing_id
  | UnknownClearing clearing_id
  | AlreadyReset clearing_id
  | ClearingMoney money_error

datatype clearing_event = Cleared clearing | ResetEvent clearing_id date

record open_item =
  oi_position :: posting_position
  oi_posting :: posting_ref
  oi_direction :: direction
  oi_original :: amount
  oi_applied :: amount
  oi_residual :: amount

record clearing_register =
  cr_events :: "clearing_event list"
  applied :: "(posting_ref, amount) btmap"
  resets :: "(clearing_id, date) btmap"
  cr_by_id :: "(clearing_id, nat) btmap"

definition clearing_register_new :: clearing_register where
  "clearing_register_new = \<lparr>cr_events = [], applied = bt_empty, resets = bt_empty, cr_by_id = bt_empty\<rparr>"

definition applied_to :: "clearing_register \<Rightarrow> posting_ref \<Rightarrow> amount" where
  "applied_to r p = (case bt_get (applied r) p of Some x \<Rightarrow> x | None \<Rightarrow> amount_zero)"

definition residual_of :: "clearing_register \<Rightarrow> posting_ref \<Rightarrow> (posting_ref \<Rightarrow> posting option) \<Rightarrow> (clearing_error, amount) res" where
  "residual_of r p lookup =
     bindR (ok_or (lookup p) (UnknownPosting p)) (\<lambda>found.
     map_err ClearingMoney (checked_sub (p_amount found) (applied_to r p)))"

text \<open>One turn of the loop over the items: the references seen so far and the two sides.\<close>

definition clear_item :: "env \<Rightarrow> clearing_register \<Rightarrow> (posting_ref \<Rightarrow> posting option) \<Rightarrow> clearing
    \<Rightarrow> posting_ref list \<times> balance \<Rightarrow> cleared_item \<Rightarrow> (clearing_error, posting_ref list \<times> balance) res" where
  "clear_item E r lookup c s item =
     (case s of (seen, sides) \<Rightarrow>
      let p = ci_posting item; x = ci_applied item in
      bindR (guardR (p \<notin> set seen) (DuplicateItem p)) (\<lambda>_.
      bindR (guardR (is_positive x) (NonPositiveApplication p)) (\<lambda>_.
      bindR (ok_or (lookup p) (UnknownPosting p)) (\<lambda>q.
      bindR (guardR (p_account q = cl_account c) (WrongAccount p (cl_account c))) (\<lambda>_.
      bindR (guardR (p_currency q = cl_currency c) (WrongCurrency p (cl_currency c))) (\<lambda>_.
      bindR (guardR (p_layer q = cl_layer c) (WrongLayer p (cl_layer c))) (\<lambda>_.
      bindR (map_err ClearingMoney (checked_sub (p_amount q) (applied_to r p))) (\<lambda>residual.
      bindR (guardR (\<not> x > residual) (OverApplied p (to_minor x) (to_minor residual) (env_prec E))) (\<lambda>_.
      bindR (map_err ClearingMoney (balance_add sides (p_direction q) x)) (\<lambda>sides'.
      Ok (seen @ [p], sides')))))))))))"

definition stage :: "(amount \<Rightarrow> amount \<Rightarrow> (money_error, amount) res) \<Rightarrow> clearing_register \<Rightarrow> cleared_item list
    \<Rightarrow> (clearing_error, (posting_ref \<times> amount) list) res" where
  "stage f r items =
     try_map (\<lambda>item. map_err ClearingMoney (bindR (f (applied_to r (ci_posting item)) (ci_applied item))
       (\<lambda>updated. Ok (ci_posting item, updated)))) items"

definition apply_staged :: "clearing_register \<Rightarrow> (posting_ref \<times> amount) list \<Rightarrow> clearing_register" where
  "apply_staged r staged = r\<lparr>applied := foldl (\<lambda>m (p, x). bt_insert p x m) (applied r) staged\<rparr>"

definition clear_register :: "env \<Rightarrow> clearing \<Rightarrow> (posting_ref \<Rightarrow> posting option) \<Rightarrow> clearing_register
    \<Rightarrow> (clearing_error, unit) res \<times> clearing_register" where
  "clear_register E c lookup r =
     (if bt_contains (cr_by_id r) (cl_id c) then (Err (ClearingDuplicateId (cl_id c)), r)
      else if length (cl_items c) < 2 then (Err (TooFewItems (length (cl_items c))), r)
      else case try_fold (clear_item E r lookup c) ([], balance_zero) (cl_items c) of
        Err e \<Rightarrow> (Err e, r)
      | Ok (seen, sides) \<Rightarrow>
          if \<not> is_balanced sides
          then (Err (ClearingUnbalanced (to_minor (debits sides)) (to_minor (credits sides)) (env_prec E)), r)
          else case stage checked_add r (cl_items c) of
            Err e \<Rightarrow> (Err e, r)
          | Ok staged \<Rightarrow>
              let r' = apply_staged r staged in
              (Ok (), r'\<lparr>cr_by_id := bt_insert (cl_id c) (length (cr_events r')) (cr_by_id r'),
                         cr_events := cr_events r' @ [Cleared c]\<rparr>))"

definition reset_register :: "clearing_id \<Rightarrow> date \<Rightarrow> clearing_register \<Rightarrow> (clearing_error, unit) res \<times> clearing_register" where
  "reset_register i on r =
     (case bt_get (cr_by_id r) i of
        None \<Rightarrow> (Err (UnknownClearing i), r)
      | Some k \<Rightarrow>
          if bt_contains (resets r) i then (Err (AlreadyReset i), r)
          else case (if k < length (cr_events r) then Some (cr_events r ! k) else None) of
            Some (Cleared c) \<Rightarrow>
              (case stage checked_sub r (cl_items c) of
                 Err e \<Rightarrow> (Err e, r)
               | Ok staged \<Rightarrow>
                   let r' = apply_staged r staged in
                   (Ok (), r'\<lparr>resets := bt_insert i on (resets r'), cr_events := cr_events r' @ [ResetEvent i on]\<rparr>))
          | _ \<Rightarrow> (Err (UnknownClearing i), r))"

definition is_reset :: "clearing_register \<Rightarrow> clearing_id \<Rightarrow> bool" where
  "is_reset r i \<longleftrightarrow> bt_contains (resets r) i"

definition cr_get :: "clearing_register \<Rightarrow> clearing_id \<Rightarrow> clearing option" where
  "cr_get r i =
     (case bt_get (cr_by_id r) i of
        None \<Rightarrow> None
      | Some k \<Rightarrow> if k < length (cr_events r)
                 then (case cr_events r ! k of Cleared c \<Rightarrow> Some c | ResetEvent _ _ \<Rightarrow> None) else None)"

definition cr_len :: "clearing_register \<Rightarrow> nat" where
  "cr_len r = bt_len (cr_by_id r)"

definition open_item_step :: "clearing_register \<Rightarrow> (posting_ref \<Rightarrow> posting option) \<Rightarrow> open_item list
    \<Rightarrow> posting_position \<times> posting_ref \<Rightarrow> (clearing_error, open_item list) res" where
  "open_item_step r lookup out pr =
     (case pr of (pos, p) \<Rightarrow>
      bindR (ok_or (lookup p) (UnknownPosting p)) (\<lambda>q.
      bindR (map_err ClearingMoney (checked_sub (p_amount q) (applied_to r p))) (\<lambda>residual.
      Ok (if is_positive residual
          then out @ [\<lparr>oi_position = pos, oi_posting = p, oi_direction = p_direction q, oi_original = p_amount q,
                       oi_applied = applied_to r p, oi_residual = residual\<rparr>]
          else out))))"

definition register_open_items :: "clearing_register \<Rightarrow> (posting_position \<times> posting_ref) list \<Rightarrow> (posting_ref \<Rightarrow> posting option)
    \<Rightarrow> (clearing_error, open_item list) res" where
  "register_open_items r candidates lookup = try_fold (open_item_step r lookup) [] candidates"

end
