(* ===== verification/Seal.thy ===== *)
theory Seal
  imports Account Period
begin

text \<open>
  \<^verbatim>\<open>src/seal.rs\<close>: seals, the Merkle commitment to a trial balance, balance proofs and sealed balances,
  and the chain of seals. Sizes and indices are \<^verbatim>\<open>u64\<close> values read as natural numbers.
\<close>

record period_coverage =
  cov_first :: "nat option"
  cov_last :: "nat option"
  cov_count :: nat

definition coverage_empty :: period_coverage where
  "coverage_empty = \<lparr>cov_first = None, cov_last = None, cov_count = 0\<rparr>"

definition coverage_spanning :: "nat \<Rightarrow> nat \<Rightarrow> nat \<Rightarrow> period_coverage" where
  "coverage_spanning first last_index n = \<lparr>cov_first = Some first, cov_last = Some last_index, cov_count = n\<rparr>"

section \<open>The commitment to a trial balance\<close>

definition balance_payload :: "env \<Rightarrow> balance_key \<Rightarrow> balance \<Rightarrow> byte list" where
  "balance_payload E key b =
     enc_u32 (account_index (k_account key)) @
     enc_fixed (currency_bytes (k_currency key)) @
     enc_u8 (layer_discriminant (k_layer key)) @
     enc_u8 (of_nat (env_prec E)) @
     enc_i64 (to_minor (debits b)) @
     enc_i64 (to_minor (credits b))"

definition balance_leaf :: "env \<Rightarrow> balance_key \<Rightarrow> balance \<Rightarrow> hash" where
  "balance_leaf E key b = tagged (env_b3 E) tag_trial_balance (balance_payload E key b)"

record tb_commitment =
  tc_rows :: "(balance_key \<times> balance) list"
  tc_log :: merkle_log

definition commitment_of :: "env \<Rightarrow> trial_balance \<Rightarrow> tb_commitment" where
  "commitment_of E tb =
     (let rows = bt_iter tb in
      \<lparr>tc_rows = rows, tc_log = log_from_leaves (env_b3 E) (map (\<lambda>(k, b). balance_leaf E k b) rows)\<rparr>)"

definition tc_head :: "env \<Rightarrow> tb_commitment \<Rightarrow> tree_head" where
  "tc_head E c = log_head (env_b3 E) (tc_log c)"

definition tc_root :: "env \<Rightarrow> tb_commitment \<Rightarrow> hash" where
  "tc_root E c = log_root (env_b3 E) (tc_log c)"

definition tc_len :: "tb_commitment \<Rightarrow> nat" where
  "tc_len c = length (tc_rows c)"

definition trial_balance_head :: "env \<Rightarrow> trial_balance \<Rightarrow> tree_head" where
  "trial_balance_head E tb = tc_head E (commitment_of E tb)"

record balance_proof =
  bp_key :: balance_key
  bp_balance :: balance
  bp_proof :: inclusion_proof

fun position :: "('a \<Rightarrow> bool) \<Rightarrow> 'a list \<Rightarrow> nat option" where
  "position P [] = None"
| "position P (x # xs) = (if P x then Some 0 else map_option Suc (position P xs))"

definition tc_prove :: "env \<Rightarrow> tb_commitment \<Rightarrow> balance_key \<Rightarrow> balance_proof option" where
  "tc_prove E c key =
     (case position (\<lambda>(k, _). k = key) (tc_rows c) of
        None \<Rightarrow> None
      | Some i \<Rightarrow>
          (case tc_rows c ! i of (k, b) \<Rightarrow>
           (case log_inclusion_proof (env_b3 E) (tc_log c) i of
              Err _ \<Rightarrow> None
            | Ok pf \<Rightarrow> Some \<lparr>bp_key = k, bp_balance = b, bp_proof = pf\<rparr>)))"

definition tc_prove_all :: "env \<Rightarrow> tb_commitment \<Rightarrow> (proof_error, balance_proof list) res" where
  "tc_prove_all E c =
     try_map (\<lambda>(i, (k, b)). bindR (log_inclusion_proof (env_b3 E) (tc_log c) i)
       (\<lambda>pf. Ok \<lparr>bp_key = k, bp_balance = b, bp_proof = pf\<rparr>)) (enumerate 0 (tc_rows c))"

definition balance_verify :: "env \<Rightarrow> balance_proof \<Rightarrow> tree_head \<Rightarrow> bool" where
  "balance_verify E p head = inclusion_verify (env_b3 E) (bp_proof p) (balance_leaf E (bp_key p) (bp_balance p)) head"

section \<open>Seals\<close>

record seal =
  sl_ledger :: ledger_id
  sl_period :: period_id
  sl_first :: "nat option"
  sl_last :: "nat option"
  sl_count :: nat
  sl_tree_head :: tree_head
  sl_trial_balance :: tree_head
  sl_accounts :: tree_head
  sl_prev :: "hash option"
  sl_hash :: hash

definition enc_head :: "tree_head \<Rightarrow> byte list" where
  "enc_head h = enc_u64 (of_nat (th_size h)) @ enc_fixed (hash_bytes (th_root h))"

definition enc_seal :: "seal \<Rightarrow> byte list" where
  "enc_seal s =
     enc_ledger_id (sl_ledger s) @
     enc_period_id (sl_period s) @
     enc_option (\<lambda>i. enc_u64 (of_nat i)) (sl_first s) @
     enc_option (\<lambda>i. enc_u64 (of_nat i)) (sl_last s) @
     enc_u64 (of_nat (sl_count s)) @
     enc_head (sl_tree_head s) @
     enc_head (sl_trial_balance s) @
     enc_head (sl_accounts s) @
     enc_option (\<lambda>h. enc_fixed (hash_bytes h)) (sl_prev s)"

definition compute_hash :: "blake3 \<Rightarrow> seal \<Rightarrow> hash" where
  "compute_hash b3 s = tagged b3 tag_seal (enc_seal s)"

definition seal_build :: "env \<Rightarrow> ledger_id \<Rightarrow> period_id \<Rightarrow> period_coverage \<Rightarrow> tree_head \<Rightarrow> trial_balance \<Rightarrow> tree_head
    \<Rightarrow> hash option \<Rightarrow> seal" where
  "seal_build E ledger period coverage head tb accts prev =
     (let s = \<lparr>sl_ledger = ledger, sl_period = period, sl_first = cov_first coverage, sl_last = cov_last coverage,
               sl_count = cov_count coverage, sl_tree_head = head, sl_trial_balance = trial_balance_head E tb,
               sl_accounts = accts, sl_prev = prev, sl_hash = hash_from_bytes (replicate 32 0)\<rparr> in
      s\<lparr>sl_hash := compute_hash (env_b3 E) s\<rparr>)"

definition is_self_consistent :: "blake3 \<Rightarrow> seal \<Rightarrow> bool" where
  "is_self_consistent b3 s \<longleftrightarrow> compute_hash b3 s = sl_hash s"

definition index_span :: "seal \<Rightarrow> (nat \<times> nat) option" where
  "index_span s =
     (case (sl_first s, sl_last s) of
        (Some f, Some l) \<Rightarrow> if l \<ge> f then Some (f, l) else None
      | _ \<Rightarrow> None)"

definition verify_against :: "env \<Rightarrow> balance_proof \<Rightarrow> seal \<Rightarrow> bool" where
  "verify_against E p s \<longleftrightarrow> is_self_consistent (env_b3 E) s \<and> balance_verify E p (sl_trial_balance s)"

definition verify_naming :: "env \<Rightarrow> balance_proof \<Rightarrow> account_binding_proof \<Rightarrow> seal \<Rightarrow> bool" where
  "verify_naming E p binding s \<longleftrightarrow>
     verify_against E p s \<and> b_id binding = k_account (bp_key p) \<and> binding_verify (env_b3 E) binding (sl_accounts s)"

section \<open>Sealed balances\<close>

record sealed_balance =
  sb_seal :: seal
  sb_balance :: balance_proof
  sb_binding :: account_binding_proof

datatype sealed_balance_outcome = Proven sealed_balance | NoRow | NotYetRegistered

datatype sealed_balance_error =
    NotSealed period_id
  | UndefinedPeriod period_id
  | Restated period_id
  | RegistryMismatch period_id

definition proven :: "sealed_balance_outcome \<Rightarrow> sealed_balance option" where
  "proven out = (case out of Proven b \<Rightarrow> Some b | _ \<Rightarrow> None)"

definition is_absent :: "sealed_balance_outcome \<Rightarrow> bool" where
  "is_absent out \<longleftrightarrow> (case out of Proven _ \<Rightarrow> False | _ \<Rightarrow> True)"

definition assemble :: "env \<Rightarrow> seal \<Rightarrow> trial_balance \<Rightarrow> registry \<Rightarrow> balance_key
    \<Rightarrow> (sealed_balance_error, sealed_balance_outcome) res" where
  "assemble E s closing accts key =
     (let commitment = commitment_of E closing in
      if tc_head E commitment \<noteq> sl_trial_balance s then Err (Restated (sl_period s))
      else case prove_binding_at (env_b3 E) accts (k_account key) (th_size (sl_accounts s)) of
        None \<Rightarrow> Ok NotYetRegistered
      | Some binding \<Rightarrow>
          if \<not> binding_verify (env_b3 E) binding (sl_accounts s) then Err (RegistryMismatch (sl_period s))
          else Ok (case tc_prove E commitment key of
                     Some b \<Rightarrow> Proven \<lparr>sb_seal = s, sb_balance = b, sb_binding = binding\<rparr>
                   | None \<Rightarrow> NoRow))"

definition sealed_balance_verify :: "env \<Rightarrow> sealed_balance \<Rightarrow> bool" where
  "sealed_balance_verify E b = verify_naming E (sb_balance b) (sb_binding b) (sb_seal b)"

definition sealed_path :: "sealed_balance \<Rightarrow> account_path" where
  "sealed_path b = b_path (sb_binding b)"

section \<open>The chain\<close>

datatype seal_chain_error =
    Tampered period_id
  | BrokenChain period_id
  | ForeignLedger period_id ledger_id ledger_id
  | ChainDuplicatePeriod period_id
  | MisplacedGenesis period_id
  | NonMonotonic period_id
  | ShrunkenRegistry period_id nat nat

record seal_chain =
  ch_ledger :: ledger_id
  ch_seals :: "seal list"
  ch_periods :: "period_id set"

definition chain_new :: "ledger_id \<Rightarrow> seal_chain" where
  "chain_new ledger = \<lparr>ch_ledger = ledger, ch_seals = [], ch_periods = {}\<rparr>"

definition last_seal :: "seal list \<Rightarrow> seal option" where
  "last_seal ss = (if ss = [] then None else Some (last ss))"

definition chain_head :: "seal_chain \<Rightarrow> hash option" where
  "chain_head c = map_option sl_hash (last_seal (ch_seals c))"

definition check_link :: "blake3 \<Rightarrow> ledger_id \<Rightarrow> period_id set \<Rightarrow> seal option \<Rightarrow> seal \<Rightarrow> (seal_chain_error, unit) res" where
  "check_link b3 ledger seen previous s =
     (if \<not> is_self_consistent b3 s then Err (Tampered (sl_period s))
      else if sl_ledger s \<noteq> ledger then Err (ForeignLedger (sl_period s) ledger (sl_ledger s))
      else if sl_period s \<in> seen then Err (ChainDuplicatePeriod (sl_period s))
      else case (previous, sl_prev s) of
        (None, None) \<Rightarrow> Ok ()
      | (Some prev, Some reference) \<Rightarrow>
          if sl_hash prev \<noteq> reference then Err (BrokenChain (sl_period s))
          else if th_size (sl_tree_head s) < th_size (sl_tree_head prev) then Err (NonMonotonic (sl_period s))
          else if th_size (sl_accounts s) < th_size (sl_accounts prev)
          then Err (ShrunkenRegistry (sl_period s) (th_size (sl_accounts prev)) (th_size (sl_accounts s)))
          else Ok ()
      | _ \<Rightarrow> Err (MisplacedGenesis (sl_period s)))"

definition chain_push :: "blake3 \<Rightarrow> seal \<Rightarrow> seal_chain \<Rightarrow> (seal_chain_error, unit) res \<times> seal_chain" where
  "chain_push b3 s c =
     (case check_link b3 (ch_ledger c) (ch_periods c) (last_seal (ch_seals c)) s of
        Err e \<Rightarrow> (Err e, c)
      | Ok _ \<Rightarrow> (Ok (), c\<lparr>ch_periods := insert (sl_period s) (ch_periods c), ch_seals := ch_seals c @ [s]\<rparr>))"

definition from_seals :: "blake3 \<Rightarrow> ledger_id \<Rightarrow> seal list \<Rightarrow> (seal_chain_error, seal_chain) res" where
  "from_seals b3 ledger ss =
     try_fold (\<lambda>c s. case chain_push b3 s c of (res, c') \<Rightarrow> bindR res (\<lambda>_. Ok c')) (chain_new ledger) ss"

definition chain_verify :: "blake3 \<Rightarrow> seal_chain \<Rightarrow> (seal_chain_error, unit) res" where
  "chain_verify b3 c =
     bindR (try_fold (\<lambda>(seen, previous) s.
         bindR (check_link b3 (ch_ledger c) seen previous s) (\<lambda>_. Ok (insert (sl_period s) seen, Some s)))
       ({}, None) (ch_seals c)) (\<lambda>_. Ok ())"

definition chain_get :: "seal_chain \<Rightarrow> period_id \<Rightarrow> seal option" where
  "chain_get c i = find (\<lambda>s. sl_period s = i) (ch_seals c)"

end
