(* ===== verification/Checkpoint.thy ===== *)
theory Checkpoint
  imports Balance Merkle
begin

text \<open>\<^verbatim>\<open>src/checkpoint.rs\<close>: checkpoints over a prefix of the log and balance assertions.\<close>

record checkpoint =
  cp_key :: balance_key
  cp_balance :: balance
  cp_tree_head :: tree_head

definition checkpoint_new :: "balance_key \<Rightarrow> balance \<Rightarrow> tree_head \<Rightarrow> checkpoint" where
  "checkpoint_new key b head = \<lparr>cp_key = key, cp_balance = b, cp_tree_head = head\<rparr>"

definition cp_size :: "checkpoint \<Rightarrow> nat" where
  "cp_size c = th_size (cp_tree_head c)"

definition matches_head :: "checkpoint \<Rightarrow> tree_head \<Rightarrow> bool" where
  "matches_head c head \<longleftrightarrow> cp_tree_head c = head"

datatype checkpoint_error = BalanceMismatch | CpSizeOutOfRange nat | HeadMismatch | CheckpointMoney money_error

datatype assert_at = Now | Prefix nat | OnDate date

record balance_assertion =
  as_key :: balance_key
  as_at :: assert_at
  as_expected :: amount

definition assert_net :: "balance_key \<Rightarrow> amount \<Rightarrow> balance_assertion" where
  "assert_net key expected = \<lparr>as_key = key, as_at = Now, as_expected = expected\<rparr>"

definition assert_on_side :: "balance_key \<Rightarrow> direction \<Rightarrow> amount \<Rightarrow> (money_error, balance_assertion) res" where
  "assert_on_side key d magnitude =
     bindR (case d of Debit \<Rightarrow> Ok magnitude | Credit \<Rightarrow> checked_neg magnitude) (\<lambda>x. Ok (assert_net key x))"

definition over_prefix :: "balance_assertion \<Rightarrow> nat \<Rightarrow> balance_assertion" where
  "over_prefix a n = a\<lparr>as_at := Prefix n\<rparr>"

definition assert_on_date :: "balance_assertion \<Rightarrow> date \<Rightarrow> balance_assertion" where
  "assert_on_date a d = a\<lparr>as_at := OnDate d\<rparr>"

datatype assertion_outcome = Held balance | Failed amount amount amount

definition held :: "assertion_outcome \<Rightarrow> bool" where
  "held out \<longleftrightarrow> (case out of Held _ \<Rightarrow> True | Failed _ _ _ \<Rightarrow> False)"

definition assertion_check :: "balance_assertion \<Rightarrow> balance \<Rightarrow> (money_error, assertion_outcome) res" where
  "assertion_check a actual =
     bindR (signed_net actual) (\<lambda>net.
       if net = as_expected a then Ok (Held actual)
       else bindR (checked_sub net (as_expected a)) (\<lambda>diff. Ok (Failed (as_expected a) net diff)))"

end
