(* ===== verification/Journal.thy ===== *)
theory Journal
  imports Entry Clearing Seal Checkpoint
begin

text \<open>
  \<^verbatim>\<open>src/journal.rs\<close>: the journal, one ledger's books. The entries in log order are the data; the log,
  the indexes, the balances and the posting sites are derived state kept beside them. An operation
  returns its result and the journal it leaves. Log positions and sizes are natural numbers.
\<close>

section \<open>State and errors\<close>

record site =
  site_index :: log_index
  site_posting :: u16

record journal =
  j_ledger :: ledger_id
  j_accounts :: registry
  j_calendar :: calendar
  j_policy :: ledger_policy
  j_entries :: "entry list"
  j_log :: merkle_log
  j_by_id :: "(entry_id, log_index) btmap"
  j_by_key :: "(idempotency_key, entry_id \<times> log_index \<times> hash) btmap"
  reversed_by :: "(entry_id, entry_id) btmap"
  balances :: trial_balance
  sites :: "(balance_key, site list) btmap"
  j_seals :: seal_chain
  clearings :: clearing_register

datatype journal_error =
    Invalid "validation_error list"
  | IdempotencyConflict entry_id hash hash
  | DuplicateId entry_id
  | UnknownOriginal entry_id
  | AlreadyReversed entry_id entry_id
  | ReversalOfReversal entry_id
  | NotAnInversion entry_id
  | LimitBreached account_id currency layer balance_limit i64 nat
  | JournalMoney money_error
  | JournalClearing clearing_error
  | JournalPeriod period_error
  | JournalSeal seal_chain_error
  | JournalSealedBalance sealed_balance_error

record recorded_entry =
  rec_id :: entry_id
  rec_index :: "log_index option"
  rec_hash :: hash
  rec_new :: bool

definition require_index :: "recorded_entry \<Rightarrow> (entry_id, log_index) res" where
  "require_index r = ok_or (rec_index r) (rec_id r)"

definition journal_new :: "ledger_id \<Rightarrow> journal" where
  "journal_new ledger =
     \<lparr>j_ledger = ledger, j_accounts = registry_new, j_calendar = calendar_new, j_policy = policy_permissive,
      j_entries = [], j_log = log_new, j_by_id = bt_empty, j_by_key = bt_empty, reversed_by = bt_empty,
      balances = bt_empty, sites = bt_empty, j_seals = chain_new ledger, clearings = clearing_register_new\<rparr>"

definition with_policy :: "ledger_policy \<Rightarrow> journal \<Rightarrow> journal" where
  "with_policy policy j = j\<lparr>j_policy := policy\<rparr>"

definition define_period :: "period \<Rightarrow> journal \<Rightarrow> (journal_error, unit) res \<times> journal" where
  "define_period p j =
     (case cal_define p (j_calendar j) of (res, c) \<Rightarrow> (map_err JournalPeriod res, j\<lparr>j_calendar := c\<rparr>))"

definition transition_period :: "period_id \<Rightarrow> period_state \<Rightarrow> journal \<Rightarrow> (journal_error, unit) res \<times> journal" where
  "transition_period i state j =
     (case transition i state (j_calendar j) of (res, c) \<Rightarrow> (map_err JournalPeriod res, j\<lparr>j_calendar := c\<rparr>))"

definition journal_context :: "journal \<Rightarrow> seal_context" where
  "journal_context j = \<lparr>ctx_accounts = j_accounts j, ctx_calendar = j_calendar j, ctx_policy = j_policy j\<rparr>"

section \<open>Reading entries\<close>

definition entry_at :: "journal \<Rightarrow> log_index \<Rightarrow> entry option" where
  "entry_at j i = (if i < length (j_entries j) then Some (j_entries j ! i) else None)"

definition entry_get :: "journal \<Rightarrow> entry_id \<Rightarrow> entry option" where
  "entry_get j i = Option.bind (bt_get (j_by_id j) i) (entry_at j)"

definition index_of :: "journal \<Rightarrow> entry_id \<Rightarrow> log_index option" where
  "index_of j i = bt_get (j_by_id j) i"

definition reversal_of :: "journal \<Rightarrow> entry_id \<Rightarrow> entry_id option" where
  "reversal_of j i = bt_get (reversed_by j) i"

definition sites_of :: "journal \<Rightarrow> balance_key \<Rightarrow> site list" where
  "sites_of j key = (case bt_get (sites j) key of None \<Rightarrow> [] | Some ss \<Rightarrow> ss)"

definition posting_at :: "entry \<Rightarrow> u16 \<Rightarrow> posting option" where
  "posting_at e k = (if unat k < length (e_postings e) then Some (e_postings e ! unat k) else None)"

definition resolve :: "journal \<Rightarrow> site \<Rightarrow> (entry \<times> posting) option" where
  "resolve j s =
     Option.bind (entry_at j (site_index s)) (\<lambda>e. map_option (\<lambda>p. (e, p)) (posting_at e (site_posting s)))"

definition postings_on_prefix :: "journal \<Rightarrow> balance_key \<Rightarrow> nat option \<Rightarrow> posting list" where
  "postings_on_prefix j key n =
     List.map_filter (\<lambda>s. map_option snd (resolve j s))
       (takeWhile (\<lambda>s. case n of None \<Rightarrow> True | Some m \<Rightarrow> site_index s < m) (sites_of j key))"

definition postings_on :: "journal \<Rightarrow> balance_key \<Rightarrow> posting_ref list" where
  "postings_on j key =
     List.map_filter (\<lambda>s. map_option (\<lambda>e. PostingRef (e_id e) (site_posting s)) (entry_at j (site_index s))) (sites_of j key)"

text \<open>\<^verbatim>\<open>PostingIndex\<close>, the lookup the clearing register reads postings through.\<close>

definition journal_posting :: "journal \<Rightarrow> posting_ref \<Rightarrow> posting option" where
  "journal_posting j r =
     Option.bind (bt_get (j_by_id j) (ref_entry r)) (\<lambda>i.
     Option.bind (entry_at j i) (\<lambda>e. posting_at e (ref_index r)))"

section \<open>Folding postings\<close>

definition apply_postings :: "trial_balance \<Rightarrow> posting list \<Rightarrow> (money_error, trial_balance) res" where
  "apply_postings tb ps = try_fold (\<lambda>t p. case tb_apply t p of (res, t') \<Rightarrow> bindR res (\<lambda>_. Ok t')) tb ps"

definition fold_balance :: "balance \<Rightarrow> posting list \<Rightarrow> (money_error, balance) res" where
  "fold_balance b ps = try_fold (\<lambda>acc p. balance_add acc (p_direction p) (p_amount p)) b ps"

definition all_postings :: "entry list \<Rightarrow> posting list" where
  "all_postings es = concat (map e_postings es)"

section \<open>Recording\<close>

definition is_inversion_of :: "entry \<Rightarrow> entry \<Rightarrow> bool" where
  "is_inversion_of original candidate \<longleftrightarrow>
     (let a = e_postings original; b = e_postings candidate in
      length a = length b
      \<and> list_all (\<lambda>(o', r). p_account r = p_account o' \<and> p_amount r = p_amount o' \<and> p_currency r = p_currency o'
          \<and> p_layer r = p_layer o' \<and> p_dimensions r = p_dimensions o' \<and> p_direction r = dir_inverse (p_direction o')) (zip a b))"

definition check_reversal :: "journal \<Rightarrow> entry \<Rightarrow> entry_id \<Rightarrow> (journal_error, unit) res" where
  "check_reversal j e original =
     (case entry_get j original of
        None \<Rightarrow> Err (UnknownOriginal original)
      | Some target \<Rightarrow>
          (case bt_get (reversed_by j) original of
             Some existing \<Rightarrow> Err (AlreadyReversed original existing)
           | None \<Rightarrow>
               if e_reverses target \<noteq> None then Err (ReversalOfReversal original)
               else if \<not> is_inversion_of target e then Err (NotAnInversion original)
               else Ok ()))"

definition check_limit :: "env \<Rightarrow> journal \<Rightarrow> trial_balance \<Rightarrow> balance_key \<Rightarrow> (journal_error, unit) res" where
  "check_limit E j after key =
     (let limit = limit_of (j_accounts j) (k_account key) in
      if is_unlimited limit then Ok ()
      else let b = tb_get_or_zero after key in
        if permits limit b then Ok ()
        else Err (LimitBreached (k_account key) (k_currency key) (k_layer key) limit
               (case signed_net b of Ok n \<Rightarrow> to_minor n | Err _ \<Rightarrow> 0) (env_prec E)))"

definition check_limits :: "env \<Rightarrow> journal \<Rightarrow> entry \<Rightarrow> trial_balance \<Rightarrow> (journal_error, unit) res" where
  "check_limits E j e after =
     bindR (try_fold (\<lambda>seen p.
         let key = key_of_posting p in
         if key \<in> set seen then Ok seen else bindR (check_limit E j after key) (\<lambda>_. Ok (key # seen)))
       [] (e_postings e)) (\<lambda>_. Ok ())"

definition site_number :: "nat \<Rightarrow> u16" where
  "site_number k = (if k \<le> 65535 then of_nat k else 65535)"

definition add_site :: "log_index \<Rightarrow> (balance_key, site list) btmap \<Rightarrow> nat \<times> posting \<Rightarrow> (balance_key, site list) btmap" where
  "add_site i m kp =
     (case kp of (k, p) \<Rightarrow>
      let key = key_of_posting p; old = (case bt_get m key of None \<Rightarrow> [] | Some ss \<Rightarrow> ss) in
      bt_insert key (old @ [\<lparr>site_index = i, site_posting = site_number k\<rparr>]) m)"

definition append_entry :: "env \<Rightarrow> entry \<Rightarrow> trial_balance \<Rightarrow> journal \<Rightarrow> log_index \<times> journal" where
  "append_entry E e after j =
     (case log_append (env_b3 E) (j_log j) (content_hash E e) of (i, lg) \<Rightarrow>
      (i, j\<lparr>j_log := lg,
            reversed_by := (case e_reverses e of None \<Rightarrow> reversed_by j | Some original \<Rightarrow> bt_insert original (e_id e) (reversed_by j)),
            sites := foldl (add_site i) (sites j) (enumerate 0 (e_postings e)),
            balances := after,
            j_by_id := bt_insert (e_id e) i (j_by_id j),
            j_by_key := bt_insert (e_key e) (e_id e, i, content_hash E e) (j_by_key j),
            j_entries := j_entries j @ [e]\<rparr>))"

text \<open>What an idempotency key that has been seen answers, for the content hash submitted.\<close>

definition replay :: "entry_id \<times> log_index \<times> hash \<Rightarrow> hash \<Rightarrow> (journal_error, recorded_entry) res" where
  "replay found h =
     (case found of (existing, i, stored) \<Rightarrow>
      if stored = h then Ok \<lparr>rec_id = existing, rec_index = Some i, rec_hash = h, rec_new = False\<rparr>
      else Err (IdempotencyConflict existing stored h))"

definition record_validated :: "env \<Rightarrow> entry \<Rightarrow> journal \<Rightarrow> (journal_error, recorded_entry) res \<times> journal" where
  "record_validated E e j =
     (let h = content_hash E e in
      case bt_get (j_by_key j) (e_key e) of
        Some found \<Rightarrow> (replay found h, j)
      | None \<Rightarrow>
          if bt_contains (j_by_id j) (e_id e) then (Err (DuplicateId (e_id e)), j)
          else case (case e_reverses e of None \<Rightarrow> Ok () | Some original \<Rightarrow> check_reversal j e original) of
            Err x \<Rightarrow> (Err x, j)
          | Ok _ \<Rightarrow>
              (case apply_postings (balances j) (e_postings e) of
                 Err x \<Rightarrow> (Err (JournalMoney x), j)
               | Ok after \<Rightarrow>
                   (case check_limits E j e after of
                      Err x \<Rightarrow> (Err x, j)
                    | Ok _ \<Rightarrow>
                        (case append_entry E e after j of (i, j') \<Rightarrow>
                         (Ok \<lparr>rec_id = e_id e, rec_index = Some i, rec_hash = h, rec_new = True\<rparr>, j')))))"

definition record_draft :: "env \<Rightarrow> entry \<Rightarrow> journal \<Rightarrow> (journal_error, recorded_entry) res \<times> journal" where
  "record_draft E draft j =
     (case bt_get (j_by_key j) (e_key draft) of
        Some found \<Rightarrow> (replay found (content_hash E draft), j)
      | None \<Rightarrow>
          (case entry_seal E (journal_context j) draft of
             Err errs \<Rightarrow> (Err (Invalid errs), j)
           | Ok e \<Rightarrow> record_validated E e j))"

section \<open>Rolling back\<close>

definition undo_sites :: "log_index \<Rightarrow> (balance_key, site list) btmap \<times> (balance_key, unit) btmap \<Rightarrow> posting
    \<Rightarrow> (balance_key, site list) btmap \<times> (balance_key, unit) btmap" where
  "undo_sites i st p =
     (case st of (m, touched) \<Rightarrow>
      let key = key_of_posting p in
      ((case bt_get m key of None \<Rightarrow> m | Some ss \<Rightarrow> bt_insert key (filter (\<lambda>s. site_index s \<noteq> i) ss) m),
       bt_insert key () touched))"

definition undo_last :: "journal \<Rightarrow> (balance_key, unit) btmap \<Rightarrow> journal \<times> (balance_key, unit) btmap" where
  "undo_last j touched =
     (let e = last (j_entries j); rest = butlast (j_entries j); i = length rest;
          (ss, touched') = foldl (undo_sites i) (sites j, touched) (e_postings e) in
      (j\<lparr>j_entries := rest,
         j_by_id := bt_remove (e_id e) (j_by_id j),
         j_by_key := bt_remove (e_key e) (j_by_key j),
         reversed_by := (case e_reverses e of None \<Rightarrow> reversed_by j | Some original \<Rightarrow> bt_remove original (reversed_by j)),
         sites := ss\<rparr>, touched'))"

lemma undo_last_entries [simp]: "j_entries (fst (undo_last j touched)) = butlast (j_entries j)"
  by (simp add: undo_last_def Let_def split: prod.splits)

function undo_loop :: "nat \<Rightarrow> journal \<times> (balance_key, unit) btmap \<Rightarrow> journal \<times> (balance_key, unit) btmap" where
  "undo_loop mark st =
     (if length (j_entries (fst st)) > mark then undo_loop mark (undo_last (fst st) (snd st)) else st)"
  by pat_completeness auto

termination
  by (relation "measure (\<lambda>(mark, st). length (j_entries (fst st)))") auto

declare undo_loop.simps [simp del]

definition restore_key :: "journal \<Rightarrow> balance_key \<Rightarrow> journal" where
  "restore_key j key =
     (let b = (case fold_balance balance_zero (postings_on_prefix j key None) of Ok b \<Rightarrow> b | Err _ \<Rightarrow> balance_zero) in
      if sites_of j key \<noteq> [] then j\<lparr>balances := tb_set (balances j) key b\<rparr>
      else j\<lparr>sites := bt_remove key (sites j), balances := snd (tb_remove (balances j) key)\<rparr>)"

definition rollback_to :: "env \<Rightarrow> nat \<Rightarrow> journal \<Rightarrow> journal" where
  "rollback_to E mark j =
     (case undo_loop mark (j, bt_empty) of (j1, touched) \<Rightarrow>
      let j2 = j1\<lparr>j_log := log_truncate (env_b3 E) (j_log j1) (length (j_entries j1))\<rparr> in
      foldl restore_key j2 (bt_keys touched))"

fun record_all :: "env \<Rightarrow> nat \<Rightarrow> recorded_entry list \<Rightarrow> entry list \<Rightarrow> journal
    \<Rightarrow> (journal_error, recorded_entry list) res \<times> journal" where
  "record_all E mark out [] j = (Ok out, j)"
| "record_all E mark out (e # es) j =
     (case record_validated E e j of
        (Ok r, j') \<Rightarrow> record_all E mark (out @ [r]) es j'
      | (Err x, j') \<Rightarrow> (Err x, rollback_to E mark j'))"

definition record_batch :: "env \<Rightarrow> entry list \<Rightarrow> journal \<Rightarrow> (journal_error, recorded_entry list) res \<times> journal" where
  "record_batch E es j = record_all E (length (j_entries j)) [] es j"

section \<open>Balances\<close>

definition trial_balance_at :: "journal \<Rightarrow> nat option \<Rightarrow> (money_error, trial_balance) res" where
  "trial_balance_at j n =
     (case n of
        None \<Rightarrow> Ok (balances j)
      | Some m \<Rightarrow> if m \<ge> length (j_entries j) then Ok (balances j)
                  else apply_postings bt_empty (all_postings (take m (j_entries j))))"

definition balance_at :: "journal \<Rightarrow> balance_key \<Rightarrow> nat option \<Rightarrow> (money_error, balance) res" where
  "balance_at j key n =
     (case n of
        None \<Rightarrow> Ok (tb_get_or_zero (balances j) key)
      | Some m \<Rightarrow> fold_balance balance_zero (postings_on_prefix j key (Some m)))"

definition balance_on_date :: "journal \<Rightarrow> balance_key \<Rightarrow> date \<Rightarrow> (money_error, balance) res" where
  "balance_on_date j key end_day =
     fold_balance balance_zero
       (map snd (filter (\<lambda>(e, p). booking_date e \<le> end_day) (List.map_filter (resolve j) (sites_of j key))))"

fun all_balanced :: "trial_balance \<Rightarrow> (currency \<times> layer) list \<Rightarrow> (money_error, bool) res" where
  "all_balanced tb [] = Ok True"
| "all_balanced tb ((c, l) # rest) =
     bindR (tb_totals tb c l) (\<lambda>b. if is_balanced b then all_balanced tb rest else Ok False)"

definition verify_balanced :: "journal \<Rightarrow> (money_error, bool) res" where
  "verify_balanced j = all_balanced (balances j) (List.product (tb_currencies (balances j)) [Settled, Pending])"

definition verify_balances :: "journal \<Rightarrow> (money_error, bool) res" where
  "verify_balances j =
     bindR (apply_postings bt_empty (all_postings (j_entries j))) (\<lambda>tb. Ok (tb = balances j))"

definition trial_balance_through_date :: "journal \<Rightarrow> date \<Rightarrow> (money_error, trial_balance) res" where
  "trial_balance_through_date j end_day =
     apply_postings bt_empty (all_postings (filter (\<lambda>e. booking_date e \<le> end_day) (j_entries j)))"

end
