(* ===== verification/Journal_Sites.thy ===== *)
theory Journal_Sites
  imports Journal
begin

text \<open>
  The posting sites the journal keeps per balance key: which sites a list of entries has, how
  appending and undoing an entry changes them, and what they resolve to.
\<close>

section \<open>The sites of a list of entries\<close>

definition entry_sites :: "balance_key \<Rightarrow> nat \<Rightarrow> entry \<Rightarrow> site list" where
  "entry_sites key n e =
     map (\<lambda>(k, p). \<lparr>site_index = n, site_posting = site_number k\<rparr>)
       (filter (\<lambda>(k, p). key_of_posting p = key) (enumerate 0 (e_postings e)))"

fun sites_from :: "balance_key \<Rightarrow> nat \<Rightarrow> entry list \<Rightarrow> site list" where
  "sites_from key n [] = []"
| "sites_from key n (e # es) = entry_sites key n e @ sites_from key (Suc n) es"

abbreviation keys_of :: "posting list \<Rightarrow> balance_key set" where
  "keys_of ps \<equiv> key_of_posting ` set ps"

lemma all_postings_simps [simp]:
  "all_postings [] = []" "all_postings (e # es) = e_postings e @ all_postings es"
  "all_postings (es @ fs) = all_postings es @ all_postings fs"
  by (simp_all add: all_postings_def)

lemma sites_from_append [simp]: "sites_from key n (es @ fs) = sites_from key n es @ sites_from key (n + length es) fs"
  by (induction es arbitrary: n) simp_all

lemma enumerate_filter: "map snd (filter (\<lambda>(k, p). P p) (enumerate n ps)) = filter P ps"
  by (induction ps arbitrary: n) auto

lemma enumerate_filter_Nil: "filter (\<lambda>(k, p). P p) (enumerate n ps) = [] \<longleftrightarrow> (\<forall>p\<in>set ps. \<not> P p)"
  by (induction ps arbitrary: n) auto

lemma entry_sites_Nil: "entry_sites key n e = [] \<longleftrightarrow> key \<notin> keys_of (e_postings e)"
  by (auto simp: entry_sites_def enumerate_filter_Nil)

lemma sites_from_Nil: "sites_from key n es = [] \<longleftrightarrow> key \<notin> keys_of (all_postings es)"
  by (induction es arbitrary: n) (auto simp: entry_sites_Nil)

lemma entry_sites_index: "s \<in> set (entry_sites key n e) \<Longrightarrow> site_index s = n"
  by (auto simp: entry_sites_def)

lemma sites_from_index: "s \<in> set (sites_from key n es) \<Longrightarrow> n \<le> site_index s \<and> site_index s < n + length es"
proof (induction es arbitrary: n)
  case (Cons e es)
  then consider "s \<in> set (entry_sites key n e)" | "s \<in> set (sites_from key (Suc n) es)" by auto
  then show ?case using Cons.IH [of "Suc n"] by cases (auto dest: entry_sites_index)
qed simp

lemma sites_prefix: "takeWhile (\<lambda>s. site_index s < m) (sites_from key 0 es) = sites_from key 0 (take m es)"
proof -
  have split: "sites_from key 0 es = sites_from key 0 (take m es) @ sites_from key (min (length es) m) (drop m es)"
    using sites_from_append [of key 0 "take m es" "drop m es"] by simp
  have before: "site_index s < m" if "s \<in> set (sites_from key 0 (take m es))" for s
    using sites_from_index [OF that] by auto
  have after: "takeWhile (\<lambda>s. site_index s < m) (sites_from key (min (length es) m) (drop m es)) = []"
  proof (cases "m \<le> length es")
    case True
    then have "\<not> site_index s < m" if "s \<in> set (sites_from key (min (length es) m) (drop m es))" for s
      using sites_from_index [OF that] by auto
    then show ?thesis by (metis takeWhile_eq_Nil_iff list.set_sel(1))
  qed simp
  show ?thesis unfolding split using before after by (simp add: takeWhile_append2)
qed

section \<open>Appending and undoing an entry\<close>

lemma get_add_sites:
  "bt_get (foldl (add_site i) m (enumerate k ps)) key =
     (if key \<in> keys_of ps
      then Some ((case bt_get m key of None \<Rightarrow> [] | Some ss \<Rightarrow> ss) @
             map (\<lambda>(k, p). \<lparr>site_index = i, site_posting = site_number k\<rparr>)
               (filter (\<lambda>(k, p). key_of_posting p = key) (enumerate k ps)))
      else bt_get m key)"
  by (induction ps arbitrary: m k) (auto simp: add_site_def Let_def enumerate_filter_Nil image_iff split: option.splits)

lemma get_undo_sites:
  "bt_get (fst (foldl (undo_sites i) (m, t) ps)) key =
     (if key \<in> keys_of ps then map_option (filter (\<lambda>s. site_index s \<noteq> i)) (bt_get m key) else bt_get m key)"
  by (induction ps arbitrary: m t) (auto simp: undo_sites_def Let_def option.map_comp comp_def split: option.splits)

lemma undo_touched:
  "bt_get (snd (foldl (undo_sites i) (m, t) ps)) key \<noteq> None \<longleftrightarrow> key \<in> keys_of ps \<or> bt_get t key \<noteq> None"
  by (induction ps arbitrary: m t) (auto simp: undo_sites_def Let_def)

section \<open>Resolving\<close>

definition short :: "entry \<Rightarrow> bool" where
  "short e \<longleftrightarrow> length (e_postings e) \<le> 65536"

lemma site_number_value: "k < 65536 \<Longrightarrow> unat (site_number k) = k"
  by (simp add: site_number_def unat_of_nat)

lemma posting_at_number: "k < length (e_postings e) \<Longrightarrow> short e \<Longrightarrow> posting_at e (site_number k) = Some (e_postings e ! k)"
  by (simp add: posting_at_def short_def site_number_value)

lemma map_filter_append: "List.map_filter f (xs @ ys) = List.map_filter f xs @ List.map_filter f ys"
  by (simp add: List.map_filter_def)

lemma map_filter_all: "(\<And>x. x \<in> set xs \<Longrightarrow> f x = Some (g x)) \<Longrightarrow> List.map_filter f xs = map g xs"
  by (induction xs) (simp_all add: List.map_filter_def)

lemma map_filter_map: "List.map_filter f (map g xs) = List.map_filter (\<lambda>x. f (g x)) xs"
  by (induction xs) (simp_all add: List.map_filter_def)

lemma map_filter_comp: "List.map_filter (\<lambda>x. map_option g (f x)) xs = map g (List.map_filter f xs)"
  by (induction xs) (auto simp: List.map_filter_simps split: option.splits)

lemma resolve_entry:
  assumes "entry_at j n = Some e" "short e"
  shows "List.map_filter (resolve j) (entry_sites key n e) = map (Pair e) (filter (\<lambda>p. key_of_posting p = key) (e_postings e))"
proof -
  have "resolve j \<lparr>site_index = n, site_posting = site_number k\<rparr> = Some (e, p)" if "(k, p) \<in> set (enumerate 0 (e_postings e))" for k p
    using that assms posting_at_number [of k e] by (auto simp: resolve_def in_set_enumerate_eq)
  then have "List.map_filter (\<lambda>x. resolve j ((\<lambda>(k, p). \<lparr>site_index = n, site_posting = site_number k\<rparr>) x))
      (filter (\<lambda>(k, p). key_of_posting p = key) (enumerate 0 (e_postings e)))
      = map (\<lambda>x. (e, snd x)) (filter (\<lambda>(k, p). key_of_posting p = key) (enumerate 0 (e_postings e)))"
    by (intro map_filter_all) auto
  then show ?thesis
    using enumerate_filter [of "\<lambda>p. key_of_posting p = key" 0 "e_postings e"]
    by (simp add: entry_sites_def map_filter_map flip: map_map [of "Pair e" snd, unfolded comp_def])
qed

text \<open>The entries of a list that touch a key, each with the postings that do.\<close>

definition touching :: "balance_key \<Rightarrow> entry list \<Rightarrow> (entry \<times> posting) list" where
  "touching key es = concat (map (\<lambda>e. map (Pair e) (filter (\<lambda>p. key_of_posting p = key) (e_postings e))) es)"

lemma touching_simps [simp]:
  "touching key [] = []"
  "touching key (e # es) = map (Pair e) (filter (\<lambda>p. key_of_posting p = key) (e_postings e)) @ touching key es"
  "touching key (es @ fs) = touching key es @ touching key fs"
  by (simp_all add: touching_def)

lemma touching_postings: "map snd (touching key es) = filter (\<lambda>p. key_of_posting p = key) (all_postings es)"
  by (induction es) (simp_all add: comp_def)

lemma resolve_sites:
  assumes "\<forall>k<length es. entry_at j (n + k) = Some (es ! k)" "\<forall>e\<in>set es. short e"
  shows "List.map_filter (resolve j) (sites_from key n es) = touching key es"
  using assms
proof (induction es arbitrary: n)
  case (Cons e es)
  have "entry_at j n = Some e" using Cons.prems(1) [rule_format, of 0] by simp
  moreover have "\<forall>k<length es. entry_at j (Suc n + k) = Some (es ! k)"
    using Cons.prems(1) by (metis Suc_less_eq add_Suc_shift length_Cons nth_Cons_Suc)
  ultimately show ?case using Cons resolve_entry [of j n e key] by (simp add: map_filter_append)
qed (simp add: List.map_filter_def)

end
