(* ===== verification/Entry_Audit.thy ===== *)
theory Entry_Audit
  imports Entry
begin

text \<open>
  What an entry promises: its canonical bytes determine everything but its identifier; validation
  accepts exactly the entries that meet its specification; and a reversal always balances.
\<close>

section \<open>The encoding\<close>

lemma enc_uuid_append [prefix_iffs]: "enc_uuid a @ r = enc_uuid b @ s \<longleftrightarrow> a = b \<and> r = s"
proof
  assume eq: "enc_uuid a @ r = enc_uuid b @ s"
  then have be: "be_bytes 16 (unat a) = be_bytes 16 (unat b)" "r = s"
    unfolding enc_uuid_def enc_fixed_def by (simp_all add: append_eq_append_conv)
  then have "unat a mod 256 ^ 16 = unat b mod 256 ^ 16" using be_val_bytes by metis
  moreover have "unat a < 256 ^ 16" "unat b < 256 ^ 16" using unat_bound [of a] unat_bound [of b] by simp_all
  ultimately have "unat a = unat b" by simp
  then show "a = b \<and> r = s" using be(2) by (simp add: unat_inj)
qed simp

interpretation optlabelc: prefix_code "enc_option enc_label" "\<lambda>v. \<forall>x. v = Some x \<longrightarrow> valid_label x"
  by (rule option_prefix_code [OF labelc.prefix_code_axioms])

interpretation opthashc: prefix_code "enc_option (\<lambda>h. enc_fixed (hash_bytes h))" "\<lambda>v. \<forall>x. v = Some x \<longrightarrow> True"
  by (rule option_prefix_code) (unfold_locales, simp add: enc_fixed_def)

interpretation optidc: prefix_code "enc_option (\<lambda>i. enc_uuid (entry_uuid i))" "\<lambda>v. \<forall>x. v = Some x \<longrightarrow> True"
  by (rule option_prefix_code) (unfold_locales, simp add: prefix_iffs entry_id.expand)

interpretation postingsc: prefix_code "enc_seq enc_posting" "\<lambda>ps. fits ps \<and> list_all valid_posting ps"
  by (rule seq_prefix_code [OF postingc.prefix_code_axioms])

definition valid_provenance :: "provenance \<Rightarrow> bool" where
  "valid_provenance p \<longleftrightarrow> (\<forall>l. actor p = Some l \<or> source p = Some l \<or> correlation p = Some l \<longrightarrow> valid_label l)"

interpretation provenancec: prefix_code enc_provenance valid_provenance
proof
  fix x y :: provenance and r s
  assume "valid_provenance x" "valid_provenance y" "enc_provenance x @ r = enc_provenance y @ s"
  then show "x = y \<and> r = s"
    by (simp add: enc_provenance_def valid_provenance_def optlabelc.append_iff)
qed

interpretation documentc: prefix_code enc_document "\<lambda>d. valid_label (doc_id d)"
proof
  fix x y :: document_ref and r s
  assume "valid_label (doc_id x)" "valid_label (doc_id y)" "enc_document x @ r = enc_document y @ s"
  then show "x = y \<and> r = s" by (simp add: enc_document_def labelc.append_iff opthashc.append_iff)
qed

interpretation optdocumentc: prefix_code "enc_option enc_document" "\<lambda>v. \<forall>x. v = Some x \<longrightarrow> valid_label (doc_id x)"
  by (rule option_prefix_code [OF documentc.prefix_code_axioms])

text \<open>What the constructors of the fields guarantee.\<close>

definition valid_entry :: "entry \<Rightarrow> bool" where
  "valid_entry e \<longleftrightarrow>
     key_new (key_bytes (e_key e)) = Ok (e_key e)
     \<and> valid_date (booking_date e) \<and> valid_date (value_date e)
     \<and> description_new (description_str (e_description e)) = Ok (e_description e) \<and> valid_str (description_str (e_description e))
     \<and> length (e_postings e) \<le> u64_max \<and> list_all valid_posting (e_postings e)
     \<and> (\<forall>l. e_kind e = Some l \<longrightarrow> valid_label l) \<and> valid_provenance (e_provenance e)
     \<and> (\<forall>d. e_document e = Some d \<longrightarrow> valid_label (doc_id d))
     \<and> (\<forall>d. original_booking_date e = Some d \<longrightarrow> valid_date d)"

lemma valid_entry_parts:
  assumes "valid_entry e"
  shows "fits (key_bytes (e_key e))" "valid_text (description_str (e_description e))" "fits (e_postings e)"
proof -
  have "length (key_bytes (e_key e)) \<le> 128" "length (description_str (e_description e)) \<le> 512"
    using assms by (auto simp: valid_entry_def key_new_def description_new_def max_idempotency_key_len_def
        max_description_len_def split: if_splits)
  then show "fits (key_bytes (e_key e))" "valid_text (description_str (e_description e))" "fits (e_postings e)"
    using assms by (auto simp: fits_def u64_max_def valid_entry_def intro: short_text)
qed

lemma enc_entry_inj:
  assumes "ymd_faithful E" "valid_entry e" "valid_entry f" "enc_entry E e = enc_entry E f"
  shows "f = e\<lparr>e_id := e_id f\<rparr>"
proof -
  note datec = date_prefix_code [OF assms(1)]
  note optdatec = option_prefix_code [OF datec]
  note parts = valid_entry_parts [OF assms(2)] valid_entry_parts [OF assms(3)]
  have v: "valid_date (booking_date x)" "valid_date (value_date x)" "list_all valid_posting (e_postings x)"
    "\<And>l. e_kind x = Some l \<Longrightarrow> valid_label l" "valid_provenance (e_provenance x)"
    "\<And>d. e_document x = Some d \<Longrightarrow> valid_label (doc_id d)" "\<And>d. original_booking_date x = Some d \<Longrightarrow> valid_date d"
    if "valid_entry x" for x
    using that by (auto simp: valid_entry_def)
  note v = v [OF assms(2)] v [OF assms(3)]
  have "enc_entry E e @ [] = enc_entry E f @ []" using assms(4) by simp
  then have "key_bytes (e_key e) = key_bytes (e_key f) \<and> booking_date e = booking_date f \<and> value_date e = value_date f
    \<and> description_str (e_description e) = description_str (e_description f) \<and> e_postings e = e_postings f
    \<and> e_kind e = e_kind f \<and> e_provenance e = e_provenance f \<and> e_document e = e_document f
    \<and> e_reverses e = e_reverses f \<and> original_booking_date e = original_booking_date f"
    by (simp add: enc_entry_def prefix_iffs bytesc.append_iff strc.append_iff postingsc.append_iff
        optlabelc.append_iff provenancec.append_iff optdocumentc.append_iff optidc.append_iff
        prefix_code.append_iff [OF datec] prefix_code.append_iff [OF optdatec]
        prefix_code.enc_inj [OF optdatec] parts v del: append_Nil2)
  then show ?thesis by (simp add: idempotency_key.expand description.expand)
qed

section \<open>Validation\<close>

text \<open>The gross sum on one side of one currency.\<close>

definition gross :: "direction \<Rightarrow> currency \<Rightarrow> posting list \<Rightarrow> int" where
  "gross s c ps = sum_list (map (\<lambda>p. amt (p_amount p)) (filter (\<lambda>p. p_currency p = c \<and> p_direction p = s) ps))"

lemma gross_simps [simp]:
  "gross s c [] = 0"
  "gross s c (p # ps) = (if p_currency p = c \<and> p_direction p = s then amt (p_amount p) else 0) + gross s c ps"
  by (simp_all add: gross_def)

text \<open>What one posting has to satisfy, and what the whole entry has to.\<close>

definition posting_ok :: "seal_context \<Rightarrow> date \<Rightarrow> posting \<Rightarrow> bool" where
  "posting_ok ctx d p \<longleftrightarrow>
     0 < amt (p_amount p)
     \<and> (\<exists>a. reg_get (ctx_accounts ctx) (p_account p) = Some a \<and> is_leaf (ctx_accounts ctx) (p_account p) \<and> is_open_on a d)
     \<and> (\<forall>c. pol_currency (ctx_policy ctx) = Single c \<longrightarrow> p_currency p = c)
     \<and> (\<forall>axis\<in>set (required_dimensions (ctx_policy ctx)). dims_contains (p_dimensions p) (label_str axis))"

definition entry_ok :: "seal_context \<Rightarrow> entry \<Rightarrow> bool" where
  "entry_ok ctx e \<longleftrightarrow>
     2 \<le> length (e_postings e) \<and> length (e_postings e) \<le> max_postings
     \<and> (\<forall>p\<in>set (e_postings e). posting_ok ctx (booking_date e) p)
     \<and> (\<forall>c. gross Debit c (e_postings e) = gross Credit c (e_postings e))
     \<and> (\<forall>c s. gross s c (e_postings e) \<le> i64_max)
     \<and> cal_accepts (ctx_calendar ctx) (booking_date e)
     \<and> (\<forall>m. max_drift_days (ctx_policy ctx) = Some m \<longrightarrow> min \<bar>julian (value_date e) - julian (booking_date e)\<bar> i64_max \<le> sint m)"

lemma map_filter_Nil: "List.map_filter f xs = [] \<longleftrightarrow> (\<forall>x\<in>set xs. f x = None)"
  by (auto simp: List.map_filter_def filter_empty_conv)

lemma amt_positive: "\<not> is_zero a \<and> \<not> is_negative a \<longleftrightarrow> 0 < amt a"
  by (auto simp: is_zero_def is_negative_def amt_def sint_zero_iff less_le not_less)

lemma account_errors_Nil:
  "account_errors ctx d i p = [] \<longleftrightarrow>
     (\<exists>a. reg_get (ctx_accounts ctx) (p_account p) = Some a \<and> is_leaf (ctx_accounts ctx) (p_account p) \<and> is_open_on a d)"
  by (cases "reg_get (ctx_accounts ctx) (p_account p)") (auto simp: account_errors_def)

lemma posting_errors_Nil: "posting_errors ctx d i p = [] \<longleftrightarrow> posting_ok ctx d p"
proof -
  have "(case pol_currency (ctx_policy ctx) of Single allowed \<Rightarrow> if p_currency p \<noteq> allowed then [CurrencyNotAllowed (p_currency p)] else []
      | Multi \<Rightarrow> []) = [] \<longleftrightarrow> (\<forall>c. pol_currency (ctx_policy ctx) = Single c \<longrightarrow> p_currency p = c)"
    by (cases "pol_currency (ctx_policy ctx)") auto
  then show ?thesis
    unfolding posting_errors_def posting_ok_def append_is_Nil_conv account_errors_Nil map_filter_Nil
    using amt_positive [of "p_amount p"] by auto
qed

lemma gross_nonneg: "\<forall>p\<in>set ps. 0 < amt (p_amount p) \<Longrightarrow> 0 \<le> gross s c ps"
  by (induction ps) auto

lemma totals_get_insert [simp]: "totals_get (bt_insert c b t) c' = (if c' = c then b else totals_get t c')"
  by (simp add: totals_get_def)

lemma seal_fold_errs: "\<exists>more. fst (foldl (seal_posting ctx d) (errs, t) xs) = errs @ more"
proof (induction xs arbitrary: errs t)
  case (Cons x xs)
  obtain e1 t1 where s: "seal_posting ctx d (errs, t) x = (e1, t1)" by fastforce
  moreover have "\<exists>m. e1 = errs @ m" using s by (auto simp: seal_posting_def Let_def split: prod.splits sum.splits)
  ultimately show ?case using Cons [of e1 t1] by fastforce
qed simp

text \<open>
  The loop ends without an error exactly when every posting is fine and no gross sum overflows; the
  totals are then the gross sums.
\<close>

lemma seal_fold:
  "foldl (seal_posting ctx d) (errs0, t0) (enumerate k ps) = (errs, t) \<Longrightarrow>
    (errs = [] \<longleftrightarrow> errs0 = [] \<and> (\<forall>p\<in>set ps. posting_ok ctx d p)
       \<and> (\<forall>c s. side s (totals_get t0 c) + gross s c ps \<le> i64_max))
    \<and> (errs = [] \<longrightarrow> (\<forall>c s. side s (totals_get t c) = side s (totals_get t0 c) + gross s c ps))"
proof (induction ps arbitrary: errs0 t0 k)
  case Nil
  then show ?case using in_i64_le [OF side_in_range] by auto
next
  case (Cons p ps)
  let ?b = "totals_get t0 (p_currency p)"
  obtain e1 t1 where s: "seal_posting ctx d (errs0, t0) (k, p) = (e1, t1)" by fastforce
  have run: "foldl (seal_posting ctx d) (e1, t1) (enumerate (Suc k) ps) = (errs, t)"
    using Cons.prems s by simp
  note IH = Cons.IH [OF run]
  show ?case
  proof (cases "balance_add ?b (p_direction p) (p_amount p)")
    case (Inl x)
    then have "e1 \<noteq> []" using s by (auto simp: seal_posting_def Let_def)
    then have "errs \<noteq> []" using IH by blast
    have over: "\<not> in_i64 (side (p_direction p) ?b + amt (p_amount p))" using Inl balance_add_Err by blast
    have "\<not> ((\<forall>q\<in>set (p # ps). posting_ok ctx d q) \<and> (\<forall>c s. side s (totals_get t0 c) + gross s c (p # ps) \<le> i64_max))"
    proof
      assume a: "(\<forall>q\<in>set (p # ps). posting_ok ctx d q) \<and> (\<forall>c s. side s (totals_get t0 c) + gross s c (p # ps) \<le> i64_max)"
      then have "0 \<le> gross (p_direction p) (p_currency p) ps" "0 < amt (p_amount p)"
        by (auto simp: posting_ok_def intro: gross_nonneg)
      moreover have "side (p_direction p) ?b + gross (p_direction p) (p_currency p) (p # ps) \<le> i64_max" using a by blast
      ultimately show False using over in_i64_up [OF side_in_range [of "p_direction p" ?b]] by simp
    qed
    then show ?thesis using \<open>errs \<noteq> []\<close> by blast
  next
    case (Inr b')
    then have e1: "e1 = errs0 @ posting_errors ctx d k p" "t1 = bt_insert (p_currency p) b' t0"
      using s by (auto simp: seal_posting_def Let_def)
    have b': "side s b' = side s ?b + (if s = p_direction p then amt (p_amount p) else 0)" for s
      using Inr by (simp add: balance_add_Ok)
    have shift: "side s (totals_get t1 c) + gross s c ps = side s (totals_get t0 c) + gross s c (p # ps)" for s c
      by (auto simp: e1(2) b')
    show ?thesis using IH unfolding shift e1(1) by (auto simp: posting_errors_Nil)
  qed
qed

lemma totals_empty [simp]: "totals_get bt_empty c = balance_zero"
  by (simp add: totals_get_def)

lemma unbalanced_errors_Nil:
  "unbalanced_errors P t = [] \<longleftrightarrow> (\<forall>c. side Debit (totals_get t c) = side Credit (totals_get t c))"
proof -
  have "unbalanced_errors P t = [] \<longleftrightarrow> (\<forall>c b. bt_get t c = Some b \<longrightarrow> is_balanced b)"
    by (auto simp: unbalanced_errors_def map_filter_Nil bt_get_iter split: if_splits)
  also have "\<dots> \<longleftrightarrow> (\<forall>c. is_balanced (totals_get t c))"
    by (auto simp: totals_get_def balance_zero_def is_balanced_def split: option.splits)
  finally show ?thesis by (simp add: is_balanced_side)
qed

lemma drift_errors_Nil:
  "drift_errors pol b v = [] \<longleftrightarrow> (\<forall>m. max_drift_days pol = Some m \<longrightarrow> min \<bar>julian v - julian b\<bar> i64_max \<le> sint m)"
proof -
  have "i64_saturate \<bar>i64_saturate z\<bar> = min \<bar>z\<bar> i64_max" for z
    by (auto simp: i64_saturate_def i64_min_def i64_max_def min_def max_def)
  then show ?thesis by (auto simp: drift_errors_def Let_def not_less split: option.splits)
qed

lemma seal_errors_Nil: "seal_errors E ctx e = [] \<longleftrightarrow> entry_ok ctx e"
proof -
  let ?n = "length (e_postings e)"
  let ?e0 = "(if ?n < 2 then [TooFewPostings ?n] else []) @ (if ?n > max_postings then [TooManyPostings ?n] else [])"
  obtain errs t where f: "foldl (seal_posting ctx (booking_date e)) (?e0, bt_empty) (enumerate 0 (e_postings e)) = (errs, t)"
    by fastforce
  note fold = seal_fold [OF f]
  have count: "?e0 = [] \<longleftrightarrow> 2 \<le> ?n \<and> ?n \<le> max_postings" by auto
  have "seal_errors E ctx e = [] \<longleftrightarrow> errs = [] \<and> unbalanced_errors (env_prec E) t = []
      \<and> cal_accepts (ctx_calendar ctx) (booking_date e) \<and> drift_errors (ctx_policy ctx) (booking_date e) (value_date e) = []"
    using f by (simp add: seal_errors_def Let_def cal_accepts_def)
  also have "\<dots> \<longleftrightarrow> entry_ok ctx e"
    using fold count unfolding unbalanced_errors_Nil drift_errors_Nil entry_ok_def by (auto simp: side_zero)
  finally show ?thesis .
qed

lemma entry_seal_Ok: "entry_seal E ctx e = Ok e' \<longleftrightarrow> e' = e \<and> entry_ok ctx e"
  by (auto simp: entry_seal_def Let_def seal_errors_Nil)

text \<open>
  C37. Validation is sound and complete: an entry is sealed, unchanged, exactly when it has between
  two and the maximal number of postings, every amount is positive, every account is an open leaf,
  the currency and dimension policies hold, debits equal credits in every currency without
  overflowing, the calendar accepts the booking date and the value date is near enough.
\<close>

theorem entry_seal_spec: "entry_seal E ctx e = Ok e' \<longleftrightarrow> e' = e \<and> entry_ok ctx e"
  by (rule entry_seal_Ok)

section \<open>Content hashes\<close>

lemma content_hash_inj:
  assumes "ymd_faithful E" "valid_entry e" "valid_entry f" "content_hash E e = content_hash E f"
    and "inj_on (env_b3 E) {tagged_preimage tag_entry (enc_entry E e), tagged_preimage tag_entry (enc_entry E f)}"
  shows "f = e\<lparr>e_id := e_id f\<rparr>"
proof -
  have "enc_entry E e = enc_entry E f"
    using assms(4) tagged_inj [OF assms(5)] tags_fit by (simp add: content_hash_def)
  then show ?thesis by (rule enc_entry_inj [OF assms(1-3)])
qed

text \<open>
  Adopting a stored entry on the evidence of a hash gives back what was hashed: if a read-back
  entry is adopted under the content hash of an entry, it agrees with that entry in everything but
  the identifier, unless the two byte strings collide.
\<close>

theorem adopt_verified_binds:
  assumes "ymd_faithful E" "valid_entry e" "valid_entry f"
    and "adopt_verified E f (content_hash E e) = Ok g"
    and "inj_on (env_b3 E) {tagged_preimage tag_entry (enc_entry E e), tagged_preimage tag_entry (enc_entry E f)}"
  shows "g = f \<and> f = e\<lparr>e_id := e_id f\<rparr>"
proof -
  have "g = f" "content_hash E e = content_hash E f"
    using assms(4) by (auto simp: adopt_verified_def Let_def split: if_splits)
  then show ?thesis using content_hash_inj [OF assms(1-3) _ assms(5)] by blast
qed

definition demo_entry :: "entry_id \<Rightarrow> entry" where
  "demo_entry i = entry_credit (entry_debit (entry_new i (IdempotencyKey [1]) (Date 5)) (AccountId 1) (Amount 7) EUR)
     (AccountId 2) (Amount 7) EUR"

lemma demo_entry_valid: "valid_entry (demo_entry i)"
proof -
  have "valid_currency EUR" by code_simp
  then show ?thesis
    by (simp add: valid_entry_def demo_entry_def entry_credit_def entry_debit_def post_def entry_new_def key_new_def
        max_idempotency_key_len_def valid_date_def date_min_def date_max_def description_new_def valid_str_def
        u64_max_def valid_posting_def posting_credit_def posting_debit_def posting_new_def valid_provenance_def
        provenance_none_def)
qed

lemma adopt_verified_binds_witness:
  "\<exists>g. adopt_verified toy_env (demo_entry (EntryId 2)) (content_hash toy_env (demo_entry (EntryId 1))) = Ok g
     \<and> g = (demo_entry (EntryId 1))\<lparr>e_id := EntryId 2\<rparr>"
proof -
  have e: "enc_entry toy_env (demo_entry (EntryId 2)) = enc_entry toy_env (demo_entry (EntryId 1))"
    by (simp add: enc_entry_def demo_entry_def entry_credit_def entry_debit_def post_def entry_new_def)
  then have "adopt_verified toy_env (demo_entry (EntryId 2)) (content_hash toy_env (demo_entry (EntryId 1))) = Ok (demo_entry (EntryId 2))"
    by (simp add: adopt_verified_def content_hash_def)
  then show ?thesis
    using adopt_verified_binds [OF toy_env_faithful demo_entry_valid demo_entry_valid] e
    by (fastforce simp: demo_entry_def entry_credit_def entry_debit_def post_def entry_new_def)
qed

section \<open>Reversals\<close>

lemma foldl_post: "foldl (\<lambda>draft p. post draft (inverted p)) e ps = e\<lparr>e_postings := e_postings e @ map inverted ps\<rparr>"
  by (induction ps arbitrary: e) (simp_all add: post_def)

lemma reverse_fields:
  "e_postings (entry_reverse e i key d) = map inverted (e_postings e)" "e_id (entry_reverse e i key d) = i"
  "e_key (entry_reverse e i key d) = key" "booking_date (entry_reverse e i key d) = d"
  "value_date (entry_reverse e i key d) = d" "e_reverses (entry_reverse e i key d) = Some (e_id e)"
  "original_booking_date (entry_reverse e i key d) = Some (booking_date e)"
  by (simp_all add: entry_reverse_def foldl_post reversing_def with_description_def entry_new_def)

lemma gross_inverted: "gross s c (map inverted ps) = gross (dir_inverse s) c ps"
proof -
  have "dir_inverse a = b \<longleftrightarrow> a = dir_inverse b" for a b by (cases a; cases b) (simp_all add: dir_inverse_def)
  then show ?thesis by (induction ps) auto
qed

lemma moved_inverted: "moved s key (map inverted ps) = moved (dir_inverse s) key ps"
proof -
  have "dir_inverse a = b \<longleftrightarrow> a = dir_inverse b" for a b by (cases a; cases b) (simp_all add: dir_inverse_def)
  then show ?thesis by (induction ps) (auto simp: key_of_posting_def)
qed

text \<open>
  A reversal always balances: whatever was sealed once, its reversal is sealed again wherever
  the same accounts are open leaves and the calendar accepts the date under the same policy, and the
  two together move every account, currency and layer by the same amount on both sides.
\<close>

theorem reverse_seals:
  assumes "entry_seal E ctx e = Ok e" "ctx_policy ctx' = ctx_policy ctx" "cal_accepts (ctx_calendar ctx') d"
    and "\<forall>p\<in>set (e_postings e). \<exists>a. reg_get (ctx_accounts ctx') (p_account p) = Some a
           \<and> is_leaf (ctx_accounts ctx') (p_account p) \<and> is_open_on a d"
  shows "entry_seal E ctx' (entry_reverse e i key d) = Ok (entry_reverse e i key d)
    \<and> moved Debit k (e_postings e @ e_postings (entry_reverse e i key d))
      = moved Credit k (e_postings e @ e_postings (entry_reverse e i key d))"
proof -
  have ok: "entry_ok ctx e" using assms(1) by (simp add: entry_seal_Ok)
  have inv: "dir_inverse Debit = Credit" "dir_inverse Credit = Debit" by (simp_all add: dir_inverse_def)
  have "posting_ok ctx' d (inverted p)" if "p \<in> set (e_postings e)" for p
    using ok that assms(2,4) by (simp add: entry_ok_def posting_ok_def)
  moreover have "0 \<le> sint m" if "max_drift_days (ctx_policy ctx) = Some m" for m
  proof -
    have "min \<bar>julian (value_date e) - julian (booking_date e)\<bar> i64_max \<le> sint m" using ok that by (simp add: entry_ok_def)
    then show ?thesis by (simp add: i64_max_def min_def split: if_splits)
  qed
  ultimately have "entry_ok ctx' (entry_reverse e i key d)"
    using ok assms(2,3) by (simp add: entry_ok_def reverse_fields gross_inverted inv i64_max_def)
  moreover have "moved Debit k (e_postings e @ map inverted (e_postings e)) = moved Credit k (e_postings e @ map inverted (e_postings e))"
    by (simp add: moved_inverted inv)
  ultimately show ?thesis by (simp add: entry_seal_Ok reverse_fields)
qed

definition demo_context :: seal_context where
  "demo_context = \<lparr>ctx_accounts = \<lparr>accounts = replicate 3 (account_new (AccountPath [lit ''A'']) (Date 0)),
       path_index = bt_empty, child_count = [0, 0, 0]\<rparr>,
     ctx_calendar = calendar_new, ctx_policy = policy_permissive\<rparr>"

lemma reverse_seals_witness:
  "entry_seal toy_env demo_context (demo_entry (EntryId 1)) = Ok (demo_entry (EntryId 1))
   \<and> (let r = entry_reverse (demo_entry (EntryId 1)) (EntryId 2) (IdempotencyKey [2]) (Date 9) in
       entry_seal toy_env demo_context r = Ok r)"
proof -
  have "seal_errors toy_env demo_context (demo_entry (EntryId 1)) = []" by code_simp
  then have s: "entry_seal toy_env demo_context (demo_entry (EntryId 1)) = Ok (demo_entry (EntryId 1))"
    by (simp add: entry_seal_def)
  have c: "cal_accepts (ctx_calendar demo_context) (Date 9)" by code_simp
  have a: "\<exists>a. reg_get (ctx_accounts demo_context) (p_account p) = Some a
      \<and> is_leaf (ctx_accounts demo_context) (p_account p) \<and> is_open_on a (Date 9)"
    if "p \<in> set (e_postings (demo_entry (EntryId 1)))" for p
  proof -
    have "p_account p = AccountId 1 \<or> p_account p = AccountId 2"
      using that by (auto simp: demo_entry_def entry_credit_def entry_debit_def post_def entry_new_def
          posting_credit_def posting_debit_def posting_new_def)
    then show ?thesis
      by (auto simp: demo_context_def reg_get_def idx_def is_leaf_def is_open_on_def account_new_def less_eq_date_def)
  qed
  show ?thesis
    using reverse_seals [OF s refl c, of "EntryId 2" "IdempotencyKey [2]"] a s by (simp add: Let_def)
qed

end
