(* ===== verification/Journal_Inv.thy ===== *)
theory Journal_Inv
  imports Journal_Sites Entry_Audit Merkle_Audit
begin

text \<open>
  The invariant of the journal's derived state: log, indexes, balances and sites are functions of the
  entries. It holds of a new journal, appending an entry keeps it, and it determines the derived
  state, which is what makes rolling back exact.
\<close>

section \<open>The invariant\<close>

definition sound_entry :: "entry \<Rightarrow> bool" where
  "sound_entry e \<longleftrightarrow> length (e_postings e) \<le> max_postings
     \<and> (\<forall>p\<in>set (e_postings e). 0 < amt (p_amount p))
     \<and> (\<forall>c. gross Debit c (e_postings e) = gross Credit c (e_postings e))"

definition ids_ok :: "entry list \<Rightarrow> (entry_id, nat) btmap \<Rightarrow> bool" where
  "ids_ok es m \<longleftrightarrow> (\<forall>i n. bt_get m i = Some n \<longleftrightarrow> n < length es \<and> e_id (es ! n) = i)"

definition keys_ok :: "env \<Rightarrow> entry list \<Rightarrow> (idempotency_key, entry_id \<times> nat \<times> hash) btmap \<Rightarrow> bool" where
  "keys_ok E es m \<longleftrightarrow> (\<forall>k x. bt_get m k = Some x \<longleftrightarrow>
     (\<exists>n<length es. e_key (es ! n) = k \<and> x = (e_id (es ! n), n, content_hash E (es ! n))))"

definition reversals_ok :: "entry list \<Rightarrow> (entry_id, entry_id) btmap \<Rightarrow> bool" where
  "reversals_ok es m \<longleftrightarrow> (\<forall>original rev_id. bt_get m original = Some rev_id \<longleftrightarrow>
     (\<exists>n<length es. e_reverses (es ! n) = Some original \<and> e_id (es ! n) = rev_id))"

definition log_ok :: "env \<Rightarrow> entry list \<Rightarrow> merkle_log \<Rightarrow> bool" where
  "log_ok E es lg \<longleftrightarrow> good_log (env_b3 E) lg \<and> leaves lg = map (content_hash E) es"

definition sites_ok :: "entry list \<Rightarrow> (balance_key, site list) btmap \<Rightarrow> bool" where
  "sites_ok es m \<longleftrightarrow> (\<forall>key. bt_get m key =
     (if key \<in> keys_of (all_postings es) then Some (sites_from key 0 es) else None))"

definition derived_ok :: "env \<Rightarrow> journal \<Rightarrow> bool" where
  "derived_ok E j \<longleftrightarrow> (let es = j_entries j in
     ids_ok es (j_by_id j) \<and> keys_ok E es (j_by_key j) \<and> reversals_ok es (reversed_by j)
     \<and> log_ok E es (j_log j) \<and> shows_postings (balances j) (all_postings es) \<and> sites_ok es (sites j))"

lemma derived_okD:
  assumes "derived_ok E j"
  shows "ids_ok (j_entries j) (j_by_id j)" "keys_ok E (j_entries j) (j_by_key j)"
    "reversals_ok (j_entries j) (reversed_by j)" "log_ok E (j_entries j) (j_log j)"
    "shows_postings (balances j) (all_postings (j_entries j))" "sites_ok (j_entries j) (sites j)"
  using assms by (simp_all add: derived_ok_def Let_def)

lemma derived_ok_new [simp]: "derived_ok E (journal_new ledger)"
  by (simp add: derived_ok_def journal_new_def ids_ok_def keys_ok_def reversals_ok_def log_ok_def sites_ok_def log_new_def
      flip: log_new_def) (simp add: log_new_def)

section \<open>It determines the derived state\<close>

lemma option_map_eqI:
  assumes "\<And>k x. bt_get a k = Some x \<longleftrightarrow> P k x" "\<And>k x. bt_get b k = Some x \<longleftrightarrow> P k x"
  shows "a = b"
proof (rule bt_eqI)
  fix k
  show "bt_get a k = bt_get b k"
    by (cases "bt_get a k"; cases "bt_get b k") (metis assms option.inject option.distinct(1))+
qed

lemma derived_unique:
  assumes "derived_ok E j" "derived_ok E k" "j_entries j = j_entries k"
    and "j_ledger j = j_ledger k" "j_accounts j = j_accounts k" "j_calendar j = j_calendar k" "j_policy j = j_policy k"
    and "j_seals j = j_seals k" "clearings j = clearings k"
  shows "j = k"
proof -
  note a = derived_okD [OF assms(1)] and b = derived_okD [OF assms(2), folded assms(3)]
  have "j_by_id j = j_by_id k" by (rule option_map_eqI) (use a(1) b(1) in \<open>auto simp: ids_ok_def\<close>)
  moreover have "j_by_key j = j_by_key k"
    by (rule option_map_eqI [OF a(2) [unfolded keys_ok_def, rule_format] b(2) [unfolded keys_ok_def, rule_format]])
  moreover have "reversed_by j = reversed_by k"
    by (rule option_map_eqI [OF a(3) [unfolded reversals_ok_def, rule_format] b(3) [unfolded reversals_ok_def, rule_format]])
  moreover have "j_log j = j_log k" using a(4) b(4) by (auto simp: log_ok_def intro: good_log_unique)
  moreover have "balances j = balances k" using a(5) b(5) by (rule shows_unique)
  moreover have "sites j = sites k" using a(6) b(6) by (intro bt_eqI) (simp add: sites_ok_def)
  ultimately show ?thesis using assms(3-) by simp
qed

section \<open>Balances of many postings\<close>

lemma apply_postings_simps [simp]:
  "apply_postings tb [] = Ok tb"
  "apply_postings tb (p # ps) = bindR (case tb_apply tb p of (res, t') \<Rightarrow> bindR res (\<lambda>_. Ok t')) (\<lambda>t. apply_postings t ps)"
  by (simp_all add: apply_postings_def)

lemma apply_postings_shows:
  assumes "shows_postings tb qs" "apply_postings tb ps = Ok tb'"
  shows "shows_postings tb' (qs @ ps)"
  using assms
proof (induction ps arbitrary: tb qs)
  case (Cons p ps)
  obtain res t where t: "tb_apply tb p = (res, t)" by fastforce
  with Cons.prems(2) obtain u where "res = Ok u" "apply_postings t ps = Ok tb'" by auto
  then show ?case using Cons.IH [OF shows_apply [OF Cons.prems(1)]] t by simp
qed simp

lemma moved_nonneg: "\<forall>p\<in>set ps. 0 < amt (p_amount p) \<Longrightarrow> 0 \<le> moved d key ps"
  by (induction ps) auto

lemma apply_postings_total:
  assumes "shows_postings tb qs" "\<forall>p\<in>set (qs @ ps). 0 < amt (p_amount p)" "\<forall>key d. moved d key (qs @ ps) \<le> i64_max"
  shows "\<exists>tb'. apply_postings tb ps = Ok tb'"
  using assms
proof (induction ps arbitrary: tb qs)
  case (Cons p ps)
  let ?key = "key_of_posting p"
  have "side (p_direction p) (tb_get_or_zero tb ?key) = moved (p_direction p) ?key qs"
    by (rule shows_side [OF Cons.prems(1)])
  moreover have "moved (p_direction p) ?key qs + amt (p_amount p) \<le> i64_max"
    using Cons.prems(3) [rule_format, of "p_direction p" ?key] moved_nonneg [of ps "p_direction p" ?key] Cons.prems(2) by auto
  moreover have "0 \<le> moved (p_direction p) ?key qs" "0 < amt (p_amount p)"
    using Cons.prems(2) by (auto intro: moved_nonneg)
  ultimately have "in_i64 (side (p_direction p) (tb_get_or_zero tb ?key) + amt (p_amount p))"
    by (simp add: in_i64_def i64_min_def)
  then have "\<not> (\<exists>e. balance_add (tb_get_or_zero tb ?key) (p_direction p) (p_amount p) = Err e)"
    by (auto simp: balance_add_Err)
  then obtain b where "balance_add (tb_get_or_zero tb ?key) (p_direction p) (p_amount p) = Ok b"
    by (cases "balance_add (tb_get_or_zero tb ?key) (p_direction p) (p_amount p)") auto
  then obtain t where t: "tb_apply tb p = (Ok (), t)" by (simp add: tb_apply_def Let_def)
  have "\<exists>tb'. apply_postings t ps = Ok tb'"
    using Cons.prems(2,3) by (intro Cons.IH [OF shows_apply [OF Cons.prems(1) t]]) simp_all
  then show ?case using t by simp
qed simp

lemma fold_balance_simps [simp]:
  "fold_balance b [] = Ok b"
  "fold_balance b (p # ps) = bindR (balance_add b (p_direction p) (p_amount p)) (\<lambda>c. fold_balance c ps)"
  by (simp_all add: fold_balance_def)

lemma fold_balance_Ok:
  assumes "\<forall>p\<in>set ps. key_of_posting p = key" "fold_balance b ps = Ok c"
  shows "side d c = side d b + moved d key ps"
  using assms by (induction ps arbitrary: b) (auto simp: balance_add_Ok)

lemma fold_balance_total:
  assumes "\<forall>p\<in>set ps. key_of_posting p = key \<and> 0 < amt (p_amount p)" "\<forall>d. 0 \<le> side d b \<and> side d b + moved d key ps \<le> i64_max"
  shows "\<exists>c. fold_balance b ps = Ok c"
  using assms
proof (induction ps arbitrary: b)
  case (Cons p ps)
  have pos: "0 < amt (p_amount p)" "key_of_posting p = key" "\<And>d. 0 \<le> moved d key ps"
    using Cons.prems(1) by (auto intro: moved_nonneg)
  have step: "0 \<le> side (p_direction p) b" "side (p_direction p) b + (amt (p_amount p) + moved (p_direction p) key ps) \<le> i64_max"
    using Cons.prems(2) [rule_format, of "p_direction p"] pos by auto
  then have "in_i64 (side (p_direction p) b + amt (p_amount p))" using pos(1) pos(3) [of "p_direction p"]
    by (simp add: in_i64_def i64_min_def)
  then have "\<not> (\<exists>e. balance_add b (p_direction p) (p_amount p) = Err e)" by (auto simp: balance_add_Err)
  then obtain c where c: "balance_add b (p_direction p) (p_amount p) = Ok c"
    by (cases "balance_add b (p_direction p) (p_amount p)") auto
  have "0 \<le> side d c \<and> side d c + moved d key ps \<le> i64_max" for d
    using Cons.prems(2) [rule_format, of d] c pos(1,2) by (cases "d = p_direction p") (simp_all add: balance_add_Ok add.assoc)
  then show ?case using Cons.IH [of c] Cons.prems(1) c by auto
qed simp

lemma moved_filter: "moved d key (filter (\<lambda>p. key_of_posting p = key) ps) = moved d key ps"
  by (induction ps) auto

section \<open>Appending an entry\<close>

lemma nth_snoc: "(\<exists>n<Suc (length es). P n ((es @ [e]) ! n)) \<longleftrightarrow> (\<exists>n<length es. P n (es ! n)) \<or> P (length es) e"
  unfolding Ex_less_Suc by (auto simp: nth_append)

lemma ids_ok_append:
  assumes "ids_ok es m" "\<not> bt_contains m (e_id e)"
  shows "ids_ok (es @ [e]) (bt_insert (e_id e) (length es) m)"
proof -
  have new: "e_id (es ! n) \<noteq> e_id e" if "n < length es" for n
    using assms that by (auto simp: ids_ok_def bt_contains_def)
  show ?thesis using assms(1) new by (auto simp: ids_ok_def nth_append less_Suc_eq)
qed

lemma keys_ok_append:
  assumes "keys_ok E es m" "bt_get m (e_key e) = None"
  shows "keys_ok E (es @ [e]) (bt_insert (e_key e) (e_id e, length es, content_hash E e) m)"
proof -
  have new: "e_key (es ! n) \<noteq> e_key e" if "n < length es" for n
    using assms that unfolding keys_ok_def by (metis option.distinct(1))
  show ?thesis unfolding keys_ok_def
  proof (intro allI)
    fix k x
    show "bt_get (bt_insert (e_key e) (e_id e, length es, content_hash E e) m) k = Some x \<longleftrightarrow>
      (\<exists>n<length (es @ [e]). e_key ((es @ [e]) ! n) = k
        \<and> x = (e_id ((es @ [e]) ! n), n, content_hash E ((es @ [e]) ! n)))"
      using assms(1)[unfolded keys_ok_def, rule_format, of k x] new
        nth_snoc [of es "\<lambda>n f. e_key f = k \<and> x = (e_id f, n, content_hash E f)" e] by auto
  qed
qed

lemma reversals_ok_append:
  assumes "reversals_ok es m" "\<And>original. e_reverses e = Some original \<Longrightarrow> bt_get m original = None"
  shows "reversals_ok (es @ [e]) (case e_reverses e of None \<Rightarrow> m | Some original \<Rightarrow> bt_insert original (e_id e) m)"
  unfolding reversals_ok_def
proof (intro allI)
  fix original rev_id
  have old: "bt_get m original = Some rev_id \<longleftrightarrow> (\<exists>n<length es. e_reverses (es ! n) = Some original \<and> e_id (es ! n) = rev_id)"
    using assms(1) by (simp add: reversals_ok_def)
  have fresh: "\<not> (\<exists>n<length es. e_reverses (es ! n) = Some original)" if "e_reverses e = Some original"
    using assms(1) assms(2) [OF that] unfolding reversals_ok_def by (metis option.distinct(1))
  show "bt_get (case e_reverses e of None \<Rightarrow> m | Some original \<Rightarrow> bt_insert original (e_id e) m) original = Some rev_id \<longleftrightarrow>
    (\<exists>n<length (es @ [e]). e_reverses ((es @ [e]) ! n) = Some original \<and> e_id ((es @ [e]) ! n) = rev_id)"
    using old fresh nth_snoc [of es "\<lambda>n f. e_reverses f = Some original \<and> e_id f = rev_id" e]
    by (cases "e_reverses e") auto
qed

lemma sites_ok_append:
  assumes "sites_ok es m"
  shows "sites_ok (es @ [e]) (foldl (add_site (length es)) m (enumerate 0 (e_postings e)))"
  unfolding sites_ok_def
proof
  fix key
  have old: "(case bt_get m key of None \<Rightarrow> [] | Some ss \<Rightarrow> ss) = sites_from key 0 es"
    using assms by (simp add: sites_ok_def sites_from_Nil [THEN iffD2])
  have "bt_get (foldl (add_site (length es)) m (enumerate 0 (e_postings e))) key =
    (if key \<in> keys_of (e_postings e) then Some (sites_from key 0 (es @ [e])) else bt_get m key)"
    unfolding get_add_sites old by (simp add: entry_sites_def)
  then show "bt_get (foldl (add_site (length es)) m (enumerate 0 (e_postings e))) key =
    (if key \<in> keys_of (all_postings (es @ [e])) then Some (sites_from key 0 (es @ [e])) else None)"
    using assms entry_sites_Nil [of key "length es" e] by (simp add: sites_ok_def image_Un)
qed

lemma append_entry_state:
  assumes "good_log (env_b3 E) (j_log j)" "log_len (j_log j) < u64_max" "append_entry E e after j = (i, j')"
  shows "i = log_len (j_log j)" "j_entries j' = j_entries j @ [e]" "leaves (j_log j') = leaves (j_log j) @ [content_hash E e]"
    "good_log (env_b3 E) (j_log j')" "balances j' = after"
    "j_ledger j' = j_ledger j" "j_accounts j' = j_accounts j" "j_calendar j' = j_calendar j" "j_policy j' = j_policy j"
    "j_seals j' = j_seals j" "clearings j' = clearings j"
    "j_by_id j' = bt_insert (e_id e) i (j_by_id j)" "j_by_key j' = bt_insert (e_key e) (e_id e, i, content_hash E e) (j_by_key j)"
    "reversed_by j' = (case e_reverses e of None \<Rightarrow> reversed_by j | Some original \<Rightarrow> bt_insert original (e_id e) (reversed_by j))"
    "sites j' = foldl (add_site i) (sites j) (enumerate 0 (e_postings e))"
  using assms log_append_good [OF assms(1,2), of "content_hash E e"]
  by (auto simp: append_entry_def split: prod.splits)

text \<open>What record_validated checks before it appends.\<close>

definition appendable :: "env \<Rightarrow> journal \<Rightarrow> entry \<Rightarrow> trial_balance \<Rightarrow> bool" where
  "appendable E j e after \<longleftrightarrow>
     bt_get (j_by_key j) (e_key e) = None \<and> \<not> bt_contains (j_by_id j) (e_id e)
     \<and> (\<forall>original. e_reverses e = Some original \<longrightarrow> check_reversal j e original = Ok ())
     \<and> apply_postings (balances j) (e_postings e) = Ok after \<and> check_limits E j e after = Ok ()"

lemma check_reversal_Ok:
  "check_reversal j e original = Ok u \<longleftrightarrow>
     (\<exists>target. entry_get j original = Some target \<and> bt_get (reversed_by j) original = None
        \<and> e_reverses target = None \<and> is_inversion_of target e)"
  by (auto simp: check_reversal_def split: option.splits)

lemma append_derived_ok:
  assumes "derived_ok E j" "length (j_entries j) < u64_max" "appendable E j e after" "append_entry E e after j = (i, j')"
  shows "derived_ok E j'" "i = length (j_entries j)"
proof -
  note d = derived_okD [OF assms(1)]
  have len: "log_len (j_log j) = length (j_entries j)" using d(4) by (simp add: log_ok_def log_len_def)
  have g: "good_log (env_b3 E) (j_log j)" "log_len (j_log j) < u64_max" using d(4) assms(2) len by (simp_all add: log_ok_def)
  note st = append_entry_state [OF g assms(4)]
  show i: "i = length (j_entries j)" using st(1) len by simp
  note a = assms(3) [unfolded appendable_def]
  have "reversals_ok (j_entries j @ [e]) (reversed_by j')"
    unfolding st(14) by (rule reversals_ok_append [OF d(3)]) (use a check_reversal_Ok in blast)
  moreover have "ids_ok (j_entries j @ [e]) (j_by_id j')" unfolding st(12) i using a by (intro ids_ok_append d(1)) simp
  moreover have "keys_ok E (j_entries j @ [e]) (j_by_key j')" unfolding st(13) i using a by (intro keys_ok_append d(2)) simp
  moreover have "sites_ok (j_entries j @ [e]) (sites j')" unfolding st(15) i by (rule sites_ok_append [OF d(6)])
  moreover have "log_ok E (j_entries j @ [e]) (j_log j')" using st(3,4) d(4) by (simp add: log_ok_def)
  moreover have "shows_postings (balances j') (all_postings (j_entries j @ [e]))"
    unfolding st(5) using a apply_postings_shows [OF d(5)] by simp
  ultimately show "derived_ok E j'" by (simp add: derived_ok_def st(2))
qed

section \<open>What record_validated does\<close>

lemma record_validated_new:
  assumes "bt_get (j_by_key j) (e_key e) = None"
  shows "record_validated E e j = (Ok r, j') \<longleftrightarrow>
    (\<exists>after i. appendable E j e after \<and> append_entry E e after j = (i, j')
       \<and> r = \<lparr>rec_id = e_id e, rec_index = Some i, rec_hash = content_hash E e, rec_new = True\<rparr>)"
proof -
  have unit: "(x = Inr u) = (x = Inr ())" for x :: "journal_error + unit" and u by simp
  show ?thesis using assms
    by (cases "e_reverses e") (auto simp: record_validated_def appendable_def Let_def split: sum.splits prod.splits)
qed

lemma record_validated_Err: "record_validated E e j = (Err x, j') \<Longrightarrow> j' = j"
  by (auto simp: record_validated_def Let_def split: option.splits if_splits sum.splits prod.splits)

lemma record_validated_seen:
  "bt_get (j_by_key j) (e_key e) = Some found \<Longrightarrow> record_validated E e j = (replay found (content_hash E e), j)"
  by (simp add: record_validated_def Let_def)

lemma record_validated_cases:
  assumes "record_validated E e j = (Ok r, j')"
  obtains (seen) found where "bt_get (j_by_key j) (e_key e) = Some found" "replay found (content_hash E e) = Ok r" "j' = j"
  | (new) after i where "appendable E j e after" "append_entry E e after j = (i, j')"
      "r = \<lparr>rec_id = e_id e, rec_index = Some i, rec_hash = content_hash E e, rec_new = True\<rparr>"
proof (cases "bt_get (j_by_key j) (e_key e)")
  case None
  then show ?thesis using assms record_validated_new new by blast
next
  case (Some found)
  then show ?thesis using assms record_validated_seen seen by fastforce
qed

lemma record_derived_ok:
  assumes "derived_ok E j" "length (j_entries j) < u64_max" "record_validated E e j = (res, j')"
  shows "derived_ok E j'"
proof (cases res)
  case (Inl x)
  then show ?thesis using assms record_validated_Err by blast
next
  case (Inr r)
  then show ?thesis using assms(3) append_derived_ok(1) [OF assms(1,2)] assms(1)
    by (auto elim!: record_validated_cases)
qed

end
