(* ===== verification/Journal_Rollback.thy ===== *)
theory Journal_Rollback
  imports Journal_Inv
begin

text \<open>
  Rolling a journal back: undoing the last entries one by one and recomputing the touched balances
  gives the journal that held only the earlier entries, so a refused batch leaves no trace.
\<close>

section \<open>Undoing one entry\<close>

lemma ids_ok_remove:
  assumes "ids_ok (es @ [e]) m"
  shows "ids_ok es (bt_remove (e_id e) m)"
  unfolding ids_ok_def
proof (intro allI)
  fix i n
  note at = assms [unfolded ids_ok_def, rule_format]
  have last: "bt_get m (e_id e) = Some (length es)" by (simp add: at)
  show "bt_get (bt_remove (e_id e) m) i = Some n \<longleftrightarrow> n < length es \<and> e_id (es ! n) = i"
    using at [of i n] last by (auto simp: nth_append less_Suc_eq)
qed

lemma keys_ok_remove:
  assumes "keys_ok E (es @ [e]) m"
  shows "keys_ok E es (bt_remove (e_key e) m)"
  unfolding keys_ok_def
proof (intro allI)
  fix k x
  have at: "bt_get m k = Some x \<longleftrightarrow> (\<exists>n<length es. e_key (es ! n) = k \<and> x = (e_id (es ! n), n, content_hash E (es ! n)))
      \<or> e_key e = k \<and> x = (e_id e, length es, content_hash E e)" for k x
    using assms [unfolded keys_ok_def, rule_format, of k x]
      nth_snoc [of es "\<lambda>n f. e_key f = k \<and> x = (e_id f, n, content_hash E f)" e] by simp
  have last: "bt_get m (e_key e) = Some (e_id e, length es, content_hash E e)" by (simp add: at)
  show "bt_get (bt_remove (e_key e) m) k = Some x \<longleftrightarrow>
    (\<exists>n<length es. e_key (es ! n) = k \<and> x = (e_id (es ! n), n, content_hash E (es ! n)))"
  proof (cases "k = e_key e")
    case True
    have "\<not> (\<exists>n<length es. e_key (es ! n) = k)"
    proof
      assume "\<exists>n<length es. e_key (es ! n) = k"
      then obtain n where n: "n < length es" "e_key (es ! n) = k" by blast
      then have "bt_get m k = Some (e_id (es ! n), n, content_hash E (es ! n))" using at by blast
      then show False using last True n by simp
    qed
    then show ?thesis using True by auto
  qed (use at [of k x] in auto)
qed

lemma reversals_ok_remove:
  assumes "reversals_ok (es @ [e]) m" "\<And>original. e_reverses e = Some original \<Longrightarrow> \<forall>n<length es. e_reverses (es ! n) \<noteq> Some original"
  shows "reversals_ok es (case e_reverses e of None \<Rightarrow> m | Some original \<Rightarrow> bt_remove original m)"
  unfolding reversals_ok_def
proof (intro allI)
  fix original rev_id
  have at: "bt_get m original = Some rev_id \<longleftrightarrow> (\<exists>n<length es. e_reverses (es ! n) = Some original \<and> e_id (es ! n) = rev_id)
      \<or> e_reverses e = Some original \<and> e_id e = rev_id"
    using assms(1) [unfolded reversals_ok_def, rule_format, of original rev_id]
      nth_snoc [of es "\<lambda>n f. e_reverses f = Some original \<and> e_id f = rev_id" e] by simp
  show "bt_get (case e_reverses e of None \<Rightarrow> m | Some original \<Rightarrow> bt_remove original m) original = Some rev_id \<longleftrightarrow>
    (\<exists>n<length es. e_reverses (es ! n) = Some original \<and> e_id (es ! n) = rev_id)"
    using at assms(2) by (cases "e_reverses e") auto
qed

text \<open>Each entry is reversed at most once, also as a property of the list of entries alone.\<close>

definition single_reversals :: "entry list \<Rightarrow> bool" where
  "single_reversals es \<longleftrightarrow> (\<forall>m n original. m < length es \<longrightarrow> n < length es
     \<longrightarrow> e_reverses (es ! m) = Some original \<longrightarrow> e_reverses (es ! n) = Some original \<longrightarrow> m = n)"

lemma single_reversals_derived:
  assumes "derived_ok E j"
  shows "single_reversals (j_entries j)"
  unfolding single_reversals_def
proof (intro allI impI)
  fix m n original
  assume a: "m < length (j_entries j)" "n < length (j_entries j)"
    "e_reverses (j_entries j ! m) = Some original" "e_reverses (j_entries j ! n) = Some original"
  note d = derived_okD [OF assms]
  have "bt_get (reversed_by j) original = Some (e_id (j_entries j ! m))"
    "bt_get (reversed_by j) original = Some (e_id (j_entries j ! n))"
    using d(3) a unfolding reversals_ok_def by blast+
  then have "e_id (j_entries j ! m) = e_id (j_entries j ! n)" by simp
  then have "bt_get (j_by_id j) (e_id (j_entries j ! m)) = Some m" "bt_get (j_by_id j) (e_id (j_entries j ! m)) = Some n"
    using d(1) a by (simp_all add: ids_ok_def)
  then show "m = n" by simp
qed

section \<open>The loop\<close>

definition sites_left :: "entry list \<Rightarrow> nat \<Rightarrow> (balance_key, site list) btmap \<Rightarrow> bool" where
  "sites_left es n m \<longleftrightarrow> (\<forall>key. bt_get m key =
     (if key \<in> keys_of (all_postings es) then Some (sites_from key 0 (take n es)) else None))"

definition unwound :: "env \<Rightarrow> journal \<Rightarrow> nat \<Rightarrow> journal \<Rightarrow> (balance_key, unit) btmap \<Rightarrow> bool" where
  "unwound E j0 n j t \<longleftrightarrow> (let es = take n (j_entries j0) in
     n \<le> length (j_entries j0) \<and> j_entries j = es \<and> ids_ok es (j_by_id j) \<and> keys_ok E es (j_by_key j)
     \<and> reversals_ok es (reversed_by j) \<and> sites_left (j_entries j0) n (sites j)
     \<and> (\<forall>key. bt_get t key \<noteq> None \<longleftrightarrow> key \<in> keys_of (all_postings (drop n (j_entries j0))))
     \<and> balances j = balances j0 \<and> j_log j = j_log j0 \<and> j_ledger j = j_ledger j0 \<and> j_accounts j = j_accounts j0
     \<and> j_calendar j = j_calendar j0 \<and> j_policy j = j_policy j0 \<and> j_seals j = j_seals j0 \<and> clearings j = clearings j0)"

lemma filter_sites_last:
  "filter (\<lambda>s. site_index s \<noteq> length es) (sites_from key 0 (es @ [e])) = sites_from key 0 es"
proof -
  have "filter (\<lambda>s. site_index s \<noteq> length es) (sites_from key 0 es) = sites_from key 0 es"
    by (auto simp: filter_id_conv dest: sites_from_index)
  moreover have "filter (\<lambda>s. site_index s \<noteq> length es) (entry_sites key (length es) e) = []"
    by (auto simp: filter_empty_conv dest: entry_sites_index)
  ultimately show ?thesis by simp
qed

lemma undo_last_unwound:
  assumes "unwound E j0 (Suc n) j t" "single_reversals (j_entries j0)" "undo_last j t = (j', t')"
  shows "unwound E j0 n j' t'"
proof -
  let ?es = "take n (j_entries j0)" and ?e = "j_entries j0 ! n"
  have n: "n < length (j_entries j0)" using assms(1) by (simp add: unwound_def Let_def)
  have snoc: "take (Suc n) (j_entries j0) = ?es @ [?e]" using n by (simp add: take_Suc_conv_app_nth)
  have len: "length ?es = n" using n by simp
  have old: "j_entries j = ?es @ [?e]" "ids_ok (?es @ [?e]) (j_by_id j)" "keys_ok E (?es @ [?e]) (j_by_key j)"
    "reversals_ok (?es @ [?e]) (reversed_by j)" "sites_left (j_entries j0) (Suc n) (sites j)"
    "\<And>key. bt_get t key \<noteq> None \<longleftrightarrow> key \<in> keys_of (all_postings (drop (Suc n) (j_entries j0)))"
    using assms(1) snoc by (simp_all add: unwound_def Let_def)
  obtain ss t1 where f: "foldl (undo_sites n) (sites j, t) (e_postings ?e) = (ss, t1)" by fastforce
  have j': "j' = j\<lparr>j_entries := ?es, j_by_id := bt_remove (e_id ?e) (j_by_id j), j_by_key := bt_remove (e_key ?e) (j_by_key j),
      reversed_by := (case e_reverses ?e of None \<Rightarrow> reversed_by j | Some original \<Rightarrow> bt_remove original (reversed_by j)),
      sites := ss\<rparr>" "t' = t1"
    using assms(3) f len by (simp_all add: undo_last_def Let_def old(1))
  have "\<forall>m<length ?es. e_reverses (?es ! m) \<noteq> Some original" if "e_reverses ?e = Some original" for original
    using assms(2) n that unfolding single_reversals_def by (metis len nat_less_le nth_take order.strict_trans)
  then have rev: "reversals_ok ?es (case e_reverses ?e of None \<Rightarrow> reversed_by j | Some original \<Rightarrow> bt_remove original (reversed_by j))"
    by (rule reversals_ok_remove [OF old(4)])
  have "bt_get ss key = (if key \<in> keys_of (all_postings (j_entries j0)) then Some (sites_from key 0 ?es) else None)" for key
  proof -
    have "bt_get ss key = (if key \<in> keys_of (e_postings ?e) then map_option (filter (\<lambda>s. site_index s \<noteq> n)) (bt_get (sites j) key)
        else bt_get (sites j) key)"
      using get_undo_sites [of n "sites j" t "e_postings ?e" key] f by simp
    moreover have "bt_get (sites j) key = (if key \<in> keys_of (all_postings (j_entries j0)) then Some (sites_from key 0 (?es @ [?e])) else None)"
      using old(5) snoc by (simp add: sites_left_def)
    moreover have "filter (\<lambda>s. site_index s \<noteq> n) (sites_from key 0 (?es @ [?e])) = sites_from key 0 ?es"
      using filter_sites_last [of ?es key ?e] len by simp
    moreover have "sites_from key 0 (?es @ [?e]) = sites_from key 0 ?es" if "key \<notin> keys_of (e_postings ?e)"
      using that entry_sites_Nil [of key n ?e] len by simp
    ultimately show ?thesis by simp
  qed
  then have "sites_left (j_entries j0) n ss" by (simp add: sites_left_def)
  moreover have "bt_get t1 key \<noteq> None \<longleftrightarrow> key \<in> keys_of (all_postings (drop n (j_entries j0)))" for key
    using undo_touched [of n "sites j" t "e_postings ?e" key] f old(6) [of key] Cons_nth_drop_Suc [OF n, symmetric]
    by (simp add: image_Un)
  ultimately show ?thesis
    using assms(1) ids_ok_remove [OF old(2)] keys_ok_remove [OF old(3)] rev n
    by (simp add: unwound_def Let_def j')
qed

lemma undo_loop_unwound:
  assumes "unwound E j0 n j t" "single_reversals (j_entries j0)" "mark \<le> n" "undo_loop mark (j, t) = (j', t')"
  shows "unwound E j0 mark j' t'"
  using assms
proof (induction "n - mark" arbitrary: n j t)
  case 0
  then have "n = mark" "length (j_entries j) = mark" by (auto simp: unwound_def Let_def)
  then show ?case using 0 by (simp add: undo_loop.simps)
next
  case (Suc k)
  then have "mark < n" by simp
  then obtain m where m: "n = Suc m" "mark \<le> m" by (cases n) auto
  obtain j1 t1 where u: "undo_last j t = (j1, t1)" by fastforce
  have "length (j_entries j) = n" using Suc.prems(1) by (simp add: unwound_def Let_def)
  then have "undo_loop mark (j1, t1) = (j', t')" using Suc.prems(4) m u by (subst (asm) undo_loop.simps) simp
  moreover have "unwound E j0 m j1 t1" using undo_last_unwound Suc.prems(1,2) u m by blast
  moreover have "k = m - mark" using Suc.hyps(2) m by simp
  ultimately show ?case using Suc.hyps(1) Suc.prems(2) m(2) by blast
qed

section \<open>Reading postings back\<close>

lemma postings_prefix_eq:
  assumes "sites_of j key = sites_from key 0 (j_entries j)" "\<forall>e\<in>set (j_entries j). short e"
  shows "postings_on_prefix j key None = filter (\<lambda>p. key_of_posting p = key) (all_postings (j_entries j))"
    "postings_on_prefix j key (Some m) = filter (\<lambda>p. key_of_posting p = key) (all_postings (take m (j_entries j)))"
proof -
  have r: "List.map_filter (resolve j) (sites_from key 0 es) = touching key es" if "es = take n (j_entries j)" for es n
    using that assms(2) by (intro resolve_sites) (auto simp: entry_at_def dest: in_set_takeD)
  show "postings_on_prefix j key None = filter (\<lambda>p. key_of_posting p = key) (all_postings (j_entries j))"
    using r [of "j_entries j" "length (j_entries j)"] by (simp add: postings_on_prefix_def assms(1) map_filter_comp touching_postings takeWhile_eq_all_conv [THEN iffD2])
  show "postings_on_prefix j key (Some m) = filter (\<lambda>p. key_of_posting p = key) (all_postings (take m (j_entries j)))"
    using r [of "take m (j_entries j)" m] by (simp add: postings_on_prefix_def assms(1) sites_prefix map_filter_comp touching_postings)
qed

definition fits_i64 :: "entry list \<Rightarrow> bool" where
  "fits_i64 es \<longleftrightarrow> (\<forall>p\<in>set (all_postings es). 0 < amt (p_amount p)) \<and> (\<forall>key d. moved d key (all_postings es) \<le> i64_max)"

lemma fold_key:
  assumes "fits_i64 es" "qs = filter (\<lambda>p. key_of_posting p = key) (all_postings es)"
  shows "\<exists>b. fold_balance balance_zero qs = Ok b \<and> (\<forall>d. side d b = moved d key (all_postings es))"
proof -
  have "\<exists>b. fold_balance balance_zero qs = Ok b"
    using assms by (intro fold_balance_total [of _ key]) (auto simp: fits_i64_def moved_filter)
  then obtain b where b: "fold_balance balance_zero qs = Ok b" ..
  have "side d b = side d balance_zero + moved d key qs" for d
    using fold_balance_Ok [OF _ b, of key d] assms(2) by simp
  then show ?thesis using b assms(2) by (simp add: moved_filter)
qed

section \<open>Restoring the touched keys\<close>

definition same_base :: "journal \<Rightarrow> journal \<Rightarrow> bool" where
  "same_base j k \<longleftrightarrow> j_entries j = j_entries k \<and> j_by_id j = j_by_id k \<and> j_by_key j = j_by_key k \<and> reversed_by j = reversed_by k
     \<and> j_log j = j_log k \<and> j_ledger j = j_ledger k \<and> j_accounts j = j_accounts k \<and> j_calendar j = j_calendar k
     \<and> j_policy j = j_policy k \<and> j_seals j = j_seals k \<and> clearings j = clearings k"

definition good_key :: "journal \<Rightarrow> balance_key \<Rightarrow> bool" where
  "good_key j k \<longleftrightarrow> (let ps = all_postings (j_entries j) in
     bt_get (sites j) k = (if k \<in> keys_of ps then Some (sites_from k 0 (j_entries j)) else None)
     \<and> (\<forall>d. side d (tb_get_or_zero (balances j) k) = moved d k ps)
     \<and> (bt_get (balances j) k \<noteq> None \<longleftrightarrow> k \<in> keys_of ps))"

definition sites_there :: "journal \<Rightarrow> bool" where
  "sites_there j \<longleftrightarrow> (\<forall>k. sites_of j k = sites_from k 0 (j_entries j)
     \<and> (k \<in> keys_of (all_postings (j_entries j)) \<longrightarrow> bt_get (sites j) k = Some (sites_from k 0 (j_entries j))))"

lemma moved_absent: "key \<notin> keys_of ps \<Longrightarrow> moved d key ps = 0"
  by (induction ps) auto

lemma restore_key_good:
  assumes "sites_there j" "\<forall>e\<in>set (j_entries j). short e" "fits_i64 (j_entries j)"
  shows "same_base (restore_key j key) j" "sites_there (restore_key j key)" "good_key (restore_key j key) key"
    "\<And>k. k \<noteq> key \<Longrightarrow> good_key (restore_key j key) k \<longleftrightarrow> good_key j k"
proof -
  let ?keys = "keys_of (all_postings (j_entries j))"
  have nil: "sites_of j key \<noteq> [] \<longleftrightarrow> key \<in> ?keys" using assms(1) sites_from_Nil by (simp add: sites_there_def)
  obtain b where b: "fold_balance balance_zero (postings_on_prefix j key None) = Ok b" "\<forall>d. side d b = moved d key (all_postings (j_entries j))"
    using fold_key [OF assms(3)] postings_prefix_eq(1) [OF _ assms(2), of key] assms(1) unfolding sites_there_def by blast
  have r: "restore_key j key = (if key \<in> ?keys then j\<lparr>balances := bt_insert key b (balances j)\<rparr>
      else j\<lparr>sites := bt_remove key (sites j), balances := bt_remove key (balances j)\<rparr>)"
    using nil b(1) by (simp add: restore_key_def tb_set_def tb_remove_def)
  have empty: "sites_from key 0 (j_entries j) = []" if "key \<notin> ?keys"
    using that sites_from_Nil by blast
  show "same_base (restore_key j key) j" by (simp add: r same_base_def)
  show "sites_there (restore_key j key)"
    using assms(1) empty by (auto simp: r sites_there_def sites_of_def)
  show "good_key (restore_key j key) key"
    using assms(1) b(2) by (auto simp: r good_key_def Let_def sites_there_def tb_get_or_zero_def moved_absent)
  show "\<And>k. k \<noteq> key \<Longrightarrow> good_key (restore_key j key) k \<longleftrightarrow> good_key j k"
    by (simp add: r good_key_def Let_def tb_get_or_zero_def)
qed

lemma restore_keys:
  assumes "sites_there j" "\<forall>e\<in>set (j_entries j). short e" "fits_i64 (j_entries j)" "\<forall>k. k \<notin> set ks \<longrightarrow> good_key j k"
  shows "same_base (foldl restore_key j ks) j \<and> (\<forall>k. good_key (foldl restore_key j ks) k)"
  using assms
proof (induction ks arbitrary: j)
  case Nil
  then show ?case by (simp add: same_base_def)
next
  case (Cons key ks)
  note r = restore_key_good [OF Cons.prems(1-3), where key = key]
  have es: "j_entries (restore_key j key) = j_entries j" using r(1) by (simp add: same_base_def)
  have "good_key (restore_key j key) k" if "k \<notin> set ks" for k
    using r(3) r(4) [of k] Cons.prems(4) that by (cases "k = key") simp_all
  then have "same_base (foldl restore_key (restore_key j key) ks) (restore_key j key)
      \<and> (\<forall>k. good_key (foldl restore_key (restore_key j key) ks) k)"
    using Cons.IH [OF r(2)] Cons.prems(2,3) es by simp
  then show ?case using r(1) by (simp add: same_base_def)
qed

section \<open>Rolling back is exact\<close>

lemma shows_short: "sound_entry e \<Longrightarrow> short e"
  by (simp add: sound_entry_def short_def max_postings_def)

lemma fits_take:
  assumes "\<forall>e\<in>set es. sound_entry e" "shows_postings tb (all_postings es)"
  shows "fits_i64 (take n es)"
  unfolding fits_i64_def
proof (intro conjI allI ballI)
  have pos: "\<forall>p\<in>set (all_postings xs). 0 < amt (p_amount p)" if "set xs \<subseteq> set es" for xs
    using assms(1) that by (auto simp: all_postings_def sound_entry_def)
  show "0 < amt (p_amount p)" if "p \<in> set (all_postings (take n es))" for p
    using pos [OF set_take_subset] that by blast
  fix key d
  have "moved d key (all_postings es) = moved d key (all_postings (take n es)) + moved d key (all_postings (drop n es))"
    by (metis all_postings_simps(3) append_take_drop_id moved_simps(3))
  moreover have "0 \<le> moved d key (all_postings (drop n es))" using pos [OF set_drop_subset] by (rule moved_nonneg)
  moreover have "moved d key (all_postings es) \<le> i64_max"
    using shows_side [OF assms(2), of d key] in_i64_le [OF side_in_range, of d "tb_get_or_zero tb key"] by simp
  ultimately show "moved d key (all_postings (take n es)) \<le> i64_max" by simp
qed

lemma rollback_derived_ok:
  assumes "derived_ok E j" "\<forall>e\<in>set (j_entries j). sound_entry e" "length (j_entries j) \<le> u64_max" "mark \<le> length (j_entries j)"
  shows "derived_ok E (rollback_to E mark j)" "j_entries (rollback_to E mark j) = take mark (j_entries j)"
    "j_ledger (rollback_to E mark j) = j_ledger j" "j_accounts (rollback_to E mark j) = j_accounts j"
    "j_calendar (rollback_to E mark j) = j_calendar j" "j_policy (rollback_to E mark j) = j_policy j"
    "j_seals (rollback_to E mark j) = j_seals j" "clearings (rollback_to E mark j) = clearings j"
proof -
  let ?es = "j_entries j"
  note d = derived_okD [OF assms(1)]
  obtain j1 t where u: "undo_loop mark (j, bt_empty) = (j1, t)" by fastforce
  define j2 where "j2 = j1\<lparr>j_log := log_truncate (env_b3 E) (j_log j1) (length (j_entries j1))\<rparr>"
  have start: "unwound E j (length ?es) j bt_empty"
    using d by (simp add: unwound_def Let_def sites_left_def sites_ok_def)
  have w: "unwound E j mark j1 t"
    by (rule undo_loop_unwound [OF start single_reversals_derived [OF assms(1)] assms(4) u])
  have e1: "j_entries j1 = take mark ?es" "j_log j1 = j_log j" using w by (simp_all add: unwound_def Let_def)
  have e2: "j_entries j2 = take mark ?es" "sites j2 = sites j1" "balances j2 = balances j"
    using w by (simp_all add: j2_def unwound_def Let_def)
  have short: "\<forall>e\<in>set (j_entries j2). short e" using assms(2) e2 shows_short by (auto dest: in_set_takeD)
  have fits: "fits_i64 (j_entries j2)" unfolding e2 by (rule fits_take [OF assms(2) d(5)])
  have split: "keys_of (all_postings ?es) = keys_of (all_postings (take mark ?es)) \<union> keys_of (all_postings (drop mark ?es))"
    by (metis append_take_drop_id all_postings_simps(3) image_Un set_append)
  have left: "bt_get (sites j2) k = (if k \<in> keys_of (all_postings ?es) then Some (sites_from k 0 (take mark ?es)) else None)" for k
    using w e2 by (simp add: unwound_def Let_def sites_left_def)
  have there: "sites_there j2"
    using left split by (auto simp: sites_there_def sites_of_def e2 sites_from_Nil [THEN iffD2])
  have touched: "k \<in> set (bt_keys t) \<longleftrightarrow> k \<in> keys_of (all_postings (drop mark ?es))" for k
    using w by (simp add: unwound_def Let_def flip: bt_contains_keys) (simp add: bt_contains_def)
  have others: "good_key j2 k" if "k \<notin> set (bt_keys t)" for k
  proof -
    have k: "k \<notin> keys_of (all_postings (drop mark ?es))" using that touched by simp
    have "moved d k (all_postings ?es) = moved d k (all_postings (take mark ?es))" for d
      using moved_absent [OF k] by (metis all_postings_simps(3) append_take_drop_id moved_simps(3) add_0_right)
    then show ?thesis
      using d(5) k split left by (auto simp: good_key_def Let_def e2 shows_postings_def)
  qed
  have roll: "rollback_to E mark j = foldl restore_key j2 (bt_keys t)"
    by (simp add: rollback_to_def u j2_def Let_def)
  have base: "same_base (rollback_to E mark j) j2" "\<And>k. good_key (rollback_to E mark j) k"
    using restore_keys [OF there short fits, of "bt_keys t"] others roll by auto
  show es: "j_entries (rollback_to E mark j) = take mark ?es" using base(1) e2 by (simp add: same_base_def)
  show "j_ledger (rollback_to E mark j) = j_ledger j" "j_accounts (rollback_to E mark j) = j_accounts j"
    "j_calendar (rollback_to E mark j) = j_calendar j" "j_policy (rollback_to E mark j) = j_policy j"
    "j_seals (rollback_to E mark j) = j_seals j" "clearings (rollback_to E mark j) = clearings j"
    using base(1) w by (simp_all add: same_base_def j2_def unwound_def Let_def)
  have "log_ok E (take mark ?es) (j_log j2)"
    using d(4) log_truncate_good [of "env_b3 E" "j_log j" mark] assms(3,4) e1
    by (simp add: log_ok_def j2_def log_len_def take_map min_absorb2)
  moreover have "shows_postings (balances (rollback_to E mark j)) (all_postings (take mark ?es))"
    "sites_ok (take mark ?es) (sites (rollback_to E mark j))"
    using base(2) es by (simp_all add: good_key_def Let_def shows_postings_def sites_ok_def)
  moreover have "ids_ok (take mark ?es) (j_by_id j2)" "keys_ok E (take mark ?es) (j_by_key j2)"
    "reversals_ok (take mark ?es) (reversed_by j2)"
    using w by (simp_all add: j2_def unwound_def Let_def)
  ultimately show "derived_ok E (rollback_to E mark j)"
    using base(1) by (simp add: derived_ok_def es same_base_def)
qed

section \<open>Batches\<close>

text \<open>The state recording does not touch.\<close>

definition same_rest :: "journal \<Rightarrow> journal \<Rightarrow> bool" where
  "same_rest j k \<longleftrightarrow> j_ledger j = j_ledger k \<and> j_accounts j = j_accounts k \<and> j_calendar j = j_calendar k
     \<and> j_policy j = j_policy k \<and> j_seals j = j_seals k \<and> clearings j = clearings k"

lemma same_rest_refl [simp]: "same_rest j j"
  by (simp add: same_rest_def)

lemma same_rest_trans: "same_rest i j \<Longrightarrow> same_rest j k \<Longrightarrow> same_rest i k"
  by (simp add: same_rest_def)

lemma record_validated_grows:
  assumes "derived_ok E j" "length (j_entries j) < u64_max" "record_validated E e j = (res, j')"
  shows "derived_ok E j'" "same_rest j' j" "j_entries j' = j_entries j \<or> j_entries j' = j_entries j @ [e]"
proof -
  show "derived_ok E j'" by (rule record_derived_ok [OF assms])
  have d: "good_log (env_b3 E) (j_log j)" "log_len (j_log j) < u64_max"
    using derived_okD(4) [OF assms(1)] assms(2) by (simp_all add: log_ok_def log_len_def)
  have "same_rest j' j \<and> (j_entries j' = j_entries j \<or> j_entries j' = j_entries j @ [e])"
  proof (cases res)
    case (Inl x)
    then show ?thesis using record_validated_Err [of E e j x j'] assms(3) by simp
  next
    case (Inr r)
    show ?thesis using assms(3) unfolding Inr
    proof (cases rule: record_validated_cases)
      case (new after i)
      then show ?thesis using append_entry_state [OF d new(2)] by (simp add: same_rest_def)
    qed simp
  qed
  then show "same_rest j' j" "j_entries j' = j_entries j \<or> j_entries j' = j_entries j @ [e]" by auto
qed

definition batch_from :: "env \<Rightarrow> journal \<Rightarrow> journal \<Rightarrow> bool" where
  "batch_from E j0 j \<longleftrightarrow> derived_ok E j \<and> same_rest j j0 \<and> (\<forall>e\<in>set (j_entries j). sound_entry e)
     \<and> length (j_entries j0) \<le> length (j_entries j) \<and> take (length (j_entries j0)) (j_entries j) = j_entries j0"

lemma batch_rolls_back:
  assumes "derived_ok E j0" "batch_from E j0 j" "length (j_entries j) \<le> u64_max"
  shows "rollback_to E (length (j_entries j0)) j = j0"
  using assms rollback_derived_ok [of E j "length (j_entries j0)"]
  by (intro derived_unique) (simp_all add: batch_from_def same_rest_def)

lemma record_all_outcome:
  assumes "derived_ok E j0" "batch_from E j0 j" "\<forall>e\<in>set es. sound_entry e" "length (j_entries j) + length es \<le> u64_max"
    and "record_all E (length (j_entries j0)) out es j = (res, j')"
  shows "(\<forall>x. res = Err x \<longrightarrow> j' = j0) \<and> (\<forall>rs. res = Ok rs \<longrightarrow> batch_from E j0 j'
    \<and> length (j_entries j') \<le> length (j_entries j) + length es \<and> (\<exists>more. rs = out @ more \<and> length more = length es))"
  using assms(2-)
proof (induction es arbitrary: j out)
  case (Cons e es)
  obtain r j1 where r: "record_validated E e j = (r, j1)" by fastforce
  have "derived_ok E j" "length (j_entries j) < u64_max" using Cons.prems by (auto simp: batch_from_def)
  note g = record_validated_grows [OF this r]
  have len: "length (j_entries j1) \<le> Suc (length (j_entries j))" using g(3) by auto
  have "\<forall>f\<in>set (j_entries j1). sound_entry f" using g(3) Cons.prems(1,2) by (auto simp: batch_from_def)
  moreover have "take (length (j_entries j0)) (j_entries j1) = j_entries j0" "length (j_entries j0) \<le> length (j_entries j1)"
    using g(3) Cons.prems(1) by (auto simp: batch_from_def)
  ultimately have b: "batch_from E j0 j1" using g(1,2) Cons.prems(1) same_rest_trans by (auto simp: batch_from_def)
  show ?case
  proof (cases r)
    case (Inl x)
    then show ?thesis using Cons.prems(3,4) r batch_rolls_back [OF assms(1) b] len by auto
  next
    case (Inr rec)
    then have run: "record_all E (length (j_entries j0)) (out @ [rec]) es j1 = (res, j')" using Cons.prems(4) r by simp
    have size: "length (j_entries j1) + length es \<le> u64_max" using Cons.prems(3) len by simp
    from Cons.IH [OF b _ size run] Cons.prems(2) len show ?thesis by (auto simp: less_Suc_eq_le)
  qed
qed auto

lemma record_batch_outcome:
  assumes "derived_ok E j" "\<forall>e\<in>set (j_entries j). sound_entry e" "\<forall>e\<in>set es. sound_entry e"
    and "length (j_entries j) + length es \<le> u64_max" "record_batch E es j = (res, j')"
  shows "res = Err x \<Longrightarrow> j' = j"
    "res = Ok rs \<Longrightarrow> batch_from E j j' \<and> length (j_entries j') \<le> length (j_entries j) + length es \<and> length rs = length es"
  using record_all_outcome [OF assms(1) _ assms(3,4) assms(5) [unfolded record_batch_def]] assms(1,2)
  by (auto simp: batch_from_def)

end
