(* ===== verification/Journal_Reports.thy ===== *)
theory Journal_Reports
  imports Journal
begin

text \<open>
  The rest of \<^verbatim>\<open>src/journal.rs\<close>: proofs about the log, statements, clearing through the journal, sealing
  periods, sealed balances, checkpoints and assertions.
\<close>

section \<open>Proofs about the log\<close>

definition journal_head :: "env \<Rightarrow> journal \<Rightarrow> tree_head" where
  "journal_head E j = log_head (env_b3 E) (j_log j)"

definition journal_head_at :: "env \<Rightarrow> journal \<Rightarrow> nat \<Rightarrow> (proof_error, tree_head) res" where
  "journal_head_at E j n = head_at (env_b3 E) (j_log j) n"

definition prove_inclusion :: "env \<Rightarrow> journal \<Rightarrow> log_index \<Rightarrow> (proof_error, inclusion_proof) res" where
  "prove_inclusion E j i = log_inclusion_proof (env_b3 E) (j_log j) i"

definition prove_inclusion_at :: "env \<Rightarrow> journal \<Rightarrow> log_index \<Rightarrow> nat \<Rightarrow> (proof_error, inclusion_proof) res" where
  "prove_inclusion_at E j i n = inclusion_proof_at (env_b3 E) (j_log j) i n"

definition prove_consistency :: "env \<Rightarrow> journal \<Rightarrow> nat \<Rightarrow> (proof_error, consistency_proof) res" where
  "prove_consistency E j m = log_consistency_proof (env_b3 E) (j_log j) m"

definition prove_consistency_between :: "env \<Rightarrow> journal \<Rightarrow> nat \<Rightarrow> nat \<Rightarrow> (proof_error, consistency_proof) res" where
  "prove_consistency_between E j m n = consistency_proof_between (env_b3 E) (j_log j) m n"

definition verify_log :: "env \<Rightarrow> journal \<Rightarrow> bool" where
  "verify_log E j \<longleftrightarrow>
     (if log_len (j_log j) \<noteq> length (j_entries j) then False
      else if \<not> verify_incremental_state (env_b3 E) (j_log j) then False
      else log_root (env_b3 E) (log_from_leaves (env_b3 E) (map (content_hash E) (j_entries j))) = log_root (env_b3 E) (j_log j))"

section \<open>Statements\<close>

record statement_line =
  ln_index :: log_index
  ln_posting :: posting_ref
  ln_booking_date :: date
  ln_direction :: direction
  ln_amount :: amount
  ln_running :: balance
  ln_kind :: "label option"

definition statement_step :: "journal \<Rightarrow> balance \<times> statement_line list \<Rightarrow> site
    \<Rightarrow> (money_error, balance \<times> statement_line list) res" where
  "statement_step j st s =
     (case (st, resolve j s) of
        (_, None) \<Rightarrow> Ok st
      | ((running, out), Some (e, p)) \<Rightarrow>
          bindR (balance_add running (p_direction p) (p_amount p)) (\<lambda>b.
          Ok (b, out @ [\<lparr>ln_index = site_index s, ln_posting = PostingRef (e_id e) (site_posting s),
                         ln_booking_date = booking_date e, ln_direction = p_direction p, ln_amount = p_amount p,
                         ln_running = b, ln_kind = e_kind e\<rparr>])))"

definition statement :: "journal \<Rightarrow> balance_key \<Rightarrow> (money_error, statement_line list) res" where
  "statement j key = bindR (try_fold (statement_step j) (balance_zero, []) (sites_of j key)) (\<lambda>(_, out). Ok out)"

section \<open>Clearing\<close>

definition clear :: "env \<Rightarrow> clearing \<Rightarrow> journal \<Rightarrow> (journal_error, unit) res \<times> journal" where
  "clear E c j =
     (case clear_register E c (journal_posting j) (clearings j) of
        (res, r) \<Rightarrow> (map_err JournalClearing res, j\<lparr>clearings := r\<rparr>))"

definition reset_clearing :: "clearing_id \<Rightarrow> date \<Rightarrow> journal \<Rightarrow> (journal_error, unit) res \<times> journal" where
  "reset_clearing i on j =
     (case reset_register i on (clearings j) of (res, r) \<Rightarrow> (map_err JournalClearing res, j\<lparr>clearings := r\<rparr>))"

definition open_candidates :: "journal \<Rightarrow> balance_key \<Rightarrow> (posting_position \<times> posting_ref) list" where
  "open_candidates j key =
     List.map_filter (\<lambda>s. map_option (\<lambda>e. (\<lparr>pos_index = site_index s, pos_posting = site_posting s\<rparr>,
         PostingRef (e_id e) (site_posting s))) (entry_at j (site_index s))) (sites_of j key)"

definition open_items :: "journal \<Rightarrow> balance_key \<Rightarrow> (journal_error, open_item list) res" where
  "open_items j key =
     map_err JournalClearing (register_open_items (clearings j) (open_candidates j key) (journal_posting j))"

section \<open>Periods and seals\<close>

definition cover_entry :: "date \<Rightarrow> date \<Rightarrow> period_coverage \<Rightarrow> nat \<times> entry \<Rightarrow> period_coverage" where
  "cover_entry start end_day cov ie =
     (case ie of (i, e) \<Rightarrow>
      if booking_date e \<ge> start \<and> booking_date e \<le> end_day
      then \<lparr>cov_first = (case cov_first cov of None \<Rightarrow> Some i | Some f \<Rightarrow> Some f), cov_last = Some i,
            cov_count = min u64_max (cov_count cov + 1)\<rparr>
      else cov)"

definition coverage :: "journal \<Rightarrow> date \<Rightarrow> date \<Rightarrow> period_coverage" where
  "coverage j start end_day = foldl (cover_entry start end_day) coverage_empty (enumerate 0 (j_entries j))"

definition seal_period :: "env \<Rightarrow> period_id \<Rightarrow> journal \<Rightarrow> (journal_error, seal) res \<times> journal" where
  "seal_period E i j =
     (case check_sealable (j_calendar j) i of
        Err x \<Rightarrow> (Err (JournalPeriod x), j)
      | Ok definition_of_period \<Rightarrow>
          (case trial_balance_through_date j (pd_end definition_of_period) of
             Err x \<Rightarrow> (Err (JournalMoney x), j)
           | Ok closing \<Rightarrow>
               let s = seal_build E (j_ledger j) i (coverage j (pd_start definition_of_period) (pd_end definition_of_period))
                         (journal_head E j) closing (commitment (env_b3 E) (j_accounts j)) (chain_head (j_seals j)) in
               (case chain_push (env_b3 E) s (j_seals j) of
                  (Err x, ch) \<Rightarrow> (Err (JournalSeal x), j\<lparr>j_seals := ch\<rparr>)
                | (Ok _, ch) \<Rightarrow>
                    (case transition i Sealed (j_calendar j) of
                       (Err x, c) \<Rightarrow> (Err (JournalPeriod x), j\<lparr>j_seals := ch, j_calendar := c\<rparr>)
                     | (Ok _, c) \<Rightarrow> (Ok s, j\<lparr>j_seals := ch, j_calendar := c\<rparr>)))))"

definition verify_seals :: "env \<Rightarrow> journal \<Rightarrow> (seal_chain_error, unit) res" where
  "verify_seals E j = chain_verify (env_b3 E) (j_seals j)"

definition prove_sealed_balance :: "env \<Rightarrow> journal \<Rightarrow> period_id \<Rightarrow> balance_key \<Rightarrow> (journal_error, sealed_balance_outcome) res" where
  "prove_sealed_balance E j i key =
     (case chain_get (j_seals j) i of
        None \<Rightarrow> Err (JournalSealedBalance (NotSealed i))
      | Some s \<Rightarrow>
          (case cal_get (j_calendar j) (sl_period s) of
             None \<Rightarrow> Err (JournalSealedBalance (UndefinedPeriod i))
           | Some pd \<Rightarrow>
               bindR (map_err JournalMoney (trial_balance_through_date j (pd_end pd))) (\<lambda>closing.
               map_err JournalSealedBalance (assemble E s closing (j_accounts j) key))))"

section \<open>Checkpoints and assertions\<close>

definition take_checkpoint :: "env \<Rightarrow> journal \<Rightarrow> balance_key \<Rightarrow> (money_error, checkpoint) res" where
  "take_checkpoint E j key = bindR (balance_at j key None) (\<lambda>b. Ok (checkpoint_new key b (journal_head E j)))"

definition verify_checkpoint :: "env \<Rightarrow> journal \<Rightarrow> checkpoint \<Rightarrow> (checkpoint_error, unit) res" where
  "verify_checkpoint E j c =
     (let n = cp_size c in
      if n > length (j_entries j) then Err (CpSizeOutOfRange n)
      else bindR (map_err (\<lambda>_. CpSizeOutOfRange n) (journal_head_at E j n)) (\<lambda>head.
        if head \<noteq> cp_tree_head c then Err HeadMismatch
        else bindR (map_err CheckpointMoney (balance_at j (cp_key c) (Some n))) (\<lambda>actual.
          if actual = cp_balance c then Ok () else Err BalanceMismatch)))"

definition check_assertion :: "journal \<Rightarrow> balance_assertion \<Rightarrow> (money_error, assertion_outcome) res" where
  "check_assertion j a =
     bindR (case as_at a of
        Now \<Rightarrow> balance_at j (as_key a) None
      | Prefix n \<Rightarrow> balance_at j (as_key a) (Some n)
      | OnDate d \<Rightarrow> balance_on_date j (as_key a) d) (assertion_check a)"

end
