(* ===== verification/Calendar.thy ===== *)
theory Calendar
  imports Period
begin

text \<open>
  What the period calendar promises: the start index and the table agree and the ranges are disjoint
  after every operation, so looking at the two neighbours by start date is as good as looking at all
  periods; and the watermark covers every sealed period and never moves back.
\<close>

section \<open>The invariant\<close>

definition cal_inv :: "calendar \<Rightarrow> bool" where
  "cal_inv c \<longleftrightarrow>
     (\<forall>i p. bt_get (periods c) i = Some p \<longrightarrow> pd_id p = i \<and> pd_start p \<le> pd_end p)
     \<and> (\<forall>i j p q. bt_get (periods c) i = Some p \<and> bt_get (periods c) j = Some q \<and> i \<noteq> j \<longrightarrow> \<not> overlaps p q)
     \<and> (\<forall>d i. bt_get (by_start c) d = Some i \<longleftrightarrow> (\<exists>p. bt_get (periods c) i = Some p \<and> pd_start p = d))
     \<and> (\<forall>i p. bt_get (periods c) i = Some p \<and> pd_state p = Sealed \<longrightarrow> (\<exists>w. sealed_through c = Some w \<and> pd_end p \<le> w))"

lemma cal_period:
  assumes "cal_inv c" "bt_get (periods c) i = Some p"
  shows "pd_id p = i" "pd_start p \<le> pd_end p" "bt_get (by_start c) (pd_start p) = Some i"
    "pd_state p = Sealed \<Longrightarrow> \<exists>w. sealed_through c = Some w \<and> pd_end p \<le> w"
  using assms by (auto simp: cal_inv_def)

lemma cal_disjoint:
  "cal_inv c \<Longrightarrow> bt_get (periods c) i = Some p \<Longrightarrow> bt_get (periods c) j = Some q \<Longrightarrow> i \<noteq> j \<Longrightarrow> \<not> overlaps p q"
  by (simp add: cal_inv_def)

lemma cal_index:
  "cal_inv c \<Longrightarrow> bt_get (by_start c) d = Some i \<longleftrightarrow> (\<exists>p. bt_get (periods c) i = Some p \<and> pd_start p = d)"
  by (simp add: cal_inv_def)

lemma overlaps_sym: "overlaps p q \<longleftrightarrow> overlaps q p"
  by (auto simp: overlaps_def)

text \<open>The period behind a neighbour.\<close>

lemma start_before_Some:
  assumes "cal_inv c" "start_before c d = Some i"
  obtains p where "bt_get (periods c) i = Some p" "pd_start p \<le> d"
    "\<And>j q. bt_get (periods c) j = Some q \<Longrightarrow> pd_start q \<le> d \<Longrightarrow> pd_start q \<le> pd_start p"
proof -
  obtain s where s: "bt_floor (by_start c) d = Some (s, i)" using assms(2) by (auto simp: start_before_def)
  then obtain p where p: "bt_get (periods c) i = Some p" "pd_start p = s"
    using bt_floor_Some(1) [OF s] by (auto simp: cal_index [OF assms(1)])
  have "pd_start q \<le> pd_start p" if "bt_get (periods c) j = Some q" "pd_start q \<le> d" for j q
    using bt_floor_Some(3) [OF s] cal_period(3) [OF assms(1) that(1)] that(2) p(2) by auto
  with that [of p] p bt_floor_Some(2) [OF s] show ?thesis by blast
qed

lemma start_before_None:
  "cal_inv c \<Longrightarrow> start_before c d = None \<Longrightarrow> bt_get (periods c) j = Some q \<Longrightarrow> d < pd_start q"
  using cal_period(3) [of c j q] by (auto simp: start_before_def bt_floor_None)

lemma start_after_Some:
  assumes "cal_inv c" "start_after c d = Some i"
  obtains p where "bt_get (periods c) i = Some p" "d \<le> pd_start p"
    "\<And>j q. bt_get (periods c) j = Some q \<Longrightarrow> d \<le> pd_start q \<Longrightarrow> pd_start p \<le> pd_start q"
proof -
  obtain s where s: "bt_ceiling (by_start c) d = Some (s, i)" using assms(2) by (auto simp: start_after_def)
  then obtain p where p: "bt_get (periods c) i = Some p" "pd_start p = s"
    using bt_ceiling_Some(1) [OF s] by (auto simp: cal_index [OF assms(1)])
  have "pd_start p \<le> pd_start q" if "bt_get (periods c) j = Some q" "d \<le> pd_start q" for j q
    using bt_ceiling_Some(3) [OF s] cal_period(3) [OF assms(1) that(1)] that(2) p(2) by auto
  with that [of p] p bt_ceiling_Some(2) [OF s] show ?thesis by blast
qed

lemma start_after_None:
  "cal_inv c \<Longrightarrow> start_after c d = None \<Longrightarrow> bt_get (periods c) j = Some q \<Longrightarrow> pd_start q < d"
  using cal_period(3) [of c j q] by (auto simp: start_after_def bt_ceiling_None)

section \<open>The neighbours stand for all periods\<close>

lemma colliding_Some:
  "colliding c p n = Some q \<longleftrightarrow> (\<exists>i. n = Some i \<and> bt_get (periods c) i = Some q \<and> overlaps q p)"
  by (auto simp: colliding_def split: option.splits)

lemma neighbours_suffice:
  assumes "cal_inv c" "bt_get (periods c) i = Some q" "overlaps q p"
  shows "colliding c p (start_before c (pd_start p)) \<noteq> None \<or> colliding c p (start_after c (pd_start p)) \<noteq> None"
proof (cases "pd_start q \<le> pd_start p")
  case True
  then obtain j where j: "start_before c (pd_start p) = Some j"
    using start_before_None [OF assms(1) _ assms(2), of "pd_start p"] by (cases "start_before c (pd_start p)") auto
  obtain f where f: "bt_get (periods c) j = Some f" "pd_start f \<le> pd_start p" "pd_start q \<le> pd_start f"
    by (rule start_before_Some [OF assms(1) j]) (use assms(2) True that in blast)
  have "overlaps f p"
  proof (cases "i = j")
    case False
    then have "\<not> overlaps q f" using cal_disjoint [OF assms(1,2) f(1)] by simp
    moreover have "pd_start f \<le> pd_end f" using cal_period(2) [OF assms(1) f(1)] .
    ultimately show ?thesis using f assms(3) by (auto simp: overlaps_def)
  qed (use assms(2,3) f(1) in simp)
  then have "colliding c p (start_before c (pd_start p)) = Some f" unfolding colliding_Some using j f by blast
  then show ?thesis by simp
next
  case False
  then obtain j where j: "start_after c (pd_start p) = Some j"
    using start_after_None [OF assms(1) _ assms(2), of "pd_start p"] by (cases "start_after c (pd_start p)") auto
  obtain g where g: "bt_get (periods c) j = Some g" "pd_start p \<le> pd_start g" "pd_start g \<le> pd_start q"
    by (rule start_after_Some [OF assms(1) j]) (use assms(2) False that in \<open>meson linear\<close>)
  have "overlaps g p"
    using g assms(3) cal_period(2) [OF assms(1) g(1)] by (auto simp: overlaps_def)
  then have "colliding c p (start_after c (pd_start p)) = Some g" unfolding colliding_Some using j g by blast
  then show ?thesis by simp
qed

lemma define_Ok_iff:
  assumes "cal_inv c"
  shows "is_ok (fst (cal_define p c)) \<longleftrightarrow>
    bt_get (periods c) (pd_id p) = None \<and> (\<forall>i q. bt_get (periods c) i = Some q \<longrightarrow> \<not> overlaps q p)"
proof -
  let ?cs = "{colliding c p (start_before c (pd_start p)), colliding c p (start_after c (pd_start p))}"
  have "is_ok (fst (cal_define p c)) \<longleftrightarrow> bt_get (periods c) (pd_id p) = None \<and> ?cs = {None}"
    by (auto simp: cal_define_def bt_contains_def Let_def split: option.splits)
  moreover have "?cs = {None} \<longleftrightarrow> (\<forall>i q. bt_get (periods c) i = Some q \<longrightarrow> \<not> overlaps q p)"
  proof
    assume "?cs = {None}"
    then show "\<forall>i q. bt_get (periods c) i = Some q \<longrightarrow> \<not> overlaps q p"
      using neighbours_suffice [OF assms, of _ _ p] by blast
  next
    assume "\<forall>i q. bt_get (periods c) i = Some q \<longrightarrow> \<not> overlaps q p"
    then have "colliding c p n = None" for n
      by (auto simp: colliding_def split: option.splits)
    then show "?cs = {None}" by simp
  qed
  ultimately show ?thesis by simp
qed

lemma period_on_iff:
  assumes "cal_inv c"
  shows "period_on c d = Some p \<longleftrightarrow> bt_get (periods c) (pd_id p) = Some p \<and> pd_contains p d"
proof
  assume "period_on c d = Some p"
  then obtain i where "bt_get (periods c) i = Some p" "pd_contains p d"
    by (auto simp: period_on_def split: option.splits if_splits)
  then show "bt_get (periods c) (pd_id p) = Some p \<and> pd_contains p d" using cal_period(1) [OF assms] by auto
next
  assume p: "bt_get (periods c) (pd_id p) = Some p \<and> pd_contains p d"
  then obtain j where j: "start_before c d = Some j"
    using start_before_None [OF assms, of d "pd_id p" p] by (cases "start_before c d") (auto simp: pd_contains_def)
  obtain f where f: "bt_get (periods c) j = Some f" "pd_start f \<le> d" "pd_start p \<le> pd_start f"
    by (rule start_before_Some [OF assms j]) (use p that in \<open>auto simp: pd_contains_def\<close>)
  have "j = pd_id p"
  proof (rule ccontr)
    assume "j \<noteq> pd_id p"
    then have "\<not> overlaps f p" using cal_disjoint [OF assms f(1)] p by blast
    moreover have "pd_start f \<le> pd_end f" using cal_period(2) [OF assms f(1)] .
    ultimately show False using f p by (auto simp: overlaps_def pd_contains_def)
  qed
  then show "period_on c d = Some p" using j f p by (simp add: period_on_def)
qed

lemma set_cal_iter:
  assumes "cal_inv c"
  shows "p \<in> set (cal_iter c) \<longleftrightarrow> bt_get (periods c) (pd_id p) = Some p"
proof -
  have "p \<in> set (cal_iter c) \<longleftrightarrow> (\<exists>d i. bt_get (by_start c) d = Some i \<and> bt_get (periods c) i = Some p)"
    by (force simp: cal_iter_def bt_values_def List.map_filter_def bt_get_iter [of "by_start c"] image_iff)
  then show ?thesis using cal_index [OF assms] cal_period(1) [OF assms] by metis
qed

section \<open>Every operation keeps the invariant\<close>

lemma mark_fields [simp]:
  "periods (mark_sealed_through p c) = periods c" "by_start (mark_sealed_through p c) = by_start c"
  by (simp_all add: mark_sealed_through_def)

lemma mark_watermark:
  "sealed_through c = Some w \<Longrightarrow> \<exists>w'. sealed_through (mark_sealed_through p c) = Some w' \<and> w \<le> w'"
  "pd_state p = Sealed \<Longrightarrow> \<exists>w'. sealed_through (mark_sealed_through p c) = Some w' \<and> pd_end p \<le> w'"
  by (auto simp: mark_sealed_through_def split: option.splits)

lemma mark_update [simp]:
  "sealed_through (c\<lparr>periods := m\<rparr>) = sealed_through c" "sealed_through (c\<lparr>by_start := b\<rparr>) = sealed_through c"
  "sealed_through (mark_sealed_through p (c\<lparr>periods := m\<rparr>)) = sealed_through (mark_sealed_through p c)"
  "sealed_through (mark_sealed_through p (c\<lparr>by_start := b\<rparr>)) = sealed_through (mark_sealed_through p c)"
  by (simp_all add: mark_sealed_through_def)

text \<open>The watermark only moves forward.\<close>

definition watermark_le :: "calendar \<Rightarrow> calendar \<Rightarrow> bool" where
  "watermark_le c c' \<longleftrightarrow> (\<forall>w. sealed_through c = Some w \<longrightarrow> (\<exists>w'. sealed_through c' = Some w' \<and> w \<le> w'))"

lemma watermark_refl [simp]: "watermark_le c c"
  by (simp add: watermark_le_def)

lemma watermark_trans: "watermark_le a b \<Longrightarrow> watermark_le b c \<Longrightarrow> watermark_le a c"
  unfolding watermark_le_def by (meson order_trans)

lemma watermark_mark [simp]: "watermark_le c (mark_sealed_through p c)"
  using mark_watermark(1) by (simp add: watermark_le_def)

lemma sealed_iff_watermark:
  "(case sealed_through c of None \<Rightarrow> False | Some through \<Rightarrow> d \<le> through) \<longleftrightarrow> (\<exists>w. sealed_through c = Some w \<and> d \<le> w)"
  by (simp split: option.split)

text \<open>The shape all three writers share: one period is stored under its identifier and the mark advanced.\<close>

lemma store_inv:
  assumes "cal_inv c" "pd_start p \<le> pd_end p"
    and "\<And>j q. bt_get (periods c) j = Some q \<Longrightarrow> j \<noteq> pd_id p \<Longrightarrow> \<not> overlaps q p"
    and "periods c' = bt_insert (pd_id p) p (periods c)"
    and "sealed_through c' = sealed_through (mark_sealed_through p c)"
    and "\<And>d i. bt_get (by_start c') d = Some i \<longleftrightarrow> (\<exists>q. bt_get (periods c') i = Some q \<and> pd_start q = d)"
  shows "cal_inv c' \<and> watermark_le c c'"
proof
  have marks: "\<exists>w. sealed_through c' = Some w \<and> pd_end q \<le> w"
    if q: "bt_get (periods c') i = Some q" "pd_state q = Sealed" for i q
  proof (cases "i = pd_id p")
    case True
    then show ?thesis using that mark_watermark(2) [of p c] by (simp add: assms(4,5))
  next
    case False
    then obtain w where "sealed_through c = Some w" "pd_end q \<le> w"
      using q cal_period(4) [OF assms(1), of i q] by (auto simp: assms(4))
    then show ?thesis using mark_watermark(1) [of c w p] unfolding assms(5) by (meson order_trans)
  qed
  have apart: "\<not> overlaps q r"
    if q: "bt_get (periods c') i = Some q" and r: "bt_get (periods c') j = Some r" and ij: "i \<noteq> j" for i j q r
  proof (cases "i = pd_id p")
    case True
    then have "q = p" "bt_get (periods c) j = Some r" "j \<noteq> pd_id p" using q r ij by (auto simp: assms(4))
    then show ?thesis using assms(3) overlaps_sym [of r p] by simp
  next
    case i: False
    then have q': "bt_get (periods c) i = Some q" using q by (simp add: assms(4))
    show ?thesis
    proof (cases "j = pd_id p")
      case True
      then show ?thesis using r assms(3) [OF q' i] by (simp add: assms(4))
    next
      case False
      then show ?thesis using r cal_disjoint [OF assms(1) q' _ ij] by (simp add: assms(4))
    qed
  qed
  have shape: "pd_id q = i \<and> pd_start q \<le> pd_end q" if "bt_get (periods c') i = Some q" for i q
    using that assms(2) cal_period(1,2) [OF assms(1)] by (auto simp: assms(4) split: if_splits)
  show "cal_inv c'"
    unfolding cal_inv_def using marks apart shape assms(6) by blast
  show "watermark_le c c'"
    using watermark_mark [of c p] by (simp add: watermark_le_def assms(5))
qed

lemma define_Ok:
  assumes "cal_inv c" "pd_start p \<le> pd_end p" "cal_define p c = (Ok u, c')"
  shows "cal_inv c' \<and> watermark_le c c' \<and> periods c' = bt_insert (pd_id p) p (periods c)
    \<and> sealed_through c' = sealed_through (mark_sealed_through p c)"
proof -
  have free: "bt_get (periods c) (pd_id p) = None" "\<And>i q. bt_get (periods c) i = Some q \<Longrightarrow> \<not> overlaps q p"
    using define_Ok_iff [OF assms(1), of p] assms(3) by auto
  have c': "periods c' = bt_insert (pd_id p) p (periods c)" "by_start c' = bt_insert (pd_start p) (pd_id p) (by_start c)"
    "sealed_through c' = sealed_through (mark_sealed_through p c)"
    using assms(3) by (auto simp: cal_define_def Let_def split: if_splits option.splits)
  have "pd_start q \<noteq> pd_start p" if "bt_get (periods c) i = Some q" for i q
    using free(2) [OF that] cal_period(2) [OF assms(1) that] assms(2) by (auto simp: overlaps_def)
  then have "bt_get (by_start c') d = Some i \<longleftrightarrow> (\<exists>q. bt_get (periods c') i = Some q \<and> pd_start q = d)" for d i
    using free(1) by (auto simp: c' cal_index [OF assms(1)])
  then have "cal_inv c' \<and> watermark_le c c'"
    using free by (intro store_inv [OF assms(1,2) _ c'(1,3)]) auto
  then show ?thesis using c' by simp
qed

lemma replace_index:
  assumes "cal_inv c" "bt_get (periods c) i = Some q" "pd_start p = pd_start q" "pd_id p = i"
    "periods c' = bt_insert i p (periods c)" "by_start c' = by_start c"
  shows "bt_get (by_start c') d = Some j \<longleftrightarrow> (\<exists>r. bt_get (periods c') j = Some r \<and> pd_start r = d)"
  using assms cal_index [OF assms(1)] by auto

lemma replace_inv:
  assumes "cal_inv c" "bt_get (periods c) i = Some q" "pd_start p = pd_start q" "pd_end p = pd_end q" "pd_id p = i"
    "periods c' = bt_insert i p (periods c)" "by_start c' = by_start c"
    "sealed_through c' = sealed_through (mark_sealed_through p c)"
  shows "cal_inv c' \<and> watermark_le c c'"
proof (rule store_inv [OF assms(1) _ _ _ assms(8)])
  show "pd_start p \<le> pd_end p" using cal_period(2) [OF assms(1,2)] assms(3,4) by simp
  show "\<not> overlaps r p" if "bt_get (periods c) j = Some r" "j \<noteq> pd_id p" for j r
    using cal_disjoint [OF assms(1) that(1) assms(2)] that(2) assms(3-5) by (simp add: overlaps_def)
  show "periods c' = bt_insert (pd_id p) p (periods c)" by (simp add: assms(5,6))
  show "bt_get (by_start c') d = Some j \<longleftrightarrow> (\<exists>r. bt_get (periods c') j = Some r \<and> pd_start r = d)" for d j
    by (rule replace_index [OF assms(1-3,5-7)])
qed

lemma transition_Ok:
  assumes "cal_inv c" "transition i to c = (Ok u, c')"
  obtains p where "bt_get (periods c) i = Some p" "permitted (pd_state p) to"
    "periods c' = bt_insert i (p\<lparr>pd_state := to\<rparr>) (periods c)" "by_start c' = by_start c"
    "sealed_through c' = sealed_through (mark_sealed_through (p\<lparr>pd_state := to\<rparr>) c)" "cal_inv c' \<and> watermark_le c c'"
proof -
  obtain p where p: "bt_get (periods c) i = Some p" "permitted (pd_state p) to"
    "c' = mark_sealed_through (p\<lparr>pd_state := to\<rparr>) (c\<lparr>periods := bt_insert i (p\<lparr>pd_state := to\<rparr>) (periods c)\<rparr>)"
    using assms(2) by (auto simp: transition_def Let_def split: option.splits if_splits)
  moreover have "cal_inv c' \<and> watermark_le c c'"
    using cal_period(1) [OF assms(1) p(1)] by (intro replace_inv [OF assms(1) p(1)]) (auto simp: p(3))
  ultimately show ?thesis using that by simp
qed

lemma transition_Err: "transition i to c = (Err e, c') \<Longrightarrow> c' = c"
  by (auto simp: transition_def Let_def split: option.splits if_splits)

lemma define_Err: "cal_define p c = (Err e, c') \<Longrightarrow> c' = c"
  by (auto simp: cal_define_def Let_def split: option.splits if_splits)

lemma ensure_inv:
  assumes "cal_inv c" "pd_start p \<le> pd_end p" "cal_ensure p c = (res, c')"
  shows "cal_inv c' \<and> watermark_le c c'"
proof (cases "bt_get (periods c) (pd_id p)")
  case None
  then have d: "cal_define p c = (res, c')" using assms(3) by (simp add: cal_ensure_def)
  then show ?thesis
    using define_Ok [OF assms(1,2)] define_Err [of p c _ c'] assms(1) by (cases res) auto
next
  case (Some q)
  show ?thesis
  proof (cases "pd_start q = pd_start p \<and> pd_end q = pd_end p")
    case True
    then have c': "periods c' = bt_insert (pd_id p) p (periods c)" "by_start c' = by_start c"
      "sealed_through c' = sealed_through (mark_sealed_through p c)"
      using assms(3) Some by (auto simp: cal_ensure_def Let_def)
    show ?thesis by (rule replace_inv [OF assms(1) Some _ _ _ c']) (use True in auto)
  next
    case False
    then show ?thesis using assms(1,3) Some by (auto simp: cal_ensure_def)
  qed
qed

text \<open>The writers of a calendar. A period is built by \<^verbatim>\<open>Period::new\<close>, so its end is not before its start.\<close>

inductive calendar_step :: "calendar \<Rightarrow> calendar \<Rightarrow> bool" where
  step_define: "pd_start p \<le> pd_end p \<Longrightarrow> calendar_step c (snd (cal_define p c))"
| step_ensure: "pd_start p \<le> pd_end p \<Longrightarrow> calendar_step c (snd (cal_ensure p c))"
| step_transition: "calendar_step c (snd (transition i to c))"

lemma calendar_step_inv: "calendar_step c c' \<Longrightarrow> cal_inv c \<Longrightarrow> cal_inv c' \<and> watermark_le c c'"
proof (induction rule: calendar_step.induct)
  case (step_define p c)
  show ?case
  proof (cases "cal_define p c")
    case (Pair res c')
    then show ?thesis
      using define_Ok [OF step_define(2,1)] define_Err [of p c _ c'] step_define(2) by (cases res) auto
  qed
next
  case (step_ensure p c)
  then show ?case using ensure_inv [of c p "fst (cal_ensure p c)" "snd (cal_ensure p c)"] by simp
next
  case (step_transition c i to)
  show ?case
  proof (cases "transition i to c")
    case (Pair res c')
    then show ?thesis
    proof (cases res)
      case (Inr u)
      then have "transition i to c = (Ok u, c')" using Pair by simp
      then show ?thesis by (rule transition_Ok [OF step_transition]) (use Pair in simp)
    qed (use Pair step_transition transition_Err [of i to c _ c'] in auto)
  qed
qed

lemma calendar_steps_inv: "calendar_step\<^sup>*\<^sup>* c c' \<Longrightarrow> cal_inv c \<Longrightarrow> cal_inv c' \<and> watermark_le c c'"
  by (induction rule: rtranclp_induct) (auto dest: calendar_step_inv watermark_trans)

lemma cal_inv_new [simp]: "cal_inv calendar_new"
  by (simp add: cal_inv_def calendar_new_def)

end
