(* ===== verification/Calendar_Audit.thy ===== *)
theory Calendar_Audit
  imports Calendar
begin

text \<open>The properties of the period calendar.\<close>

definition reachable_calendar :: "calendar \<Rightarrow> bool" where
  "reachable_calendar c \<longleftrightarrow> calendar_step\<^sup>*\<^sup>* calendar_new c"

lemma reachable_cal_inv: "reachable_calendar c \<Longrightarrow> cal_inv c"
  using calendar_steps_inv [of calendar_new c] by (simp add: reachable_calendar_def)

section \<open>Concrete periods\<close>

definition demo_period :: "string \<Rightarrow> int \<Rightarrow> int \<Rightarrow> period_state \<Rightarrow> period" where
  "demo_period name first last_day s = \<lparr>pd_id = PeriodId (Label (lit name)), pd_start = Date first, pd_end = Date last_day, pd_state = s\<rparr>"

definition demo_calendar :: calendar where
  "demo_calendar = snd (cal_define (demo_period ''m2'' 31 60 Open) (snd (cal_define (demo_period ''m1'' 0 30 Closing) calendar_new)))"

lemma demo_calendar_reachable: "reachable_calendar demo_calendar"
proof -
  have "calendar_step calendar_new (snd (cal_define (demo_period ''m1'' 0 30 Closing) calendar_new))"
    by (rule step_define) (simp add: demo_period_def less_eq_date_def)
  moreover have "calendar_step (snd (cal_define (demo_period ''m1'' 0 30 Closing) calendar_new)) demo_calendar"
    unfolding demo_calendar_def by (rule step_define) (simp add: demo_period_def less_eq_date_def)
  ultimately show ?thesis by (auto simp: reachable_calendar_def)
qed

section \<open>Properties\<close>

text \<open>
  A period is accepted exactly when its identifier is new and its range meets none of the
  defined periods, although only the two neighbours by start date are looked at; and a refusal
  changes nothing.
\<close>

theorem define_checks_all:
  assumes "reachable_calendar c"
  shows "(is_ok (fst (cal_define p c)) \<longleftrightarrow> cal_get c (pd_id p) = None \<and> (\<forall>q\<in>set (cal_iter c). \<not> overlaps q p))
    \<and> (\<not> is_ok (fst (cal_define p c)) \<longrightarrow> snd (cal_define p c) = c)"
proof (intro conjI impI)
  have inv: "cal_inv c" by (rule reachable_cal_inv [OF assms])
  have "(\<forall>i q. bt_get (periods c) i = Some q \<longrightarrow> \<not> overlaps q p) \<longleftrightarrow> (\<forall>q\<in>set (cal_iter c). \<not> overlaps q p)"
    using cal_period(1) [OF inv] by (auto simp: set_cal_iter [OF inv])
  then show "is_ok (fst (cal_define p c)) \<longleftrightarrow> cal_get c (pd_id p) = None \<and> (\<forall>q\<in>set (cal_iter c). \<not> overlaps q p)"
    by (simp add: define_Ok_iff [OF inv] cal_get_def)
  assume "\<not> is_ok (fst (cal_define p c))"
  then show "snd (cal_define p c) = c"
    using define_Err [of p c] by (cases "cal_define p c"; cases "fst (cal_define p c)") auto
qed

lemma define_checks_all_witness:
  "reachable_calendar demo_calendar \<and> \<not> is_ok (fst (cal_define (demo_period ''x'' 60 70 Open) demo_calendar))
   \<and> snd (cal_define (demo_period ''x'' 60 70 Open) demo_calendar) = demo_calendar"
proof -
  have "\<not> (\<forall>q\<in>set (cal_iter demo_calendar). \<not> overlaps q (demo_period ''x'' 60 70 Open))" by code_simp
  then show ?thesis
    using define_checks_all [OF demo_calendar_reachable, of "demo_period ''x'' 60 70 Open"] demo_calendar_reachable by blast
qed

text \<open>
  The period found for a date through the start index is the one defined period that contains
  the date, and there is never a second one.
\<close>

theorem period_on_unique:
  assumes "reachable_calendar c"
  shows "(period_on c d = Some p \<longleftrightarrow> p \<in> set (cal_iter c) \<and> pd_contains p d)
    \<and> (p \<in> set (cal_iter c) \<and> q \<in> set (cal_iter c) \<and> pd_contains p d \<and> pd_contains q d \<longrightarrow> p = q)"
  using period_on_iff [OF reachable_cal_inv [OF assms], of d] set_cal_iter [OF reachable_cal_inv [OF assms]]
  by (metis option.inject)

lemma period_on_unique_witness:
  "reachable_calendar demo_calendar \<and> period_on demo_calendar (Date 40) = Some (demo_period ''m2'' 31 60 Open)"
proof -
  have "demo_period ''m2'' 31 60 Open \<in> set (cal_iter demo_calendar)" "pd_contains (demo_period ''m2'' 31 60 Open) (Date 40)"
    by code_simp+
  then show ?thesis
    using period_on_unique [OF demo_calendar_reachable, of "Date 40" "demo_period ''m2'' 31 60 Open"] demo_calendar_reachable
    by blast
qed

lemma state_on_sealed: "sealed_through c = Some w \<Longrightarrow> d \<le> w \<Longrightarrow> state_on c d = Sealed"
  by (simp add: state_on_def)

lemma watermark_state: "watermark_le c c' \<Longrightarrow> sealed_through c = Some w \<Longrightarrow> d \<le> w \<Longrightarrow> state_on c' d = Sealed"
  unfolding watermark_le_def using state_on_sealed order_trans by blast

text \<open>
  A sealed day stays sealed: once the watermark has reached a date, or a sealed period contains
  it, no later operation on the calendar, replaying definitions included, lets a posting in there.
\<close>

theorem sealed_days_stay:
  assumes "reachable_calendar c" "calendar_step\<^sup>*\<^sup>* c c'"
    and "sealed_through c = Some w \<and> d \<le> w \<or> (\<exists>p\<in>set (cal_iter c). pd_state p = Sealed \<and> pd_contains p d)"
  shows "state_on c' d = Sealed \<and> \<not> cal_accepts c' d"
proof -
  have inv: "cal_inv c" by (rule reachable_cal_inv [OF assms(1)])
  obtain w' where "sealed_through c = Some w'" "d \<le> w'"
    using assms(3)
  proof
    assume "\<exists>p\<in>set (cal_iter c). pd_state p = Sealed \<and> pd_contains p d"
    then obtain p where p: "bt_get (periods c) (pd_id p) = Some p" "pd_state p = Sealed" "d \<le> pd_end p"
      by (auto simp: set_cal_iter [OF inv] pd_contains_def)
    then obtain v where "sealed_through c = Some v" "pd_end p \<le> v" using cal_period(4) [OF inv] by blast
    then show ?thesis using that p(3) by (meson order_trans)
  qed (use that in blast)
  then have "state_on c' d = Sealed"
    using calendar_steps_inv [OF assms(2) inv] watermark_state by blast
  then show ?thesis by (simp add: cal_accepts_def accepts_postings_def)
qed

lemma sealed_days_stay_witness:
  "reachable_calendar (snd (transition (PeriodId (Label (lit ''m1''))) Sealed demo_calendar))
   \<and> \<not> cal_accepts (snd (cal_ensure (demo_period ''m1'' 0 30 Open)
          (snd (transition (PeriodId (Label (lit ''m1''))) Sealed demo_calendar)))) (Date 7)"
proof -
  let ?c = "snd (transition (PeriodId (Label (lit ''m1''))) Sealed demo_calendar)"
  have r: "reachable_calendar ?c"
    using demo_calendar_reachable step_transition unfolding reachable_calendar_def by (metis rtranclp.rtrancl_into_rtrancl)
  have s: "calendar_step\<^sup>*\<^sup>* ?c (snd (cal_ensure (demo_period ''m1'' 0 30 Open) ?c))"
    by (intro r_into_rtranclp step_ensure) (simp add: demo_period_def less_eq_date_def)
  have "sealed_through ?c = Some (Date 30)" by code_simp
  then show ?thesis using sealed_days_stay [OF r s, of "Date 30" "Date 7"] r by (simp add: less_eq_date_def)
qed

text \<open>
  Sealing goes in date order: a period may be sealed exactly when it is closing, every period
  that starts before it is sealed, and it ends after the watermark; and sealing it then moves the
  watermark to its last day.
\<close>

theorem check_sealable_order:
  assumes "reachable_calendar c"
  shows "(check_sealable c i = Ok p \<longleftrightarrow>
      cal_get c i = Some p \<and> pd_state p = Closing
      \<and> (\<forall>q\<in>set (cal_iter c). pd_start q < pd_start p \<longrightarrow> pd_state q = Sealed)
      \<and> (\<forall>w. sealed_through c = Some w \<longrightarrow> w < pd_end p))
    \<and> (check_sealable c i = Ok p \<longrightarrow>
      fst (transition i Sealed c) = Ok () \<and> sealed_through (snd (transition i Sealed c)) = Some (pd_end p))"
proof (intro conjI [of "_ \<longleftrightarrow> _"] impI)
  have inv: "cal_inv c" by (rule reachable_cal_inv [OF assms])
  have none: "unsealed_before c d = None \<longleftrightarrow> (\<forall>q\<in>set (cal_iter c). pd_start q < d \<longrightarrow> pd_state q = Sealed)" for d
  proof -
    have "unsealed_before c d = None \<longleftrightarrow>
        (\<forall>s j q. bt_get (by_start c) s = Some j \<and> s < d \<and> bt_get (periods c) j = Some q \<longrightarrow> pd_state q = Sealed)"
      by (force simp: unsealed_before_def find_None_iff List.map_filter_def bt_get_iter [of "by_start c"])
    also have "\<dots> \<longleftrightarrow> (\<forall>j q. bt_get (periods c) j = Some q \<longrightarrow> pd_start q < d \<longrightarrow> pd_state q = Sealed)"
      by (auto simp: cal_index [OF inv])
    also have "\<dots> \<longleftrightarrow> (\<forall>q. bt_get (periods c) (pd_id q) = Some q \<longrightarrow> pd_start q < d \<longrightarrow> pd_state q = Sealed)"
      using cal_period(1) [OF inv] by metis
    also have "\<dots> \<longleftrightarrow> (\<forall>q\<in>set (cal_iter c). pd_start q < d \<longrightarrow> pd_state q = Sealed)"
      by (simp add: Ball_def set_cal_iter [OF inv])
    finally show ?thesis .
  qed
  show spec: "check_sealable c i = Ok p \<longleftrightarrow>
      cal_get c i = Some p \<and> pd_state p = Closing
      \<and> (\<forall>q\<in>set (cal_iter c). pd_start q < pd_start p \<longrightarrow> pd_state q = Sealed)
      \<and> (\<forall>w. sealed_through c = Some w \<longrightarrow> w < pd_end p)"
    unfolding none [symmetric]
    by (auto simp: check_sealable_def cal_get_def not_le split: option.splits if_splits)
  assume "check_sealable c i = Ok p"
  then have "bt_get (periods c) i = Some p" "pd_state p = Closing" "\<forall>w. sealed_through c = Some w \<longrightarrow> w < pd_end p"
    unfolding spec cal_get_def by auto
  then show "fst (transition i Sealed c) = Ok () \<and> sealed_through (snd (transition i Sealed c)) = Some (pd_end p)"
    by (auto simp: transition_def permitted_def mark_sealed_through_def Let_def split: option.splits)
qed

lemma check_sealable_order_witness:
  "reachable_calendar demo_calendar
   \<and> sealed_through (snd (transition (PeriodId (Label (lit ''m1''))) Sealed demo_calendar)) = Some (Date 30)"
proof -
  have "check_sealable demo_calendar (PeriodId (Label (lit ''m1''))) = Ok (demo_period ''m1'' 0 30 Closing)" by code_simp
  then show ?thesis
    using check_sealable_order [OF demo_calendar_reachable] demo_calendar_reachable by (fastforce simp: demo_period_def)
qed

section \<open>Restarting from stored periods\<close>

text \<open>Histories without replay: a period is defined in some state, or moved through its lifecycle.\<close>

inductive calendar_life :: "calendar \<Rightarrow> bool" where
  life_new: "calendar_life calendar_new"
| life_define: "calendar_life c \<Longrightarrow> pd_start p \<le> pd_end p \<Longrightarrow> calendar_life (snd (cal_define p c))"
| life_transition: "calendar_life c \<Longrightarrow> calendar_life (snd (transition i to c))"

definition watermark_exact :: "calendar \<Rightarrow> bool" where
  "watermark_exact c \<longleftrightarrow>
     (\<forall>w. sealed_through c = Some w \<longrightarrow> (\<exists>i p. bt_get (periods c) i = Some p \<and> pd_state p = Sealed \<and> pd_end p = w))"

text \<open>Storing a period over one that is not sealed keeps the watermark exact.\<close>

lemma exact_store:
  assumes "watermark_exact c" "periods c' = bt_insert i p (periods c)" "sealed_through c' = sealed_through (mark_sealed_through p c)"
    and "\<And>q. bt_get (periods c) i = Some q \<Longrightarrow> pd_state q \<noteq> Sealed"
  shows "watermark_exact c'"
  unfolding watermark_exact_def
proof (intro allI impI)
  fix w
  assume w: "sealed_through c' = Some w"
  show "\<exists>j q. bt_get (periods c') j = Some q \<and> pd_state q = Sealed \<and> pd_end q = w"
  proof (cases "pd_state p = Sealed \<and> pd_end p = w")
    case True
    then show ?thesis by (intro exI [of _ i] exI [of _ p]) (simp add: assms(2))
  next
    case False
    then have "sealed_through c = Some w" using w by (auto simp: assms(3) mark_sealed_through_def split: if_splits)
    then obtain j q where "bt_get (periods c) j = Some q" "pd_state q = Sealed" "pd_end q = w"
      using assms(1) by (auto simp: watermark_exact_def)
    moreover from this have "j \<noteq> i" using assms(4) by auto
    ultimately show ?thesis by (intro exI [of _ j] exI [of _ q]) (simp add: assms(2))
  qed
qed

lemma define_exact:
  assumes "cal_inv c" "watermark_exact c" "pd_start p \<le> pd_end p" "cal_define p c = (Ok u, c')"
  shows "watermark_exact c'"
proof (rule exact_store [OF assms(2)])
  show "periods c' = bt_insert (pd_id p) p (periods c)" "sealed_through c' = sealed_through (mark_sealed_through p c)"
    using define_Ok [OF assms(1,3,4)] by auto
  show "pd_state q \<noteq> Sealed" if "bt_get (periods c) (pd_id p) = Some q" for q
    using define_Ok_iff [OF assms(1), of p] assms(4) that by simp
qed

lemma transition_exact:
  assumes "cal_inv c" "watermark_exact c" "transition i to c = (Ok u, c')"
  shows "watermark_exact c'"
proof (rule transition_Ok [OF assms(1,3)])
  fix p
  assume "bt_get (periods c) i = Some p" "permitted (pd_state p) to" "periods c' = bt_insert i (p\<lparr>pd_state := to\<rparr>) (periods c)"
    "sealed_through c' = sealed_through (mark_sealed_through (p\<lparr>pd_state := to\<rparr>) c)"
  then show ?thesis by (intro exact_store [OF assms(2)]) (auto simp: permitted_def)
qed

lemma life_inv: "calendar_life c \<Longrightarrow> cal_inv c \<and> watermark_exact c"
proof (induction rule: calendar_life.induct)
  case life_new
  show ?case by (simp add: watermark_exact_def) (simp add: calendar_new_def)
next
  case (life_define c p)
  then have c: "cal_inv c" "watermark_exact c" by simp_all
  obtain res c' where d: "cal_define p c = (res, c')" by fastforce
  show ?case
  proof (cases res)
    case (Inl e)
    then have "c' = c" using d define_Err by blast
    then show ?thesis using c d by simp
  next
    case (Inr u)
    then have ok: "cal_define p c = (Ok u, c')" using d by simp
    show ?thesis using define_Ok [OF c(1) life_define(2) ok] define_exact [OF c life_define(2) ok] d by simp
  qed
next
  case (life_transition c i to)
  then have c: "cal_inv c" "watermark_exact c" by simp_all
  obtain res c' where t: "transition i to c = (res, c')" by fastforce
  show ?case
  proof (cases res)
    case (Inl e)
    then have "c' = c" using t transition_Err by blast
    then show ?thesis using c t by simp
  next
    case (Inr u)
    then have ok: "transition i to c = (Ok u, c')" using t by simp
    have "cal_inv c'" by (rule transition_Ok [OF c(1) ok]) simp
    then show ?thesis using transition_exact [OF c ok] t by simp
  qed
qed

lemma cal_unique:
  assumes "cal_inv a" "cal_inv b" "watermark_exact a" "watermark_exact b" "periods a = periods b"
  shows "a = b"
proof -
  have "bt_get (by_start a) d = bt_get (by_start b) d" for d
    using cal_index [OF assms(1)] cal_index [OF assms(2)] assms(5) by (metis not_None_eq)
  then have "by_start a = by_start b" by (rule bt_eqI)
  moreover have le: "w \<le> v" if "watermark_exact x" "cal_inv y" "periods x = periods y" "sealed_through x = Some w" "sealed_through y = Some v"
    for x y :: calendar and v w
    using that cal_period(4) [OF that(2)] unfolding watermark_exact_def by fastforce
  moreover have some: "sealed_through y \<noteq> None" if "watermark_exact x" "cal_inv y" "periods x = periods y" "sealed_through x \<noteq> None"
    for x y :: calendar
    using that cal_period(4) [OF that(2)] unfolding watermark_exact_def by fastforce
  have "sealed_through a = sealed_through b"
    using le [of a b] le [of b a] some [of a b] some [of b a] assms by (cases "sealed_through a"; cases "sealed_through b") fastforce+
  ultimately show ?thesis using assms(5) by simp
qed

lemma define_all:
  assumes "cal_inv c" "watermark_exact c" "\<forall>p\<in>set ps. pd_start p \<le> pd_end p" "distinct (map pd_id ps)"
    and "\<forall>p\<in>set ps. \<forall>q\<in>set ps. p \<noteq> q \<longrightarrow> \<not> overlaps q p"
    and "\<forall>p\<in>set ps. bt_get (periods c) (pd_id p) = None \<and> (\<forall>i q. bt_get (periods c) i = Some q \<longrightarrow> \<not> overlaps q p)"
  shows "\<exists>c'. try_fold (\<lambda>c p. case cal_define p c of (res, c') \<Rightarrow> bindR res (\<lambda>_. Ok c')) c ps = Ok c'
    \<and> cal_inv c' \<and> watermark_exact c'
    \<and> (\<forall>i q. bt_get (periods c') i = Some q \<longleftrightarrow> bt_get (periods c) i = Some q \<or> q \<in> set ps \<and> pd_id q = i)"
  using assms
proof (induction ps arbitrary: c)
  case (Cons p ps)
  have "is_ok (fst (cal_define p c))" using Cons.prems(6) by (simp add: define_Ok_iff [OF Cons.prems(1)])
  then obtain c1 where c1: "cal_define p c = (Ok (), c1)"
    by (cases "cal_define p c"; cases "fst (cal_define p c)") auto
  have p: "pd_start p \<le> pd_end p" using Cons.prems(3) by simp
  note facts = define_Ok [OF Cons.prems(1) p c1] define_exact [OF Cons.prems(1,2) p c1]
  have ps: "pd_id q \<noteq> pd_id p \<and> \<not> overlaps p q" if "q \<in> set ps" for q
  proof -
    have "pd_id q \<noteq> pd_id p" using Cons.prems(4) that by (auto simp: image_iff)
    moreover from this have "p \<noteq> q" by blast
    then have "\<not> overlaps p q" using Cons.prems(5) [rule_format, of q p] that by simp
    ultimately show ?thesis by simp
  qed
  have "\<forall>q\<in>set ps. bt_get (periods c1) (pd_id q) = None \<and> (\<forall>i r. bt_get (periods c1) i = Some r \<longrightarrow> \<not> overlaps r q)"
    using facts ps Cons.prems(6) by (auto split: if_splits)
  then obtain c' where c': "try_fold (\<lambda>c p. case cal_define p c of (res, c') \<Rightarrow> bindR res (\<lambda>_. Ok c')) c1 ps = Ok c'"
    "cal_inv c'" "watermark_exact c'"
    "\<And>i q. bt_get (periods c') i = Some q \<longleftrightarrow> bt_get (periods c1) i = Some q \<or> q \<in> set ps \<and> pd_id q = i"
    using Cons.IH [of c1] Cons.prems facts by auto
  have "bt_get (periods c) (pd_id p) = None" using Cons.prems(6) by simp
  then have "bt_get (periods c') i = Some q \<longleftrightarrow> bt_get (periods c) i = Some q \<or> q \<in> set (p # ps) \<and> pd_id q = i" for i q
    unfolding c'(4) using facts by auto
  then show ?case using c1 c'(1-3) by simp
qed simp

lemma distinct_cal_iter: "cal_inv c \<Longrightarrow> distinct (map pd_id (cal_iter c))"
proof -
  assume inv: "cal_inv c"
  have all: "\<exists>p. bt_get (periods c) i = Some p \<and> pd_id p = i \<and> pd_start p = d" if "(d, i) \<in> set (bt_iter (by_start c))" for d i
    using that cal_period(1) [OF inv] by (auto simp flip: bt_get_iter simp: cal_index [OF inv])
  have val: "\<exists>p. bt_get (periods c) i = Some p \<and> pd_id p = i" if "i \<in> set (bt_values (by_start c))" for i
    using that all by (fastforce simp: bt_values_def)
  then have "filter (\<lambda>i. bt_get (periods c) i \<noteq> None) (bt_values (by_start c)) = bt_values (by_start c)"
    by (intro filter_True) auto
  then have "map pd_id (cal_iter c) = map (\<lambda>i. pd_id (the (bt_get (periods c) i))) (bt_values (by_start c))"
    unfolding cal_iter_def List.map_filter_def by (simp add: o_def)
  also have "\<dots> = bt_values (by_start c)" using val by (intro map_idI) fastforce
  finally have "map pd_id (cal_iter c) = bt_values (by_start c)" .
  moreover have "inj_on snd (set (bt_iter (by_start c)))" by (rule inj_onI) (use all in \<open>clarsimp, fastforce\<close>)
  ultimately show ?thesis by (simp add: bt_values_def distinct_map bt_distinct_iter)
qed

text \<open>
  A restart keeps the calendar: the stored periods of a calendar built by defining periods and
  moving them through their lifecycle, read back in any order, rebuild exactly that calendar, index
  and watermark included.
\<close>

theorem from_periods_restores:
  assumes "calendar_life c" "mset ps = mset (cal_iter c)"
  shows "from_periods ps = Ok c"
proof -
  have inv: "cal_inv c" "watermark_exact c" using life_inv [OF assms(1)] by auto
  have set: "set ps = set (cal_iter c)" using assms(2) by (rule mset_eq_setD)
  have get: "bt_get (periods c) (pd_id p) = Some p" if "p \<in> set ps" for p
    using that set by (simp add: set_cal_iter [OF inv(1)])
  have "mset (map pd_id ps) = mset (map pd_id (cal_iter c))" using assms(2) by simp
  then have "distinct (map pd_id ps)"
    using distinct_cal_iter [OF inv(1)] by (metis mset_eq_imp_distinct_iff)
  moreover have "\<forall>p\<in>set ps. pd_start p \<le> pd_end p" using cal_period(2) [OF inv(1) get] by blast
  moreover have "\<forall>p\<in>set ps. \<forall>q\<in>set ps. p \<noteq> q \<longrightarrow> \<not> overlaps q p"
    using cal_disjoint [OF inv(1) get get] get by (metis option.inject)
  ultimately obtain c' where c': "from_periods ps = Ok c'" "cal_inv c'" "watermark_exact c'"
    "\<And>i q. bt_get (periods c') i = Some q \<longleftrightarrow> q \<in> set ps \<and> pd_id q = i"
    using define_all [of calendar_new ps] life_inv [OF life_new]
    by (auto simp: from_periods_def) (auto simp: calendar_new_def)
  have "bt_get (periods c') i = bt_get (periods c) i" for i
  proof -
    have iff: "bt_get (periods c') i = Some q \<longleftrightarrow> bt_get (periods c) i = Some q" for q
      using c'(4) set set_cal_iter [OF inv(1)] cal_period(1) [OF inv(1)] by metis
    show ?thesis
    proof (cases "bt_get (periods c) i")
      case None
      then show ?thesis using iff by (cases "bt_get (periods c') i") auto
    next
      case (Some q)
      then show ?thesis using iff [of q] by simp
    qed
  qed
  then have "periods c' = periods c" by (rule bt_eqI)
  then show ?thesis using cal_unique [OF c'(2) inv(1) c'(3) inv(2)] c'(1) by simp
qed

lemma from_periods_restores_witness:
  "calendar_life demo_calendar \<and> from_periods (rev (cal_iter demo_calendar)) = Ok demo_calendar"
proof -
  have "calendar_life demo_calendar"
    unfolding demo_calendar_def
    by (intro life_define life_new) (simp_all add: demo_period_def less_eq_date_def)
  then show ?thesis using from_periods_restores [of demo_calendar "rev (cal_iter demo_calendar)"] by simp
qed

section \<open>Replaying an older definition\<close>

text \<open>
  Replaying a stored definition is not the no-operation its comment describes: an identical
  range overwrites the state, so replaying the original open definition of a sealed period leaves it
  unsealable for ever while it blocks every later period.
\<close>

theorem ensure_unseals:
  assumes "reachable_calendar c" "cal_get c (pd_id p) = Some q" "pd_state q = Sealed"
    and "pd_start p = pd_start q" "pd_end p = pd_end q" "pd_state p = Closing"
    and "r \<in> set (cal_iter c)" "pd_start q < pd_start r" "pd_state r = Closing"
  shows "fst (cal_ensure p c) = Ok ()
    \<and> \<not> is_ok (check_sealable (snd (cal_ensure p c)) (pd_id p))
    \<and> \<not> is_ok (check_sealable (snd (cal_ensure p c)) (pd_id r))"
proof -
  let ?c = "snd (cal_ensure p c)"
  have inv: "cal_inv c" by (rule reachable_cal_inv [OF assms(1)])
  have q: "bt_get (periods c) (pd_id p) = Some q" "pd_id q = pd_id p"
    using assms(2) cal_period(1) [OF inv] by (simp_all add: cal_get_def)
  then obtain w where w: "sealed_through c = Some w" "pd_end q \<le> w" using cal_period(4) [OF inv q(1) assms(3)] by blast
  have ok: "fst (cal_ensure p c) = Ok ()" "periods ?c = bt_insert (pd_id p) p (periods c)"
    "by_start ?c = by_start c" "sealed_through ?c = Some w"
    using q(1) assms(4-6) w by (auto simp: cal_ensure_def mark_sealed_through_def Let_def)
  have "check_sealable ?c (pd_id p) \<noteq> Ok x" for x
    using w(2) assms(5) by (auto simp: check_sealable_def ok split: option.splits)
  moreover have r: "bt_get (periods c) (pd_id r) = Some r" using assms(7) by (simp add: set_cal_iter [OF inv])
  moreover have "pd_id r \<noteq> pd_id p" using r q(1) assms(8) by auto
  moreover have "unsealed_before ?c (pd_start r) \<noteq> None"
  proof -
    have "bt_get (by_start c) (pd_start q) = Some (pd_id p)" using cal_period(3) [OF inv q(1)] .
    then have "(pd_start q, pd_id p) \<in> set (filter (\<lambda>x. fst x < pd_start r) (bt_iter (by_start ?c)))"
      using assms(8) by (simp add: ok flip: bt_get_iter)
    then have "p \<in> set (List.map_filter (\<lambda>(_, i). bt_get (periods ?c) i) (filter (\<lambda>x. fst x < pd_start r) (bt_iter (by_start ?c))))"
      by (force simp: List.map_filter_def ok)
    then show ?thesis using assms(6) by (auto simp: unsealed_before_def find_None_iff)
  qed
  ultimately have "check_sealable ?c (pd_id r) \<noteq> Ok x" for x
    using r by (auto simp: check_sealable_def ok split: option.splits)
  then show ?thesis
    using \<open>\<And>x. check_sealable ?c (pd_id p) \<noteq> Ok x\<close> ok(1) by (auto simp: is_ok_iff)
qed

lemma ensure_unseals_witness:
  "\<exists>c. reachable_calendar c \<and> sealed_through c = Some (Date 30)
     \<and> \<not> is_ok (check_sealable (snd (cal_ensure (demo_period ''m1'' 0 30 Closing) c)) (PeriodId (Label (lit ''m2''))))"
proof -
  let ?c = "snd (transition (PeriodId (Label (lit ''m2''))) Closing (snd (transition (PeriodId (Label (lit ''m1''))) Sealed demo_calendar)))"
  have r: "reachable_calendar ?c"
    using demo_calendar_reachable step_transition unfolding reachable_calendar_def by (meson rtranclp.rtrancl_into_rtrancl)
  let ?p = "demo_period ''m1'' 0 30 Closing" and ?q = "demo_period ''m1'' 0 30 Sealed" and ?r = "demo_period ''m2'' 31 60 Closing"
  have h: "cal_get ?c (pd_id ?p) = Some ?q" "?r \<in> set (cal_iter ?c)" "sealed_through ?c = Some (Date 30)"
    by code_simp+
  have "\<not> is_ok (check_sealable (snd (cal_ensure ?p ?c)) (pd_id ?r))"
    using ensure_unseals [OF r h(1) _ _ _ _ h(2)] by (simp add: demo_period_def less_date_def)
  then show ?thesis using r h(3) by (intro exI [of _ ?c]) (simp add: demo_period_def)
qed

end
