(* ===== verification/Clearing_Rules.thy ===== *)
theory Clearing_Rules
  imports Clearing
begin

text \<open>
  What the clearing register promises. The state behind the references only grows; the locale
  \<open>posting_store\<close> states that contract, and the journal provides it.
\<close>

section \<open>Sums behind the register\<close>

definition item_sum :: "posting_ref \<Rightarrow> cleared_item list \<Rightarrow> int" where
  "item_sum p items = sum_list (map (\<lambda>it. amt (ci_applied it)) (filter (\<lambda>it. ci_posting it = p) items))"

definition on_side :: "(posting_ref \<Rightarrow> posting option) \<Rightarrow> direction \<Rightarrow> cleared_item \<Rightarrow> bool" where
  "on_side lk s it \<longleftrightarrow> (case lk (ci_posting it) of None \<Rightarrow> False | Some q \<Rightarrow> p_direction q = s)"

definition side_sum :: "(posting_ref \<Rightarrow> posting option) \<Rightarrow> direction \<Rightarrow> cleared_item list \<Rightarrow> int" where
  "side_sum lk s items =
     sum_list (map (\<lambda>it. amt (ci_applied it)) (filter (\<lambda>it. on_side lk s it) items))"

lemma item_sum_simps [simp]:
  "item_sum p [] = 0"
  "item_sum p (it # items) = (if ci_posting it = p then amt (ci_applied it) else 0) + item_sum p items"
  by (simp_all add: item_sum_def)

lemma side_sum_simps [simp]:
  "side_sum lk s [] = 0"
  "side_sum lk s (it # items) = (if on_side lk s it then amt (ci_applied it) else 0) + side_sum lk s items"
  by (simp_all add: side_sum_def)

lemma item_sum_fresh: "p \<notin> ci_posting ` set items \<Longrightarrow> item_sum p items = 0"
  by (induction items) auto

lemma item_sum_member:
  "distinct (map ci_posting items) \<Longrightarrow> it \<in> set items \<Longrightarrow> item_sum (ci_posting it) items = amt (ci_applied it)"
  by (induction items) (auto simp: item_sum_fresh)

lemma item_sum_nonneg: "\<forall>it\<in>set items. 0 < amt (ci_applied it) \<Longrightarrow> 0 \<le> item_sum p items"
  by (induction items) auto

lemma side_sum_nonneg: "\<forall>it\<in>set items. 0 < amt (ci_applied it) \<Longrightarrow> 0 \<le> side_sum lk s items"
  by (induction items) auto

section \<open>What one item and one clearing have to satisfy\<close>

definition item_ok :: "(posting_ref \<Rightarrow> posting option) \<Rightarrow> clearing_register \<Rightarrow> clearing \<Rightarrow> cleared_item \<Rightarrow> bool" where
  "item_ok lk r c it \<longleftrightarrow> 0 < amt (ci_applied it)
     \<and> (\<exists>q. lk (ci_posting it) = Some q \<and> key_of_posting q = clearing_key c
          \<and> amt (applied_to r (ci_posting it)) + amt (ci_applied it) \<le> amt (p_amount q))"

definition clearing_ok :: "(posting_ref \<Rightarrow> posting option) \<Rightarrow> clearing_register \<Rightarrow> clearing \<Rightarrow> bool" where
  "clearing_ok lk r c \<longleftrightarrow> 2 \<le> length (cl_items c) \<and> distinct (map ci_posting (cl_items c))
     \<and> (\<forall>it\<in>set (cl_items c). item_ok lk r c it)
     \<and> side_sum lk Debit (cl_items c) = side_sum lk Credit (cl_items c) \<and> side_sum lk Debit (cl_items c) \<le> i64_max"

lemma clear_item_Ok:
  assumes "\<And>p. 0 \<le> amt (applied_to r p)"
  shows "clear_item E r lk c (seen, b) it = Ok (seen', b') \<longleftrightarrow>
    ci_posting it \<notin> set seen \<and> item_ok lk r c it \<and> seen' = seen @ [ci_posting it]
    \<and> (\<forall>s. side s b' = side s b + side_sum lk s [it])"
proof -
  let ?p = "ci_posting it" and ?x = "ci_applied it"
  have key: "key_of_posting q = clearing_key c \<longleftrightarrow> p_account q = cl_account c \<and> p_currency q = cl_currency c \<and> p_layer q = cl_layer c"
    for q by (simp add: key_of_posting_def clearing_key_def)
  have residual: "(\<exists>y. checked_sub (p_amount q) (applied_to r ?p) = Ok y \<and> \<not> ?x > y) \<longleftrightarrow>
      amt (applied_to r ?p) + amt ?x \<le> amt (p_amount q)" if "0 < amt ?x" for q
  proof -
    have "in_i64 (amt (p_amount q) - amt (applied_to r ?p))" if "amt (applied_to r ?p) + amt ?x \<le> amt (p_amount q)"
      using that \<open>0 < amt ?x\<close> assms [of ?p] amt_range [of "p_amount q"] by (simp add: in_i64_def i64_min_def i64_max_def)
    then have "in_i64 (amt (p_amount q) - amt (applied_to r ?p))" if "amt (applied_to r ?p) + amt ?x \<le> amt (p_amount q)"
      using that by blast
    then show ?thesis using amt_ex [of "amt (p_amount q) - amt (applied_to r ?p)"] by (auto simp: not_less amt_le)
  qed
  show ?thesis
    by (cases "lk ?p")
      (auto simp: clear_item_def Let_def item_ok_def key balance_add_Ok is_positive_def amt_def [symmetric]
        residual [symmetric] on_side_def split: prod.splits)
qed

lemma clear_items_Ok:
  assumes "\<And>p. 0 \<le> amt (applied_to r p)"
  shows "try_fold (clear_item E r lk c) (seen, b) items = Ok (seen', b') \<longleftrightarrow>
    distinct (map ci_posting items) \<and> set (map ci_posting items) \<inter> set seen = {}
    \<and> (\<forall>it\<in>set items. item_ok lk r c it) \<and> seen' = seen @ map ci_posting items
    \<and> (\<forall>s. side s b' = side s b + side_sum lk s items)"
proof (induction items arbitrary: seen b)
  case Nil
  show ?case by (auto intro: balance_eqI)
next
  case (Cons it items)
  have ex: "\<exists>b1. \<forall>s. side s b1 = side s b + side_sum lk s [it]"
    if "\<forall>it'\<in>set (it # items). item_ok lk r c it'" "\<forall>s. side s b' = side s b + side_sum lk s (it # items)"
  proof -
    have pos: "\<forall>it'\<in>set items. 0 < amt (ci_applied it')" "0 < amt (ci_applied it)" using that(1) by (auto simp: item_ok_def)
    have "in_i64 (side s b + side_sum lk s [it])" for s
    proof (rule in_i64_up [OF side_in_range])
      show "side s b \<le> side s b + side_sum lk s [it]" using pos(2) by simp
      have "side s b + side_sum lk s [it] \<le> side s b'" using that(2) side_sum_nonneg [OF pos(1), of lk s] by simp
      then show "side s b + side_sum lk s [it] \<le> i64_max" using in_i64_le [OF side_in_range] by (meson order_trans)
    qed
    then obtain d c where "amt d = side Debit b + side_sum lk Debit [it]" "amt c = side Credit b + side_sum lk Credit [it]"
      by (metis amt_ex)
    then have "\<forall>s. side s \<lparr>debits = d, credits = c\<rparr> = side s b + side_sum lk s [it]"
      unfolding all_directions by (simp add: side_def)
    then show ?thesis ..
  qed
  have "try_fold (clear_item E r lk c) (seen, b) (it # items) = Ok (seen', b') \<longleftrightarrow>
      (\<exists>seen1 b1. clear_item E r lk c (seen, b) it = Ok (seen1, b1) \<and> try_fold (clear_item E r lk c) (seen1, b1) items = Ok (seen', b'))"
    by auto
  also have "\<dots> \<longleftrightarrow> (\<exists>b1. ci_posting it \<notin> set seen \<and> item_ok lk r c it \<and> (\<forall>s. side s b1 = side s b + side_sum lk s [it])
      \<and> distinct (map ci_posting items) \<and> set (map ci_posting items) \<inter> set (seen @ [ci_posting it]) = {}
      \<and> (\<forall>it\<in>set items. item_ok lk r c it) \<and> seen' = (seen @ [ci_posting it]) @ map ci_posting items
      \<and> (\<forall>s. side s b' = side s b1 + side_sum lk s items))"
    unfolding clear_item_Ok [OF assms] Cons by blast
  also have "\<dots> \<longleftrightarrow> distinct (map ci_posting (it # items)) \<and> set (map ci_posting (it # items)) \<inter> set seen = {}
      \<and> (\<forall>it\<in>set (it # items). item_ok lk r c it) \<and> seen' = seen @ map ci_posting (it # items)
      \<and> (\<forall>s. side s b' = side s b + side_sum lk s (it # items))" (is "?l \<longleftrightarrow> ?r")
  proof
    assume ?l then show ?r by auto
  next
    assume r: ?r
    then obtain b1 where b1: "\<forall>s. side s b1 = side s b + side_sum lk s [it]" using ex by blast
    then have "\<forall>s. side s b' = side s b1 + side_sum lk s items" using r by simp
    then show ?l using r b1 by (intro exI [of _ b1]) auto
  qed
  finally show ?case .
qed

section \<open>Staging\<close>

lemma get_foldl_insert:
  "distinct (map fst ps) \<Longrightarrow> bt_get (foldl (\<lambda>m (p, x). bt_insert p x m) m ps) k =
    (case map_of ps k of Some x \<Rightarrow> Some x | None \<Rightarrow> bt_get m k)"
proof (induction ps arbitrary: m)
  case (Cons a ps)
  then have "map_of ps (fst a) = None" by (auto simp: map_of_eq_None_iff)
  then show ?case using Cons by (cases a) (auto split: option.splits)
qed simp

lemma stage_Ok:
  assumes "stage f r items = Ok staged" "distinct (map ci_posting items)"
    and "\<And>a x y. f a x = Ok y \<Longrightarrow> amt y = amt a + sg * amt x"
  shows "amt (applied_to (apply_staged r staged) p) = amt (applied_to r p) + sg * item_sum p items"
proof -
  have all2: "list_all2 (\<lambda>it (p, y). p = ci_posting it \<and> amt y = amt (applied_to r (ci_posting it)) + sg * amt (ci_applied it)) items staged"
    using assms(1) unfolding stage_def try_map_Ok by (rule list_all2_mono) (auto dest: assms(3))
  then have keys: "map fst staged = map ci_posting items" by (induction rule: list_all2_induct) auto
  then have get: "bt_get (applied (apply_staged r staged)) p = (case map_of staged p of Some x \<Rightarrow> Some x | None \<Rightarrow> bt_get (applied r) p)"
    using assms(2) by (simp add: apply_staged_def get_foldl_insert)
  show ?thesis
  proof (cases "map_of staged p")
    case None
    then have "p \<notin> ci_posting ` set items" using keys by (metis list.set_map map_of_eq_None_iff)
    then show ?thesis using None get by (simp add: applied_to_def item_sum_fresh)
  next
    case (Some y)
    then have "(p, y) \<in> set staged" by (rule map_of_SomeD)
    then obtain it where it: "it \<in> set items" "p = ci_posting it" "amt y = amt (applied_to r p) + sg * amt (ci_applied it)"
      using all2 by (fastforce simp: list_all2_conv_all_nth in_set_conv_nth)
    then show ?thesis using Some get assms(2) by (simp add: applied_to_def item_sum_member)
  qed
qed

lemma stage_succeeds:
  assumes "\<And>it. it \<in> set items \<Longrightarrow> \<exists>y. f (applied_to r (ci_posting it)) (ci_applied it) = Ok y"
  shows "\<exists>staged. stage f r items = Ok staged"
  using assms unfolding stage_def
proof (induction items)
  case (Cons it items)
  then obtain ys where "try_map (\<lambda>item. map_err ClearingMoney (bindR (f (applied_to r (ci_posting item)) (ci_applied item))
       (\<lambda>updated. Ok (ci_posting item, updated)))) items = Ok ys" by auto
  moreover obtain y where "f (applied_to r (ci_posting it)) (ci_applied it) = Ok y" using Cons.prems by auto
  ultimately show ?case by simp
qed simp

section \<open>The invariant of the register\<close>

definition recorded :: "clearing_register \<Rightarrow> clearing list" where
  "recorded r = List.map_filter (\<lambda>ev. case ev of Cleared c \<Rightarrow> Some c | ResetEvent _ _ \<Rightarrow> None) (cr_events r)"

definition live :: "clearing_register \<Rightarrow> clearing list" where
  "live r = filter (\<lambda>c. \<not> is_reset r (cl_id c)) (recorded r)"

definition cleared_total :: "clearing_register \<Rightarrow> posting_ref \<Rightarrow> int" where
  "cleared_total r p = sum_list (map (\<lambda>c. item_sum p (cl_items c)) (live r))"

definition balanced_clearing :: "(posting_ref \<Rightarrow> posting option) \<Rightarrow> clearing \<Rightarrow> bool" where
  "balanced_clearing lk c \<longleftrightarrow> 2 \<le> length (cl_items c) \<and> distinct (map ci_posting (cl_items c))
     \<and> (\<forall>it\<in>set (cl_items c). 0 < amt (ci_applied it) \<and> (\<exists>q. lk (ci_posting it) = Some q \<and> key_of_posting q = clearing_key c))
     \<and> side_sum lk Debit (cl_items c) = side_sum lk Credit (cl_items c)"

definition register_ok :: "(posting_ref \<Rightarrow> posting option) \<Rightarrow> clearing_register \<Rightarrow> bool" where
  "register_ok lk r \<longleftrightarrow>
     (\<forall>i k. bt_get (cr_by_id r) i = Some k \<longleftrightarrow> k < length (cr_events r) \<and> (\<exists>c. cr_events r ! k = Cleared c \<and> cl_id c = i))
     \<and> (\<forall>i. is_reset r i \<longrightarrow> bt_contains (cr_by_id r) i)
     \<and> (\<forall>p. amt (applied_to r p) = cleared_total r p)
     \<and> (\<forall>c\<in>set (recorded r). balanced_clearing lk c)
     \<and> (\<forall>p. cleared_total r p \<noteq> 0 \<longrightarrow> (\<exists>q. lk p = Some q \<and> cleared_total r p \<le> amt (p_amount q)))"

lemma register_okD:
  assumes "register_ok lk r"
  shows "bt_get (cr_by_id r) i = Some k \<longleftrightarrow> k < length (cr_events r) \<and> (\<exists>c. cr_events r ! k = Cleared c \<and> cl_id c = i)"
    "is_reset r i \<Longrightarrow> bt_contains (cr_by_id r) i" "amt (applied_to r p) = cleared_total r p"
    "c \<in> set (recorded r) \<Longrightarrow> balanced_clearing lk c"
    "cleared_total r p \<noteq> 0 \<Longrightarrow> \<exists>q. lk p = Some q \<and> cleared_total r p \<le> amt (p_amount q)"
  using assms unfolding register_ok_def by blast+

lemma register_ok_new [simp]: "register_ok lk clearing_register_new"
  by (simp add: register_ok_def clearing_register_new_def is_reset_def applied_to_def cleared_total_def live_def recorded_def
      List.map_filter_def)

lemma recorded_iff:
  assumes "register_ok lk r"
  shows "c \<in> set (recorded r) \<longleftrightarrow> (\<exists>k. k < length (cr_events r) \<and> cr_events r ! k = Cleared c)"
proof -
  have "c \<in> set (recorded r) \<longleftrightarrow> Cleared c \<in> set (cr_events r)"
    by (force simp: recorded_def List.map_filter_def split: clearing_event.splits)
  then show ?thesis by (auto simp: in_set_conv_nth)
qed

lemma recorded_contains:
  assumes "register_ok lk r"
  shows "bt_contains (cr_by_id r) i \<longleftrightarrow> i \<in> cl_id ` set (recorded r)"
proof -
  have "bt_contains (cr_by_id r) i \<longleftrightarrow> (\<exists>k. bt_get (cr_by_id r) i = Some k)" by (simp add: bt_contains_def)
  also have "\<dots> \<longleftrightarrow> (\<exists>c. c \<in> set (recorded r) \<and> cl_id c = i)"
    unfolding register_okD(1) [OF assms] recorded_iff [OF assms] by blast
  finally show ?thesis by blast
qed

lemma distinct_map_filter_nth:
  assumes "\<And>i j a b. i < length xs \<Longrightarrow> j < length xs \<Longrightarrow> f (xs ! i) = Some a \<Longrightarrow> f (xs ! j) = Some b \<Longrightarrow> g a = g b \<Longrightarrow> i = j"
  shows "distinct (map g (List.map_filter f xs))"
  using assms
proof (induction xs)
  case (Cons x xs)
  have IH: "distinct (map g (List.map_filter f xs))"
    by (rule Cons.IH) (metis Cons.prems Suc_inject length_Cons not_less_eq nth_Cons_Suc)
  show ?case
  proof (cases "f x")
    case None
    then show ?thesis using IH by (simp add: List.map_filter_simps)
  next
    case (Some a)
    have "g a \<notin> g ` set (List.map_filter f xs)"
    proof
      assume "g a \<in> g ` set (List.map_filter f xs)"
      then obtain b where b: "b \<in> set (List.map_filter f xs)" "g a = g b" by blast
      then obtain j where "j < length xs" "f (xs ! j) = Some b"
        by (auto simp: List.map_filter_def in_set_conv_nth)
      then show False using Cons.prems [of 0 "Suc j" a b] Some b(2) by simp
    qed
    then show ?thesis using IH Some by (simp add: List.map_filter_simps)
  qed
qed (simp add: List.map_filter_simps)

lemma distinct_recorded: "register_ok lk r \<Longrightarrow> distinct (map cl_id (recorded r))"
  unfolding recorded_def
proof (rule distinct_map_filter_nth)
  fix i j a b
  assume ok: "register_ok lk r" and ij: "i < length (cr_events r)" "j < length (cr_events r)"
    and ab: "(case cr_events r ! i of Cleared c \<Rightarrow> Some c | ResetEvent _ _ \<Rightarrow> None) = Some a"
    "(case cr_events r ! j of Cleared c \<Rightarrow> Some c | ResetEvent _ _ \<Rightarrow> None) = Some b" "cl_id a = cl_id b"
  have "bt_get (cr_by_id r) (cl_id a) = Some i" "bt_get (cr_by_id r) (cl_id a) = Some j"
    using ij ab by (auto simp: register_okD(1) [OF ok] split: clearing_event.splits)
  then show "i = j" by simp
qed

lemma live_subset: "set (live r) \<subseteq> set (recorded r)"
  by (auto simp: live_def)

lemma live_item_sum:
  assumes "register_ok lk r" "c \<in> set (live r)"
  shows "0 \<le> item_sum p (cl_items c)" "item_sum p (cl_items c) \<le> cleared_total r p"
proof -
  have pos: "0 \<le> item_sum p (cl_items d)" if "d \<in> set (live r)" for d
    using register_okD(4) [OF assms(1)] that live_subset by (intro item_sum_nonneg) (auto simp: balanced_clearing_def)
  then show "0 \<le> item_sum p (cl_items c)" using assms(2) by blast
  have "item_sum p (cl_items c) \<in> set (map (\<lambda>c. item_sum p (cl_items c)) (live r))" using assms(2) by simp
  then show "item_sum p (cl_items c) \<le> cleared_total r p"
    unfolding cleared_total_def by (rule member_le_sum_list) (use pos in auto)
qed

lemma cleared_total_nonneg: "register_ok lk r \<Longrightarrow> 0 \<le> cleared_total r p"
  unfolding cleared_total_def using live_item_sum(1) by (fastforce intro!: sum_list_nonneg)

lemma applied_nonneg: "register_ok lk r \<Longrightarrow> 0 \<le> amt (applied_to r p)"
  using register_okD(3) cleared_total_nonneg by simp

section \<open>Clearing\<close>

lemma clear_register_Ok:
  assumes "register_ok lk r"
  shows "fst (clear_register E c lk r) = Ok () \<longleftrightarrow> \<not> bt_contains (cr_by_id r) (cl_id c) \<and> clearing_ok lk r c"
proof -
  note items = clear_items_Ok [OF applied_nonneg [OF assms], of E lk c "[]" balance_zero "cl_items c"]
  show ?thesis
  proof
    assume "fst (clear_register E c lk r) = Ok ()"
    then obtain seen sides where a: "\<not> bt_contains (cr_by_id r) (cl_id c)" "2 \<le> length (cl_items c)"
      "try_fold (clear_item E r lk c) ([], balance_zero) (cl_items c) = Ok (seen, sides)" "is_balanced sides"
      by (auto simp: clear_register_def split: if_splits sum.splits)
    then show "\<not> bt_contains (cr_by_id r) (cl_id c) \<and> clearing_ok lk r c"
      using in_i64_le [OF side_in_range [of Debit sides]] by (auto simp: items clearing_ok_def is_balanced_side)
  next
    assume a: "\<not> bt_contains (cr_by_id r) (cl_id c) \<and> clearing_ok lk r c"
    have pos: "\<forall>it\<in>set (cl_items c). 0 < amt (ci_applied it)" using a by (auto simp: clearing_ok_def item_ok_def)
    have "in_i64 (side_sum lk s (cl_items c))" for s
      using a side_sum_nonneg [OF pos, of lk s]
      by (cases s) (auto simp: clearing_ok_def in_i64_def i64_min_def)
    then obtain d k where dk: "amt d = side_sum lk Debit (cl_items c)" "amt k = side_sum lk Credit (cl_items c)"
      by (metis amt_ex)
    have fold: "try_fold (clear_item E r lk c) ([], balance_zero) (cl_items c)
        = Ok (map ci_posting (cl_items c), \<lparr>debits = d, credits = k\<rparr>)"
      unfolding items all_directions using a dk by (simp add: clearing_ok_def side_def balance_zero_def)
    have "\<exists>y. checked_add (applied_to r (ci_posting it)) (ci_applied it) = Ok y" if it: "it \<in> set (cl_items c)" for it
    proof -
      have "item_ok lk r c it" using a it by (simp add: clearing_ok_def)
      then obtain q :: posting where q: "amt (applied_to r (ci_posting it)) + amt (ci_applied it) \<le> amt (p_amount q)"
        unfolding item_ok_def by blast
      have "in_i64 (amt (applied_to r (ci_posting it)) + amt (ci_applied it))"
        using q pos it amt_range(2) [of "p_amount q"] applied_nonneg [OF assms, of "ci_posting it"]
        by (force simp: in_i64_def i64_min_def)
      then show ?thesis using amt_ex by simp
    qed
    then obtain staged where "stage checked_add r (cl_items c) = Ok staged" using stage_succeeds by blast
    then show "fst (clear_register E c lk r) = Ok ()"
      using a fold dk by (auto simp: clear_register_def clearing_ok_def is_balanced_side side_def Let_def)
  qed
qed

lemma clear_register_state:
  assumes "register_ok lk r" "clear_register E c lk r = (Ok u, r')"
  shows "cr_events r' = cr_events r @ [Cleared c]" "resets r' = resets r"
    "cr_by_id r' = bt_insert (cl_id c) (length (cr_events r)) (cr_by_id r)"
    "amt (applied_to r' p) = amt (applied_to r p) + item_sum p (cl_items c)"
proof -
  obtain staged where st: "stage checked_add r (cl_items c) = Ok staged"
    and r': "r' = (apply_staged r staged)\<lparr>cr_by_id := bt_insert (cl_id c) (length (cr_events r)) (cr_by_id r),
        cr_events := cr_events r @ [Cleared c]\<rparr>"
    using assms(2) by (auto simp: clear_register_def Let_def apply_staged_def split: if_splits sum.splits)
  show "cr_events r' = cr_events r @ [Cleared c]" "resets r' = resets r"
    "cr_by_id r' = bt_insert (cl_id c) (length (cr_events r)) (cr_by_id r)"
    by (simp_all add: r' apply_staged_def)
  have "fst (clear_register E c lk r) = Ok ()" using assms(2) by simp
  then have "distinct (map ci_posting (cl_items c))" using clear_register_Ok [OF assms(1)] by (simp add: clearing_ok_def)
  then have "amt (applied_to (apply_staged r staged) p) = amt (applied_to r p) + 1 * item_sum p (cl_items c)"
    by (rule stage_Ok [OF st]) simp
  then show "amt (applied_to r' p) = amt (applied_to r p) + item_sum p (cl_items c)"
    by (simp add: r' applied_to_def)
qed

lemma map_filter_snoc: "List.map_filter f (xs @ [x]) = List.map_filter f xs @ (case f x of None \<Rightarrow> [] | Some y \<Rightarrow> [y])"
  by (simp add: List.map_filter_def split: option.splits)

lemma clear_register_inv:
  assumes "register_ok lk r" "clear_register E c lk r = (Ok u, r')"
  shows "register_ok lk r'" "live r' = live r @ [c]"
proof -
  have "fst (clear_register E c lk r) = Ok ()" using assms(2) by simp
  then have c: "\<not> bt_contains (cr_by_id r) (cl_id c)" "clearing_ok lk r c" using clear_register_Ok [OF assms(1)] by auto
  note st = clear_register_state [OF assms]
  have reset: "is_reset r' i \<longleftrightarrow> is_reset r i" for i by (simp add: is_reset_def st(2))
  have rec: "recorded r' = recorded r @ [c]" by (simp add: recorded_def st(1) map_filter_snoc)
  have "\<not> is_reset r (cl_id c)" using register_okD(2) [OF assms(1)] c(1) by blast
  then show live: "live r' = live r @ [c]" by (simp add: live_def rec reset)
  have total: "cleared_total r' p = cleared_total r p + item_sum p (cl_items c)" for p
    by (simp add: cleared_total_def live)
  have bal: "balanced_clearing lk c" using c(2) by (auto simp: balanced_clearing_def clearing_ok_def item_ok_def)
  have bound: "\<exists>q. lk p = Some q \<and> cleared_total r' p \<le> amt (p_amount q)" if nz: "cleared_total r' p \<noteq> 0" for p
  proof (cases "p \<in> ci_posting ` set (cl_items c)")
    case True
    then obtain it where it: "it \<in> set (cl_items c)" "p = ci_posting it" by blast
    then have "item_sum p (cl_items c) = amt (ci_applied it)" using c(2) by (simp add: clearing_ok_def item_sum_member)
    moreover have "item_ok lk r c it" using c(2) it by (simp add: clearing_ok_def)
    ultimately show ?thesis using it(2) register_okD(3) [OF assms(1), of p] by (auto simp: item_ok_def total)
  next
    case False
    then show ?thesis using register_okD(5) [OF assms(1), of p] nz by (simp add: total item_sum_fresh)
  qed
  have index: "bt_get (cr_by_id r') i = Some k \<longleftrightarrow> k < length (cr_events r') \<and> (\<exists>d. cr_events r' ! k = Cleared d \<and> cl_id d = i)" for i k
    using c(1) register_okD(1) [OF assms(1), of i k] by (auto simp: st(1,3) bt_contains_def nth_append less_Suc_eq split: if_splits)
  have conts: "bt_contains (cr_by_id r') i" if "is_reset r' i" for i
    using that register_okD(2) [OF assms(1)] by (simp add: reset st(3))
  show "register_ok lk r'"
    unfolding register_ok_def
    using index conts bound bal register_okD(3,4) [OF assms(1)] by (auto simp: st(4) total rec)
qed

lemma clear_register_Err: "clear_register E c lk r = (Err e, r') \<Longrightarrow> r' = r"
  by (auto simp: clear_register_def Let_def split: if_splits sum.splits)

section \<open>Releasing\<close>

lemma sum_without:
  "distinct (map f xs) \<Longrightarrow> x \<in> set xs \<Longrightarrow>
    sum_list (map g (filter (\<lambda>y. f y \<noteq> f x) xs)) = sum_list (map g xs) - (g x :: int)"
proof (induction xs)
  case (Cons a xs)
  show ?case
  proof (cases "a = x")
    case True
    then have "f x \<notin> f ` set xs" using Cons.prems(1) by simp
    then have "filter (\<lambda>y. f y \<noteq> f x) xs = xs" by (intro filter_True) (metis image_eqI)
    then show ?thesis using True by simp
  next
    case False
    then have "f a \<noteq> f x" using Cons.prems by (auto simp: image_iff)
    then show ?thesis using Cons False by simp
  qed
qed simp

lemma reset_register_Ok:
  assumes "register_ok lk r"
  shows "fst (reset_register i on r) = Ok () \<longleftrightarrow> i \<in> cl_id ` set (live r)"
proof
  assume "fst (reset_register i on r) = Ok ()"
  then have "bt_contains (cr_by_id r) i" "\<not> is_reset r i"
    by (auto simp: reset_register_def bt_contains_def is_reset_def split: option.splits if_splits)
  then show "i \<in> cl_id ` set (live r)" by (auto simp: recorded_contains [OF assms] live_def)
next
  assume "i \<in> cl_id ` set (live r)"
  then obtain c where c: "c \<in> set (live r)" "cl_id c = i" by blast
  then obtain k where k: "k < length (cr_events r)" "cr_events r ! k = Cleared c" "\<not> is_reset r i"
    using live_subset recorded_iff [OF assms] by (fastforce simp: live_def)
  then have get: "bt_get (cr_by_id r) i = Some k" using c(2) register_okD(1) [OF assms] by blast
  have bal: "balanced_clearing lk c" using register_okD(4) [OF assms] c(1) live_subset by blast
  have "\<exists>y. checked_sub (applied_to r (ci_posting it)) (ci_applied it) = Ok y" if it: "it \<in> set (cl_items c)" for it
  proof -
    have "item_sum (ci_posting it) (cl_items c) = amt (ci_applied it)" "0 < amt (ci_applied it)"
      using bal it by (simp_all add: balanced_clearing_def item_sum_member)
    then have "amt (ci_applied it) \<le> amt (applied_to r (ci_posting it))"
      using live_item_sum(2) [OF assms c(1), of "ci_posting it"] register_okD(3) [OF assms] by simp
    then have "in_i64 (amt (applied_to r (ci_posting it)) - amt (ci_applied it))"
      using \<open>0 < amt (ci_applied it)\<close> amt_range [of "applied_to r (ci_posting it)"] by (simp add: in_i64_def i64_min_def)
    then show ?thesis using amt_ex by simp
  qed
  then obtain staged where "stage checked_sub r (cl_items c) = Ok staged" using stage_succeeds by blast
  then show "fst (reset_register i on r) = Ok ()"
    using get k by (simp add: reset_register_def is_reset_def Let_def)
qed

lemma reset_register_state:
  assumes "register_ok lk r" "reset_register i on r = (Ok u, r')"
  obtains c where "c \<in> set (live r)" "cl_id c = i" "cr_events r' = cr_events r @ [ResetEvent i on]"
    "resets r' = bt_insert i on (resets r)" "cr_by_id r' = cr_by_id r"
    "\<And>p. amt (applied_to r' p) = amt (applied_to r p) - item_sum p (cl_items c)"
proof -
  obtain k c staged where k: "bt_get (cr_by_id r) i = Some k" "\<not> bt_contains (resets r) i" "k < length (cr_events r)"
    "cr_events r ! k = Cleared c" and st: "stage checked_sub r (cl_items c) = Ok staged"
    and r': "r' = (apply_staged r staged)\<lparr>resets := bt_insert i on (resets r), cr_events := cr_events r @ [ResetEvent i on]\<rparr>"
    using assms(2) by (auto simp: reset_register_def Let_def apply_staged_def split: if_splits sum.splits option.splits clearing_event.splits)
  have c: "c \<in> set (recorded r)" "cl_id c = i"
    using k recorded_iff [OF assms(1)] register_okD(1) [OF assms(1), of i k] by auto
  have "distinct (map ci_posting (cl_items c))"
    using register_okD(4) [OF assms(1) c(1)] by (simp add: balanced_clearing_def)
  then have "amt (applied_to (apply_staged r staged) p) = amt (applied_to r p) + (- 1) * item_sum p (cl_items c)" for p
    by (rule stage_Ok [OF st]) simp
  then have "amt (applied_to r' p) = amt (applied_to r p) - item_sum p (cl_items c)" for p
    by (simp add: r' applied_to_def)
  moreover have "c \<in> set (live r)" using c k(2) by (simp add: live_def is_reset_def)
  ultimately show ?thesis using that [of c] c(2) by (simp add: r' apply_staged_def)
qed

lemma reset_register_inv:
  assumes "register_ok lk r" "reset_register i on r = (Ok u, r')"
  shows "register_ok lk r'" "live r' = filter (\<lambda>c. cl_id c \<noteq> i) (live r)"
proof -
  obtain c where c: "c \<in> set (live r)" "cl_id c = i" and st: "cr_events r' = cr_events r @ [ResetEvent i on]"
    "resets r' = bt_insert i on (resets r)" "cr_by_id r' = cr_by_id r"
    "\<And>p. amt (applied_to r' p) = amt (applied_to r p) - item_sum p (cl_items c)"
    using reset_register_state [OF assms] by metis
  have reset: "is_reset r' j \<longleftrightarrow> j = i \<or> is_reset r j" for j by (simp add: is_reset_def st(2))
  have rec: "recorded r' = recorded r" by (simp add: recorded_def st(1) map_filter_snoc)
  show live: "live r' = filter (\<lambda>c. cl_id c \<noteq> i) (live r)"
    by (simp add: live_def rec reset conj_commute)
  have "distinct (map cl_id (live r))" using distinct_recorded [OF assms(1)] by (simp add: live_def distinct_map_filter)
  then have total: "cleared_total r' p = cleared_total r p - item_sum p (cl_items c)" for p
    using sum_without [of cl_id "live r" c "\<lambda>c. item_sum p (cl_items c)"] c by (simp add: cleared_total_def live)
  have bound: "\<exists>q. lk p = Some q \<and> cleared_total r' p \<le> amt (p_amount q)" if "cleared_total r' p \<noteq> 0" for p
  proof -
    have "0 \<le> item_sum p (cl_items c)" "item_sum p (cl_items c) \<le> cleared_total r p"
      using live_item_sum [OF assms(1) c(1)] by auto
    moreover from this have "cleared_total r p \<noteq> 0" using that total by auto
    ultimately show ?thesis using register_okD(5) [OF assms(1), of p] total by fastforce
  qed
  have index: "bt_get (cr_by_id r') j = Some k \<longleftrightarrow> k < length (cr_events r') \<and> (\<exists>d. cr_events r' ! k = Cleared d \<and> cl_id d = j)" for j k
    using register_okD(1) [OF assms(1), of j k] by (auto simp: st(1,3) nth_append less_Suc_eq)
  have "bt_contains (cr_by_id r) i" using c live_subset by (auto simp: recorded_contains [OF assms(1)])
  then have conts: "bt_contains (cr_by_id r') j" if "is_reset r' j" for j
    using that register_okD(2) [OF assms(1)] by (auto simp: reset st(3))
  show "register_ok lk r'"
    unfolding register_ok_def
    using index conts bound register_okD(3,4) [OF assms(1)] by (auto simp: st(4) total rec)
qed

lemma reset_register_Err: "reset_register i on r = (Err e, r') \<Longrightarrow> r' = r"
  by (auto simp: reset_register_def Let_def split: if_splits sum.splits option.splits clearing_event.splits)

section \<open>The contract of the state behind the references\<close>

locale posting_store =
  fixes lookup :: "'s \<Rightarrow> posting_ref \<Rightarrow> posting option" and grows :: "'s \<Rightarrow> 's \<Rightarrow> bool"
  assumes grows_lookup: "grows s t \<Longrightarrow> lookup s p = Some q \<Longrightarrow> lookup t p = Some q"
begin

lemma side_sum_grows:
  assumes "grows s t" "\<forall>it\<in>set items. \<exists>q. lookup s (ci_posting it) = Some q"
  shows "side_sum (lookup t) d items = side_sum (lookup s) d items"
  using assms(2)
proof (induction items)
  case (Cons it items)
  then obtain q where "lookup s (ci_posting it) = Some q" by auto
  moreover from this have "lookup t (ci_posting it) = Some q" by (rule grows_lookup [OF assms(1)])
  ultimately show ?case using Cons by (simp add: on_side_def)
qed simp

lemma balanced_clearing_grows:
  assumes "grows s t" "balanced_clearing (lookup s) c"
  shows "balanced_clearing (lookup t) c"
proof -
  have "\<forall>it\<in>set (cl_items c). \<exists>q. lookup s (ci_posting it) = Some q" using assms(2) by (auto simp: balanced_clearing_def)
  then show ?thesis
    using assms(2) side_sum_grows [OF assms(1)] grows_lookup [OF assms(1)]
    by (simp add: balanced_clearing_def) blast
qed

lemma register_ok_grows:
  assumes "grows s t" "register_ok (lookup s) r"
  shows "register_ok (lookup t) r"
  using assms(2) balanced_clearing_grows [OF assms(1)] grows_lookup [OF assms(1)]
  unfolding register_ok_def by blast

end

end
