(* ===== verification/Position_Index.thy ===== *)
theory Position_Index
  imports Prelude
begin

text \<open>
  The contract between a vector and the ordered index kept beside it: looking up a key gives the
  position of the one element with that key. The account registry keeps such an index from paths to
  handles and the journal from idempotency keys and entry ids to log positions.
\<close>

locale position_index =
  fixes inv :: "'s \<Rightarrow> bool" and elems :: "'s \<Rightarrow> 'a list" and key :: "'a \<Rightarrow> 'k"
    and lookup :: "'s \<Rightarrow> 'k \<Rightarrow> nat option"
  assumes lookup_iff: "inv s \<Longrightarrow> lookup s k = Some i \<longleftrightarrow> i < length (elems s) \<and> key (elems s ! i) = k"
begin

lemma lookup_at: "inv s \<Longrightarrow> i < length (elems s) \<Longrightarrow> lookup s (key (elems s ! i)) = Some i"
  by (simp add: lookup_iff)

lemma positions_unique:
  "inv s \<Longrightarrow> i < length (elems s) \<Longrightarrow> j < length (elems s) \<Longrightarrow> key (elems s ! i) = key (elems s ! j) \<Longrightarrow> i = j"
  by (metis lookup_at option.inject)

lemma distinct_keys: "inv s \<Longrightarrow> distinct (map key (elems s))"
  by (auto simp: distinct_conv_nth dest: positions_unique)

lemma lookup_None: "inv s \<Longrightarrow> lookup s k = None \<longleftrightarrow> k \<notin> key ` set (elems s)"
proof -
  assume s: "inv s"
  have "lookup s k \<noteq> None \<longleftrightarrow> k \<in> key ` set (elems s)"
    using lookup_iff [OF s, of k] by (force simp: in_set_conv_nth)
  then show ?thesis by blast
qed

lemma lookup_stable:
  assumes "inv s" "inv t" "lookup s k = Some i" "i < length (elems t)" "key (elems t ! i) = key (elems s ! i)"
  shows "lookup t k = Some i"
  using assms by (simp add: lookup_iff)

end

end
