(* ===== verification/Registry.thy ===== *)
theory Registry
  imports Account Position_Index
begin

text \<open>
  What the account registry promises: the index, the handles and the child counts agree with the
  list of accounts after every operation; handles keep their paths for ever; the stored records
  rebuild the same registry; and binding proofs tie a handle to its path.
\<close>

section \<open>The invariant\<close>

definition path_at :: "registry \<Rightarrow> nat \<Rightarrow> account_path" where
  "path_at r i = a_path (accounts r ! i)"

definition below :: "registry \<Rightarrow> account_path \<Rightarrow> nat set" where
  "below r p = {j. j < reg_len r \<and> strictly_under (path_at r j) p}"

definition window_ok :: "account \<Rightarrow> bool" where
  "window_ok a \<longleftrightarrow> (case closed_on a of None \<Rightarrow> True | Some c \<Rightarrow> opened_on a \<le> c)"

definition reg_inv :: "registry \<Rightarrow> bool" where
  "reg_inv r \<longleftrightarrow> reg_len r \<le> 4294967296 \<and> length (child_count r) = reg_len r
     \<and> (\<forall>p i. bt_get (path_index r) p = Some i \<longleftrightarrow> idx i < reg_len r \<and> path_at r (idx i) = p)
     \<and> (\<forall>i < reg_len r. unat (child_count r ! i) = card (below r (path_at r i)))
     \<and> (\<forall>a\<in>set (accounts r). window_ok a \<and> segments (a_path a) \<noteq> [])"

lemma idx_inj [simp]: "idx i = idx j \<longleftrightarrow> i = j"
  by (simp add: idx_def unat_inj account_id.expand) (metis account_id.expand)

lemma idx_bound: "idx i < 4294967296"
  using unat_bound [of "account_index i"] by (simp add: idx_def)

lemma idx_handle_at [simp]: "n < 4294967296 \<Longrightarrow> idx (handle_at n) = n"
  by (simp add: idx_def handle_at_def u32_try_def u32_max_def unat_of_nat)

lemma handle_at_idx [simp]: "handle_at (idx i) = i"
  by (metis idx_bound idx_handle_at idx_inj)

interpretation paths: position_index reg_inv accounts a_path "\<lambda>r p. map_option idx (id_of r p)"
proof
  fix r p i
  assume r: "reg_inv r"
  have "map_option idx (id_of r p) = Some i \<longleftrightarrow> (\<exists>h. idx h = i \<and> idx h < reg_len r \<and> path_at r (idx h) = p)"
    using r by (auto simp: id_of_def reg_inv_def)
  also have "\<dots> \<longleftrightarrow> i < length (accounts r) \<and> a_path (accounts r ! i) = p"
    using r idx_handle_at [of i] by (auto simp: reg_inv_def reg_len_def path_at_def intro!: exI [of _ "handle_at i"])
  finally show "map_option idx (id_of r p) = Some i \<longleftrightarrow> i < length (accounts r) \<and> a_path (accounts r ! i) = p" .
qed

lemma reg_inv_new [simp]: "reg_inv registry_new"
  by (simp add: reg_inv_def registry_new_def reg_len_def)

lemma reg_get_Some: "reg_get r i = Some a \<longleftrightarrow> idx i < reg_len r \<and> a = accounts r ! idx i"
  by (auto simp: reg_get_def reg_len_def)

section \<open>Scanning descendants\<close>

lemma takeWhile_under:
  assumes "sorted_wrt (<) (map fst xs)" "\<forall>x\<in>set xs. pre \<le> fst x"
  shows "takeWhile (\<lambda>(p, _). is_under p pre) xs = filter (\<lambda>(p, _). is_under p pre) xs"
  using assms
proof (induction xs)
  case (Cons x xs)
  show ?case
  proof (cases "is_under (fst x) pre")
    case True
    then show ?thesis using Cons by (auto simp: case_prod_beta)
  next
    case False
    have "\<not> is_under (fst y) pre" if "y \<in> set xs" for y
      using under_contiguous [of pre "fst x" "fst y"] False that Cons.prems by fastforce
    then show ?thesis using False by (simp add: case_prod_beta filter_empty_conv)
  qed
qed simp

lemma descendant_range_filter:
  "descendant_range r pre = filter (\<lambda>(p, _). strictly_under p pre) (bt_iter (path_index r))"
proof -
  let ?xs = "bt_from (path_index r) pre"
  have srt: "sorted_wrt (<) (map fst ?xs)"
    unfolding bt_from_def by (rule sorted_filter_keys [OF bt_sorted])
  have ge: "\<forall>x\<in>set ?xs. pre \<le> fst x" by (simp add: bt_from_def)
  let ?ys = "dropWhile (\<lambda>(p, _). p = pre) ?xs"
  have drop: "?ys = filter (\<lambda>(p, _). p \<noteq> pre) ?xs"
  proof (cases ?xs)
    case (Cons x xs)
    have "fst y \<noteq> pre" if "y \<in> set xs" for y
      using srt ge that unfolding Cons by fastforce
    then have "filter (\<lambda>(p, _). p \<noteq> pre) xs = xs" "dropWhile (\<lambda>(p, _). p = pre) xs = xs"
      by (auto simp: filter_id_conv dropWhile_eq_self_iff case_prod_beta)
    then show ?thesis unfolding Cons by (auto simp: case_prod_beta)
  qed simp
  have "takeWhile (\<lambda>(p, _). is_under p pre) ?ys = filter (\<lambda>(p, _). is_under p pre) ?ys"
    unfolding drop by (rule takeWhile_under [OF sorted_filter_keys [OF srt]]) (use ge in auto)
  then show ?thesis
    unfolding descendant_range_def drop
    by (auto simp: bt_from_def case_prod_beta strictly_under_def dest: under_le intro!: filter_cong)
qed

lemma descendants_of_filter:
  "descendants_of r pre = map snd (filter (\<lambda>(p, _). is_under p pre) (bt_iter (path_index r)))"
proof -
  let ?xs = "bt_from (path_index r) pre"
  have "takeWhile (\<lambda>(p, _). is_under p pre) ?xs = filter (\<lambda>(p, _). is_under p pre) ?xs"
    by (rule takeWhile_under) (auto simp: bt_from_def intro: sorted_filter_keys [OF bt_sorted])
  then show ?thesis
    by (auto simp: descendants_of_def bt_from_def case_prod_beta dest: under_le intro!: arg_cong [where f = "map snd"] filter_cong)
qed

lemma length_descendant_range:
  assumes "reg_inv r"
  shows "length (descendant_range r pre) = card (below r pre)"
proof -
  let ?D = "set (descendant_range r pre)"
  have D: "?D = {(p, i). bt_get (path_index r) p = Some i \<and> strictly_under p pre}"
    by (auto simp: descendant_range_filter bt_get_iter)
  have "distinct (descendant_range r pre)"
    by (simp add: descendant_range_filter bt_distinct_iter)
  then have "length (descendant_range r pre) = card ?D" by (simp add: distinct_card)
  also have "\<dots> = card ((\<lambda>(p, i). idx i) ` ?D)"
    by (rule card_image [symmetric]) (use assms in \<open>auto simp: inj_on_def D reg_inv_def\<close>)
  also have "(\<lambda>(p, i). idx i) ` ?D = below r pre"
  proof -
    have "j \<in> (\<lambda>(p, i). idx i) ` ?D" if "j \<in> below r pre" for j
      using assms that by (intro image_eqI [of _ _ "(path_at r j, handle_at j)"]) (auto simp: D below_def reg_inv_def)
    then show ?thesis using assms by (auto simp: D below_def reg_inv_def)
  qed
  finally show ?thesis .
qed

section \<open>Registering\<close>

lemma bump_parent_nth:
  assumes "reg_inv r" "length counts = reg_len r" "i < reg_len r"
  shows "bump_parent r counts q ! i = (if path_at r i = q then u32_saturating_add (counts ! i) 1 else counts ! i)"
proof (cases "bt_get (path_index r) q")
  case None
  have "bt_get (path_index r) (path_at r i) = Some (handle_at i)" using assms by (auto simp: reg_inv_def)
  with None have "path_at r i \<noteq> q" by auto
  then show ?thesis using None by (simp add: bump_parent_def)
next
  case (Some h)
  then have h: "idx h < reg_len r" "path_at r (idx h) = q" using assms(1) by (auto simp: reg_inv_def)
  then have "path_at r i = q \<longleftrightarrow> i = idx h"
    using paths.positions_unique [OF assms(1), of i "idx h"] assms(3) by (auto simp: path_at_def reg_len_def)
  then show ?thesis using Some h assms(2,3) by (auto simp: bump_parent_def)
qed

lemma length_bump_parent [simp]: "length (bump_parent r counts q) = length counts"
  by (simp add: bump_parent_def split: option.splits)

lemma bump_all:
  assumes "reg_inv r" "length counts = reg_len r" "i < reg_len r" "distinct qs"
  shows "length (foldl (bump_parent r) counts qs) = reg_len r"
    "foldl (bump_parent r) counts qs ! i = (if path_at r i \<in> set qs then u32_saturating_add (counts ! i) 1 else counts ! i)"
proof -
  have "length (foldl (bump_parent r) counts qs) = reg_len r
    \<and> foldl (bump_parent r) counts qs ! i = (if path_at r i \<in> set qs then u32_saturating_add (counts ! i) 1 else counts ! i)"
    using assms(2,4)
  proof (induction qs arbitrary: counts)
    case (Cons q qs)
    then show ?case using bump_parent_nth [OF assms(1) Cons.prems(1) assms(3), of q] by auto
  qed simp
  then show "length (foldl (bump_parent r) counts qs) = reg_len r"
    "foldl (bump_parent r) counts qs ! i = (if path_at r i \<in> set qs then u32_saturating_add (counts ! i) 1 else counts ! i)"
    by auto
qed

lemma finite_below [simp]: "finite (below r p)"
  by (simp add: below_def)

lemma card_below_at: "i < reg_len r \<Longrightarrow> card (below r (path_at r i)) < reg_len r"
proof -
  assume i: "i < reg_len r"
  have "below r (path_at r i) \<subseteq> {..<reg_len r} - {i}" by (auto simp: below_def strictly_under_def)
  then have "card (below r (path_at r i)) \<le> card ({..<reg_len r} - {i})" by (intro card_mono) auto
  then show ?thesis using i by simp
qed

lemma card_below_le: "card (below r p) \<le> reg_len r"
proof -
  have "card (below r p) \<le> card {..<reg_len r}" by (intro card_mono) (auto simp: below_def)
  then show ?thesis by simp
qed

lemma register_Ok:
  assumes "reg_inv r" "segments (a_path a) \<noteq> []" "register a r = (Ok i, r')"
  shows "reg_inv r'" "idx i = reg_len r" "accounts r' = accounts r @ [a]" "id_of r (a_path a) = None" "reg_len r < 4294967296"
proof -
  have new: "bt_get (path_index r) (a_path a) = None" and win: "window_ok a"
    using assms(3) by (auto simp: register_def bt_contains_def window_ok_def split: if_splits option.splits)
  obtain n where n: "u32_try (reg_len r) = Some n" and i: "i = AccountId n"
    and r': "r' = \<lparr>accounts = accounts r @ [a], path_index = bt_insert (a_path a) i (path_index r),
        child_count = foldl (bump_parent r) (child_count r) (ancestors (a_path a))
          @ [case u32_try (length (descendant_range r (a_path a))) of Some c \<Rightarrow> c | None \<Rightarrow> of_nat u32_max]\<rparr>"
    using assms(3) by (auto simp: register_def reg_len_def Let_def split: if_splits option.splits)
  show i': "idx i = reg_len r" using n i by (simp add: u32_try_Some idx_def)
  show len: "reg_len r < 4294967296" using n by (simp add: u32_try_def u32_max_def split: if_splits)
  show acc: "accounts r' = accounts r @ [a]" by (simp add: r')
  show "id_of r (a_path a) = None" using new by (simp add: id_of_def)
  have old: "path_at r' j = path_at r j" if "j < reg_len r" for j
    using that by (simp add: path_at_def acc reg_len_def nth_append)
  have at_new: "path_at r' (reg_len r) = a_path a" by (simp add: path_at_def acc reg_len_def)
  have len': "reg_len r' = Suc (reg_len r)" by (simp add: acc reg_len_def)
  have below': "below r' p = below r p \<union> (if strictly_under (a_path a) p then {reg_len r} else {})" for p
    by (auto simp: below_def len' less_Suc_eq old at_new)
  have fresh: "reg_len r \<notin> below r p" for p by (simp add: below_def)
  let ?cs = "foldl (bump_parent r) (child_count r) (ancestors (a_path a))"
  have clen: "length (child_count r) = reg_len r" using assms(1) by (simp add: reg_inv_def)
  have bumps: "length (foldl (bump_parent r) counts qs) = length counts" for counts qs
    by (induction qs arbitrary: counts) auto
  have cs: "unat (?cs ! j) = card (below r' (path_at r j))" if "j < reg_len r" for j
  proof -
    have "accounts r ! j \<in> set (accounts r)" using that by (simp add: reg_len_def)
    then have "path_at r j \<in> set (ancestors (a_path a)) \<longleftrightarrow> strictly_under (a_path a) (path_at r j)"
      using assms(1) by (auto simp: set_ancestors path_at_def reg_inv_def)
    moreover have "unat (child_count r ! j) = card (below r (path_at r j))"
      using assms(1) that by (simp add: reg_inv_def)
    ultimately show ?thesis
      using bump_all(2) [OF assms(1) clen that distinct_ancestors] card_below_at [OF that] len fresh
      by (simp add: below' unat_u32_saturating u32_max_def)
  qed
  have last: "unat (case u32_try (length (descendant_range r (a_path a))) of Some c \<Rightarrow> c | None \<Rightarrow> of_nat u32_max)
      = card (below r' (a_path a))"
  proof -
    have "length (descendant_range r (a_path a)) \<le> u32_max"
      using length_descendant_range [OF assms(1)] card_below_le [of r "a_path a"] len by (simp add: u32_max_def)
    then obtain c where c: "u32_try (length (descendant_range r (a_path a))) = Some c" by (simp add: u32_try_def)
    then have "unat c = card (below r (a_path a))"
      using length_descendant_range [OF assms(1), of "a_path a"] by (simp only: u32_try_Some)
    then show ?thesis unfolding c by (simp add: below' strictly_under_def)
  qed
  have index: "bt_get (path_index r') p = Some h \<longleftrightarrow> idx h < reg_len r' \<and> path_at r' (idx h) = p" for p h
  proof -
    have "bt_get (path_index r) p = Some h \<longleftrightarrow> idx h < reg_len r \<and> path_at r (idx h) = p"
      using assms(1) by (simp add: reg_inv_def)
    moreover have "path_at r j \<noteq> a_path a" if "j < reg_len r" for j
    proof
      assume "path_at r j = a_path a"
      then have "map_option idx (id_of r (a_path a)) = Some j"
        using paths.lookup_at [OF assms(1), of j] that by (simp add: path_at_def reg_len_def)
      then show False using new by (simp add: id_of_def)
    qed
    moreover have "idx h = reg_len r \<longleftrightarrow> h = i" using i' by (metis idx_inj)
    moreover have "path_index r' = bt_insert (a_path a) i (path_index r)" by (simp add: r')
    ultimately show ?thesis
      using old [of "idx h"] at_new i' by (cases "idx h < reg_len r"; cases "h = i") (auto simp: len')
  qed
  show "reg_inv r'"
    unfolding reg_inv_def
  proof (intro conjI allI impI)
    show "reg_len r' \<le> 4294967296" using len len' by simp
    have cc: "child_count r' = ?cs @ [case u32_try (length (descendant_range r (a_path a))) of Some c \<Rightarrow> c | None \<Rightarrow> of_nat u32_max]"
      by (simp add: r')
    have csl: "length ?cs = reg_len r" using bumps clen by simp
    show "length (child_count r') = reg_len r'" unfolding cc using csl len' by simp
    show "bt_get (path_index r') p = Some h \<longleftrightarrow> idx h < reg_len r' \<and> path_at r' (idx h) = p" for p h by (rule index)
    show "unat (child_count r' ! j) = card (below r' (path_at r' j))" if "j < reg_len r'" for j
    proof (cases "j < reg_len r")
      case True
      then show ?thesis unfolding cc using cs [OF True] old [OF True] csl by (simp only: nth_append if_True)
    next
      case False
      then have "j = reg_len r" using that len' by simp
      then show ?thesis unfolding cc using last csl at_new by (simp only: nth_append_length [of ?cs, unfolded csl])
    qed
    show "\<forall>x\<in>set (accounts r'). window_ok x \<and> segments (a_path x) \<noteq> []"
      using assms(1,2) win by (auto simp: acc reg_inv_def)
  qed
qed

lemma register_Err: "register a r = (Err e, r') \<Longrightarrow> r' = r"
  by (auto simp: register_def Let_def split: if_splits option.splits)

section \<open>Master data\<close>

lemma reg_len_update [simp]: "reg_len (update_account r i a) = reg_len r"
  by (simp add: reg_len_def update_account_def)

lemma path_at_update: "a_path a = path_at r (idx i) \<Longrightarrow> path_at (update_account r i a) j = path_at r j"
  by (cases "idx i < reg_len r")
    (auto simp: path_at_def update_account_def nth_list_update reg_len_def list_update_beyond)

lemma update_account_inv:
  assumes "reg_inv r" "idx i < reg_len r" "a_path a = path_at r (idx i)" "window_ok a"
  shows "reg_inv (update_account r i a)"
proof -
  let ?r = "update_account r i a"
  have p: "path_at ?r j = path_at r j" for j by (rule path_at_update [OF assms(3)])
  have b: "below ?r q = below r q" for q by (simp add: below_def p)
  have parts: "path_index ?r = path_index r" "child_count ?r = child_count r" "accounts ?r = (accounts r)[idx i := a]"
    by (simp_all add: update_account_def)
  have "segments (a_path a) \<noteq> []"
    using assms(1-3) by (auto simp: reg_inv_def path_at_def reg_len_def)
  then have "\<forall>x\<in>set (accounts ?r). window_ok x \<and> segments (a_path x) \<noteq> []"
    using assms(1,4) set_update_subset_insert [of "accounts r" "idx i" a] unfolding parts by (auto simp: reg_inv_def)
  then show ?thesis using assms(1) unfolding reg_inv_def by (simp add: p b parts)
qed

text \<open>Every operation on the registry: the registry afterwards keeps the handles it had.\<close>

definition extends :: "registry \<Rightarrow> registry \<Rightarrow> bool" where
  "extends r r' \<longleftrightarrow> reg_len r \<le> reg_len r' \<and> (\<forall>i < reg_len r. path_at r' i = path_at r i)"

lemma extends_refl [simp]: "extends r r"
  by (simp add: extends_def)

lemma extends_trans: "extends r s \<Longrightarrow> extends s t \<Longrightarrow> extends r t"
  by (auto simp: extends_def)

lemma register_extends:
  assumes "reg_inv r" "segments (a_path a) \<noteq> []" "register a r = (res, r')"
  shows "reg_inv r' \<and> extends r r' \<and> (is_ok res \<or> r' = r)"
proof (cases res)
  case (Inl e)
  then have "r' = r" using assms(3) register_Err by blast
  then show ?thesis using assms(1) by simp
next
  case (Inr i)
  then have "register a r = (Ok i, r')" using assms(3) by simp
  from register_Ok(1,3) [OF assms(1,2) this] show ?thesis
    using Inr by (simp add: extends_def reg_len_def path_at_def nth_append)
qed

lemma update_extends: "a_path a = path_at r (idx i) \<Longrightarrow> extends r (update_account r i a)"
  by (simp add: extends_def path_at_update)

lemma path_of_get: "reg_get r i = Some a \<Longrightarrow> a_path a = path_at r (idx i) \<and> idx i < reg_len r"
  by (auto simp: reg_get_Some path_at_def)

lemma get_window: "reg_inv r \<Longrightarrow> reg_get r i = Some a \<Longrightarrow> window_ok a"
  by (auto simp: reg_get_Some reg_inv_def reg_len_def)

lemma close_extends:
  assumes "reg_inv r" "close i on r = (res, r')"
  shows "reg_inv r' \<and> extends r r' \<and> (is_ok res \<or> r' = r)"
  using assms by (auto simp: close_def window_ok_def dest!: path_of_get split: option.splits if_splits
      intro!: update_account_inv update_extends)

lemma reopen_extends:
  assumes "reg_inv r" "reopen i r = (res, r')"
  shows "reg_inv r' \<and> extends r r' \<and> (is_ok res \<or> r' = r)"
  using assms by (auto simp: reopen_def window_ok_def dest!: path_of_get split: option.splits
      intro!: update_account_inv update_extends)

lemma set_limit_extends:
  assumes "reg_inv r" "set_limit i l r = (res, r')"
  shows "reg_inv r' \<and> extends r r' \<and> (is_ok res \<or> r' = r)"
proof (cases "reg_get r i")
  case (Some a)
  then have "window_ok (a\<lparr>a_limit := l\<rparr>)" using get_window [OF assms(1) Some] by (cases "closed_on a") (simp_all add: window_ok_def)
  then show ?thesis using Some assms path_of_get [OF Some]
    by (auto simp: set_limit_def intro!: update_account_inv update_extends)
qed (use assms in \<open>auto simp: set_limit_def\<close>)

lemma restore_extends:
  assumes "reg_inv r" "segments (a_path (r_account rc)) \<noteq> []" "restore rc r = (res, r')"
  shows "reg_inv r' \<and> extends r r' \<and> (is_ok res \<or> r' = r)"
proof (cases "reg_get r (r_id rc)")
  case (Some a)
  then show ?thesis using assms path_of_get [OF Some]
    by (auto simp: restore_def Let_def window_ok_def split: if_splits option.splits
        intro!: update_account_inv update_extends)
next
  case None
  then show ?thesis
    using assms register_extends [OF assms(1,2)]
    by (auto simp: restore_def Let_def is_ok_iff split: if_splits prod.splits sum.splits)
qed

text \<open>The mutators of the registry as one step relation.\<close>

inductive registry_step :: "registry \<Rightarrow> registry \<Rightarrow> bool" where
  step_register: "segments (a_path a) \<noteq> [] \<Longrightarrow> registry_step r (snd (register a r))"
| step_close: "registry_step r (snd (close i on r))"
| step_reopen: "registry_step r (snd (reopen i r))"
| step_limit: "registry_step r (snd (set_limit i l r))"
| step_restore: "segments (a_path (r_account rc)) \<noteq> [] \<Longrightarrow> registry_step r (snd (restore rc r))"

lemma registry_step_inv: "registry_step r r' \<Longrightarrow> reg_inv r \<Longrightarrow> reg_inv r' \<and> extends r r'"
  by (induction rule: registry_step.induct)
    (metis register_extends close_extends reopen_extends set_limit_extends restore_extends prod.collapse)+

lemma registry_steps_inv: "registry_step\<^sup>*\<^sup>* r r' \<Longrightarrow> reg_inv r \<Longrightarrow> reg_inv r' \<and> extends r r'"
  by (induction rule: rtranclp_induct) (auto dest: registry_step_inv intro: extends_trans)

end
