(* ===== verification/Registry_Audit.thy ===== *)
theory Registry_Audit
  imports Registry
begin

text \<open>The properties of the registry: reachability, restarts and binding proofs.\<close>

definition reachable_registry :: "registry \<Rightarrow> bool" where
  "reachable_registry r \<longleftrightarrow> registry_step\<^sup>*\<^sup>* registry_new r"

lemma reachable_inv: "reachable_registry r \<Longrightarrow> reg_inv r"
  using registry_steps_inv [of registry_new r] by (simp add: reachable_registry_def)

section \<open>A registry is determined by its accounts\<close>

lemma reg_unique:
  assumes "reg_inv a" "reg_inv b" "accounts a = accounts b"
  shows "a = b"
proof -
  have same: "reg_len a = reg_len b" "path_at a = path_at b" "below a = below b"
    using assms(3) by (auto simp: reg_len_def path_at_def below_def fun_eq_iff)
  have "bt_get (path_index a) p = Some i \<longleftrightarrow> bt_get (path_index b) p = Some i" for p i
    using assms(1,2) same by (simp add: reg_inv_def)
  then have "bt_get (path_index a) p = bt_get (path_index b) p" for p
    by (metis not_None_eq)
  then have "path_index a = path_index b" by (rule bt_eqI)
  moreover have "child_count a = child_count b"
    using assms same by (intro nth_equalityI) (auto simp: reg_inv_def simp flip: unat_inj)
  ultimately show ?thesis using assms(3) by simp
qed

section \<open>Restarting from stored records\<close>

lemma register_succeeds:
  assumes "reg_inv r" "window_ok a" "a_path a \<notin> a_path ` set (accounts r)" "reg_len r < 4294967296"
  shows "\<exists>i r'. register a r = (Ok i, r')"
proof -
  have "bt_get (path_index r) (a_path a) = None"
    using paths.lookup_None [OF assms(1), of "a_path a"] assms(3) by (simp add: id_of_def)
  moreover have "\<not> (case closed_on a of Some closed \<Rightarrow> closed < opened_on a | None \<Rightarrow> False)"
    using assms(2) by (auto simp: window_ok_def split: option.splits)
  moreover obtain n where "u32_try (length (accounts r)) = Some n"
    using assms(4) by (auto simp: u32_try_def u32_max_def reg_len_def)
  ultimately show ?thesis by (simp add: register_def bt_contains_def Let_def)
qed

lemma restore_next:
  assumes "reg_inv r" "window_ok a" "segments (a_path a) \<noteq> []" "a_path a \<notin> a_path ` set (accounts r)"
    "reg_len r < 4294967296"
  shows "\<exists>r'. restore \<lparr>r_id = handle_at (reg_len r), r_account = a\<rparr> r = (Ok (), r')
    \<and> reg_inv r' \<and> accounts r' = accounts r @ [a]"
proof -
  obtain i r' where reg: "register a r = (Ok i, r')" using register_succeeds assms by blast
  have "reg_get r (handle_at (reg_len r)) = None" using assms(5) by (simp add: reg_get_def reg_len_def)
  then have "restore \<lparr>r_id = handle_at (reg_len r), r_account = a\<rparr> r = (Ok (), r')"
    using reg by (simp add: restore_def reg_len_def)
  then show ?thesis using register_Ok [OF assms(1,3) reg] by blast
qed

definition restore_all :: "registry \<Rightarrow> account_record list \<Rightarrow> (account_error, registry) res" where
  "restore_all r rs = try_fold (\<lambda>r rc. case restore rc r of (res, r') \<Rightarrow> bindR res (\<lambda>_. Ok r')) r rs"

lemma restore_all_accounts:
  assumes "reg_inv r" "reg_len r + length as \<le> 4294967296"
    and "\<forall>a\<in>set as. window_ok a \<and> segments (a_path a) \<noteq> []" "distinct (map a_path (accounts r @ as))"
  shows "\<exists>r'. restore_all r (map (\<lambda>(i, a). \<lparr>r_id = handle_at i, r_account = a\<rparr>) (enumerate (reg_len r) as)) = Ok r'
    \<and> reg_inv r' \<and> accounts r' = accounts r @ as"
  using assms
proof (induction as arbitrary: r)
  case (Cons a as)
  then obtain r1 where r1: "restore \<lparr>r_id = handle_at (reg_len r), r_account = a\<rparr> r = (Ok (), r1)"
    "reg_inv r1" "accounts r1 = accounts r @ [a]"
    using restore_next [of r a] by auto
  then have len: "reg_len r1 = Suc (reg_len r)" by (simp add: reg_len_def)
  have "\<exists>r'. restore_all r1 (map (\<lambda>(i, a). \<lparr>r_id = handle_at i, r_account = a\<rparr>) (enumerate (reg_len r1) as)) = Ok r'
    \<and> reg_inv r' \<and> accounts r' = accounts r1 @ as"
    using Cons.prems r1 len by (intro Cons.IH) auto
  then show ?case using r1 len by (simp add: restore_all_def)
qed (simp add: restore_all_def)

lemma sort_key_perm:
  assumes "mset rs = mset xs" "sorted (map f xs)" "distinct (map f xs)"
  shows "sort_key f rs = xs"
proof (rule sort_key_inj_key_eq [OF assms(1) _ assms(2)])
  show "inj_on f (set rs)"
    using assms by (metis distinct_map mset_eq_setD)
qed

lemma records_sorted:
  assumes "reg_inv r"
  shows "sorted (map (\<lambda>rc. account_index (r_id rc)) (records r))" "distinct (map (\<lambda>rc. account_index (r_id rc)) (records r))"
proof -
  have len: "length (accounts r) \<le> 4294967296" using assms by (simp add: reg_inv_def reg_len_def)
  have m: "map (\<lambda>rc. account_index (r_id rc)) (records r) = map (\<lambda>i. account_index (handle_at i)) [0..<length (accounts r)]"
    by (auto simp: records_def intro!: nth_equalityI simp: nth_enumerate_eq)
  have u: "unat (account_index (handle_at i)) = i" if "i < length (accounts r)" for i
    using idx_handle_at [of i] that len by (simp add: idx_def)
  show "sorted (map (\<lambda>rc. account_index (r_id rc)) (records r))"
    unfolding m using u by (auto simp: sorted_iff_nth_mono word_le_nat_alt)
  show "distinct (map (\<lambda>rc. account_index (r_id rc)) (records r))"
    unfolding m using u by (auto simp: distinct_map inj_on_def simp flip: unat_inj)
qed

lemma records_rebuild:
  assumes "reachable_registry r" "mset rs = mset (records r)"
  shows "from_records rs = Ok r"
proof -
  have inv: "reg_inv r" by (rule reachable_inv [OF assms(1)])
  have "sort_key (\<lambda>rc. account_index (r_id rc)) rs = records r"
    by (rule sort_key_perm [OF assms(2) records_sorted [OF inv]])
  moreover obtain r' where "restore_all registry_new (records r) = Ok r'" "reg_inv r'" "accounts r' = accounts r"
  proof -
    have "reg_len registry_new + length (accounts r) \<le> 4294967296" "distinct (map a_path (accounts registry_new @ accounts r))"
      "\<forall>a\<in>set (accounts r). window_ok a \<and> segments (a_path a) \<noteq> []"
      using inv paths.distinct_keys [OF inv] by (simp_all add: reg_len_def registry_new_def reg_inv_def)
    then show ?thesis
      using restore_all_accounts [OF reg_inv_new, of "accounts r"] that
      by (auto simp: records_def reg_len_def registry_new_def)
  qed
  ultimately show ?thesis
    using reg_unique [OF _ inv] by (auto simp: from_records_def restore_all_def)
qed

text \<open>
  A restart is safe: the stored records of any registry reached by its operations, in whatever
  order they are read back, rebuild exactly that registry, with the same handles, index and counts.
\<close>

theorem from_records_restores:
  assumes "reachable_registry r" "mset rs = mset (records r)"
  shows "from_records rs = Ok r"
  by (rule records_rebuild [OF assms])

definition demo_registry :: registry where
  "demo_registry = snd (register (account_new (AccountPath [lit ''A'', lit ''B'']) (Date 0))
     (snd (register (account_new (AccountPath [lit ''A'']) (Date 0)) registry_new)))"

lemma demo_reachable: "reachable_registry demo_registry"
proof -
  have "registry_step registry_new (snd (register (account_new (AccountPath [lit ''A'']) (Date 0)) registry_new))"
    by (rule step_register) (simp add: account_new_def)
  moreover have "registry_step (snd (register (account_new (AccountPath [lit ''A'']) (Date 0)) registry_new)) demo_registry"
    unfolding demo_registry_def by (rule step_register) (simp add: account_new_def)
  ultimately show ?thesis by (auto simp: reachable_registry_def)
qed

lemma from_records_restores_witness:
  "reachable_registry demo_registry \<and> from_records (rev (records demo_registry)) = Ok demo_registry"
  using from_records_restores [OF demo_reachable, of "rev (records demo_registry)"] demo_reachable by simp

section \<open>Leaves and handles\<close>

text \<open>
  In every registry reached by its operations, the handle table and the path index agree, and an
  account is a leaf exactly when no registered account lies strictly below it in the tree.
\<close>

theorem registry_index_and_leaves:
  assumes "reachable_registry r"
  shows "(id_of r p = Some i \<longleftrightarrow> (\<exists>a. reg_get r i = Some a \<and> a_path a = p))
    \<and> (reg_get r i = Some a \<longrightarrow> (is_leaf r i \<longleftrightarrow> (\<forall>b\<in>set (accounts r). \<not> strictly_under (a_path b) (a_path a))))"
proof (intro conjI impI)
  have inv: "reg_inv r" by (rule reachable_inv [OF assms])
  show "id_of r p = Some i \<longleftrightarrow> (\<exists>a. reg_get r i = Some a \<and> a_path a = p)"
    using inv by (auto simp: reg_inv_def id_of_def reg_get_def path_at_def reg_len_def)
  assume "reg_get r i = Some a"
  then have i: "idx i < reg_len r" "a_path a = path_at r (idx i)" by (auto simp: reg_get_Some path_at_def)
  have "is_leaf r i \<longleftrightarrow> card (below r (path_at r (idx i))) = 0"
    using inv i(1) by (auto simp: is_leaf_def reg_inv_def simp flip: unat_inj)
  also have "\<dots> \<longleftrightarrow> below r (path_at r (idx i)) = {}" by simp
  also have "\<dots> \<longleftrightarrow> (\<forall>b\<in>set (accounts r). \<not> strictly_under (a_path b) (a_path a))"
    unfolding all_set_conv_all_nth by (auto simp: below_def i(2) path_at_def reg_len_def)
  finally show "is_leaf r i \<longleftrightarrow> (\<forall>b\<in>set (accounts r). \<not> strictly_under (a_path b) (a_path a))" .
qed

lemma registry_index_and_leaves_witness:
  "reachable_registry demo_registry \<and> \<not> is_leaf demo_registry (AccountId 0)
   \<and> id_of demo_registry (AccountPath [lit ''A'', lit ''B'']) = Some (AccountId 1)"
proof -
  obtain a where a: "reg_get demo_registry (AccountId 0) = Some a" "a_path a = AccountPath [lit ''A'']"
    "reg_get demo_registry (AccountId 1) = Some (account_new (AccountPath [lit ''A'', lit ''B'']) (Date 0))"
    "account_new (AccountPath [lit ''A'', lit ''B'']) (Date 0) \<in> set (accounts demo_registry)"
  proof -
    have "reg_get demo_registry (AccountId 0) = Some (account_new (AccountPath [lit ''A'']) (Date 0))"
      "reg_get demo_registry (AccountId 1) = Some (account_new (AccountPath [lit ''A'', lit ''B'']) (Date 0))"
      "account_new (AccountPath [lit ''A'', lit ''B'']) (Date 0) \<in> set (accounts demo_registry)"
      by code_simp+
    then show ?thesis using that by (simp add: account_new_def)
  qed
  have "strictly_under (AccountPath [lit ''A'', lit ''B'']) (AccountPath [lit ''A''])" by code_simp
  then show ?thesis
    using registry_index_and_leaves [OF demo_reachable, of "AccountPath [lit ''A'', lit ''B'']" "AccountId 1"]
      registry_index_and_leaves [OF demo_reachable, of "AccountPath []" "AccountId 0" a] a demo_reachable
    by (auto simp: account_new_def)
qed

text \<open>
  Handles are stable: whatever operations follow, a handle that was issued keeps its path and a
  registered path keeps its handle.
\<close>

theorem handles_stable:
  assumes "reachable_registry r" "registry_step\<^sup>*\<^sup>* r r'"
  shows "(reg_get r i = Some a \<longrightarrow> (\<exists>a'. reg_get r' i = Some a' \<and> a_path a' = a_path a))
    \<and> (id_of r p = Some i \<longrightarrow> id_of r' p = Some i)"
proof -
  have inv: "reg_inv r" "reg_inv r'" and ext: "extends r r'"
    using reachable_inv [OF assms(1)] registry_steps_inv [OF assms(2)] by auto
  have "reg_get r i = Some a \<longrightarrow> (\<exists>a'. reg_get r' i = Some a' \<and> a_path a' = a_path a)"
    using ext by (auto simp: extends_def reg_get_Some path_at_def)
  moreover have "id_of r p = Some i \<longrightarrow> id_of r' p = Some i"
    using inv ext by (auto simp: extends_def reg_inv_def id_of_def)
  ultimately show ?thesis by blast
qed

lemma handles_stable_witness:
  "reachable_registry demo_registry \<and> registry_step\<^sup>*\<^sup>* demo_registry (snd (reopen (AccountId 0) demo_registry))
   \<and> id_of (snd (reopen (AccountId 0) demo_registry)) (AccountPath [lit ''A'']) = Some (AccountId 0)"
proof -
  have s: "registry_step\<^sup>*\<^sup>* demo_registry (snd (reopen (AccountId 0) demo_registry))"
    using step_reopen by blast
  have "id_of demo_registry (AccountPath [lit ''A'']) = Some (AccountId 0)" by code_simp
  then show ?thesis using handles_stable [OF demo_reachable s] s demo_reachable by blast
qed

section \<open>Binding proofs\<close>

lemma binding_leaves_nth: "i < length as \<Longrightarrow> binding_leaves b3 as ! i = account_binding_leaf b3 (handle_at i) (a_path (as ! i))"
  by (simp add: binding_leaves_def nth_enumerate_eq)

lemma length_binding_leaves [simp]: "length (binding_leaves b3 as) = length as"
  by (simp add: binding_leaves_def)

lemma binding_leaves_prefix:
  assumes "extends r r'"
  shows "binding_leaves b3 (take (reg_len r) (accounts r')) = binding_leaves b3 (accounts r)"
proof (rule nth_equalityI)
  show len: "length (binding_leaves b3 (take (reg_len r) (accounts r'))) = length (binding_leaves b3 (accounts r))"
    using assms by (simp add: extends_def reg_len_def)
  fix i
  assume "i < length (binding_leaves b3 (take (reg_len r) (accounts r')))"
  then show "binding_leaves b3 (take (reg_len r) (accounts r')) ! i = binding_leaves b3 (accounts r) ! i"
    using assms len by (simp add: binding_leaves_nth extends_def path_at_def reg_len_def)
qed

lemma binding_log_good:
  assumes "reg_inv r"
  shows "good_log b3 (binding_log b3 r)" "leaves (binding_log b3 r) = binding_leaves b3 (accounts r)"
  using assms log_from_leaves_good [of "binding_leaves b3 (accounts r)" b3]
  by (auto simp: binding_log_def reg_inv_def reg_len_def u64_max_def)

lemma commitment_head:
  assumes "reg_inv r"
  shows "commitment b3 r = \<lparr>th_size = reg_len r, th_root = mth b3 (binding_leaves b3 (accounts r))\<rparr>"
  using binding_log_good [OF assms] good_log_accessors [of b3 "binding_log b3 r"]
  by (simp add: commitment_def log_head_def log_len_def reg_len_def)

lemma binding_proof_later:
  assumes "reachable_registry r" "registry_step\<^sup>*\<^sup>* r r'" "reg_get r i = Some a"
  shows "\<exists>p. prove_binding_at b3 r' i (reg_len r) = Some p \<and> b_id p = i \<and> b_path p = a_path a
    \<and> binding_verify b3 p (commitment b3 r)"
proof -
  have inv: "reg_inv r" "reg_inv r'" and ext: "extends r r'"
    using reachable_inv [OF assms(1)] registry_steps_inv [OF assms(2)] by auto
  have i: "idx i < reg_len r" "a_path a = path_at r (idx i)" using assms(3) by (auto simp: reg_get_Some path_at_def)
  let ?ls = "binding_leaves b3 (accounts r)" and ?lg = "log_from_leaves b3 (binding_leaves b3 (accounts r))"
  have lg: "leaves ?lg = ?ls" "log_len ?lg = reg_len r"
    using binding_log_good [OF inv(1), of b3] by (simp_all add: binding_log_def log_len_def reg_len_def)
  obtain pf head where pf: "inclusion_proof_at b3 ?lg (idx i) (reg_len r) = Ok pf" "head_at b3 ?lg (reg_len r) = Ok head"
    "leaf_index pf = idx i" "inclusion_verify b3 pf (leaves ?lg ! idx i) head"
    using inclusion_proof_accepted [of "idx i" "reg_len r" ?lg b3] i(1) lg by auto
  have "head = commitment b3 r"
    using pf(2) lg by (auto simp: commitment_head [OF inv(1)] head_at_def root_at_def reg_len_def)
  moreover have "leaves ?lg ! idx i = account_binding_leaf b3 i (a_path a)"
    using lg i by (simp add: binding_leaves_nth path_at_def reg_len_def)
  moreover obtain a' where a': "reg_get r' i = Some a'" "a_path a' = a_path a"
    using ext i by (auto simp: extends_def reg_get_Some path_at_def)
  moreover have "binding_leaves b3 (take (reg_len r) (accounts r')) = ?ls" by (rule binding_leaves_prefix [OF ext])
  moreover have "\<not> length (accounts r') < reg_len r" using ext by (simp add: extends_def reg_len_def)
  ultimately show ?thesis
    using pf i by (simp add: prove_binding_at_def log_inclusion_proof_def lg(2) binding_verify_def flip: idx_def)
qed

text \<open>
  Binding proofs outlive the registry's growth: for a handle a registry had issued, the proof
  built later, from the registry as it has become, against the earlier size verifies under the
  earlier commitment and names the path the handle had then.
\<close>

theorem binding_proof_verifies_later:
  assumes "reachable_registry r" "registry_step\<^sup>*\<^sup>* r r'" "reg_get r i = Some a"
  shows "\<exists>p. prove_binding_at b3 r' i (reg_len r) = Some p \<and> b_id p = i \<and> b_path p = a_path a
    \<and> binding_verify b3 p (commitment b3 r)"
  by (rule binding_proof_later [OF assms])

lemma binding_proof_verifies_later_witness:
  "\<exists>p. prove_binding_at toy_hash demo_registry (AccountId 0) (reg_len demo_registry) = Some p
     \<and> binding_verify toy_hash p (commitment toy_hash demo_registry)"
proof -
  have "reg_get demo_registry (AccountId 0) = Some (account_new (AccountPath [lit ''A'']) (Date 0))" by code_simp
  then show ?thesis using binding_proof_verifies_later [OF demo_reachable rtranclp.rtrancl_refl] by blast
qed

lemma binding_accepted_genuine:
  assumes "reachable_registry r" "\<forall>a\<in>set (accounts r). valid_path (a_path a)"
    and "binding_verify b3 p (commitment b3 r)" "valid_path (b_path p)"
    and "inj_on b3
      (set (inclusion_preimages b3 (idx (b_id p)) (reg_len r) (ip_path (b_proof p)) (account_binding_leaf b3 (b_id p) (b_path p)))
       \<union> set (inclusion_preimages b3 (idx (b_id p)) (reg_len r)
            (inclusion_path b3 (idx (b_id p)) (binding_leaves b3 (accounts r))) (binding_leaves b3 (accounts r) ! idx (b_id p)))
       \<union> {tagged_preimage tag_account_binding (binding_payload (b_id p) (b_path p)),
           tagged_preimage tag_account_binding (binding_payload (b_id p) (path_at r (idx (b_id p))))})"
  shows "id_of r (b_path p) = Some (b_id p)"
proof -
  have inv: "reg_inv r" by (rule reachable_inv [OF assms(1)])
  let ?i = "idx (b_id p)" and ?ls = "binding_leaves b3 (accounts r)"
  have v: "leaf_index (b_proof p) = ?i"
    "inclusion_verify b3 (b_proof p) (account_binding_leaf b3 (b_id p) (b_path p)) (commitment b3 r)"
    using assms(3) by (auto simp: binding_verify_def idx_def)
  have c: "th_size (commitment b3 r) = length ?ls" "th_root (commitment b3 r) = mth b3 ?ls"
    by (simp_all add: commitment_head [OF inv] reg_len_def)
  have inj: "inj_on b3 (set (inclusion_preimages b3 (leaf_index (b_proof p)) (length ?ls) (ip_path (b_proof p))
        (account_binding_leaf b3 (b_id p) (b_path p)))
      \<union> set (inclusion_preimages b3 (leaf_index (b_proof p)) (length ?ls)
        (inclusion_path b3 (leaf_index (b_proof p)) ?ls) (?ls ! leaf_index (b_proof p))))"
    by (rule inj_on_subset [OF assms(5)]) (auto simp: v(1) reg_len_def)
  have s: "?i < length ?ls \<and> account_binding_leaf b3 (b_id p) (b_path p) = ?ls ! ?i"
    using inclusion_accepted_genuine [OF v(2) c inj] v(1) by simp
  then have i: "?i < reg_len r" by (simp add: reg_len_def)
  have "tagged b3 tag_account_binding (binding_payload (b_id p) (b_path p))
      = tagged b3 tag_account_binding (binding_payload (b_id p) (path_at r ?i))"
    using s i by (simp add: binding_leaves_nth account_binding_leaf_def path_at_def reg_len_def)
  then have "binding_payload (b_id p) (b_path p) = binding_payload (b_id p) (path_at r ?i)"
    using tagged_inj [OF assms(5)] tags_fit by simp
  moreover have "valid_path (path_at r ?i)" using assms(2) i by (simp add: path_at_def reg_len_def)
  ultimately have "b_path p = path_at r ?i"
    using assms(4) pathc.enc_inj by (simp add: binding_payload_def)
  then show ?thesis using inv i by (simp add: id_of_def reg_inv_def)
qed

text \<open>
  A verified binding proof is true: against the commitment of a registry of valid paths, the
  handle it names was issued to the path it carries, unless two of the byte strings hashed on the way
  collide.
\<close>

theorem binding_proof_sound:
  assumes "reachable_registry r" "\<forall>a\<in>set (accounts r). valid_path (a_path a)"
    and "binding_verify b3 p (commitment b3 r)" "valid_path (b_path p)"
    and "inj_on b3
      (set (inclusion_preimages b3 (idx (b_id p)) (reg_len r) (ip_path (b_proof p)) (account_binding_leaf b3 (b_id p) (b_path p)))
       \<union> set (inclusion_preimages b3 (idx (b_id p)) (reg_len r)
            (inclusion_path b3 (idx (b_id p)) (binding_leaves b3 (accounts r))) (binding_leaves b3 (accounts r) ! idx (b_id p)))
       \<union> {tagged_preimage tag_account_binding (binding_payload (b_id p) (b_path p)),
           tagged_preimage tag_account_binding (binding_payload (b_id p) (path_at r (idx (b_id p))))})"
  shows "id_of r (b_path p) = Some (b_id p)"
  by (rule binding_accepted_genuine [OF assms])

text \<open>A registry with one account and the proof of its binding.\<close>

definition one_registry :: registry where
  "one_registry = snd (register (account_new (AccountPath [lit ''A'']) (Date 0)) registry_new)"

definition one_binding :: account_binding_proof where
  "one_binding = \<lparr>b_id = AccountId 0, b_path = AccountPath [lit ''A''],
     b_proof = \<lparr>leaf_index = 0, tree_size = 1, ip_path = []\<rparr>\<rparr>"

lemma binding_proof_sound_witness:
  "reachable_registry one_registry
   \<and> (\<exists>b3. binding_verify b3 one_binding (commitment b3 one_registry)
        \<and> id_of one_registry (b_path one_binding) = Some (b_id one_binding))"
proof -
  let ?p = "one_binding" and ?r = "one_registry"
  define b3 :: blake3 where "b3 bs = small_hash (of_nat (length bs))" for bs
  have "registry_step registry_new ?r"
    unfolding one_registry_def by (rule step_register) (simp add: account_new_def)
  then have r: "reachable_registry ?r" by (auto simp: reachable_registry_def)
  have v: "\<forall>a\<in>set (accounts ?r). valid_path (a_path a)" "valid_path (b_path ?p)" by code_simp+
  have as: "accounts ?r = [account_new (AccountPath [lit ''A'']) (Date 0)]" by code_simp
  have p [simp]: "b_id ?p = AccountId 0" "idx (AccountId 0) = 0" "b_path ?p = AccountPath [lit ''A'']"
    "b_proof ?p = \<lparr>leaf_index = 0, tree_size = 1, ip_path = []\<rparr>" "path_at ?r 0 = AccountPath [lit ''A'']"
    by (simp_all add: one_binding_def idx_def path_at_def as account_new_def)
  let ?payload = "binding_payload (AccountId 0) (AccountPath [lit ''A''])"
  let ?leaf = "account_binding_leaf b3 (AccountId 0) (AccountPath [lit ''A''])"
  have ls [simp]: "binding_leaves b3 (accounts ?r) = [?leaf]" "reg_len ?r = 1"
    by (simp_all add: as binding_leaves_def reg_len_def account_new_def handle_at_def u32_try_def)
  have ok: "binding_verify b3 ?p (commitment b3 ?r)"
    by (simp add: commitment_head [OF reachable_inv [OF r]] binding_verify_def inclusion_verify_def)
  have none: "inclusion_sides 0 (Suc 0) = []" "inclusion_path b3 0 [?leaf] = []"
    by (subst inclusion_sides.simps inclusion_path.simps; simp)+
  have "length tag_leaf = 26" "length tag_account_binding = 29" "length ?payload = 21" by code_simp+
  then have "length (tagged_preimage tag_leaf (hash_bytes ?leaf)) = 66"
    "length (tagged_preimage tag_account_binding ?payload) = 58"
    by (simp_all add: tagged_preimage_def)
  moreover have "small_hash 66 \<noteq> small_hash 58" by code_simp
  ultimately have "b3 (tagged_preimage tag_leaf (hash_bytes ?leaf)) \<noteq> b3 (tagged_preimage tag_account_binding ?payload)"
    by (simp add: b3_def)
  then have inj: "inj_on b3 {tagged_preimage tag_leaf (hash_bytes ?leaf), tagged_preimage tag_account_binding ?payload}"
    by auto
  have "id_of ?r (b_path ?p) = Some (b_id ?p)"
    by (rule binding_proof_sound [OF r v(1) ok v(2)], rule inj_on_subset [OF inj])
      (simp add: inclusion_preimages_def none)
  then show ?thesis using r ok by blast
qed

end
