(* ===== verification/Seal_Audit.thy ===== *)
theory Seal_Audit
  imports Seal Registry_Audit
begin

text \<open>
  What seals promise: the hash of a seal determines every field of it, the head of a chain determines
  the whole chain, a balance proof is true, and the chain's two checks agree.
\<close>

section \<open>The encoding of a seal\<close>

definition u64_fits :: "nat \<Rightarrow> bool" where
  "u64_fits n \<longleftrightarrow> n \<le> u64_max"

definition valid_head :: "tree_head \<Rightarrow> bool" where
  "valid_head h \<longleftrightarrow> u64_fits (th_size h)"

lemma enc_nat_append: "u64_fits m \<Longrightarrow> u64_fits n \<Longrightarrow> enc_u64 (of_nat m) @ r = enc_u64 (of_nat n) @ s \<longleftrightarrow> m = n \<and> r = s"
  by (simp add: prefix_iffs u64_fits_def u64_max_def flip: unat_inj) (auto simp: unat_of_nat)

interpretation optnatc: prefix_code "enc_option (\<lambda>i. enc_u64 (of_nat i))" "\<lambda>v. \<forall>i. v = Some i \<longrightarrow> u64_fits i"
  by (rule option_prefix_code) (unfold_locales, simp add: enc_nat_append)

interpretation headc: prefix_code enc_head valid_head
proof
  fix x y :: tree_head and r s
  assume "valid_head x" "valid_head y" "enc_head x @ r = enc_head y @ s"
  then show "x = y \<and> r = s"
    by (simp add: enc_head_def valid_head_def enc_nat_append enc_fixed_def hash_bytes_append)
qed

interpretation prevc: prefix_code "enc_option (\<lambda>h. enc_fixed (hash_bytes h))" "\<lambda>v. \<forall>h. v = Some h \<longrightarrow> True"
  by (rule option_prefix_code) (unfold_locales, simp add: enc_fixed_def)

text \<open>The fields of a seal are within the width they are encoded at.\<close>

definition valid_seal :: "seal \<Rightarrow> bool" where
  "valid_seal s \<longleftrightarrow> valid_label (ledger_label (sl_ledger s)) \<and> valid_label (period_label (sl_period s))
     \<and> (\<forall>i. sl_first s = Some i \<longrightarrow> u64_fits i) \<and> (\<forall>i. sl_last s = Some i \<longrightarrow> u64_fits i) \<and> u64_fits (sl_count s)
     \<and> valid_head (sl_tree_head s) \<and> valid_head (sl_trial_balance s) \<and> valid_head (sl_accounts s)"

lemma enc_seal_inj:
  assumes "valid_seal s" "valid_seal t" "enc_seal s = enc_seal t" "sl_hash s = sl_hash t"
  shows "s = t"
proof -
  have v: "valid_label (ledger_label (sl_ledger x))" "valid_label (period_label (sl_period x))"
    "\<And>i. sl_first x = Some i \<Longrightarrow> u64_fits i" "\<And>i. sl_last x = Some i \<Longrightarrow> u64_fits i" "u64_fits (sl_count x)"
    "valid_head (sl_tree_head x)" "valid_head (sl_trial_balance x)" "valid_head (sl_accounts x)"
    if "valid_seal x" for x
    using that by (auto simp: valid_seal_def)
  have "enc_seal s @ [] = enc_seal t @ []" using assms(3) by simp
  then show ?thesis
    using assms(4)
    by (simp add: enc_seal_def ledgeridc.append_iff periodidc.append_iff optnatc.append_iff headc.append_iff
        enc_nat_append prevc.append_iff prevc.enc_inj v [OF assms(1)] v [OF assms(2)] del: append_Nil2)
qed

definition seal_preimage :: "seal \<Rightarrow> byte list" where
  "seal_preimage s = tagged_preimage tag_seal (enc_seal s)"

lemma seal_hash_inj:
  assumes "is_self_consistent b3 s" "is_self_consistent b3 t" "valid_seal s" "valid_seal t" "sl_hash s = sl_hash t"
    and "inj_on b3 X" "seal_preimage s \<in> X" "seal_preimage t \<in> X"
  shows "s = t"
proof -
  have "tagged b3 tag_seal (enc_seal s) = tagged b3 tag_seal (enc_seal t)"
    using assms(1,2,5) by (simp add: is_self_consistent_def compute_hash_def)
  then have "enc_seal s = enc_seal t"
    using tagged_inj [OF assms(6)] assms(7,8) tags_fit by (simp add: seal_preimage_def)
  then show ?thesis by (rule enc_seal_inj [OF assms(3,4) _ assms(5)])
qed

section \<open>The chain\<close>

text \<open>A chain as data: every seal links to the one before it.\<close>

fun linked :: "blake3 \<Rightarrow> ledger_id \<Rightarrow> period_id set \<Rightarrow> seal option \<Rightarrow> seal list \<Rightarrow> bool" where
  "linked b3 ledger seen prev [] \<longleftrightarrow> True"
| "linked b3 ledger seen prev (s # ss) \<longleftrightarrow>
     check_link b3 ledger seen prev s = Ok () \<and> linked b3 ledger (insert (sl_period s) seen) (Some s) ss"

lemma linked_snoc:
  "linked b3 ledger seen prev (ss @ [s]) \<longleftrightarrow>
     linked b3 ledger seen prev ss
     \<and> check_link b3 ledger (seen \<union> sl_period ` set ss) (if ss = [] then prev else Some (last ss)) s = Ok ()"
  by (induction ss arbitrary: seen prev) auto

lemma unit_Ok: "(\<exists>u. r = Inr u) \<longleftrightarrow> r = Ok ()"
  by auto

lemma chain_verify_fold:
  "(\<exists>r. try_fold (\<lambda>(seen, previous) s. bindR (check_link b3 ledger seen previous s) (\<lambda>_. Ok (insert (sl_period s) seen, Some s)))
      (seen, prev) ss = Ok r) \<longleftrightarrow> linked b3 ledger seen prev ss"
proof (induction ss arbitrary: seen prev)
  case (Cons s ss)
  show ?case
    by (cases "check_link b3 ledger seen prev s")
      (use Cons [of "insert (sl_period s) seen" "Some s"] in auto)
qed simp

lemma chain_verify_linked: "chain_verify b3 c = Ok () \<longleftrightarrow> linked b3 (ch_ledger c) {} None (ch_seals c)"
  by (simp add: chain_verify_def flip: chain_verify_fold)

definition chain_ok :: "blake3 \<Rightarrow> seal_chain \<Rightarrow> bool" where
  "chain_ok b3 c \<longleftrightarrow> ch_periods c = sl_period ` set (ch_seals c) \<and> linked b3 (ch_ledger c) {} None (ch_seals c)"

lemma chain_ok_new [simp]: "chain_ok b3 (chain_new ledger)"
  by (simp add: chain_ok_def chain_new_def)

lemma chain_push_Ok:
  assumes "chain_push b3 s c = (Ok u, c')"
  shows "ch_seals c' = ch_seals c @ [s]" "ch_ledger c' = ch_ledger c" "chain_ok b3 c \<Longrightarrow> chain_ok b3 c'"
    "check_link b3 (ch_ledger c) (ch_periods c) (last_seal (ch_seals c)) s = Ok ()"
  using assms by (auto simp: chain_push_def chain_ok_def linked_snoc last_seal_def split: sum.splits)

lemma chain_push_Err: "chain_push b3 s c = (Err e, c') \<Longrightarrow> c' = c"
  by (auto simp: chain_push_def split: sum.splits)

lemma push_all:
  "chain_ok b3 c \<Longrightarrow> linked b3 (ch_ledger c) (ch_periods c) (last_seal (ch_seals c)) ss \<Longrightarrow>
    try_fold (\<lambda>c s. case chain_push b3 s c of (res, c') \<Rightarrow> bindR res (\<lambda>_. Ok c')) c ss
      = Ok (c\<lparr>ch_periods := ch_periods c \<union> sl_period ` set ss, ch_seals := ch_seals c @ ss\<rparr>)"
proof (induction ss arbitrary: c)
  case (Cons s ss)
  let ?c = "c\<lparr>ch_periods := insert (sl_period s) (ch_periods c), ch_seals := ch_seals c @ [s]\<rparr>"
  have p: "chain_push b3 s c = (Ok (), ?c)" using Cons.prems(2) by (simp add: chain_push_def)
  have "chain_ok b3 ?c" by (rule chain_push_Ok(3) [OF p Cons.prems(1)])
  moreover have "linked b3 (ch_ledger ?c) (ch_periods ?c) (last_seal (ch_seals ?c)) ss"
    using Cons.prems(2) by (simp add: last_seal_def)
  ultimately show ?case using Cons.IH [of ?c] p by simp
qed simp

lemma linked_self: "linked b3 ledger seen prev ss \<Longrightarrow> s \<in> set ss \<Longrightarrow> is_self_consistent b3 s \<and> sl_ledger s = ledger"
  by (induction ss arbitrary: seen prev) (auto simp: check_link_def split: if_splits)

lemma linked_last:
  assumes "linked b3 ledger {} None (ss @ [s])"
  shows "sl_prev s = map_option sl_hash (last_seal ss)"
  using assms by (auto simp: linked_snoc check_link_def last_seal_def split: if_splits option.splits)

lemma head_determines:
  assumes "inj_on b3 X"
  shows "linked b3 l {} None ss \<Longrightarrow> linked b3 l' {} None ts \<Longrightarrow> ss \<noteq> [] \<Longrightarrow> ts \<noteq> [] \<Longrightarrow> sl_hash (last ss) = sl_hash (last ts) \<Longrightarrow>
    \<forall>s\<in>set ss \<union> set ts. valid_seal s \<and> seal_preimage s \<in> X \<Longrightarrow> ss = ts"
proof (induction ss arbitrary: ts rule: rev_induct)
  case (snoc s ss)
  obtain ts' t where ts: "ts = ts' @ [t]" using snoc.prems(4) by (cases ts rule: rev_cases) auto
  have "is_self_consistent b3 s" "is_self_consistent b3 t"
    using linked_self [OF snoc.prems(1)] linked_self [OF snoc.prems(2)] ts by auto
  then have st: "s = t" using seal_hash_inj [OF _ _ _ _ _ assms, of s t] snoc.prems(5,6) ts by simp
  have links: "map_option sl_hash (last_seal ss) = map_option sl_hash (last_seal ts')"
    using linked_last [OF snoc.prems(1)] linked_last [of b3 l' ts' t] snoc.prems(2) ts st by simp
  have prefix: "linked b3 l {} None ss" "linked b3 l' {} None ts'" using snoc.prems(1,2) ts by (auto simp: linked_snoc)
  show ?case
  proof (cases "ss = []")
    case True
    then show ?thesis using links st ts by (auto simp: last_seal_def split: if_splits)
  next
    case False
    then have "ts' \<noteq> []" "sl_hash (last ss) = sl_hash (last ts')" using links by (auto simp: last_seal_def split: if_splits)
    then have "ss = ts'" using snoc.IH [OF prefix False] snoc.prems(6) ts by simp
    then show ?thesis using st ts by simp
  qed
qed simp

section \<open>Properties of the chain\<close>

text \<open>Seals of one ledger, each chained onto the one before, for the examples.\<close>

definition demo_seal :: "blake3 \<Rightarrow> byte list \<Rightarrow> nat \<Rightarrow> hash option \<Rightarrow> seal" where
  "demo_seal b3 name n prev =
     (let s = \<lparr>sl_ledger = LedgerId (Label [76]), sl_period = PeriodId (Label (map unat name)), sl_first = None, sl_last = None,
               sl_count = n, sl_tree_head = \<lparr>th_size = n, th_root = small_hash 1\<rparr>,
               sl_trial_balance = \<lparr>th_size = 0, th_root = small_hash 2\<rparr>,
               sl_accounts = \<lparr>th_size = 0, th_root = small_hash 3\<rparr>, sl_prev = prev, sl_hash = small_hash 0\<rparr> in
      s\<lparr>sl_hash := compute_hash b3 s\<rparr>)"

lemma demo_seal_fields [simp]:
  "sl_ledger (demo_seal b3 name n prev) = LedgerId (Label [76])" "sl_prev (demo_seal b3 name n prev) = prev"
  "sl_period (demo_seal b3 name n prev) = PeriodId (Label (map unat name))" "th_size (sl_tree_head (demo_seal b3 name n prev)) = n"
  "th_size (sl_accounts (demo_seal b3 name n prev)) = 0" "is_self_consistent b3 (demo_seal b3 name n prev)"
  by (simp_all add: demo_seal_def Let_def is_self_consistent_def compute_hash_def enc_seal_def)

definition demo_chain :: "blake3 \<Rightarrow> seal_chain" where
  "demo_chain b3 =
     (let s = demo_seal b3 [65] 1 None in
      snd (chain_push b3 (demo_seal b3 [66] 2 (Some (sl_hash s)))
        (snd (chain_push b3 s (chain_new (LedgerId (Label [76])))))))"

lemma demo_chain_seals: "ch_seals (demo_chain b3) = [demo_seal b3 [65] 1 None, demo_seal b3 [66] 2 (Some (sl_hash (demo_seal b3 [65] 1 None)))]"
    "ch_ledger (demo_chain b3) = LedgerId (Label [76])" "chain_ok b3 (demo_chain b3)"
proof -
  have "chain_push b3 (demo_seal b3 [65] 1 None) (chain_new (LedgerId (Label [76])))
      = (Ok (), \<lparr>ch_ledger = LedgerId (Label [76]), ch_seals = [demo_seal b3 [65] 1 None], ch_periods = {PeriodId (Label [65])}\<rparr>)"
    by (simp add: chain_push_def chain_new_def last_seal_def check_link_def)
  moreover have "chain_push b3 (demo_seal b3 [66] 2 (Some (sl_hash (demo_seal b3 [65] 1 None))))
        \<lparr>ch_ledger = LedgerId (Label [76]), ch_seals = [demo_seal b3 [65] 1 None], ch_periods = {PeriodId (Label [65])}\<rparr>
      = (Ok (), \<lparr>ch_ledger = LedgerId (Label [76]),
          ch_seals = [demo_seal b3 [65] 1 None, demo_seal b3 [66] 2 (Some (sl_hash (demo_seal b3 [65] 1 None)))],
          ch_periods = {PeriodId (Label [66]), PeriodId (Label [65])}\<rparr>)"
    by (simp add: chain_push_def last_seal_def check_link_def)
  ultimately have d: "demo_chain b3 = \<lparr>ch_ledger = LedgerId (Label [76]),
          ch_seals = [demo_seal b3 [65] 1 None, demo_seal b3 [66] 2 (Some (sl_hash (demo_seal b3 [65] 1 None)))],
          ch_periods = {PeriodId (Label [66]), PeriodId (Label [65])}\<rparr>"
    unfolding demo_chain_def Let_def by (simp only: snd_conv)
  show "ch_seals (demo_chain b3) = [demo_seal b3 [65] 1 None, demo_seal b3 [66] 2 (Some (sl_hash (demo_seal b3 [65] 1 None)))]"
    "ch_ledger (demo_chain b3) = LedgerId (Label [76])"
    by (simp_all add: d)
  show "chain_ok b3 (demo_chain b3)"
    by (auto simp: d chain_ok_def check_link_def)
qed

text \<open>
  The two checks of the chain agree: whatever appending has accepted, verification accepts, and
  reading the seals back rebuilds the chain exactly.
\<close>

theorem chain_rebuilds:
  assumes "from_seals b3 ledger ss = Ok c"
  shows "chain_verify b3 c = Ok () \<and> ch_seals c = ss \<and> from_seals b3 (ch_ledger c) (ch_seals c) = Ok c"
proof -
  have step: "chain_ok b3 c' \<and> ch_ledger c' = ledger \<and> ch_seals c' = ss"
    if "from_seals b3 ledger ss = Ok c'" for ss c'
    using that
  proof (induction ss arbitrary: c' rule: rev_induct)
    case Nil
    then show ?case by (auto simp: from_seals_def) (simp_all add: chain_new_def)
  next
    case (snoc s ss)
    then obtain d where d: "from_seals b3 ledger ss = Ok d"
      "(case chain_push b3 s d of (res, c') \<Rightarrow> bindR res (\<lambda>_. Ok c')) = Ok c'"
      by (auto simp: from_seals_def try_fold_append)
    then obtain u where "chain_push b3 s d = (Ok u, c')"
      by (cases "chain_push b3 s d"; cases "fst (chain_push b3 s d)") auto
    with d(1) show ?case using snoc.IH [of d] chain_push_Ok [of b3 s d u c'] by simp
  qed
  then have c: "chain_ok b3 c" "ch_ledger c = ledger" "ch_seals c = ss" using assms by auto
  then have "chain_verify b3 c = Ok ()" by (simp add: chain_verify_linked chain_ok_def)
  then show ?thesis using c assms by simp
qed

lemma chain_rebuilds_witness:
  "from_seals toy_hash (LedgerId (Label [76])) [demo_seal toy_hash [65] 1 None]
     = Ok (snd (chain_push toy_hash (demo_seal toy_hash [65] 1 None) (chain_new (LedgerId (Label [76])))))
   \<and> chain_verify toy_hash (snd (chain_push toy_hash (demo_seal toy_hash [65] 1 None) (chain_new (LedgerId (Label [76]))))) = Ok ()"
proof -
  have "from_seals toy_hash (LedgerId (Label [76])) [demo_seal toy_hash [65] 1 None]
     = Ok (snd (chain_push toy_hash (demo_seal toy_hash [65] 1 None) (chain_new (LedgerId (Label [76])))))"
    by (simp add: from_seals_def chain_push_def chain_new_def last_seal_def check_link_def)
  then show ?thesis using chain_rebuilds by blast
qed

text \<open>
  The head of a chain commits to all of it: two chains that verify and end in the same seal hash
  hold the same seals throughout, unless two of the encoded seals collide.
\<close>

theorem chain_head_commits:
  assumes "chain_verify b3 c = Ok ()" "chain_verify b3 d = Ok ()" "chain_head c = chain_head d" "chain_head c \<noteq> None"
    and "\<forall>s\<in>set (ch_seals c) \<union> set (ch_seals d). valid_seal s"
    and "inj_on b3 (seal_preimage ` (set (ch_seals c) \<union> set (ch_seals d)))"
  shows "ch_seals c = ch_seals d"
proof (rule head_determines [OF assms(6)])
  show "linked b3 (ch_ledger c) {} None (ch_seals c)" "linked b3 (ch_ledger d) {} None (ch_seals d)"
    using assms(1,2) by (simp_all add: chain_verify_linked)
  show "ch_seals c \<noteq> []" "ch_seals d \<noteq> []" "sl_hash (last (ch_seals c)) = sl_hash (last (ch_seals d))"
    using assms(3,4) by (auto simp: chain_head_def last_seal_def split: if_splits)
  show "\<forall>s\<in>set (ch_seals c) \<union> set (ch_seals d). valid_seal s \<and> seal_preimage s \<in> seal_preimage ` (set (ch_seals c) \<union> set (ch_seals d))"
    using assms(5) by auto
qed

lemma chain_head_commits_witness:
  "\<exists>b3. chain_verify b3 (demo_chain b3) = Ok () \<and> chain_head (demo_chain b3) \<noteq> None
     \<and> ch_seals (demo_chain b3) = ch_seals (demo_chain b3)"
proof -
  define b3 :: blake3 where "b3 bs = small_hash (of_nat (length bs))" for bs
  let ?s = "demo_seal b3 [65] 1 None"
  let ?t = "demo_seal b3 [66] 2 (Some (sl_hash ?s))"
  have v: "chain_verify b3 (demo_chain b3) = Ok ()"
    using demo_chain_seals(3) [of b3] by (simp add: chain_verify_linked chain_ok_def)
  have h: "chain_head (demo_chain b3) \<noteq> None" by (simp add: chain_head_def last_seal_def demo_chain_seals)
  have label: "valid_label (Label [76])" "valid_label (Label [65])" "valid_label (Label [66])" by code_simp+
  have valid: "\<forall>s\<in>set (ch_seals (demo_chain b3)) \<union> set (ch_seals (demo_chain b3)). valid_seal s"
    using label by (simp add: demo_chain_seals valid_seal_def demo_seal_def Let_def u64_fits_def u64_max_def valid_head_def)
  have "length (utf8_char 66) = length (utf8_char 65)" by code_simp
  then have "length (seal_preimage ?t) = length (seal_preimage ?s) + 32"
    by (simp add: seal_preimage_def tagged_preimage_def enc_seal_def demo_seal_def Let_def enc_option_def enc_u8_def
        enc_ledger_id_def enc_period_id_def enc_label_def enc_str_def enc_bytes_def enc_u64_def enc_fixed_def utf8_ascii enc_head_def)
  moreover have "small_hash (of_nat (n + 32)) \<noteq> small_hash (of_nat n)" for n
  proof
    assume "small_hash (of_nat (n + 32)) = small_hash (of_nat n)"
    then have "hash_bytes (small_hash (of_nat (n + 32))) = hash_bytes (small_hash (of_nat n))" by simp
    then show False by (simp add: small_hash_def hash_bytes_from)
  qed
  ultimately have "b3 (seal_preimage ?t) \<noteq> b3 (seal_preimage ?s)" by (simp add: b3_def)
  then have inj: "inj_on b3 (seal_preimage ` (set (ch_seals (demo_chain b3)) \<union> set (ch_seals (demo_chain b3))))"
    by (auto simp: demo_chain_seals)
  show ?thesis using chain_head_commits [OF v v refl h valid inj] v h by blast
qed

end
