(* ===== verification/Seal_Proofs.thy ===== *)
theory Seal_Proofs
  imports Seal_Audit
begin

text \<open>Sealed balances: what the engine assembles verifies, and what verifies is true.\<close>

section \<open>Rows and leaves\<close>

definition row_leaves :: "env \<Rightarrow> trial_balance \<Rightarrow> hash list" where
  "row_leaves E tb = map (\<lambda>(k, b). balance_leaf E k b) (bt_iter tb)"

lemma length_row_leaves [simp]: "length (row_leaves E tb) = bt_len tb"
  by (simp add: row_leaves_def bt_len_def)

lemma commitment_log:
  assumes "bt_len tb \<le> u64_max"
  shows "good_log (env_b3 E) (tc_log (commitment_of E tb))" "leaves (tc_log (commitment_of E tb)) = row_leaves E tb"
    "tc_rows (commitment_of E tb) = bt_iter tb"
  using log_from_leaves_good [of "row_leaves E tb" "env_b3 E"] assms
  by (simp_all add: commitment_of_def row_leaves_def bt_len_def Let_def)

lemma trial_balance_head_eq:
  assumes "bt_len tb \<le> u64_max"
  shows "tc_head E (commitment_of E tb) = \<lparr>th_size = bt_len tb, th_root = mth (env_b3 E) (row_leaves E tb)\<rparr>"
  using commitment_log [OF assms, of E] good_log_accessors [of "env_b3 E" "tc_log (commitment_of E tb)"]
  by (simp add: tc_head_def log_head_def log_len_def)

lemma position_Some: "position P xs = Some i \<Longrightarrow> i < length xs \<and> P (xs ! i)"
  by (induction P xs arbitrary: i rule: position.induct) (auto split: if_splits)

lemma position_None: "position P xs = None \<longleftrightarrow> (\<forall>x\<in>set xs. \<not> P x)"
  by (induction P xs rule: position.induct) auto

lemma tc_prove_None: "tc_prove E (commitment_of E tb) key = None" if "bt_get tb key = None"
proof -
  have "position (\<lambda>(k, _). k = key) (bt_iter tb) = None"
    using that bt_get_iter [of tb key] by (auto simp: position_None)
  then show ?thesis by (simp add: tc_prove_def commitment_of_def Let_def)
qed

lemma tc_prove_Some:
  assumes "bt_len tb \<le> u64_max" "bt_get tb key = Some b"
  obtains pf where "tc_prove E (commitment_of E tb) key = Some \<lparr>bp_key = key, bp_balance = b, bp_proof = pf\<rparr>"
    "inclusion_verify (env_b3 E) pf (balance_leaf E key b) (tc_head E (commitment_of E tb))"
proof -
  let ?c = "commitment_of E tb"
  note lg = commitment_log [OF assms(1), of E]
  have "position (\<lambda>(k, _). k = key) (bt_iter tb) \<noteq> None"
    using assms(2) by (auto simp: position_None bt_get_iter)
  then obtain i where i: "position (\<lambda>(k, _). k = key) (bt_iter tb) = Some i" by blast
  then have at: "i < bt_len tb" "fst (bt_iter tb ! i) = key" using position_Some [OF i] by (auto simp: bt_len_def split: prod.splits)
  have "(key, snd (bt_iter tb ! i)) \<in> set (bt_iter tb)" using at nth_mem [of i "bt_iter tb"] by (metis bt_len_def prod.collapse)
  then have row: "bt_iter tb ! i = (key, b)" using at(2) assms(2) by (auto simp flip: bt_get_iter intro: prod_eqI)
  obtain pf head where pf: "inclusion_proof_at (env_b3 E) (tc_log ?c) i (log_len (tc_log ?c)) = Ok pf"
    "head_at (env_b3 E) (tc_log ?c) (log_len (tc_log ?c)) = Ok head"
    "inclusion_verify (env_b3 E) pf (row_leaves E tb ! i) head"
    using inclusion_proof_accepted [of i "log_len (tc_log ?c)" "tc_log ?c" "env_b3 E"] at(1) lg by (auto simp: log_len_def)
  have "head = tc_head E ?c"
    using pf(2) lg by (simp add: trial_balance_head_eq [OF assms(1)] head_at_def root_at_def log_len_def)
  moreover have "row_leaves E tb ! i = balance_leaf E key b" using at row by (simp add: row_leaves_def bt_len_def)
  ultimately show ?thesis
    using that [of pf] pf i row by (simp add: tc_prove_def lg(3) log_inclusion_proof_def)
qed

section \<open>Completeness\<close>

lemma assemble_answers:
  assumes "reachable_registry r" "registry_step\<^sup>*\<^sup>* r r'" "bt_len closing \<le> u64_max"
    and "sl_trial_balance s = trial_balance_head E closing" "sl_accounts s = commitment (env_b3 E) r"
    and "is_self_consistent (env_b3 E) s"
  shows "(reg_get r (k_account key) = None \<longrightarrow> assemble E s closing r' key = Ok NotYetRegistered)
    \<and> (reg_get r (k_account key) \<noteq> None \<and> bt_get closing key = None \<longrightarrow> assemble E s closing r' key = Ok NoRow)
    \<and> (\<forall>a b. reg_get r (k_account key) = Some a \<and> bt_get closing key = Some b \<longrightarrow>
         (\<exists>sb. assemble E s closing r' key = Ok (Proven sb) \<and> bp_key (sb_balance sb) = key
            \<and> bp_balance (sb_balance sb) = b \<and> sealed_path sb = a_path a \<and> sealed_balance_verify E sb))"
proof -
  let ?i = "k_account key"
  have head: "tc_head E (commitment_of E closing) = sl_trial_balance s" "sl_accounts s = commitment (env_b3 E) r"
    using assms(4,5) by (simp_all add: trial_balance_head_def)
  note self = assms(6)
  have size: "th_size (commitment (env_b3 E) r) = reg_len r" by (simp add: commitment_head [OF reachable_inv [OF assms(1)]])
  have late: "prove_binding_at (env_b3 E) r' ?i (reg_len r) = None" if "reg_get r ?i = None"
    using that by (auto simp: prove_binding_at_def reg_get_def reg_len_def split: if_splits)
  have bound: "\<exists>p. prove_binding_at (env_b3 E) r' ?i (reg_len r) = Some p \<and> b_id p = ?i \<and> b_path p = a_path a
      \<and> binding_verify (env_b3 E) p (commitment (env_b3 E) r)" if "reg_get r ?i = Some a" for a
    by (rule binding_proof_later [OF assms(1,2) that])
  have one: "assemble E s closing r' key = Ok NotYetRegistered" if "reg_get r ?i = None"
    using late [OF that] by (simp add: assemble_def Let_def head size)
  have two: "assemble E s closing r' key = Ok NoRow" if some: "reg_get r ?i = Some a" and "bt_get closing key = None" for a
    using bound [OF some] tc_prove_None [OF that(2), of E] head by (auto simp: assemble_def Let_def size)
  have three: "\<exists>sb. assemble E s closing r' key = Ok (Proven sb) \<and> bp_key (sb_balance sb) = key
            \<and> bp_balance (sb_balance sb) = b \<and> sealed_path sb = a_path a \<and> sealed_balance_verify E sb"
    if some: "reg_get r ?i = Some a" and row: "bt_get closing key = Some b" for a b
  proof -
    obtain p where p: "prove_binding_at (env_b3 E) r' ?i (reg_len r) = Some p" "b_id p = ?i" "b_path p = a_path a"
      "binding_verify (env_b3 E) p (commitment (env_b3 E) r)" using bound [OF some] by blast
    obtain pf where pf: "tc_prove E (commitment_of E closing) key = Some \<lparr>bp_key = key, bp_balance = b, bp_proof = pf\<rparr>"
      "inclusion_verify (env_b3 E) pf (balance_leaf E key b) (tc_head E (commitment_of E closing))"
      using tc_prove_Some [OF assms(3) row] .
    let ?sb = "\<lparr>sb_seal = s, sb_balance = \<lparr>bp_key = key, bp_balance = b, bp_proof = pf\<rparr>, sb_binding = p\<rparr>"
    have "assemble E s closing r' key = Ok (Proven ?sb)"
      using p pf head by (simp add: assemble_def Let_def size)
    moreover have "sealed_balance_verify E ?sb"
      using p pf self head by (simp add: sealed_balance_verify_def verify_naming_def verify_against_def balance_verify_def)
    ultimately show ?thesis using p by (intro exI [of _ ?sb]) (simp add: sealed_path_def)
  qed
  show ?thesis using one two three by blast
qed

text \<open>
  Every sealed account can be answered for: from the books a seal was built from, and however
  the registry has grown since, the engine proves each balance row of the period with a proof that
  verifies and names the path the account had, and otherwise answers that there is no row or that
  the account came later.
\<close>

theorem assemble_complete:
  assumes "reachable_registry r" "registry_step\<^sup>*\<^sup>* r r'" "bt_len closing \<le> u64_max"
    and "s = seal_build E ledger period cov head closing (commitment (env_b3 E) r) prev"
  shows "(reg_get r (k_account key) = None \<longrightarrow> assemble E s closing r' key = Ok NotYetRegistered)
    \<and> (reg_get r (k_account key) \<noteq> None \<and> bt_get closing key = None \<longrightarrow> assemble E s closing r' key = Ok NoRow)
    \<and> (\<forall>a b. reg_get r (k_account key) = Some a \<and> bt_get closing key = Some b \<longrightarrow>
         (\<exists>sb. assemble E s closing r' key = Ok (Proven sb) \<and> bp_key (sb_balance sb) = key
            \<and> bp_balance (sb_balance sb) = b \<and> sealed_path sb = a_path a \<and> sealed_balance_verify E sb))"
  by (rule assemble_answers [OF assms(1-3)])
    (simp_all add: assms(4) seal_build_def is_self_consistent_def compute_hash_def enc_seal_def Let_def)

lemma assemble_complete_witness:
  "assemble toy_env (seal_build toy_env (LedgerId (Label [76])) (PeriodId (Label [65])) coverage_empty \<lparr>th_size = 0, th_root = small_hash 1\<rparr>
       bt_empty (commitment (env_b3 toy_env) demo_registry) None) bt_empty demo_registry
       (BalanceKey (AccountId 9) EUR Settled) = Ok NotYetRegistered
   \<and> (\<exists>sb. assemble toy_env (seal_build toy_env (LedgerId (Label [76])) (PeriodId (Label [65])) coverage_empty \<lparr>th_size = 0, th_root = small_hash 1\<rparr>
       (bt_insert (BalanceKey (AccountId 0) EUR Settled) balance_zero bt_empty) (commitment (env_b3 toy_env) demo_registry) None)
       (bt_insert (BalanceKey (AccountId 0) EUR Settled) balance_zero bt_empty) demo_registry
       (BalanceKey (AccountId 0) EUR Settled) = Ok (Proven sb) \<and> sealed_balance_verify toy_env sb)"
proof -
  have g: "reg_get demo_registry (AccountId 0) = Some (account_new (AccountPath [lit ''A'']) (Date 0))"
    "reg_get demo_registry (AccountId 9) = None" by code_simp+
  have b: "bt_len (bt_empty :: trial_balance) \<le> u64_max"
    "bt_len (bt_insert (BalanceKey (AccountId 0) EUR Settled) balance_zero bt_empty) \<le> u64_max"
    by (simp_all add: bt_len_insert u64_max_def) (simp_all add: bt_len_def)
  let ?at = "\<lambda>tb key. assemble toy_env (seal_build toy_env (LedgerId (Label [76])) (PeriodId (Label [65])) coverage_empty
      \<lparr>th_size = 0, th_root = small_hash 1\<rparr> tb (commitment (env_b3 toy_env) demo_registry) None) tb demo_registry key"
  let ?row = "bt_insert (BalanceKey (AccountId 0) EUR Settled) balance_zero bt_empty"
  have "?at bt_empty (BalanceKey (AccountId 9) EUR Settled) = Ok NotYetRegistered"
    by (rule assemble_complete [OF demo_reachable rtranclp.rtrancl_refl b(1) refl, THEN conjunct1, rule_format]) (simp add: g)
  moreover have "\<exists>sb. ?at ?row (BalanceKey (AccountId 0) EUR Settled) = Ok (Proven sb) \<and> sealed_balance_verify toy_env sb"
    using assemble_complete [OF demo_reachable rtranclp.rtrancl_refl b(2) refl, THEN conjunct2, THEN conjunct2,
        rule_format, of "BalanceKey (AccountId 0) EUR Settled" _ _ toy_env "LedgerId (Label [76])" "PeriodId (Label [65])"
        coverage_empty "\<lparr>th_size = 0, th_root = small_hash 1\<rparr>" None] g
    by fastforce
  ultimately show ?thesis ..
qed

section \<open>Soundness\<close>

definition valid_key :: "balance_key \<Rightarrow> bool" where
  "valid_key k \<longleftrightarrow> valid_currency (k_currency k)"

definition balance_preimage :: "env \<Rightarrow> balance_key \<Rightarrow> balance \<Rightarrow> byte list" where
  "balance_preimage E k b = tagged_preimage tag_trial_balance (balance_payload E k b)"

lemma balance_payload_fields:
  assumes "valid_key k" "valid_key l" "balance_payload E k a @ r = balance_payload E l b @ s"
  shows "account_index (k_account k) = account_index (k_account l) \<and> k_currency k = k_currency l
    \<and> k_layer k = k_layer l \<and> to_minor (debits a) = to_minor (debits b) \<and> to_minor (credits a) = to_minor (credits b)"
  using assms by (simp add: balance_payload_def valid_key_def fixed_iffs currency_append)

lemma balance_payload_inj:
  assumes "valid_key k" "valid_key l" "balance_payload E k a = balance_payload E l b"
  shows "k = l \<and> a = b"
proof -
  note f = balance_payload_fields [OF assms(1,2), of E a "[]" b "[]"]
  have "k = l" using f assms(3) by (intro balance_key.expand account_id.expand conjI) simp_all
  moreover have "a = b" using f assms(3) by (cases a; cases b) (simp add: amount.expand)
  ultimately show ?thesis ..
qed

text \<open>The byte strings hashed when a balance proof is checked, and those hashed for the row it claims to be.\<close>

definition row_preimages :: "env \<Rightarrow> trial_balance \<Rightarrow> balance_proof \<Rightarrow> byte list set" where
  "row_preimages E tb p =
     (let i = leaf_index (bp_proof p); ls = row_leaves E tb in
      set (inclusion_preimages (env_b3 E) i (length ls) (ip_path (bp_proof p)) (balance_leaf E (bp_key p) (bp_balance p)))
      \<union> set (inclusion_preimages (env_b3 E) i (length ls) (inclusion_path (env_b3 E) i ls) (ls ! i))
      \<union> {balance_preimage E (bp_key p) (bp_balance p),
          balance_preimage E (fst (bt_iter tb ! i)) (snd (bt_iter tb ! i))})"

lemma balance_accepted_genuine:
  assumes "balance_verify E p (trial_balance_head E tb)" "bt_len tb \<le> u64_max"
    and "\<forall>k\<in>set (bt_keys tb). valid_key k" "valid_key (bp_key p)" "inj_on (env_b3 E) (row_preimages E tb p)"
  shows "bt_get tb (bp_key p) = Some (bp_balance p)"
proof -
  let ?ls = "row_leaves E tb" and ?i = "leaf_index (bp_proof p)"
  have head: "th_size (trial_balance_head E tb) = length ?ls" "th_root (trial_balance_head E tb) = mth (env_b3 E) ?ls"
    using trial_balance_head_eq [OF assms(2), of E] by (simp_all add: trial_balance_head_def)
  have v: "inclusion_verify (env_b3 E) (bp_proof p) (balance_leaf E (bp_key p) (bp_balance p)) (trial_balance_head E tb)"
    using assms(1) by (simp add: balance_verify_def)
  have "inj_on (env_b3 E) (set (inclusion_preimages (env_b3 E) ?i (length ?ls) (ip_path (bp_proof p)) (balance_leaf E (bp_key p) (bp_balance p)))
      \<union> set (inclusion_preimages (env_b3 E) ?i (length ?ls) (inclusion_path (env_b3 E) ?i ?ls) (?ls ! ?i)))"
    by (rule inj_on_subset [OF assms(5)]) (auto simp: row_preimages_def Let_def)
  from inclusion_accepted_genuine [OF v head this]
  have i: "?i < bt_len tb" and eq: "balance_leaf E (bp_key p) (bp_balance p) = ?ls ! ?i" by simp_all
  obtain k b where row: "bt_iter tb ! ?i = (k, b)" by fastforce
  have mem: "(k, b) \<in> set (bt_iter tb)" using i row nth_mem [of ?i "bt_iter tb"] by (simp add: bt_len_def)
  then have "valid_key k" using assms(3) by (force simp: bt_keys_def)
  moreover have "balance_leaf E (bp_key p) (bp_balance p) = balance_leaf E k b"
    using eq i row by (simp add: row_leaves_def bt_len_def)
  then have "balance_payload E (bp_key p) (bp_balance p) = balance_payload E k b"
    using tagged_inj [OF assms(5)] tags_fit row
    by (simp add: balance_leaf_def row_preimages_def Let_def balance_preimage_def)
  ultimately have "bp_key p = k \<and> bp_balance p = b" by (intro balance_payload_inj [OF assms(4)])
  then show ?thesis using mem by (simp add: bt_get_iter)
qed

text \<open>The byte strings hashed when a binding proof is checked, and those hashed for the binding it claims to be.\<close>

definition binding_preimages :: "blake3 \<Rightarrow> registry \<Rightarrow> account_binding_proof \<Rightarrow> byte list set" where
  "binding_preimages b3 r p =
     set (inclusion_preimages b3 (idx (b_id p)) (reg_len r) (ip_path (b_proof p)) (account_binding_leaf b3 (b_id p) (b_path p)))
       \<union> set (inclusion_preimages b3 (idx (b_id p)) (reg_len r)
            (inclusion_path b3 (idx (b_id p)) (binding_leaves b3 (accounts r))) (binding_leaves b3 (accounts r) ! idx (b_id p)))
       \<union> {tagged_preimage tag_account_binding (binding_payload (b_id p) (b_path p)),
           tagged_preimage tag_account_binding (binding_payload (b_id p) (path_at r (idx (b_id p))))}"

text \<open>
  C39. A sealed balance that verifies is true: against a seal made of the closing trial balance and
  the registry it names, the balance it shows is the row of that trial balance for the account that
  holds the path it shows, unless two of the byte strings hashed on the way collide.
\<close>

theorem sealed_balance_sound:
  assumes "sealed_balance_verify E sb" "reachable_registry r" "\<forall>a\<in>set (accounts r). valid_path (a_path a)"
    and "sl_trial_balance (sb_seal sb) = trial_balance_head E closing" "sl_accounts (sb_seal sb) = commitment (env_b3 E) r"
    and "bt_len closing \<le> u64_max" "\<forall>k\<in>set (bt_keys closing). valid_key k"
    and "valid_key (bp_key (sb_balance sb))" "valid_path (sealed_path sb)"
    and "inj_on (env_b3 E) (row_preimages E closing (sb_balance sb))"
    and "inj_on (env_b3 E) (binding_preimages (env_b3 E) r (sb_binding sb))"
  shows "bt_get closing (bp_key (sb_balance sb)) = Some (bp_balance (sb_balance sb))
    \<and> id_of r (sealed_path sb) = Some (k_account (bp_key (sb_balance sb)))"
proof -
  have v: "balance_verify E (sb_balance sb) (trial_balance_head E closing)"
    "binding_verify (env_b3 E) (sb_binding sb) (commitment (env_b3 E) r)"
    "b_id (sb_binding sb) = k_account (bp_key (sb_balance sb))"
    using assms(1,4,5) by (simp_all add: sealed_balance_verify_def verify_naming_def verify_against_def)
  have "bt_get closing (bp_key (sb_balance sb)) = Some (bp_balance (sb_balance sb))"
    using balance_accepted_genuine [OF v(1) assms(6,7,8,10)] .
  moreover have "id_of r (sealed_path sb) = Some (b_id (sb_binding sb))"
    using binding_accepted_genuine [OF assms(2,3) v(2)] assms(9,11) by (simp add: sealed_path_def binding_preimages_def)
  ultimately show ?thesis using v(3) by simp
qed

text \<open>A registry of one account, its one row, and the sealed balance an auditor is handed for it.\<close>

definition one_key :: balance_key where
  "one_key = BalanceKey (AccountId 0) EUR Settled"

definition one_sealed :: "env \<Rightarrow> sealed_balance" where
  "one_sealed E = \<lparr>sb_seal = seal_build E (LedgerId (Label [76])) (PeriodId (Label [65])) coverage_empty
       \<lparr>th_size = 0, th_root = small_hash 1\<rparr> (bt_insert one_key balance_zero bt_empty) (commitment (env_b3 E) one_registry) None,
     sb_balance = \<lparr>bp_key = one_key, bp_balance = balance_zero, bp_proof = \<lparr>leaf_index = 0, tree_size = 1, ip_path = []\<rparr>\<rparr>,
     sb_binding = one_binding\<rparr>"

lemma sealed_balance_sound_witness:
  "\<exists>E. sealed_balance_verify E (one_sealed E)
     \<and> bt_get (bt_insert one_key balance_zero bt_empty) (bp_key (sb_balance (one_sealed E))) = Some balance_zero
     \<and> id_of one_registry (sealed_path (one_sealed E)) = Some (AccountId 0)"
proof -
  define b3 :: blake3 where "b3 bs = small_hash (of_nat (length bs))" for bs
  define E where "E = toy_env\<lparr>env_b3 := b3\<rparr>"
  have [simp]: "env_b3 E = b3" by (simp add: E_def)
  let ?tb = "bt_insert one_key balance_zero bt_empty :: trial_balance" and ?sb = "one_sealed E"
  have "registry_step registry_new one_registry"
    unfolding one_registry_def by (rule step_register) (simp add: account_new_def)
  then have r: "reachable_registry one_registry" by (auto simp: reachable_registry_def)
  have as: "accounts one_registry = [account_new (AccountPath [lit ''A'']) (Date 0)]" by code_simp
  have iter: "bt_iter ?tb = [(one_key, balance_zero)]" by code_simp
  have paths: "\<forall>a\<in>set (accounts one_registry). valid_path (a_path a)" "valid_path (sealed_path ?sb)"
    by (simp_all add: as sealed_path_def one_sealed_def one_binding_def account_new_def) code_simp+
  have keys: "\<forall>k\<in>set (bt_keys ?tb). valid_key k" "valid_key (bp_key (sb_balance ?sb))"
    by (simp_all add: bt_keys_def iter one_sealed_def valid_key_def one_key_def) code_simp+
  have len: "bt_len ?tb \<le> u64_max" by (simp add: bt_len_def iter u64_max_def)
  let ?leaf = "account_binding_leaf b3 (AccountId 0) (AccountPath [lit ''A''])" and ?row = "balance_leaf E one_key balance_zero"
  let ?payload = "binding_payload (AccountId 0) (AccountPath [lit ''A''])" and ?rowload = "balance_payload E one_key balance_zero"
  have ls [simp]: "binding_leaves b3 (accounts one_registry) = [?leaf]" "reg_len one_registry = 1" "row_leaves E ?tb = [?row]"
    by (simp_all add: as iter binding_leaves_def reg_len_def account_new_def handle_at_def u32_try_def row_leaves_def)
  have seal: "sl_trial_balance (sb_seal ?sb) = trial_balance_head E ?tb" "sl_accounts (sb_seal ?sb) = commitment (env_b3 E) one_registry"
    by (simp_all add: one_sealed_def seal_build_def Let_def)
  have self: "is_self_consistent b3 (sb_seal ?sb)"
    by (simp add: one_sealed_def seal_build_def is_self_consistent_def compute_hash_def enc_seal_def Let_def)
  have fields [simp]: "sb_balance ?sb = \<lparr>bp_key = one_key, bp_balance = balance_zero, bp_proof = \<lparr>leaf_index = 0, tree_size = 1, ip_path = []\<rparr>\<rparr>"
    "sb_binding ?sb = one_binding" "k_account one_key = AccountId 0" "idx (AccountId 0) = 0"
    by (simp_all add: one_sealed_def one_key_def idx_def)
  have ok: "sealed_balance_verify E ?sb"
    using trial_balance_head_eq [OF len, of E] self
    by (simp add: sealed_balance_verify_def verify_naming_def verify_against_def balance_verify_def seal trial_balance_head_def
        commitment_head [OF reachable_inv [OF r]] binding_verify_def inclusion_verify_def one_binding_def bt_len_def iter)
  have none: "inclusion_sides 0 (Suc 0) = []" "inclusion_path b3 0 [x] = []" for x :: hash
    by (subst inclusion_sides.simps inclusion_path.simps; simp)+
  have "length tag_leaf = 26" "length tag_account_binding = 29" "length tag_trial_balance = 27" "length ?payload = 21" by code_simp+
  moreover have "length ?rowload = length (balance_payload toy_env one_key balance_zero)"
    by (simp add: balance_payload_def E_def)
  moreover have "length (balance_payload toy_env one_key balance_zero) = 25" by code_simp
  ultimately have "length (tagged_preimage tag_leaf (hash_bytes h)) = 66" "length (tagged_preimage tag_account_binding ?payload) = 58"
    "length (tagged_preimage tag_trial_balance ?rowload) = 60" for h
    by (simp_all add: tagged_preimage_def)
  moreover have "small_hash 66 \<noteq> small_hash 58" "small_hash 66 \<noteq> small_hash 60" by code_simp+
  ultimately have "b3 (tagged_preimage tag_leaf (hash_bytes ?leaf)) \<noteq> b3 (tagged_preimage tag_account_binding ?payload)"
    "b3 (tagged_preimage tag_leaf (hash_bytes ?row)) \<noteq> b3 (tagged_preimage tag_trial_balance ?rowload)"
    by (simp_all add: b3_def)
  then have inj: "inj_on b3 {tagged_preimage tag_leaf (hash_bytes ?leaf), tagged_preimage tag_account_binding ?payload}"
    "inj_on b3 {tagged_preimage tag_leaf (hash_bytes ?row), tagged_preimage tag_trial_balance ?rowload}"
    by auto
  have at0: "path_at one_registry 0 = AccountPath [lit ''A'']" by (simp add: path_at_def as account_new_def)
  have "row_preimages E ?tb (sb_balance ?sb) = {tagged_preimage tag_leaf (hash_bytes ?row), tagged_preimage tag_trial_balance ?rowload}"
    by (auto simp: row_preimages_def Let_def inclusion_preimages_def none iter balance_preimage_def)
  moreover have "binding_preimages b3 one_registry (sb_binding ?sb)
      = {tagged_preimage tag_leaf (hash_bytes ?leaf), tagged_preimage tag_account_binding ?payload}"
    using at0 by (auto simp: binding_preimages_def inclusion_preimages_def none one_binding_def)
  ultimately show ?thesis
    using sealed_balance_sound [OF ok r paths(1) seal len keys paths(2)] ok inj by auto
qed

end
