(* ===== verification/Journal_Steps.thy ===== *)
theory Journal_Steps
  imports Journal_Rollback Journal_Reports Calendar_Audit Clearing_Rules Seal_Proofs
begin

text \<open>
  The journal as a state machine: its steps, the invariant of the whole state, and the proof that every
  step keeps it. The seals part of the invariant is what the closed periods rest on: each seal is
  still true of the entries it was made over, whatever has been recorded since.
\<close>

section \<open>The lookup the clearing register reads\<close>

definition journal_grows :: "journal \<Rightarrow> journal \<Rightarrow> bool" where
  "journal_grows j k \<longleftrightarrow> ids_ok (j_entries j) (j_by_id j) \<and> ids_ok (j_entries k) (j_by_id k)
     \<and> (\<exists>more. j_entries k = j_entries j @ more)"

lemma journal_posting_Some:
  assumes "ids_ok (j_entries j) (j_by_id j)"
  shows "journal_posting j r = Some q \<longleftrightarrow>
    (\<exists>n<length (j_entries j). e_id (j_entries j ! n) = ref_entry r \<and> posting_at (j_entries j ! n) (ref_index r) = Some q)"
  using assms by (auto simp: journal_posting_def ids_ok_def entry_at_def bind_eq_Some_conv)

lemma journal_posting_cong:
  "j_entries k = j_entries j \<Longrightarrow> j_by_id k = j_by_id j \<Longrightarrow> journal_posting k = journal_posting j"
  unfolding fun_eq_iff journal_posting_def entry_at_def by (simp cong: if_cong)

interpretation jp: posting_store journal_posting journal_grows
proof
  fix s t p q
  assume g: "journal_grows s t" and q: "journal_posting s p = Some q"
  obtain more where more: "j_entries t = j_entries s @ more" using g by (auto simp: journal_grows_def)
  from q g obtain n where n: "n < length (j_entries s)" "e_id (j_entries s ! n) = ref_entry p"
    "posting_at (j_entries s ! n) (ref_index p) = Some q" by (auto simp: journal_posting_Some journal_grows_def)
  have ids: "ids_ok (j_entries t) (j_by_id t)" using g by (simp add: journal_grows_def)
  show "journal_posting t p = Some q"
    unfolding journal_posting_Some [OF ids] using n more by (intro exI [of _ n]) (simp add: nth_append)
qed

section \<open>Calendar facts\<close>

lemma period_end_kept:
  assumes "calendar_step c c'" "cal_get c i = Some p"
  shows "\<exists>p'. cal_get c' i = Some p' \<and> pd_end p' = pd_end p"
  using assms
proof cases
  case (step_define q)
  then show ?thesis using assms(2)
    by (auto simp: cal_define_def cal_get_def bt_contains_def mark_sealed_through_def Let_def split: option.splits)
next
  case (step_ensure q)
  then show ?thesis using assms(2)
    by (auto simp: cal_ensure_def cal_define_def cal_get_def bt_contains_def mark_sealed_through_def Let_def split: option.splits)
next
  case (step_transition k to)
  then show ?thesis using assms(2)
    by (auto simp: transition_def cal_get_def mark_sealed_through_def Let_def split: option.splits)
qed

lemma check_sealable_parts:
  assumes "check_sealable c i = Ok p"
  shows "cal_get c i = Some p" "pd_state p = Closing" "sealed_through c = Some w \<Longrightarrow> w < pd_end p"
  using assms by (auto simp: check_sealable_def cal_get_def split: option.splits if_splits)

lemma seal_transition:
  assumes "check_sealable c i = Ok p"
  obtains c' where "transition i Sealed c = (Ok (), c')" "sealed_through c' = Some (pd_end p)"
    "cal_get c' i = Some (p\<lparr>pd_state := Sealed\<rparr>)"
proof -
  note p = check_sealable_parts [OF assms]
  let ?c = "c\<lparr>periods := bt_insert i (p\<lparr>pd_state := Sealed\<rparr>) (periods c)\<rparr>"
  have "transition i Sealed c = (Ok (), mark_sealed_through (p\<lparr>pd_state := Sealed\<rparr>) ?c)"
    using p(1,2) by (simp add: transition_def cal_get_def permitted_def Let_def)
  moreover have "sealed_through (mark_sealed_through (p\<lparr>pd_state := Sealed\<rparr>) ?c) = Some (pd_end p)"
    using p(3) by (cases "sealed_through c") (auto simp: mark_sealed_through_def)
  moreover have "cal_get (mark_sealed_through (p\<lparr>pd_state := Sealed\<rparr>) ?c) i = Some (p\<lparr>pd_state := Sealed\<rparr>)"
    by (simp add: mark_sealed_through_def cal_get_def)
  ultimately show ?thesis using that by blast
qed

section \<open>The steps\<close>

text \<open>
  \<^verbatim>\<open>Entry<Balanced>\<close> is the type of an entry that went through \<^verbatim>\<open>seal\<close>. Neither the type nor \<^verbatim>\<open>record_batch\<close>
  say against which accounts, calendar and policy, or when.
\<close>

definition was_sealed :: "env \<Rightarrow> entry \<Rightarrow> bool" where
  "was_sealed E e \<longleftrightarrow> (\<exists>ctx. entry_seal E ctx e = Ok e)"

lemma was_sealed_iff: "was_sealed E e \<longleftrightarrow> (\<exists>ctx. entry_ok ctx e)"
  by (simp add: was_sealed_def entry_seal_Ok)

text \<open>A call of a public operation. A batch takes whatever was sealed, against whatever it was.\<close>

inductive journal_step :: "env \<Rightarrow> journal \<Rightarrow> journal \<Rightarrow> bool" for E where
  step_accounts: "registry_step (j_accounts j) r \<Longrightarrow> journal_step E j (j\<lparr>j_accounts := r\<rparr>)"
| step_calendar: "calendar_step (j_calendar j) c \<Longrightarrow> journal_step E j (j\<lparr>j_calendar := c\<rparr>)"
| step_policy: "journal_step E j (with_policy policy j)"
| step_record: "length (j_entries j) < u64_max \<Longrightarrow> journal_step E j (snd (record_draft E e j))"
| step_batch: "\<forall>e\<in>set es. was_sealed E e \<Longrightarrow> length (j_entries j) + length es \<le> u64_max
    \<Longrightarrow> journal_step E j (snd (record_batch E es j))"
| step_clear: "journal_step E j (snd (clear E cl j))"
| step_reset: "journal_step E j (snd (reset_clearing i on j))"
| step_seal: "journal_step E j (snd (seal_period E i j))"

definition reachable_journal :: "env \<Rightarrow> ledger_id \<Rightarrow> journal \<Rightarrow> bool" where
  "reachable_journal E ledger j \<longleftrightarrow> (journal_step E)\<^sup>*\<^sup>* (journal_new ledger) j"

section \<open>The invariant of the whole state\<close>

definition through :: "date \<Rightarrow> entry list \<Rightarrow> entry list" where
  "through d es = filter (\<lambda>e. booking_date e \<le> d) es"

text \<open>
  A seal is true of the journal: its period is over, and its three heads are those of the log, of the closing
  balances and of the accounts at some earlier size of the journal.
\<close>

definition seal_true :: "env \<Rightarrow> journal \<Rightarrow> seal \<Rightarrow> bool" where
  "seal_true E j s \<longleftrightarrow>
     (\<exists>pd w n tb. cal_get (j_calendar j) (sl_period s) = Some pd \<and> sealed_through (j_calendar j) = Some w \<and> pd_end pd \<le> w
        \<and> n \<le> length (j_entries j)
        \<and> sl_tree_head s = \<lparr>th_size = n, th_root = mth (env_b3 E) (map (content_hash E) (take n (j_entries j)))\<rparr>
        \<and> apply_postings bt_empty (all_postings (through (pd_end pd) (take n (j_entries j)))) = Ok tb
        \<and> sl_trial_balance s = trial_balance_head E tb)
     \<and> (\<exists>r0. reachable_registry r0 \<and> registry_step\<^sup>*\<^sup>* r0 (j_accounts j) \<and> sl_accounts s = commitment (env_b3 E) r0)"

definition reversal_links :: "entry list \<Rightarrow> bool" where
  "reversal_links es \<longleftrightarrow> (\<forall>n<length es. \<forall>original. e_reverses (es ! n) = Some original \<longrightarrow>
     (\<exists>m<n. e_id (es ! m) = original \<and> e_reverses (es ! m) = None \<and> is_inversion_of (es ! m) (es ! n)))"

definition journal_inv :: "env \<Rightarrow> journal \<Rightarrow> bool" where
  "journal_inv E j \<longleftrightarrow> derived_ok E j \<and> (\<forall>e\<in>set (j_entries j). sound_entry e) \<and> length (j_entries j) \<le> u64_max
     \<and> reversal_links (j_entries j) \<and> reachable_registry (j_accounts j) \<and> reachable_calendar (j_calendar j)
     \<and> ch_ledger (j_seals j) = j_ledger j \<and> chain_ok (env_b3 E) (j_seals j) \<and> (\<forall>s\<in>set (ch_seals (j_seals j)). seal_true E j s)
     \<and> register_ok (journal_posting j) (clearings j)"

lemma journal_invD:
  assumes "journal_inv E j"
  shows "derived_ok E j" "\<And>e. e \<in> set (j_entries j) \<Longrightarrow> sound_entry e" "length (j_entries j) \<le> u64_max"
    "reversal_links (j_entries j)" "reachable_registry (j_accounts j)" "reachable_calendar (j_calendar j)"
    "ch_ledger (j_seals j) = j_ledger j" "chain_ok (env_b3 E) (j_seals j)"
    "\<And>s. s \<in> set (ch_seals (j_seals j)) \<Longrightarrow> seal_true E j s"
    "register_ok (journal_posting j) (clearings j)"
  using assms by (simp_all add: journal_inv_def)

lemma journal_new_fields [simp]:
  "j_entries (journal_new ledger) = []" "j_accounts (journal_new ledger) = registry_new"
  "j_calendar (journal_new ledger) = calendar_new" "j_ledger (journal_new ledger) = ledger"
  "j_seals (journal_new ledger) = chain_new ledger" "clearings (journal_new ledger) = clearing_register_new"
  by (simp_all add: journal_new_def)

lemma journal_inv_new: "journal_inv E (journal_new ledger)"
proof -
  have "reachable_registry registry_new" "reachable_calendar calendar_new"
    by (simp_all add: reachable_registry_def reachable_calendar_def)
  moreover have "ch_ledger (chain_new ledger) = ledger" "ch_seals (chain_new ledger) = []" by (simp_all add: chain_new_def)
  ultimately show ?thesis by (simp add: journal_inv_def reversal_links_def)
qed

section \<open>Every step keeps it\<close>

text \<open>Steps that leave the entries alone and only move master data forward.\<close>

lemma seal_true_base:
  assumes "seal_true E j s" "j_entries k = j_entries j" "registry_step\<^sup>*\<^sup>* (j_accounts j) (j_accounts k)"
    and "calendar_step\<^sup>*\<^sup>* (j_calendar j) (j_calendar k)" "reachable_calendar (j_calendar j)"
  shows "seal_true E k s"
proof -
  obtain pd w n tb where pd: "cal_get (j_calendar j) (sl_period s) = Some pd" "sealed_through (j_calendar j) = Some w" "pd_end pd \<le> w"
    "n \<le> length (j_entries j)" "sl_tree_head s = \<lparr>th_size = n, th_root = mth (env_b3 E) (map (content_hash E) (take n (j_entries j)))\<rparr>"
    "apply_postings bt_empty (all_postings (through (pd_end pd) (take n (j_entries j)))) = Ok tb"
    "sl_trial_balance s = trial_balance_head E tb" using assms(1) by (auto simp: seal_true_def)
  have "\<exists>pd'. cal_get (j_calendar k) (sl_period s) = Some pd' \<and> pd_end pd' = pd_end pd"
    using assms(4) by (induction rule: rtranclp_induct) (use pd(1) period_end_kept in \<open>blast, metis\<close>)
  then obtain pd' where pd': "cal_get (j_calendar k) (sl_period s) = Some pd'" "pd_end pd' = pd_end pd" by blast
  have "watermark_le (j_calendar j) (j_calendar k)"
    using calendar_steps_inv [OF assms(4) reachable_cal_inv [OF assms(5)]] by simp
  then obtain w' where "sealed_through (j_calendar k) = Some w'" "pd_end pd' \<le> w'"
    using pd(2,3) pd'(2) unfolding watermark_le_def by (metis order_trans)
  moreover have "\<exists>r0. reachable_registry r0 \<and> registry_step\<^sup>*\<^sup>* r0 (j_accounts k) \<and> sl_accounts s = commitment (env_b3 E) r0"
    using assms(1,3) unfolding seal_true_def by (metis rtranclp_trans)
  ultimately show ?thesis
    using pd(4-7) pd' assms(2) by (auto simp: seal_true_def)
qed

lemma inv_master_data:
  assumes "journal_inv E j" "registry_step\<^sup>*\<^sup>* (j_accounts j) r" "calendar_step\<^sup>*\<^sup>* (j_calendar j) c"
  shows "journal_inv E (j\<lparr>j_accounts := r, j_calendar := c, j_policy := pol\<rparr>)"
proof -
  note i = journal_invD [OF assms(1)]
  let ?k = "j\<lparr>j_accounts := r, j_calendar := c, j_policy := pol\<rparr>"
  have "reachable_registry r" "reachable_calendar c"
    using i(5,6) assms(2,3) by (auto simp: reachable_registry_def reachable_calendar_def intro: rtranclp_trans)
  moreover have "seal_true E ?k s" if "s \<in> set (ch_seals (j_seals j))" for s
    using i(9) [OF that] assms(2,3) i(6) by (intro seal_true_base [of E j s ?k]) auto
  moreover have "journal_posting ?k = journal_posting j" by (rule journal_posting_cong) simp_all
  moreover have "derived_ok E ?k" using i(1) by (simp add: derived_ok_def)
  ultimately show ?thesis using assms(1) by (simp add: journal_inv_def)
qed

text \<open>Recording.\<close>

lemma was_sealed_sound: "was_sealed E e \<Longrightarrow> sound_entry e"
  by (auto simp: was_sealed_iff entry_ok_def sound_entry_def posting_ok_def)

lemma sealed_entry:
  assumes "entry_seal E (journal_context j) e = Ok e'"
  shows "e' = e" "sound_entry e"
  using assms was_sealed_sound by (auto simp: entry_seal_Ok was_sealed_iff)

lemma record_new_inv:
  assumes "journal_inv E j" "length (j_entries j) < u64_max" "sound_entry e"
    and "appendable E j e after" "append_entry E e after j = (i, j')"
  shows "journal_inv E j'"
proof -
  note inv = journal_invD [OF assms(1)]
  have g: "good_log (env_b3 E) (j_log j)" "log_len (j_log j) < u64_max"
    using derived_okD(4) [OF inv(1)] assms(2) by (simp_all add: log_ok_def log_len_def)
  note st = append_entry_state [OF g assms(5)]
  have d': "derived_ok E j'" by (rule append_derived_ok [OF inv(1) assms(2,4,5)])
  have links: "reversal_links (j_entries j')"
    unfolding reversal_links_def st(2)
  proof (intro allI impI)
    fix n original
    assume n: "n < length (j_entries j @ [e])" and rev: "e_reverses ((j_entries j @ [e]) ! n) = Some original"
    let ?es = "j_entries j" and ?P = "\<lambda>xs m n. e_id (xs ! m) = original \<and> e_reverses (xs ! m) = None \<and> is_inversion_of (xs ! m) (xs ! n)"
    show "\<exists>m<n. ?P (?es @ [e]) m n"
    proof (cases "n < length ?es")
      case True
      then obtain m where "m < n" "?P ?es m n" using inv(4) rev unfolding reversal_links_def by (metis nth_append)
      then show ?thesis using True by (intro exI [of _ m]) (simp add: nth_append)
    next
      case False
      then have n': "n = length ?es" "e_reverses e = Some original" using n rev by (auto simp: nth_append)
      then have "check_reversal j e original = Ok ()" using assms(4) by (simp add: appendable_def)
      then obtain target where t: "entry_get j original = Some target" "e_reverses target = None" "is_inversion_of target e"
        by (auto simp: check_reversal_Ok)
      then obtain m where "m < length ?es" "?es ! m = target" "e_id target = original"
        using derived_okD(1) [OF inv(1)] by (auto simp: entry_get_def bind_eq_Some_conv entry_at_def ids_ok_def split: if_splits)
      then show ?thesis using t n' by (intro exI [of _ m]) (auto simp: nth_append)
    qed
  qed
  have seals: "seal_true E j' s" if "s \<in> set (ch_seals (j_seals j))" for s
  proof -
    have s: "seal_true E j s" by (rule inv(9) [OF that])
    then show ?thesis by (fastforce simp: seal_true_def st)
  qed
  have "journal_grows j j'"
    using derived_okD(1) [OF inv(1)] derived_okD(1) [OF d'] st(2) by (auto simp: journal_grows_def)
  from jp.register_ok_grows [OF this inv(10)] have "register_ok (journal_posting j') (clearings j')" using st by simp
  then show ?thesis
    using d' links seals inv assms(2,3) st by (auto simp: journal_inv_def)
qed

lemma record_validated_inv:
  assumes "journal_inv E j" "length (j_entries j) < u64_max" "sound_entry e"
    and "record_validated E e j = (res, j')"
  shows "journal_inv E j'"
proof (cases res)
  case (Inl x)
  then show ?thesis using record_validated_Err [of E e j x j'] assms(1,4) by simp
next
  case (Inr r)
  show ?thesis using assms(4) unfolding Inr
  proof (cases rule: record_validated_cases)
    case (new after i)
    then show ?thesis using record_new_inv [OF assms(1-3)] by blast
  qed (use assms(1) in simp)
qed

lemma record_draft_inv:
  assumes "journal_inv E j" "length (j_entries j) < u64_max"
  shows "journal_inv E (snd (record_draft E e j))"
proof (cases "bt_get (j_by_key j) (e_key e)")
  case (Some found)
  then show ?thesis using assms(1) by (simp add: record_draft_def)
next
  case None
  show ?thesis
  proof (cases "entry_seal E (journal_context j) e")
    case (Inl errs)
    then show ?thesis using assms(1) None by (simp add: record_draft_def)
  next
    case (Inr e')
    obtain res j' where r: "record_validated E e j = (res, j')" by fastforce
    note s = sealed_entry [OF Inr]
    have "journal_inv E j'" by (rule record_validated_inv [OF assms s(2) r])
    then show ?thesis using None Inr s(1) r by (simp add: record_draft_def)
  qed
qed

lemma record_all_inv:
  assumes "journal_inv E j" "\<forall>e\<in>set es. sound_entry e"
    and "length (j_entries j) + length es \<le> u64_max" "record_all E mark out es j = (Ok rs, j')"
  shows "journal_inv E j'"
  using assms
proof (induction es arbitrary: j out)
  case (Cons e es)
  obtain res j1 where r: "record_validated E e j = (res, j1)" by fastforce
  then obtain rec where rec: "res = Ok rec" using Cons.prems(4) by (cases res) auto
  have small: "length (j_entries j) < u64_max" using Cons.prems(3) by simp
  note g = record_validated_grows [OF journal_invD(1) [OF Cons.prems(1)] small r]
  have "journal_inv E j1" using Cons.prems(2) by (intro record_validated_inv [OF Cons.prems(1) small _ r]) auto
  moreover have "\<forall>f\<in>set es. sound_entry f" using Cons.prems(2) by simp
  moreover have "length (j_entries j1) + length es \<le> u64_max" using g(3) Cons.prems(3) by auto
  moreover have "record_all E mark (out @ [rec]) es j1 = (Ok rs, j')" using Cons.prems(4) r rec by simp
  ultimately show ?case by (rule Cons.IH)
qed simp

lemma sealed_entries: "\<forall>e\<in>set es. was_sealed E e \<Longrightarrow> \<forall>e\<in>set es. sound_entry e"
  using was_sealed_sound by blast

lemma record_batch_inv:
  assumes "journal_inv E j" "\<forall>e\<in>set es. was_sealed E e" "length (j_entries j) + length es \<le> u64_max"
  shows "journal_inv E (snd (record_batch E es j))"
proof -
  obtain res j' where r: "record_batch E es j = (res, j')" by fastforce
  note inv = journal_invD [OF assms(1)]
  show ?thesis
  proof (cases res)
    case (Inl x)
    then show ?thesis
      using record_batch_outcome(1) [OF inv(1) _ sealed_entries [OF assms(2)] assms(3) r Inl] inv(2) r assms(1) by simp
  next
    case (Inr rs)
    then show ?thesis
      using record_all_inv [OF assms(1) sealed_entries [OF assms(2)] assms(3)] r by (simp add: record_batch_def)
  qed
qed

text \<open>Clearing.\<close>

lemma inv_clearings:
  assumes "journal_inv E j" "register_ok (journal_posting j) r"
  shows "journal_inv E (j\<lparr>clearings := r\<rparr>)"
proof -
  have "journal_posting (j\<lparr>clearings := r\<rparr>) = journal_posting j" by (rule journal_posting_cong) simp_all
  then show ?thesis using assms by (simp add: journal_inv_def derived_ok_def seal_true_def)
qed

lemma clear_inv: "journal_inv E j \<Longrightarrow> journal_inv E (snd (clear E c j))"
proof -
  assume inv: "journal_inv E j"
  obtain res r where r: "clear_register E c (journal_posting j) (clearings j) = (res, r)" by fastforce
  then have "register_ok (journal_posting j) r"
    using journal_invD(10) [OF inv]
    by (cases res) (auto dest: clear_register_Err clear_register_inv(1) [OF journal_invD(10) [OF inv]])
  then show ?thesis using inv_clearings [OF inv] r by (simp add: clear_def)
qed

lemma reset_inv: "journal_inv E j \<Longrightarrow> journal_inv E (snd (reset_clearing i on j))"
proof -
  assume inv: "journal_inv E j"
  obtain res r where r: "reset_register i on (clearings j) = (res, r)" by fastforce
  then have "register_ok (journal_posting j) r"
    using journal_invD(10) [OF inv]
    by (cases res) (auto dest: reset_register_Err reset_register_inv(1) [OF journal_invD(10) [OF inv]])
  then show ?thesis using inv_clearings [OF inv] r by (simp add: reset_clearing_def)
qed

section \<open>Sealing a period\<close>

lemma through_total:
  assumes "journal_inv E j"
  shows "\<exists>tb. trial_balance_through_date j d = Ok tb \<and> shows_postings tb (all_postings (through d (j_entries j)))"
proof -
  note inv = journal_invD [OF assms]
  have pos: "\<forall>p\<in>set (all_postings es). 0 < amt (p_amount p)" if "set es \<subseteq> set (j_entries j)" for es
    using inv(2) that by (auto simp: all_postings_def sound_entry_def)
  have sub: "moved s key (all_postings (through d es)) \<le> moved s key (all_postings es)" if "set es \<subseteq> set (j_entries j)" for s key es
    using that
  proof (induction es)
    case (Cons e es)
    then have "0 \<le> moved s key (e_postings e)" using inv(2) [of e] by (intro moved_nonneg) (auto simp: sound_entry_def)
    then show ?case using Cons by (simp add: through_def)
  qed (simp add: through_def)
  have "moved s key (all_postings (j_entries j)) \<le> i64_max" for s key
    using shows_side [OF derived_okD(5) [OF inv(1)], of s key] in_i64_le [OF side_in_range, of s "tb_get_or_zero (balances j) key"] by simp
  then have "moved s key (all_postings (through d (j_entries j))) \<le> i64_max" for s key
    using order_trans [OF sub [OF order_refl]] by blast
  moreover have "\<forall>p\<in>set (all_postings (through d (j_entries j))). 0 < amt (p_amount p)"
    using pos [of "through d (j_entries j)"] by (simp add: through_def)
  ultimately have "\<exists>tb. apply_postings bt_empty (all_postings (through d (j_entries j))) = Ok tb"
    using apply_postings_total [OF shows_empty, of "all_postings (through d (j_entries j))"] by simp
  then obtain tb where tb: "apply_postings bt_empty (all_postings (through d (j_entries j))) = Ok tb" ..
  then show ?thesis using apply_postings_shows [OF shows_empty tb] by (simp add: trial_balance_through_date_def through_def)
qed

lemma journal_head_eq:
  assumes "derived_ok E j"
  shows "journal_head E j = \<lparr>th_size = length (j_entries j), th_root = mth (env_b3 E) (map (content_hash E) (j_entries j))\<rparr>"
  using derived_okD(4) [OF assms] good_log_accessors(1) [of "env_b3 E" "j_log j"]
  by (simp add: journal_head_def log_head_def log_ok_def log_len_def)

text \<open>The seal a sealable period gets, and that the chain takes it.\<close>

definition period_seal :: "env \<Rightarrow> journal \<Rightarrow> period_id \<Rightarrow> period \<Rightarrow> trial_balance \<Rightarrow> seal" where
  "period_seal E j i p closing =
     seal_build E (j_ledger j) i (coverage j (pd_start p) (pd_end p)) (journal_head E j) closing
       (commitment (env_b3 E) (j_accounts j)) (chain_head (j_seals j))"

lemma seal_build_fields [simp]:
  "sl_ledger (seal_build E l i cov h tb a prev) = l" "sl_period (seal_build E l i cov h tb a prev) = i"
  "sl_tree_head (seal_build E l i cov h tb a prev) = h" "sl_trial_balance (seal_build E l i cov h tb a prev) = trial_balance_head E tb"
  "sl_accounts (seal_build E l i cov h tb a prev) = a" "sl_prev (seal_build E l i cov h tb a prev) = prev"
  "is_self_consistent (env_b3 E) (seal_build E l i cov h tb a prev)"
  by (simp_all add: seal_build_def Let_def is_self_consistent_def compute_hash_def enc_seal_def)

lemma chain_takes_seal:
  assumes "journal_inv E j" "check_sealable (j_calendar j) i = Ok p"
  shows "check_link (env_b3 E) (ch_ledger (j_seals j)) (ch_periods (j_seals j)) (last_seal (ch_seals (j_seals j)))
    (period_seal E j i p closing) = Ok ()"
proof -
  note inv = journal_invD [OF assms(1)]
  let ?s = "period_seal E j i p closing" and ?ss = "ch_seals (j_seals j)"
  have new: "i \<notin> ch_periods (j_seals j)"
  proof
    assume "i \<in> ch_periods (j_seals j)"
    then obtain s where s: "s \<in> set ?ss" "sl_period s = i" using inv(8) by (auto simp: chain_ok_def)
    then obtain pd w where "cal_get (j_calendar j) i = Some pd" "sealed_through (j_calendar j) = Some w" "pd_end pd \<le> w"
      using inv(9) [OF s(1)] by (auto simp: seal_true_def)
    then show False using check_sealable_parts [OF assms(2)] by auto
  qed
  show ?thesis
  proof (cases "?ss = []")
    case True
    then show ?thesis using new inv(7) by (simp add: period_seal_def check_link_def chain_head_def last_seal_def)
  next
    case False
    let ?l = "last ?ss"
    have l: "seal_true E j ?l" using inv(9) False by simp
    obtain r0 where r0: "reachable_registry r0" "registry_step\<^sup>*\<^sup>* r0 (j_accounts j)" "sl_accounts ?l = commitment (env_b3 E) r0"
      using l by (auto simp: seal_true_def)
    have "th_size (sl_tree_head ?l) \<le> th_size (journal_head E j)"
      using l by (auto simp: seal_true_def journal_head_eq [OF inv(1)])
    moreover have "th_size (sl_accounts ?l) \<le> th_size (commitment (env_b3 E) (j_accounts j))"
      using registry_steps_inv [OF r0(2) reachable_inv [OF r0(1)]]
      by (simp add: r0(3) commitment_head [OF reachable_inv [OF r0(1)]] commitment_head [OF reachable_inv [OF inv(5)]] extends_def)
    ultimately show ?thesis
      using False new inv(7) by (simp add: period_seal_def check_link_def chain_head_def last_seal_def)
  qed
qed

lemma seal_period_Ok:
  assumes "journal_inv E j" "check_sealable (j_calendar j) i = Ok p"
  obtains closing c where "trial_balance_through_date j (pd_end p) = Ok closing"
    "seal_period E i j = (Ok (period_seal E j i p closing),
       j\<lparr>j_seals := (j_seals j)\<lparr>ch_periods := insert i (ch_periods (j_seals j)), ch_seals := ch_seals (j_seals j) @ [period_seal E j i p closing]\<rparr>,
         j_calendar := c\<rparr>)"
    "transition i Sealed (j_calendar j) = (Ok (), c)" "sealed_through c = Some (pd_end p)" "cal_get c i = Some (p\<lparr>pd_state := Sealed\<rparr>)"
proof -
  obtain closing where c: "trial_balance_through_date j (pd_end p) = Ok closing" using through_total [OF assms(1)] by blast
  obtain c' where t: "transition i Sealed (j_calendar j) = (Ok (), c')" "sealed_through c' = Some (pd_end p)" "cal_get c' i = Some (p\<lparr>pd_state := Sealed\<rparr>)"
    using seal_transition [OF assms(2)] .
  have push: "chain_push (env_b3 E) (period_seal E j i p closing) (j_seals j) =
      (Ok (), (j_seals j)\<lparr>ch_periods := insert i (ch_periods (j_seals j)), ch_seals := ch_seals (j_seals j) @ [period_seal E j i p closing]\<rparr>)"
    using chain_takes_seal [OF assms] by (simp add: chain_push_def) (simp add: period_seal_def)
  show ?thesis
    using that [OF c _ t] push c t(1) assms(2) by (simp add: seal_period_def Let_def flip: period_seal_def)
qed

lemma seal_period_Err:
  assumes "check_sealable (j_calendar j) i = Err x"
  shows "seal_period E i j = (Err (JournalPeriod x), j)"
  by (simp add: seal_period_def assms)

lemma seal_period_inv: "journal_inv E j \<Longrightarrow> journal_inv E (snd (seal_period E i j))"
proof (cases "check_sealable (j_calendar j) i")
  case (Inl x)
  moreover assume "journal_inv E j"
  ultimately show ?thesis by (simp add: seal_period_Err)
next
  case (Inr p)
  assume inv: "journal_inv E j"
  note i = journal_invD [OF inv]
  obtain closing c where run: "trial_balance_through_date j (pd_end p) = Ok closing"
    "seal_period E i j = (Ok (period_seal E j i p closing),
       j\<lparr>j_seals := (j_seals j)\<lparr>ch_periods := insert i (ch_periods (j_seals j)), ch_seals := ch_seals (j_seals j) @ [period_seal E j i p closing]\<rparr>,
         j_calendar := c\<rparr>)"
    "transition i Sealed (j_calendar j) = (Ok (), c)" "sealed_through c = Some (pd_end p)" "cal_get c i = Some (p\<lparr>pd_state := Sealed\<rparr>)"
    using seal_period_Ok [OF inv Inr] .
  let ?s = "period_seal E j i p closing"
  let ?ch = "(j_seals j)\<lparr>ch_periods := insert i (ch_periods (j_seals j)), ch_seals := ch_seals (j_seals j) @ [?s]\<rparr>"
  let ?j = "j\<lparr>j_seals := ?ch, j_calendar := c\<rparr>"
  have step: "calendar_step (j_calendar j) c" using step_transition [of "j_calendar j" i Sealed] run(3) by simp
  have cal: "reachable_calendar c" using i(6) step by (auto simp: reachable_calendar_def)
  have chain: "chain_ok (env_b3 E) ?ch"
    using chain_takes_seal [OF inv Inr, of closing] i(8)
    by (auto simp: chain_ok_def linked_snoc last_seal_def period_seal_def)
  have old: "seal_true E ?j s" if "s \<in> set (ch_seals (j_seals j))" for s
    using step i(6) by (intro seal_true_base [OF i(9) [OF that]]) auto
  have new: "seal_true E ?j ?s"
    unfolding seal_true_def
  proof (rule conjI)
    show "\<exists>pd w n tb. cal_get (j_calendar ?j) (sl_period ?s) = Some pd \<and> sealed_through (j_calendar ?j) = Some w \<and> pd_end pd \<le> w
        \<and> n \<le> length (j_entries ?j)
        \<and> sl_tree_head ?s = \<lparr>th_size = n, th_root = mth (env_b3 E) (map (content_hash E) (take n (j_entries ?j)))\<rparr>
        \<and> apply_postings bt_empty (all_postings (through (pd_end pd) (take n (j_entries ?j)))) = Ok tb
        \<and> sl_trial_balance ?s = trial_balance_head E tb"
      using run(1,4,5)
      by (intro exI [of _ "p\<lparr>pd_state := Sealed\<rparr>"] exI [of _ "pd_end p"] exI [of _ "length (j_entries j)"] exI [of _ closing])
        (simp add: period_seal_def journal_head_eq [OF i(1)] trial_balance_through_date_def through_def)
    show "\<exists>r0. reachable_registry r0 \<and> registry_step\<^sup>*\<^sup>* r0 (j_accounts ?j) \<and> sl_accounts ?s = commitment (env_b3 E) r0"
      using i(5) by (intro exI [of _ "j_accounts j"]) (simp add: period_seal_def)
  qed
  have "journal_posting ?j = journal_posting j" by (rule journal_posting_cong) simp_all
  then have "journal_inv E ?j"
    using inv cal chain old new by (simp add: journal_inv_def derived_ok_def)
  then show ?thesis using run(2) by simp
qed

section \<open>The invariant holds of every reachable journal\<close>

lemma journal_step_inv: "journal_step E j k \<Longrightarrow> journal_inv E j \<Longrightarrow> journal_inv E k"
proof (induction rule: journal_step.induct)
  case (step_accounts j r)
  then show ?case using inv_master_data [of E j r "j_calendar j" "j_policy j"] by auto
next
  case (step_calendar j c)
  then show ?case using inv_master_data [of E j "j_accounts j" c "j_policy j"] by auto
next
  case (step_policy j policy)
  then show ?case using inv_master_data [of E j "j_accounts j" "j_calendar j" policy] by (auto simp: with_policy_def)
qed (auto intro: record_draft_inv record_batch_inv clear_inv reset_inv seal_period_inv)

lemma journal_steps_inv: "(journal_step E)\<^sup>*\<^sup>* j k \<Longrightarrow> journal_inv E j \<Longrightarrow> journal_inv E k"
  by (induction rule: rtranclp_induct) (auto dest: journal_step_inv)

lemma reachable_journal_inv: "reachable_journal E ledger j \<Longrightarrow> journal_inv E j"
  using journal_steps_inv [OF _ journal_inv_new] by (simp add: reachable_journal_def)

end
