(* ===== verification/Journal_Record.thy ===== *)
theory Journal_Record
  imports Journal_Steps "HOL-Library.Sublist"
begin

text \<open>
  What recording accepts, in terms of the entries alone, and what a step of the journal appends: a draft that
  was valid at that moment, or entries of a batch, valid when they were sealed.
\<close>

section \<open>Entries are only appended\<close>

lemma record_draft_grows:
  assumes "journal_inv E j" "length (j_entries j) < u64_max" "record_draft E e j = (res, k)"
  shows "k = j \<or> j_entries k = j_entries j @ [e] \<and> entry_ok (journal_context j) e \<and> same_rest k j"
proof (cases "bt_get (j_by_key j) (e_key e)")
  case (Some found)
  then show ?thesis using assms(3) by (simp add: record_draft_def)
next
  case None
  show ?thesis
  proof (cases "entry_seal E (journal_context j) e")
    case (Inl errs)
    then show ?thesis using assms(3) None by (simp add: record_draft_def)
  next
    case (Inr e')
    then have e: "e' = e" "entry_ok (journal_context j) e" by (simp_all add: entry_seal_Ok)
    then have r: "record_validated E e j = (res, k)" using assms(3) None Inr by (simp add: record_draft_def)
    note g = record_validated_grows [OF journal_invD(1) [OF assms(1)] assms(2) r]
    show ?thesis
    proof (cases "j_entries k = j_entries j")
      case True
      then have "k = j" using g(1,2) journal_invD(1) [OF assms(1)] by (intro derived_unique [of E]) (simp_all add: same_rest_def)
      then show ?thesis ..
    qed (use g e in auto)
  qed
qed

lemma record_all_grows:
  assumes "derived_ok E j" "length (j_entries j) + length es \<le> u64_max" "record_all E mark out es j = (Ok rs, k)"
  shows "\<exists>more. j_entries k = j_entries j @ more \<and> subseq more es \<and> same_rest k j"
  using assms
proof (induction es arbitrary: j out)
  case (Cons e es)
  obtain res j1 where r: "record_validated E e j = (res, j1)" by fastforce
  then obtain rec where rec: "res = Ok rec" using Cons.prems(3) by (cases res) auto
  have small: "length (j_entries j) < u64_max" using Cons.prems(2) by simp
  note g = record_validated_grows [OF Cons.prems(1) small r]
  have "record_all E mark (out @ [rec]) es j1 = (Ok rs, k)" using Cons.prems(3) r rec by simp
  moreover have "length (j_entries j1) + length es \<le> u64_max" using g(3) Cons.prems(2) by auto
  ultimately obtain more where more: "j_entries k = j_entries j1 @ more" "subseq more es" "same_rest k j1" using Cons.IH g(1) by blast
  then have "j_entries k = j_entries j @ more \<or> j_entries k = j_entries j @ (e # more)" using g(3) by auto
  moreover have "same_rest k j" using more(3) g(2) same_rest_trans by blast
  moreover have "subseq more (e # es)" "subseq (e # more) (e # es)" using more(2) by auto
  ultimately show ?case by blast
qed (simp add: same_rest_def)

lemma seal_period_entries: "j_entries (snd (seal_period E i j)) = j_entries j"
  by (simp add: seal_period_def Let_def split: sum.splits prod.splits)

lemma subseq_members: "subseq xs ys \<Longrightarrow> set xs \<subseteq> set ys"
  by (induction rule: list_emb.induct) auto

lemma batch_grows:
  assumes "journal_inv E j" "\<forall>e\<in>set es. was_sealed E e" "length (j_entries j) + length es \<le> u64_max"
  shows "\<exists>more. j_entries (snd (record_batch E es j)) = j_entries j @ more \<and> subseq more es \<and> same_rest (snd (record_batch E es j)) j"
proof -
  obtain res k where r: "record_batch E es j = (res, k)" by fastforce
  note inv = journal_invD [OF assms(1)]
  show ?thesis
  proof (cases res)
    case (Inl x)
    then have "k = j"
      using record_batch_outcome(1) [OF inv(1) _ sealed_entries [OF assms(2)] assms(3) r Inl] inv(2) by simp
    then show ?thesis using r by (simp add: same_rest_def)
  next
    case (Inr rs)
    then have "record_all E (length (j_entries j)) [] es j = (Ok rs, k)" using r by (simp add: record_batch_def)
    from record_all_grows [OF inv(1) assms(3) this] show ?thesis using r by simp
  qed
qed

lemma step_appends:
  assumes "journal_step E j k" "journal_inv E j"
  shows "\<exists>more. j_entries k = j_entries j @ more \<and> (\<forall>e\<in>set more. was_sealed E e)
    \<and> ((\<forall>e\<in>set more. entry_ok (journal_context j) e) \<or> (\<exists>es. k = snd (record_batch E es j) \<and> subseq more es))"
  using assms
proof (cases rule: journal_step.cases)
  case (step_record e)
  obtain res k' where r: "record_draft E e j = (res, k')" by fastforce
  then have "k = k'" using step_record by simp
  then show ?thesis using record_draft_grows [OF assms(2) step_record(2) r] by (auto simp: was_sealed_iff)
next
  case (step_batch es)
  obtain more where more: "j_entries k = j_entries j @ more" "subseq more es"
    using batch_grows [OF assms(2) step_batch(2,3)] step_batch(1) by auto
  then have "\<forall>e\<in>set more. was_sealed E e" using step_batch(2) subseq_members by blast
  then show ?thesis using more step_batch(1) by blast
next
  case (step_seal i)
  then show ?thesis by (simp add: seal_period_entries)
qed (auto simp: with_policy_def clear_def reset_clearing_def split: prod.splits)

text \<open>
  The steps that \<^verbatim>\<open>record_validated\<close> asks its callers for: what is recorded is valid for the journal it is
  recorded in. Every step is one but a batch with entries whose day, accounts or policy have changed since.
\<close>

definition current_step :: "env \<Rightarrow> journal \<Rightarrow> journal \<Rightarrow> bool" where
  "current_step E j k \<longleftrightarrow> journal_step E j k
     \<and> (\<forall>e\<in>set (drop (length (j_entries j)) (j_entries k)). entry_ok (journal_context j) e)"

lemma current_or_batch:
  assumes "journal_step E j k" "journal_inv E j"
  shows "current_step E j k \<or> (\<exists>es. k = snd (record_batch E es j) \<and> (\<exists>e\<in>set es. was_sealed E e \<and> \<not> entry_ok (journal_context j) e))"
proof -
  obtain more where more: "j_entries k = j_entries j @ more" "\<forall>e\<in>set more. was_sealed E e"
    "(\<forall>e\<in>set more. entry_ok (journal_context j) e) \<or> (\<exists>es. k = snd (record_batch E es j) \<and> subseq more es)"
    using step_appends [OF assms] by blast
  show ?thesis
  proof (cases "\<forall>e\<in>set more. entry_ok (journal_context j) e")
    case False
    then obtain e es where "e \<in> set more" "\<not> entry_ok (journal_context j) e" "k = snd (record_batch E es j)" "subseq more es"
      using more(3) by blast
    then show ?thesis using more(2) subseq_members by blast
  qed (use assms(1) more(1) in \<open>simp add: current_step_def\<close>)
qed

lemma current_steps: "(current_step E)\<^sup>*\<^sup>* j k \<Longrightarrow> (journal_step E)\<^sup>*\<^sup>* j k"
  by (rule rtranclp_mono [THEN predicate2D]) (auto simp: current_step_def)

lemma steps_append:
  assumes "(journal_step E)\<^sup>*\<^sup>* j k" "journal_inv E j"
  shows "\<exists>more. j_entries k = j_entries j @ more"
  using assms
proof (induction rule: rtranclp_induct)
  case (step k l)
  then show ?case using step_appends [OF step(2)] journal_steps_inv [OF step(1)] by fastforce
qed simp

section \<open>What is accepted\<close>

definition within_limit :: "balance_limit \<Rightarrow> posting list \<Rightarrow> balance_key \<Rightarrow> bool" where
  "within_limit l ps key =
     (case l of
        Unlimited \<Rightarrow> True
      | NoCreditBalance \<Rightarrow> moved Credit key ps \<le> moved Debit key ps
      | NoDebitBalance \<Rightarrow> moved Debit key ps \<le> moved Credit key ps)"

definition reversal_allowed :: "entry list \<Rightarrow> entry \<Rightarrow> bool" where
  "reversal_allowed es e \<longleftrightarrow> (\<forall>original. e_reverses e = Some original \<longrightarrow>
     (\<exists>t\<in>set es. e_id t = original \<and> e_reverses t = None \<and> is_inversion_of t e)
     \<and> (\<forall>f\<in>set es. e_reverses f \<noteq> Some original))"

definition recordable :: "journal \<Rightarrow> entry \<Rightarrow> bool" where
  "recordable j e \<longleftrightarrow>
     entry_ok (journal_context j) e \<and> e_id e \<notin> e_id ` set (j_entries j) \<and> reversal_allowed (j_entries j) e
     \<and> (\<forall>key d. moved d key (all_postings (j_entries j @ [e])) \<le> i64_max)
     \<and> (\<forall>key\<in>keys_of (e_postings e). within_limit (limit_of (j_accounts j) (k_account key)) (all_postings (j_entries j @ [e])) key)"

text \<open>The part of it that does not depend on the calendar and the policy: all that \<^verbatim>\<open>record_validated\<close> looks at.\<close>

definition bookable :: "registry \<Rightarrow> entry list \<Rightarrow> entry \<Rightarrow> bool" where
  "bookable accts es e \<longleftrightarrow>
     e_id e \<notin> e_id ` set es \<and> reversal_allowed es e
     \<and> (\<forall>key d. moved d key (all_postings (es @ [e])) \<le> i64_max)
     \<and> (\<forall>key\<in>keys_of (e_postings e). within_limit (limit_of accts (k_account key)) (all_postings (es @ [e])) key)"

lemma recordable_iff: "recordable j e \<longleftrightarrow> entry_ok (journal_context j) e \<and> bookable (j_accounts j) (j_entries j) e"
  by (simp add: recordable_def bookable_def)

lemma permits_within:
  assumes "\<And>d. side d b = moved d key ps"
  shows "permits l b \<longleftrightarrow> within_limit l ps key"
  using assms [of Debit] assms [of Credit] by (simp add: permits_def within_limit_def side_def amt_le split: balance_limit.split)

lemma check_limit_Ok: "check_limit E j after key = Ok u \<longleftrightarrow> permits (limit_of (j_accounts j) (k_account key)) (tb_get_or_zero after key)"
  by (simp add: check_limit_def Let_def is_unlimited_def permits_def)

lemma check_limits_Ok:
  "check_limits E j e after = Ok u \<longleftrightarrow>
     (\<forall>key\<in>keys_of (e_postings e). permits (limit_of (j_accounts j) (k_account key)) (tb_get_or_zero after key))"
proof -
  let ?step = "\<lambda>seen p. let key = key_of_posting p in
         if key \<in> set seen then Ok seen else bindR (check_limit E j after key) (\<lambda>_. Ok (key # seen))"
  let ?ok = "\<lambda>key. permits (limit_of (j_accounts j) (k_account key)) (tb_get_or_zero after key)"
  have "(\<exists>out. try_fold ?step seen ps = Ok out) \<longleftrightarrow> (\<forall>key\<in>keys_of ps. ?ok key)" if "\<forall>key\<in>set seen. ?ok key" for seen ps
    using that
  proof (induction ps arbitrary: seen)
    case (Cons p ps)
    show ?case
    proof (cases "key_of_posting p \<in> set seen")
      case True
      then show ?thesis using Cons by (auto simp: Let_def)
    next
      case False
      then show ?thesis using Cons.IH [of "key_of_posting p # seen"] Cons.prems by (auto simp: Let_def check_limit_Ok)
    qed
  qed simp
  from this [of "[]" "e_postings e"] show ?thesis by (simp add: check_limits_def)
qed

lemma ids_absent: "ids_ok es m \<Longrightarrow> \<not> bt_contains m i \<longleftrightarrow> i \<notin> e_id ` set es"
  unfolding ids_ok_def bt_contains_def by (metis (no_types, lifting) image_iff in_set_conv_nth option.exhaust option.distinct(1))

lemma keys_absent: "keys_ok E es m \<Longrightarrow> bt_get m k = None \<longleftrightarrow> k \<notin> e_key ` set es"
  unfolding keys_ok_def by (metis (no_types, lifting) image_iff in_set_conv_nth option.exhaust option.distinct(1))

lemma reversal_absent: "reversals_ok es m \<Longrightarrow> bt_get m original = None \<longleftrightarrow> (\<forall>f\<in>set es. e_reverses f \<noteq> Some original)"
  unfolding reversals_ok_def by (metis in_set_conv_nth option.exhaust option.distinct(1))

lemma entry_get_Some:
  assumes "ids_ok (j_entries j) (j_by_id j)"
  shows "entry_get j i = Some e \<longleftrightarrow> e \<in> set (j_entries j) \<and> e_id e = i"
proof
  assume "entry_get j i = Some e"
  then show "e \<in> set (j_entries j) \<and> e_id e = i"
    using assms by (auto simp: entry_get_def bind_eq_Some_conv ids_ok_def entry_at_def split: if_splits)
next
  assume "e \<in> set (j_entries j) \<and> e_id e = i"
  then obtain n where "n < length (j_entries j)" "j_entries j ! n = e" "e_id e = i" by (auto simp: in_set_conv_nth)
  moreover from this have "bt_get (j_by_id j) i = Some n" using assms by (simp add: ids_ok_def)
  ultimately show "entry_get j i = Some e" by (simp add: entry_get_def entry_at_def)
qed

lemma reversal_check:
  assumes "derived_ok E j"
  shows "(\<forall>original. e_reverses e = Some original \<longrightarrow> check_reversal j e original = Ok ()) \<longleftrightarrow> reversal_allowed (j_entries j) e"
  using derived_okD(1,3) [OF assms]
  by (auto simp: reversal_allowed_def check_reversal_Ok entry_get_Some reversal_absent)

lemma applied_sums:
  assumes "derived_ok E j" "\<forall>f\<in>set (j_entries j). sound_entry f" "sound_entry e"
  shows "(\<exists>after. apply_postings (balances j) (e_postings e) = Ok after)
    \<longleftrightarrow> (\<forall>key d. moved d key (all_postings (j_entries j @ [e])) \<le> i64_max)"
proof
  assume "\<exists>after. apply_postings (balances j) (e_postings e) = Ok after"
  then obtain after where "apply_postings (balances j) (e_postings e) = Ok after" ..
  then have "shows_postings after (all_postings (j_entries j @ [e]))"
    using apply_postings_shows [OF derived_okD(5) [OF assms(1)]] by simp
  then show "\<forall>key d. moved d key (all_postings (j_entries j @ [e])) \<le> i64_max"
    using shows_side in_i64_le [OF side_in_range] by metis
next
  assume "\<forall>key d. moved d key (all_postings (j_entries j @ [e])) \<le> i64_max"
  moreover have "\<forall>p\<in>set (all_postings (j_entries j) @ e_postings e). 0 < amt (p_amount p)"
    using assms(2,3) by (auto simp: all_postings_def sound_entry_def)
  ultimately show "\<exists>after. apply_postings (balances j) (e_postings e) = Ok after"
    using apply_postings_total [OF derived_okD(5) [OF assms(1)], of "e_postings e"] by simp
qed

lemma appendable_iff:
  assumes "journal_inv E j" "sound_entry e" "e_key e \<notin> e_key ` set (j_entries j)"
  shows "(\<exists>after. appendable E j e after) \<longleftrightarrow> bookable (j_accounts j) (j_entries j) e"
proof -
  note inv = journal_invD [OF assms(1)] and d = derived_okD [OF journal_invD(1) [OF assms(1)]]
  have limits: "check_limits E j e after = Ok () \<longleftrightarrow>
      (\<forall>key\<in>keys_of (e_postings e). within_limit (limit_of (j_accounts j) (k_account key)) (all_postings (j_entries j @ [e])) key)"
    if "apply_postings (balances j) (e_postings e) = Ok after" for after
  proof -
    have "shows_postings after (all_postings (j_entries j @ [e]))" using apply_postings_shows [OF d(5) that] by simp
    then have "permits l (tb_get_or_zero after key) \<longleftrightarrow> within_limit l (all_postings (j_entries j @ [e])) key" for l key
      by (intro permits_within shows_side)
    then show ?thesis by (simp add: check_limits_Ok)
  qed
  show ?thesis
    using assms(3) d applied_sums [OF inv(1) _ assms(2)] inv(2) limits
    unfolding appendable_def bookable_def reversal_check [OF inv(1)] keys_absent [OF d(2)] ids_absent [OF d(1)]
    by blast
qed

lemma validated_outcome:
  assumes "journal_inv E j" "length (j_entries j) < u64_max" "sound_entry e" "e_key e \<notin> e_key ` set (j_entries j)"
  shows "if bookable (j_accounts j) (j_entries j) e
    then \<exists>k. record_validated E e j = (Ok \<lparr>rec_id = e_id e, rec_index = Some (length (j_entries j)), rec_hash = content_hash E e, rec_new = True\<rparr>, k)
           \<and> j_entries k = j_entries j @ [e]
    else \<exists>x. record_validated E e j = (Err x, j)"
proof -
  note i = journal_invD [OF assms(1)] and d = derived_okD [OF journal_invD(1) [OF assms(1)]]
  have key: "bt_get (j_by_key j) (e_key e) = None" using assms(4) keys_absent [OF d(2)] by simp
  show ?thesis
  proof (cases "bookable (j_accounts j) (j_entries j) e")
    case True
    obtain after where a: "appendable E j e after" using appendable_iff [OF assms(1,3,4)] True by blast
    obtain n k where k: "append_entry E e after j = (n, k)" by fastforce
    have "log_len (j_log j) < u64_max" "good_log (env_b3 E) (j_log j)" using d(4) assms(2) by (simp_all add: log_ok_def log_len_def)
    then have "j_entries k = j_entries j @ [e]" using append_entry_state(2) k by blast
    moreover have "record_validated E e j = (Ok \<lparr>rec_id = e_id e, rec_index = Some n, rec_hash = content_hash E e, rec_new = True\<rparr>, k)"
      unfolding record_validated_new [of j e E, OF key] using a k by blast
    ultimately show ?thesis using True append_derived_ok(2) [OF i(1) assms(2) a k] by simp
  next
    case False
    obtain res k where r: "record_validated E e j = (res, k)" by fastforce
    have "\<exists>x. record_validated E e j = (Err x, j)"
    proof (cases res)
      case (Inl x)
      then show ?thesis using r record_validated_Err [of E e j x k] by simp
    next
      case (Inr r')
      then have "\<exists>after. appendable E j e after" using r record_validated_new [of j e E r' k, OF key] by blast
      then show ?thesis using appendable_iff [OF assms(1,3,4)] False by simp
    qed
    then show ?thesis using False by simp
  qed
qed

lemma record_outcome:
  assumes "journal_inv E j" "length (j_entries j) < u64_max" "e_key e \<notin> e_key ` set (j_entries j)"
  shows "if recordable j e
    then \<exists>k. record_draft E e j = (Ok \<lparr>rec_id = e_id e, rec_index = Some (length (j_entries j)), rec_hash = content_hash E e, rec_new = True\<rparr>, k)
           \<and> j_entries k = j_entries j @ [e]
    else \<exists>x. record_draft E e j = (Err x, j)"
proof -
  have key: "bt_get (j_by_key j) (e_key e) = None"
    using assms(3) keys_absent [OF derived_okD(2) [OF journal_invD(1) [OF assms(1)]]] by simp
  show ?thesis
  proof (cases "entry_ok (journal_context j) e")
    case True
    then have "sound_entry e" using was_sealed_sound by (auto simp: was_sealed_iff)
    moreover have "record_draft E e j = record_validated E e j"
      using True key by (simp add: record_draft_def entry_seal_Ok [THEN iffD2])
    ultimately show ?thesis using validated_outcome [OF assms(1,2) _ assms(3)] True by (simp add: recordable_iff)
  next
    case False
    then have "entry_seal E (journal_context j) e \<noteq> Ok e" by (simp add: entry_seal_Ok)
    then obtain errs where "entry_seal E (journal_context j) e = Err errs"
      by (auto simp: entry_seal_def Let_def split: if_splits)
    then show ?thesis using key False by (simp add: record_draft_def recordable_def)
  qed
qed

end
