(* ===== verification/Journal_Demo.thy ===== *)
theory Journal_Demo
  imports Journal_Record
begin

text \<open>
  A concrete journal for the examples: two accounts, one period closing and one open, two sales and the
  reversal of the first. Its entries are computed with the recording rules, never by evaluating a hash.
\<close>

definition demo_accounts :: registry where
  "demo_accounts = snd (register (account_new (AccountPath [lit ''B'']) (Date 0))
     (snd (register (account_new (AccountPath [lit ''A'']) (Date 0)) registry_new)))"

definition demo_empty :: journal where
  "demo_empty = (journal_new (LedgerId (Label [76])))\<lparr>j_accounts := demo_accounts, j_calendar := demo_calendar\<rparr>"

definition demo_sale :: "int \<Rightarrow> int \<Rightarrow> int \<Rightarrow> entry" where
  "demo_sale n x day =
     entry_credit (entry_debit (entry_new (EntryId (word_of_int n)) (IdempotencyKey [word_of_int n]) (Date day)) (AccountId 0) (Amount (word_of_int x)) EUR)
       (AccountId 1) (Amount (word_of_int x)) EUR"

definition demo_reversal :: entry where
  "demo_reversal = entry_reverse (demo_sale 1 7 35) (EntryId 3) (IdempotencyKey [3]) (Date 45)"

definition demo_one :: "env \<Rightarrow> journal" where
  "demo_one E = snd (record_draft E (demo_sale 1 7 35) demo_empty)"

definition demo_two :: "env \<Rightarrow> journal" where
  "demo_two E = snd (record_draft E (demo_sale 2 5 40) (demo_one E))"

definition demo_books :: "env \<Rightarrow> journal" where
  "demo_books E = snd (record_draft E demo_reversal (demo_two E))"

lemma demo_accounts_reachable: "registry_step\<^sup>*\<^sup>* registry_new demo_accounts"
proof -
  have "registry_step registry_new (snd (register (account_new (AccountPath [lit ''A'']) (Date 0)) registry_new))"
    by (rule step_register) (simp add: account_new_def)
  moreover have "registry_step (snd (register (account_new (AccountPath [lit ''A'']) (Date 0)) registry_new)) demo_accounts"
    unfolding demo_accounts_def by (rule step_register) (simp add: account_new_def)
  ultimately show ?thesis by auto
qed

lemma demo_empty_reachable: "reachable_journal E (LedgerId (Label [76])) demo_empty"
proof -
  let ?new = "journal_new (LedgerId (Label [76]))"
  have a: "(journal_step E)\<^sup>*\<^sup>* j (j\<lparr>j_accounts := r\<rparr>)" if "registry_step\<^sup>*\<^sup>* (j_accounts j) r" for j r
    using that
  proof (induction rule: rtranclp_induct)
    case (step r s)
    have "journal_step E (j\<lparr>j_accounts := r\<rparr>) ((j\<lparr>j_accounts := r\<rparr>)\<lparr>j_accounts := s\<rparr>)"
      by (rule step_accounts) (simp add: step(2))
    then show ?case using step(3) by simp
  qed simp
  have c: "(journal_step E)\<^sup>*\<^sup>* j (j\<lparr>j_calendar := c\<rparr>)" if "calendar_step\<^sup>*\<^sup>* (j_calendar j) c" for j c
    using that
  proof (induction rule: rtranclp_induct)
    case (step r s)
    have "journal_step E (j\<lparr>j_calendar := r\<rparr>) ((j\<lparr>j_calendar := r\<rparr>)\<lparr>j_calendar := s\<rparr>)"
      by (rule step_calendar) (simp add: step(2))
    then show ?case using step(3) by simp
  qed simp
  have "(journal_step E)\<^sup>*\<^sup>* ?new (?new\<lparr>j_accounts := demo_accounts\<rparr>)"
    using a [of ?new demo_accounts] demo_accounts_reachable by simp
  moreover have "(journal_step E)\<^sup>*\<^sup>* (?new\<lparr>j_accounts := demo_accounts\<rparr>) demo_empty"
    using c [of "?new\<lparr>j_accounts := demo_accounts\<rparr>" demo_calendar] demo_calendar_reachable
    by (simp add: demo_empty_def reachable_calendar_def)
  ultimately show ?thesis by (auto simp: reachable_journal_def)
qed

text \<open>Whether an entry can be recorded next depends on the entries and the master data only.\<close>

lemma demo_record:
  assumes "reachable_journal E ledger j" "j_entries j = es" "recordable (demo_empty\<lparr>j_entries := es\<rparr>) e" "e_key e \<notin> e_key ` set es"
    and "same_rest j demo_empty" "length es < 10" "k = snd (record_draft E e j)"
  shows "reachable_journal E ledger k" "j_entries k = es @ [e]" "same_rest k demo_empty"
    "record_draft E e j = (Ok \<lparr>rec_id = e_id e, rec_index = Some (length es), rec_hash = content_hash E e, rec_new = True\<rparr>, k)"
proof -
  have inv: "journal_inv E j" by (rule reachable_journal_inv [OF assms(1)])
  have small: "length (j_entries j) < u64_max" using assms(2,6) by (simp add: u64_max_def)
  have "recordable j e" using assms(2,3,5) by (simp add: recordable_def journal_context_def same_rest_def)
  then obtain k' where k': "record_draft E e j = (Ok \<lparr>rec_id = e_id e, rec_index = Some (length (j_entries j)), rec_hash = content_hash E e, rec_new = True\<rparr>, k')"
    "j_entries k' = j_entries j @ [e]"
    using record_outcome [OF inv small, of e] assms(2,4) by auto
  show "reachable_journal E ledger k"
    using step_record [OF small, of E e] assms(1,7) unfolding reachable_journal_def by (simp add: rtranclp.rtrancl_into_rtrancl)
  show "j_entries k = es @ [e]" using k' assms(2,7) by simp
  show "same_rest k demo_empty"
    using record_draft_grows [OF inv small k'(1)] assms(5,7) k'(1) same_rest_trans by fastforce
  show "record_draft E e j = (Ok \<lparr>rec_id = e_id e, rec_index = Some (length es), rec_hash = content_hash E e, rec_new = True\<rparr>, k)"
    using k'(1) assms(2,7) by simp
qed

lemma small_sums:
  assumes "\<forall>p\<in>set ps. 0 \<le> amt (p_amount p) \<and> amt (p_amount p) \<le> 100" "length ps \<le> 100"
  shows "moved d key ps \<le> i64_max"
proof -
  have "moved d key ps \<le> 100 * int (length ps)" using assms(1) by (induction ps) auto
  also have "\<dots> \<le> i64_max" using assms(2) by (simp add: i64_max_def)
  finally show ?thesis .
qed

lemma demo_accounts_open:
  "\<exists>a. reg_get demo_accounts (AccountId 0) = Some a \<and> is_leaf demo_accounts (AccountId 0) \<and> is_open_on a (Date 35) \<and> is_open_on a (Date 40) \<and> is_open_on a (Date 45) \<and> a_limit a = Unlimited"
  "\<exists>a. reg_get demo_accounts (AccountId 1) = Some a \<and> is_leaf demo_accounts (AccountId 1) \<and> is_open_on a (Date 35) \<and> is_open_on a (Date 40) \<and> is_open_on a (Date 45) \<and> a_limit a = Unlimited"
proof -
  let ?P = "\<lambda>i. case reg_get demo_accounts i of None \<Rightarrow> False | Some a \<Rightarrow> is_leaf demo_accounts i \<and> is_open_on a (Date 35)
     \<and> is_open_on a (Date 40) \<and> is_open_on a (Date 45) \<and> a_limit a = Unlimited"
  have "?P (AccountId 0)" "?P (AccountId 1)" by code_simp+
  then show "\<exists>a. reg_get demo_accounts (AccountId 0) = Some a \<and> is_leaf demo_accounts (AccountId 0) \<and> is_open_on a (Date 35) \<and> is_open_on a (Date 40) \<and> is_open_on a (Date 45) \<and> a_limit a = Unlimited"
    "\<exists>a. reg_get demo_accounts (AccountId 1) = Some a \<and> is_leaf demo_accounts (AccountId 1) \<and> is_open_on a (Date 35) \<and> is_open_on a (Date 40) \<and> is_open_on a (Date 45) \<and> a_limit a = Unlimited"
    by (auto split: option.splits)
qed

lemma demo_days: "cal_accepts demo_calendar (Date 35)" "cal_accepts demo_calendar (Date 40)" "cal_accepts demo_calendar (Date 45)"
  by code_simp+

lemma demo_sale_fields:
  "e_postings (demo_sale n x day) =
     [\<lparr>p_account = AccountId 0, p_direction = Debit, p_amount = Amount (word_of_int x), p_currency = EUR, p_layer = Settled, p_dimensions = dims_none\<rparr>,
      \<lparr>p_account = AccountId 1, p_direction = Credit, p_amount = Amount (word_of_int x), p_currency = EUR, p_layer = Settled, p_dimensions = dims_none\<rparr>]"
  "e_id (demo_sale n x day) = EntryId (word_of_int n)" "e_key (demo_sale n x day) = IdempotencyKey [word_of_int n]"
  "booking_date (demo_sale n x day) = Date day" "value_date (demo_sale n x day) = Date day" "e_reverses (demo_sale n x day) = None"
  by (simp_all add: demo_sale_def entry_credit_def entry_debit_def entry_new_def post_def posting_debit_def posting_credit_def posting_new_def)

lemma demo_reversal_fields:
  "e_postings demo_reversal = map inverted (e_postings (demo_sale 1 7 35))" "e_id demo_reversal = EntryId 3"
  "e_key demo_reversal = IdempotencyKey [3]" "booking_date demo_reversal = Date 45" "value_date demo_reversal = Date 45"
  "e_reverses demo_reversal = Some (EntryId 1)"
  by (simp_all add: demo_reversal_def reverse_fields demo_sale_fields)

lemma demo_policy: "ctx_policy (journal_context (demo_empty\<lparr>j_entries := es\<rparr>)) = policy_permissive"
    "ctx_accounts (journal_context (demo_empty\<lparr>j_entries := es\<rparr>)) = demo_accounts"
    "ctx_calendar (journal_context (demo_empty\<lparr>j_entries := es\<rparr>)) = demo_calendar"
    "j_accounts (demo_empty\<lparr>j_entries := es\<rparr>) = demo_accounts"
  by (simp_all add: journal_context_def demo_empty_def journal_new_def)

lemma demo_amounts: "amt (Amount 7) = 7" "amt (Amount 5) = 5"
  by code_simp+

lemma demo_posting_ok:
  assumes "p_account p \<in> {AccountId 0, AccountId 1}" "0 < amt (p_amount p)" "d \<in> {Date 35, Date 40, Date 45}"
  shows "posting_ok (journal_context (demo_empty\<lparr>j_entries := es\<rparr>)) d p"
  using assms demo_accounts_open unfolding posting_ok_def demo_policy by (auto simp: policy_permissive_def)

lemma demo_unlimited:
  assumes "key \<in> keys_of ps" "\<forall>p\<in>set ps. p_account p \<in> {AccountId 0, AccountId 1}"
  shows "within_limit (limit_of demo_accounts (k_account key)) qs key"
  using assms demo_accounts_open by (auto simp: limit_of_def within_limit_def key_of_posting_def)

lemma demo_recordable:
  "recordable (demo_empty\<lparr>j_entries := []\<rparr>) (demo_sale 1 7 35)"
  "recordable (demo_empty\<lparr>j_entries := [demo_sale 1 7 35]\<rparr>) (demo_sale 2 5 40)"
  "recordable (demo_empty\<lparr>j_entries := [demo_sale 1 7 35, demo_sale 2 5 40]\<rparr>) demo_reversal"
proof -
  have dates: "min \<bar>julian (Date n) - julian (Date n)\<bar> i64_max \<le> sint m" if "0 \<le> sint m" for n and m :: i64
    using that by (simp add: i64_max_def)
  have ok: "entry_ok (journal_context (demo_empty\<lparr>j_entries := es\<rparr>)) e"
    if "e_postings e = [p, q]" "0 < amt (p_amount p)" "amt (p_amount q) = amt (p_amount p)" "amt (p_amount p) < 10"
      "p_currency q = p_currency p" "p_direction q = dir_inverse (p_direction p)"
      "p_account p \<in> {AccountId 0, AccountId 1}" "p_account q \<in> {AccountId 0, AccountId 1}"
      "booking_date e \<in> {Date 35, Date 40, Date 45}" for e p q es
    using that demo_days unfolding entry_ok_def demo_policy
    by (auto intro: demo_posting_ok simp: max_postings_def i64_max_def policy_permissive_def dir_inverse_def split: direction.splits)
  have sums: "moved d key (all_postings es) \<le> i64_max"
    if known: "set es \<subseteq> {demo_sale 1 7 35, demo_sale 2 5 40, demo_reversal}" "length (all_postings es) \<le> 100" for d key es
  proof (rule small_sums [OF _ known(2)], rule ballI)
    fix p
    assume "p \<in> set (all_postings es)"
    then obtain e where "e \<in> {demo_sale 1 7 35, demo_sale 2 5 40, demo_reversal}" "p \<in> set (e_postings e)"
      using known(1) unfolding all_postings_def by fastforce
    then show "0 \<le> amt (p_amount p) \<and> amt (p_amount p) \<le> 100"
      by (auto simp: demo_sale_fields demo_reversal_fields demo_amounts)
  qed
  show "recordable (demo_empty\<lparr>j_entries := []\<rparr>) (demo_sale 1 7 35)"
    unfolding recordable_def
    using ok [OF demo_sale_fields(1)] sums [of "[demo_sale 1 7 35]"] demo_unlimited [of _ "e_postings (demo_sale 1 7 35)"]
    by (simp add: demo_sale_fields demo_amounts dir_inverse_def reversal_allowed_def demo_policy)
  show "recordable (demo_empty\<lparr>j_entries := [demo_sale 1 7 35]\<rparr>) (demo_sale 2 5 40)"
    unfolding recordable_def
    using ok [OF demo_sale_fields(1)] sums [of "[demo_sale 1 7 35, demo_sale 2 5 40]"] demo_unlimited [of _ "e_postings (demo_sale 2 5 40)"]
    by (simp add: demo_sale_fields demo_amounts dir_inverse_def reversal_allowed_def demo_policy)
  show "recordable (demo_empty\<lparr>j_entries := [demo_sale 1 7 35, demo_sale 2 5 40]\<rparr>) demo_reversal"
    unfolding recordable_def
    using ok [of demo_reversal] sums [of "[demo_sale 1 7 35, demo_sale 2 5 40, demo_reversal]"] demo_unlimited [of _ "e_postings demo_reversal"]
    by (simp add: demo_sale_fields demo_reversal_fields demo_amounts dir_inverse_def reversal_allowed_def demo_policy is_inversion_of_def)
qed

lemma demo_empty_entries: "demo_empty\<lparr>j_entries := []\<rparr> = demo_empty" "j_entries demo_empty = []"
  by (simp_all add: demo_empty_def journal_new_def)

lemma demo_one:
  "reachable_journal E (LedgerId (Label [76])) (demo_one E)" "j_entries (demo_one E) = [demo_sale 1 7 35]" "same_rest (demo_one E) demo_empty"
  "record_draft E (demo_sale 1 7 35) demo_empty = (Ok \<lparr>rec_id = EntryId 1, rec_index = Some 0, rec_hash = content_hash E (demo_sale 1 7 35), rec_new = True\<rparr>, demo_one E)"
  using demo_record [OF demo_empty_reachable demo_empty_entries(2) demo_recordable(1) _ _ _ refl, of E]
  by (simp_all add: demo_one_def demo_sale_fields)

lemma demo_two:
  "reachable_journal E (LedgerId (Label [76])) (demo_two E)" "j_entries (demo_two E) = [demo_sale 1 7 35, demo_sale 2 5 40]" "same_rest (demo_two E) demo_empty"
  "record_draft E (demo_sale 2 5 40) (demo_one E) = (Ok \<lparr>rec_id = EntryId 2, rec_index = Some 1, rec_hash = content_hash E (demo_sale 2 5 40), rec_new = True\<rparr>, demo_two E)"
  using demo_record [OF demo_one(1,2) demo_recordable(2) _ demo_one(3) _ refl]
  by (simp_all add: demo_two_def demo_sale_fields)

lemma demo_books:
  "reachable_journal E (LedgerId (Label [76])) (demo_books E)" "j_entries (demo_books E) = [demo_sale 1 7 35, demo_sale 2 5 40, demo_reversal]"
  "same_rest (demo_books E) demo_empty"
  "record_draft E demo_reversal (demo_two E) = (Ok \<lparr>rec_id = EntryId 3, rec_index = Some 2, rec_hash = content_hash E demo_reversal, rec_new = True\<rparr>, demo_books E)"
  using demo_record [OF demo_two(1,2) demo_recordable(3) _ demo_two(3) _ refl]
  by (simp_all add: demo_books_def demo_sale_fields demo_reversal_fields numeral_2_eq_2)

lemma demo_step_two: "journal_step E (demo_one E) (demo_two E)" and demo_step_books: "journal_step E (demo_two E) (demo_books E)"
  unfolding demo_two_def demo_books_def
  by (intro step_record; simp add: demo_one(2) demo_two(2) [unfolded demo_two_def] u64_max_def)+

end
