(* ===== verification/Journal_Audit.thy ===== *)
theory Journal_Audit
  imports Journal_Demo
begin

text \<open>What the journal promises: append-only books, recording, replays, batches and the self-checks.\<close>

section \<open>Append-only books\<close>

text \<open>
  Entries that the books admit one after the other: each has a key that is new, an identifier that is new,
  reverses at most an entry that may be reversed, and fits the range and the limits of the accounts it moves.
\<close>

fun admitted :: "registry \<Rightarrow> entry list \<Rightarrow> entry list \<Rightarrow> bool" where
  "admitted accts es [] \<longleftrightarrow> True"
| "admitted accts es (e # added) \<longleftrightarrow> e_key e \<notin> e_key ` set es \<and> bookable accts es e \<and> admitted accts (es @ [e]) added"

lemma validated_admits:
  assumes "journal_inv E j" "length (j_entries j) < u64_max" "sound_entry e" "record_validated E e j = (res, k)"
  shows "k = j \<or> j_entries k = j_entries j @ [e] \<and> e_key e \<notin> e_key ` set (j_entries j) \<and> bookable (j_accounts j) (j_entries j) e"
proof (cases "bt_get (j_by_key j) (e_key e)")
  case None
  then have "e_key e \<notin> e_key ` set (j_entries j)" using keys_absent [OF derived_okD(2) [OF journal_invD(1) [OF assms(1)]]] by simp
  then show ?thesis using validated_outcome [OF assms(1-3)] assms(4) by (auto split: if_splits)
qed (use assms(4) record_validated_seen in fastforce)

lemma record_all_admits:
  assumes "journal_inv E j" "\<forall>e\<in>set es. sound_entry e" "length (j_entries j) + length es \<le> u64_max"
    and "record_all E mark out es j = (Ok rs, k)"
  shows "\<exists>added. j_entries k = j_entries j @ added \<and> admitted (j_accounts j) (j_entries j) added"
  using assms
proof (induction es arbitrary: j out)
  case (Cons e es)
  obtain res j1 where r: "record_validated E e j = (res, j1)" by fastforce
  then obtain rec where rec: "res = Ok rec" using Cons.prems(4) by (cases res) auto
  have small: "length (j_entries j) < u64_max" and sound: "sound_entry e" using Cons.prems(2,3) by auto
  note g = record_validated_grows [OF journal_invD(1) [OF Cons.prems(1)] small r]
  have "record_all E mark (out @ [rec]) es j1 = (Ok rs, k)" using Cons.prems(4) r rec by simp
  moreover have "length (j_entries j1) + length es \<le> u64_max" using g(3) Cons.prems(3) by auto
  ultimately obtain added where added: "j_entries k = j_entries j1 @ added" "admitted (j_accounts j1) (j_entries j1) added"
    using Cons.IH [OF record_validated_inv [OF Cons.prems(1) small sound r]] Cons.prems(2) by auto
  have accts: "j_accounts j1 = j_accounts j" using g(2) by (simp add: same_rest_def)
  show ?case
  proof (cases "j1 = j")
    case False
    then have "j_entries j1 = j_entries j @ [e] \<and> e_key e \<notin> e_key ` set (j_entries j) \<and> bookable (j_accounts j) (j_entries j) e"
      using validated_admits [OF Cons.prems(1) small sound r] by blast
    then show ?thesis using added accts by (intro exI [of _ "e # added"]) simp
  qed (use added in blast)
qed simp

lemma step_admits:
  assumes "journal_step E j k" "journal_inv E j" "j_entries k = j_entries j @ added"
  shows "admitted (j_accounts j) (j_entries j) added"
proof -
  have "\<exists>added. j_entries k = j_entries j @ added \<and> admitted (j_accounts j) (j_entries j) added"
    using assms(1)
  proof (cases rule: journal_step.cases)
    case (step_record e)
    obtain res k' where r: "record_draft E e j = (res, k')" by fastforce
    note grows = record_draft_grows [OF assms(2) step_record(2) r]
    show ?thesis
    proof (cases "k' = j")
      case False
      then have e: "j_entries k' = j_entries j @ [e]" "entry_ok (journal_context j) e" using grows by auto
      then have sound: "sound_entry e" using was_sealed_sound by (auto simp: was_sealed_iff)
      have "bt_get (j_by_key j) (e_key e) = None" using r False by (auto simp: record_draft_def split: option.splits)
      then have "record_validated E e j = (res, k')"
        using r e(2) by (simp add: record_draft_def entry_seal_Ok [THEN iffD2])
      then show ?thesis using validated_admits [OF assms(2) step_record(2) sound] False e(1) step_record(1) r by fastforce
    qed (use step_record(1) r in simp)
  next
    case (step_batch es)
    obtain res k' where r: "record_batch E es j = (res, k')" by fastforce
    note inv = journal_invD [OF assms(2)]
    show ?thesis
    proof (cases res)
      case (Inl x)
      then have "k' = j"
        using record_batch_outcome(1) [OF inv(1) _ sealed_entries [OF step_batch(2)] step_batch(3) r Inl] inv(2) by simp
      then show ?thesis using r step_batch(1) by simp
    next
      case (Inr rs)
      then have "record_all E (length (j_entries j)) [] es j = (Ok rs, k')" using r by (simp add: record_batch_def)
      then show ?thesis using record_all_admits [OF assms(2) sealed_entries [OF step_batch(2)] step_batch(3)] r step_batch(1) by simp
    qed
  next
    case (step_seal i)
    then show ?thesis by (simp add: seal_period_entries)
  qed (auto simp: with_policy_def clear_def reset_clearing_def split: prod.splits)
  then show ?thesis using assms(3) by auto
qed

lemma step_origin:
  assumes "journal_step E j k" "journal_inv E j"
  shows "\<exists>added. j_entries k = j_entries j @ added \<and> (\<forall>e\<in>set added. was_sealed E e)
    \<and> (added = [] \<or> (\<exists>e. k = snd (record_draft E e j) \<and> added = [e] \<and> entry_ok (journal_context j) e)
        \<or> (\<exists>es. k = snd (record_batch E es j) \<and> subseq added es))"
  using assms(1)
proof (cases rule: journal_step.cases)
  case (step_record e)
  obtain res k' where r: "record_draft E e j = (res, k')" by fastforce
  then have k: "k = k'" using step_record by simp
  from record_draft_grows [OF assms(2) step_record(2) r] show ?thesis
  proof
    assume "k' = j"
    then show ?thesis using k by simp
  next
    assume "j_entries k' = j_entries j @ [e] \<and> entry_ok (journal_context j) e \<and> same_rest k' j"
    then show ?thesis using k step_record(1) by (intro exI [of _ "[e]"]) (auto simp: was_sealed_iff)
  qed
next
  case (step_batch es)
  obtain added where added: "j_entries k = j_entries j @ added" "subseq added es"
    using batch_grows [OF assms(2) step_batch(2,3)] step_batch(1) by auto
  then have "\<forall>e\<in>set added. was_sealed E e" using step_batch(2) subseq_members by blast
  then show ?thesis using added step_batch(1) by blast
next
  case (step_seal i)
  then show ?thesis by (simp add: seal_period_entries)
qed (auto simp: with_policy_def clear_def reset_clearing_def split: prod.splits)

text \<open>
  C5. The journal refines an append-only book. Whatever operation is called, the entries it held before stay where
  they are, and what it adds the books admit, one entry after the other: a new key, a new identifier, a reversal only
  of an entry that may be reversed, no side out of range, no limit of an account broken. Every entry added was
  sealed. The entry a draft adds was valid, when it was added, against the accounts, the calendar and the policy of
  that moment. What a batch adds are entries of the batch, in their order; \<^verbatim>\<open>record_batch\<close> does not validate them
  again, so they are those that were valid where and when they were sealed. No other operation adds anything.
\<close>

theorem journal_appends_valid_entries:
  assumes "reachable_journal E ledger j" "journal_step E j k"
  shows "\<exists>added. j_entries k = j_entries j @ added \<and> admitted (j_accounts j) (j_entries j) added \<and> (\<forall>e\<in>set added. was_sealed E e)
    \<and> (added = [] \<or> (\<exists>e. k = snd (record_draft E e j) \<and> added = [e] \<and> entry_ok (journal_context j) e)
        \<or> (\<exists>es. k = snd (record_batch E es j) \<and> subseq added es))"
proof -
  have inv: "journal_inv E j" by (rule reachable_journal_inv [OF assms(1)])
  obtain added where added: "j_entries k = j_entries j @ added" "\<forall>e\<in>set added. was_sealed E e"
      "added = [] \<or> (\<exists>e. k = snd (record_draft E e j) \<and> added = [e] \<and> entry_ok (journal_context j) e)
        \<or> (\<exists>es. k = snd (record_batch E es j) \<and> subseq added es)"
    using step_origin [OF assms(2) inv] by blast
  then show ?thesis using step_admits [OF assms(2) inv added(1)] by blast
qed

lemma journal_appends_valid_entries_witness:
  "reachable_journal toy_env (LedgerId (Label [76])) (demo_one toy_env)
   \<and> (\<exists>added. j_entries (demo_two toy_env) = j_entries (demo_one toy_env) @ added \<and> length added = 1 \<and> list_all (was_sealed toy_env) added
        \<and> admitted (j_accounts (demo_one toy_env)) (j_entries (demo_one toy_env)) added)"
proof -
  have r: "reachable_journal toy_env (LedgerId (Label [76])) (demo_one toy_env)" by (rule demo_one)
  obtain added where "j_entries (demo_two toy_env) = j_entries (demo_one toy_env) @ added" "\<forall>e\<in>set added. was_sealed toy_env e"
      "admitted (j_accounts (demo_one toy_env)) (j_entries (demo_one toy_env)) added"
    using journal_appends_valid_entries [OF r demo_step_two] by blast
  then show ?thesis using r by (intro conjI exI [of _ added]) (auto simp: demo_one(2) demo_two(2) list_all_iff)
qed

section \<open>The self-checks\<close>

text \<open>
  C1. The journal's self-checks pass in every state it can reach: the log is the Merkle log of the
  entries' content hashes, the maintained balances equal the recomputed ones, and the chain of seals
  verifies.
\<close>

theorem self_checks_pass:
  assumes "reachable_journal E ledger j"
  shows "verify_log E j \<and> verify_balances j = Ok True \<and> verify_seals E j = Ok ()"
proof (intro conjI)
  have jinv: "journal_inv E j" by (rule reachable_journal_inv [OF assms])
  note inv = journal_invD [OF jinv] and d = derived_okD [OF journal_invD(1) [OF jinv]]
  have "good_log (env_b3 E) (log_from_leaves (env_b3 E) (map (content_hash E) (j_entries j)))
      \<and> leaves (log_from_leaves (env_b3 E) (map (content_hash E) (j_entries j))) = map (content_hash E) (j_entries j)"
    using log_from_leaves_good [of "map (content_hash E) (j_entries j)" "env_b3 E"] inv(3) by simp
  then show "verify_log E j"
    using d(4) good_log_accessors(1) [of "env_b3 E"]
    by (simp add: verify_log_def log_ok_def log_len_def verify_incremental_state_def)
  have "\<exists>tb. apply_postings bt_empty (all_postings (j_entries j)) = Ok tb"
  proof -
    have "moved s key (all_postings (j_entries j)) \<le> i64_max" for s key
      using shows_side [OF d(5), of s key] in_i64_le [OF side_in_range, of s "tb_get_or_zero (balances j) key"] by simp
    moreover have "\<forall>p\<in>set (all_postings (j_entries j)). 0 < amt (p_amount p)"
      using inv(2) by (auto simp: all_postings_def sound_entry_def)
    ultimately show ?thesis using apply_postings_total [OF shows_empty, of "all_postings (j_entries j)"] by simp
  qed
  then obtain tb where tb: "apply_postings bt_empty (all_postings (j_entries j)) = Ok tb" ..
  then have "shows_postings tb (all_postings (j_entries j))" using apply_postings_shows [OF shows_empty tb] by simp
  then have "tb = balances j" using d(5) by (rule shows_unique)
  then show "verify_balances j = Ok True" using tb by (simp add: verify_balances_def)
  show "verify_seals E j = Ok ()" using inv(8) by (simp add: verify_seals_def chain_verify_linked chain_ok_def)
qed

lemma self_checks_pass_witness:
  "length (j_entries (demo_books toy_env)) = 3 \<and> verify_log toy_env (demo_books toy_env)
   \<and> verify_balances (demo_books toy_env) = Ok True \<and> verify_seals toy_env (demo_books toy_env) = Ok ()"
  using self_checks_pass [OF demo_books(1) [of toy_env]] demo_books(2) by simp

section \<open>Recording\<close>

text \<open>
  C2. Recording a draft with a fresh idempotency key succeeds exactly when the draft is valid, its id
  is new, a reversal it claims is of a recorded entry that is no reversal, is not reversed yet and is
  inverted exactly, no balance leaves the 64-bit range, and every balance it touches ends within the
  limit of its account. The entry is then the next in the log; otherwise the journal is unchanged.
\<close>

theorem record_spec:
  assumes "reachable_journal E ledger j" "length (j_entries j) < u64_max" "e_key e \<notin> e_key ` set (j_entries j)"
  shows "if recordable j e
    then \<exists>k. record_draft E e j = (Ok \<lparr>rec_id = e_id e, rec_index = Some (length (j_entries j)), rec_hash = content_hash E e, rec_new = True\<rparr>, k)
           \<and> j_entries k = j_entries j @ [e]
    else \<exists>x. record_draft E e j = (Err x, j)"
  by (rule record_outcome [OF reachable_journal_inv [OF assms(1)] assms(2,3)])

lemma record_spec_witness:
  "reachable_journal toy_env (LedgerId (Label [76])) (demo_two toy_env)
   \<and> (\<exists>k. record_draft toy_env demo_reversal (demo_two toy_env) = (Ok \<lparr>rec_id = EntryId 3, rec_index = Some 2,
        rec_hash = content_hash toy_env demo_reversal, rec_new = True\<rparr>, k))
   \<and> (\<exists>x. record_draft toy_env (demo_sale 4 5 3) (demo_two toy_env\<lparr>j_policy := in_currency policy_permissive USD\<rparr>)
        = (Err x, demo_two toy_env\<lparr>j_policy := in_currency policy_permissive USD\<rparr>))"
proof (intro conjI)
  let ?E = toy_env
  show r: "reachable_journal ?E (LedgerId (Label [76])) (demo_two ?E)" by (rule demo_two)
  have small: "length (j_entries (demo_two ?E)) < u64_max" by (simp add: demo_two(2) u64_max_def)
  have "recordable (demo_two ?E) demo_reversal"
    using demo_recordable(3) demo_two(2,3) [of ?E] by (simp add: recordable_def journal_context_def same_rest_def)
  then show "\<exists>k. record_draft ?E demo_reversal (demo_two ?E) = (Ok \<lparr>rec_id = EntryId 3, rec_index = Some 2,
        rec_hash = content_hash ?E demo_reversal, rec_new = True\<rparr>, k)"
    using record_spec [OF r small, of demo_reversal] by (auto simp: demo_two(2) demo_sale_fields demo_reversal_fields)
  let ?j = "demo_two ?E\<lparr>j_policy := in_currency policy_permissive USD\<rparr>"
  have r': "reachable_journal ?E (LedgerId (Label [76])) ?j"
    using r step_policy [of ?E "demo_two ?E" "in_currency policy_permissive USD"]
    by (auto simp: reachable_journal_def with_policy_def)
  have "EUR \<noteq> USD" by code_simp
  then have "\<not> recordable ?j (demo_sale 4 5 3)"
    by (auto simp: recordable_def entry_ok_def posting_ok_def demo_sale_fields journal_context_def in_currency_def)
  then show "\<exists>x. record_draft ?E (demo_sale 4 5 3) ?j = (Err x, ?j)"
    using record_spec [OF r', of "demo_sale 4 5 3"] small by (auto simp: demo_two(2) demo_sale_fields)
qed

section \<open>Replays\<close>

lemma key_found_later:
  assumes "journal_inv E j" "bt_get (j_by_key j) key = Some x" "(journal_step E)\<^sup>*\<^sup>* j k"
  shows "bt_get (j_by_key k) key = Some x"
proof -
  obtain more where more: "j_entries k = j_entries j @ more" using steps_append [OF assms(3,1)] by blast
  have k: "keys_ok E (j_entries k) (j_by_key k)"
    using derived_okD(2) journal_invD(1) [OF journal_steps_inv [OF assms(3,1)]] by blast
  obtain n where "n < length (j_entries j)" "e_key (j_entries j ! n) = key" "x = (e_id (j_entries j ! n), n, content_hash E (j_entries j ! n))"
    using derived_okD(2) [OF journal_invD(1) [OF assms(1)]] assms(2) unfolding keys_ok_def by blast
  then have "\<exists>n<length (j_entries k). e_key (j_entries k ! n) = key \<and> x = (e_id (j_entries k ! n), n, content_hash E (j_entries k ! n))"
    using more by (intro exI [of _ n]) (simp add: nth_append)
  then show ?thesis using k unfolding keys_ok_def by blast
qed

lemma recorded_key:
  assumes "journal_inv E j" "length (j_entries j) < u64_max" "record_draft E e j = (Ok r, k)"
  shows "\<exists>i. rec_index r = Some i \<and> rec_hash r = content_hash E e \<and> bt_get (j_by_key k) (e_key e) = Some (rec_id r, i, content_hash E e)"
proof (cases "bt_get (j_by_key j) (e_key e)")
  case (Some found)
  obtain old i h where f: "found = (old, i, h)" by (cases found)
  show ?thesis using assms(3) Some by (simp add: record_draft_def f replay_def split: if_splits) auto
next
  case None
  then have "record_validated E e j = (Ok r, k)"
    using assms(3) by (auto simp: record_draft_def entry_seal_Ok split: sum.splits)
  then obtain after i where a: "append_entry E e after j = (i, k)"
    "r = \<lparr>rec_id = e_id e, rec_index = Some i, rec_hash = content_hash E e, rec_new = True\<rparr>"
    using record_validated_new [OF None] by blast
  have "log_len (j_log j) < u64_max" "good_log (env_b3 E) (j_log j)"
    using derived_okD(4) [OF journal_invD(1) [OF assms(1)]] assms(2) by (simp_all add: log_ok_def log_len_def)
  then have "j_by_key k = bt_insert (e_key e) (e_id e, i, content_hash E e) (j_by_key j)" using append_entry_state(13) a(1) by blast
  then show ?thesis using a(2) by simp
qed

text \<open>
  C4. Recording is idempotent, for good: once a draft has been accepted, submitting it again, however
  the books have changed since, answers with the same id, position and hash, marks it as not new and
  changes nothing; the same key with other content is refused, naming the entry that holds it.
\<close>

theorem replay_is_idempotent:
  assumes "reachable_journal E ledger j" "length (j_entries j) < u64_max" "record_draft E e j = (Ok r, k)"
    and "(journal_step E)\<^sup>*\<^sup>* k later"
  shows "record_draft E e later = (Ok (r\<lparr>rec_new := False\<rparr>), later)
    \<and> (\<forall>f. e_key f = e_key e \<and> content_hash E f \<noteq> content_hash E e \<longrightarrow>
         record_draft E f later = (Err (IdempotencyConflict (rec_id r) (content_hash E e) (content_hash E f)), later))"
proof -
  have inv: "journal_inv E j" by (rule reachable_journal_inv [OF assms(1)])
  have "journal_inv E k" using record_draft_inv [OF inv assms(2), of e] assms(3) by simp
  moreover obtain i where i: "rec_index r = Some i" "rec_hash r = content_hash E e"
    "bt_get (j_by_key k) (e_key e) = Some (rec_id r, i, content_hash E e)" using recorded_key [OF inv assms(2,3)] by blast
  ultimately have "bt_get (j_by_key later) (e_key e) = Some (rec_id r, i, content_hash E e)"
    using key_found_later assms(4) by blast
  then show ?thesis using i by (cases r) (auto simp: record_draft_def replay_def)
qed

lemma replay_is_idempotent_witness:
  "record_draft toy_env (demo_sale 1 7 35) (demo_books toy_env)
     = (Ok \<lparr>rec_id = EntryId 1, rec_index = Some 0, rec_hash = content_hash toy_env (demo_sale 1 7 35), rec_new = False\<rparr>, demo_books toy_env)"
proof -
  have "(journal_step toy_env)\<^sup>*\<^sup>* (demo_one toy_env) (demo_books toy_env)"
    using demo_step_two [of toy_env] demo_step_books [of toy_env] by auto
  moreover have "length (j_entries demo_empty) < u64_max" by (simp add: demo_empty_entries u64_max_def)
  ultimately show ?thesis
    using replay_is_idempotent [OF demo_empty_reachable _ demo_one(4)] by fastforce
qed

section \<open>Batches\<close>

text \<open>
  C3. A batch is all or nothing: when one of its entries is refused, undoing the entries already
  appended gives back the journal the batch was called on, in every field, and when none is refused
  there is one outcome per entry.
\<close>

theorem batch_all_or_nothing:
  assumes "reachable_journal E ledger j" "\<forall>e\<in>set es. \<exists>ctx. entry_seal E ctx e = Ok e"
    and "length (j_entries j) + length es \<le> u64_max" "record_batch E es j = (res, k)"
  shows "case res of Err x \<Rightarrow> k = j | Ok rs \<Rightarrow> length rs = length es \<and> take (length (j_entries j)) (j_entries k) = j_entries j"
proof -
  note inv = journal_invD [OF reachable_journal_inv [OF assms(1)]]
  have sound: "\<forall>e\<in>set es. sound_entry e"
    using assms(2) by (auto simp: entry_seal_Ok entry_ok_def sound_entry_def posting_ok_def)
  note out = record_batch_outcome [OF inv(1) _ sound assms(3,4)]
  show ?thesis using out inv(2) by (cases res) (auto simp: batch_from_def)
qed

definition demo_clash :: entry where
  "demo_clash = (demo_sale 2 5 40)\<lparr>e_id := EntryId 1, e_key := IdempotencyKey [9]\<rparr>"

lemma batch_all_or_nothing_witness:
  "record_batch toy_env [demo_sale 2 5 40, demo_clash] (demo_one toy_env) = (Err (DuplicateId (EntryId 1)), demo_one toy_env)"
proof -
  let ?E = toy_env and ?j = "demo_one toy_env" and ?es = "[demo_sale 2 5 40, demo_clash]"
  have ok: "entry_ok (journal_context ?j) (demo_sale 2 5 40)"
    using demo_recordable(2) demo_one(2,3) [of ?E] by (simp add: recordable_def journal_context_def same_rest_def)
  then have ok': "entry_ok (journal_context ?j) demo_clash" by (simp add: entry_ok_def demo_clash_def)
  have keys: "keys_ok ?E (j_entries ?j) (j_by_key ?j)" "keys_ok ?E (j_entries (demo_two ?E)) (j_by_key (demo_two ?E))"
    and ids: "ids_ok (j_entries (demo_two ?E)) (j_by_id (demo_two ?E))"
    using derived_okD(1,2) journal_invD(1) [OF reachable_journal_inv [OF demo_one(1)]]
      journal_invD(1) [OF reachable_journal_inv [OF demo_two(1)]] by blast+
  have absent: "bt_get (j_by_key ?j) (IdempotencyKey [2]) = None" "bt_get (j_by_key (demo_two ?E)) (IdempotencyKey [9]) = None"
    using keys_absent [OF keys(1), of "IdempotencyKey [2]"] keys_absent [OF keys(2), of "IdempotencyKey [9]"]
    by (simp_all add: demo_one(2) demo_two(2) demo_sale_fields)
  have first: "record_validated ?E (demo_sale 2 5 40) ?j =
      (Ok \<lparr>rec_id = EntryId 2, rec_index = Some 1, rec_hash = content_hash ?E (demo_sale 2 5 40), rec_new = True\<rparr>, demo_two ?E)"
    using demo_two(4) [of ?E] absent(1) ok by (simp add: record_draft_def demo_sale_fields entry_seal_Ok [THEN iffD2])
  have "bt_contains (j_by_id (demo_two ?E)) (EntryId 1)"
    using ids_absent [OF ids, where i = "EntryId 1"] by (auto simp: demo_two(2) demo_sale_fields)
  then have second: "record_validated ?E demo_clash (demo_two ?E) = (Err (DuplicateId (EntryId 1)), demo_two ?E)"
    using absent(2) by (simp add: record_validated_def demo_clash_def Let_def)
  have run: "record_batch ?E ?es ?j = (Err (DuplicateId (EntryId 1)), rollback_to ?E 1 (demo_two ?E))"
    by (simp add: record_batch_def first second demo_one(2))
  have "\<forall>e\<in>set ?es. \<exists>ctx. entry_seal ?E ctx e = Ok e" using ok ok' by (auto simp: entry_seal_Ok)
  moreover have "length (j_entries ?j) + length ?es \<le> u64_max" by (simp add: demo_one(2) u64_max_def)
  ultimately have "rollback_to ?E 1 (demo_two ?E) = ?j" using batch_all_or_nothing [OF demo_one(1) _ _ run] by simp
  then show ?thesis using run by simp
qed

end
