(* ===== verification/Journal_Items.thy ===== *)
theory Journal_Items
  imports Journal_Demo
begin

text \<open>
  The two lists of postings an account has: the statement, which shows them all with a running balance,
  and the open items, which shows what clearing has left of them. Both come in log order, by position.
\<close>

section \<open>Positions\<close>

text \<open>The derived order of \<^verbatim>\<open>PostingPosition\<close>: by the index of the entry, then by the posting.\<close>

definition position_less :: "posting_position \<Rightarrow> posting_position \<Rightarrow> bool" where
  "position_less a b \<longleftrightarrow> pos_index a < pos_index b \<or> pos_index a = pos_index b \<and> pos_posting a < pos_posting b"

lemma position_less_trans: "position_less a b \<Longrightarrow> position_less b c \<Longrightarrow> position_less a c"
  by (auto simp: position_less_def)

lemma position_less_asym: "position_less a b \<Longrightarrow> \<not> position_less b a"
  by (auto simp: position_less_def)

lemma position_less_irrefl [simp]: "\<not> position_less a a"
  by (simp add: position_less_def)

definition site_position :: "site \<Rightarrow> posting_position" where
  "site_position s = \<lparr>pos_index = site_index s, pos_posting = site_posting s\<rparr>"

abbreviation in_log_order :: "posting_position list \<Rightarrow> bool" where
  "in_log_order ps \<equiv> sorted_wrt position_less ps"

lemma site_number_less: "k < m \<Longrightarrow> m < 65536 \<Longrightarrow> site_number k < site_number m"
  by (simp add: word_less_nat_alt site_number_value)

lemma entry_sites_in_order:
  assumes "short e"
  shows "in_log_order (map site_position (entry_sites key n e))"
proof -
  let ?less = "\<lambda>x y :: nat \<times> posting. fst x < fst y"
  have "sorted_wrt ?less (enumerate 0 (e_postings e))"
    using sorted_wrt_upt [of 0 "length (e_postings e)"] by (simp add: sorted_wrt_map [of _ fst, symmetric])
  then have "sorted_wrt ?less (filter (\<lambda>(k, p). key_of_posting p = key) (enumerate 0 (e_postings e)))"
    by (rule sorted_wrt_filter)
  then have "sorted_wrt (\<lambda>x y. position_less (site_position ((\<lambda>(k, p). \<lparr>site_index = n, site_posting = site_number k\<rparr>) x))
      (site_position ((\<lambda>(k, p). \<lparr>site_index = n, site_posting = site_number k\<rparr>) y)))
      (filter (\<lambda>(k, p). key_of_posting p = key) (enumerate 0 (e_postings e)))"
    using assms
    by (elim sorted_wrt_mono_rel [rotated])
      (auto simp: position_less_def site_position_def short_def in_set_enumerate_eq intro!: site_number_less)
  then show ?thesis by (simp add: entry_sites_def sorted_wrt_map)
qed

lemma sites_in_order: "\<forall>e\<in>set es. short e \<Longrightarrow> in_log_order (map site_position (sites_from key n es))"
proof (induction es arbitrary: n)
  case (Cons e es)
  have "position_less (site_position s) (site_position t)"
    if "s \<in> set (entry_sites key n e)" "t \<in> set (sites_from key (Suc n) es)" for s t
    using entry_sites_index [OF that(1)] sites_from_index [OF that(2)] by (simp add: position_less_def site_position_def)
  then show ?case using Cons entry_sites_in_order [of e key n] by (auto simp: sorted_wrt_append)
qed simp

lemma sites_from_iff:
  "s \<in> set (sites_from key n es) \<longleftrightarrow>
     (\<exists>m<length es. \<exists>k<length (e_postings (es ! m)). s = \<lparr>site_index = n + m, site_posting = site_number k\<rparr>
        \<and> key_of_posting (e_postings (es ! m) ! k) = key)"
proof (induction es arbitrary: n)
  case (Cons e es)
  have "s \<in> set (entry_sites key n e) \<longleftrightarrow>
      (\<exists>k<length (e_postings e). s = \<lparr>site_index = n, site_posting = site_number k\<rparr> \<and> key_of_posting (e_postings e ! k) = key)"
    by (auto simp: entry_sites_def in_set_enumerate_eq image_iff)
  then show ?case by (simp add: Cons.IH Ex_less_Suc2)
qed simp

section \<open>What a site of the journal refers to\<close>

lemma inv_sites:
  assumes "journal_inv E j"
  shows "sites_of j key = sites_from key 0 (j_entries j)" "\<forall>e\<in>set (j_entries j). short e"
proof -
  note inv = journal_invD [OF assms]
  have "sites_ok (j_entries j) (sites j)" by (rule derived_okD(6) [OF inv(1)])
  then show "sites_of j key = sites_from key 0 (j_entries j)"
    by (simp add: sites_of_def sites_ok_def sites_from_Nil [THEN iffD2])
  show "\<forall>e\<in>set (j_entries j). short e" using inv(2) by (fastforce simp: sound_entry_def short_def max_postings_def)
qed

text \<open>A posting on a balance key, at its position: the entry, the posting and the reference to it.\<close>

definition posting_here :: "journal \<Rightarrow> balance_key \<Rightarrow> posting_position \<Rightarrow> entry \<Rightarrow> posting \<Rightarrow> bool" where
  "posting_here j key pos e p \<longleftrightarrow> pos_index pos < length (j_entries j) \<and> e = j_entries j ! pos_index pos
     \<and> posting_at e (pos_posting pos) = Some p \<and> key_of_posting p = key"

lemma site_of_journal:
  assumes "journal_inv E j"
  shows "s \<in> set (sites_of j key) \<longleftrightarrow> (\<exists>e p. posting_here j key (site_position s) e p)"
proof
  assume "s \<in> set (sites_of j key)"
  then obtain m k where s: "m < length (j_entries j)" "k < length (e_postings (j_entries j ! m))"
    "s = \<lparr>site_index = m, site_posting = site_number k\<rparr>" "key_of_posting (e_postings (j_entries j ! m) ! k) = key"
    unfolding inv_sites(1) [OF assms] sites_from_iff by auto
  moreover have "short (j_entries j ! m)" using s(1) inv_sites(2) [OF assms] by simp
  ultimately show "\<exists>e p. posting_here j key (site_position s) e p"
    using posting_at_number by (auto simp: posting_here_def site_position_def)
next
  assume "\<exists>e p. posting_here j key (site_position s) e p"
  then obtain e p where p: "posting_here j key (site_position s) e p" by blast
  let ?k = "unat (site_posting s)"
  have k: "?k < length (e_postings e)" "e_postings e ! ?k = p"
    using p by (auto simp: posting_here_def posting_at_def site_position_def split: if_splits)
  have "unat (site_posting s) < 2 ^ LENGTH(16)" by (rule unsigned_less)
  then have "site_number ?k = site_posting s" by (simp add: site_number_def)
  then show "s \<in> set (sites_of j key)"
    using p k unfolding inv_sites(1) [OF assms] sites_from_iff
    by (intro exI [of _ "site_index s"]) (auto simp: posting_here_def site_position_def intro!: exI [of _ ?k])
qed

lemma resolve_here: "resolve j s = Some (e, p) \<and> key_of_posting p = key \<longleftrightarrow> posting_here j key (site_position s) e p"
  by (auto simp: resolve_def entry_at_def posting_here_def site_position_def)

lemma here_facts:
  assumes "journal_inv E j" "posting_here j key pos e p"
  shows "journal_posting j (PostingRef (e_id e) (pos_posting pos)) = Some p" "0 < amt (p_amount p)"
    "index_of j (e_id e) = Some (pos_index pos)" "e \<in> set (j_entries j)" "p \<in> set (e_postings e)"
proof -
  note inv = journal_invD [OF assms(1)]
  show e: "e \<in> set (j_entries j)" and p: "p \<in> set (e_postings e)"
    using assms(2) by (auto simp: posting_here_def posting_at_def split: if_splits)
  then show "0 < amt (p_amount p)" using inv(2) by (auto simp: sound_entry_def)
  show i: "index_of j (e_id e) = Some (pos_index pos)"
    using derived_okD(1) [OF inv(1)] assms(2) by (auto simp: index_of_def ids_ok_def posting_here_def)
  show "journal_posting j (PostingRef (e_id e) (pos_posting pos)) = Some p"
    using i assms(2) by (auto simp: journal_posting_def index_of_def entry_at_def posting_here_def)
qed

section \<open>Statements\<close>

definition line_of :: "entry \<Rightarrow> posting_position \<Rightarrow> posting \<Rightarrow> balance \<Rightarrow> statement_line" where
  "line_of e pos p b =
     \<lparr>ln_index = pos_index pos, ln_posting = PostingRef (e_id e) (pos_posting pos), ln_booking_date = booking_date e,
      ln_direction = p_direction p, ln_amount = p_amount p, ln_running = b, ln_kind = e_kind e\<rparr>"

text \<open>The lines a list of sites gives, the running balance being the balance before plus what has moved.\<close>

definition line_shows :: "journal \<Rightarrow> balance_key \<Rightarrow> balance \<Rightarrow> posting list \<Rightarrow> site \<Rightarrow> statement_line \<Rightarrow> bool" where
  "line_shows j key b0 before s l \<longleftrightarrow>
     (\<exists>e p. posting_here j key (site_position s) e p \<and> l = line_of e (site_position s) p (ln_running l)
        \<and> (\<forall>d. side d (ln_running l) = side d b0 + moved d key (before @ [p])))"

definition postings_at :: "journal \<Rightarrow> site list \<Rightarrow> posting list" where
  "postings_at j ss = map snd (List.map_filter (resolve j) ss)"

lemma postings_at_simps [simp]:
  "postings_at j [] = []" "resolve j s = Some (e, p) \<Longrightarrow> postings_at j (s # ss) = p # postings_at j ss"
  by (simp_all add: postings_at_def List.map_filter_simps)

lemma statement_lines:
  assumes "\<forall>s\<in>set ss. \<exists>e p. posting_here j key (site_position s) e p \<and> 0 < amt (p_amount p)"
    and "\<forall>d. 0 \<le> side d b \<and> side d b + moved d key (postings_at j ss) \<le> i64_max"
  shows "\<exists>c lines. try_fold (statement_step j) (b, out) ss = Ok (c, out @ lines) \<and> length lines = length ss
    \<and> (\<forall>i<length ss. line_shows j key b (postings_at j (take i ss)) (ss ! i) (lines ! i))"
  using assms
proof (induction ss arbitrary: b out)
  case (Cons s ss)
  obtain e p where here: "posting_here j key (site_position s) e p" "0 < amt (p_amount p)" using Cons.prems(1) by auto
  then have r: "resolve j s = Some (e, p)" "key_of_posting p = key" using resolve_here [of j s e p key] by auto
  have rest: "0 \<le> moved d key (postings_at j ss)" for d
  proof (rule moved_nonneg, rule ballI)
    fix q
    assume "q \<in> set (postings_at j ss)"
    then obtain t f where "t \<in> set ss" "resolve j t = Some (f, q)" by (auto simp: postings_at_def List.map_filter_def)
    moreover from this obtain e' p' where "posting_here j key (site_position t) e' p'" "0 < amt (p_amount p')"
      using Cons.prems(1) by auto
    ultimately show "0 < amt (p_amount q)" using resolve_here [of j t e' p' key] by auto
  qed
  have "in_i64 (side (p_direction p) b + amt (p_amount p))"
    using Cons.prems(2)[rule_format, of "p_direction p"] rest [of "p_direction p"] here(2) r
    by (simp add: in_i64_def i64_min_def)
  then obtain b1 where b1: "balance_add b (p_direction p) (p_amount p) = Ok b1"
    by (cases "balance_add b (p_direction p) (p_amount p)") (auto simp: balance_add_Err)
  let ?l = "line_of e (site_position s) p b1"
  have step: "statement_step j (b, out) s = Ok (b1, out @ [?l])"
    using r b1 by (simp add: statement_step_def line_of_def site_position_def)
  have side1: "side d b1 = side d b + moved d key [p]" for d using b1 r(2) by (simp add: balance_add_Ok)
  have "\<forall>d. 0 \<le> side d b1 \<and> side d b1 + moved d key (postings_at j ss) \<le> i64_max"
    using Cons.prems(2) here(2) r by (auto simp: side1 add.assoc)
  then obtain c lines where IH: "try_fold (statement_step j) (b1, out @ [?l]) ss = Ok (c, (out @ [?l]) @ lines)"
    "length lines = length ss" "\<forall>i<length ss. line_shows j key b1 (postings_at j (take i ss)) (ss ! i) (lines ! i)"
    using Cons.IH [of b1 "out @ [?l]"] Cons.prems(1) by fastforce
  have "line_shows j key b (postings_at j (take i (s # ss))) ((s # ss) ! i) ((?l # lines) ! i)" if "i < length (s # ss)" for i
  proof (cases i)
    case 0
    then show ?thesis using here side1 by (auto simp: line_shows_def line_of_def)
  next
    case (Suc k)
    then show ?thesis using IH(3) that r(1) side1 by (simp add: line_shows_def add.assoc)
  qed
  then show ?case using step IH(1,2) by (intro exI [of _ c] exI [of _ "?l # lines"]) simp
qed (simp add: line_shows_def)

lemma postings_at_sites:
  assumes "journal_inv E j"
  shows "postings_at j (sites_of j key) = filter (\<lambda>p. key_of_posting p = key) (all_postings (j_entries j))"
proof -
  have "List.map_filter (resolve j) (sites_of j key) = touching key (j_entries j)"
    unfolding inv_sites(1) [OF assms] by (rule resolve_sites) (use inv_sites(2) [OF assms] in \<open>auto simp: entry_at_def\<close>)
  then show ?thesis by (simp add: postings_at_def touching_postings)
qed

lemma moved_on_key: "moved d key (filter (\<lambda>p. key_of_posting p = key) ps) = moved d key ps"
  by (induction ps) auto

lemma moved_fits:
  assumes "journal_inv E j"
  shows "moved d key (all_postings (j_entries j)) \<le> i64_max"
  using shows_side [OF derived_okD(5) [OF journal_invD(1) [OF assms]], of d key]
    in_i64_le [OF side_in_range, of d "tb_get_or_zero (balances j) key"] by simp

lemma sites_positive:
  assumes "journal_inv E j"
  shows "\<forall>s\<in>set (sites_of j key). \<exists>e p. posting_here j key (site_position s) e p \<and> 0 < amt (p_amount p)"
  using site_of_journal [OF assms] here_facts(2) [OF assms] by blast

lemma statement_total:
  assumes "journal_inv E j"
  obtains lines where "statement j key = Ok lines" "length lines = length (sites_of j key)"
    "\<forall>i<length lines. line_shows j key balance_zero (postings_at j (take i (sites_of j key))) (sites_of j key ! i) (lines ! i)"
proof -
  have "\<forall>d. 0 \<le> side d balance_zero \<and> side d balance_zero + moved d key (postings_at j (sites_of j key)) \<le> i64_max"
    using moved_fits [OF assms] by (simp add: postings_at_sites [OF assms] moved_on_key)
  from statement_lines [OF sites_positive [OF assms] this, of "[]"] show ?thesis
    using that by (auto simp: statement_def)
qed

section \<open>Open items\<close>

text \<open>What an open item shows of a posting that has not been cleared to the end.\<close>

definition item_shows :: "journal \<Rightarrow> posting_position \<Rightarrow> entry \<Rightarrow> posting \<Rightarrow> open_item \<Rightarrow> bool" where
  "item_shows j pos e p it \<longleftrightarrow>
     (let r = PostingRef (e_id e) (pos_posting pos) in
      oi_position it = pos \<and> oi_posting it = r \<and> oi_direction it = p_direction p \<and> oi_original it = p_amount p
      \<and> amt (oi_applied it) = cleared_total (clearings j) r
      \<and> amt (oi_residual it) = amt (p_amount p) - cleared_total (clearings j) r \<and> 0 < amt (oi_residual it))"

definition outstanding :: "journal \<Rightarrow> site \<Rightarrow> (posting_position \<times> posting_ref) list" where
  "outstanding j s = (case resolve j s of None \<Rightarrow> [] | Some (e, p) \<Rightarrow> [(site_position s, PostingRef (e_id e) (site_posting s))])"

lemma open_candidates_eq:
  assumes "journal_inv E j"
  shows "open_candidates j key = concat (map (outstanding j) (sites_of j key))"
proof -
  have "\<forall>s\<in>set ss. resolve j s \<noteq> None \<Longrightarrow>
      List.map_filter (\<lambda>s. map_option (\<lambda>e. (\<lparr>pos_index = site_index s, pos_posting = site_posting s\<rparr>,
         PostingRef (e_id e) (site_posting s))) (entry_at j (site_index s))) ss = concat (map (outstanding j) ss)" for ss
    by (induction ss)
      (auto simp: List.map_filter_simps outstanding_def resolve_def site_position_def bind_eq_None_conv split: option.splits)
  moreover have "\<forall>s\<in>set (sites_of j key). resolve j s \<noteq> None"
    using site_of_journal [OF assms] resolve_here [of j] by (metis option.distinct(1))
  ultimately show ?thesis by (simp add: open_candidates_def)
qed

lemma item_residual:
  assumes "journal_inv E j" "posting_here j key pos e p"
  obtains x where "checked_sub (p_amount p) (applied_to (clearings j) (PostingRef (e_id e) (pos_posting pos))) = Ok x"
    "amt x = amt (p_amount p) - cleared_total (clearings j) (PostingRef (e_id e) (pos_posting pos))"
    "amt (applied_to (clearings j) (PostingRef (e_id e) (pos_posting pos))) = cleared_total (clearings j) (PostingRef (e_id e) (pos_posting pos))"
proof -
  let ?r = "PostingRef (e_id e) (pos_posting pos)"
  have ok: "register_ok (journal_posting j) (clearings j)" by (rule journal_invD(10) [OF assms(1)])
  note here = here_facts [OF assms]
  have t: "0 \<le> cleared_total (clearings j) ?r" "amt (applied_to (clearings j) ?r) = cleared_total (clearings j) ?r"
    using cleared_total_nonneg [OF ok] register_okD(3) [OF ok] by auto
  then have "in_i64 (amt (p_amount p) - amt (applied_to (clearings j) ?r))"
    using here(2) amt_range(2) [of "p_amount p"] amt_range(2) [of "applied_to (clearings j) ?r"]
    by (simp add: in_i64_def i64_min_def i64_max_def)
  then obtain x where "checked_sub (p_amount p) (applied_to (clearings j) ?r) = Ok x" by (auto simp flip: amt_ex)
  then show ?thesis using that t by simp
qed

lemma open_items_fold:
  assumes "journal_inv E j" "\<forall>s\<in>set ss. \<exists>e p. posting_here j key (site_position s) e p"
  shows "\<exists>items. try_fold (open_item_step (clearings j) (journal_posting j)) out (concat (map (outstanding j) ss)) = Ok (out @ items)
    \<and> (\<forall>it. it \<in> set items \<longleftrightarrow> (\<exists>s\<in>set ss. \<exists>e p. posting_here j key (site_position s) e p \<and> item_shows j (site_position s) e p it))
    \<and> (in_log_order (map site_position ss) \<longrightarrow> in_log_order (map oi_position items))"
  using assms(2)
proof (induction ss arbitrary: out)
  case (Cons s ss)
  let ?pos = "site_position s"
  obtain e p where here: "posting_here j key ?pos e p" using Cons.prems by auto
  then have r: "resolve j s = Some (e, p)" using resolve_here by blast
  let ?r = "PostingRef (e_id e) (pos_posting ?pos)"
  have [simp]: "pos_posting ?pos = site_posting s" by (simp add: site_position_def)
  obtain x where x: "checked_sub (p_amount p) (applied_to (clearings j) ?r) = Ok x"
    "amt x = amt (p_amount p) - cleared_total (clearings j) ?r" "amt (applied_to (clearings j) ?r) = cleared_total (clearings j) ?r"
    using item_residual [OF assms(1) here] .
  let ?it = "\<lparr>oi_position = ?pos, oi_posting = ?r, oi_direction = p_direction p, oi_original = p_amount p,
      oi_applied = applied_to (clearings j) ?r, oi_residual = x\<rparr>"
  let ?new = "if is_positive x then [?it] else []"
  have step: "open_item_step (clearings j) (journal_posting j) out (?pos, ?r) = Ok (out @ ?new)"
    using here_facts(1) [OF assms(1) here] x(1) by (simp add: open_item_step_def del: checked_sub_Ok)
  have cs: "concat (map (outstanding j) (s # ss)) = (?pos, ?r) # concat (map (outstanding j) ss)"
    using r by (simp add: outstanding_def)
  have unique: "posting_here j key ?pos e' p' \<longleftrightarrow> e' = e \<and> p' = p" for e' p'
    using here by (auto simp: posting_here_def)
  have shows_new: "item_shows j ?pos e p it \<longleftrightarrow> it \<in> set ?new" for it
    using x by (auto simp: item_shows_def Let_def amt_signs amt_inj [symmetric] intro!: open_item.equality)
  obtain items where IH: "try_fold (open_item_step (clearings j) (journal_posting j)) (out @ ?new) (concat (map (outstanding j) ss)) = Ok ((out @ ?new) @ items)"
    "\<forall>it. it \<in> set items \<longleftrightarrow> (\<exists>s\<in>set ss. \<exists>e p. posting_here j key (site_position s) e p \<and> item_shows j (site_position s) e p it)"
    "in_log_order (map site_position ss) \<longrightarrow> in_log_order (map oi_position items)"
    using Cons.IH [of "out @ ?new"] Cons.prems by auto
  have "\<forall>it\<in>set items. oi_position it \<in> site_position ` set ss" using IH(2) by (auto simp: item_shows_def Let_def)
  then have "in_log_order (map site_position (s # ss)) \<longrightarrow> in_log_order (map oi_position (?new @ items))"
    using IH(3) by (auto simp: sorted_wrt_append)
  moreover have "try_fold (open_item_step (clearings j) (journal_posting j)) out (concat (map (outstanding j) (s # ss))) = Ok (out @ ?new @ items)"
    unfolding cs using step IH(1) by (simp only: try_fold.simps bindR.simps append_assoc)
  moreover have "it \<in> set (?new @ items) \<longleftrightarrow> (\<exists>t\<in>set (s # ss). \<exists>e p. posting_here j key (site_position t) e p \<and> item_shows j (site_position t) e p it)" for it
    using IH(2) unique shows_new [of it] by auto
  ultimately show ?case by blast
qed simp

lemma open_items_total:
  assumes "journal_inv E j"
  obtains items where "open_items j key = Ok items" "in_log_order (map oi_position items)"
    "\<And>it. it \<in> set items \<longleftrightarrow> (\<exists>e p. posting_here j key (oi_position it) e p \<and> item_shows j (oi_position it) e p it)"
proof -
  have here: "\<forall>s\<in>set (sites_of j key). \<exists>e p. posting_here j key (site_position s) e p"
    using site_of_journal [OF assms] by blast
  obtain items where items: "try_fold (open_item_step (clearings j) (journal_posting j)) [] (open_candidates j key) = Ok items"
    "\<forall>it. it \<in> set items \<longleftrightarrow> (\<exists>s\<in>set (sites_of j key). \<exists>e p. posting_here j key (site_position s) e p \<and> item_shows j (site_position s) e p it)"
    "in_log_order (map site_position (sites_of j key)) \<longrightarrow> in_log_order (map oi_position items)"
    using open_items_fold [OF assms here, of "[]"] by (auto simp: open_candidates_eq [OF assms])
  have order: "in_log_order (map site_position (sites_of j key))"
    using sites_in_order inv_sites [OF assms] by simp
  have site: "\<exists>s. pos = site_position s" for pos
    by (rule exI [of _ "\<lparr>site_index = pos_index pos, site_posting = pos_posting pos\<rparr>"]) (simp add: site_position_def)
  have pos: "item_shows j pos e p it \<Longrightarrow> oi_position it = pos" for pos e p it by (simp add: item_shows_def Let_def)
  have "it \<in> set items \<longleftrightarrow> (\<exists>e p. posting_here j key (oi_position it) e p \<and> item_shows j (oi_position it) e p it)" for it
  proof
    assume "it \<in> set items"
    then obtain t e p where "posting_here j key (site_position t) e p" "item_shows j (site_position t) e p it"
      using items(2) by auto
    then show "\<exists>e p. posting_here j key (oi_position it) e p \<and> item_shows j (oi_position it) e p it"
      using pos [of "site_position t" e p it] by auto
  next
    assume "\<exists>e p. posting_here j key (oi_position it) e p \<and> item_shows j (oi_position it) e p it"
    moreover obtain s where "oi_position it = site_position s" using site by blast
    ultimately show "it \<in> set items" using items(2) site_of_journal [OF assms] by metis
  qed
  then show ?thesis
    using that [of items] items(1,3) order by (simp add: open_items_def register_open_items_def)
qed

section \<open>Properties\<close>

definition line_position :: "statement_line \<Rightarrow> posting_position" where
  "line_position l = \<lparr>pos_index = ln_index l, pos_posting = ref_index (ln_posting l)\<rparr>"

lemma line_position_of [simp]: "line_position (line_of e pos p b) = pos"
  by (simp add: line_position_def line_of_def)

lemma postings_at_map: "\<forall>s\<in>set ss. resolve j s \<noteq> None \<Longrightarrow> postings_at j ss = map (\<lambda>s. snd (the (resolve j s))) ss"
  by (induction ss) (auto simp: postings_at_def List.map_filter_simps)

lemma statement_by_position:
  assumes "journal_inv E j"
  obtains lines where "statement j key = Ok lines" "map line_position lines = map site_position (sites_of j key)"
    "\<And>i. i < length lines \<Longrightarrow> \<exists>e p. posting_here j key (line_position (lines ! i)) e p
       \<and> p = filter (\<lambda>p. key_of_posting p = key) (all_postings (j_entries j)) ! i
       \<and> lines ! i = line_of e (line_position (lines ! i)) p (ln_running (lines ! i))
       \<and> (\<forall>d. side d (ln_running (lines ! i)) = moved d key (take (Suc i) (filter (\<lambda>p. key_of_posting p = key) (all_postings (j_entries j)))))"
proof -
  let ?ss = "sites_of j key" and ?ps = "filter (\<lambda>p. key_of_posting p = key) (all_postings (j_entries j))"
  obtain lines where l: "statement j key = Ok lines" "length lines = length ?ss"
    "\<forall>i<length lines. line_shows j key balance_zero (postings_at j (take i ?ss)) (?ss ! i) (lines ! i)"
    using statement_total [OF assms] .
  have all: "\<forall>s\<in>set ?ss. resolve j s \<noteq> None" using site_of_journal [OF assms] resolve_here [of j] by (metis option.distinct(1))
  have ps: "?ps = map (\<lambda>s. snd (the (resolve j s))) ?ss"
    using postings_at_map [OF all] postings_at_sites [OF assms, of key] by simp
  have before: "postings_at j (take i ?ss) = take i ?ps" for i
    using all postings_at_map [of "take i ?ss" j] set_take_subset [of i ?ss] by (auto simp: ps take_map)
  have line: "\<exists>e p. posting_here j key (site_position (?ss ! i)) e p \<and> p = ?ps ! i
      \<and> lines ! i = line_of e (site_position (?ss ! i)) p (ln_running (lines ! i))
      \<and> (\<forall>d. side d (ln_running (lines ! i)) = moved d key (take (Suc i) ?ps))" if i: "i < length lines" for i
  proof -
    obtain e p where p: "posting_here j key (site_position (?ss ! i)) e p"
      "lines ! i = line_of e (site_position (?ss ! i)) p (ln_running (lines ! i))"
      "\<forall>d. side d (ln_running (lines ! i)) = moved d key (take i ?ps @ [p])"
      using l(3) i by (auto simp: line_shows_def before)
    then have "p = ?ps ! i" using resolve_here [of j "?ss ! i" e p key] i l(2) by (simp add: ps)
    moreover have "i < length ?ps" using i l(2) by (simp add: ps)
    ultimately show ?thesis using p by (simp add: take_Suc_conv_app_nth) blast
  qed
  have pos: "line_position (lines ! i) = site_position (?ss ! i)" if "i < length lines" for i
    using line [OF that] by (metis line_position_of)
  have "map line_position lines = map site_position ?ss" using pos l(2) by (intro nth_equalityI) auto
  then show ?thesis using that [OF l(1)] line pos by simp
qed

text \<open>
  C13. A statement lists exactly the postings of the account, in log order, each with the balance the
  postings up to it add up to, and never overflows; its last line shows the balance of the account.
\<close>

theorem statement_spec:
  assumes "reachable_journal E ledger j"
  shows "\<exists>lines. statement j key = Ok lines \<and> in_log_order (map line_position lines)
    \<and> map (\<lambda>l. (ln_direction l, ln_amount l)) lines
        = map (\<lambda>p. (p_direction p, p_amount p)) (filter (\<lambda>p. key_of_posting p = key) (all_postings (j_entries j)))
    \<and> (\<forall>i<length lines. \<exists>e p. posting_here j key (line_position (lines ! i)) e p
         \<and> lines ! i = line_of e (line_position (lines ! i)) p (ln_running (lines ! i))
         \<and> (\<forall>d. side d (ln_running (lines ! i)) = moved d key (take (Suc i) (filter (\<lambda>p. key_of_posting p = key) (all_postings (j_entries j))))))
    \<and> (lines \<noteq> [] \<longrightarrow> balance_at j key None = Ok (ln_running (last lines)))"
proof -
  have inv: "journal_inv E j" by (rule reachable_journal_inv [OF assms])
  let ?ps = "filter (\<lambda>p. key_of_posting p = key) (all_postings (j_entries j))"
  obtain lines where l: "statement j key = Ok lines" "map line_position lines = map site_position (sites_of j key)"
    "\<And>i. i < length lines \<Longrightarrow> \<exists>e p. posting_here j key (line_position (lines ! i)) e p \<and> p = ?ps ! i
       \<and> lines ! i = line_of e (line_position (lines ! i)) p (ln_running (lines ! i))
       \<and> (\<forall>d. side d (ln_running (lines ! i)) = moved d key (take (Suc i) ?ps))"
    using statement_by_position [OF inv] by metis
  have len: "length lines = length ?ps"
    using arg_cong [OF l(2), of length] postings_at_sites [OF inv, of key] postings_at_map [of "sites_of j key" j]
      site_of_journal [OF inv, of _ key] resolve_here [of j] by (metis length_map option.distinct(1))
  have "in_log_order (map line_position lines)" using l(2) sites_in_order inv_sites [OF inv] by simp
  moreover have "map (\<lambda>l. (ln_direction l, ln_amount l)) lines = map (\<lambda>p. (p_direction p, p_amount p)) ?ps"
  proof (intro nth_equalityI)
    fix i
    assume "i < length (map (\<lambda>l. (ln_direction l, ln_amount l)) lines)"
    then have i: "i < length lines" by simp
    obtain e p where "p = ?ps ! i" "lines ! i = line_of e (line_position (lines ! i)) p (ln_running (lines ! i))"
      using l(3) [OF i] by blast
    moreover from this(2) have "ln_direction (lines ! i) = p_direction p" "ln_amount (lines ! i) = p_amount p"
      by (metis line_of_def statement_line.select_convs(4), metis line_of_def statement_line.select_convs(5))
    ultimately show "map (\<lambda>l. (ln_direction l, ln_amount l)) lines ! i = map (\<lambda>p. (p_direction p, p_amount p)) ?ps ! i"
      using len i by simp
  qed (simp add: len)
  moreover have "balance_at j key None = Ok (ln_running (last lines))" if "lines \<noteq> []"
  proof -
    have "length lines - 1 < length lines" "take (Suc (length lines - 1)) ?ps = ?ps" using that len by (simp_all flip: len)
    then have "side d (ln_running (last lines)) = moved d key ?ps" for d
      using l(3) [of "length lines - 1"] that by (metis last_conv_nth)
    then have "side d (ln_running (last lines)) = side d (tb_get_or_zero (balances j) key)" for d
      using shows_side [OF derived_okD(5) [OF journal_invD(1) [OF inv]]] by (simp add: moved_on_key)
    then show ?thesis by (simp add: balance_at_def balance_eqI)
  qed
  ultimately show ?thesis using l(1,3) by blast
qed

lemma demo_books_postings:
  "map p_amount (filter (\<lambda>p. key_of_posting p = BalanceKey (AccountId 0) EUR Settled) (all_postings (j_entries (demo_books E))))
     = [Amount 7, Amount 5, Amount 7]"
  by (simp add: demo_books(2) demo_sale_fields demo_reversal_fields key_of_posting_def inverted_def)

lemma statement_spec_witness:
  "\<exists>lines. statement (demo_books toy_env) (BalanceKey (AccountId 0) EUR Settled) = Ok lines
     \<and> map ln_amount lines = [Amount 7, Amount 5, Amount 7]"
proof -
  let ?key = "BalanceKey (AccountId 0) EUR Settled"
  obtain lines where l: "statement (demo_books toy_env) ?key = Ok lines"
    "map (\<lambda>l. (ln_direction l, ln_amount l)) lines
        = map (\<lambda>p. (p_direction p, p_amount p)) (filter (\<lambda>p. key_of_posting p = ?key) (all_postings (j_entries (demo_books toy_env))))"
    using statement_spec [OF demo_books(1), of toy_env ?key] by blast
  have "map ln_amount lines = map p_amount (filter (\<lambda>p. key_of_posting p = ?key) (all_postings (j_entries (demo_books toy_env))))"
    using arg_cong [OF l(2), of "map snd"] by (simp add: comp_def)
  then show ?thesis using l(1) demo_books_postings by simp
qed

text \<open>
  C14. The open items of an account are exactly its postings with something left after the clearings
  that have not been released: each once, in log order, with what was applied to it and what is left.
  Reading them never fails.
\<close>

theorem open_items_spec:
  assumes "reachable_journal E ledger j"
  shows "\<exists>items. open_items j key = Ok items \<and> in_log_order (map oi_position items)
    \<and> (\<forall>it. it \<in> set items \<longleftrightarrow> (\<exists>e p. posting_here j key (oi_position it) e p \<and> item_shows j (oi_position it) e p it))"
  using open_items_total [OF reachable_journal_inv [OF assms], of key] by metis

lemma open_items_spec_witness:
  "\<exists>items it. open_items (demo_one toy_env) (BalanceKey (AccountId 0) EUR Settled) = Ok items \<and> it \<in> set items \<and> amt (oi_residual it) = 7"
proof -
  let ?key = "BalanceKey (AccountId 0) EUR Settled" and ?j = "demo_one toy_env"
  let ?p = "e_postings (demo_sale 1 7 35) ! 0" and ?pos = "\<lparr>pos_index = 0, pos_posting = 0\<rparr>"
  have here: "posting_here ?j ?key ?pos (demo_sale 1 7 35) ?p"
    by (simp add: posting_here_def posting_at_def demo_one(2) demo_sale_fields key_of_posting_def)
  have none: "cleared_total (clearings ?j) r = 0" for r
  proof -
    have "clearings ?j = clearing_register_new" using demo_one(3) [of toy_env] by (simp add: same_rest_def demo_empty_def journal_new_def)
    then show ?thesis by (simp add: cleared_total_def live_def recorded_def clearing_register_new_def List.map_filter_simps)
  qed
  let ?it = "\<lparr>oi_position = ?pos, oi_posting = PostingRef (EntryId 1) 0, oi_direction = Debit, oi_original = Amount 7,
      oi_applied = amount_zero, oi_residual = Amount 7\<rparr>"
  have "item_shows ?j ?pos (demo_sale 1 7 35) ?p ?it"
    by (simp add: item_shows_def Let_def none demo_sale_fields demo_amounts)
  then show ?thesis
    using open_items_spec [OF demo_one(1), of toy_env ?key] here demo_amounts(1) by (metis open_item.select_convs(1,6))
qed

lemma open_items_cong:
  assumes "\<And>p. applied_to (clearings k) p = applied_to (clearings j) p" "k = j\<lparr>clearings := clearings k\<rparr>"
  shows "open_items k key = open_items j key"
proof -
  have "open_item_step (clearings k) lk = open_item_step (clearings j) lk" for lk
    by (intro ext) (simp add: open_item_step_def assms(1) cong: if_cong)
  moreover have "open_candidates k key = open_candidates j key" "journal_posting k = journal_posting j"
    by (subst assms(2); simp add: open_candidates_def entry_at_def sites_of_def journal_posting_def fun_eq_iff cong: if_cong)+
  ultimately show ?thesis by (simp add: open_items_def register_open_items_def)
qed

text \<open>
  C15. A clearing is accepted exactly when its identifier is new, it names at least two different
  postings, all of the account it is about, applies a positive amount to each that no more than exhausts
  what is left of it, and debits and credits applied are equal. It is then live; otherwise nothing
  changes. Either way no posting is ever applied beyond its amount.
\<close>

theorem clear_spec:
  assumes "reachable_journal E ledger j"
  shows "if cl_id c \<notin> cl_id ` set (recorded (clearings j)) \<and> clearing_ok (journal_posting j) (clearings j) c
    then \<exists>k. clear E c j = (Ok (), k) \<and> live (clearings k) = live (clearings j) @ [c]
      \<and> (\<forall>p. cleared_total (clearings k) p \<noteq> 0 \<longrightarrow> (\<exists>q. journal_posting k p = Some q \<and> cleared_total (clearings k) p \<le> amt (p_amount q)))
    else \<exists>x. clear E c j = (Err (JournalClearing x), j)"
proof -
  note ok = journal_invD(10) [OF reachable_journal_inv [OF assms]]
  obtain res r where r: "clear_register E c (journal_posting j) (clearings j) = (res, r)" by fastforce
  show ?thesis
  proof (cases res)
    case (Inl x)
    then have "r = clearings j" using clear_register_Err r by blast
    then show ?thesis using clear_register_Ok [OF ok, of E c] recorded_contains [OF ok] r Inl by (simp add: clear_def)
  next
    case (Inr u)
    then have r': "clear_register E c (journal_posting j) (clearings j) = (Ok (), r)" using r by simp
    have "journal_posting (j\<lparr>clearings := r\<rparr>) = journal_posting j" by (rule journal_posting_cong) simp_all
    then show ?thesis
      using clear_register_Ok [OF ok, of E c] recorded_contains [OF ok] clear_register_inv [OF ok r'] r'
      by (auto simp: clear_def intro: register_okD(5))
  qed
qed

lemma clear_spec_witness:
  "reachable_journal toy_env (LedgerId (Label [76])) (demo_books toy_env)
   \<and> (\<exists>x. clear toy_env (clearing_new (ClearingId 1) (BalanceKey (AccountId 0) EUR Settled) (Date 50)) (demo_books toy_env)
        = (Err (JournalClearing x), demo_books toy_env))"
  using clear_spec [of toy_env _ "demo_books toy_env", OF demo_books(1), of "clearing_new (ClearingId 1) (BalanceKey (AccountId 0) EUR Settled) (Date 50)"]
    demo_books(1) by (auto simp: clearing_ok_def clearing_new_def)

text \<open>
  Releasing a clearing undoes it: right after a clearing was accepted it can be released, and then
  every account has the open items it had before, while its identifier stays used.
\<close>

theorem reset_undoes_clear:
  assumes "reachable_journal E ledger j" "clear E c j = (Ok (), k)"
  shows "\<exists>l. reset_clearing (cl_id c) on k = (Ok (), l) \<and> (\<forall>key. open_items l key = open_items j key)
    \<and> (\<forall>d. cl_id d = cl_id c \<longrightarrow> clear E d l = (Err (JournalClearing (ClearingDuplicateId (cl_id c))), l))"
proof -
  have inv: "journal_inv E j" by (rule reachable_journal_inv [OF assms(1)])
  note ok = journal_invD(10) [OF inv]
  obtain r where r: "clear_register E c (journal_posting j) (clearings j) = (Ok (), r)" "k = j\<lparr>clearings := r\<rparr>"
    using assms(2) unfolding clear_def by (cases "clear_register E c (journal_posting j) (clearings j)") auto
  note st = clear_register_state [OF ok r(1)] and inv' = clear_register_inv [OF ok r(1)]
  have "fst (reset_register (cl_id c) on r) = Ok ()" unfolding reset_register_Ok [OF inv'(1)] by (simp add: inv'(2))
  then obtain r2 where r2: "reset_register (cl_id c) on r = (Ok (), r2)" by (cases "reset_register (cl_id c) on r") auto
  obtain d where d: "d \<in> set (live r)" "cl_id d = cl_id c" "\<And>p. amt (applied_to r2 p) = amt (applied_to r p) - item_sum p (cl_items d)"
    "cr_by_id r2 = cr_by_id r" using reset_register_state [OF inv'(1) r2] by metis
  have "distinct (map cl_id (live r))" using distinct_recorded [OF inv'(1)] by (simp add: live_def distinct_map_filter)
  then have "inj_on cl_id (set (live r))" by (simp add: distinct_map)
  moreover have "c \<in> set (live r)" by (simp add: inv'(2))
  ultimately have "d = c" using d(1,2) by (meson inj_onD)
  then have same: "applied_to r2 p = applied_to (clearings j) p" for p using d(3) st(4) by (simp add: amt_inj [symmetric])
  let ?l = "k\<lparr>clearings := r2\<rparr>"
  have "open_items ?l key = open_items j key" for key using same r(2) by (intro open_items_cong) simp_all
  moreover have "clear E f ?l = (Err (JournalClearing (ClearingDuplicateId (cl_id c))), ?l)" if "cl_id f = cl_id c" for f
    using that by (simp add: clear_def clear_register_def d(4) st(3) bt_contains_def)
  ultimately show ?thesis using r2 r(2) by (simp add: reset_clearing_def)
qed

text \<open>Two postings of the example that offset one another: the sale and its reversal, on one account.\<close>

definition demo_clearing :: clearing where
  "demo_clearing = clearing_apply (clearing_apply (clearing_new (ClearingId 1) (BalanceKey (AccountId 0) EUR Settled) (Date 50))
     (PostingRef (EntryId 1) 0) (Amount 7)) (PostingRef (EntryId 3) 0) (Amount 7)"

lemma demo_clear: "\<exists>k. clear E demo_clearing (demo_books E) = (Ok (), k)"
proof -
  let ?j = "demo_books E"
  note inv = reachable_journal_inv [OF demo_books(1) [of E]]
  have fresh: "clearings ?j = clearing_register_new" using demo_books(3) [of E] by (simp add: same_rest_def demo_empty_def journal_new_def)
  have here: "posting_here ?j (BalanceKey (AccountId 0) EUR Settled) \<lparr>pos_index = 0, pos_posting = 0\<rparr> (demo_sale 1 7 35) (e_postings (demo_sale 1 7 35) ! 0)"
    "posting_here ?j (BalanceKey (AccountId 0) EUR Settled) \<lparr>pos_index = 2, pos_posting = 0\<rparr> demo_reversal (inverted (e_postings (demo_sale 1 7 35) ! 0))"
    by (simp_all add: posting_here_def posting_at_def demo_books(2) demo_sale_fields demo_reversal_fields key_of_posting_def inverted_def)
  have lk: "journal_posting ?j (PostingRef (EntryId 1) 0) = Some (e_postings (demo_sale 1 7 35) ! 0)"
    "journal_posting ?j (PostingRef (EntryId 3) 0) = Some (inverted (e_postings (demo_sale 1 7 35) ! 0))"
    using here_facts(1) [OF inv here(1)] here_facts(1) [OF inv here(2)] by (simp_all add: demo_sale_fields demo_reversal_fields)
  have "clearing_ok (journal_posting ?j) (clearings ?j) demo_clearing"
    by (simp add: clearing_ok_def item_ok_def fresh demo_clearing_def clearing_apply_def clearing_new_def clearing_key_def lk on_side_def
        demo_sale_fields inverted_def dir_inverse_def demo_amounts key_of_posting_def applied_to_def clearing_register_new_def i64_max_def)
  then have "fst (clear_register E demo_clearing (journal_posting ?j) (clearings ?j)) = Ok ()"
    using clear_register_Ok [OF journal_invD(10) [OF inv]] by (simp add: fresh clearing_register_new_def)
  then show ?thesis
    by (cases "clear_register E demo_clearing (journal_posting ?j) (clearings ?j)") (simp add: clear_def)
qed

lemma reset_undoes_clear_witness:
  "\<exists>k l. clear toy_env demo_clearing (demo_books toy_env) = (Ok (), k) \<and> reset_clearing (ClearingId 1) (Date 51) k = (Ok (), l)
     \<and> (\<forall>key. open_items l key = open_items (demo_books toy_env) key)"
proof -
  obtain k where k: "clear toy_env demo_clearing (demo_books toy_env) = (Ok (), k)" using demo_clear by blast
  have "cl_id demo_clearing = ClearingId 1" by (simp add: demo_clearing_def clearing_apply_def clearing_new_def)
  then show ?thesis using reset_undoes_clear [OF demo_books(1) k, of "Date 51"] k by auto
qed

end
