(* ===== verification/Journal_Books.thy ===== *)
theory Journal_Books
  imports Journal_Items
begin

text \<open>The shape of the books in every state the journal can reach: well-formed entries, indexes that agree with them, reversals that pair up.\<close>

section \<open>Well-formed books\<close>

lemma index_of_iff:
  "journal_inv E j \<Longrightarrow> index_of j i = Some n \<longleftrightarrow> (\<exists>e. entry_at j n = Some e \<and> e_id e = i)"
  using derived_okD(1) [OF journal_invD(1), of E j] by (simp add: index_of_def ids_ok_def entry_at_def)

lemma resolve_all:
  assumes "journal_inv E j"
  shows "List.map_filter (resolve j) (sites_of j key) = touching key (j_entries j)"
  unfolding inv_sites(1) [OF assms]
  by (rule resolve_sites) (simp_all add: entry_at_def inv_sites(2) [OF assms])

lemma entries_sound:
  "journal_inv E j \<Longrightarrow> entry_at j n = Some e \<Longrightarrow> sound_entry e"
  using journal_invD(2) [of E j e] by (auto simp: entry_at_def split: if_splits)

text \<open>
  C6. The books are well formed in every state the journal can reach: every recorded entry has at most
  the permitted number of postings, all of positive amounts, debits and credits equal in every
  currency; the index of ids finds exactly the position that holds the entry of that id; and the sites kept for a balance key lead
  to exactly the recorded postings on it, in log order.
\<close>

theorem books_well_formed:
  assumes "reachable_journal E ledger j"
  shows "(\<forall>n e. entry_at j n = Some e \<longrightarrow> length (e_postings e) \<le> max_postings \<and> (\<forall>p\<in>set (e_postings e). 0 < amt (p_amount p))
             \<and> (\<forall>c. gross Debit c (e_postings e) = gross Credit c (e_postings e)))
         \<and> (\<forall>i n. index_of j i = Some n \<longleftrightarrow> (\<exists>e. entry_at j n = Some e \<and> e_id e = i))
         \<and> (\<forall>key. List.map_filter (resolve j) (sites_of j key)
             = concat (map (\<lambda>e. map (Pair e) (filter (\<lambda>p. key_of_posting p = key) (e_postings e))) (j_entries j)))"
  using entries_sound [OF reachable_journal_inv [OF assms]] index_of_iff [OF reachable_journal_inv [OF assms]]
    resolve_all [OF reachable_journal_inv [OF assms]]
  by (simp add: sound_entry_def touching_def)

lemma books_well_formed_witness:
  "index_of (demo_books toy_env) (EntryId 3) = Some 2 \<and> gross Debit EUR (e_postings demo_reversal) = gross Credit EUR (e_postings demo_reversal)
   \<and> length (List.map_filter (resolve (demo_books toy_env)) (sites_of (demo_books toy_env) (BalanceKey (AccountId 1) EUR Settled))) = 3"
proof -
  note facts = books_well_formed [OF demo_books(1) [of toy_env]]
  have at: "entry_at (demo_books toy_env) 2 = Some demo_reversal" by (simp add: entry_at_def demo_books(2))
  have "index_of (demo_books toy_env) (EntryId 3) = Some 2" using facts at demo_reversal_fields(2) by blast
  moreover have "gross Debit EUR (e_postings demo_reversal) = gross Credit EUR (e_postings demo_reversal)" using facts at by blast
  moreover note facts [THEN conjunct2, THEN conjunct2, rule_format, of "BalanceKey (AccountId 1) EUR Settled"]
  ultimately show ?thesis
    by (simp add: demo_books(2) demo_sale_fields demo_reversal_fields key_of_posting_def inverted_def)
qed

section \<open>Reversals\<close>

lemma reversal_of_iff:
  assumes "journal_inv E j"
  shows "reversal_of j i = Some r \<longleftrightarrow> (\<exists>m f. entry_at j m = Some f \<and> e_reverses f = Some i \<and> e_id f = r)"
  using derived_okD(3) [OF journal_invD(1) [OF assms]] by (auto simp: reversal_of_def reversals_ok_def entry_at_def)

text \<open>
  C11. Reversals pair up. An entry is reversed by exactly one entry or by none; the journal's table
  names that entry; the original stands earlier in the log, is not itself a reversal, and the reversing
  entry carries its postings with the sides exchanged.
\<close>

theorem reversals_pair_up:
  assumes "reachable_journal E ledger j" "reversal_of j i = Some r"
  shows "\<exists>n m e f. n < m \<and> entry_at j n = Some e \<and> e_id e = i \<and> e_reverses e = None
           \<and> entry_at j m = Some f \<and> e_id f = r \<and> e_reverses f = Some i \<and> is_inversion_of e f
           \<and> (\<forall>k g. entry_at j k = Some g \<and> e_reverses g = Some i \<longrightarrow> k = m)"
proof -
  note inv = reachable_journal_inv [OF assms(1)]
  obtain m f where m: "entry_at j m = Some f" "e_reverses f = Some i" "e_id f = r"
    using assms(2) by (auto simp: reversal_of_iff [OF inv])
  then obtain n where n: "n < m" "e_id (j_entries j ! n) = i" "e_reverses (j_entries j ! n) = None"
      "is_inversion_of (j_entries j ! n) f"
    using journal_invD(4) [OF inv] by (auto simp: reversal_links_def entry_at_def split: if_splits)
  have "k = m" if k: "entry_at j k = Some g" "e_reverses g = Some i" for k g
  proof -
    have "reversal_of j i = Some (e_id g)" using k by (auto simp: reversal_of_iff [OF inv])
    then have "e_id g = e_id f" using assms(2) m(3) by simp
    then show ?thesis using k m index_of_iff [OF inv, of "e_id f"] by (metis option.inject)
  qed
  moreover have "entry_at j n = Some (j_entries j ! n)" using m(1) n(1) by (auto simp: entry_at_def split: if_splits)
  ultimately show ?thesis using m n by blast
qed

lemma reversals_pair_up_witness:
  "reversal_of (demo_books toy_env) (EntryId 1) = Some (EntryId 3)
   \<and> (\<exists>n m e f. n < m \<and> entry_at (demo_books toy_env) n = Some e \<and> e_id e = EntryId 1 \<and> e_reverses e = None
           \<and> entry_at (demo_books toy_env) m = Some f \<and> e_id f = EntryId 3 \<and> is_inversion_of e f)"
proof -
  have "entry_at (demo_books toy_env) 2 = Some demo_reversal" by (simp add: entry_at_def demo_books(2))
  then have r: "reversal_of (demo_books toy_env) (EntryId 1) = Some (EntryId 3)"
    using reversal_of_iff [OF reachable_journal_inv [OF demo_books(1)]] demo_reversal_fields by blast
  then show ?thesis using reversals_pair_up [OF demo_books(1) r] by blast
qed

end
