(* ===== verification/Journal_Figures.thy ===== *)
theory Journal_Figures
  imports Journal_Items
begin

text \<open>
  The figures the journal reports: balances and trial balances over any prefix of the log and through
  any day, checkpoints, assertions, and what double entry makes of the totals.
\<close>

section \<open>Balances over a part of the log\<close>

lemma moved_part:
  assumes "journal_inv E j" "set es \<subseteq> set (j_entries j)"
  shows "\<forall>p\<in>set (all_postings es). 0 < amt (p_amount p)"
  using journal_invD(2) [OF assms(1)] assms(2) by (auto simp: all_postings_def sound_entry_def)

lemma moved_append: "moved d key (ps @ qs) = moved d key ps + moved d key qs"
  by (induction ps) auto

lemma moved_prefix_fits:
  assumes "journal_inv E j"
  shows "moved d key (all_postings (take n (j_entries j))) \<le> i64_max"
proof -
  have "moved d key (all_postings (take n (j_entries j))) + moved d key (all_postings (drop n (j_entries j)))
      = moved d key (all_postings (j_entries j))"
    by (metis moved_append all_postings_simps(3) append_take_drop_id)
  moreover have "0 \<le> moved d key (all_postings (drop n (j_entries j)))"
    using moved_part [OF assms set_drop_subset] by (rule moved_nonneg)
  ultimately show ?thesis using moved_fits [OF assms, of d key] by simp
qed

lemma prefix_total:
  assumes "journal_inv E j"
  shows "\<exists>tb. apply_postings bt_empty (all_postings (take n (j_entries j))) = Ok tb \<and> shows_postings tb (all_postings (take n (j_entries j)))"
proof -
  let ?ps = "all_postings (take n (j_entries j))"
  have "\<exists>tb. apply_postings bt_empty ?ps = Ok tb"
    using apply_postings_total [OF shows_empty, of ?ps] moved_prefix_fits [OF assms] moved_part [OF assms set_take_subset] by simp
  then show ?thesis using apply_postings_shows [OF shows_empty] by fastforce
qed

text \<open>The postings a figure is about: those of the whole log, or of the entries before a size.\<close>

definition upto :: "journal \<Rightarrow> nat option \<Rightarrow> posting list" where
  "upto j n = all_postings (case n of None \<Rightarrow> j_entries j | Some m \<Rightarrow> take m (j_entries j))"

lemma trial_balance_at_shows:
  assumes "journal_inv E j"
  obtains tb where "trial_balance_at j n = Ok tb" "shows_postings tb (upto j n)"
proof -
  have whole: "shows_postings (balances j) (all_postings (j_entries j))" by (rule derived_okD(5) [OF journal_invD(1) [OF assms]])
  show ?thesis
  proof (cases n)
    case None
    then show ?thesis using that [of "balances j"] whole by (simp add: trial_balance_at_def upto_def)
  next
    case (Some m)
    then show ?thesis
      using that [of "balances j"] whole prefix_total [OF assms, of m] that
      by (cases "length (j_entries j) \<le> m") (auto simp: trial_balance_at_def upto_def)
  qed
qed

lemma postings_on_prefix_eq:
  assumes "journal_inv E j"
  shows "postings_on_prefix j key (Some m) = filter (\<lambda>p. key_of_posting p = key) (all_postings (take m (j_entries j)))"
proof -
  have "List.map_filter (resolve j) (sites_from key 0 (take m (j_entries j))) = touching key (take m (j_entries j))"
    by (rule resolve_sites) (use inv_sites(2) [OF assms] in \<open>auto simp: entry_at_def dest: in_set_takeD\<close>)
  then show ?thesis
    by (simp add: postings_on_prefix_def inv_sites(1) [OF assms] sites_prefix map_filter_comp touching_postings)
qed

lemma fold_on_key:
  assumes "\<forall>p\<in>set ps. key_of_posting p = key \<and> 0 < amt (p_amount p)" "\<forall>d. moved d key ps \<le> i64_max"
  obtains b where "fold_balance balance_zero ps = Ok b" "\<And>d. side d b = moved d key ps"
proof -
  obtain b where b: "fold_balance balance_zero ps = Ok b"
    using fold_balance_total [of ps key balance_zero] assms by auto
  then have "side d b = moved d key ps" for d using fold_balance_Ok [of ps key balance_zero b d] assms(1) by simp
  then show ?thesis using that b by blast
qed

lemma balance_at_shows:
  assumes "journal_inv E j"
  obtains b where "balance_at j key n = Ok b" "\<And>d. side d b = moved d key (upto j n)"
proof (cases n)
  case None
  then show ?thesis
    using that [of "tb_get_or_zero (balances j) key"] shows_side [OF derived_okD(5) [OF journal_invD(1) [OF assms]]]
    by (simp add: balance_at_def upto_def)
next
  case (Some m)
  let ?ps = "filter (\<lambda>p. key_of_posting p = key) (all_postings (take m (j_entries j)))"
  have "\<forall>p\<in>set ?ps. key_of_posting p = key \<and> 0 < amt (p_amount p)" using moved_part [OF assms set_take_subset] by auto
  moreover have "\<forall>d. moved d key ?ps \<le> i64_max" using moved_prefix_fits [OF assms] by (simp add: moved_on_key)
  ultimately obtain b where "fold_balance balance_zero ?ps = Ok b" "\<And>d. side d b = moved d key ?ps" by (rule fold_on_key) blast
  then show ?thesis
    using that [of b] Some by (simp add: balance_at_def postings_on_prefix_eq [OF assms] upto_def moved_on_key)
qed

text \<open>
  C8. The three ways to read a balance agree, over the whole log and over any prefix of it: the trial
  balance, one account's balance folded from its own postings, and the sums of what was posted. None of
  them ever overflows.
\<close>

theorem figures_agree:
  assumes "reachable_journal E ledger j"
  shows "\<exists>tb. trial_balance_at j n = Ok tb \<and> shows_postings tb (upto j n)
    \<and> (\<forall>key. balance_at j key n = Ok (tb_get_or_zero tb key))
    \<and> (\<forall>key. n = Some (length (j_entries j)) \<longrightarrow> balance_at j key n = balance_at j key None)"
proof -
  have inv: "journal_inv E j" by (rule reachable_journal_inv [OF assms])
  obtain tb where tb: "trial_balance_at j n = Ok tb" "shows_postings tb (upto j n)" using trial_balance_at_shows [OF inv] .
  have eq: "balance_at j key n = Ok (tb_get_or_zero tb key)" for key
  proof -
    obtain b where b: "balance_at j key n = Ok b" "\<And>d. side d b = moved d key (upto j n)" using balance_at_shows [OF inv] by metis
    then show ?thesis using shows_side [OF tb(2)] by (simp add: balance_eqI)
  qed
  have "balance_at j key n = balance_at j key None" if "n = Some (length (j_entries j))" for key
  proof -
    obtain a b where "balance_at j key n = Ok a" "\<And>d. side d a = moved d key (upto j n)"
      "balance_at j key None = Ok b" "\<And>d. side d b = moved d key (upto j None)" using balance_at_shows [OF inv] by metis
    then show ?thesis using that by (simp add: upto_def balance_eqI)
  qed
  then show ?thesis using tb eq by blast
qed

lemma figures_agree_witness:
  "\<exists>b. balance_at (demo_books toy_env) (BalanceKey (AccountId 0) EUR Settled) (Some 2) = Ok b \<and> side Debit b = 12 \<and> side Credit b = 0"
proof -
  let ?j = "demo_books toy_env" and ?key = "BalanceKey (AccountId 0) EUR Settled"
  obtain tb where tb: "shows_postings tb (upto ?j (Some 2))" "balance_at ?j ?key (Some 2) = Ok (tb_get_or_zero tb ?key)"
    using figures_agree [OF demo_books(1), of toy_env "Some 2"] by blast
  have "upto ?j (Some 2) = all_postings [demo_sale 1 7 35, demo_sale 2 5 40]" by (simp add: upto_def demo_books(2) numeral_2_eq_2)
  then have "side d (tb_get_or_zero tb ?key) = moved d ?key (all_postings [demo_sale 1 7 35, demo_sale 2 5 40])" for d
    using shows_side [OF tb(1)] by simp
  then show ?thesis using tb(2) by (simp add: demo_sale_fields key_of_posting_def demo_amounts)
qed

section \<open>Checkpoints\<close>

lemma head_at_size:
  assumes "derived_ok E j" "n \<le> length (j_entries j)"
  shows "journal_head_at E j n = Ok \<lparr>th_size = n, th_root = mth (env_b3 E) (map (content_hash E) (take n (j_entries j)))\<rparr>"
  using derived_okD(4) [OF assms(1)] assms(2) by (simp add: journal_head_at_def head_at_def root_at_def log_ok_def take_map)

text \<open>
  C16. A checkpoint stays good: one taken at any time, always possible, verifies at every later time;
  and one whose balance was altered is refused.
\<close>

theorem checkpoint_stays_good:
  assumes "reachable_journal E ledger j" "(journal_step E)\<^sup>*\<^sup>* j later"
  shows "\<exists>c. take_checkpoint E j key = Ok c \<and> verify_checkpoint E later c = Ok ()
    \<and> (\<forall>b. b \<noteq> cp_balance c \<longrightarrow> verify_checkpoint E later (c\<lparr>cp_balance := b\<rparr>) = Err BalanceMismatch)"
proof -
  have inv: "journal_inv E j" by (rule reachable_journal_inv [OF assms(1)])
  then have inv': "journal_inv E later" by (rule journal_steps_inv [OF assms(2)])
  obtain more where more: "j_entries later = j_entries j @ more" using steps_append [OF assms(2) inv] by blast
  let ?n = "length (j_entries j)"
  obtain b where b: "balance_at j key None = Ok b" "\<And>d. side d b = moved d key (upto j None)" using balance_at_shows [OF inv] by metis
  let ?c = "checkpoint_new key b (journal_head E j)"
  have head: "journal_head_at E later ?n = Ok (journal_head E j)"
    using head_at_size [OF journal_invD(1) [OF inv'], of ?n] more by (simp add: journal_head_eq [OF journal_invD(1) [OF inv]])
  obtain b' where b': "balance_at later key (Some ?n) = Ok b'" "\<And>d. side d b' = moved d key (upto later (Some ?n))"
    using balance_at_shows [OF inv'] by metis
  then have same: "balance_at later key (Some ?n) = Ok b" using b(2) more by (simp add: upto_def balance_eqI)
  have size: "cp_size ?c = ?n" by (simp add: cp_size_def checkpoint_new_def journal_head_eq [OF journal_invD(1) [OF inv]])
  have "take_checkpoint E j key = Ok ?c" by (simp add: take_checkpoint_def b(1))
  moreover have "verify_checkpoint E later ?c = Ok ()"
    using head same size more by (simp add: verify_checkpoint_def Let_def) (simp add: checkpoint_new_def same)
  moreover have "verify_checkpoint E later (?c\<lparr>cp_balance := a\<rparr>) = Err BalanceMismatch" if "a \<noteq> b" for a
    using head same size more that by (simp add: verify_checkpoint_def Let_def cp_size_def) (simp add: checkpoint_new_def same)
  ultimately show ?thesis by (intro exI [of _ ?c]) (simp add: checkpoint_new_def)
qed

lemma checkpoint_stays_good_witness:
  "\<exists>c. take_checkpoint toy_env (demo_one toy_env) (BalanceKey (AccountId 0) EUR Settled) = Ok c
     \<and> verify_checkpoint toy_env (demo_books toy_env) c = Ok ()"
proof -
  have "(journal_step toy_env)\<^sup>*\<^sup>* (demo_one toy_env) (demo_books toy_env)"
    using demo_step_two [of toy_env] demo_step_books [of toy_env] by auto
  from checkpoint_stays_good [OF demo_one(1) this] show ?thesis by blast
qed

section \<open>Double entry\<close>

text \<open>The total of one side of a trial balance in one currency, over all accounts and both layers.\<close>

definition row_total :: "direction \<Rightarrow> currency \<Rightarrow> trial_balance \<Rightarrow> int" where
  "row_total d c tb = sum_list (map (\<lambda>(k, b). side d b) (filter (\<lambda>(k, b). k_currency k = c) (bt_iter tb)))"

lemma sum_moved:
  assumes "finite K" "\<forall>p\<in>set ps. p_currency p = c \<longrightarrow> key_of_posting p \<in> K" "\<forall>k\<in>K. k_currency k = c"
  shows "(\<Sum>k\<in>K. moved d k ps) = gross d c ps"
  using assms(2)
proof (induction ps)
  case (Cons p ps)
  have "(\<Sum>k\<in>K. if key_of_posting p = k \<and> p_direction p = d then amt (p_amount p) else 0)
      = (if p_direction p = d \<and> p_currency p = c then amt (p_amount p) else 0)"
  proof (cases "p_direction p = d \<and> p_currency p = c")
    case True
    then have "key_of_posting p \<in> K" using Cons.prems by simp
    then show ?thesis using True assms(1) by simp
  next
    case False
    then have "\<forall>k\<in>K. \<not> (key_of_posting p = k \<and> p_direction p = d)" using assms(3) by (auto simp: key_of_posting_def)
    then show ?thesis using False by (auto intro!: sum.neutral)
  qed
  then show ?case using Cons by (simp add: sum.distrib gross_def)
qed (simp add: gross_def)

lemma row_total_gross:
  assumes "shows_postings tb ps"
  shows "row_total d c tb = gross d c ps"
proof -
  let ?rows = "filter (\<lambda>(k, b). k_currency k = c) (bt_iter tb)"
  have dist: "distinct (map fst ?rows)" using bt_distinct [of tb] by (simp add: distinct_map_filter)
  have val: "side d b = moved d k ps" if "(k, b) \<in> set (bt_iter tb)" for k b
    using that shows_side [OF assms, of d k] by (simp add: tb_get_or_zero_def flip: bt_get_iter)
  have "row_total d c tb = sum_list (map (\<lambda>k. moved d k ps) (map fst ?rows))"
    unfolding row_total_def by (intro arg_cong [of _ _ sum_list]) (auto simp: val intro!: map_cong)
  also have "\<dots> = (\<Sum>k\<in>set (map fst ?rows). moved d k ps)" using dist by (rule sum_list_distinct_conv_sum_set)
  also have "\<dots> = gross d c ps"
  proof (rule sum_moved)
    have "bt_get tb (key_of_posting p) \<noteq> None" if "p \<in> set ps" for p using shows_key [OF assms] that by blast
    then show "\<forall>p\<in>set ps. p_currency p = c \<longrightarrow> key_of_posting p \<in> set (map fst ?rows)"
      by (force simp: bt_get_iter key_of_posting_def)
  qed auto
  finally show ?thesis .
qed

text \<open>
  C7. Double entry holds of the books as a whole: in every currency, over all accounts and both layers,
  the debits of the trial balance equal its credits, at any size of the log.
\<close>

theorem double_entry:
  assumes "reachable_journal E ledger j" "trial_balance_at j n = Ok tb"
  shows "row_total Debit c tb = row_total Credit c tb"
proof -
  have inv: "journal_inv E j" by (rule reachable_journal_inv [OF assms(1)])
  have tb: "shows_postings tb (upto j n)" using trial_balance_at_shows [OF inv, of n] assms(2) by auto
  let ?es = "case n of None \<Rightarrow> j_entries j | Some m \<Rightarrow> take m (j_entries j)"
  have split: "gross d c (all_postings es) = sum_list (map (\<lambda>e. gross d c (e_postings e)) es)" for d es
    by (induction es) (simp_all add: gross_def)
  have "set ?es \<subseteq> set (j_entries j)" by (auto dest: in_set_takeD split: option.splits)
  then have "map (\<lambda>e. gross Debit c (e_postings e)) ?es = map (\<lambda>e. gross Credit c (e_postings e)) ?es"
    using journal_invD(2) [OF inv] by (intro map_cong refl) (auto simp: sound_entry_def)
  then show ?thesis unfolding row_total_gross [OF tb] upto_def split by (rule arg_cong)
qed

lemma double_entry_witness:
  "trial_balance_at (demo_books toy_env) None = Ok (balances (demo_books toy_env))
     \<and> row_total Debit EUR (balances (demo_books toy_env)) = row_total Credit EUR (balances (demo_books toy_env))"
  using double_entry [OF demo_books(1), of toy_env None "balances (demo_books toy_env)" EUR] by (simp add: trial_balance_at_def)

text \<open>A payment recorded on one layer against the other: settled on the debit side, pending on the credit side.\<close>

definition demo_held :: entry where
  "demo_held = (demo_sale 1 7 35)\<lparr>e_postings := map (\<lambda>p. if p_direction p = Credit then p\<lparr>p_layer := Pending\<rparr> else p)
     (e_postings (demo_sale 1 7 35))\<rparr>"

lemma demo_held_fields:
  "e_postings demo_held =
     [\<lparr>p_account = AccountId 0, p_direction = Debit, p_amount = Amount 7, p_currency = EUR, p_layer = Settled, p_dimensions = dims_none\<rparr>,
      \<lparr>p_account = AccountId 1, p_direction = Credit, p_amount = Amount 7, p_currency = EUR, p_layer = Pending, p_dimensions = dims_none\<rparr>]"
  "e_id demo_held = EntryId 1" "e_key demo_held = IdempotencyKey [1]" "booking_date demo_held = Date 35" "value_date demo_held = Date 35"
  "e_reverses demo_held = None"
  by (simp_all add: demo_held_def demo_sale_fields)

lemma demo_held_recordable: "recordable (demo_empty\<lparr>j_entries := []\<rparr>) demo_held"
proof -
  have "entry_ok (journal_context (demo_empty\<lparr>j_entries := []\<rparr>)) demo_held"
    using demo_days unfolding entry_ok_def demo_policy
    by (auto intro: demo_posting_ok simp: demo_held_fields demo_amounts max_postings_def i64_max_def policy_permissive_def)
  moreover have "moved d key (all_postings [demo_held]) \<le> i64_max" for d key
    by (rule small_sums) (auto simp: demo_held_fields demo_amounts)
  ultimately show ?thesis
    unfolding recordable_def using demo_unlimited [of _ "e_postings demo_held"]
    by (simp add: demo_held_fields reversal_allowed_def demo_policy)
qed

text \<open>
  What \<^verbatim>\<open>verify_balanced\<close> calls a contradiction can happen: an entry may balance across the two
  layers, since only its currencies are checked, and then the check of each layer on its own answers
  that the books are not balanced, although every entry was accepted and nothing has drifted.
\<close>

theorem verify_balanced_can_fail:
  "\<exists>j. reachable_journal E (LedgerId (Label [76])) j \<and> verify_balanced j = Ok False \<and> verify_balances j = Ok True"
proof -
  let ?j = "snd (record_draft E demo_held demo_empty)"
  have r: "reachable_journal E (LedgerId (Label [76])) ?j" and es: "j_entries ?j = [demo_held]"
    using demo_record [OF demo_empty_reachable demo_empty_entries(2) demo_held_recordable _ _ _ refl, of E]
    by (simp_all add: demo_held_fields)
  have inv: "journal_inv E ?j" by (rule reachable_journal_inv [OF r])
  obtain tb where tb: "apply_postings bt_empty (all_postings [demo_held]) = Ok tb" "shows_postings tb (all_postings [demo_held])"
    using prefix_total [OF inv, of 1] by (auto simp: es)
  moreover have "shows_postings (balances ?j) (all_postings [demo_held])"
    using derived_okD(5) [OF journal_invD(1) [OF inv]] es by simp
  ultimately have bal: "apply_postings bt_empty (e_postings demo_held) = Ok (balances ?j)"
    using shows_unique by fastforce
  moreover have "case apply_postings bt_empty (e_postings demo_held) of Err _ \<Rightarrow> False
    | Ok t \<Rightarrow> all_balanced t (List.product (tb_currencies t) [Settled, Pending]) = Ok False" by code_simp
  ultimately have "verify_balanced ?j = Ok False" by (simp add: verify_balanced_def)
  moreover have "verify_balances ?j = Ok True" using bal by (simp add: verify_balances_def es)
  ultimately show ?thesis using r by blast
qed

end
