(* ===== verification/Journal_Seals.thy ===== *)
theory Journal_Seals
  imports Journal_Demo
begin

text \<open>
  Closed periods: when sealing succeeds and what it commits to, that a seal stays true of the books it was made
  over, that those books stay closed as long as what is recorded is valid when it is recorded, and not
  longer, and that every sealed balance can be proved from the journal at any later time.
\<close>

section \<open>What every step keeps\<close>

text \<open>The ledger never changes, seals are only added, and master data moves by its own steps only.\<close>

definition moves_on :: "journal \<Rightarrow> journal \<Rightarrow> bool" where
  "moves_on j k \<longleftrightarrow> j_ledger k = j_ledger j \<and> set (ch_seals (j_seals j)) \<subseteq> set (ch_seals (j_seals k))
     \<and> registry_step\<^sup>*\<^sup>* (j_accounts j) (j_accounts k) \<and> calendar_step\<^sup>*\<^sup>* (j_calendar j) (j_calendar k)"

lemma moves_on_refl [simp]: "moves_on j j"
  by (simp add: moves_on_def)

lemma moves_on_trans: "moves_on i j \<Longrightarrow> moves_on j k \<Longrightarrow> moves_on i k"
  unfolding moves_on_def by (auto intro: rtranclp_trans)

lemma same_rest_moves_on: "same_rest k j \<Longrightarrow> moves_on j k"
  by (simp add: same_rest_def moves_on_def)

lemma step_moves_on:
  assumes "journal_step E j k" "journal_inv E j"
  shows "moves_on j k"
  using assms(1)
proof cases
  case (step_record e)
  obtain res k' where r: "record_draft E e j = (res, k')" by fastforce
  then show ?thesis
    using record_draft_grows [OF assms(2) step_record(2) r] step_record(1) by (auto intro: same_rest_moves_on)
next
  case (step_batch es)
  then show ?thesis using batch_grows [OF assms(2) step_batch(2,3)] by (auto intro: same_rest_moves_on)
next
  case (step_seal i)
  show ?thesis
  proof (cases "check_sealable (j_calendar j) i")
    case (Inl x)
    then show ?thesis using step_seal by (simp add: seal_period_Err)
  next
    case (Inr p)
    obtain closing c where run: "seal_period E i j = (Ok (period_seal E j i p closing),
       j\<lparr>j_seals := (j_seals j)\<lparr>ch_periods := insert i (ch_periods (j_seals j)), ch_seals := ch_seals (j_seals j) @ [period_seal E j i p closing]\<rparr>,
         j_calendar := c\<rparr>)" "transition i Sealed (j_calendar j) = (Ok (), c)"
      using seal_period_Ok [OF assms(2) Inr] by metis
    then have "calendar_step (j_calendar j) c" using step_transition [of "j_calendar j" i Sealed] by simp
    then show ?thesis using step_seal run(1) by (auto simp: moves_on_def)
  qed
qed (auto simp: moves_on_def with_policy_def clear_def reset_clearing_def split: prod.splits)

lemma steps_move_on: "(journal_step E)\<^sup>*\<^sup>* j k \<Longrightarrow> journal_inv E j \<Longrightarrow> moves_on j k"
proof (induction rule: rtranclp_induct)
  case (step k l)
  then show ?case using step_moves_on moves_on_trans journal_steps_inv by blast
qed simp

lemma reachable_ledger: "reachable_journal E ledger j \<Longrightarrow> j_ledger j = ledger"
  using steps_move_on [OF _ journal_inv_new] by (fastforce simp: reachable_journal_def moves_on_def)

section \<open>What a seal leaves behind\<close>

lemma closed_part_kept:
  assumes "(current_step E)\<^sup>*\<^sup>* j k" "journal_inv E j" "sealed_through (j_calendar j) = Some w" "d \<le> w"
  shows "through d (j_entries k) = through d (j_entries j)"
  using assms(1)
proof (induction rule: rtranclp_induct)
  case (step k l)
  note js = current_steps [OF step(1)]
  have inv: "journal_inv E k" by (rule journal_steps_inv [OF js assms(2)])
  have "watermark_le (j_calendar j) (j_calendar k)"
    using calendar_steps_inv steps_move_on [OF js assms(2)] reachable_cal_inv journal_invD(6) [OF assms(2)]
    by (fastforce simp: moves_on_def)
  then have closed: "state_on (j_calendar k) d' = Sealed" if "d' \<le> d" for d'
    using assms(3,4) that watermark_state order_trans by blast
  have jl: "journal_step E k l" using step(2) by (simp add: current_step_def)
  obtain more where "j_entries l = j_entries k @ more" using step_appends [OF jl inv] by blast
  then have more: "j_entries l = j_entries k @ more" "\<forall>e\<in>set more. entry_ok (journal_context k) e"
    using step(2) by (simp_all add: current_step_def)
  have "\<not> booking_date e \<le> d" if "e \<in> set more" for e
    using more(2) that closed [of "booking_date e"]
    by (auto simp: entry_ok_def journal_context_def cal_accepts_def accepts_postings_def)
  then have "through d more = []" by (auto simp: through_def filter_empty_conv)
  then show ?case using step(3) more(1) by (simp add: through_def)
qed simp

lemma period_end_later:
  assumes "calendar_step\<^sup>*\<^sup>* c c'" "cal_get c i = Some p"
  shows "\<exists>p'. cal_get c' i = Some p' \<and> pd_end p' = pd_end p"
  using assms(1)
proof (induction rule: rtranclp_induct)
  case (step d e)
  then show ?case using period_end_kept [OF step(2)] by fastforce
qed (simp add: assms(2))

lemma linked_find:
  assumes "linked b3 ledger seen prev ss" "s \<in> set ss"
  shows "find (\<lambda>x. sl_period x = sl_period s) ss = Some s \<and> sl_period s \<notin> seen"
  using assms
proof (induction ss arbitrary: seen prev)
  case (Cons x ss)
  have "sl_period x \<notin> seen" using Cons.prems(1) by (auto simp: check_link_def split: if_splits)
  then show ?case using Cons by (cases "s = x") (auto, fastforce+)
qed simp

lemma sealed_later:
  assumes "journal_inv E j" "seal_period E i j = (Ok s, k)" "(journal_step E)\<^sup>*\<^sup>* k later"
  obtains p closing pd where "check_sealable (j_calendar j) i = Ok p" "trial_balance_through_date j (pd_end p) = Ok closing"
    "s = period_seal E j i p closing" "chain_get (j_seals later) i = Some s" "cal_get (j_calendar later) i = Some pd" "pd_end pd = pd_end p"
    "(current_step E)\<^sup>*\<^sup>* k later \<Longrightarrow> trial_balance_through_date later (pd_end p) = Ok closing"
    "registry_step\<^sup>*\<^sup>* (j_accounts j) (j_accounts later)" "journal_inv E later" "take (length (j_entries j)) (j_entries later) = j_entries j"
proof -
  obtain p where p: "check_sealable (j_calendar j) i = Ok p"
    using assms(2) by (cases "check_sealable (j_calendar j) i") (auto simp: seal_period_Err)
  obtain closing c where run: "trial_balance_through_date j (pd_end p) = Ok closing"
    "seal_period E i j = (Ok (period_seal E j i p closing),
       j\<lparr>j_seals := (j_seals j)\<lparr>ch_periods := insert i (ch_periods (j_seals j)), ch_seals := ch_seals (j_seals j) @ [period_seal E j i p closing]\<rparr>,
         j_calendar := c\<rparr>)" "sealed_through c = Some (pd_end p)" "cal_get c i = Some (p\<lparr>pd_state := Sealed\<rparr>)"
    using seal_period_Ok [OF assms(1) p] by metis
  have s: "s = period_seal E j i p closing" and k: "j_entries k = j_entries j" "j_accounts k = j_accounts j" "j_calendar k = c"
    "s \<in> set (ch_seals (j_seals k))" using assms(2) run(2) by auto
  have inv: "journal_inv E k" using seal_period_inv [OF assms(1), of i] assms(2) by simp
  then have inv': "journal_inv E later" by (rule journal_steps_inv [OF assms(3)])
  have on: "moves_on k later" by (rule steps_move_on [OF assms(3) inv])
  obtain pd where pd: "cal_get (j_calendar later) i = Some pd" "pd_end pd = pd_end p"
    using period_end_later [of c "j_calendar later" i] on k(3) run(4) by (auto simp: moves_on_def)
  have "s \<in> set (ch_seals (j_seals later))" using on k(4) by (auto simp: moves_on_def)
  then have "chain_get (j_seals later) i = Some s"
    using linked_find journal_invD(8) [OF inv'] s by (fastforce simp: chain_get_def chain_ok_def period_seal_def)
  moreover have "trial_balance_through_date later (pd_end p) = Ok closing" if "(current_step E)\<^sup>*\<^sup>* k later"
    using closed_part_kept [OF that inv _ order_refl, of "pd_end p"] k(1,3) run(1,3)
    by (simp add: trial_balance_through_date_def flip: through_def)
  moreover have "take (length (j_entries j)) (j_entries later) = j_entries j"
    using steps_append [OF assms(3) inv] k(1) by auto
  ultimately show ?thesis using that p run(1) s pd on k(2) inv' by (simp add: moves_on_def)
qed

section \<open>An example: two periods sealed in order\<close>

definition m1_id :: period_id where
  "m1_id = PeriodId (Label (lit ''m1''))"

definition m2_id :: period_id where
  "m2_id = PeriodId (Label (lit ''m2''))"

definition demo_between :: "env \<Rightarrow> journal" where
  "demo_between E = snd (seal_period E m1_id (demo_two E))"

definition demo_ready :: "env \<Rightarrow> journal" where
  "demo_ready E = snd (transition_period m2_id Closing (demo_between E))"

definition demo_sealed :: "env \<Rightarrow> journal" where
  "demo_sealed E = snd (seal_period E m2_id (demo_ready E))"

lemma demo_between:
  "\<exists>s. seal_period E m1_id (demo_two E) = (Ok s, demo_between E)"
  "reachable_journal E (LedgerId (Label [76])) (demo_between E)"
  "j_calendar (demo_between E) = snd (transition m1_id Sealed demo_calendar)"
  "j_entries (demo_between E) = [demo_sale 1 7 35, demo_sale 2 5 40]"
  "j_accounts (demo_between E) = demo_accounts"
  "check_sealable (j_calendar (demo_two E)) m1_id = Ok (demo_period ''m1'' 0 30 Closing)"
  "j_policy (demo_between E) = j_policy demo_empty"
proof -
  let ?j = "demo_two E" and ?k = "demo_between E"
  have cal: "j_calendar ?j = demo_calendar" "j_accounts ?j = demo_accounts" "j_policy ?j = j_policy demo_empty"
    using demo_two(3) [of E] by (simp_all add: same_rest_def demo_empty_def journal_new_def)
  have ready: "check_sealable demo_calendar m1_id = Ok (demo_period ''m1'' 0 30 Closing)" by code_simp
  then show "check_sealable (j_calendar ?j) m1_id = Ok (demo_period ''m1'' 0 30 Closing)" by (simp add: cal(1))
  obtain closing c where run: "seal_period E m1_id ?j = (Ok (period_seal E ?j m1_id (demo_period ''m1'' 0 30 Closing) closing),
       ?j\<lparr>j_seals := (j_seals ?j)\<lparr>ch_periods := insert m1_id (ch_periods (j_seals ?j)),
            ch_seals := ch_seals (j_seals ?j) @ [period_seal E ?j m1_id (demo_period ''m1'' 0 30 Closing) closing]\<rparr>,
         j_calendar := c\<rparr>)" "transition m1_id Sealed demo_calendar = (Ok (), c)"
    using seal_period_Ok [OF reachable_journal_inv [OF demo_two(1)], of E m1_id "demo_period ''m1'' 0 30 Closing"] cal(1) ready by metis
  then show "\<exists>s. seal_period E m1_id ?j = (Ok s, ?k)" "j_calendar ?k = snd (transition m1_id Sealed demo_calendar)"
    "j_entries ?k = [demo_sale 1 7 35, demo_sale 2 5 40]" "j_accounts ?k = demo_accounts" "j_policy ?k = j_policy demo_empty"
    using cal(2,3) by (simp_all add: demo_between_def demo_two(2))
  have "journal_step E ?j ?k" unfolding demo_between_def by (rule step_seal)
  then show "reachable_journal E (LedgerId (Label [76])) ?k" using demo_two(1) [of E] by (auto simp: reachable_journal_def)
qed

lemma demo_ready:
  "reachable_journal E (LedgerId (Label [76])) (demo_ready E)" "j_entries (demo_ready E) = [demo_sale 1 7 35, demo_sale 2 5 40]"
  "j_accounts (demo_ready E) = demo_accounts"
  "check_sealable (j_calendar (demo_ready E)) m2_id = Ok (demo_period ''m2'' 31 60 Closing)"
proof -
  let ?k = "demo_between E"
  note k = demo_between [of E]
  have r: "demo_ready E = ?k\<lparr>j_calendar := snd (transition m2_id Closing (j_calendar ?k))\<rparr>"
    by (simp add: demo_ready_def transition_period_def split: prod.splits)
  have "journal_step E ?k (demo_ready E)" unfolding r by (rule step_calendar) (rule step_transition)
  then show "reachable_journal E (LedgerId (Label [76])) (demo_ready E)" using k(2) by (auto simp: reachable_journal_def)
  show "j_entries (demo_ready E) = [demo_sale 1 7 35, demo_sale 2 5 40]" by (simp add: r k(4))
  show "j_accounts (demo_ready E) = demo_accounts" by (simp add: r k(5))
  have "check_sealable (snd (transition m2_id Closing (snd (transition m1_id Sealed demo_calendar)))) m2_id
      = Ok (demo_period ''m2'' 31 60 Closing)" by code_simp
  then show "check_sealable (j_calendar (demo_ready E)) m2_id = Ok (demo_period ''m2'' 31 60 Closing)" by (simp add: r k(3))
qed

lemma bt_len_card: "bt_len tb = card {key. bt_get tb key \<noteq> None}"
proof -
  have "{key. bt_get tb key \<noteq> None} = set (bt_keys tb)"
    using bt_get_iter [of tb] by (force simp: bt_keys_def)
  then show ?thesis using distinct_card [OF bt_distinct [of tb]] by (simp add: bt_len_def bt_keys_def)
qed

lemma demo_sealed:
  obtains s closing b a where "seal_period E m2_id (demo_ready E) = (Ok s, demo_sealed E)"
    "trial_balance_through_date (demo_ready E) (Date 60) = Ok closing" "bt_len closing \<le> u64_max"
    "bt_get closing (BalanceKey (AccountId 0) EUR Settled) = Some b" "reg_get demo_accounts (AccountId 0) = Some a"
proof -
  have inv: "journal_inv E (demo_ready E)" by (rule reachable_journal_inv [OF demo_ready(1)])
  obtain s where s: "seal_period E m2_id (demo_ready E) = (Ok s, demo_sealed E)"
    using seal_period_Ok [OF inv demo_ready(4)] by (metis demo_sealed_def snd_conv)
  let ?ps = "all_postings [demo_sale 1 7 35, demo_sale 2 5 40]"
  obtain closing where c: "trial_balance_through_date (demo_ready E) (Date 60) = Ok closing" "shows_postings closing ?ps"
    using through_total [OF inv, of "Date 60"] by (auto simp: demo_ready(2) through_def demo_sale_fields less_eq_date_def)
  note keys = shows_key [OF c(2)]
  have "card (keys_of ?ps) \<le> length ?ps" by (metis card_length length_map set_map)
  moreover have "length ?ps \<le> u64_max" by (simp add: all_postings_def demo_sale_fields u64_max_def)
  ultimately have "bt_len closing \<le> u64_max" unfolding bt_len_card keys Collect_mem_eq by (rule order_trans)
  moreover have "bt_get closing (BalanceKey (AccountId 0) EUR Settled) \<noteq> None"
    unfolding keys by (simp add: all_postings_def demo_sale_fields key_of_posting_def)
  moreover have "reg_get demo_accounts (AccountId 0) \<noteq> None" by code_simp
  ultimately show ?thesis using that [OF s c(1)] by blast
qed

section \<open>Sealing\<close>

text \<open>
  C9. Sealing a period succeeds exactly when the calendar says it is sealable, with no other way to
  fail: the seal then commits to the log as it stands, to the closing balances through the last day of
  the period and to the account registry, is the new head of the chain, and every day of the period
  is sealed. When it fails the journal is unchanged.
\<close>

theorem seal_period_spec:
  assumes "reachable_journal E ledger j"
  shows "case check_sealable (j_calendar j) i of
      Err x \<Rightarrow> seal_period E i j = (Err (JournalPeriod x), j)
    | Ok p \<Rightarrow> \<exists>s k tb. seal_period E i j = (Ok s, k)
        \<and> trial_balance_through_date j (pd_end p) = Ok tb \<and> sl_trial_balance s = trial_balance_head E tb
        \<and> sl_tree_head s = journal_head E j \<and> sl_accounts s = commitment (env_b3 E) (j_accounts j)
        \<and> sl_period s = i \<and> sl_ledger s = ledger \<and> sl_prev s = chain_head (j_seals j)
        \<and> chain_head (j_seals k) = Some (sl_hash s) \<and> chain_verify (env_b3 E) (j_seals k) = Ok ()
        \<and> j_entries k = j_entries j \<and> (\<forall>d\<le>pd_end p. \<not> cal_accepts (j_calendar k) d)"
proof -
  have inv: "journal_inv E j" by (rule reachable_journal_inv [OF assms])
  show ?thesis
  proof (cases "check_sealable (j_calendar j) i")
    case (Inl x)
    then show ?thesis by (simp add: seal_period_Err)
  next
    case (Inr p)
    obtain closing c where run: "trial_balance_through_date j (pd_end p) = Ok closing"
      "seal_period E i j = (Ok (period_seal E j i p closing),
         j\<lparr>j_seals := (j_seals j)\<lparr>ch_periods := insert i (ch_periods (j_seals j)), ch_seals := ch_seals (j_seals j) @ [period_seal E j i p closing]\<rparr>,
           j_calendar := c\<rparr>)"
      "transition i Sealed (j_calendar j) = (Ok (), c)" "sealed_through c = Some (pd_end p)"
      using seal_period_Ok [OF inv Inr] by metis
    let ?k = "j\<lparr>j_seals := (j_seals j)\<lparr>ch_periods := insert i (ch_periods (j_seals j)), ch_seals := ch_seals (j_seals j) @ [period_seal E j i p closing]\<rparr>,
           j_calendar := c\<rparr>"
    have "journal_inv E ?k" using seal_period_inv [OF inv, of i] run(2) by simp
    then have "chain_verify (env_b3 E) (j_seals ?k) = Ok ()"
      using journal_invD(8) by (fastforce simp: chain_verify_linked chain_ok_def)
    moreover have "\<not> cal_accepts c d" if "d \<le> pd_end p" for d
      using state_on_sealed [OF run(4) that] by (simp add: cal_accepts_def accepts_postings_def)
    moreover have "j_ledger j = ledger" by (rule reachable_ledger [OF assms])
    ultimately show ?thesis
      using Inr run(1,2) by (simp add: period_seal_def chain_head_def last_seal_def)
  qed
qed

lemma seal_period_spec_witness:
  "\<exists>s k tb. seal_period toy_env m2_id (demo_ready toy_env) = (Ok s, k) \<and> trial_balance_through_date (demo_ready toy_env) (Date 60) = Ok tb
     \<and> sl_trial_balance s = trial_balance_head toy_env tb \<and> \<not> cal_accepts (j_calendar k) (Date 45)"
  using seal_period_spec [OF demo_ready(1), of toy_env m2_id] by (force simp: demo_ready(4) demo_period_def less_eq_date_def)

text \<open>
  C10. A seal lasts: whatever is called after a period was sealed, a batch of entries that are no longer valid
  included, the log as of the sealed size still has the sealed head, the seal is found again in a chain that
  verifies, and it commits to the closing balances there were. And closed books stay closed: as long as what is
  recorded is valid at the moment it is recorded, which every operation but \<^verbatim>\<open>record_batch\<close> sees to by itself,
  the closing balances recomputed through the last day of the period are still those. The proviso is needed:
  \<open>stale_entry_restates\<close> below.
\<close>

theorem closed_books_stay:
  assumes "reachable_journal E ledger j" "seal_period E i j = (Ok s, k)" "(journal_step E)\<^sup>*\<^sup>* k later"
  shows "\<exists>pd closing. cal_get (j_calendar later) i = Some pd \<and> trial_balance_through_date j (pd_end pd) = Ok closing
    \<and> sl_trial_balance s = trial_balance_head E closing
    \<and> journal_head_at E later (th_size (sl_tree_head s)) = Ok (sl_tree_head s)
    \<and> chain_get (j_seals later) i = Some s \<and> verify_seals E later = Ok ()
    \<and> ((current_step E)\<^sup>*\<^sup>* k later \<longrightarrow> trial_balance_through_date later (pd_end pd) = Ok closing)"
proof -
  have inv: "journal_inv E j" by (rule reachable_journal_inv [OF assms(1)])
  obtain p closing pd where l: "trial_balance_through_date j (pd_end p) = Ok closing" "s = period_seal E j i p closing"
    "chain_get (j_seals later) i = Some s" "cal_get (j_calendar later) i = Some pd" "pd_end pd = pd_end p"
    "(current_step E)\<^sup>*\<^sup>* k later \<Longrightarrow> trial_balance_through_date later (pd_end p) = Ok closing" "journal_inv E later"
    "take (length (j_entries j)) (j_entries later) = j_entries j"
    using sealed_later [OF inv assms(2,3)] by metis
  have head: "sl_tree_head s = \<lparr>th_size = length (j_entries j), th_root = mth (env_b3 E) (map (content_hash E) (j_entries j))\<rparr>"
    using l(2) by (simp add: period_seal_def journal_head_eq [OF journal_invD(1) [OF inv]])
  have "leaves (j_log later) = map (content_hash E) (j_entries later)"
    using derived_okD(4) journal_invD(1) [OF l(7)] by (auto simp: log_ok_def)
  moreover have "length (j_entries j) \<le> length (j_entries later)" by (metis l(8) length_take min.cobounded1)
  ultimately have "journal_head_at E later (th_size (sl_tree_head s)) = Ok (sl_tree_head s)"
    using l(8) by (simp add: head journal_head_at_def head_at_def root_at_def take_map)
  moreover have "verify_seals E later = Ok ()"
    using journal_invD(8) [OF l(7)] by (simp add: verify_seals_def chain_verify_linked chain_ok_def)
  ultimately show ?thesis
    using l by (intro exI [of _ pd] exI [of _ closing]) (simp add: period_seal_def)
qed

text \<open>After the first period is sealed, a reversal is recorded in the second.\<close>

lemma demo_reversal_after:
  "record_draft E demo_reversal (demo_between E) = (Ok \<lparr>rec_id = EntryId 3, rec_index = Some 2, rec_hash = content_hash E demo_reversal, rec_new = True\<rparr>,
     snd (record_draft E demo_reversal (demo_between E)))"
  "j_entries (snd (record_draft E demo_reversal (demo_between E))) = [demo_sale 1 7 35, demo_sale 2 5 40, demo_reversal]"
  "current_step E (demo_between E) (snd (record_draft E demo_reversal (demo_between E)))"
proof -
  note k = demo_between [of E]
  have inv: "journal_inv E (demo_between E)" by (rule reachable_journal_inv [OF k(2)])
  have small: "length (j_entries (demo_between E)) < u64_max" by (simp add: k(4) u64_max_def)
  have "cal_accepts (snd (transition m1_id Sealed demo_calendar)) (Date 45)" by code_simp
  then have rec: "recordable (demo_between E) demo_reversal"
    using demo_recordable(3)
    by (auto simp: recordable_def k entry_ok_def journal_context_def demo_empty_def demo_reversal_fields posting_ok_def)
  have key: "e_key demo_reversal \<notin> e_key ` set (j_entries (demo_between E))" by (simp add: k(4) demo_sale_fields demo_reversal_fields)
  note out = record_outcome [OF inv small key]
  show run: "record_draft E demo_reversal (demo_between E) = (Ok \<lparr>rec_id = EntryId 3, rec_index = Some 2, rec_hash = content_hash E demo_reversal, rec_new = True\<rparr>,
     snd (record_draft E demo_reversal (demo_between E)))"
    and es: "j_entries (snd (record_draft E demo_reversal (demo_between E))) = [demo_sale 1 7 35, demo_sale 2 5 40, demo_reversal]"
    using out rec by (auto simp: k(4) demo_reversal_fields numeral_2_eq_2)
  show "current_step E (demo_between E) (snd (record_draft E demo_reversal (demo_between E)))"
    using rec step_record [OF small] by (simp add: current_step_def es k(4) recordable_def)
qed

lemma closed_books_stay_witness:
  "\<exists>s closing. seal_period toy_env m1_id (demo_two toy_env) = (Ok s, demo_between toy_env)
     \<and> length (j_entries (snd (record_draft toy_env demo_reversal (demo_between toy_env)))) = 3
     \<and> trial_balance_through_date (snd (record_draft toy_env demo_reversal (demo_between toy_env))) (Date 30) = Ok closing
     \<and> sl_trial_balance s = trial_balance_head toy_env closing"
proof -
  let ?later = "snd (record_draft toy_env demo_reversal (demo_between toy_env))"
  note k = demo_between [of toy_env]
  obtain s where s: "seal_period toy_env m1_id (demo_two toy_env) = (Ok s, demo_between toy_env)" using k(1) by blast
  have now: "(current_step toy_env)\<^sup>*\<^sup>* (demo_between toy_env) ?later" using demo_reversal_after(3) by (rule r_into_rtranclp)
  note steps = current_steps [OF now]
  obtain p closing pd where "check_sealable (j_calendar (demo_two toy_env)) m1_id = Ok p" "cal_get (j_calendar ?later) m1_id = Some pd" "pd_end pd = pd_end p"
    using sealed_later [OF reachable_journal_inv [OF demo_two(1)] s steps] by metis
  then have pd: "cal_get (j_calendar ?later) m1_id = Some pd" "pd_end pd = Date 30" by (auto simp: k(6) demo_period_def)
  then show ?thesis using closed_books_stay [OF demo_two(1) s steps] s now by (auto simp: demo_reversal_after(2))
qed

text \<open>
  An entry that was sealed while its day was open, and handed to \<^verbatim>\<open>record_batch\<close> after the period of that day was
  sealed, is recorded, and the closing balances of the sealed period are others from then on. Nothing but
  recomputing them tells: the seal, the chain and the log still verify.
\<close>

theorem stale_entry_restates:
  "\<exists>later rs. was_sealed E demo_reversal \<and> \<not> cal_accepts (j_calendar (demo_sealed E)) (booking_date demo_reversal)
    \<and> record_batch E [demo_reversal] (demo_sealed E) = (Ok rs, later) \<and> verify_seals E later = Ok ()
    \<and> trial_balance_through_date later (Date 60) \<noteq> trial_balance_through_date (demo_sealed E) (Date 60)"
proof -
  let ?j = "demo_sealed E"
  obtain s where s: "seal_period E m2_id (demo_ready E) = (Ok s, ?j)" using demo_sealed by metis
  obtain closing c where run: "seal_period E m2_id (demo_ready E) = (Ok (period_seal E (demo_ready E) m2_id (demo_period ''m2'' 31 60 Closing) closing),
       (demo_ready E)\<lparr>j_seals := (j_seals (demo_ready E))\<lparr>ch_periods := insert m2_id (ch_periods (j_seals (demo_ready E))),
            ch_seals := ch_seals (j_seals (demo_ready E)) @ [period_seal E (demo_ready E) m2_id (demo_period ''m2'' 31 60 Closing) closing]\<rparr>,
         j_calendar := c\<rparr>)" "sealed_through c = Some (pd_end (demo_period ''m2'' 31 60 Closing))"
    using seal_period_Ok [OF reachable_journal_inv [OF demo_ready(1)] demo_ready(4)] by metis
  then have j: "j_entries ?j = [demo_sale 1 7 35, demo_sale 2 5 40]" "j_accounts ?j = demo_accounts" "sealed_through (j_calendar ?j) = Some (Date 60)"
    using s demo_ready(2,3) by (simp_all add: demo_period_def)
  have inv: "journal_inv E ?j" using seal_period_inv [OF reachable_journal_inv [OF demo_ready(1)], of E m2_id] s by (metis snd_conv)
  have ok: "entry_ok (journal_context (demo_empty\<lparr>j_entries := [demo_sale 1 7 35, demo_sale 2 5 40]\<rparr>)) demo_reversal"
    using demo_recordable(3) by (simp add: recordable_def)
  then have sealed: "was_sealed E demo_reversal" by (auto simp: was_sealed_iff)
  have "bookable (j_accounts ?j) (j_entries ?j) demo_reversal"
    using demo_recordable(3) by (simp add: recordable_def bookable_def j demo_empty_def)
  moreover have "e_key demo_reversal \<notin> e_key ` set (j_entries ?j)" by (simp add: j demo_sale_fields demo_reversal_fields)
  moreover have small: "length (j_entries ?j) < u64_max" by (simp add: j u64_max_def)
  ultimately obtain later where later: "record_validated E demo_reversal ?j = (Ok \<lparr>rec_id = EntryId 3, rec_index = Some 2,
      rec_hash = content_hash E demo_reversal, rec_new = True\<rparr>, later)" "j_entries later = j_entries ?j @ [demo_reversal]"
    using validated_outcome [OF inv small was_sealed_sound [OF sealed]] by (auto simp: j demo_reversal_fields numeral_2_eq_2)
  have batch: "record_batch E [demo_reversal] ?j = (Ok [\<lparr>rec_id = EntryId 3, rec_index = Some 2,
      rec_hash = content_hash E demo_reversal, rec_new = True\<rparr>], later)"
    using later(1) by (simp add: record_batch_def)
  have inv': "journal_inv E later" using record_validated_inv [OF inv small was_sealed_sound [OF sealed] later(1)] .
  obtain tb where tb: "trial_balance_through_date ?j (Date 60) = Ok tb" "shows_postings tb (all_postings (through (Date 60) (j_entries ?j)))"
    using through_total [OF inv] by blast
  obtain tb' where tb': "trial_balance_through_date later (Date 60) = Ok tb'" "shows_postings tb' (all_postings (through (Date 60) (j_entries later)))"
    using through_total [OF inv'] by blast
  have "tb \<noteq> tb'"
  proof
    assume "tb = tb'"
    then have "moved Credit (BalanceKey (AccountId 0) EUR Settled) (all_postings (through (Date 60) (j_entries ?j)))
        = moved Credit (BalanceKey (AccountId 0) EUR Settled) (all_postings (through (Date 60) (j_entries later)))"
      using shows_side [OF tb(2)] shows_side [OF tb'(2)] by metis
    then show False
      by (simp add: later(2) j through_def all_postings_def demo_sale_fields demo_reversal_fields less_eq_date_def inverted_def dir_inverse_def
          key_of_posting_def demo_amounts)
  qed
  moreover have "\<not> cal_accepts (j_calendar ?j) (booking_date demo_reversal)"
    using state_on_sealed [OF j(3), of "Date 45"] by (simp add: cal_accepts_def accepts_postings_def demo_reversal_fields less_eq_date_def)
  moreover have "verify_seals E later = Ok ()"
    using journal_invD(8) [OF inv'] by (simp add: verify_seals_def chain_verify_linked chain_ok_def)
  ultimately show ?thesis using sealed batch tb(1) tb'(1) by auto
qed

text \<open>
  C12. A sealed period can always be answered for: at any later time, as long as what is recorded is valid at the
  moment it is recorded, the journal finds the seal,
  rebuilds the closing balances, and proves each row of them with a proof that verifies and names the
  path the account had; a key without a row and an account registered after the seal get the two
  other answers, and there is no fourth.
\<close>

theorem sealed_balances_answered:
  assumes "reachable_journal E ledger j" "seal_period E i j = (Ok s, k)" "(current_step E)\<^sup>*\<^sup>* k later"
    and "check_sealable (j_calendar j) i = Ok p" "trial_balance_through_date j (pd_end p) = Ok closing" "bt_len closing \<le> u64_max"
  shows "case reg_get (j_accounts j) (k_account key) of
      None \<Rightarrow> prove_sealed_balance E later i key = Ok NotYetRegistered
    | Some a \<Rightarrow>
        (case bt_get closing key of
           None \<Rightarrow> prove_sealed_balance E later i key = Ok NoRow
         | Some b \<Rightarrow> \<exists>sb. prove_sealed_balance E later i key = Ok (Proven sb) \<and> sb_seal sb = s \<and> bp_key (sb_balance sb) = key
             \<and> bp_balance (sb_balance sb) = b \<and> sealed_path sb = a_path a \<and> sealed_balance_verify E sb)"
proof -
  have inv: "journal_inv E j" by (rule reachable_journal_inv [OF assms(1)])
  obtain pd where l: "s = period_seal E j i p closing" "chain_get (j_seals later) i = Some s"
    "cal_get (j_calendar later) i = Some pd" "pd_end pd = pd_end p" "trial_balance_through_date later (pd_end p) = Ok closing"
    "registry_step\<^sup>*\<^sup>* (j_accounts j) (j_accounts later)"
    by (rule sealed_later [OF inv assms(2) current_steps [OF assms(3)]]) (use assms(3-5) in auto)
  have run: "prove_sealed_balance E later i key = map_err JournalSealedBalance (assemble E s closing (j_accounts later) key)"
    using l by (simp add: prove_sealed_balance_def) (simp add: period_seal_def)
  have "sl_trial_balance s = trial_balance_head E closing" "sl_accounts s = commitment (env_b3 E) (j_accounts j)"
    "is_self_consistent (env_b3 E) s" using l(1) by (simp_all add: period_seal_def)
  note answer = assemble_answers [OF journal_invD(5) [OF inv] l(6) assms(6) this, of key]
  have seal: "sb_seal sb = s" if "assemble E s closing (j_accounts later) key = Ok (Proven sb)" for sb
    using that by (auto simp: assemble_def Let_def split: option.splits if_splits)
  show ?thesis using answer seal by (fastforce simp: run split: option.splits)
qed

lemma sealed_balances_answered_witness:
  "\<exists>sb. prove_sealed_balance toy_env (demo_sealed toy_env) m2_id (BalanceKey (AccountId 0) EUR Settled) = Ok (Proven sb)
     \<and> sealed_balance_verify toy_env sb"
proof -
  obtain s closing b a where d: "seal_period toy_env m2_id (demo_ready toy_env) = (Ok s, demo_sealed toy_env)"
    "trial_balance_through_date (demo_ready toy_env) (Date 60) = Ok closing" "bt_len closing \<le> u64_max"
    "bt_get closing (BalanceKey (AccountId 0) EUR Settled) = Some b" "reg_get demo_accounts (AccountId 0) = Some a"
    using demo_sealed [where E = toy_env] by metis
  have "trial_balance_through_date (demo_ready toy_env) (pd_end (demo_period ''m2'' 31 60 Closing)) = Ok closing"
    using d(2) by (simp add: demo_period_def)
  from sealed_balances_answered [OF demo_ready(1) d(1) rtranclp.rtrancl_refl demo_ready(4) this d(3), of "BalanceKey (AccountId 0) EUR Settled"]
  show ?thesis using d(4,5) by (auto simp: demo_ready(3))
qed

end
