(* ===== verification/Storage.thy ===== *)
theory Storage
  imports Journal_Seals Journal_Figures
begin

text \<open>
  \<^verbatim>\<open>src/storage.rs\<close>: batches, cursors and pages, the in-memory store over a journal, and the two
  operations the trait \<^verbatim>\<open>LedgerStore\<close> gives every backend. A method locks the journal for its whole
  run, so it is one function from the state of the store to its result and the state it leaves.
\<close>

section \<open>Batches\<close>

record entry_batch =
  eb_entries :: "entry list"

datatype batch_error = EmptyBatch

definition batch_new :: "entry list \<Rightarrow> (batch_error, entry_batch) res" where
  "batch_new es = (if es = [] then Err EmptyBatch else Ok \<lparr>eb_entries = es\<rparr>)"

definition batch_single :: "entry \<Rightarrow> entry_batch" where
  "batch_single e = \<lparr>eb_entries = [e]\<rparr>"

definition batch_len :: "entry_batch \<Rightarrow> nat" where
  "batch_len b = length (eb_entries b)"

section \<open>Cursors and pages\<close>

definition default_page_size :: nat where
  "default_page_size = 256"

definition max_page_size :: nat where
  "max_page_size = 4096"

text \<open>\<^verbatim>\<open>usize::clamp\<close> on a range whose lower end is below its upper end.\<close>

definition clamp :: "nat \<Rightarrow> nat \<Rightarrow> nat \<Rightarrow> nat" where
  "clamp x lo hi = (if x < lo then lo else if x > hi then hi else x)"

record cursor =
  cu_after :: "log_index option"
  cu_limit :: nat

definition cursor_start :: cursor where
  "cursor_start = \<lparr>cu_after = None, cu_limit = default_page_size\<rparr>"

definition cursor_after :: "log_index \<Rightarrow> cursor" where
  "cursor_after i = \<lparr>cu_after = Some i, cu_limit = default_page_size\<rparr>"

definition cursor_with_limit :: "cursor \<Rightarrow> nat \<Rightarrow> cursor" where
  "cursor_with_limit c n = c\<lparr>cu_limit := n\<rparr>"

definition effective_limit :: "cursor \<Rightarrow> nat" where
  "effective_limit c = clamp (cu_limit c) 1 max_page_size"

record posting_cursor =
  pc_after :: "posting_position option"
  pc_limit :: nat

definition posting_cursor_start :: posting_cursor where
  "posting_cursor_start = \<lparr>pc_after = None, pc_limit = default_page_size\<rparr>"

definition posting_cursor_after :: "posting_position \<Rightarrow> posting_cursor" where
  "posting_cursor_after p = \<lparr>pc_after = Some p, pc_limit = default_page_size\<rparr>"

definition posting_cursor_with_limit :: "posting_cursor \<Rightarrow> nat \<Rightarrow> posting_cursor" where
  "posting_cursor_with_limit c n = c\<lparr>pc_limit := n\<rparr>"

definition posting_effective_limit :: "posting_cursor \<Rightarrow> nat" where
  "posting_effective_limit c = clamp (pc_limit c) 1 max_page_size"

record stored_entry =
  se_index :: "log_index option"
  se_entry :: entry
  se_hash :: hash

definition stored_require_index :: "stored_entry \<Rightarrow> (entry_id, log_index) res" where
  "stored_require_index s = ok_or (se_index s) (e_id (se_entry s))"

record log_page =
  pg_records :: "stored_entry list"
  pg_next :: "cursor option"

record statement_page =
  sp_lines :: "statement_line list"
  sp_next :: "posting_cursor option"

record open_item_page =
  op_items :: "open_item list"
  op_next :: "posting_cursor option"

section \<open>The in-memory store\<close>

datatype memory_store_error =
    MemJournal journal_error
  | MemAccount account_error
  | MemSealedBalance sealed_balance_error
  | MemPeriod period_error
  | MemProof proof_error
  | MemMoney money_error

record memory_store =
  ms_ledger :: ledger_id
  ms_inner :: journal
  ms_checkpoints :: "(balance_key, checkpoint) btmap"

definition store_new :: "ledger_id \<Rightarrow> memory_store" where
  "store_new ledger = \<lparr>ms_ledger = ledger, ms_inner = journal_new ledger, ms_checkpoints = bt_empty\<rparr>"

definition from_journal :: "journal \<Rightarrow> memory_store" where
  "from_journal j = \<lparr>ms_ledger = j_ledger j, ms_inner = j, ms_checkpoints = bt_empty\<rparr>"

definition snapshot :: "memory_store \<Rightarrow> journal" where
  "snapshot st = ms_inner st"

text \<open>\<^verbatim>\<open>with_mut\<close>: run an operation on the journal under the lock and keep the journal it leaves.\<close>

definition with_mut :: "(journal \<Rightarrow> ('e, 'a) res \<times> journal) \<Rightarrow> ('e \<Rightarrow> memory_store_error) \<Rightarrow> memory_store
    \<Rightarrow> (memory_store_error, 'a) res \<times> memory_store" where
  "with_mut f into st = (case f (ms_inner st) of (res, j) \<Rightarrow> (map_err into res, st\<lparr>ms_inner := j\<rparr>))"

definition store_register_account :: "account_record \<Rightarrow> memory_store \<Rightarrow> (memory_store_error, unit) res \<times> memory_store" where
  "store_register_account rec =
     with_mut (\<lambda>j. case restore rec (j_accounts j) of (res, r) \<Rightarrow> (res, j\<lparr>j_accounts := r\<rparr>)) MemAccount"

definition store_accounts :: "memory_store \<Rightarrow> account_record list" where
  "store_accounts st = records (j_accounts (ms_inner st))"

definition store_append :: "env \<Rightarrow> entry_batch \<Rightarrow> memory_store \<Rightarrow> (memory_store_error, recorded_entry list) res \<times> memory_store" where
  "store_append E batch = with_mut (record_batch E (eb_entries batch)) MemJournal"

definition store_get :: "env \<Rightarrow> memory_store \<Rightarrow> entry_id \<Rightarrow> stored_entry option" where
  "store_get E st i =
     (let j = ms_inner st in
      Option.bind (index_of j i) (\<lambda>index.
      map_option (\<lambda>e. \<lparr>se_index = Some index, se_entry = e, se_hash = content_hash E e\<rparr>) (entry_at j index)))"

definition store_page :: "env \<Rightarrow> memory_store \<Rightarrow> cursor \<Rightarrow> log_page" where
  "store_page E st c =
     (let j = ms_inner st;
          start = (case cu_after c of None \<Rightarrow> 0 | Some i \<Rightarrow> min u64_max (i + 1));
          limit = effective_limit c;
          records = map (\<lambda>(offset, e). \<lparr>se_index = Some (min u64_max (start + offset)), se_entry = e, se_hash = content_hash E e\<rparr>)
                      (enumerate 0 (take limit (drop start (j_entries j))));
          next = (if records \<noteq> [] \<and> min u64_max (start + length records) < length (j_entries j)
                  then map_option (\<lambda>index. \<lparr>cu_after = Some index, cu_limit = cu_limit c\<rparr>) (se_index (last records))
                  else None)
      in \<lparr>pg_records = records, pg_next = next\<rparr>)"

definition store_head :: "env \<Rightarrow> memory_store \<Rightarrow> tree_head" where
  "store_head E st = journal_head E (ms_inner st)"

definition store_head_at :: "env \<Rightarrow> memory_store \<Rightarrow> nat \<Rightarrow> (memory_store_error, tree_head) res" where
  "store_head_at E st n = map_err MemProof (journal_head_at E (ms_inner st) n)"

definition store_len :: "memory_store \<Rightarrow> nat" where
  "store_len st = length (j_entries (ms_inner st))"

definition store_is_empty :: "memory_store \<Rightarrow> bool" where
  "store_is_empty st \<longleftrightarrow> store_len st = 0"

text \<open>The in-memory store assigns positions while appending, so the inherited \<^verbatim>\<open>sequence\<close> has nothing to do.\<close>

definition store_sequence :: "memory_store \<Rightarrow> nat" where
  "store_sequence st = 0"

definition store_balance :: "memory_store \<Rightarrow> balance_key \<Rightarrow> nat option \<Rightarrow> (memory_store_error, balance) res" where
  "store_balance st key n = map_err MemMoney (balance_at (ms_inner st) key n)"

definition store_trial_balance :: "memory_store \<Rightarrow> nat option \<Rightarrow> (memory_store_error, trial_balance) res" where
  "store_trial_balance st n = map_err MemMoney (trial_balance_at (ms_inner st) n)"

definition store_trial_balance_through :: "memory_store \<Rightarrow> date \<Rightarrow> (memory_store_error, trial_balance) res" where
  "store_trial_balance_through st d = map_err MemMoney (trial_balance_through_date (ms_inner st) d)"

definition store_prove_inclusion :: "env \<Rightarrow> memory_store \<Rightarrow> log_index \<Rightarrow> (memory_store_error, inclusion_proof) res" where
  "store_prove_inclusion E st i = map_err MemProof (prove_inclusion E (ms_inner st) i)"

definition store_prove_inclusion_at :: "env \<Rightarrow> memory_store \<Rightarrow> log_index \<Rightarrow> nat \<Rightarrow> (memory_store_error, inclusion_proof) res" where
  "store_prove_inclusion_at E st i n = map_err MemProof (prove_inclusion_at E (ms_inner st) i n)"

definition store_prove_consistency :: "env \<Rightarrow> memory_store \<Rightarrow> nat \<Rightarrow> (memory_store_error, consistency_proof) res" where
  "store_prove_consistency E st m = map_err MemProof (prove_consistency E (ms_inner st) m)"

definition store_prove_consistency_between :: "env \<Rightarrow> memory_store \<Rightarrow> nat \<Rightarrow> nat \<Rightarrow> (memory_store_error, consistency_proof) res" where
  "store_prove_consistency_between E st m n = map_err MemProof (prove_consistency_between E (ms_inner st) m n)"

definition store_define_period :: "period \<Rightarrow> memory_store \<Rightarrow> (memory_store_error, unit) res \<times> memory_store" where
  "store_define_period p =
     with_mut (\<lambda>j. case cal_ensure p (j_calendar j) of (res, c) \<Rightarrow> (res, j\<lparr>j_calendar := c\<rparr>)) MemPeriod"

definition store_transition_period :: "period_id \<Rightarrow> period_state \<Rightarrow> memory_store \<Rightarrow> (memory_store_error, unit) res \<times> memory_store" where
  "store_transition_period i to = with_mut (transition_period i to) MemJournal"

definition store_periods :: "memory_store \<Rightarrow> period list" where
  "store_periods st = cal_iter (j_calendar (ms_inner st))"

definition store_seal_period :: "env \<Rightarrow> period_id \<Rightarrow> memory_store \<Rightarrow> (memory_store_error, seal) res \<times> memory_store" where
  "store_seal_period E i = with_mut (seal_period E i) MemJournal"

definition store_seals :: "memory_store \<Rightarrow> seal list" where
  "store_seals st = ch_seals (j_seals (ms_inner st))"

definition store_clear :: "env \<Rightarrow> clearing \<Rightarrow> memory_store \<Rightarrow> (memory_store_error, unit) res \<times> memory_store" where
  "store_clear E c = with_mut (clear E c) MemJournal"

definition store_reset_clearing :: "clearing_id \<Rightarrow> date \<Rightarrow> memory_store \<Rightarrow> (memory_store_error, unit) res \<times> memory_store" where
  "store_reset_clearing i on = with_mut (reset_clearing i on) MemJournal"

text \<open>Where a list of postings resumes: at the first one after the position of the cursor.\<close>

definition resume_at :: "('a \<Rightarrow> posting_position) \<Rightarrow> posting_position option \<Rightarrow> 'a list \<Rightarrow> nat" where
  "resume_at pos after all =
     (case after of
        None \<Rightarrow> 0
      | Some a \<Rightarrow> (case position (\<lambda>x. position_less a (pos x)) all of None \<Rightarrow> length all | Some i \<Rightarrow> i))"

definition store_open_items :: "memory_store \<Rightarrow> balance_key \<Rightarrow> posting_cursor \<Rightarrow> (memory_store_error, open_item_page) res" where
  "store_open_items st key c =
     bindR (map_err MemJournal (open_items (ms_inner st) key)) (\<lambda>all.
       let start = resume_at oi_position (pc_after c) all;
           items = take (posting_effective_limit c) (drop start all);
           next = (if items \<noteq> [] \<and> min u64_max (start + length items) < length all
                   then Some \<lparr>pc_after = Some (oi_position (last items)), pc_limit = pc_limit c\<rparr> else None)
       in Ok \<lparr>op_items = items, op_next = next\<rparr>)"

definition store_balances :: "memory_store \<Rightarrow> account_id list \<Rightarrow> currency \<Rightarrow> layer \<Rightarrow> nat option
    \<Rightarrow> (memory_store_error, (account_id, balance) btmap) res" where
  "store_balances st wanted currency layer n =
     bindR (map_err MemMoney (trial_balance_at (ms_inner st) n)) (\<lambda>tb.
       Ok (foldl (\<lambda>out account. case bt_get tb (BalanceKey account currency layer) of
                     None \<Rightarrow> out | Some b \<Rightarrow> bt_insert account b out) bt_empty wanted))"

definition store_statement :: "memory_store \<Rightarrow> balance_key \<Rightarrow> posting_cursor \<Rightarrow> (memory_store_error, statement_page) res" where
  "store_statement st key c =
     bindR (map_err MemMoney (statement (ms_inner st) key)) (\<lambda>all.
       let start = resume_at line_position (pc_after c) all;
           lines = take (posting_effective_limit c) (drop start all);
           next = (if lines \<noteq> [] \<and> min u64_max (start + length lines) < length all
                   then Some \<lparr>pc_after = Some (line_position (last lines)), pc_limit = pc_limit c\<rparr> else None)
       in Ok \<lparr>sp_lines = lines, sp_next = next\<rparr>)"

definition save_checkpoint :: "checkpoint \<Rightarrow> memory_store \<Rightarrow> memory_store" where
  "save_checkpoint c st = st\<lparr>ms_checkpoints := bt_insert (cp_key c) c (ms_checkpoints st)\<rparr>"

definition load_checkpoint :: "memory_store \<Rightarrow> balance_key \<Rightarrow> checkpoint option" where
  "load_checkpoint st key = bt_get (ms_checkpoints st) key"

section \<open>What the trait gives every backend\<close>

text \<open>\<^verbatim>\<open>prove_sealed_balance\<close>, from the reads a backend answers and its conversions of the two errors.\<close>

definition trait_prove_sealed_balance :: "env \<Rightarrow> (sealed_balance_error \<Rightarrow> 'e) \<Rightarrow> (account_error \<Rightarrow> 'e)
    \<Rightarrow> ('e, seal list) res \<Rightarrow> ('e, period list) res \<Rightarrow> (date \<Rightarrow> ('e, trial_balance) res) \<Rightarrow> ('e, account_record list) res
    \<Rightarrow> period_id \<Rightarrow> balance_key \<Rightarrow> ('e, sealed_balance_outcome) res" where
  "trait_prove_sealed_balance E from_sealed from_account seals all_periods tb_through accounts_of i key =
     bindR seals (\<lambda>ss.
     case find (\<lambda>s. sl_period s = i) ss of
       None \<Rightarrow> Err (from_sealed (NotSealed i))
     | Some s \<Rightarrow>
         bindR all_periods (\<lambda>ps.
         case find (\<lambda>p. pd_id p = sl_period s) ps of
           None \<Rightarrow> Err (from_sealed (UndefinedPeriod i))
         | Some d \<Rightarrow>
             bindR (tb_through (pd_end d)) (\<lambda>closing.
             bindR accounts_of (\<lambda>rs.
             bindR (map_err from_account (from_records rs)) (\<lambda>accts.
             map_err from_sealed (assemble E s closing accts key))))))"

definition store_prove_sealed_balance :: "env \<Rightarrow> memory_store \<Rightarrow> period_id \<Rightarrow> balance_key \<Rightarrow> (memory_store_error, sealed_balance_outcome) res" where
  "store_prove_sealed_balance E st =
     trait_prove_sealed_balance E MemSealedBalance MemAccount (Ok (store_seals st)) (Ok (store_periods st))
       (store_trial_balance_through st) (Ok (store_accounts st))"

text \<open>
  The loop of \<^verbatim>\<open>all_open_items\<close>, which follows \<^verbatim>\<open>next\<close> from page to page. Nothing in it bounds the
  number of pages: a backend whose pages never end makes it run for ever, which is the value \<open>None\<close>.
\<close>

partial_function (option) drain ::
    "('c \<Rightarrow> ('e, 'a list \<times> 'c option) res) \<Rightarrow> 'a list \<Rightarrow> 'c option \<Rightarrow> ('e, 'a list) res option" where
  "drain fetch out cursor =
     (case cursor of
        None \<Rightarrow> Some (Ok out)
      | Some c \<Rightarrow>
          (case fetch c of
             Err e \<Rightarrow> Some (Err e)
           | Ok page \<Rightarrow> if fst page = [] then Some (Ok out) else drain fetch (out @ fst page) (snd page)))"

definition trait_all_open_items :: "(posting_cursor \<Rightarrow> ('e, open_item_page) res) \<Rightarrow> ('e, open_item list) res option" where
  "trait_all_open_items fetch =
     drain (\<lambda>c. bindR (fetch c) (\<lambda>page. Ok (op_items page, op_next page))) []
       (Some (posting_cursor_with_limit posting_cursor_start max_page_size))"

definition store_all_open_items :: "memory_store \<Rightarrow> balance_key \<Rightarrow> (memory_store_error, open_item list) res option" where
  "store_all_open_items st key = trait_all_open_items (store_open_items st key)"

end
