(* ===== verification/Storage_Audit.thy ===== *)
theory Storage_Audit
  imports Storage
begin

text \<open>
  What the in-memory store promises: it is the journal, method by method, its pages put together are the
  whole list, draining them ends, and the proofs the trait assembles are the ones the journal gives.
\<close>

section \<open>Reading a list by pages\<close>

text \<open>
  The contract of a paged read: from a cursor, the next rows of one fixed list, at least one and at most
  the page size while there are any, and a cursor after them exactly when rows remain.
\<close>

locale paged_read =
  fixes fetch :: "'s \<Rightarrow> 'c \<Rightarrow> ('e, 'a list \<times> 'c option) res" and whole :: "'s \<Rightarrow> 'a list"
    and offset :: "'s \<Rightarrow> 'c \<Rightarrow> nat" and page_size :: "'c \<Rightarrow> nat" and good :: "'s \<Rightarrow> bool"
  assumes page_size_pos: "0 < page_size c"
    and fetch_rows: "good s \<Longrightarrow> \<exists>n. fetch s c = Ok (take (page_size c) (drop (offset s c) (whole s)), n)
      \<and> (n = None \<longleftrightarrow> length (whole s) \<le> offset s c + page_size c)
      \<and> (\<forall>d. n = Some d \<longrightarrow> offset s d = offset s c + page_size c \<and> page_size d = page_size c)"
begin

lemma drain_rest: "good s \<Longrightarrow> drain (fetch s) out (Some c) = Some (Ok (out @ drop (offset s c) (whole s)))"
proof (induction "length (whole s) - offset s c" arbitrary: c out rule: less_induct)
  case less
  let ?rows = "take (page_size c) (drop (offset s c) (whole s))"
  obtain n where n: "fetch s c = Ok (?rows, n)" "n = None \<longleftrightarrow> length (whole s) \<le> offset s c + page_size c"
    "\<forall>d. n = Some d \<longrightarrow> offset s d = offset s c + page_size c \<and> page_size d = page_size c"
    using fetch_rows [OF less.prems] by blast
  have step: "drain (fetch s) out (Some c) = (if ?rows = [] then Some (Ok out) else drain (fetch s) (out @ ?rows) n)"
    by (subst drain.simps) (simp add: n(1))
  show ?case
  proof (cases "?rows = []")
    case True
    then have "drop (offset s c) (whole s) = []" using page_size_pos [of c] by simp
    then show ?thesis using True step by simp
  next
    case False
    show ?thesis
    proof (cases n)
      case None
      then have "?rows = drop (offset s c) (whole s)" using n(2) by simp
      moreover have "drain (fetch s) (out @ ?rows) None = Some (Ok (out @ ?rows))" by (subst drain.simps) simp
      ultimately show ?thesis using False None step by simp
    next
      case (Some d)
      then have d: "offset s d = offset s c + page_size c" using n(3) by simp
      have "length (whole s) - offset s d < length (whole s) - offset s c"
        using False page_size_pos [of c] d by auto
      then have "drain (fetch s) (out @ ?rows) n = Some (Ok ((out @ ?rows) @ drop (offset s d) (whole s)))"
        using less.hyps less.prems Some by simp
      moreover have "?rows @ drop (offset s d) (whole s) = drop (offset s c) (whole s)"
        using append_take_drop_id [of "page_size c" "drop (offset s c) (whole s)"] by (simp add: d add.commute)
      ultimately show ?thesis using False step by simp
    qed
  qed
qed

end

lemma limit_bounds [simp]:
  "0 < effective_limit c" "effective_limit c \<le> max_page_size" "0 < posting_effective_limit d" "posting_effective_limit d \<le> max_page_size"
  by (simp_all add: effective_limit_def posting_effective_limit_def clamp_def max_page_size_def)

lemma full_limit: "posting_effective_limit (posting_cursor_with_limit posting_cursor_start max_page_size) = max_page_size"
  by (simp add: posting_effective_limit_def posting_cursor_with_limit_def clamp_def max_page_size_def)

section \<open>Pages of the log\<close>

definition log_rows :: "env \<Rightarrow> memory_store \<Rightarrow> stored_entry list" where
  "log_rows E st = map (\<lambda>(i, e). \<lparr>se_index = Some i, se_entry = e, se_hash = content_hash E e\<rparr>) (enumerate 0 (j_entries (ms_inner st)))"

definition fetch_log :: "env \<times> memory_store \<Rightarrow> cursor \<Rightarrow> (unit, stored_entry list \<times> cursor option) res" where
  "fetch_log s c = (case s of (E, st) \<Rightarrow> Ok (pg_records (store_page E st c), pg_next (store_page E st c)))"

definition log_offset :: "env \<times> memory_store \<Rightarrow> cursor \<Rightarrow> nat" where
  "log_offset s c = (case cu_after c of None \<Rightarrow> 0 | Some i \<Rightarrow> min u64_max (i + 1))"

lemma enumerate_Nil [simp]: "enumerate n xs = [] \<longleftrightarrow> xs = []"
  by (cases xs) simp_all

lemma store_page_rows:
  assumes "length (j_entries (ms_inner st)) \<le> u64_max"
  shows "pg_records (store_page E st c) = take (effective_limit c) (drop (log_offset (E, st) c) (log_rows E st))"
    "pg_next (store_page E st c) =
       (if log_offset (E, st) c + effective_limit c < length (j_entries (ms_inner st))
        then Some \<lparr>cu_after = Some (log_offset (E, st) c + effective_limit c - 1), cu_limit = cu_limit c\<rparr> else None)"
proof -
  let ?es = "j_entries (ms_inner st)" and ?k = "log_offset (E, st) c" and ?n = "effective_limit c"
  have pos: "0 < ?n" by simp
  have rec: "pg_records (store_page E st c) = map (\<lambda>(i, e). \<lparr>se_index = Some (min u64_max (?k + i)), se_entry = e, se_hash = content_hash E e\<rparr>)
      (enumerate 0 (take ?n (drop ?k ?es)))"
    by (simp add: store_page_def log_offset_def Let_def)
  show rows: "pg_records (store_page E st c) = take ?n (drop ?k (log_rows E st))"
  proof (rule nth_equalityI)
    show "length (pg_records (store_page E st c)) = length (take ?n (drop ?k (log_rows E st)))" by (simp add: rec log_rows_def)
    fix i
    assume "i < length (pg_records (store_page E st c))"
    then have i: "i < ?n" "?k + i < length ?es" by (auto simp: rec)
    then show "pg_records (store_page E st c) ! i = take ?n (drop ?k (log_rows E st)) ! i"
      using assms by (simp add: rec log_rows_def nth_enumerate_eq add.commute)
  qed
  show "pg_next (store_page E st c) =
      (if ?k + ?n < length ?es then Some \<lparr>cu_after = Some (?k + ?n - 1), cu_limit = cu_limit c\<rparr> else None)"
  proof (cases "pg_records (store_page E st c) = []")
    case True
    then have "length ?es \<le> ?k" using pos by (simp add: rec)
    then show ?thesis using True by (auto simp: store_page_def log_offset_def Let_def)
  next
    case False
    then have k: "?k < length ?es" by (auto simp: rec)
    let ?m = "length (pg_records (store_page E st c))"
    have m: "?m = min ?n (length ?es - ?k)" by (simp add: rec)
    have idx: "se_index (pg_records (store_page E st c) ! i) = Some (?k + i)" if "i < ?m" for i
    proof -
      have "i < ?n" "?k + i < length ?es" using that k by (auto simp: m)
      then show ?thesis using k by (simp add: rows log_rows_def nth_enumerate_eq)
    qed
    have last: "se_index (last (pg_records (store_page E st c))) = Some (?k + ?m - 1)"
    proof -
      have "0 < ?m" using False by simp
      then have "?m - 1 < ?m" "?k + (?m - 1) = ?k + ?m - 1" by linarith+
      then show ?thesis using idx [of "?m - 1"] last_conv_nth [OF False] by metis
    qed
    have "pg_next (store_page E st c) =
        (if min u64_max (?k + ?m) < length ?es then map_option (\<lambda>i. \<lparr>cu_after = Some i, cu_limit = cu_limit c\<rparr>)
           (se_index (last (pg_records (store_page E st c)))) else None)"
      using False by (simp add: store_page_def log_offset_def Let_def)
    then show ?thesis using m k last assms by auto
  qed
qed

interpretation log_pages: paged_read fetch_log "\<lambda>s. log_rows (fst s) (snd s)" log_offset effective_limit
    "\<lambda>s. length (j_entries (ms_inner (snd s))) \<le> u64_max"
proof
  show "0 < effective_limit c" for c :: cursor by simp
  fix s :: "env \<times> memory_store" and c
  obtain E st where s: "s = (E, st)" by fastforce
  assume "length (j_entries (ms_inner (snd s))) \<le> u64_max"
  then have small: "length (j_entries (ms_inner st)) \<le> u64_max" by (simp add: s)
  note p = store_page_rows [OF small, of E c]
  have pos: "0 < effective_limit c" by simp
  let ?n = "pg_next (store_page E st c)"
  have "fetch_log s c = Ok (take (effective_limit c) (drop (log_offset s c) (log_rows (fst s) (snd s))), ?n)"
    using p(1) by (simp add: fetch_log_def s)
  moreover have "?n = None \<longleftrightarrow> length (log_rows (fst s) (snd s)) \<le> log_offset s c + effective_limit c"
    by (simp add: p(2) s log_rows_def not_less)
  moreover have "\<forall>d. ?n = Some d \<longrightarrow> log_offset s d = log_offset s c + effective_limit c \<and> effective_limit d = effective_limit c"
  proof (intro allI impI)
    fix d
    assume d: "?n = Some d"
    let ?k = "log_offset s c"
    have "d = \<lparr>cu_after = Some (?k + effective_limit c - 1), cu_limit = cu_limit c\<rparr>" "?k + effective_limit c < length (j_entries (ms_inner st))"
      using d unfolding p(2) s by (auto split: if_splits)
    moreover from this(2) have "?k + effective_limit c \<le> u64_max" using small by simp
    ultimately show "log_offset s d = log_offset s c + effective_limit c \<and> effective_limit d = effective_limit c"
      using pos by (simp add: log_offset_def effective_limit_def)
  qed
  ultimately show "\<exists>n. fetch_log s c = Ok (take (effective_limit c) (drop (log_offset s c) (log_rows (fst s) (snd s))), n)
      \<and> (n = None \<longleftrightarrow> length (log_rows (fst s) (snd s)) \<le> log_offset s c + effective_limit c)
      \<and> (\<forall>d. n = Some d \<longrightarrow> log_offset s d = log_offset s c + effective_limit c \<and> effective_limit d = effective_limit c)"
    by - (intro exI [of _ ?n] conjI; assumption)
qed

section \<open>Pages of a list of postings\<close>

lemma position_iff: "position P xs = Some i \<longleftrightarrow> i < length xs \<and> P (xs ! i) \<and> (\<forall>k<i. \<not> P (xs ! k))"
proof (induction P xs arbitrary: i rule: position.induct)
  case (2 P x xs)
  show ?case using "2.IH" by (cases i) (auto simp: All_less_Suc2)
qed simp

lemma resume_after:
  assumes "in_log_order (map pos xs)" "i < length xs"
  shows "resume_at pos (Some (pos (xs ! i))) xs = Suc i"
proof (cases "Suc i < length xs")
  case True
  have later: "position_less (pos (xs ! k)) (pos (xs ! m))" if "k < m" "m < length xs" for k m
    using sorted_wrt_nth_less [OF assms(1), of k m] that by simp
  have "position (\<lambda>x. position_less (pos (xs ! i)) (pos x)) xs = Some (Suc i)"
    unfolding position_iff
  proof (intro conjI allI impI)
    show "position_less (pos (xs ! i)) (pos (xs ! Suc i))" using later True by simp
    fix k
    assume "k < Suc i"
    then consider "k = i" | "k < i" by linarith
    then show "\<not> position_less (pos (xs ! i)) (pos (xs ! k))"
      using later [of k i, THEN position_less_asym] assms(2) by cases auto
  qed (rule True)
  then show ?thesis by (simp add: resume_at_def)
next
  case False
  have "\<not> position_less (pos (xs ! i)) (pos x)" if member: "x \<in> set xs" for x
  proof -
    obtain k where k: "k < length xs" "x = xs ! k" using member by (auto simp: in_set_conv_nth)
    then consider "k = i" | "k < i" using False by linarith
    then show ?thesis
    proof cases
      case 2
      then have "position_less (pos (xs ! k)) (pos (xs ! i))" using sorted_wrt_nth_less [OF assms(1), of k i] assms(2) by simp
      then show ?thesis by (simp add: k(2) position_less_asym)
    qed (use k(2) in simp)
  qed
  then have "position (\<lambda>x. position_less (pos (xs ! i)) (pos x)) xs = None" by (simp add: position_None)
  then show ?thesis using False assms(2) by (simp add: resume_at_def)
qed

text \<open>The page both methods cut out of the list they read, and the cursor after it.\<close>

definition page_of :: "('a \<Rightarrow> posting_position) \<Rightarrow> 'a list \<Rightarrow> posting_cursor \<Rightarrow> 'a list \<times> posting_cursor option" where
  "page_of pos all c =
     (let start = resume_at pos (pc_after c) all; rows = take (posting_effective_limit c) (drop start all) in
      (rows, if rows \<noteq> [] \<and> min u64_max (start + length rows) < length all
             then Some \<lparr>pc_after = Some (pos (last rows)), pc_limit = pc_limit c\<rparr> else None))"

lemma page_of_rows:
  assumes "in_log_order (map pos all)" "length all \<le> u64_max"
  shows "\<exists>n. page_of pos all c = (take (posting_effective_limit c) (drop (resume_at pos (pc_after c) all) all), n)
    \<and> (n = None \<longleftrightarrow> length all \<le> resume_at pos (pc_after c) all + posting_effective_limit c)
    \<and> (\<forall>d. n = Some d \<longrightarrow> resume_at pos (pc_after d) all = resume_at pos (pc_after c) all + posting_effective_limit c
         \<and> posting_effective_limit d = posting_effective_limit c)"
proof -
  let ?k = "resume_at pos (pc_after c) all" and ?l = "posting_effective_limit c"
  let ?rows = "take ?l (drop ?k all)"
  let ?n = "if ?rows \<noteq> [] \<and> min u64_max (?k + length ?rows) < length all
      then Some \<lparr>pc_after = Some (pos (last ?rows)), pc_limit = pc_limit c\<rparr> else None"
  have l: "0 < ?l" by simp
  have more: "?rows \<noteq> [] \<and> min u64_max (?k + length ?rows) < length all \<longleftrightarrow> ?k + ?l < length all" using l assms(2) by auto
  have next_at: "resume_at pos (Some (pos (last ?rows))) all = ?k + ?l" if "?k + ?l < length all"
  proof -
    have "last ?rows = all ! (?k + (?l - 1))" using that l by (simp add: last_conv_nth add.commute)
    moreover have "?k + (?l - 1) = ?k + ?l - 1" using l by linarith
    ultimately have "last ?rows = all ! (?k + ?l - 1)" by metis
    then show ?thesis using resume_after [OF assms(1), of "?k + ?l - 1"] that l by simp
  qed
  have "page_of pos all c = (?rows, ?n)" by (simp add: page_of_def Let_def)
  moreover have "?n = None \<longleftrightarrow> length all \<le> ?k + ?l" unfolding more by (simp add: not_less)
  moreover have "\<forall>d. ?n = Some d \<longrightarrow> resume_at pos (pc_after d) all = ?k + ?l \<and> posting_effective_limit d = ?l"
    unfolding more using next_at by (auto simp: posting_effective_limit_def)
  ultimately show ?thesis by - (intro exI [of _ ?n] conjI; assumption)
qed

definition fetch_items :: "memory_store \<times> balance_key \<Rightarrow> posting_cursor \<Rightarrow> (memory_store_error, open_item list \<times> posting_cursor option) res" where
  "fetch_items s c = (case s of (st, key) \<Rightarrow> bindR (store_open_items st key c) (\<lambda>page. Ok (op_items page, op_next page)))"

definition fetch_lines :: "memory_store \<times> balance_key \<Rightarrow> posting_cursor \<Rightarrow> (memory_store_error, statement_line list \<times> posting_cursor option) res" where
  "fetch_lines s c = (case s of (st, key) \<Rightarrow> bindR (store_statement st key c) (\<lambda>page. Ok (sp_lines page, sp_next page)))"

text \<open>What is listed, and when the list can be paged: the journal answers, in log order.\<close>

definition listed :: "('e, 'a list) res \<Rightarrow> 'a list" where
  "listed r = (case r of Ok xs \<Rightarrow> xs | Err _ \<Rightarrow> [])"

definition pageable :: "('a \<Rightarrow> posting_position) \<Rightarrow> ('e, 'a list) res \<Rightarrow> bool" where
  "pageable pos r \<longleftrightarrow> (\<exists>xs. r = Ok xs \<and> in_log_order (map pos xs) \<and> length xs \<le> u64_max)"

lemma fetch_items_page: "open_items (ms_inner (fst s)) (snd s) = Ok xs \<Longrightarrow> fetch_items s c = Ok (page_of oi_position xs c)"
  by (cases s) (simp add: fetch_items_def store_open_items_def page_of_def Let_def)

lemma fetch_lines_page: "statement (ms_inner (fst s)) (snd s) = Ok xs \<Longrightarrow> fetch_lines s c = Ok (page_of line_position xs c)"
  by (cases s) (simp add: fetch_lines_def store_statement_def page_of_def Let_def)

interpretation item_pages: paged_read fetch_items "\<lambda>s :: memory_store \<times> balance_key. listed (open_items (ms_inner (fst s)) (snd s))"
    "\<lambda>(s :: memory_store \<times> balance_key) c. resume_at oi_position (pc_after c) (listed (open_items (ms_inner (fst s)) (snd s)))" posting_effective_limit
    "\<lambda>s :: memory_store \<times> balance_key. pageable oi_position (open_items (ms_inner (fst s)) (snd s))"
proof
  fix s :: "memory_store \<times> balance_key" and c :: posting_cursor
  assume "pageable oi_position (open_items (ms_inner (fst s)) (snd s))"
  then obtain xs where "open_items (ms_inner (fst s)) (snd s) = Ok xs" "in_log_order (map oi_position xs)" "length xs \<le> u64_max"
    by (auto simp: pageable_def)
  moreover from this(1) have "fetch_items s c = Ok (page_of oi_position xs c)"
    by (rule fetch_items_page)
  ultimately show "\<exists>n. fetch_items s c = Ok (take (posting_effective_limit c) (drop (resume_at oi_position (pc_after c) (listed (open_items (ms_inner (fst s)) (snd s)))) (listed (open_items (ms_inner (fst s)) (snd s)))), n)
      \<and> (n = None \<longleftrightarrow> length (listed (open_items (ms_inner (fst s)) (snd s))) \<le> resume_at oi_position (pc_after c) (listed (open_items (ms_inner (fst s)) (snd s))) + posting_effective_limit c)
      \<and> (\<forall>d. n = Some d \<longrightarrow> resume_at oi_position (pc_after d) (listed (open_items (ms_inner (fst s)) (snd s))) = resume_at oi_position (pc_after c) (listed (open_items (ms_inner (fst s)) (snd s))) + posting_effective_limit c
           \<and> posting_effective_limit d = posting_effective_limit c)"
    using page_of_rows [of oi_position xs c] by (simp add: listed_def)
qed simp

interpretation line_pages: paged_read fetch_lines "\<lambda>s :: memory_store \<times> balance_key. listed (statement (ms_inner (fst s)) (snd s))"
    "\<lambda>(s :: memory_store \<times> balance_key) c. resume_at line_position (pc_after c) (listed (statement (ms_inner (fst s)) (snd s)))" posting_effective_limit
    "\<lambda>s :: memory_store \<times> balance_key. pageable line_position (statement (ms_inner (fst s)) (snd s))"
proof
  fix s :: "memory_store \<times> balance_key" and c :: posting_cursor
  assume "pageable line_position (statement (ms_inner (fst s)) (snd s))"
  then obtain xs where "statement (ms_inner (fst s)) (snd s) = Ok xs" "in_log_order (map line_position xs)" "length xs \<le> u64_max"
    by (auto simp: pageable_def)
  moreover from this(1) have "fetch_lines s c = Ok (page_of line_position xs c)"
    by (rule fetch_lines_page)
  ultimately show "\<exists>n. fetch_lines s c = Ok (take (posting_effective_limit c) (drop (resume_at line_position (pc_after c) (listed (statement (ms_inner (fst s)) (snd s)))) (listed (statement (ms_inner (fst s)) (snd s)))), n)
      \<and> (n = None \<longleftrightarrow> length (listed (statement (ms_inner (fst s)) (snd s))) \<le> resume_at line_position (pc_after c) (listed (statement (ms_inner (fst s)) (snd s))) + posting_effective_limit c)
      \<and> (\<forall>d. n = Some d \<longrightarrow> resume_at line_position (pc_after d) (listed (statement (ms_inner (fst s)) (snd s))) = resume_at line_position (pc_after c) (listed (statement (ms_inner (fst s)) (snd s))) + posting_effective_limit c
           \<and> posting_effective_limit d = posting_effective_limit c)"
    using page_of_rows [of line_position xs c] by (simp add: listed_def)
qed simp

section \<open>The store is the journal\<close>

text \<open>
  The calls that change a store. What a record, a period or a batch must satisfy is what its type or
  its documentation says: a path with a segment, a range that is not empty, entries that went through \<^verbatim>\<open>seal\<close>.
\<close>

inductive store_step :: "env \<Rightarrow> memory_store \<Rightarrow> memory_store \<Rightarrow> bool" for E where
  call_register: "segments (a_path (r_account rc)) \<noteq> [] \<Longrightarrow> store_step E st (snd (store_register_account rc st))"
| call_append: "\<forall>e\<in>set (eb_entries b). was_sealed E e
    \<Longrightarrow> store_len st + batch_len b \<le> u64_max \<Longrightarrow> store_step E st (snd (store_append E b st))"
| call_define: "pd_start p \<le> pd_end p \<Longrightarrow> store_step E st (snd (store_define_period p st))"
| call_transition: "store_step E st (snd (store_transition_period i to st))"
| call_seal: "store_step E st (snd (store_seal_period E i st))"
| call_clear: "store_step E st (snd (store_clear E c st))"
| call_reset: "store_step E st (snd (store_reset_clearing i on st))"
| call_save: "store_step E st (save_checkpoint c st)"

lemma with_mut_inner: "ms_inner (snd (with_mut f into st)) = snd (f (ms_inner st))" "ms_ledger (snd (with_mut f into st)) = ms_ledger st"
  by (simp_all add: with_mut_def split: prod.splits)

lemma store_step_refines:
  assumes "store_step E st tt"
  shows "(journal_step E)\<^sup>=\<^sup>= (ms_inner st) (ms_inner tt) \<and> ms_ledger tt = ms_ledger st"
  using assms
proof cases
  case (call_register rc)
  have "registry_step (j_accounts (ms_inner st)) (snd (restore rc (j_accounts (ms_inner st))))" using call_register(2) by (rule step_restore)
  from step_accounts [OF this, of E] show ?thesis
    using call_register(1) by (cases "restore rc (j_accounts (ms_inner st))") (simp add: store_register_account_def with_mut_inner)
next
  case (call_append b)
  from step_batch [OF call_append(2)] show ?thesis
    using call_append(1,3) by (simp add: store_append_def with_mut_inner store_len_def batch_len_def)
next
  case (call_define p)
  have "calendar_step (j_calendar (ms_inner st)) (snd (cal_ensure p (j_calendar (ms_inner st))))" using call_define(2) by (rule step_ensure)
  from step_calendar [OF this, of E] show ?thesis
    using call_define(1) by (cases "cal_ensure p (j_calendar (ms_inner st))") (simp add: store_define_period_def with_mut_inner)
next
  case (call_transition i to)
  from step_calendar [OF step_transition [of "j_calendar (ms_inner st)" i to], of E] show ?thesis
    using call_transition(1)
    by (cases "transition i to (j_calendar (ms_inner st))") (simp add: store_transition_period_def with_mut_inner transition_period_def)
qed (simp_all add: store_seal_period_def store_clear_def store_reset_clearing_def save_checkpoint_def with_mut_inner
    step_seal step_clear step_reset)

definition reachable_store :: "env \<Rightarrow> ledger_id \<Rightarrow> memory_store \<Rightarrow> bool" where
  "reachable_store E ledger st \<longleftrightarrow> (store_step E)\<^sup>*\<^sup>* (store_new ledger) st"

lemma store_journal:
  assumes "reachable_store E ledger st"
  shows "reachable_journal E ledger (ms_inner st)" "ms_ledger st = ledger"
proof -
  have "reachable_journal E ledger (ms_inner st) \<and> ms_ledger st = ledger"
    using assms unfolding reachable_store_def
  proof (induction rule: rtranclp_induct)
    case base
    then show ?case by (simp add: store_new_def reachable_journal_def)
  next
    case (step s t)
    then show ?case using store_step_refines [OF step(2)] by (auto simp: reachable_journal_def)
  qed
  then show "reachable_journal E ledger (ms_inner st)" "ms_ledger st = ledger" by blast+
qed

text \<open>The example journal, reached through the calls of a store.\<close>

definition demo_record_of :: "int \<Rightarrow> string \<Rightarrow> account_record" where
  "demo_record_of i name = \<lparr>r_id = AccountId (word_of_int i), r_account = account_new (AccountPath [lit name]) (Date 0)\<rparr>"

definition demo_store :: "env \<Rightarrow> memory_store" where
  "demo_store E = snd (store_append E (batch_single (demo_sale 1 7 35)) (from_journal demo_empty))"

lemma demo_store_empty: "reachable_store E (LedgerId (Label [76])) (from_journal demo_empty)"
proof -
  let ?L = "LedgerId (Label [76])"
  let ?s1 = "snd (store_register_account (demo_record_of 0 ''A'') (store_new ?L))"
  let ?s2 = "snd (store_register_account (demo_record_of 1 ''B'') ?s1)"
  let ?s3 = "snd (store_define_period (demo_period ''m1'' 0 30 Closing) ?s2)"
  let ?s4 = "snd (store_define_period (demo_period ''m2'' 31 60 Open) ?s3)"
  have "store_step E (store_new ?L) ?s1" "store_step E ?s1 ?s2"
    by (rule call_register; simp add: demo_record_of_def account_new_def)+
  moreover have "store_step E ?s2 ?s3" "store_step E ?s3 ?s4"
    by (rule call_define; simp add: demo_period_def less_eq_date_def)+
  ultimately have "reachable_store E ?L ?s4"
    unfolding reachable_store_def by (meson rtranclp.rtrancl_into_rtrancl rtranclp.rtrancl_refl)
  moreover have "?s4 = from_journal demo_empty"
  proof -
    have reg: "snd (restore (demo_record_of 1 ''B'') (snd (restore (demo_record_of 0 ''A'') registry_new))) = demo_accounts" by code_simp
    have cal: "snd (cal_ensure (demo_period ''m2'' 31 60 Open) (snd (cal_ensure (demo_period ''m1'' 0 30 Closing) calendar_new))) = demo_calendar"
      by code_simp
    have acc: "ms_inner (snd (store_register_account rc st)) = (ms_inner st)\<lparr>j_accounts := snd (restore rc (j_accounts (ms_inner st)))\<rparr>" for rc st
      by (simp add: store_register_account_def with_mut_inner split: prod.splits)
    have per: "ms_inner (snd (store_define_period p st)) = (ms_inner st)\<lparr>j_calendar := snd (cal_ensure p (j_calendar (ms_inner st)))\<rparr>" for p st
      by (simp add: store_define_period_def with_mut_inner split: prod.splits)
    have rest: "ms_ledger (snd (with_mut f into st)) = ms_ledger st \<and> ms_checkpoints (snd (with_mut f into st)) = ms_checkpoints st" for f into st
      by (simp add: with_mut_def split: prod.splits)
    have "ms_inner ?s4 = demo_empty" using reg cal by (simp add: acc per demo_empty_def store_new_def)
    moreover have "ms_ledger ?s4 = ?L" "ms_checkpoints ?s4 = bt_empty"
      by (simp_all add: store_register_account_def store_define_period_def rest store_new_def)
    ultimately show ?thesis by (intro memory_store.equality) (simp_all add: from_journal_def demo_empty_def journal_new_def)
  qed
  ultimately show ?thesis by simp
qed

lemma demo_store_step: "store_step E (from_journal demo_empty) (demo_store E)"
proof -
  have "recordable demo_empty (demo_sale 1 7 35)" using demo_recordable(1) by (simp add: demo_empty_entries)
  then have "was_sealed E (demo_sale 1 7 35)" by (auto simp: recordable_def was_sealed_iff)
  then show ?thesis
    unfolding demo_store_def
    by (intro call_append)
      (simp_all add: batch_single_def from_journal_def store_len_def batch_len_def demo_empty_entries u64_max_def)
qed

lemma demo_store: "reachable_store E (LedgerId (Label [76])) (demo_store E)" "ms_inner (demo_store E) = demo_one E"
proof -
  show "reachable_store E (LedgerId (Label [76])) (demo_store E)"
    using demo_store_empty [of E] demo_store_step [of E] unfolding reachable_store_def by (rule rtranclp.rtrancl_into_rtrancl)
  have "recordable demo_empty (demo_sale 1 7 35)" using demo_recordable(1) by (simp add: demo_empty_entries)
  then have ok: "entry_ok (journal_context demo_empty) (demo_sale 1 7 35)" by (simp add: recordable_def)
  have "bt_get (j_by_key demo_empty) (IdempotencyKey [1]) = None" by (simp add: demo_empty_def journal_new_def)
  then have "record_draft E (demo_sale 1 7 35) demo_empty = record_validated E (demo_sale 1 7 35) demo_empty"
    using ok by (simp add: record_draft_def demo_sale_fields entry_seal_Ok [THEN iffD2])
  then have "record_validated E (demo_sale 1 7 35) demo_empty = (Ok \<lparr>rec_id = EntryId 1, rec_index = Some 0,
      rec_hash = content_hash E (demo_sale 1 7 35), rec_new = True\<rparr>, demo_one E)" using demo_one(4) [of E] by simp
  then show "ms_inner (demo_store E) = demo_one E"
    by (simp add: demo_store_def store_append_def with_mut_inner batch_single_def from_journal_def record_batch_def demo_empty_entries)
qed

section \<open>The contract of appending\<close>

text \<open>
  What a batch adds: its entries in order, without those whose key the log or the batch had before; and when
  it is accepted: a known key is a retry, which must have the content that was recorded, and any
  other entry must fit the books as the entries before it leave them.
\<close>

fun fresh_entries :: "idempotency_key set \<Rightarrow> entry list \<Rightarrow> entry list" where
  "fresh_entries known [] = []"
| "fresh_entries known (e # es) =
     (if e_key e \<in> known then fresh_entries known es else e # fresh_entries (insert (e_key e) known) es)"

fun acceptable :: "env \<Rightarrow> registry \<Rightarrow> entry list \<Rightarrow> entry list \<Rightarrow> bool" where
  "acceptable E accts es [] \<longleftrightarrow> True"
| "acceptable E accts es (e # batch) \<longleftrightarrow>
     (case find (\<lambda>f. e_key f = e_key e) es of
        Some f \<Rightarrow> content_hash E f = content_hash E e \<and> acceptable E accts es batch
      | None \<Rightarrow> bookable accts es e \<and> acceptable E accts (es @ [e]) batch)"

text \<open>An outcome answers for an entry when it names the place of an entry with that key and that content.\<close>

definition answers :: "env \<Rightarrow> entry list \<Rightarrow> entry \<Rightarrow> recorded_entry \<Rightarrow> bool" where
  "answers E es e r \<longleftrightarrow> (\<exists>n<length es. e_key (es ! n) = e_key e \<and> content_hash E (es ! n) = content_hash E e
     \<and> rec_id r = e_id (es ! n) \<and> rec_index r = Some n \<and> rec_hash r = content_hash E e)"

lemma answers_later: "answers E es e r \<Longrightarrow> answers E (es @ fs) e r"
  unfolding answers_def by (metis nth_append trans_less_add1 length_append)

lemma known_key:
  assumes "journal_inv E j"
  shows "find (\<lambda>f. e_key f = key) (j_entries j) = None \<longleftrightarrow> key \<notin> e_key ` set (j_entries j)"
    "find (\<lambda>f. e_key f = key) (j_entries j) = Some f \<Longrightarrow>
      \<exists>n<length (j_entries j). j_entries j ! n = f \<and> e_key f = key \<and> bt_get (j_by_key j) key = Some (e_id f, n, content_hash E f)"
  using derived_okD(2) [OF journal_invD(1) [OF assms]]
  by (auto simp: find_None_iff find_Some_iff keys_ok_def)

text \<open>One entry: a retry, a conflict, a new entry or one that does not fit.\<close>

lemma validated_step:
  assumes "journal_inv E j" "length (j_entries j) < u64_max" "sound_entry e" "record_validated E e j = (res, k)"
  shows "case find (\<lambda>f. e_key f = e_key e) (j_entries j) of
      Some f \<Rightarrow> k = j \<and> (if content_hash E f = content_hash E e
          then \<exists>r. res = Ok r \<and> answers E (j_entries j) e r \<and> \<not> rec_new r else \<exists>x. res = Err x)
    | None \<Rightarrow> if bookable (j_accounts j) (j_entries j) e
        then j_entries k = j_entries j @ [e] \<and> (\<exists>r. res = Ok r \<and> answers E (j_entries k) e r \<and> rec_new r)
        else k = j \<and> (\<exists>x. res = Err x)"
proof (cases "find (\<lambda>f. e_key f = e_key e) (j_entries j)")
  case None
  then have "e_key e \<notin> e_key ` set (j_entries j)" by (simp add: known_key(1) [OF assms(1)])
  from validated_outcome [OF assms(1-3) this] show ?thesis
    using assms(4) None by (auto simp: answers_def split: if_splits)
next
  case (Some f)
  then obtain n where n: "n < length (j_entries j)" "j_entries j ! n = f" "e_key f = e_key e"
    "bt_get (j_by_key j) (e_key e) = Some (e_id f, n, content_hash E f)" using known_key(2) [OF assms(1)] by blast
  then have "record_validated E e j = (replay (e_id f, n, content_hash E f) (content_hash E e), j)" by (simp add: record_validated_seen)
  then show ?thesis using assms(4) Some n by (auto simp: replay_def answers_def)
qed

lemma record_all_contract:
  assumes "journal_inv E j" "\<forall>e\<in>set es. sound_entry e" "length (j_entries j) + length es \<le> u64_max" "record_all E mark out es j = (res, k)"
  shows "if acceptable E (j_accounts j) (j_entries j) es
    then journal_inv E k \<and> same_rest k j \<and> j_entries k = j_entries j @ fresh_entries (e_key ` set (j_entries j)) es
      \<and> (\<exists>rs. res = Ok (out @ rs) \<and> list_all2 (answers E (j_entries k)) es rs
          \<and> map fst (filter (\<lambda>(e, r). rec_new r) (zip es rs)) = fresh_entries (e_key ` set (j_entries j)) es)
    else \<exists>x. res = Err x"
  using assms
proof (induction es arbitrary: j out)
  case Nil
  then show ?case by (simp add: same_rest_def)
next
  case (Cons e es)
  obtain one j1 where r: "record_validated E e j = (one, j1)" by fastforce
  have small: "length (j_entries j) < u64_max" and e: "sound_entry e" using Cons.prems(2,3) by auto
  note g = record_validated_grows [OF journal_invD(1) [OF Cons.prems(1)] small r]
  note what = validated_step [OF Cons.prems(1) small e r]
  have inv: "journal_inv E j1" by (rule record_validated_inv [OF Cons.prems(1) small e r])
  have acc: "j_accounts j1 = j_accounts j" using g(2) by (simp add: same_rest_def)
  have bound: "length (j_entries j1) + length es \<le> u64_max" using g(3) Cons.prems(3) by auto
  have sound: "\<forall>f\<in>set es. sound_entry f" using Cons.prems(2) by simp
  show ?case
  proof (cases one)
    case (Inl x)
    then have "\<not> acceptable E (j_accounts j) (j_entries j) (e # es)"
      using what by (auto split: option.splits if_splits)
    then show ?thesis using Cons.prems(4) r Inl by auto
  next
    case (Inr rec)
    have run: "record_all E mark (out @ [rec]) es j1 = (res, k)" using Cons.prems(4) r Inr by simp
    note IH = Cons.IH [OF inv sound bound run, unfolded acc]
    show ?thesis
    proof (cases "find (\<lambda>f. e_key f = e_key e) (j_entries j)")
      case None
      then have key: "e_key e \<notin> e_key ` set (j_entries j)" by (simp add: known_key(1) [OF Cons.prems(1)])
      have new: "bookable (j_accounts j) (j_entries j) e" "j_entries j1 = j_entries j @ [e]" "answers E (j_entries j1) e rec" "rec_new rec"
        using what None Inr by (auto split: if_splits)
      have keys: "e_key ` set (j_entries j1) = insert (e_key e) (e_key ` set (j_entries j))" by (simp add: new(2))
      show ?thesis
      proof (cases "acceptable E (j_accounts j) (j_entries j1) es")
        case True
        then obtain rs where rs: "journal_inv E k" "same_rest k j1" "j_entries k = j_entries j1 @ fresh_entries (e_key ` set (j_entries j1)) es"
            "res = Ok ((out @ [rec]) @ rs)" "list_all2 (answers E (j_entries k)) es rs"
            "map fst (filter (\<lambda>(e, r). rec_new r) (zip es rs)) = fresh_entries (e_key ` set (j_entries j1)) es"
          using IH by auto
        moreover have "answers E (j_entries k) e rec" unfolding rs(3) by (rule answers_later [OF new(3)])
        ultimately show ?thesis
          using None key new True g(2) same_rest_trans [OF rs(2) g(2)] unfolding keys
          by (auto intro!: exI [of _ "rec # rs"])
      next
        case False
        then show ?thesis using IH None new(2) by auto
      qed
    next
      case (Some f)
      then have key: "e_key e \<in> e_key ` set (j_entries j)" using known_key(1) [OF Cons.prems(1), of "e_key e"] by auto
      have old: "content_hash E f = content_hash E e" "j1 = j" "answers E (j_entries j) e rec" "\<not> rec_new rec"
        using what Some Inr by (auto split: if_splits)
      show ?thesis
      proof (cases "acceptable E (j_accounts j) (j_entries j) es")
        case True
        then obtain rs where rs: "journal_inv E k" "same_rest k j" "j_entries k = j_entries j @ fresh_entries (e_key ` set (j_entries j)) es"
            "res = Ok ((out @ [rec]) @ rs)" "list_all2 (answers E (j_entries k)) es rs"
            "map fst (filter (\<lambda>(e, r). rec_new r) (zip es rs)) = fresh_entries (e_key ` set (j_entries j)) es"
          using IH old(2) by auto
        moreover have "answers E (j_entries k) e rec" unfolding rs(3) by (rule answers_later [OF old(3)])
        ultimately show ?thesis using Some key old True by (auto intro!: exI [of _ "rec # rs"])
      next
        case False
        then show ?thesis using IH Some old by auto
      qed
    qed
  qed
qed

text \<open>
  C17. The contract of \<^verbatim>\<open>append\<close>, for entries that went through \<^verbatim>\<open>seal\<close>. The call succeeds exactly when every entry is a
  retry of recorded content or fits the books as those before it leave them, and otherwise changes nothing.
  When it succeeds, the log is what it was followed by the entries whose keys were new, in the order given, each
  once; there is one outcome per entry, marked new for exactly those; and each outcome's identifier is that of a
  record \<^verbatim>\<open>get\<close> returns, at the outcome's position, with its hash and the entry's key. The master data, the seals, the
  clearings and the checkpoints are not touched.
\<close>

theorem store_append_contract:
  assumes "reachable_store E ledger st" "\<forall>e\<in>set (eb_entries b). was_sealed E e" "store_len st + batch_len b \<le> u64_max"
    and "store_append E b st = (res, tt)"
  shows "if acceptable E (j_accounts (ms_inner st)) (j_entries (ms_inner st)) (eb_entries b)
    then tt = st\<lparr>ms_inner := ms_inner tt\<rparr> \<and> same_rest (ms_inner tt) (ms_inner st)
      \<and> j_entries (ms_inner tt) = j_entries (ms_inner st) @ fresh_entries (e_key ` set (j_entries (ms_inner st))) (eb_entries b)
      \<and> (\<exists>rs. res = Ok rs
          \<and> map fst (filter (\<lambda>(e, r). rec_new r) (zip (eb_entries b) rs)) = fresh_entries (e_key ` set (j_entries (ms_inner st))) (eb_entries b)
          \<and> list_all2 (\<lambda>e r. \<exists>n f. rec_index r = Some n \<and> rec_hash r = content_hash E e \<and> e_key f = e_key e
               \<and> store_get E tt (rec_id r) = Some \<lparr>se_index = Some n, se_entry = f, se_hash = content_hash E e\<rparr>) (eb_entries b) rs)
    else tt = st \<and> (\<exists>x. res = Err x)"
proof -
  let ?j = "ms_inner st"
  have inv: "journal_inv E ?j" by (rule reachable_journal_inv [OF store_journal(1) [OF assms(1)]])
  note sound = sealed_entries [OF assms(2)]
  have bound: "length (j_entries ?j) + length (eb_entries b) \<le> u64_max" using assms(3) by (simp add: store_len_def batch_len_def)
  obtain ans k where run: "record_batch E (eb_entries b) ?j = (ans, k)" by fastforce
  then have all: "record_all E (length (j_entries ?j)) [] (eb_entries b) ?j = (ans, k)" by (simp add: record_batch_def)
  have res: "res = map_err MemJournal ans" "tt = st\<lparr>ms_inner := k\<rparr>"
    using assms(4) run by (auto simp: store_append_def with_mut_def)
  note c = record_all_contract [OF inv sound bound all]
  show ?thesis
  proof (cases "acceptable E (j_accounts ?j) (j_entries ?j) (eb_entries b)")
    case True
    then obtain rs where rs: "journal_inv E k" "same_rest k ?j" "j_entries k = j_entries ?j @ fresh_entries (e_key ` set (j_entries ?j)) (eb_entries b)"
        "ans = Ok rs" "list_all2 (answers E (j_entries k)) (eb_entries b) rs"
        "map fst (filter (\<lambda>(e, r). rec_new r) (zip (eb_entries b) rs)) = fresh_entries (e_key ` set (j_entries ?j)) (eb_entries b)"
      using c by auto
    have "list_all2 (\<lambda>e r. \<exists>n f. rec_index r = Some n \<and> rec_hash r = content_hash E e \<and> e_key f = e_key e
        \<and> store_get E tt (rec_id r) = Some \<lparr>se_index = Some n, se_entry = f, se_hash = content_hash E e\<rparr>) (eb_entries b) rs"
    proof (rule list_all2_mono [OF rs(5)])
      fix e r
      assume "answers E (j_entries k) e r"
      then obtain n where n: "n < length (j_entries k)" "e_key (j_entries k ! n) = e_key e" "content_hash E (j_entries k ! n) = content_hash E e"
        "rec_id r = e_id (j_entries k ! n)" "rec_index r = Some n" "rec_hash r = content_hash E e" by (auto simp: answers_def)
      have "index_of k (rec_id r) = Some n"
        using n(1,4) derived_okD(1) [OF journal_invD(1) [OF rs(1)]] by (simp add: index_of_def ids_ok_def)
      then show "\<exists>n f. rec_index r = Some n \<and> rec_hash r = content_hash E e \<and> e_key f = e_key e
          \<and> store_get E tt (rec_id r) = Some \<lparr>se_index = Some n, se_entry = f, se_hash = content_hash E e\<rparr>"
        using n by (intro exI [of _ n] exI [of _ "j_entries k ! n"]) (simp add: res(2) store_get_def entry_at_def)
    qed
    then show ?thesis using True rs res by simp
  next
    case False
    then obtain x where x: "ans = Err x" using c by auto
    have "k = ?j" using record_batch_outcome(1) [OF journal_invD(1) [OF inv] _ sound bound run x] journal_invD(2) [OF inv] by simp
    then show ?thesis using False x res by simp
  qed
qed

lemma store_append_contract_witness:
  "\<exists>rs. store_append toy_env (batch_single (demo_sale 1 7 35)) (from_journal demo_empty) = (Ok rs, demo_store toy_env)
     \<and> length rs = 1 \<and> store_len (demo_store toy_env) = 1
     \<and> list_all (\<lambda>r. store_get toy_env (demo_store toy_env) (rec_id r) \<noteq> None) rs"
proof -
  let ?b = "batch_single (demo_sale 1 7 35)"
  have rec: "recordable demo_empty (demo_sale 1 7 35)" using demo_recordable(1) by (simp add: demo_empty_entries)
  then have ok: "\<forall>e\<in>set (eb_entries ?b). was_sealed toy_env e" "acceptable toy_env (j_accounts demo_empty) [] (eb_entries ?b)"
    by (auto simp: recordable_iff was_sealed_iff batch_single_def demo_empty_entries)
  obtain res where res: "store_append toy_env ?b (from_journal demo_empty) = (res, demo_store toy_env)"
    by (metis demo_store_def prod.collapse)
  have len: "store_len (from_journal demo_empty) + batch_len ?b \<le> u64_max"
    by (simp add: store_len_def batch_len_def from_journal_def demo_empty_entries batch_single_def u64_max_def)
  from store_append_contract [OF demo_store_empty ok(1) len res] show ?thesis
    using ok(2) res
    by (auto simp: from_journal_def demo_empty_entries batch_single_def list_all2_Cons1 store_len_def demo_store(2) demo_one(2))
qed

section \<open>Proofs the trait assembles\<close>

lemma find_unique: "(\<And>x. x \<in> set xs \<Longrightarrow> P x \<longleftrightarrow> x = y) \<Longrightarrow> y \<in> set xs \<Longrightarrow> find P xs = Some y"
  by (induction xs) auto

lemma find_period:
  assumes "reachable_calendar c"
  shows "find (\<lambda>p. pd_id p = i) (cal_iter c) = cal_get c i"
proof -
  note inv = reachable_cal_inv [OF assms]
  show ?thesis
  proof (cases "cal_get c i")
    case None
    then show ?thesis by (auto simp: find_None_iff set_cal_iter [OF inv] cal_get_def)
  next
    case (Some p)
    then have p: "p \<in> set (cal_iter c)" "pd_id p = i"
      using cal_period(1) [OF inv] by (auto simp: set_cal_iter [OF inv] cal_get_def)
    have "x \<in> set (cal_iter c) \<Longrightarrow> pd_id x = i \<longleftrightarrow> x = p" for x
      using p(2) Some unfolding set_cal_iter [OF inv] cal_get_def by (metis option.inject)
    then have "find (\<lambda>p. pd_id p = i) (cal_iter c) = Some p" using p(1) by (rule find_unique)
    then show ?thesis using Some by simp
  qed
qed

definition sealed_error :: "journal_error \<Rightarrow> memory_store_error" where
  "sealed_error e = (case e of JournalSealedBalance x \<Rightarrow> MemSealedBalance x | JournalMoney x \<Rightarrow> MemMoney x | _ \<Rightarrow> MemJournal e)"

lemma map_err_bindR: "map_err f (bindR r g) = bindR (map_err f r) (\<lambda>x. map_err f (g x))"
  by (cases r) simp_all

lemma map_err_comp: "map_err f (map_err g r) = map_err (\<lambda>e. f (g e)) r"
  by (cases r) simp_all

lemma sealed_error_simps: "sealed_error (JournalMoney x) = MemMoney x" "sealed_error (JournalSealedBalance y) = MemSealedBalance y"
  by (simp_all add: sealed_error_def)

text \<open>
  The recipe every backend inherits agrees with the journal's own: reading the seals, the periods,
  the closing balances and the accounts of a store and assembling the sealed balance from them gives
  what the journal itself answers, errors included.
\<close>

theorem trait_proof_agrees:
  assumes "reachable_store E ledger st"
  shows "store_prove_sealed_balance E st i key = map_err sealed_error (prove_sealed_balance E (ms_inner st) i key)"
proof -
  note inv = journal_invD [OF reachable_journal_inv [OF store_journal(1) [OF assms]]]
  have "from_records (store_accounts st) = Ok (j_accounts (ms_inner st))"
    unfolding store_accounts_def by (rule records_rebuild [OF inv(5) refl])
  moreover have "find (\<lambda>p. pd_id p = k) (store_periods st) = cal_get (j_calendar (ms_inner st)) k" for k
    unfolding store_periods_def by (rule find_period [OF inv(6)])
  ultimately show ?thesis
    unfolding store_prove_sealed_balance_def trait_prove_sealed_balance_def prove_sealed_balance_def chain_get_def store_seals_def
    by (simp add: store_trial_balance_through_def map_err_bindR map_err_comp sealed_error_simps split: option.splits)
qed

lemma trait_proof_agrees_witness:
  "store_prove_sealed_balance toy_env (demo_store toy_env) m1_id one_key = Err (MemSealedBalance (NotSealed m1_id))"
proof -
  have "j_seals (demo_one toy_env) = chain_new (LedgerId (Label [76]))"
    using demo_one(3) [of toy_env] by (simp add: same_rest_def demo_empty_def journal_new_def)
  then have "prove_sealed_balance toy_env (ms_inner (demo_store toy_env)) m1_id one_key = Err (JournalSealedBalance (NotSealed m1_id))"
    by (simp add: prove_sealed_balance_def demo_store(2) chain_get_def chain_new_def)
  then show ?thesis using trait_proof_agrees [OF demo_store(1), of toy_env m1_id one_key] by (simp add: sealed_error_def)
qed

section \<open>Reading everything\<close>

lemma items_pageable:
  assumes "reachable_journal E ledger j" "open_items j key = Ok items" "length items \<le> u64_max"
  shows "pageable oi_position (open_items j key)"
  using open_items_total [OF reachable_journal_inv [OF assms(1)], of key] assms(2,3) by (auto simp: pageable_def)

lemma lines_pageable:
  assumes "reachable_journal E ledger j" "statement j key = Ok lines" "length lines \<le> u64_max"
  shows "pageable line_position (statement j key)"
proof -
  have inv: "journal_inv E j" by (rule reachable_journal_inv [OF assms(1)])
  obtain ls where ls: "statement j key = Ok ls" "map line_position ls = map site_position (sites_of j key)"
    using statement_by_position [OF inv] by metis
  then have "in_log_order (map line_position ls)" using sites_in_order inv_sites [OF inv] by simp
  then show ?thesis using ls(1) assms(2,3) by (auto simp: pageable_def)
qed

text \<open>
  C19. Reading every open item ends: on any store that could have been reached, the loop that follows
  the pages of the open items of an account returns, with exactly the list the journal gives, whatever
  page boundaries fall inside an entry.
\<close>

theorem all_open_items_returns:
  assumes "reachable_store E ledger st" "open_items (ms_inner st) key = Ok items" "length items \<le> u64_max"
  shows "store_all_open_items st key = Some (Ok items)"
proof -
  let ?c = "posting_cursor_with_limit posting_cursor_start max_page_size"
  have "pageable oi_position (open_items (ms_inner st) key)" by (rule items_pageable [OF store_journal(1) [OF assms(1)] assms(2,3)])
  from item_pages.drain_rest [of "(st, key)", simplified, OF this, of "[]" ?c]
  have "drain (fetch_items (st, key)) [] (Some ?c) = Some (Ok items)"
    by (simp add: listed_def assms(2) resume_at_def posting_cursor_with_limit_def posting_cursor_start_def)
  moreover have "fetch_items (st, key) = (\<lambda>c. bindR (store_open_items st key c) (\<lambda>page. Ok (op_items page, op_next page)))"
    by (simp add: fetch_items_def fun_eq_iff)
  ultimately show ?thesis by (simp add: store_all_open_items_def trait_all_open_items_def)
qed

lemma all_open_items_returns_witness:
  "\<exists>items. open_items (demo_one toy_env) (BalanceKey (AccountId 0) EUR Settled) = Ok items
     \<and> store_all_open_items (demo_store toy_env) (BalanceKey (AccountId 0) EUR Settled) = Some (Ok items)"
proof -
  let ?key = "BalanceKey (AccountId 0) EUR Settled" and ?j = "demo_one toy_env"
  have inv: "journal_inv toy_env ?j" by (rule reachable_journal_inv [OF demo_one(1)])
  obtain items where items: "open_items ?j ?key = Ok items" "in_log_order (map oi_position items)"
    "\<And>it. it \<in> set items \<longleftrightarrow> (\<exists>e p. posting_here ?j ?key (oi_position it) e p \<and> item_shows ?j (oi_position it) e p it)"
    using open_items_total [OF inv] by metis
  have "set (map oi_position items) \<subseteq> site_position ` set (sites_of ?j ?key)"
  proof
    fix x
    assume "x \<in> set (map oi_position items)"
    then obtain e p where here: "posting_here ?j ?key x e p" using items(3) by auto
    let ?s = "\<lparr>site_index = pos_index x, site_posting = pos_posting x\<rparr>"
    have "site_position ?s = x" by (simp add: site_position_def)
    then show "x \<in> site_position ` set (sites_of ?j ?key)" using here site_of_journal [OF inv, of ?s ?key] by force
  qed
  moreover have "distinct (map oi_position items)"
    using items(2) by (auto simp: distinct_conv_nth sorted_wrt_iff_nth_less nat_neq_iff) (metis position_less_irrefl)+
  ultimately have "length items \<le> length (sites_of ?j ?key)"
    by (metis card_mono distinct_card finite_imageI List.finite_set card_image_le order_trans length_map card_length)
  also have "\<dots> \<le> 2"
    using inv_sites(1) [OF inv, of ?key]
    by (simp add: demo_one(2) entry_sites_def demo_sale_fields key_of_posting_def)
  finally have "length items \<le> u64_max" by (simp add: u64_max_def)
  then show ?thesis using all_open_items_returns [OF demo_store(1), of toy_env ?key items] items(1) by (simp add: demo_store(2))
qed

text \<open>
  C18. Nothing is lost between pages: following \<^verbatim>\<open>next\<close> from the first page, with any page size asked
  for, gives the whole log in order, each entry with its position and content hash, and the whole
  statement of an account; and an entry on a page is the one \<^verbatim>\<open>get\<close> returns for its identifier.
\<close>

theorem pages_put_together:
  assumes "reachable_store E ledger st" "statement (ms_inner st) key = Ok lines" "length lines \<le> u64_max"
  shows "drain (fetch_log (E, st)) [] (Some (cursor_with_limit cursor_start n)) = Some (Ok (log_rows E st))
    \<and> drain (fetch_lines (st, key)) [] (Some (posting_cursor_with_limit posting_cursor_start n)) = Some (Ok lines)
    \<and> (\<forall>row\<in>set (log_rows E st). store_get E st (e_id (se_entry row)) = Some row)"
proof (intro conjI ballI)
  note inv = journal_invD [OF reachable_journal_inv [OF store_journal(1) [OF assms(1)]]]
  show "drain (fetch_log (E, st)) [] (Some (cursor_with_limit cursor_start n)) = Some (Ok (log_rows E st))"
    using log_pages.drain_rest [of "(E, st)" "[]" "cursor_with_limit cursor_start n"] inv(3)
    by (simp add: log_offset_def cursor_with_limit_def cursor_start_def)
  have "pageable line_position (statement (ms_inner st) key)" by (rule lines_pageable [OF store_journal(1) [OF assms(1)] assms(2,3)])
  then show "drain (fetch_lines (st, key)) [] (Some (posting_cursor_with_limit posting_cursor_start n)) = Some (Ok lines)"
    using line_pages.drain_rest [of "(st, key)" "[]" "posting_cursor_with_limit posting_cursor_start n"]
    by (simp add: listed_def assms(2) resume_at_def posting_cursor_with_limit_def posting_cursor_start_def)
  fix row
  assume "row \<in> set (log_rows E st)"
  then obtain i where i: "i < length (j_entries (ms_inner st))"
    "row = \<lparr>se_index = Some i, se_entry = j_entries (ms_inner st) ! i, se_hash = content_hash E (j_entries (ms_inner st) ! i)\<rparr>"
    by (auto simp: log_rows_def in_set_enumerate_eq)
  then have "index_of (ms_inner st) (e_id (se_entry row)) = Some i"
    using derived_okD(1) [OF inv(1)] by (simp add: index_of_def ids_ok_def)
  then show "store_get E st (e_id (se_entry row)) = Some row" using i by (simp add: store_get_def Let_def entry_at_def)
qed

lemma pages_put_together_witness:
  "drain (fetch_log (toy_env, demo_store toy_env)) [] (Some (cursor_with_limit cursor_start 1)) = Some (Ok (log_rows toy_env (demo_store toy_env)))
   \<and> length (log_rows toy_env (demo_store toy_env)) = 1"
proof -
  let ?key = "BalanceKey (AccountId 0) EUR Settled" and ?j = "demo_one toy_env"
  have inv: "journal_inv toy_env ?j" by (rule reachable_journal_inv [OF demo_one(1)])
  obtain lines where lines: "statement ?j ?key = Ok lines" "map line_position lines = map site_position (sites_of ?j ?key)"
    using statement_by_position [OF inv] by metis
  have "length lines = length (sites_of ?j ?key)" using arg_cong [OF lines(2), of length] by simp
  also have "\<dots> \<le> 2"
    using inv_sites(1) [OF inv, of ?key] by (simp add: demo_one(2) entry_sites_def demo_sale_fields key_of_posting_def)
  finally have "length lines \<le> u64_max" by (simp add: u64_max_def)
  from pages_put_together [OF demo_store(1), of toy_env ?key lines 1, unfolded demo_store(2), OF lines(1) this]
  show ?thesis by (simp add: log_rows_def demo_store(2) demo_one(2))
qed

text \<open>The rows of a page cut out of a list: none past the end, and as many as asked for before it.\<close>

lemma cut_length:
  "length (take (posting_effective_limit d) (drop k xs)) \<le> max_page_size"
  "take (posting_effective_limit d) (drop k xs) = [] \<longleftrightarrow> length xs \<le> k"
  "1 \<le> pc_limit d \<Longrightarrow> pc_limit d \<le> max_page_size \<Longrightarrow> k + pc_limit d \<le> length xs
    \<Longrightarrow> length (take (posting_effective_limit d) (drop k xs)) = pc_limit d"
  using limit_bounds(3,4) [of d]
  by (simp_all add: min_le_iff_disj del: limit_bounds) (simp add: posting_effective_limit_def clamp_def)

text \<open>
  C20. A page of any listing is never larger than 4096 rows, whatever limit is asked for, empty only when no
  rows are left after the cursor, and exactly as large as asked where the limit is between 1 and 4096 and the
  rows are there: the pages of the log, of the open items of an account and of its statement alike.
\<close>

theorem page_limits:
  assumes "reachable_store E ledger st" "open_items (ms_inner st) key = Ok items" "statement (ms_inner st) key = Ok lines"
  shows "length (pg_records (store_page E st c)) \<le> max_page_size
    \<and> (pg_records (store_page E st c) = [] \<longleftrightarrow> store_len st \<le> log_offset (E, st) c)
    \<and> (1 \<le> cu_limit c \<and> cu_limit c \<le> max_page_size \<and> log_offset (E, st) c + cu_limit c \<le> store_len st
         \<longrightarrow> length (pg_records (store_page E st c)) = cu_limit c)
    \<and> (\<exists>page. store_open_items st key d = Ok page \<and> length (op_items page) \<le> max_page_size
         \<and> (op_items page = [] \<longleftrightarrow> length items \<le> resume_at oi_position (pc_after d) items)
         \<and> (1 \<le> pc_limit d \<and> pc_limit d \<le> max_page_size \<and> resume_at oi_position (pc_after d) items + pc_limit d \<le> length items
              \<longrightarrow> length (op_items page) = pc_limit d))
    \<and> (\<exists>page. store_statement st key d = Ok page \<and> length (sp_lines page) \<le> max_page_size
         \<and> (sp_lines page = [] \<longleftrightarrow> length lines \<le> resume_at line_position (pc_after d) lines)
         \<and> (1 \<le> pc_limit d \<and> pc_limit d \<le> max_page_size \<and> resume_at line_position (pc_after d) lines + pc_limit d \<le> length lines
              \<longrightarrow> length (sp_lines page) = pc_limit d))"
proof (intro conjI impI)
  have small: "length (j_entries (ms_inner st)) \<le> u64_max"
    using journal_invD(3) [OF reachable_journal_inv [OF store_journal(1) [OF assms(1)]]] .
  note rows = store_page_rows(1) [OF small, of E c]
  show "length (pg_records (store_page E st c)) \<le> max_page_size"
    unfolding rows length_take by (rule min.coboundedI2) (rule limit_bounds)
  show "pg_records (store_page E st c) = [] \<longleftrightarrow> store_len st \<le> log_offset (E, st) c"
    using limit_bounds(1) [of c] by (simp add: rows log_rows_def store_len_def del: limit_bounds)
  show "length (pg_records (store_page E st c)) = cu_limit c"
    if "1 \<le> cu_limit c \<and> cu_limit c \<le> max_page_size \<and> log_offset (E, st) c + cu_limit c \<le> store_len st"
    using that by (auto simp: rows log_rows_def store_len_def effective_limit_def clamp_def)
  obtain page where "store_open_items st key d = Ok page" "op_items page = take (posting_effective_limit d) (drop (resume_at oi_position (pc_after d) items) items)"
    using assms(2) by (simp add: store_open_items_def Let_def)
  then show "\<exists>page. store_open_items st key d = Ok page \<and> length (op_items page) \<le> max_page_size
      \<and> (op_items page = [] \<longleftrightarrow> length items \<le> resume_at oi_position (pc_after d) items)
      \<and> (1 \<le> pc_limit d \<and> pc_limit d \<le> max_page_size \<and> resume_at oi_position (pc_after d) items + pc_limit d \<le> length items
           \<longrightarrow> length (op_items page) = pc_limit d)"
    using cut_length [of d "resume_at oi_position (pc_after d) items" items] by (intro exI [of _ page]) simp
  obtain page where "store_statement st key d = Ok page" "sp_lines page = take (posting_effective_limit d) (drop (resume_at line_position (pc_after d) lines) lines)"
    using assms(3) by (simp add: store_statement_def Let_def)
  then show "\<exists>page. store_statement st key d = Ok page \<and> length (sp_lines page) \<le> max_page_size
      \<and> (sp_lines page = [] \<longleftrightarrow> length lines \<le> resume_at line_position (pc_after d) lines)
      \<and> (1 \<le> pc_limit d \<and> pc_limit d \<le> max_page_size \<and> resume_at line_position (pc_after d) lines + pc_limit d \<le> length lines
           \<longrightarrow> length (sp_lines page) = pc_limit d)"
    using cut_length [of d "resume_at line_position (pc_after d) lines" lines] by (intro exI [of _ page]) simp
qed

lemma page_limits_witness:
  "length (pg_records (store_page toy_env (demo_store toy_env) (cursor_with_limit cursor_start 1))) = 1
   \<and> pg_records (store_page toy_env (demo_store toy_env) (cursor_after 0)) = []
   \<and> (\<exists>page. store_statement (demo_store toy_env) (BalanceKey (AccountId 0) EUR Settled) (posting_cursor_with_limit posting_cursor_start 1) = Ok page
        \<and> length (sp_lines page) = 1)"
proof -
  let ?key = "BalanceKey (AccountId 0) EUR Settled" and ?j = "demo_one toy_env"
  have inv: "journal_inv toy_env ?j" by (rule reachable_journal_inv [OF demo_one(1)])
  obtain items where items: "open_items ?j ?key = Ok items" using open_items_total [OF inv] by metis
  obtain lines where lines: "statement ?j ?key = Ok lines" "map line_position lines = map site_position (sites_of ?j ?key)"
    using statement_by_position [OF inv] by metis
  have "length lines = 1"
    using arg_cong [OF lines(2), of length] inv_sites(1) [OF inv, of ?key]
    by (simp add: demo_one(2) entry_sites_def demo_sale_fields key_of_posting_def)
  note limits = page_limits [OF demo_store(1) [of toy_env], unfolded demo_store(2), OF items lines(1)]
  show ?thesis
    using limits [of "cursor_with_limit cursor_start 1" "posting_cursor_with_limit posting_cursor_start 1"]
      limits [of "cursor_after 0"] \<open>length lines = 1\<close>
    by (simp add: store_len_def demo_store(2) demo_one(2) log_offset_def cursor_with_limit_def cursor_start_def cursor_after_def max_page_size_def
        u64_max_def resume_at_def posting_cursor_with_limit_def posting_cursor_start_def) blast
qed

end
