(* ===== verification/Sqlite_Rows.thy ===== *)
theory Sqlite_Rows
  imports Storage
begin

text \<open>
  The tables of \<^verbatim>\<open>schema/sqlite.sql\<close> and how \<^verbatim>\<open>src/storage/sqlite.rs\<close> writes and reads their rows. A
  table is the list of its rows in insertion order; \<^verbatim>\<open>INTEGER\<close> columns are integers, \<^verbatim>\<open>BLOB\<close> columns lists of
  bytes, \<^verbatim>\<open>TEXT\<close> columns strings, except that a column of dates holds dates, and a nullable column is an
  option. The message of a malformed row is not kept.
\<close>

section \<open>Errors\<close>

datatype sqlite_error =
    SqlDatabase
  | SqlIntegrity integrity_error
  | SqlMalformed
  | SqlIdempotencyConflict entry_id
  | SqlProof proof_error
  | LogNotDense nat nat
  | SqlSealedBalance sealed_balance_error
  | SqlAccount account_error
  | SqlMoney money_error
  | SqlClearing clearing_error
  | SqlUnknownOriginal entry_id
  | SqlAlreadyReversed entry_id
  | SqlReversalOfReversal entry_id
  | SqlNotAnInversion entry_id
  | ClearingNotResettable clearing_id
  | SqlAccumulator malformed_accumulator
  | SqlDuplicateId entry_id
  | SqlPeriod period_error
  | ForeignKeysDisabled
  | AccountRebound account_id
  | SqlLimitBreached account_id currency layer balance_limit int
  | WrongLedger ledger_id ledger_id

section \<open>Rows and tables\<close>

record account_row =
  ar_index :: int
  ar_path :: ustr
  ar_kind :: "ustr option"
  ar_opened :: date
  ar_closed :: "date option"
  ar_limit :: ustr

record period_row =
  pr_id :: ustr
  pr_starts :: date
  pr_ends :: date
  pr_state :: ustr

record entry_row =
  er_index :: "int option"
  er_id :: "byte list"
  er_key :: "byte list"
  er_hash :: "byte list"
  er_booking :: date
  er_value :: date
  er_description :: ustr
  er_actor :: "ustr option"
  er_source :: "ustr option"
  er_correlation :: "ustr option"
  er_document :: "ustr option"
  er_document_hash :: "byte list option"
  er_reverses :: "byte list option"
  er_original :: "date option"
  er_root :: "byte list option"
  er_kind :: "ustr option"

record posting_row =
  po_entry :: "byte list"
  po_index :: int
  po_account :: int
  po_direction :: ustr
  po_amount :: int
  po_currency :: ustr
  po_layer :: ustr

record dimension_row =
  di_entry :: "byte list"
  di_index :: int
  di_axis :: ustr
  di_value :: ustr

record subtree_row =
  sr_height :: int
  sr_node :: "byte list"
  sr_position :: int

record seal_row =
  lr_period :: ustr
  lr_first :: "int option"
  lr_last :: "int option"
  lr_count :: int
  lr_tree_size :: int
  lr_tree_root :: "byte list"
  lr_balance_size :: int
  lr_balance_root :: "byte list"
  lr_accounts_size :: int
  lr_accounts_root :: "byte list"
  lr_prev :: "byte list option"
  lr_hash :: "byte list"
  lr_position :: int

record clearing_row =
  cw_id :: "byte list"
  cw_account :: int
  cw_currency :: ustr
  cw_layer :: ustr
  cw_cleared :: date
  cw_reset :: "date option"

record clearing_item_row =
  cx_clearing :: "byte list"
  cx_entry :: "byte list"
  cx_posting :: int
  cx_applied :: int

record checkpoint_row =
  kr_account :: int
  kr_currency :: ustr
  kr_layer :: ustr
  kr_debits :: int
  kr_credits :: int
  kr_size :: int
  kr_root :: "byte list"

record sqlite_db =
  db_ledger :: "ustr option"
  db_accounts :: "account_row list"
  db_periods :: "period_row list"
  db_entries :: "entry_row list"
  db_postings :: "posting_row list"
  db_dimensions :: "dimension_row list"
  db_subtrees :: "subtree_row list"
  db_seals :: "seal_row list"
  db_clearings :: "clearing_row list"
  db_clearing_items :: "clearing_item_row list"
  db_checkpoints :: "checkpoint_row list"

section \<open>Codes of columns\<close>

definition direction_str :: "direction \<Rightarrow> ustr" where
  "direction_str d = (case d of Debit \<Rightarrow> lit ''D'' | Credit \<Rightarrow> lit ''C'')"

definition layer_str :: "layer \<Rightarrow> ustr" where
  "layer_str l = (case l of Settled \<Rightarrow> lit ''settled'' | Pending \<Rightarrow> lit ''pending'')"

definition period_state_str :: "period_state \<Rightarrow> ustr" where
  "period_state_str s = (case s of Open \<Rightarrow> lit ''open'' | Closing \<Rightarrow> lit ''closing'' | Sealed \<Rightarrow> lit ''sealed'')"

definition limit_code :: "balance_limit \<Rightarrow> ustr" where
  "limit_code l =
     (case l of Unlimited \<Rightarrow> lit ''unlimited'' | NoCreditBalance \<Rightarrow> lit ''no_credit'' | NoDebitBalance \<Rightarrow> lit ''no_debit'')"

definition limit_from_code :: "ustr \<Rightarrow> balance_limit option" where
  "limit_from_code s =
     (if s = lit ''unlimited'' then Some Unlimited
      else if s = lit ''no_credit'' then Some NoCreditBalance
      else if s = lit ''no_debit'' then Some NoDebitBalance
      else None)"

definition kind_code :: "account_kind \<Rightarrow> ustr" where
  "kind_code k =
     (case k of Asset \<Rightarrow> lit ''asset'' | Liability \<Rightarrow> lit ''liability'' | Equity \<Rightarrow> lit ''equity''
      | Income \<Rightarrow> lit ''income'' | Expense \<Rightarrow> lit ''expense'')"

definition kind_from_code :: "ustr \<Rightarrow> account_kind option" where
  "kind_from_code s =
     (if s = lit ''asset'' then Some Asset
      else if s = lit ''liability'' then Some Liability
      else if s = lit ''equity'' then Some Equity
      else if s = lit ''income'' then Some Income
      else if s = lit ''expense'' then Some Expense
      else None)"

definition uuid_bytes :: "entry_id \<Rightarrow> byte list" where
  "uuid_bytes i = be_bytes 16 (unat (entry_uuid i))"

definition clearing_bytes :: "clearing_id \<Rightarrow> byte list" where
  "clearing_bytes i = be_bytes 16 (unat (clearing_uuid i))"

definition uuid_from_bytes :: "byte list \<Rightarrow> (sqlite_error, entry_id) res" where
  "uuid_from_bytes bs = (if length bs = 16 then Ok (EntryId (of_nat (be_val bs))) else Err SqlMalformed)"

definition sql_hash :: "byte list \<Rightarrow> (sqlite_error, hash) res" where
  "sql_hash bs = (if length bs = 32 then Ok (hash_from_bytes bs) else Err SqlMalformed)"

text \<open>Conversions between the widths of integers that fall back to a bound instead of failing.\<close>

definition i64_or_max :: "nat \<Rightarrow> int" where
  "i64_or_max n = (if int n \<le> i64_max then int n else i64_max)"

definition i64_or_zero :: "nat \<Rightarrow> int" where
  "i64_or_zero n = (if int n \<le> i64_max then int n else 0)"

definition u64_or_zero :: "int \<Rightarrow> nat" where
  "u64_or_zero i = (if 0 \<le> i then nat i else 0)"

definition u32_or_zero :: "int \<Rightarrow> u32" where
  "u32_or_zero i = (if 0 \<le> i \<and> i < 2 ^ 32 then word_of_int i else 0)"

definition u16_or_zero :: "int \<Rightarrow> u16" where
  "u16_or_zero i = (if 0 \<le> i \<and> i < 2 ^ 16 then word_of_int i else 0)"

definition prefix_bound :: "nat option \<Rightarrow> int" where
  "prefix_bound n = (case n of None \<Rightarrow> i64_max | Some m \<Rightarrow> i64_or_max m)"

definition from_minor :: "int \<Rightarrow> amount" where
  "from_minor n = Amount (word_of_int n)"

definition column_account :: "account_id \<Rightarrow> int" where
  "column_account a = uint (account_index a)"

section \<open>Accounts, periods and seals\<close>

definition account_row_of :: "account_record \<Rightarrow> account_row" where
  "account_row_of r =
     \<lparr>ar_index = column_account (r_id r), ar_path = path_display (a_path (r_account r)),
      ar_kind = map_option kind_code (a_kind (r_account r)), ar_opened = opened_on (r_account r),
      ar_closed = closed_on (r_account r), ar_limit = limit_code (a_limit (r_account r))\<rparr>"

definition account_record_of :: "account_row \<Rightarrow> (sqlite_error, account_record) res" where
  "account_record_of row =
     bindR (map_err (\<lambda>_. SqlMalformed) (path_parse (ar_path row))) (\<lambda>path.
     bindR (ok_or (limit_from_code (ar_limit row)) SqlMalformed) (\<lambda>limit.
       Ok \<lparr>r_id = AccountId (u32_or_zero (ar_index row)),
           r_account = \<lparr>a_path = path, a_kind = Option.bind (ar_kind row) kind_from_code, opened_on = ar_opened row,
                        closed_on = ar_closed row, a_limit = limit\<rparr>\<rparr>))"

definition period_row_of :: "period \<Rightarrow> period_row" where
  "period_row_of p =
     \<lparr>pr_id = label_str (period_label (pd_id p)), pr_starts = pd_start p, pr_ends = pd_end p, pr_state = period_state_str (pd_state p)\<rparr>"

definition period_of_row :: "period_row \<Rightarrow> (sqlite_error, period) res" where
  "period_of_row row =
     bindR (map_err (\<lambda>_. SqlMalformed) (period_id_new (pr_id row))) (\<lambda>i.
     bindR (map_err (\<lambda>_. SqlMalformed) (period_new i (pr_starts row) (pr_ends row))) (\<lambda>p.
       if pr_state row = lit ''open'' then Ok (p\<lparr>pd_state := Open\<rparr>)
       else if pr_state row = lit ''closing'' then Ok (p\<lparr>pd_state := Closing\<rparr>)
       else if pr_state row = lit ''sealed'' then Ok (p\<lparr>pd_state := Sealed\<rparr>)
       else Err SqlMalformed))"

definition seal_row_of :: "nat \<Rightarrow> seal \<Rightarrow> seal_row" where
  "seal_row_of pos s =
     \<lparr>lr_period = label_str (period_label (sl_period s)), lr_first = map_option i64_or_zero (sl_first s),
      lr_last = map_option i64_or_zero (sl_last s), lr_count = i64_or_zero (sl_count s),
      lr_tree_size = i64_or_zero (th_size (sl_tree_head s)), lr_tree_root = hash_bytes (th_root (sl_tree_head s)),
      lr_balance_size = i64_or_zero (th_size (sl_trial_balance s)), lr_balance_root = hash_bytes (th_root (sl_trial_balance s)),
      lr_accounts_size = i64_or_zero (th_size (sl_accounts s)), lr_accounts_root = hash_bytes (th_root (sl_accounts s)),
      lr_prev = map_option hash_bytes (sl_prev s), lr_hash = hash_bytes (sl_hash s), lr_position = i64_or_zero pos\<rparr>"

definition seal_of_row :: "ledger_id \<Rightarrow> seal_row \<Rightarrow> (sqlite_error, seal) res" where
  "seal_of_row ledger row =
     bindR (map_err (\<lambda>_. SqlMalformed) (period_id_new (lr_period row))) (\<lambda>i.
     bindR (sql_hash (lr_tree_root row)) (\<lambda>tree.
     bindR (sql_hash (lr_balance_root row)) (\<lambda>balance.
     bindR (sql_hash (lr_accounts_root row)) (\<lambda>accts.
     bindR (case lr_prev row of None \<Rightarrow> Ok None | Some b \<Rightarrow> bindR (sql_hash b) (\<lambda>h. Ok (Some h))) (\<lambda>prev.
     bindR (sql_hash (lr_hash row)) (\<lambda>h.
       Ok \<lparr>sl_ledger = ledger, sl_period = i, sl_first = map_option u64_or_zero (lr_first row),
           sl_last = map_option u64_or_zero (lr_last row), sl_count = u64_or_zero (lr_count row),
           sl_tree_head = \<lparr>th_size = u64_or_zero (lr_tree_size row), th_root = tree\<rparr>,
           sl_trial_balance = \<lparr>th_size = u64_or_zero (lr_balance_size row), th_root = balance\<rparr>,
           sl_accounts = \<lparr>th_size = u64_or_zero (lr_accounts_size row), th_root = accts\<rparr>,
           sl_prev = prev, sl_hash = h\<rparr>))))))"

section \<open>Entries\<close>

definition entry_row_of :: "env \<Rightarrow> int \<Rightarrow> hash \<Rightarrow> entry \<Rightarrow> entry_row" where
  "entry_row_of E i root e =
     \<lparr>er_index = Some i, er_id = uuid_bytes (e_id e), er_key = key_bytes (e_key e), er_hash = hash_bytes (content_hash E e),
      er_booking = booking_date e, er_value = value_date e, er_description = description_str (e_description e),
      er_actor = map_option label_str (actor (e_provenance e)), er_source = map_option label_str (source (e_provenance e)),
      er_correlation = map_option label_str (correlation (e_provenance e)),
      er_document = map_option (\<lambda>d. label_str (doc_id d)) (e_document e),
      er_document_hash = Option.bind (e_document e) (\<lambda>d. map_option hash_bytes (doc_hash d)),
      er_reverses = map_option uuid_bytes (e_reverses e), er_original = original_booking_date e,
      er_root = Some (hash_bytes root), er_kind = map_option label_str (e_kind e)\<rparr>"

definition posting_row_of :: "entry_id \<Rightarrow> nat \<Rightarrow> posting \<Rightarrow> posting_row" where
  "posting_row_of i k p =
     \<lparr>po_entry = uuid_bytes i, po_index = i64_or_max k, po_account = column_account (p_account p),
      po_direction = direction_str (p_direction p), po_amount = amt (p_amount p), po_currency = currency_code (p_currency p),
      po_layer = layer_str (p_layer p)\<rparr>"

definition dimension_rows_of :: "entry_id \<Rightarrow> nat \<Rightarrow> posting \<Rightarrow> dimension_row list" where
  "dimension_rows_of i k p =
     map (\<lambda>(axis, val). \<lparr>di_entry = uuid_bytes i, di_index = i64_or_max k, di_axis = label_str axis, di_value = label_str val\<rparr>)
       (bt_iter (axes (p_dimensions p)))"

definition build_posting :: "posting_row \<Rightarrow> (sqlite_error, posting) res" where
  "build_posting row =
     bindR (if po_direction row = lit ''D'' then Ok Debit else if po_direction row = lit ''C'' then Ok Credit else Err SqlMalformed) (\<lambda>d.
     bindR (if po_layer row = lit ''settled'' then Ok Settled else if po_layer row = lit ''pending'' then Ok Pending else Err SqlMalformed) (\<lambda>l.
     bindR (map_err (\<lambda>_. SqlMalformed) (currency_new (str_trim (po_currency row)))) (\<lambda>c.
       Ok \<lparr>p_account = AccountId (u32_or_zero (po_account row)), p_direction = d, p_amount = from_minor (po_amount row),
           p_currency = c, p_layer = l, p_dimensions = dims_none\<rparr>)))"

type_synonym dimension_index = "(byte list \<times> int, dimensions) btmap"

definition add_dimension :: "dimension_index \<Rightarrow> dimension_row \<Rightarrow> (sqlite_error, dimension_index) res" where
  "add_dimension out row =
     (let at = (di_entry row, di_index row); slot = (case bt_get out at of None \<Rightarrow> dims_none | Some d \<Rightarrow> d) in
      bindR (map_err (\<lambda>_. SqlMalformed) (label_new (di_axis row))) (\<lambda>axis.
      bindR (map_err (\<lambda>_. SqlMalformed) (label_new (di_value row))) (\<lambda>val.
      bindR (map_err (\<lambda>_. SqlMalformed) (dims_set slot axis val)) (\<lambda>(_, d). Ok (bt_insert at d out)))))"

definition dimensions_from :: "dimension_row list \<Rightarrow> (sqlite_error, dimension_index) res" where
  "dimensions_from rows = try_fold add_dimension bt_empty rows"

text \<open>\<^verbatim>\<open>if let Some(v)\<close> over a nullable column that holds a label.\<close>

definition provenance_column :: "(provenance \<Rightarrow> ustr \<Rightarrow> (dimension_error, provenance) res) \<Rightarrow> ustr option
    \<Rightarrow> provenance \<Rightarrow> (sqlite_error, provenance) res" where
  "provenance_column with_field column p =
     (case column of None \<Rightarrow> Ok p | Some v \<Rightarrow> map_err (\<lambda>_. SqlMalformed) (with_field p v))"

definition document_of :: "ustr \<Rightarrow> byte list option \<Rightarrow> (sqlite_error, document_ref) res" where
  "document_of i stored =
     (case stored of
        Some bs \<Rightarrow> bindR (sql_hash bs) (\<lambda>h. map_err (\<lambda>_. SqlMalformed) (document_new i h))
      | None \<Rightarrow> map_err (\<lambda>_. SqlMalformed) (document_unverified i))"

definition kind_column :: "ustr option \<Rightarrow> entry \<Rightarrow> (sqlite_error, entry) res" where
  "kind_column column draft =
     (case column of
        None \<Rightarrow> Ok draft
      | Some s \<Rightarrow> bindR (map_err (\<lambda>_. SqlMalformed) (label_new s)) (\<lambda>kind. Ok (entry_with_kind draft kind)))"

definition document_columns :: "ustr option \<Rightarrow> byte list option \<Rightarrow> entry \<Rightarrow> (sqlite_error, entry) res" where
  "document_columns i stored draft =
     (case i of None \<Rightarrow> Ok draft | Some s \<Rightarrow> bindR (document_of s stored) (\<lambda>d. Ok (with_document draft d)))"

definition reversal_columns :: "byte list option \<Rightarrow> date option \<Rightarrow> entry \<Rightarrow> (sqlite_error, entry) res" where
  "reversal_columns reverses original draft =
     (case (reverses, original) of
        (Some r, Some d) \<Rightarrow> bindR (uuid_from_bytes r) (\<lambda>target. Ok (reversing draft target d))
      | _ \<Rightarrow> Ok draft)"

definition build_stored_entry :: "env \<Rightarrow> entry_row \<Rightarrow> posting list \<Rightarrow> (sqlite_error, stored_entry) res" where
  "build_stored_entry E row ps =
     bindR (uuid_from_bytes (er_id row)) (\<lambda>i.
     bindR (sql_hash (er_hash row)) (\<lambda>stored_hash.
     bindR (provenance_column with_actor (er_actor row) provenance_none) (\<lambda>prov1.
     bindR (provenance_column with_source (er_source row) prov1) (\<lambda>prov2.
     bindR (provenance_column with_correlation (er_correlation row) prov2) (\<lambda>prov.
     bindR (map_err (\<lambda>_. SqlMalformed) (key_new (er_key row))) (\<lambda>key.
     bindR (map_err (\<lambda>_. SqlMalformed) (description_new (er_description row))) (\<lambda>desc.
     bindR (kind_column (er_kind row)
       (with_provenance (with_description (with_value_date (entry_new i key (er_booking row)) (er_value row)) desc) prov)) (\<lambda>draft1.
     bindR (document_columns (er_document row) (er_document_hash row) draft1) (\<lambda>draft2.
     bindR (reversal_columns (er_reverses row) (er_original row) draft2) (\<lambda>draft3.
     bindR (map_err SqlIntegrity (adopt_verified E (foldl post draft3 ps) stored_hash)) (\<lambda>e.
       Ok \<lparr>se_index = map_option u64_or_zero (er_index row), se_entry = e, se_hash = stored_hash\<rparr>)))))))))))"

end
