(* ===== verification/Sqlite_Store.thy ===== *)
theory Sqlite_Store
  imports Sqlite_Rows
begin

text \<open>
  \<^verbatim>\<open>src/storage/sqlite.rs\<close>: the operations of the SQLite backend over the tables of \<open>Sqlite_Rows\<close>. A
  statement is the list operation its text says; what the schema constrains is a condition of the
  insert, and breaking it is \<open>SqlDatabase\<close>. A call is atomic: it answers and leaves a database, and one
  that runs in a transaction leaves the old database when it fails.
\<close>

section \<open>Aggregates and inserts\<close>

text \<open>\<^verbatim>\<open>COALESCE(SUM(..), 0)\<close>, which fails where a partial sum leaves the 64-bit integers.\<close>

definition sql_sum :: "int list \<Rightarrow> (sqlite_error, int) res" where
  "sql_sum xs = try_fold (\<lambda>acc x. if in_i64 (acc + x) then Ok (acc + x) else Err SqlDatabase) 0 xs"

definition sql_max :: "int list \<Rightarrow> int option" where
  "sql_max xs = (case xs of [] \<Rightarrow> None | x # rest \<Rightarrow> Some (foldl max x rest))"

definition sql_min :: "int list \<Rightarrow> int option" where
  "sql_min xs = (case xs of [] \<Rightarrow> None | x # rest \<Rightarrow> Some (foldl min x rest))"

text \<open>The entries with a position, in log order.\<close>

definition sequenced :: "'a sqlite_db_scheme \<Rightarrow> entry_row list" where
  "sequenced db = sort_key er_index (filter (\<lambda>r. er_index r \<noteq> None) (db_entries db))"

definition entry_row_ok :: "entry_row list \<Rightarrow> entry_row \<Rightarrow> bool" where
  "entry_row_ok rows r \<longleftrightarrow>
     \<not> list_ex (\<lambda>q. er_id q = er_id r \<or> (er_index r \<noteq> None \<and> er_index q = er_index r)
        \<or> (er_reverses r \<noteq> None \<and> er_reverses q = er_reverses r)) rows
     \<and> (case er_index r of None \<Rightarrow> True | Some i \<Rightarrow> 0 \<le> i)
     \<and> length (er_hash r) = 32 \<and> (case er_root r of None \<Rightarrow> True | Some h \<Rightarrow> length h = 32)
     \<and> (er_index r = None \<longleftrightarrow> er_root r = None)
     \<and> (er_document r \<noteq> None \<or> er_document_hash r = None)
     \<and> (er_reverses r = None \<longleftrightarrow> er_original r = None)"

text \<open>\<^verbatim>\<open>INSERT .. ON CONFLICT (idempotency_key) DO NOTHING RETURNING log_index\<close>.\<close>

definition insert_entry :: "entry_row \<Rightarrow> 'a sqlite_db_scheme \<Rightarrow> (sqlite_error, (int option \<times> 'a sqlite_db_scheme) option) res" where
  "insert_entry r db =
     (if list_ex (\<lambda>q. er_key q = er_key r) (db_entries db) then Ok None
      else if \<not> entry_row_ok (db_entries db) r then Err SqlDatabase
      else Ok (Some (er_index r, db\<lparr>db_entries := db_entries db @ [r]\<rparr>)))"

definition posting_row_ok :: "'a sqlite_db_scheme \<Rightarrow> posting_row \<Rightarrow> bool" where
  "posting_row_ok db r \<longleftrightarrow>
     \<not> list_ex (\<lambda>q. po_entry q = po_entry r \<and> po_index q = po_index r) (db_postings db)
     \<and> list_ex (\<lambda>e. er_id e = po_entry r) (db_entries db)
     \<and> list_ex (\<lambda>a. ar_index a = po_account r) (db_accounts db)
     \<and> po_direction r \<in> {lit ''D'', lit ''C''} \<and> po_layer r \<in> {lit ''settled'', lit ''pending''} \<and> 0 < po_amount r"

definition insert_posting :: "'a sqlite_db_scheme \<Rightarrow> posting_row \<Rightarrow> (sqlite_error, 'a sqlite_db_scheme) res" where
  "insert_posting db r =
     (if posting_row_ok db r then Ok (db\<lparr>db_postings := db_postings db @ [r]\<rparr>) else Err SqlDatabase)"

definition dimension_row_ok :: "'a sqlite_db_scheme \<Rightarrow> dimension_row \<Rightarrow> bool" where
  "dimension_row_ok db r \<longleftrightarrow>
     \<not> list_ex (\<lambda>q. di_entry q = di_entry r \<and> di_index q = di_index r \<and> di_axis q = di_axis r) (db_dimensions db)
     \<and> list_ex (\<lambda>q. po_entry q = di_entry r \<and> po_index q = di_index r) (db_postings db)"

definition insert_dimension :: "'a sqlite_db_scheme \<Rightarrow> dimension_row \<Rightarrow> (sqlite_error, 'a sqlite_db_scheme) res" where
  "insert_dimension db r =
     (if dimension_row_ok db r then Ok (db\<lparr>db_dimensions := db_dimensions db @ [r]\<rparr>) else Err SqlDatabase)"

section \<open>Opening\<close>

text \<open>\<^verbatim>\<open>migrate\<close>, given what \<^verbatim>\<open>PRAGMA foreign_keys\<close> answers; the first ledger to open a database claims it.\<close>

definition sqlite_migrate :: "int \<Rightarrow> ledger_id \<Rightarrow> 'a sqlite_db_scheme \<Rightarrow> (sqlite_error, unit) res \<times> 'a sqlite_db_scheme" where
  "sqlite_migrate foreign_keys ledger db =
     (if foreign_keys \<noteq> 1 then (Err ForeignKeysDisabled, db)
      else
        let text = label_str (ledger_label ledger);
            claimed = (case db_ledger db of None \<Rightarrow> db\<lparr>db_ledger := Some text\<rparr> | Some _ \<Rightarrow> db) in
        (case db_ledger claimed of
           None \<Rightarrow> (Err SqlDatabase, claimed)
         | Some found \<Rightarrow>
             if found = text then (Ok (), claimed)
             else (case ledger_id_new found of
                     Err _ \<Rightarrow> (Err SqlMalformed, claimed)
                   | Ok other \<Rightarrow> (Err (WrongLedger ledger other), claimed))))"

section \<open>Accounts\<close>

text \<open>
  An upsert: a handle that is already bound keeps its path and takes the rest, and is left alone when
  the path differs; a path already bound elsewhere breaks the schema, as does a window that ends
  before it starts.
\<close>

definition sqlite_register_account :: "account_record \<Rightarrow> 'a sqlite_db_scheme \<Rightarrow> (sqlite_error, unit) res \<times> 'a sqlite_db_scheme" where
  "sqlite_register_account rec db =
     (let r = account_row_of rec; rows = db_accounts db;
          window = (case ar_closed r of None \<Rightarrow> True | Some c \<Rightarrow> ar_opened r \<le> c) in
      if \<not> window then (Err SqlDatabase, db)
      else if list_ex (\<lambda>q. ar_index q = ar_index r) rows
      then if list_ex (\<lambda>q. ar_index q = ar_index r \<and> ar_path q = ar_path r) rows
           then (Ok (), db\<lparr>db_accounts := map (\<lambda>q. if ar_index q = ar_index r then r else q) rows\<rparr>)
           else (Err (AccountRebound (r_id rec)), db)
      else if list_ex (\<lambda>q. ar_path q = ar_path r) rows then (Err SqlDatabase, db)
      else (Ok (), db\<lparr>db_accounts := rows @ [r]\<rparr>))"

definition sqlite_accounts :: "'a sqlite_db_scheme \<Rightarrow> (sqlite_error, account_record list) res" where
  "sqlite_accounts db = try_map account_record_of (sort_key ar_index (db_accounts db))"

section \<open>Reading postings back\<close>

definition with_stored_dimensions :: "dimension_index \<Rightarrow> posting_row \<Rightarrow> posting \<Rightarrow> posting" where
  "with_stored_dimensions dims row p =
     (case bt_get dims (po_entry row, po_index row) of None \<Rightarrow> p | Some d \<Rightarrow> p\<lparr>p_dimensions := d\<rparr>)"

definition add_loaded :: "dimension_index \<Rightarrow> (byte list, posting list) btmap \<Rightarrow> posting_row
    \<Rightarrow> (sqlite_error, (byte list, posting list) btmap) res" where
  "add_loaded dims grouped row =
     bindR (build_posting row) (\<lambda>p.
     let old = (case bt_get grouped (po_entry row) of None \<Rightarrow> [] | Some ps \<Rightarrow> ps) in
     Ok (bt_insert (po_entry row) (old @ [with_stored_dimensions dims row p]) grouped))"

definition dimension_rows_for :: "'a sqlite_db_scheme \<Rightarrow> byte list list \<Rightarrow> dimension_row list" where
  "dimension_rows_for db ids =
     sort_key (\<lambda>r. (di_entry r, di_index r, di_axis r)) (filter (\<lambda>r. di_entry r \<in> set ids) (db_dimensions db))"

definition posting_rows_for :: "'a sqlite_db_scheme \<Rightarrow> byte list list \<Rightarrow> posting_row list" where
  "posting_rows_for db ids =
     sort_key (\<lambda>r. (po_entry r, po_index r)) (filter (\<lambda>r. po_entry r \<in> set ids) (db_postings db))"

definition load_postings_for :: "'a sqlite_db_scheme \<Rightarrow> byte list list \<Rightarrow> (sqlite_error, (byte list, posting list) btmap) res" where
  "load_postings_for db ids =
     (if ids = [] then Ok bt_empty
      else bindR (dimensions_from (dimension_rows_for db ids)) (\<lambda>dims.
        try_fold (add_loaded dims) bt_empty (posting_rows_for db ids)))"

definition load_postings_tx :: "'a sqlite_db_scheme \<Rightarrow> byte list \<Rightarrow> (sqlite_error, posting list) res" where
  "load_postings_tx db i =
     bindR (dimensions_from (dimension_rows_for db [i])) (\<lambda>dims.
     try_map (\<lambda>row. bindR (build_posting row) (\<lambda>p. Ok (with_stored_dimensions dims row p))) (posting_rows_for db [i]))"

section \<open>Appending\<close>

definition sqlite_check_reversal :: "'a sqlite_db_scheme \<Rightarrow> entry \<Rightarrow> entry_id \<Rightarrow> (sqlite_error, unit) res" where
  "sqlite_check_reversal db e original =
     (case find (\<lambda>r. er_id r = uuid_bytes original) (db_entries db) of
        None \<Rightarrow> Err (SqlUnknownOriginal original)
      | Some target \<Rightarrow>
          if er_reverses target \<noteq> None then Err (SqlReversalOfReversal original)
          else if (case find (\<lambda>r. er_reverses r = Some (er_id target)) (db_entries db) of
                     None \<Rightarrow> False | Some other \<Rightarrow> er_id other \<noteq> uuid_bytes (e_id e))
          then Err (SqlAlreadyReversed original)
          else bindR (load_postings_tx db (uuid_bytes original)) (\<lambda>ps.
            if length ps = length (e_postings e)
               \<and> list_all (\<lambda>(o', r). p_account r = p_account o' \<and> p_amount r = p_amount o' \<and> p_currency r = p_currency o'
                   \<and> p_layer r = p_layer o' \<and> p_dimensions r = p_dimensions o' \<and> p_direction r = dir_inverse (p_direction o'))
                   (zip ps (e_postings e))
            then Ok () else Err (SqlNotAnInversion original)))"

definition posting_matches :: "balance_key \<Rightarrow> posting_row \<Rightarrow> bool" where
  "posting_matches key r \<longleftrightarrow>
     po_account r = column_account (k_account key) \<and> po_currency r = currency_code (k_currency key) \<and> po_layer r = layer_str (k_layer key)"

text \<open>One pass of the loop: the limit of the account and the net the postings now leave.\<close>

definition sqlite_check_limit :: "'a sqlite_db_scheme \<Rightarrow> balance_key \<Rightarrow> (sqlite_error, unit) res" where
  "sqlite_check_limit db key =
     (case find (\<lambda>a. ar_index a = column_account (k_account key) \<and> ar_limit a \<noteq> lit ''unlimited'') (db_accounts db) of
        None \<Rightarrow> Ok ()
      | Some a \<Rightarrow>
          bindR (sql_sum (map (\<lambda>r. if po_direction r = lit ''D'' then po_amount r else - po_amount r)
            (filter (posting_matches key) (db_postings db)))) (\<lambda>net.
          bindR (ok_or (limit_from_code (ar_limit a)) SqlMalformed) (\<lambda>limit.
          if (case limit of Unlimited \<Rightarrow> True | NoCreditBalance \<Rightarrow> 0 \<le> net | NoDebitBalance \<Rightarrow> net \<le> 0) then Ok ()
          else Err (SqlLimitBreached (k_account key) (k_currency key) (k_layer key) limit net))))"

definition sqlite_check_limits :: "'a sqlite_db_scheme \<Rightarrow> entry \<Rightarrow> (sqlite_error, unit) res" where
  "sqlite_check_limits db e =
     bindR (try_fold (\<lambda>seen p.
         let key = key_of_posting p in
         if key \<in> set seen then Ok seen else bindR (sqlite_check_limit db key) (\<lambda>_. Ok (key # seen)))
       [] (e_postings e)) (\<lambda>_. Ok ())"

text \<open>The rows of the postings of an entry, each followed by the rows of its axes.\<close>

definition insert_with_axes :: "entry_id \<Rightarrow> 'a sqlite_db_scheme \<Rightarrow> nat \<times> posting \<Rightarrow> (sqlite_error, 'a sqlite_db_scheme) res" where
  "insert_with_axes i db kp =
     (case kp of (k, p) \<Rightarrow>
      bindR (insert_posting db (posting_row_of i k p)) (\<lambda>db1. try_fold insert_dimension db1 (dimension_rows_of i k p)))"

text \<open>What a key that is already stored answers.\<close>

definition stored_replay :: "'a sqlite_db_scheme \<Rightarrow> entry \<Rightarrow> hash \<Rightarrow> (sqlite_error, recorded_entry) res" where
  "stored_replay db e h =
     (case find (\<lambda>r. er_key r = key_bytes (e_key e)) (db_entries db) of
        None \<Rightarrow> Err SqlDatabase
      | Some r \<Rightarrow>
          bindR (sql_hash (er_hash r)) (\<lambda>stored_hash.
          bindR (uuid_from_bytes (er_id r)) (\<lambda>stored_id.
          bindR (ok_or (er_index r) SqlDatabase) (\<lambda>stored_index.
          if stored_hash \<noteq> h then Err (SqlIdempotencyConflict stored_id)
          else Ok \<lparr>rec_id = stored_id, rec_index = Some (u64_or_zero stored_index), rec_hash = h, rec_new = False\<rparr>))))"

type_synonym 'a append_state = "'a sqlite_db_scheme \<times> int \<times> accumulator"

definition append_one :: "env \<Rightarrow> entry \<Rightarrow> 'a append_state \<Rightarrow> (sqlite_error, recorded_entry \<times> 'a append_state) res" where
  "append_one E e st =
     (case st of (db, next_index, acc) \<Rightarrow>
      let h = content_hash E e in
      if list_ex (\<lambda>r. er_id r = uuid_bytes (e_id e) \<and> er_key r \<noteq> key_bytes (e_key e)) (db_entries db)
      then Err (SqlDuplicateId (e_id e))
      else bindR (case e_reverses e of None \<Rightarrow> Ok () | Some original \<Rightarrow> sqlite_check_reversal db e original) (\<lambda>_.
        let projected = snd (acc_push (env_b3 E) acc h) in
        bindR (insert_entry (entry_row_of E next_index (acc_root (env_b3 E) projected) e) db) (\<lambda>inserted.
        case inserted of
          None \<Rightarrow> bindR (stored_replay db e h) (\<lambda>r. Ok (r, db, next_index, acc))
        | Some (assigned, db1) \<Rightarrow>
            bindR (ok_or assigned SqlDatabase) (\<lambda>index.
            bindR (try_fold (insert_with_axes (e_id e)) db1 (enumerate 0 (e_postings e))) (\<lambda>db2.
            bindR (sqlite_check_limits db2 e) (\<lambda>_.
              Ok (\<lparr>rec_id = e_id e, rec_index = Some (u64_or_zero index), rec_hash = h, rec_new = True\<rparr>,
                  db2, min i64_max (next_index + 1), projected)))))))"

fun append_all :: "env \<Rightarrow> entry list \<Rightarrow> 'a append_state \<Rightarrow> (sqlite_error, recorded_entry list \<times> 'a append_state) res" where
  "append_all E [] st = Ok ([], st)"
| "append_all E (e # es) st =
     bindR (append_one E e st) (\<lambda>(r, st1). bindR (append_all E es st1) (\<lambda>(rs, st2). Ok (r # rs, st2)))"

definition load_accumulator :: "'a sqlite_db_scheme \<Rightarrow> (sqlite_error, accumulator) res" where
  "load_accumulator db =
     bindR (try_map (\<lambda>r. bindR (sql_hash (sr_node r)) (\<lambda>h. Ok (if 0 \<le> sr_height r \<and> sr_height r < 256 then nat (sr_height r) else 0, h)))
       (sort_key sr_position (db_subtrees db))) (\<lambda>sts.
     map_err SqlAccumulator (try_from_parts sts (length (filter (\<lambda>r. er_index r \<noteq> None) (db_entries db)))))"

definition subtree_rows :: "accumulator \<Rightarrow> subtree_row list" where
  "subtree_rows acc =
     map (\<lambda>(pos, height, node). \<lparr>sr_height = int height, sr_node = hash_bytes node, sr_position = i64_or_max pos\<rparr>)
       (enumerate 0 (subtrees acc))"

definition store_accumulator :: "accumulator \<Rightarrow> 'a sqlite_db_scheme \<Rightarrow> (sqlite_error, 'a sqlite_db_scheme) res" where
  "store_accumulator acc db =
     (if distinct (map sr_height (subtree_rows acc)) then Ok (db\<lparr>db_subtrees := subtree_rows acc\<rparr>) else Err SqlDatabase)"

definition sqlite_append :: "env \<Rightarrow> entry_batch \<Rightarrow> 'a sqlite_db_scheme \<Rightarrow> (sqlite_error, recorded_entry list) res \<times> 'a sqlite_db_scheme" where
  "sqlite_append E batch db =
     (let next_index = (case sql_max (List.map_filter er_index (db_entries db)) of None \<Rightarrow> 0 | Some m \<Rightarrow> m + 1) in
      case bindR (load_accumulator db) (\<lambda>acc.
           bindR (append_all E (eb_entries batch) (db, next_index, acc)) (\<lambda>(out, db1, _, acc1).
           bindR (store_accumulator acc1 db1) (\<lambda>db2. Ok (out, db2)))) of
        Err x \<Rightarrow> (Err x, db)
      | Ok (out, db') \<Rightarrow> (Ok out, db'))"

section \<open>Reading the log\<close>

definition sqlite_get :: "env \<Rightarrow> 'a sqlite_db_scheme \<Rightarrow> entry_id \<Rightarrow> (sqlite_error, stored_entry option) res" where
  "sqlite_get E db i =
     (case find (\<lambda>r. er_id r = uuid_bytes i) (db_entries db) of
        None \<Rightarrow> Ok None
      | Some row \<Rightarrow>
          bindR (load_postings_for db [uuid_bytes i]) (\<lambda>grouped.
          bindR (build_stored_entry E row (case bt_get grouped (uuid_bytes i) of None \<Rightarrow> [] | Some ps \<Rightarrow> ps)) (\<lambda>s. Ok (Some s))))"

definition sqlite_len :: "'a sqlite_db_scheme \<Rightarrow> nat" where
  "sqlite_len db = length (filter (\<lambda>r. er_index r \<noteq> None) (db_entries db))"

definition sqlite_page :: "env \<Rightarrow> 'a sqlite_db_scheme \<Rightarrow> cursor \<Rightarrow> (sqlite_error, log_page) res" where
  "sqlite_page E db c =
     (let after = (case cu_after c of None \<Rightarrow> - 1 | Some i \<Rightarrow> i64_or_max i);
          rows = take (effective_limit c) (filter (\<lambda>r. case er_index r of None \<Rightarrow> False | Some i \<Rightarrow> after < i) (sequenced db)) in
      bindR (load_postings_for db (map er_id rows)) (\<lambda>grouped.
      bindR (try_map (\<lambda>row. build_stored_entry E row (case bt_get grouped (er_id row) of None \<Rightarrow> [] | Some ps \<Rightarrow> ps)) rows) (\<lambda>records.
        Ok \<lparr>pg_records = records,
            pg_next = (if records = [] then None else
              (case se_index (last records) of
                 None \<Rightarrow> None
               | Some index \<Rightarrow> if min u64_max (index + 1) < sqlite_len db
                               then Some \<lparr>cu_after = Some index, cu_limit = cu_limit c\<rparr> else None))\<rparr>)))"

definition sqlite_head :: "env \<Rightarrow> 'a sqlite_db_scheme \<Rightarrow> (sqlite_error, tree_head) res" where
  "sqlite_head E db =
     (let rows = sequenced db in
      if rows = [] then Ok \<lparr>th_size = 0, th_root = empty_root (env_b3 E)\<rparr>
      else case (er_index (last rows), er_root (last rows)) of
        (Some i, Some root) \<Rightarrow>
          bindR (sql_hash root) (\<lambda>h. Ok \<lparr>th_size = min u64_max (u64_or_zero i + 1), th_root = h\<rparr>)
      | _ \<Rightarrow> Err SqlDatabase)"

definition sqlite_head_at :: "env \<Rightarrow> 'a sqlite_db_scheme \<Rightarrow> nat \<Rightarrow> (sqlite_error, tree_head) res" where
  "sqlite_head_at E db n =
     (if n = 0 then Ok \<lparr>th_size = 0, th_root = empty_root (env_b3 E)\<rparr>
      else case find (\<lambda>r. er_index r = Some (i64_or_max (n - 1))) (db_entries db) of
        None \<Rightarrow> Err (SqlProof (SizeOutOfRange n 0))
      | Some r \<Rightarrow>
          bindR (ok_or (er_root r) SqlDatabase) (\<lambda>root.
          bindR (sql_hash root) (\<lambda>h. Ok \<lparr>th_size = n, th_root = h\<rparr>)))"

text \<open>\<^verbatim>\<open>log\<close>: the leaves, checked to be dense from zero.\<close>

definition dense_leaf :: "nat \<times> entry_row \<Rightarrow> (sqlite_error, hash) res" where
  "dense_leaf pr =
     (case pr of (pos, row) \<Rightarrow>
      bindR (ok_or (er_index row) SqlDatabase) (\<lambda>stored.
      if stored \<noteq> i64_or_max pos then Err (LogNotDense (u64_or_zero (i64_or_max pos)) (u64_or_zero stored))
      else sql_hash (er_hash row)))"

definition sqlite_log :: "env \<Rightarrow> 'a sqlite_db_scheme \<Rightarrow> (sqlite_error, merkle_log) res" where
  "sqlite_log E db = bindR (try_map dense_leaf (enumerate 0 (sequenced db))) (\<lambda>ls. Ok (log_from_leaves (env_b3 E) ls))"

definition sqlite_prove_inclusion :: "env \<Rightarrow> 'a sqlite_db_scheme \<Rightarrow> log_index \<Rightarrow> (sqlite_error, inclusion_proof) res" where
  "sqlite_prove_inclusion E db i = bindR (sqlite_log E db) (\<lambda>lg. map_err SqlProof (log_inclusion_proof (env_b3 E) lg i))"

definition sqlite_prove_inclusion_at :: "env \<Rightarrow> 'a sqlite_db_scheme \<Rightarrow> log_index \<Rightarrow> nat \<Rightarrow> (sqlite_error, inclusion_proof) res" where
  "sqlite_prove_inclusion_at E db i n = bindR (sqlite_log E db) (\<lambda>lg. map_err SqlProof (inclusion_proof_at (env_b3 E) lg i n))"

definition sqlite_prove_consistency :: "env \<Rightarrow> 'a sqlite_db_scheme \<Rightarrow> nat \<Rightarrow> (sqlite_error, consistency_proof) res" where
  "sqlite_prove_consistency E db m = bindR (sqlite_log E db) (\<lambda>lg. map_err SqlProof (log_consistency_proof (env_b3 E) lg m))"

definition sqlite_prove_consistency_between :: "env \<Rightarrow> 'a sqlite_db_scheme \<Rightarrow> nat \<Rightarrow> nat \<Rightarrow> (sqlite_error, consistency_proof) res" where
  "sqlite_prove_consistency_between E db m n =
     bindR (sqlite_log E db) (\<lambda>lg. map_err SqlProof (consistency_proof_between (env_b3 E) lg m n))"

section \<open>Balances\<close>

text \<open>\<^verbatim>\<open>postings p JOIN entries e ON e.entry_id = p.entry_id\<close>, with a condition on the entry.\<close>

definition joined :: "'a sqlite_db_scheme \<Rightarrow> (entry_row \<Rightarrow> bool) \<Rightarrow> posting_row list" where
  "joined db cond =
     concat (map (\<lambda>p. map (\<lambda>_. p) (filter (\<lambda>e. er_id e = po_entry p \<and> cond e) (db_entries db))) (db_postings db))"

definition below_bound :: "int \<Rightarrow> entry_row \<Rightarrow> bool" where
  "below_bound bound e \<longleftrightarrow> (case er_index e of None \<Rightarrow> False | Some i \<Rightarrow> i < bound)"

definition sum_of :: "ustr \<Rightarrow> posting_row list \<Rightarrow> (sqlite_error, int) res" where
  "sum_of d rows = sql_sum (map po_amount (filter (\<lambda>r. po_direction r = d) rows))"

definition both_sums :: "posting_row list \<Rightarrow> (sqlite_error, balance) res" where
  "both_sums rows =
     bindR (sum_of (lit ''D'') rows) (\<lambda>d. bindR (sum_of (lit ''C'') rows) (\<lambda>c. Ok \<lparr>debits = from_minor d, credits = from_minor c\<rparr>))"

definition sqlite_balance :: "'a sqlite_db_scheme \<Rightarrow> balance_key \<Rightarrow> nat option \<Rightarrow> (sqlite_error, balance) res" where
  "sqlite_balance db key n = both_sums (filter (posting_matches key) (joined db (below_bound (prefix_bound n))))"

text \<open>\<^verbatim>\<open>GROUP BY account, currency, layer ORDER BY\<close> the same, with the sums of every group.\<close>

definition group_of :: "posting_row \<Rightarrow> int \<times> ustr \<times> ustr" where
  "group_of r = (po_account r, po_currency r, po_layer r)"

definition grouped_sums :: "posting_row list \<Rightarrow> (sqlite_error, ((int \<times> ustr \<times> ustr) \<times> balance) list) res" where
  "grouped_sums rows =
     try_map (\<lambda>g. bindR (both_sums (filter (\<lambda>r. group_of r = g) rows)) (\<lambda>b. Ok (g, b))) (sort (remdups (map group_of rows)))"

definition add_group :: "trial_balance \<Rightarrow> (int \<times> ustr \<times> ustr) \<times> balance \<Rightarrow> (sqlite_error, trial_balance) res" where
  "add_group tb gb =
     (case gb of ((account, currency, layer), b) \<Rightarrow>
      bindR (map_err (\<lambda>_. SqlMalformed) (currency_new (str_trim currency))) (\<lambda>c.
      bindR (if layer = lit ''settled'' then Ok Settled else if layer = lit ''pending'' then Ok Pending else Err SqlMalformed) (\<lambda>l.
        Ok (tb_set tb (BalanceKey (AccountId (u32_or_zero account)) c l) b))))"

definition build_trial_balance :: "((int \<times> ustr \<times> ustr) \<times> balance) list \<Rightarrow> (sqlite_error, trial_balance) res" where
  "build_trial_balance groups = try_fold add_group bt_empty groups"

definition sqlite_trial_balance :: "'a sqlite_db_scheme \<Rightarrow> nat option \<Rightarrow> (sqlite_error, trial_balance) res" where
  "sqlite_trial_balance db n = bindR (grouped_sums (joined db (below_bound (prefix_bound n)))) build_trial_balance"

definition sqlite_trial_balance_through :: "'a sqlite_db_scheme \<Rightarrow> date \<Rightarrow> (sqlite_error, trial_balance) res" where
  "sqlite_trial_balance_through db end_day =
     bindR (grouped_sums (joined db (\<lambda>e. er_index e \<noteq> None \<and> er_booking e \<le> end_day))) build_trial_balance"

end
