(* ===== verification/Sqlite_Books.thy ===== *)
theory Sqlite_Books
  imports Sqlite_Store
begin

text \<open>
  The rest of \<^verbatim>\<open>src/storage/sqlite.rs\<close>: periods and seals, clearings and open items, statements,
  balances of several accounts and checkpoints.
\<close>

section \<open>Periods\<close>

definition sqlite_periods :: "'a sqlite_db_scheme \<Rightarrow> (sqlite_error, period list) res" where
  "sqlite_periods db = try_map period_of_row (sort_key pr_starts (db_periods db))"

definition sqlite_calendar :: "'a sqlite_db_scheme \<Rightarrow> (sqlite_error, calendar) res" where
  "sqlite_calendar db = bindR (sqlite_periods db) (\<lambda>ps. map_err SqlPeriod (from_periods ps))"

text \<open>The upsert overwrites the range and the state of a period that is already stored.\<close>

definition upsert_period :: "period_row \<Rightarrow> period_row list \<Rightarrow> period_row list" where
  "upsert_period r rows =
     (if list_ex (\<lambda>q. pr_id q = pr_id r) rows then map (\<lambda>q. if pr_id q = pr_id r then r else q) rows else rows @ [r])"

definition sqlite_define_period :: "period \<Rightarrow> 'a sqlite_db_scheme \<Rightarrow> (sqlite_error, unit) res \<times> 'a sqlite_db_scheme" where
  "sqlite_define_period p db =
     (case bindR (sqlite_calendar db) (\<lambda>c. map_err SqlPeriod (fst (cal_ensure p c))) of
        Err x \<Rightarrow> (Err x, db)
      | Ok _ \<Rightarrow>
          if pd_end p < pd_start p then (Err SqlDatabase, db)
          else (Ok (), db\<lparr>db_periods := upsert_period (period_row_of p) (db_periods db)\<rparr>))"

definition set_state :: "ustr \<Rightarrow> ustr \<Rightarrow> period_row list \<Rightarrow> period_row list" where
  "set_state i state rows = map (\<lambda>r. if pr_id r = i then r\<lparr>pr_state := state\<rparr> else r) rows"

definition sqlite_transition_period :: "period_id \<Rightarrow> period_state \<Rightarrow> 'a sqlite_db_scheme \<Rightarrow> (sqlite_error, unit) res \<times> 'a sqlite_db_scheme" where
  "sqlite_transition_period i to_state db =
     (case bindR (sqlite_calendar db) (\<lambda>c. map_err SqlPeriod (fst (transition i to_state c))) of
        Err x \<Rightarrow> (Err x, db)
      | Ok _ \<Rightarrow> (Ok (), db\<lparr>db_periods := set_state (label_str (period_label i)) (period_state_str to_state) (db_periods db)\<rparr>))"

section \<open>Seals\<close>

definition sqlite_seals :: "ledger_id \<Rightarrow> 'a sqlite_db_scheme \<Rightarrow> (sqlite_error, seal list) res" where
  "sqlite_seals ledger db = try_map (seal_of_row ledger) (sort_key lr_position (db_seals db))"

text \<open>The first and last position booked in a range of days, and how many entries are.\<close>

definition booked_in :: "'a sqlite_db_scheme \<Rightarrow> date \<Rightarrow> date \<Rightarrow> period_coverage" where
  "booked_in db start end_day =
     (let found = List.map_filter er_index (filter (\<lambda>r. start \<le> er_booking r \<and> er_booking r \<le> end_day) (db_entries db)) in
      \<lparr>cov_first = map_option u64_or_zero (sql_min found), cov_last = map_option u64_or_zero (sql_max found),
       cov_count = length found\<rparr>)"

definition seal_row_ok :: "'a sqlite_db_scheme \<Rightarrow> seal_row \<Rightarrow> bool" where
  "seal_row_ok db r \<longleftrightarrow>
     \<not> list_ex (\<lambda>q. lr_period q = lr_period r \<or> lr_hash q = lr_hash r \<or> lr_position q = lr_position r
         \<or> (lr_prev q = None \<and> lr_prev r = None)) (db_seals db)
     \<and> list_ex (\<lambda>p. pr_id p = lr_period r) (db_periods db)
     \<and> length (lr_tree_root r) = 32 \<and> length (lr_balance_root r) = 32 \<and> length (lr_accounts_root r) = 32 \<and> length (lr_hash r) = 32
     \<and> (case lr_prev r of None \<Rightarrow> True | Some h \<Rightarrow> length h = 32)
     \<and> 0 \<le> lr_tree_size r \<and> 0 \<le> lr_balance_size r \<and> 0 \<le> lr_accounts_size r
     \<and> (lr_first r = None \<longleftrightarrow> lr_last r = None)
     \<and> (case (lr_first r, lr_last r) of (Some f, Some l) \<Rightarrow> f \<le> l | _ \<Rightarrow> True)"

definition sqlite_seal_period :: "env \<Rightarrow> ledger_id \<Rightarrow> period_id \<Rightarrow> 'a sqlite_db_scheme \<Rightarrow> (sqlite_error, seal) res \<times> 'a sqlite_db_scheme" where
  "sqlite_seal_period E ledger i db =
     (case
        bindR (sqlite_calendar db) (\<lambda>c.
        bindR (map_err SqlPeriod (check_sealable c i)) (\<lambda>definition_of_period.
        bindR (sqlite_trial_balance_through db (pd_end definition_of_period)) (\<lambda>closing.
        bindR (sqlite_seals ledger db) (\<lambda>ss.
        bindR (map_err (\<lambda>_. SqlMalformed) (from_seals (env_b3 E) ledger ss)) (\<lambda>chain.
        bindR (sqlite_head E db) (\<lambda>head.
        bindR (sqlite_accounts db) (\<lambda>rs.
        bindR (map_err (\<lambda>_. SqlMalformed) (from_records rs)) (\<lambda>registry.
        let s = seal_build E ledger i (booked_in db (pd_start definition_of_period) (pd_end definition_of_period)) head closing
                  (commitment (env_b3 E) registry) (chain_head chain);
            row = seal_row_of (length (ch_seals chain)) s in
        if seal_row_ok db row
        then Ok (s, db\<lparr>db_seals := db_seals db @ [row],
                      db_periods := set_state (label_str (period_label i)) (lit ''sealed'') (db_periods db)\<rparr>)
        else Err SqlDatabase))))))))
      of Err x \<Rightarrow> (Err x, db) | Ok (s, db') \<Rightarrow> (Ok s, db'))"

section \<open>Clearings\<close>

record posting_facts =
  pf_direction :: direction
  pf_account :: account_id
  pf_currency :: currency
  pf_layer :: layer
  pf_residual :: amount

text \<open>What the clearings that have not been released apply to one posting.\<close>

definition applied_sum :: "'a sqlite_db_scheme \<Rightarrow> byte list \<Rightarrow> int \<Rightarrow> (sqlite_error, int) res" where
  "applied_sum db entry posting_index =
     sql_sum (concat (map (\<lambda>ci. map (\<lambda>_. cx_applied ci)
         (filter (\<lambda>c. cw_id c = cx_clearing ci \<and> cw_reset c = None) (db_clearings db)))
       (filter (\<lambda>ci. cx_entry ci = entry \<and> cx_posting ci = posting_index) (db_clearing_items db))))"

definition find_facts :: "'a sqlite_db_scheme \<Rightarrow> posting_ref \<Rightarrow> (sqlite_error, posting_facts) res" where
  "find_facts db r =
     (case find (\<lambda>p. po_entry p = uuid_bytes (ref_entry r) \<and> po_index p = uint (ref_index r)) (db_postings db) of
        None \<Rightarrow> Err (SqlClearing (UnknownPosting r))
      | Some p \<Rightarrow>
          bindR (applied_sum db (po_entry p) (po_index p)) (\<lambda>total.
          bindR (map_err (\<lambda>_. SqlMalformed) (currency_new (str_trim (po_currency p)))) (\<lambda>c.
            Ok \<lparr>pf_direction = (if po_direction p = lit ''D'' then Debit else Credit),
                pf_account = AccountId (u32_or_zero (po_account p)), pf_currency = c,
                pf_layer = (if po_layer p = lit ''pending'' then Pending else Settled),
                pf_residual = from_minor (po_amount p - total)\<rparr>)))"

definition check_clearing_item :: "env \<Rightarrow> 'a sqlite_db_scheme \<Rightarrow> clearing \<Rightarrow> balance \<Rightarrow> cleared_item \<Rightarrow> (sqlite_error, balance) res" where
  "check_clearing_item E db c totals item =
     bindR (find_facts db (ci_posting item)) (\<lambda>facts.
     if pf_account facts \<noteq> cl_account c then Err (SqlClearing (WrongAccount (ci_posting item) (cl_account c)))
     else if pf_currency facts \<noteq> cl_currency c then Err (SqlClearing (WrongCurrency (ci_posting item) (cl_currency c)))
     else if pf_layer facts \<noteq> cl_layer c then Err (SqlClearing (WrongLayer (ci_posting item) (cl_layer c)))
     else if ci_applied item > pf_residual facts
     then Err (SqlClearing (OverApplied (ci_posting item) (to_minor (ci_applied item)) (to_minor (pf_residual facts)) (env_prec E)))
     else map_err SqlMoney (balance_add totals (pf_direction facts) (ci_applied item)))"

definition check_items_alone :: "posting_ref list \<Rightarrow> cleared_item \<Rightarrow> (sqlite_error, posting_ref list) res" where
  "check_items_alone seen item =
     (if ci_posting item \<in> set seen then Err (SqlClearing (DuplicateItem (ci_posting item)))
      else if \<not> is_positive (ci_applied item) then Err (SqlClearing (NonPositiveApplication (ci_posting item)))
      else Ok (ci_posting item # seen))"

definition clearing_item_row_of :: "clearing_id \<Rightarrow> cleared_item \<Rightarrow> clearing_item_row" where
  "clearing_item_row_of i item =
     \<lparr>cx_clearing = clearing_bytes i, cx_entry = uuid_bytes (ref_entry (ci_posting item)),
      cx_posting = uint (ref_index (ci_posting item)), cx_applied = amt (ci_applied item)\<rparr>"

definition sqlite_clear :: "env \<Rightarrow> clearing \<Rightarrow> 'a sqlite_db_scheme \<Rightarrow> (sqlite_error, unit) res \<times> 'a sqlite_db_scheme" where
  "sqlite_clear E c db =
     (case
        bindR (guardR (2 \<le> length (cl_items c)) (SqlClearing (TooFewItems (length (cl_items c))))) (\<lambda>_.
        bindR (try_fold check_items_alone [] (cl_items c)) (\<lambda>_.
        if list_ex (\<lambda>r. cw_id r = clearing_bytes (cl_id c)) (db_clearings db)
        then Err (SqlClearing (ClearingDuplicateId (cl_id c)))
        else bindR (try_fold (check_clearing_item E db c) balance_zero (cl_items c)) (\<lambda>totals.
          if \<not> is_balanced totals
          then Err (SqlClearing (ClearingUnbalanced (to_minor (debits totals)) (to_minor (credits totals)) (env_prec E)))
          else if \<not> list_ex (\<lambda>a. ar_index a = column_account (cl_account c)) (db_accounts db) then Err SqlDatabase
          else Ok (db\<lparr>
            db_clearings := db_clearings db @ [\<lparr>cw_id = clearing_bytes (cl_id c), cw_account = column_account (cl_account c),
              cw_currency = currency_code (cl_currency c), cw_layer = layer_str (cl_layer c), cw_cleared = cleared_on c, cw_reset = None\<rparr>],
            db_clearing_items := db_clearing_items db @ map (clearing_item_row_of (cl_id c)) (cl_items c)\<rparr>))))
      of Err x \<Rightarrow> (Err x, db) | Ok db' \<Rightarrow> (Ok (), db'))"

definition sqlite_reset_clearing :: "clearing_id \<Rightarrow> date \<Rightarrow> 'a sqlite_db_scheme \<Rightarrow> (sqlite_error, unit) res \<times> 'a sqlite_db_scheme" where
  "sqlite_reset_clearing i on db =
     (let live_row = (\<lambda>r. cw_id r = clearing_bytes i \<and> cw_reset r = None) in
      if list_ex live_row (db_clearings db)
      then (Ok (), db\<lparr>db_clearings := map (\<lambda>r. if live_row r then r\<lparr>cw_reset := Some on\<rparr> else r) (db_clearings db)\<rparr>)
      else (Err (ClearingNotResettable i), db))"

section \<open>Statements and open items\<close>

text \<open>Postings joined to their sequenced entries, in log order.\<close>

definition placed :: "'a sqlite_db_scheme \<Rightarrow> balance_key \<Rightarrow> ((int \<times> int) \<times> entry_row \<times> posting_row) list" where
  "placed db key =
     sort_key fst
       (concat (map (\<lambda>p. List.map_filter (\<lambda>e. if er_id e = po_entry p then map_option (\<lambda>i. ((i, po_index p), e, p)) (er_index e) else None)
           (db_entries db))
         (filter (posting_matches key) (db_postings db))))"

definition after_pair :: "posting_cursor \<Rightarrow> int \<times> int" where
  "after_pair c = (case pc_after c of None \<Rightarrow> (- 1, - 1) | Some p \<Rightarrow> (i64_or_max (pos_index p), uint (pos_posting p)))"

definition item_of_row :: "(int \<times> int) \<times> posting_row \<times> int \<Rightarrow> (sqlite_error, open_item) res" where
  "item_of_row row =
     (case row of ((i, k), p, applied_minor) \<Rightarrow>
      bindR (uuid_from_bytes (po_entry p)) (\<lambda>entry.
        Ok \<lparr>oi_position = \<lparr>pos_index = u64_or_zero i, pos_posting = u16_or_zero k\<rparr>, oi_posting = PostingRef entry (u16_or_zero k),
            oi_direction = (if po_direction p = lit ''D'' then Debit else Credit), oi_original = from_minor (po_amount p),
            oi_applied = from_minor applied_minor, oi_residual = from_minor (po_amount p - applied_minor)\<rparr>))"

text \<open>The view \<^verbatim>\<open>open_items\<close> on one key, then the page of it.\<close>

definition open_rows :: "'a sqlite_db_scheme \<Rightarrow> balance_key \<Rightarrow> (sqlite_error, ((int \<times> int) \<times> posting_row \<times> int) list) res" where
  "open_rows db key =
     bindR (try_map (\<lambda>(at, _, p). bindR (applied_sum db (po_entry p) (po_index p)) (\<lambda>total. Ok (at, p, total))) (placed db key)) (\<lambda>rows.
       Ok (filter (\<lambda>(_, p, total). 0 < po_amount p - total) rows))"

definition sqlite_open_items :: "'a sqlite_db_scheme \<Rightarrow> balance_key \<Rightarrow> posting_cursor \<Rightarrow> (sqlite_error, open_item_page) res" where
  "sqlite_open_items db key c =
     bindR (open_rows db key) (\<lambda>all.
     let limit = posting_effective_limit c; rows = take (limit + 1) (filter (\<lambda>(at, _). after_pair c < at) all) in
     bindR (try_map item_of_row (take limit rows)) (\<lambda>items.
       Ok \<lparr>op_items = items,
           op_next = (if items \<noteq> [] \<and> limit < length rows
                      then Some \<lparr>pc_after = Some (oi_position (last items)), pc_limit = pc_limit c\<rparr> else None)\<rparr>))"

definition line_of_row :: "statement_line list \<times> balance \<Rightarrow> (int \<times> int) \<times> entry_row \<times> posting_row
    \<Rightarrow> (sqlite_error, statement_line list \<times> balance) res" where
  "line_of_row st row =
     (case (st, row) of ((lines, running), ((i, k), e, p)) \<Rightarrow>
      bindR (uuid_from_bytes (er_id e)) (\<lambda>entry.
      let d = (if po_direction p = lit ''D'' then Debit else Credit);
          kind = Option.bind (er_kind e) (\<lambda>s. case label_new s of Err _ \<Rightarrow> None | Ok l \<Rightarrow> Some l) in
      bindR (map_err SqlMoney (balance_add running d (from_minor (po_amount p)))) (\<lambda>b.
        Ok (lines @ [\<lparr>ln_index = u64_or_zero i, ln_posting = PostingRef entry (u16_or_zero k), ln_booking_date = er_booking e,
               ln_direction = d, ln_amount = from_minor (po_amount p), ln_running = b, ln_kind = kind\<rparr>], b))))"

definition sqlite_statement :: "'a sqlite_db_scheme \<Rightarrow> balance_key \<Rightarrow> posting_cursor \<Rightarrow> (sqlite_error, statement_page) res" where
  "sqlite_statement db key c =
     (let limit = posting_effective_limit c; all = placed db key in
      bindR (case pc_after c of
          None \<Rightarrow> Ok balance_zero
        | Some _ \<Rightarrow> both_sums (map (\<lambda>(_, _, p). p) (filter (\<lambda>(at, _). at \<le> after_pair c) all))) (\<lambda>opening.
      let rows = take (limit + 1) (filter (\<lambda>(at, _). after_pair c < at) all) in
      bindR (try_fold line_of_row ([], opening) (take limit rows)) (\<lambda>(lines, _).
        Ok \<lparr>sp_lines = lines,
            sp_next = (if lines \<noteq> [] \<and> limit < length rows
                       then Some \<lparr>pc_after = Some (line_position (last lines)), pc_limit = pc_limit c\<rparr> else None)\<rparr>)))"

section \<open>Several balances, checkpoints\<close>

definition sqlite_balances :: "'a sqlite_db_scheme \<Rightarrow> account_id list \<Rightarrow> currency \<Rightarrow> layer \<Rightarrow> nat option
    \<Rightarrow> (sqlite_error, (account_id, balance) btmap) res" where
  "sqlite_balances db wanted currency layer n =
     (if wanted = [] then Ok bt_empty
      else
        let rows = filter (\<lambda>r. po_currency r = currency_code currency \<and> po_layer r = layer_str layer
                     \<and> po_account r \<in> set (map column_account wanted)) (joined db (below_bound (prefix_bound n))) in
        try_fold (\<lambda>out a. bindR (both_sums (filter (\<lambda>r. po_account r = a) rows)) (\<lambda>b. Ok (bt_insert (AccountId (u32_or_zero a)) b out)))
          bt_empty (remdups (map po_account rows)))"

definition checkpoint_at :: "balance_key \<Rightarrow> checkpoint_row \<Rightarrow> bool" where
  "checkpoint_at key r \<longleftrightarrow>
     kr_account r = column_account (k_account key) \<and> kr_currency r = currency_code (k_currency key) \<and> kr_layer r = layer_str (k_layer key)"

definition checkpoint_row_of :: "checkpoint \<Rightarrow> checkpoint_row" where
  "checkpoint_row_of c =
     \<lparr>kr_account = column_account (k_account (cp_key c)), kr_currency = currency_code (k_currency (cp_key c)),
      kr_layer = layer_str (k_layer (cp_key c)), kr_debits = amt (debits (cp_balance c)), kr_credits = amt (credits (cp_balance c)),
      kr_size = i64_or_max (th_size (cp_tree_head c)), kr_root = hash_bytes (th_root (cp_tree_head c))\<rparr>"

definition sqlite_save_checkpoint :: "checkpoint \<Rightarrow> 'a sqlite_db_scheme \<Rightarrow> 'a sqlite_db_scheme" where
  "sqlite_save_checkpoint c db =
     db\<lparr>db_checkpoints := (if list_ex (checkpoint_at (cp_key c)) (db_checkpoints db)
          then map (\<lambda>r. if checkpoint_at (cp_key c) r then checkpoint_row_of c else r) (db_checkpoints db)
          else db_checkpoints db @ [checkpoint_row_of c])\<rparr>"

definition sqlite_load_checkpoint :: "'a sqlite_db_scheme \<Rightarrow> balance_key \<Rightarrow> (sqlite_error, checkpoint option) res" where
  "sqlite_load_checkpoint db key =
     (case find (checkpoint_at key) (db_checkpoints db) of
        None \<Rightarrow> Ok None
      | Some r \<Rightarrow>
          bindR (sql_hash (kr_root r)) (\<lambda>h.
            Ok (Some (checkpoint_new key \<lparr>debits = from_minor (kr_debits r), credits = from_minor (kr_credits r)\<rparr>
              \<lparr>th_size = u64_or_zero (kr_size r), th_root = h\<rparr>))))"

end
