(* ===== verification/Sqlite_Codec.thy ===== *)
theory Sqlite_Codec
  imports Sqlite_Books Storage_Audit Money_Text Account_Path
begin

text \<open>The columns and rows of the SQLite backend read back as what was written.\<close>

section \<open>Columns\<close>

lemma uuid_round [simp]: "uuid_from_bytes (uuid_bytes i) = Ok i"
proof -
  have "unat (entry_uuid i) < 256 ^ 16" using unat_bound [of "entry_uuid i"] by simp
  then show ?thesis by (simp add: uuid_from_bytes_def uuid_bytes_def be_val_bytes)
qed

lemma uuid_bytes_inj [simp]: "uuid_bytes i = uuid_bytes j \<longleftrightarrow> i = j"
  by (metis uuid_round sum.inject(2))

lemma sql_hash_round [simp]: "sql_hash (hash_bytes h) = Ok h"
  using hash_bytes [of h] by (simp add: sql_hash_def hash_from_bytes_def hash_bytes_inverse)

lemma lit_inj [simp]: "lit s = lit t \<longleftrightarrow> s = t"
  by (simp add: lit_def inj_map_eq_map inj_on_def)

lemma code_texts [simp]:
  "direction_str d = lit ''D'' \<longleftrightarrow> d = Debit" "direction_str d = lit ''C'' \<longleftrightarrow> d = Credit"
  "layer_str l = lit ''settled'' \<longleftrightarrow> l = Settled" "layer_str l = lit ''pending'' \<longleftrightarrow> l = Pending"
  "limit_code x = lit ''unlimited'' \<longleftrightarrow> x = Unlimited"
  by (simp_all add: direction_str_def layer_str_def limit_code_def split: direction.split layer.split balance_limit.split)

lemma code_inj [simp]: "direction_str d = direction_str d' \<longleftrightarrow> d = d'" "layer_str l = layer_str l' \<longleftrightarrow> l = l'"
  by (simp_all add: direction_str_def layer_str_def split: direction.split layer.split)

lemma limit_round [simp]: "limit_from_code (limit_code l) = Some l"
  by (cases l) (simp_all add: limit_code_def limit_from_code_def)

lemma kind_round [simp]: "kind_from_code (kind_code k) = Some k"
  by (cases k) (simp_all add: kind_code_def kind_from_code_def)

lemma from_minor_amt [simp]: "from_minor (amt a) = a"
  by (cases a) (simp add: from_minor_def amt_def)

lemma from_minor_of_amt: "from_minor = of_amt"
  by (simp add: fun_eq_iff from_minor_def of_amt_def)

lemma account_round [simp]: "u32_or_zero (column_account a) = account_index a"
  using uint_bounded [of "account_index a"] by (simp add: u32_or_zero_def column_account_def)

lemma column_account_inj [simp]: "column_account a = column_account b \<longleftrightarrow> a = b"
  by (auto simp: column_account_def account_id.expand simp flip: word_uint_eq_iff)

lemma currency_round [simp]:
  assumes "valid_currency c"
  shows "currency_new (str_trim (currency_code c)) = Ok c"
proof -
  obtain x y z where c: "c = Currency [x, y, z]" "is_ascii_uppercase x" "is_ascii_uppercase y" "is_ascii_uppercase z"
    using assms by (cases c) (auto simp: valid_currency_def length_Suc_conv eval_nat_numeral)
  have u: "65 \<le> unat b \<and> unat b \<le> 90" if "is_ascii_uppercase b" for b
    using that by (simp add: is_ascii_uppercase_def word_le_nat_alt)
  have ws: "\<not> is_whitespace (unat b)" if "is_ascii_uppercase b" for b
    using u [OF that] by (auto simp: is_whitespace_def)
  have "str_trim (currency_code c) = currency_code c"
    by (rule str_trim_id) (use c ws in \<open>simp_all add: currency_code_def\<close>)
  moreover have "utf8 (currency_code c) = [x, y, z]"
    using u [OF c(2)] u [OF c(3)] u [OF c(4)] by (subst utf8_ascii) (auto simp: currency_code_def c(1))
  ultimately show ?thesis by (simp add: currency_new_def c)
qed

lemma currency_code_inj [simp]: "currency_code c = currency_code d \<longleftrightarrow> c = d"
  using inj_map_eq_map [of "unat :: byte \<Rightarrow> nat"]
  by (auto simp: currency_code_def inj_def currency.expand simp flip: word_unat_eq_iff)

lemma label_round [simp]: "valid_label l \<Longrightarrow> label_new (label_str l) = Ok l"
  by (simp add: valid_label_def)

section \<open>Postings\<close>

lemma posting_round:
  assumes "valid_posting p"
  shows "build_posting (posting_row_of i k p) = Ok (p\<lparr>p_dimensions := dims_none\<rparr>)"
  using assms by (cases "p_direction p"; cases "p_layer p")
    (simp_all add: build_posting_def posting_row_of_def valid_posting_def account_id.expand)

section \<open>Axes\<close>

abbreviation slot_of :: "dimension_row \<Rightarrow> byte list \<times> int" where
  "slot_of r \<equiv> (di_entry r, di_index r)"

definition slot_shows :: "dimensions option \<Rightarrow> dimension_row list \<Rightarrow> bool" where
  "slot_shows x rs \<longleftrightarrow>
     (case x of
        None \<Rightarrow> rs = []
      | Some d \<Rightarrow> rs \<noteq> [] \<and> bt_len (axes d) = length rs
          \<and> (\<forall>a v. bt_get (axes d) a = Some v \<longleftrightarrow> (\<exists>r\<in>set rs. a = Label (di_axis r) \<and> v = Label (di_value r))))"

definition axis_row_ok :: "dimension_row \<Rightarrow> bool" where
  "axis_row_ok r \<longleftrightarrow> label_new (di_axis r) = Ok (Label (di_axis r)) \<and> label_new (di_value r) = Ok (Label (di_value r))"

definition axis_key :: "dimension_row \<Rightarrow> byte list \<times> int \<times> ustr" where
  "axis_key r = (di_entry r, di_index r, di_axis r)"

lemma slot_grows:
  assumes "slot_shows x rs" "axis_row_ok r" "length rs < max_dimensions" "\<forall>q\<in>set rs. di_axis q \<noteq> di_axis r"
  shows "\<exists>old d. dims_set (case x of None \<Rightarrow> dims_none | Some d \<Rightarrow> d) (Label (di_axis r)) (Label (di_value r)) = Ok (old, d)
    \<and> slot_shows (Some d) (rs @ [r])"
proof -
  let ?d = "case x of None \<Rightarrow> dims_none | Some d \<Rightarrow> d"
  have get: "bt_get (axes ?d) a = Some v \<longleftrightarrow> (\<exists>q\<in>set rs. a = Label (di_axis q) \<and> v = Label (di_value q))" for a v
    using assms(1) by (cases x) (auto simp: slot_shows_def dims_none_def)
  then have free: "\<not> bt_contains (axes ?d) (Label (di_axis r))"
    using assms(4) by (auto simp: bt_contains_def)
  have len: "bt_len (axes ?d) = length rs"
    using assms(1) by (cases x) (auto simp: slot_shows_def dims_none_def bt_len_def)
  let ?new = "Dimensions (bt_insert (Label (di_axis r)) (Label (di_value r)) (axes ?d))"
  have "slot_shows (Some ?new) (rs @ [r])"
    using assms(4) by (auto simp: slot_shows_def bt_len_insert free len get)
  then show ?thesis using free len assms(3) by (auto simp: dims_set_def)
qed

lemma dimensions_from_rows:
  assumes "distinct (map axis_key rows)" "\<forall>r\<in>set rows. axis_row_ok r"
    and "\<forall>at. length (filter (\<lambda>r. slot_of r = at) rows) \<le> max_dimensions"
  shows "\<exists>m. dimensions_from rows = Ok m \<and> (\<forall>at. slot_shows (bt_get m at) (filter (\<lambda>r. slot_of r = at) rows))"
  using assms
proof (induction rows rule: rev_induct)
  case Nil
  show ?case by (simp add: dimensions_from_def slot_shows_def)
next
  case (snoc r rows)
  let ?at = "slot_of r" and ?rs = "\<lambda>at. filter (\<lambda>r. slot_of r = at) rows"
  have bound: "length (?rs at) \<le> max_dimensions" for at
    using snoc.prems(3) [rule_format, of at] by (simp split: if_splits)
  then obtain m where m: "dimensions_from rows = Ok m" "\<And>at. slot_shows (bt_get m at) (?rs at)"
    using snoc.IH snoc.prems by auto
  have ok: "axis_row_ok r" using snoc.prems(2) by simp
  have "length (?rs ?at) < max_dimensions" using snoc.prems(3) [rule_format, of ?at] by simp
  moreover have "axis_key q \<noteq> axis_key r" if "q \<in> set rows" for q
    using snoc.prems(1) imageI [OF that, of axis_key] by auto
  then have "\<forall>q\<in>set (?rs ?at). di_axis q \<noteq> di_axis r" by (fastforce simp: axis_key_def)
  ultimately
  obtain old d where d: "dims_set (case bt_get m ?at of None \<Rightarrow> dims_none | Some d \<Rightarrow> d) (Label (di_axis r)) (Label (di_value r)) = Ok (old, d)"
      "slot_shows (Some d) (?rs ?at @ [r])"
    using slot_grows [OF m(2) [of ?at] ok] by blast
  have "add_dimension m r = Ok (bt_insert ?at d m)"
    using snoc.prems(2) d(1) by (simp add: add_dimension_def axis_row_ok_def)
  then have "dimensions_from (rows @ [r]) = Ok (bt_insert ?at d m)"
    using m(1) by (simp add: dimensions_from_def try_fold_append)
  moreover have "slot_shows (bt_get (bt_insert ?at d m) at) (filter (\<lambda>r. slot_of r = at) (rows @ [r]))" for at
    using m(2) [of at] d(2) by auto
  ultimately show ?case by blast
qed

lemma dimension_rows_slot: "q \<in> set (dimension_rows_of i k p) \<Longrightarrow> slot_of q = (uuid_bytes i, i64_or_max k)"
  by (auto simp: dimension_rows_of_def)

text \<open>The axes of a posting come back from the rows written for it, in whatever order they are read.\<close>

lemma slot_dimensions:
  assumes "valid_dims (p_dimensions p)" "slot_shows x rs" "set rs = set (dimension_rows_of i k p)"
  shows "(case x of None \<Rightarrow> dims_none | Some d \<Rightarrow> d) = p_dimensions p"
proof -
  have rows: "(\<exists>r\<in>set rs. a = Label (di_axis r) \<and> v = Label (di_value r)) \<longleftrightarrow> bt_get (axes (p_dimensions p)) a = Some v" for a v
    unfolding assms(3) bt_get_iter by (force simp: dimension_rows_of_def)
  have "bt_get (axes (case x of None \<Rightarrow> dims_none | Some d \<Rightarrow> d)) a = bt_get (axes (p_dimensions p)) a" for a
  proof (cases x)
    case None
    then have "set rs = {}" using assms(2) by (simp add: slot_shows_def)
    then have "\<And>v. bt_get (axes (p_dimensions p)) a \<noteq> Some v" using rows [of a] by simp
    then show ?thesis using None by (cases "bt_get (axes (p_dimensions p)) a") (auto simp: dims_none_def)
  next
    case (Some d)
    then have "bt_get (axes d) a = Some v \<longleftrightarrow> bt_get (axes (p_dimensions p)) a = Some v" for v
      using assms(2) rows [of a v] by (simp add: slot_shows_def)
    then show ?thesis using Some by (cases "bt_get (axes (p_dimensions p)) a"; cases "bt_get (axes d) a") auto
  qed
  then show ?thesis by (intro dimensions.expand bt_eqI) simp
qed

end
