(* ===== verification/Sqlite_Entries.thy ===== *)
theory Sqlite_Entries
  imports Sqlite_Codec
begin

text \<open>
  What the tables of the SQLite backend hold for a list of recorded entries, and that \<^verbatim>\<open>get\<close> and
  \<^verbatim>\<open>page\<close> read the entries back from them.
\<close>

section \<open>The rows of a list of entries\<close>

definition located :: "entry list \<Rightarrow> (entry_id \<times> nat \<times> posting) list" where
  "located es = concat (map (\<lambda>e. map (\<lambda>(k, p). (e_id e, k, p)) (enumerate 0 (e_postings e))) es)"

definition posting_rows :: "entry list \<Rightarrow> posting_row list" where
  "posting_rows es = map (\<lambda>(i, k, p). posting_row_of i k p) (located es)"

definition axis_rows :: "entry list \<Rightarrow> dimension_row list" where
  "axis_rows es = concat (map (\<lambda>(i, k, p). dimension_rows_of i k p) (located es))"

definition root_through :: "env \<Rightarrow> entry list \<Rightarrow> nat \<Rightarrow> hash" where
  "root_through E es n = mth (env_b3 E) (map (content_hash E) (take (Suc n) es))"

definition entry_rows :: "env \<Rightarrow> entry list \<Rightarrow> entry_row list" where
  "entry_rows E es = map (\<lambda>n. entry_row_of E (int n) (root_through E es n) (es ! n)) [0..<length es]"

text \<open>What the constructors of the fields guarantee, as far as the rows rely on it.\<close>

definition storable :: "entry \<Rightarrow> bool" where
  "storable e \<longleftrightarrow> valid_entry e \<and> length (e_postings e) \<le> max_postings \<and> (e_reverses e = None \<longleftrightarrow> original_booking_date e = None)"

definition stored_list :: "entry list \<Rightarrow> bool" where
  "stored_list es \<longleftrightarrow> distinct (map e_id es) \<and> (\<forall>e\<in>set es. storable e)"

lemma storable_parts:
  assumes "storable e"
  shows "\<And>p. p \<in> set (e_postings e) \<Longrightarrow> valid_posting p" "length (e_postings e) \<le> max_postings"
  using assms by (auto simp: storable_def valid_entry_def list_all_iff)

lemma located_simps [simp]:
  "located [] = []" "located (e # es) = map (\<lambda>(k, p). (e_id e, k, p)) (enumerate 0 (e_postings e)) @ located es"
  "located (es @ fs) = located es @ located fs"
  by (simp_all add: located_def)

lemma located_iff: "(i, k, p) \<in> set (located es) \<longleftrightarrow> (\<exists>e\<in>set es. e_id e = i \<and> k < length (e_postings e) \<and> e_postings e ! k = p)"
  by (induction es) (auto simp: in_set_enumerate_eq image_iff)

lemma i64_or_max_small [simp]: "k < 32768 \<Longrightarrow> i64_or_max k = int k"
  by (simp add: i64_or_max_def i64_max_def)

text \<open>The primary key of a posting row.\<close>

definition place :: "entry_id \<times> nat \<times> posting \<Rightarrow> byte list \<times> int" where
  "place x = (case x of (i, k, p) \<Rightarrow> (uuid_bytes i, i64_or_max k))"

lemma located_small:
  "stored_list es \<Longrightarrow> (i, k, p) \<in> set (located es) \<Longrightarrow> k < 32768 \<and> valid_posting p"
  using storable_parts by (fastforce simp: located_iff stored_list_def max_postings_def)

lemma places_distinct:
  assumes "stored_list es"
  shows "distinct (map place (located es))"
  using assms
proof (induction es)
  case (Cons e es)
  let ?mine = "map (\<lambda>(k, p). (e_id e, k, p)) (enumerate 0 (e_postings e))"
  have "length (e_postings e) \<le> 32767" using storable_parts(2) Cons.prems by (simp add: stored_list_def max_postings_def)
  then have "map place ?mine = map (\<lambda>k. (uuid_bytes (e_id e), int k)) [0..<length (e_postings e)]"
    by (intro nth_equalityI) (simp_all add: place_def nth_enumerate_eq split: prod.splits)
  then have mine: "distinct (map place ?mine)" by (simp add: distinct_map inj_on_def)
  have "\<forall>f\<in>set es. e_id f \<noteq> e_id e"
    using Cons.prems by (auto simp: stored_list_def) (metis imageI)
  then have "place x \<noteq> place y" if "x \<in> set ?mine" "y \<in> set (located es)" for x y
    using that by (cases y) (auto simp: place_def located_iff)
  then have "place ` set ?mine \<inter> place ` set (located es) = {}" by blast
  moreover have "distinct (map place (located es))" using Cons by (simp add: stored_list_def)
  ultimately have "distinct (map place ?mine @ map place (located es))"
    using mine by (simp only: distinct_append list.set_map simp_thms)
  then show ?case by (simp only: located_simps map_append)
qed simp

lemma distinct_places: "stored_list es \<Longrightarrow> x \<in> set (located es) \<Longrightarrow> y \<in> set (located es) \<Longrightarrow> place x = place y \<Longrightarrow> x = y"
  using places_distinct by (auto simp: distinct_map inj_on_def)

section \<open>Lists made of keyed pieces\<close>

lemma filter_keyed:
  assumes "distinct (map key xs)" "x \<in> set xs" "\<And>y r. y \<in> set xs \<Longrightarrow> r \<in> set (g y) \<Longrightarrow> h r = key y"
  shows "filter (\<lambda>r. h r = key x) (concat (map g xs)) = g x"
proof -
  have other: "filter (\<lambda>r. h r = key x) (g y) = (if y = x then g x else [])" if "y \<in> set xs" for y
    using assms that by (auto simp: distinct_map inj_on_def filter_empty_conv intro: filter_True)
  have "filter (\<lambda>r. h r = key x) (concat (map g xs)) = concat (map (\<lambda>y. if y = x then g x else []) xs)"
    using other by (simp add: filter_concat comp_def cong: map_cong)
  also have "\<dots> = g x"
    using assms(1,2) by (induction xs) auto
  finally show ?thesis .
qed

lemma distinct_keyed:
  assumes "distinct (map key xs)" "\<And>y r. y \<in> set xs \<Longrightarrow> r \<in> set (g y) \<Longrightarrow> h (f r) = key y" "\<And>y. y \<in> set xs \<Longrightarrow> distinct (map f (g y))"
  shows "distinct (map f (concat (map g xs)))"
  using assms
proof (induction xs)
  case (Cons x xs)
  have "f r \<noteq> f s" if "r \<in> set (g x)" "y \<in> set xs" "s \<in> set (g y)" for r s y
  proof
    assume "f r = f s"
    then have "key x = key y" using Cons.prems(2) [of x r] Cons.prems(2) [of y s] that by simp
    then show False using Cons.prems(1) that(2) by (auto simp: image_iff)
  qed
  then have "f ` set (g x) \<inter> f ` set (concat (map g xs)) = {}" by auto
  then show ?case using Cons by simp
qed simp

section \<open>Axes read back\<close>

lemma axis_slots:
  "x \<in> set (located es) \<Longrightarrow> r \<in> set ((\<lambda>(i, k, p). dimension_rows_of i k p) x) \<Longrightarrow> slot_of r = place x"
  using dimension_rows_slot by (auto simp: place_def split: prod.splits)

lemma axis_rows_at:
  assumes "stored_list es" "(i, k, p) \<in> set (located es)"
  shows "filter (\<lambda>r. slot_of r = (uuid_bytes i, i64_or_max k)) (axis_rows es) = dimension_rows_of i k p"
  using filter_keyed [OF places_distinct [OF assms(1)] assms(2), of "\<lambda>(i, k, p). dimension_rows_of i k p" slot_of] axis_slots
  by (simp add: axis_rows_def place_def)

lemma axis_row_from:
  assumes "r \<in> set (axis_rows es)"
  obtains i k p where "(i, k, p) \<in> set (located es)" "r \<in> set (dimension_rows_of i k p)" "slot_of r = (uuid_bytes i, i64_or_max k)"
  using assms dimension_rows_slot by (auto simp: axis_rows_def)

lemma dimension_rows_of_ok:
  assumes "valid_dims (p_dimensions p)"
  shows "\<forall>r\<in>set (dimension_rows_of i k p). axis_row_ok r" "distinct (map axis_key (dimension_rows_of i k p))"
    "length (dimension_rows_of i k p) \<le> max_dimensions"
proof -
  have labels: "valid_label a \<and> valid_label v" if "(a, v) \<in> set (bt_iter (axes (p_dimensions p)))" for a v
    using assms that by (auto simp: valid_dims_def list_all_iff)
  then show "\<forall>r\<in>set (dimension_rows_of i k p). axis_row_ok r"
    by (fastforce simp: dimension_rows_of_def axis_row_ok_def)
  have "map axis_key (dimension_rows_of i k p) = map (\<lambda>a. (uuid_bytes i, i64_or_max k, label_str a)) (map fst (bt_iter (axes (p_dimensions p))))"
    by (simp add: dimension_rows_of_def axis_key_def split_beta)
  then show "distinct (map axis_key (dimension_rows_of i k p))"
    using bt_distinct [of "axes (p_dimensions p)"]
    by (simp only: distinct_map [of _ "map fst _"]) (simp add: inj_on_def label.expand)
  show "length (dimension_rows_of i k p) \<le> max_dimensions"
    using assms by (simp add: dimension_rows_of_def valid_dims_def dims_len_def bt_len_def)
qed

lemma axis_rows_ok:
  assumes "stored_list es"
  shows "\<forall>r\<in>set (axis_rows es). axis_row_ok r" "distinct (map axis_key (axis_rows es))"
    "length (filter (\<lambda>r. slot_of r = at) (axis_rows es)) \<le> max_dimensions"
proof -
  have v: "valid_dims (p_dimensions p)" if "(i, k, p) \<in> set (located es)" for i k p
    using located_small [OF assms that] by (simp add: valid_posting_def)
  show "\<forall>r\<in>set (axis_rows es). axis_row_ok r"
    by (metis axis_row_from v dimension_rows_of_ok(1))
  show "distinct (map axis_key (axis_rows es))"
    unfolding axis_rows_def
  proof (rule distinct_keyed [where h = "\<lambda>(a, b, c). (a, b)", OF places_distinct [OF assms]])
    fix y r
    assume "y \<in> set (located es)" "r \<in> set (case y of (i, k, p) \<Rightarrow> dimension_rows_of i k p)"
    then show "(case axis_key r of (a, b, c) \<Rightarrow> (a, b)) = place y" using axis_slots by (auto simp: axis_key_def)
  next
    fix y
    assume "y \<in> set (located es)"
    then show "distinct (map axis_key (case y of (i, k, p) \<Rightarrow> dimension_rows_of i k p))"
      using v dimension_rows_of_ok(2) by (auto split: prod.splits)
  qed
  show "length (filter (\<lambda>r. slot_of r = at) (axis_rows es)) \<le> max_dimensions"
  proof (cases "filter (\<lambda>r. slot_of r = at) (axis_rows es)")
    case (Cons r rs)
    then have "r \<in> set (filter (\<lambda>r. slot_of r = at) (axis_rows es))" by (simp only: list.set_intros)
    then have "r \<in> set (axis_rows es)" "slot_of r = at" by simp_all
    then obtain i k p where "(i, k, p) \<in> set (located es)" "at = (uuid_bytes i, i64_or_max k)"
      by (auto elim: axis_row_from)
    then show ?thesis using axis_rows_at [OF assms, of i k p] dimension_rows_of_ok(3) v by simp
  qed simp
qed

text \<open>What a \<^verbatim>\<open>WHERE\<close> and an \<^verbatim>\<open>ORDER BY\<close> keep.\<close>

lemma selected_rows:
  assumes "distinct (map f xs)"
  shows "distinct (map f (sort_key g (filter P xs)))" "set (sort_key g (filter P xs)) = {x \<in> set xs. P x}"
    "length (filter Q (sort_key g (filter P xs))) \<le> length (filter Q xs)"
proof -
  show "distinct (map f (sort_key g (filter P xs)))" "set (sort_key g (filter P xs)) = {x \<in> set xs. P x}"
    using assms by (auto simp: distinct_map inj_on_def)
  have "length (filter Q (sort_key g (filter P xs))) = length (filter Q (filter P xs))"
    by (simp add: filter_sort)
  also have "\<dots> \<le> length (filter Q xs)" by (induction xs) auto
  finally show "length (filter Q (sort_key g (filter P xs))) \<le> length (filter Q xs)" .
qed

lemma axes_read_back:
  assumes "stored_list es" "db_dimensions db = axis_rows es"
  obtains m where "dimensions_from (dimension_rows_for db ids) = Ok m"
    "\<And>i k p. (i, k, p) \<in> set (located es) \<Longrightarrow> uuid_bytes i \<in> set ids \<Longrightarrow>
       with_stored_dimensions m (posting_row_of i k p) (p\<lparr>p_dimensions := dims_none\<rparr>) = p"
proof -
  let ?rows = "dimension_rows_for db ids"
  note ok = axis_rows_ok [OF assms(1)]
  note sel = selected_rows [OF ok(2), where g = "\<lambda>r. (di_entry r, di_index r, di_axis r)" and P = "\<lambda>r. di_entry r \<in> set ids", folded assms(2), folded dimension_rows_for_def]
  have "\<forall>r\<in>set ?rows. axis_row_ok r" using ok(1) sel(2) assms(2) by simp
  moreover have "length (filter (\<lambda>r. slot_of r = at) ?rows) \<le> max_dimensions" for at
    using sel(3) [of "\<lambda>r. slot_of r = at"] ok(3) [of at] assms(2) by simp
  ultimately obtain m where m: "dimensions_from ?rows = Ok m" "\<And>at. slot_shows (bt_get m at) (filter (\<lambda>r. slot_of r = at) ?rows)"
    using dimensions_from_rows [OF sel(1)] by blast
  have "with_stored_dimensions m (posting_row_of i k p) (p\<lparr>p_dimensions := dims_none\<rparr>) = p"
    if x: "(i, k, p) \<in> set (located es)" "uuid_bytes i \<in> set ids" for i k p
  proof -
    let ?at = "(uuid_bytes i, i64_or_max k)"
    have "set (filter (\<lambda>r. slot_of r = ?at) ?rows) = set (filter (\<lambda>r. slot_of r = ?at) (axis_rows es))"
      unfolding set_filter sel(2) assms(2) using x(2) by auto
    also have "\<dots> = set (dimension_rows_of i k p)" by (simp only: axis_rows_at [OF assms(1) x(1)])
    finally have rows: "set (filter (\<lambda>r. slot_of r = ?at) ?rows) = set (dimension_rows_of i k p)" .
    have "valid_dims (p_dimensions p)" using located_small [OF assms(1) x(1)] by (simp add: valid_posting_def)
    then have "(case bt_get m ?at of None \<Rightarrow> dims_none | Some d \<Rightarrow> d) = p_dimensions p"
      by (rule slot_dimensions [OF _ m(2) rows])
    then show ?thesis by (auto simp: with_stored_dimensions_def posting_row_of_def split: option.splits)
  qed
  then show ?thesis using m(1) that by blast
qed

section \<open>Postings read back\<close>

definition rows_of :: "entry \<Rightarrow> posting_row list" where
  "rows_of e = map (\<lambda>(k, p). posting_row_of (e_id e) k p) (enumerate 0 (e_postings e))"

lemma posting_rows_concat: "posting_rows es = concat (map rows_of es)"
  by (induction es) (simp_all add: posting_rows_def rows_of_def split_beta)

lemma rows_of_entry: "r \<in> set (rows_of e) \<Longrightarrow> po_entry r = uuid_bytes (e_id e)"
  by (auto simp: rows_of_def posting_row_of_def)

lemma entry_rows_selected:
  assumes "stored_list es" "e \<in> set es"
  shows "filter (\<lambda>r. po_entry r = uuid_bytes (e_id e)) (posting_rows es) = rows_of e"
proof -
  have "distinct (map (\<lambda>e. uuid_bytes (e_id e)) es)"
    using assms(1) by (auto simp: stored_list_def distinct_map inj_on_def)
  then show ?thesis
    unfolding posting_rows_concat by (rule filter_keyed [OF _ assms(2)]) (rule rows_of_entry)
qed

lemma rows_of_sorted:
  assumes "length (e_postings e) \<le> max_postings"
  shows "sort_key (\<lambda>r. (po_entry r, po_index r)) (rows_of e) = rows_of e"
proof (rule sort_key_id_if_sorted)
  have "map (\<lambda>r. (po_entry r, po_index r)) (rows_of e) = map (\<lambda>k. (uuid_bytes (e_id e), int k)) [0..<length (e_postings e)]"
    using assms by (intro nth_equalityI) (simp_all add: rows_of_def posting_row_of_def nth_enumerate_eq max_postings_def)
  moreover have "sorted (map (\<lambda>k. (uuid_bytes (e_id e), int k)) [0..<n])" for n
    by (simp add: sorted_wrt_map flip: sorted_wrt_upt)
  ultimately show "sorted (map (\<lambda>r. (po_entry r, po_index r)) (rows_of e))" by simp
qed

lemma selected_posting_rows:
  assumes "stored_list es" "db_postings db = posting_rows es" "e \<in> set es" "uuid_bytes (e_id e) \<in> set ids"
  shows "filter (\<lambda>r. po_entry r = uuid_bytes (e_id e)) (posting_rows_for db ids) = rows_of e"
proof -
  have "filter (\<lambda>r. po_entry r = uuid_bytes (e_id e)) (filter (\<lambda>r. po_entry r \<in> set ids) (posting_rows es)) = rows_of e"
    unfolding entry_rows_selected [OF assms(1,3), symmetric] filter_filter using assms(4) by (intro filter_cong) auto
  moreover have "length (e_postings e) \<le> max_postings"
    using assms(1,3) by (simp add: stored_list_def storable_def)
  ultimately show ?thesis by (simp add: posting_rows_for_def filter_sort assms(2) rows_of_sorted)
qed

lemma loaded_postings:
  assumes "\<forall>r\<in>set rows. \<exists>p. build_posting r = Ok p"
  shows "\<exists>m. try_fold (add_loaded dims) bt_empty rows = Ok m
    \<and> (\<forall>i. bt_get m i = (let rs = filter (\<lambda>r. po_entry r = i) rows in
         if rs = [] then None else Some (map (\<lambda>r. with_stored_dimensions dims r (projr (build_posting r))) rs)))"
  using assms
proof (induction rows rule: rev_induct)
  case (snoc r rows)
  then obtain m p where m: "try_fold (add_loaded dims) bt_empty rows = Ok m" "build_posting r = Ok p"
    "\<And>i. bt_get m i = (let rs = filter (\<lambda>r. po_entry r = i) rows in
         if rs = [] then None else Some (map (\<lambda>r. with_stored_dimensions dims r (projr (build_posting r))) rs))"
    by auto
  let ?m = "bt_insert (po_entry r) ((case bt_get m (po_entry r) of None \<Rightarrow> [] | Some ps \<Rightarrow> ps) @ [with_stored_dimensions dims r p]) m"
  have "add_loaded dims m r = Ok ?m" using m(2) by (simp add: add_loaded_def)
  then have "try_fold (add_loaded dims) bt_empty (rows @ [r]) = Ok ?m" using m(1) by (simp add: try_fold_append)
  moreover have "bt_get ?m i = (let rs = filter (\<lambda>r. po_entry r = i) (rows @ [r]) in
         if rs = [] then None else Some (map (\<lambda>r. with_stored_dimensions dims r (projr (build_posting r))) rs))" for i
    using m(2) by (auto simp: m(3) Let_def)
  ultimately show ?case by blast
qed simp

lemma posting_row_read:
  assumes "stored_list es" "r \<in> set (posting_rows es)"
  shows "\<exists>p. build_posting r = Ok p"
proof -
  obtain i k p where "(i, k, p) \<in> set (located es)" "r = posting_row_of i k p"
    using assms(2) by (auto simp: posting_rows_def)
  then show ?thesis using posting_round located_small [OF assms(1)] by blast
qed

lemma rows_read_back:
  assumes "stored_list es" "e \<in> set es"
    and "\<And>i k p. (i, k, p) \<in> set (located es) \<Longrightarrow> uuid_bytes i \<in> set ids \<Longrightarrow>
       with_stored_dimensions m (posting_row_of i k p) (p\<lparr>p_dimensions := dims_none\<rparr>) = p"
    and "uuid_bytes (e_id e) \<in> set ids"
  shows "map (\<lambda>r. with_stored_dimensions m r (projr (build_posting r))) (rows_of e) = e_postings e"
proof (rule nth_equalityI)
  fix k
  assume "k < length (map (\<lambda>r. with_stored_dimensions m r (projr (build_posting r))) (rows_of e))"
  then have k: "k < length (e_postings e)" by (simp add: rows_of_def)
  then have l: "(e_id e, k, e_postings e ! k) \<in> set (located es)" using assms(2) by (auto simp: located_iff)
  have "build_posting (posting_row_of (e_id e) k (e_postings e ! k)) = Ok ((e_postings e ! k)\<lparr>p_dimensions := dims_none\<rparr>)"
    by (rule posting_round) (use located_small [OF assms(1) l] in simp)
  then show "map (\<lambda>r. with_stored_dimensions m r (projr (build_posting r))) (rows_of e) ! k = e_postings e ! k"
    using k assms(3) [OF l assms(4)] by (simp add: rows_of_def nth_enumerate_eq)
qed (simp add: rows_of_def)

text \<open>The postings of the entries asked for come back, each with its axes.\<close>

lemma postings_read_back:
  assumes "stored_list es" "db_postings db = posting_rows es" "db_dimensions db = axis_rows es"
  obtains m where "load_postings_for db ids = Ok m"
    "\<And>e. e \<in> set es \<Longrightarrow> uuid_bytes (e_id e) \<in> set ids \<Longrightarrow> (case bt_get m (uuid_bytes (e_id e)) of None \<Rightarrow> [] | Some ps \<Rightarrow> ps) = e_postings e"
proof (cases "ids = []")
  case True
  then show ?thesis using that [of bt_empty] by (simp add: load_postings_for_def)
next
  case False
  obtain d where d: "dimensions_from (dimension_rows_for db ids) = Ok d"
    "\<And>i k p. (i, k, p) \<in> set (located es) \<Longrightarrow> uuid_bytes i \<in> set ids \<Longrightarrow>
       with_stored_dimensions d (posting_row_of i k p) (p\<lparr>p_dimensions := dims_none\<rparr>) = p"
    using axes_read_back [OF assms(1,3), of ids] by blast
  have "\<forall>r\<in>set (posting_rows_for db ids). \<exists>p. build_posting r = Ok p"
    using posting_row_read [OF assms(1)] by (simp add: posting_rows_for_def assms(2))
  from loaded_postings [OF this, of d] obtain m where m: "try_fold (add_loaded d) bt_empty (posting_rows_for db ids) = Ok m"
    "\<And>i. bt_get m i = (let rs = filter (\<lambda>r. po_entry r = i) (posting_rows_for db ids) in
         if rs = [] then None else Some (map (\<lambda>r. with_stored_dimensions d r (projr (build_posting r))) rs))"
    by blast
  have "(case bt_get m (uuid_bytes (e_id e)) of None \<Rightarrow> [] | Some ps \<Rightarrow> ps) = e_postings e"
    if e: "e \<in> set es" "uuid_bytes (e_id e) \<in> set ids" for e
    using rows_read_back [OF assms(1) e(1) d(2) e(2)]
    by (auto simp: m(2) Let_def selected_posting_rows [OF assms(1,2) e])
  moreover have "load_postings_for db ids = Ok m" using False d(1) m(1) by (simp add: load_postings_for_def)
  ultimately show ?thesis using that by blast
qed

lemma postings_tx_read_back:
  assumes "stored_list es" "db_postings db = posting_rows es" "db_dimensions db = axis_rows es" "e \<in> set es"
  shows "load_postings_tx db (uuid_bytes (e_id e)) = Ok (e_postings e)"
proof -
  let ?ids = "[uuid_bytes (e_id e)]"
  obtain d where d: "dimensions_from (dimension_rows_for db ?ids) = Ok d"
    "\<And>i k p. (i, k, p) \<in> set (located es) \<Longrightarrow> uuid_bytes i \<in> set ?ids \<Longrightarrow>
       with_stored_dimensions d (posting_row_of i k p) (p\<lparr>p_dimensions := dims_none\<rparr>) = p"
    using axes_read_back [OF assms(1,3), of ?ids] by blast
  have "filter (\<lambda>r. po_entry r = uuid_bytes (e_id e)) (posting_rows_for db ?ids) = posting_rows_for db ?ids"
    by (rule filter_True) (simp add: posting_rows_for_def)
  then have rows: "posting_rows_for db ?ids = rows_of e"
    using selected_posting_rows [OF assms(1,2,4), of ?ids] by simp
  have "try_map (\<lambda>row. bindR (build_posting row) (\<lambda>p. Ok (with_stored_dimensions d row p))) (rows_of e)
      = Ok (map (\<lambda>r. with_stored_dimensions d r (projr (build_posting r))) (rows_of e))"
  proof (rule try_map_total)
    fix r
    assume "r \<in> set (rows_of e)"
    then have "r \<in> set (posting_rows es)" using assms(4) by (auto simp: posting_rows_concat)
    then show "bindR (build_posting r) (\<lambda>p. Ok (with_stored_dimensions d r p)) = Ok (with_stored_dimensions d r (projr (build_posting r)))"
      using posting_row_read [OF assms(1)] by fastforce
  qed
  moreover have "map (\<lambda>r. with_stored_dimensions d r (projr (build_posting r))) (rows_of e) = e_postings e"
    by (rule rows_read_back [OF assms(1,4), where ids = ?ids]) (use d(2) in simp_all)
  ultimately show ?thesis by (simp add: load_postings_tx_def d(1) rows)
qed

section \<open>An entry read back\<close>

lemma post_all: "foldl post e ps = e\<lparr>e_postings := e_postings e @ ps\<rparr>"
  by (induction ps arbitrary: e) (simp_all add: post_def)

lemma entry_round:
  assumes "storable e"
  shows "build_stored_entry E (entry_row_of E (int n) root e) (e_postings e)
    = Ok \<lparr>se_index = Some n, se_entry = e, se_hash = content_hash E e\<rparr>"
proof -
  have v: "key_new (key_bytes (e_key e)) = Ok (e_key e)" "description_new (description_str (e_description e)) = Ok (e_description e)"
      "\<And>l. e_kind e = Some l \<Longrightarrow> valid_label l" "valid_provenance (e_provenance e)"
      "\<And>d. e_document e = Some d \<Longrightarrow> valid_label (doc_id d)" "e_reverses e = None \<longleftrightarrow> original_booking_date e = None"
    using assms by (auto simp: storable_def valid_entry_def)
  have prov: "provenance_column with_actor (map_option label_str (actor q)) provenance_none = Ok (provenance_none\<lparr>actor := actor q\<rparr>)"
      "provenance_column with_source (map_option label_str (source q)) (provenance_none\<lparr>actor := actor q\<rparr>)
        = Ok (provenance_none\<lparr>actor := actor q, source := source q\<rparr>)"
      "provenance_column with_correlation (map_option label_str (correlation q)) (provenance_none\<lparr>actor := actor q, source := source q\<rparr>) = Ok q"
    if "valid_provenance q" for q
    using that by (cases "actor q"; cases "source q"; cases "correlation q";
        simp add: provenance_column_def with_actor_def with_source_def with_correlation_def valid_provenance_def provenance_none_def)+
  have kind: "kind_column (map_option label_str (e_kind e)) draft = Ok (draft\<lparr>e_kind := e_kind e\<rparr>)"
    if "e_kind draft = None" for draft
    using v(3) that by (cases "e_kind e") (simp_all add: kind_column_def entry_with_kind_def)
  have doc: "document_columns (map_option (\<lambda>d. label_str (doc_id d)) (e_document e))
      (Option.bind (e_document e) (\<lambda>d. map_option hash_bytes (doc_hash d))) draft = Ok (draft\<lparr>e_document := e_document e\<rparr>)"
    if "e_document draft = None" for draft
  proof (cases "e_document e")
    case (Some d)
    then show ?thesis using v(5) [OF Some]
      by (cases "doc_hash d") (simp_all add: document_columns_def document_of_def document_new_def document_unverified_def with_document_def)
  qed (simp add: document_columns_def that)
  have rev: "reversal_columns (map_option uuid_bytes (e_reverses e)) (original_booking_date e) draft
      = Ok (draft\<lparr>e_reverses := e_reverses e, original_booking_date := original_booking_date e\<rparr>)"
    if "e_reverses draft = None" "original_booking_date draft = None" for draft
    using v(6) that by (cases "e_reverses e"; cases "original_booking_date e") (simp_all add: reversal_columns_def reversing_def)
  have whole: "\<lparr>e_id = e_id e, e_key = e_key e, booking_date = booking_date e, value_date = value_date e,
      e_description = e_description e, e_postings = e_postings e, e_kind = e_kind e, e_provenance = e_provenance e,
      e_document = e_document e, e_reverses = e_reverses e, original_booking_date = original_booking_date e\<rparr> = e"
    by simp
  show ?thesis
    using v(1,2)
    by (simp add: whole Let_def build_stored_entry_def entry_row_of_def prov [OF v(4)] kind doc rev entry_new_def with_value_date_def
        with_description_def with_provenance_def post_all adopt_verified_def u64_or_zero_def)
qed

end
