(* ===== verification/Sqlite_Reads.thy ===== *)
theory Sqlite_Reads
  imports Sqlite_Entries Journal_Books
begin

text \<open>
  A database that holds the books of a journal answers every read of the log and of the balances as
  the in-memory store over that journal does.
\<close>

section \<open>A database that holds a journal's books\<close>

definition db_shows :: "env \<Rightarrow> 'a sqlite_db_scheme \<Rightarrow> journal \<Rightarrow> bool" where
  "db_shows E db j \<longleftrightarrow>
     db_accounts db = map account_row_of (records (j_accounts j))
     \<and> db_entries db = entry_rows E (j_entries j)
     \<and> db_postings db = posting_rows (j_entries j)
     \<and> db_dimensions db = axis_rows (j_entries j)
     \<and> db_subtrees db = subtree_rows (accumulator (j_log j))"

text \<open>
  The books are those of a reachable journal, their entries have fields their constructors let through,
  and there are few enough for their positions to fit the signed integers of the database.
\<close>

definition backed :: "env \<Rightarrow> 'a sqlite_db_scheme \<Rightarrow> journal \<Rightarrow> bool" where
  "backed E db j \<longleftrightarrow> db_shows E db j \<and> journal_inv E j \<and> (\<forall>e\<in>set (j_entries j). storable e)
     \<and> int (length (j_entries j)) \<le> i64_max"

lemma inv_distinct:
  assumes "journal_inv E j"
  shows "distinct (map e_id (j_entries j))"
  using index_of_iff [OF assms] unfolding distinct_conv_nth
  by (auto simp: entry_at_def) (metis option.inject)

lemma index_of_at: "journal_inv E j \<Longrightarrow> n < length (j_entries j) \<Longrightarrow> index_of j (e_id (j_entries j ! n)) = Some n"
  by (simp add: index_of_iff entry_at_def)

lemma backedD:
  assumes "backed E db j"
  shows "db_accounts db = map account_row_of (records (j_accounts j))" "db_entries db = entry_rows E (j_entries j)"
    "db_postings db = posting_rows (j_entries j)" "db_dimensions db = axis_rows (j_entries j)"
    "db_subtrees db = subtree_rows (accumulator (j_log j))"
    "journal_inv E j" "stored_list (j_entries j)" "int (length (j_entries j)) \<le> i64_max"
  using assms inv_distinct by (auto simp: backed_def db_shows_def stored_list_def)

section \<open>The entries table\<close>

definition row_at :: "env \<Rightarrow> entry list \<Rightarrow> nat \<Rightarrow> entry_row" where
  "row_at E es n = entry_row_of E (int n) (root_through E es n) (es ! n)"

lemma entry_rows_at: "entry_rows E es = map (row_at E es) [0..<length es]"
  by (simp add: entry_rows_def row_at_def)

lemma row_at_fields [simp]:
  "er_index (row_at E es n) = Some (int n)" "er_id (row_at E es n) = uuid_bytes (e_id (es ! n))"
  "er_key (row_at E es n) = key_bytes (e_key (es ! n))" "er_hash (row_at E es n) = hash_bytes (content_hash E (es ! n))"
  "er_root (row_at E es n) = Some (hash_bytes (root_through E es n))" "er_booking (row_at E es n) = booking_date (es ! n)"
  "er_reverses (row_at E es n) = map_option uuid_bytes (e_reverses (es ! n))"
  by (simp_all add: row_at_def entry_row_of_def)

lemma sequenced_rows:
  assumes "db_entries db = entry_rows E es"
  shows "sequenced db = entry_rows E es"
proof -
  have "filter (\<lambda>r. er_index r \<noteq> None) (entry_rows E es) = entry_rows E es"
    by (rule filter_True) (auto simp: entry_rows_at)
  moreover have "sorted (map er_index (entry_rows E es))"
    by (simp add: entry_rows_at sorted_iff_nth_mono)
  ultimately show ?thesis by (simp add: sequenced_def assms sort_key_id_if_sorted)
qed

lemma sqlite_len_eq:
  assumes "db_entries db = entry_rows E es"
  shows "sqlite_len db = length es"
proof -
  have "filter (\<lambda>r. er_index r \<noteq> None) (entry_rows E es) = entry_rows E es"
    by (rule filter_True) (auto simp: entry_rows_at)
  then show ?thesis by (simp add: sqlite_len_def assms entry_rows_def)
qed

lemma find_upt:
  assumes "\<And>m. m < n \<Longrightarrow> P (f m) \<longleftrightarrow> m = k" "k < n"
  shows "find P (map f [0..<n]) = Some (f k)"
proof -
  have "find P (map f [0..<n]) = Some (map f [0..<n] ! k)"
    using assms by (subst find_Some_iff) (intro exI [of _ k], auto)
  then show ?thesis using assms(2) by simp
qed

lemma find_row_id:
  assumes "stored_list es" "n < length es"
  shows "find (\<lambda>r. er_id r = uuid_bytes (e_id (es ! n))) (entry_rows E es) = Some (row_at E es n)"
  unfolding entry_rows_at
  by (rule find_upt) (use assms in \<open>auto simp: stored_list_def distinct_conv_nth\<close>)

lemma find_row_none: "i \<notin> e_id ` set es \<Longrightarrow> find (\<lambda>r. er_id r = uuid_bytes i) (entry_rows E es) = None"
  by (auto simp: find_None_iff entry_rows_at)

lemma row_round:
  assumes "stored_list es" "n < length es"
  shows "build_stored_entry E (row_at E es n) (e_postings (es ! n))
    = Ok \<lparr>se_index = Some n, se_entry = es ! n, se_hash = content_hash E (es ! n)\<rparr>"
  unfolding row_at_def by (rule entry_round) (use assms in \<open>simp add: stored_list_def\<close>)

section \<open>Entries by identifier and by page\<close>

lemma sqlite_get_eq:
  assumes "backed E db (ms_inner st)"
  shows "sqlite_get E db i = Ok (store_get E st i)"
proof -
  note b = backedD [OF assms]
  let ?es = "j_entries (ms_inner st)"
  show ?thesis
  proof (cases "index_of (ms_inner st) i")
    case None
    then have "\<forall>n<length ?es. e_id (?es ! n) \<noteq> i" using index_of_at [OF b(6)] by auto
    then have "i \<notin> e_id ` set ?es" by (auto simp: in_set_conv_nth)
    then show ?thesis using None by (simp add: sqlite_get_def b(2) find_row_none store_get_def)
  next
    case (Some n)
    then have n: "n < length ?es" "e_id (?es ! n) = i"
      using index_of_iff [OF b(6), of i n] by (auto simp: entry_at_def split: if_splits)
    obtain m where m: "load_postings_for db [uuid_bytes i] = Ok m"
      "\<And>e. e \<in> set ?es \<Longrightarrow> uuid_bytes (e_id e) \<in> set [uuid_bytes i] \<Longrightarrow> (case bt_get m (uuid_bytes (e_id e)) of None \<Rightarrow> [] | Some ps \<Rightarrow> ps) = e_postings e"
      using postings_read_back [OF b(7,3,4), of "[uuid_bytes i]"] by blast
    have "(case bt_get m (uuid_bytes i) of None \<Rightarrow> [] | Some ps \<Rightarrow> ps) = e_postings (?es ! n)"
      using m(2) [of "?es ! n"] n by simp
    then show ?thesis
      using n Some find_row_id [OF b(7) n(1), of E] row_round [OF b(7) n(1), of E]
      by (simp add: sqlite_get_def b(2) m(1) store_get_def entry_at_def Let_def)
  qed
qed

lemma take_upt_min: "take m [i..<n] = [i..<min (i + m) n]"
  by (cases "i + m \<le> n") (simp_all add: min_def)

lemma try_map_map: "try_map f (map g xs) = try_map (\<lambda>x. f (g x)) xs"
  by (induction xs) simp_all

lemma filter_upt: "filter ((\<le>) k) [0..<n] = [k..<n]"
  by (induction n) auto

lemma rows_after:
  assumes "db_entries db = entry_rows E es" "int (length es) \<le> i64_max"
  shows "filter (\<lambda>r. case er_index r of None \<Rightarrow> False | Some i \<Rightarrow> (case after of None \<Rightarrow> - 1 | Some a \<Rightarrow> i64_or_max a) < i) (sequenced db)
    = map (row_at E es) [case after of None \<Rightarrow> 0 | Some a \<Rightarrow> min u64_max (a + 1)..<length es]"
proof -
  let ?k = "case after of None \<Rightarrow> 0 | Some a \<Rightarrow> min u64_max (a + 1)"
  have big: "n \<le> i64_max" if "n < int (length es)" for n using that assms(2) by simp
  have "(case after of None \<Rightarrow> - 1 | Some a \<Rightarrow> i64_or_max a) < int n \<longleftrightarrow> ?k \<le> n" if "n < length es" for n
    using that big [of "int n"] assms(2)
    by (auto simp: i64_or_max_def i64_max_def u64_max_def min_def split: option.split)
  then have "filter (\<lambda>n. (case after of None \<Rightarrow> - 1 | Some a \<Rightarrow> i64_or_max a) < int n) [0..<length es] = filter (\<lambda>n. ?k \<le> n) [0..<length es]"
    by (intro filter_cong) simp_all
  also have "\<dots> = [?k..<length es]" by (rule filter_upt)
  finally show ?thesis by (simp add: sequenced_rows [OF assms(1)] entry_rows_at filter_map comp_def)
qed

lemma sqlite_page_eq:
  assumes "backed E db (ms_inner st)"
  shows "sqlite_page E db c = Ok (store_page E st c)"
proof -
  note b = backedD [OF assms]
  let ?es = "j_entries (ms_inner st)" and ?k = "log_offset (E, st) c" and ?l = "effective_limit c"
  have small: "length ?es \<le> u64_max" using b(8) by (simp add: i64_max_def u64_max_def)
  have k: "?k = (case cu_after c of None \<Rightarrow> 0 | Some a \<Rightarrow> min u64_max (a + 1))" by (simp add: log_offset_def)
  define rows where "rows = map (row_at E ?es) [?k..<min (?k + ?l) (length ?es)]"
  have taken: "take ?l (filter (\<lambda>r. case er_index r of None \<Rightarrow> False
        | Some i \<Rightarrow> (case cu_after c of None \<Rightarrow> - 1 | Some a \<Rightarrow> i64_or_max a) < i) (sequenced db)) = rows"
    unfolding rows_after [OF b(2,8)] rows_def k by (simp add: take_map take_upt_min)
  have member: "?es ! n \<in> set ?es" "uuid_bytes (e_id (?es ! n)) \<in> set (map er_id rows)"
    if "n \<in> set [?k..<min (?k + ?l) (length ?es)]" for n
    using that by (auto simp: rows_def)
  obtain m where m: "load_postings_for db (map er_id rows) = Ok m"
    "\<And>e. e \<in> set ?es \<Longrightarrow> uuid_bytes (e_id e) \<in> set (map er_id rows) \<Longrightarrow> (case bt_get m (uuid_bytes (e_id e)) of None \<Rightarrow> [] | Some ps \<Rightarrow> ps) = e_postings e"
    using postings_read_back [OF b(7,3,4), of "map er_id rows"] by blast
  let ?rec = "\<lambda>n. \<lparr>se_index = Some n, se_entry = ?es ! n, se_hash = content_hash E (?es ! n)\<rparr>"
  have "build_stored_entry E (row_at E ?es n) (case bt_get m (uuid_bytes (e_id (?es ! n))) of None \<Rightarrow> [] | Some ps \<Rightarrow> ps) = Ok (?rec n)"
    if "n \<in> set [?k..<min (?k + ?l) (length ?es)]" for n
    using row_round [OF b(7), of n] m(2) [OF member [OF that]] that by simp
  then have "try_map (\<lambda>n. build_stored_entry E (row_at E ?es n) (case bt_get m (uuid_bytes (e_id (?es ! n))) of None \<Rightarrow> [] | Some ps \<Rightarrow> ps))
      [?k..<min (?k + ?l) (length ?es)] = Ok (map ?rec [?k..<min (?k + ?l) (length ?es)])"
    by (rule try_map_total)
  then have built: "try_map (\<lambda>row. build_stored_entry E row (case bt_get m (er_id row) of None \<Rightarrow> [] | Some ps \<Rightarrow> ps)) rows
      = Ok (map ?rec [?k..<min (?k + ?l) (length ?es)])"
    by (simp add: rows_def try_map_map comp_def)
  have records: "pg_records (store_page E st c) = map ?rec [?k..<min (?k + ?l) (length ?es)]"
  proof -
    have "log_rows E st = map ?rec [0..<length ?es]"
      by (intro nth_equalityI) (simp_all add: log_rows_def nth_enumerate_eq)
    then show ?thesis
      unfolding store_page_rows(1) [OF small] by (simp add: take_map drop_map take_upt_min)
  qed
  have "store_page E st c = \<lparr>pg_records = pg_records (store_page E st c),
      pg_next = (if pg_records (store_page E st c) = [] then None else
        (case se_index (last (pg_records (store_page E st c))) of
           None \<Rightarrow> None
         | Some index \<Rightarrow> if min u64_max (index + 1) < length ?es then Some \<lparr>cu_after = Some index, cu_limit = cu_limit c\<rparr> else None))\<rparr>"
  proof (cases "?k < length ?es")
    case True
    have pos: "0 < ?l" by simp
    have last: "last [?k..<min (?k + ?l) (length ?es)] = min (?k + ?l) (length ?es) - 1"
      using True pos by (intro last_upt) simp
    show ?thesis
      using True pos small
      by (intro log_page.equality) (auto simp: records last_map last store_page_rows(2) [OF small] min_def)
  next
    case False
    then have "pg_records (store_page E st c) = []" by (simp add: records)
    then show ?thesis using False by (intro log_page.equality) (simp_all add: store_page_rows(2) [OF small])
  qed
  then show ?thesis
    unfolding sqlite_page_def Let_def taken sqlite_len_eq [OF b(2)] by (simp add: m(1) built records [symmetric])
qed

section \<open>Heads and proofs\<close>

lemma root_hash:
  assumes "db_entries db = entry_rows E es" "es \<noteq> []"
  shows "last (sequenced db) = row_at E es (length es - 1)" "sequenced db \<noteq> []"
  using assms by (simp_all add: sequenced_rows [OF assms(1)] entry_rows_at last_map)

lemma sqlite_head_eq:
  assumes "backed E db j"
  shows "sqlite_head E db = Ok (journal_head E j)"
proof -
  note b = backedD [OF assms]
  note head = journal_head_eq [OF journal_invD(1) [OF b(6)]]
  show ?thesis
  proof (cases "j_entries j = []")
    case True
    then show ?thesis by (simp add: sqlite_head_def sequenced_rows [OF b(2)] entry_rows_def head)
  next
    case False
    have "min u64_max (nat (int (length (j_entries j) - 1)) + 1) = length (j_entries j)"
      using False b(8) by (cases "j_entries j") (auto simp: i64_max_def u64_max_def)
    then show ?thesis
      using root_hash [OF b(2) False] False
      by (simp add: sqlite_head_def head root_through_def u64_or_zero_def)
  qed
qed

lemma sqlite_head_at_eq:
  assumes "backed E db j"
  shows "sqlite_head_at E db n =
    (if n \<le> length (j_entries j) then map_err SqlProof (journal_head_at E j n) else Err (SqlProof (SizeOutOfRange n 0)))"
proof -
  note b = backedD [OF assms]
  let ?es = "j_entries j"
  show ?thesis
  proof (cases "n = 0 \<or> length ?es < n")
    case True
    moreover have "find (\<lambda>r. er_index r = Some (i64_or_max (n - 1))) (entry_rows E ?es) = None" if "length ?es < n"
      using that b(8) by (auto simp: find_None_iff entry_rows_at i64_or_max_def)
    ultimately show ?thesis
      using head_at_size [OF journal_invD(1) [OF b(6)], of n] by (auto simp: sqlite_head_at_def b(2))
  next
    case False
    then obtain k where k: "n = Suc k" "k < length ?es" by (cases n) auto
    then have "i64_or_max k = int k" using b(8) by (simp add: i64_or_max_def)
    then have "find (\<lambda>r. er_index r = Some (i64_or_max k)) (entry_rows E ?es) = Some (row_at E ?es k)"
      unfolding entry_rows_at by (intro find_upt) (use k in simp_all)
    then show ?thesis
      using k False head_at_size [OF journal_invD(1) [OF b(6)], of n]
      by (simp add: sqlite_head_at_def b(2) root_through_def)
  qed
qed

lemma sqlite_log_eq:
  assumes "backed E db j"
  shows "sqlite_log E db = Ok (j_log j)"
proof -
  note b = backedD [OF assms]
  let ?es = "j_entries j"
  have "enumerate 0 (sequenced db) = map (\<lambda>n. (n, row_at E ?es n)) [0..<length ?es]"
    by (intro nth_equalityI) (simp_all add: sequenced_rows [OF b(2)] entry_rows_at nth_enumerate_eq)
  moreover have "try_map (\<lambda>n. dense_leaf (n, row_at E ?es n)) [0..<length ?es] = Ok (map (\<lambda>n. content_hash E (?es ! n)) [0..<length ?es])"
    by (rule try_map_total) (use b(8) in \<open>simp add: dense_leaf_def i64_or_max_def\<close>)
  ultimately have "try_map dense_leaf (enumerate 0 (sequenced db)) = Ok (map (\<lambda>n. content_hash E (?es ! n)) [0..<length ?es])"
    by (simp add: try_map_map)
  moreover have "map (\<lambda>n. content_hash E (?es ! n)) [0..<length ?es] = map (content_hash E) ?es"
    by (intro nth_equalityI) simp_all
  moreover have "log_from_leaves (env_b3 E) (map (content_hash E) ?es) = j_log j"
    using log_from_leaves_good [of "map (content_hash E) ?es" "env_b3 E"] derived_okD(4) [OF journal_invD(1) [OF b(6)]]
      journal_invD(3) [OF b(6)] good_log_unique by (auto simp: log_ok_def)
  ultimately show ?thesis by (simp add: sqlite_log_def)
qed

end
