(* ===== verification/Sqlite_Balances.thy ===== *)
theory Sqlite_Balances
  imports Sqlite_Reads Journal_Figures
begin

text \<open>The sums the database computes are the balances of the journal it holds.\<close>

section \<open>The rows behind a figure\<close>

definition rows_for :: "entry list \<Rightarrow> posting_row list" where
  "rows_for es = concat (map rows_of es)"

lemma rows_for_simps [simp]: "rows_for [] = []" "rows_for (e # es) = rows_of e @ rows_for es" "rows_for (es @ fs) = rows_for es @ rows_for fs"
  by (simp_all add: rows_for_def)

lemma filter_one: "n < k \<Longrightarrow> filter (\<lambda>m. m = n) [0..<k] = [n]"
proof (induction k)
  case (Suc k)
  then show ?case by (cases "n = k") (auto simp: filter_empty_conv)
qed simp

lemma concat_over: "concat (map F (concat (map G xs))) = concat (map (\<lambda>x. concat (map F (G x))) xs)"
  by (induction xs) simp_all

lemma joined_rows:
  assumes "stored_list es" "db_entries db = entry_rows E es" "db_postings db = posting_rows es"
  shows "joined db cond = concat (map (\<lambda>n. if cond (row_at E es n) then rows_of (es ! n) else []) [0..<length es])"
proof -
  let ?F = "\<lambda>p. map (\<lambda>_. p) (filter (\<lambda>e. er_id e = po_entry p \<and> cond e) (entry_rows E es))"
  have ids: "e_id (es ! m) = e_id (es ! n) \<longleftrightarrow> m = n" if "m < length es" "n < length es" for m n
    using assms(1) that by (auto simp: stored_list_def distinct_conv_nth)
  have one: "filter (\<lambda>e. er_id e = uuid_bytes (e_id (es ! n)) \<and> cond e) (entry_rows E es)
      = (if cond (row_at E es n) then [row_at E es n] else [])" if n: "n < length es" for n
  proof -
    have "filter (\<lambda>m. e_id (es ! m) = e_id (es ! n) \<and> cond (row_at E es m)) [0..<length es]
        = filter (\<lambda>m. m = n \<and> cond (row_at E es m)) [0..<length es]"
      using ids n by (intro filter_cong) auto
    also have "\<dots> = (if cond (row_at E es n) then filter (\<lambda>m. m = n) [0..<length es] else [])"
      by (auto simp: filter_empty_conv intro: filter_cong)
    also have "filter (\<lambda>m. m = n) [0..<length es] = [n]" by (rule filter_one [OF n])
    finally show ?thesis by (simp add: entry_rows_at filter_map comp_def)
  qed
  have "concat (map ?F (rows_of (es ! n))) = (if cond (row_at E es n) then rows_of (es ! n) else [])" if "n < length es" for n
  proof -
    have "map ?F (rows_of (es ! n)) = map (\<lambda>p. if cond (row_at E es n) then [p] else []) (rows_of (es ! n))"
      by (rule map_cong) (simp_all add: rows_of_entry one [OF that])
    then have "concat (map ?F (rows_of (es ! n))) = concat (map (\<lambda>p. if cond (row_at E es n) then [p] else []) (rows_of (es ! n)))"
      by (rule arg_cong)
    then show ?thesis by (cases "cond (row_at E es n)") simp_all
  qed
  moreover have "joined db cond = concat (map (\<lambda>e. concat (map ?F (rows_of e))) es)"
    by (simp add: joined_def assms(2,3) posting_rows_concat concat_over comp_def)
  moreover have "map (\<lambda>e. concat (map ?F (rows_of e))) es = map (\<lambda>n. concat (map ?F (rows_of (es ! n)))) [0..<length es]"
    by (intro nth_equalityI) simp_all
  ultimately show ?thesis
    by (simp only:) (rule arg_cong [of _ _ concat], rule map_cong [OF refl], simp)
qed

lemma concat_take: "concat (map (\<lambda>n. if n < m then g (es ! n) else []) [0..<length es]) = concat (map g (take m es))"
proof (induction es rule: rev_induct)
  case (snoc x xs)
  have "concat (map (\<lambda>n. if n < m then g ((xs @ [x]) ! n) else []) [0..<length xs]) = concat (map (\<lambda>n. if n < m then g (xs ! n) else []) [0..<length xs])"
    by (intro arg_cong [of _ _ concat] map_cong) (auto simp: nth_append)
  then show ?case using snoc by (cases "length xs < m") simp_all
qed simp

lemma concat_filtered: "concat (map (\<lambda>n. if P (es ! n) then g (es ! n) else []) [0..<length es]) = concat (map g (filter P es))"
proof -
  have "map (\<lambda>n. if P (es ! n) then g (es ! n) else []) [0..<length es] = map (\<lambda>e. if P e then g e else []) es"
    by (intro nth_equalityI) simp_all
  moreover have "concat (map (\<lambda>e. if P e then g e else []) es) = concat (map g (filter P es))"
    by (induction es) simp_all
  ultimately show ?thesis by (simp only:)
qed

text \<open>The entries of a prefix of the log, and those booked through a day.\<close>

definition part_of :: "journal \<Rightarrow> nat option \<Rightarrow> entry list" where
  "part_of j n = (case n of None \<Rightarrow> j_entries j | Some m \<Rightarrow> take m (j_entries j))"

lemma joined_prefix:
  assumes "backed E db j"
  shows "joined db (below_bound (prefix_bound n)) = rows_for (part_of j n)"
proof -
  note b = backedD [OF assms]
  let ?m = "case n of None \<Rightarrow> length (j_entries j) | Some m \<Rightarrow> m"
  have "below_bound (prefix_bound n) (row_at E (j_entries j) k) \<longleftrightarrow> k < ?m" if "k < length (j_entries j)" for k
    using that b(8) by (auto simp: below_bound_def prefix_bound_def i64_or_max_def split: option.split)
  then have "joined db (below_bound (prefix_bound n)) = concat (map (\<lambda>k. if k < ?m then rows_of (j_entries j ! k) else []) [0..<length (j_entries j)])"
    unfolding joined_rows [OF b(7,2,3)] by (intro arg_cong [of _ _ concat] map_cong) auto
  then show ?thesis by (simp add: concat_take rows_for_def part_of_def split: option.splits)
qed

lemma joined_through:
  assumes "backed E db j"
  shows "joined db (\<lambda>e. er_index e \<noteq> None \<and> er_booking e \<le> d) = rows_for (through d (j_entries j))"
  unfolding joined_rows [OF backedD(7,2,3) [OF assms]] by (simp add: concat_filtered [where P = "\<lambda>e. booking_date e \<le> d"] rows_for_def through_def)

section \<open>Sums\<close>

lemma sql_sum_positive:
  assumes "\<forall>x\<in>set xs. 0 \<le> x" "sum_list xs \<le> i64_max"
  shows "sql_sum xs = Ok (sum_list xs)"
proof -
  have "try_fold (\<lambda>acc x. if in_i64 (acc + x) then Ok (acc + x) else Err SqlDatabase) a xs = Ok (a + sum_list xs)"
    if "\<forall>x\<in>set xs. 0 \<le> x" "0 \<le> a" "a + sum_list xs \<le> i64_max" for a xs
    using that
  proof (induction xs arbitrary: a)
    case (Cons x xs)
    have "0 \<le> sum_list xs" using Cons.prems(1) by (intro sum_list_nonneg) simp
    then have "in_i64 (a + x)" using Cons.prems by (simp add: in_i64_def i64_min_def)
    then show ?case using Cons by (simp add: algebra_simps)
  qed simp
  then show ?thesis using assms by (simp add: sql_sum_def)
qed

lemma posting_matches_row [simp]: "posting_matches key (posting_row_of i k p) \<longleftrightarrow> key_of_posting p = key"
  by (cases key) (auto simp: posting_matches_def posting_row_of_def key_of_posting_def)

lemma posting_row_fields [simp]:
  "po_direction (posting_row_of i k p) = direction_str (p_direction p)" "po_amount (posting_row_of i k p) = amt (p_amount p)"
  "po_entry (posting_row_of i k p) = uuid_bytes i" "po_index (posting_row_of i k p) = i64_or_max k"
  by (simp_all add: posting_row_of_def)

lemma sum_on_key:
  "sum_list (map po_amount (filter (\<lambda>r. po_direction r = direction_str d) (filter (posting_matches key) (rows_for es)))) = moved d key (all_postings es)"
proof (induction es)
  case (Cons e es)
  have "sum_list (map po_amount (filter (\<lambda>r. po_direction r = direction_str d) (filter (posting_matches key)
      (map (\<lambda>(k, p). posting_row_of (e_id e) k p) (enumerate n ps))))) = moved d key ps" for n ps
    by (induction ps arbitrary: n) auto
  then show ?case using Cons by (simp add: rows_of_def)
qed simp

lemma rows_positive:
  assumes "\<forall>p\<in>set (all_postings es). 0 < amt (p_amount p)" "r \<in> set (rows_for es)"
  shows "0 < po_amount r"
proof -
  obtain e where e: "e \<in> set es" "r \<in> set (rows_of e)" using assms(2) by (auto simp: rows_for_def)
  then obtain k where "k < length (e_postings e)" "r = posting_row_of (e_id e) k (e_postings e ! k)"
    by (auto simp: rows_of_def in_set_enumerate_eq)
  then show ?thesis using assms(1) e(1) by (auto simp: all_postings_def)
qed

lemma both_sums_key:
  assumes "\<forall>p\<in>set (all_postings es). 0 < amt (p_amount p)" "\<And>d. moved d key (all_postings es) \<le> i64_max"
  shows "\<exists>b. both_sums (filter (posting_matches key) (rows_for es)) = Ok b \<and> (\<forall>d. side d b = moved d key (all_postings es))"
proof -
  have s: "sum_of (direction_str d) (filter (posting_matches key) (rows_for es)) = Ok (moved d key (all_postings es))" for d
  proof -
    let ?xs = "map po_amount (filter (\<lambda>r. po_direction r = direction_str d) (filter (posting_matches key) (rows_for es)))"
    have "sql_sum ?xs = Ok (sum_list ?xs)"
    proof (rule sql_sum_positive)
      show "\<forall>x\<in>set ?xs. 0 \<le> x" using rows_positive [OF assms(1)] by (auto intro: less_imp_le)
      show "sum_list ?xs \<le> i64_max" unfolding sum_on_key by (rule assms(2))
    qed
    then show ?thesis by (simp only: sum_of_def sum_on_key)
  qed
  have "0 \<le> moved d key (all_postings es)" for d by (rule moved_nonneg [OF assms(1)])
  then have "in_i64 (moved d key (all_postings es))" for d
    using assms(2) [of d] by (simp add: in_i64_def i64_min_def order_trans [of _ 0])
  then show ?thesis
    using s [of Debit] s [of Credit]
    by (intro exI [of _ "\<lparr>debits = of_amt (moved Debit key (all_postings es)), credits = of_amt (moved Credit key (all_postings es))\<rparr>"])
      (auto simp: both_sums_def direction_str_def from_minor_of_amt side_def split: direction.split)
qed

section \<open>A balance\<close>

lemma part_fits:
  assumes "journal_inv E j"
  shows "\<forall>p\<in>set (all_postings (part_of j n)). 0 < amt (p_amount p)" "moved d key (all_postings (part_of j n)) \<le> i64_max"
proof -
  have "set (part_of j n) \<subseteq> set (j_entries j)" by (auto simp: part_of_def dest: in_set_takeD split: option.splits)
  then show "\<forall>p\<in>set (all_postings (part_of j n)). 0 < amt (p_amount p)" by (rule moved_part [OF assms])
  show "moved d key (all_postings (part_of j n)) \<le> i64_max"
    using moved_prefix_fits [OF assms, of d key "case n of None \<Rightarrow> length (j_entries j) | Some m \<Rightarrow> m"]
    by (simp add: part_of_def split: option.splits)
qed

lemma upto_part: "upto j n = all_postings (part_of j n)"
  by (simp add: upto_def part_of_def)

lemma sqlite_balance_eq:
  assumes "backed E db j"
  shows "sqlite_balance db key n = map_err SqlMoney (balance_at j key n)"
proof -
  note inv = backedD(6) [OF assms]
  obtain b where b: "balance_at j key n = Ok b" "\<And>d. side d b = moved d key (upto j n)" using balance_at_shows [OF inv] by metis
  obtain b' where b': "sqlite_balance db key n = Ok b'" "\<And>d. side d b' = moved d key (upto j n)"
    using both_sums_key [OF part_fits(1) [OF inv, where n = n] part_fits(2) [OF inv, where n = n and key = key]] by (auto simp: sqlite_balance_def joined_prefix [OF assms] upto_part)
  then have "b' = b" using b(2) by (simp add: balance_eqI)
  then show ?thesis using b(1) b'(1) by simp
qed

section \<open>A trial balance\<close>

definition group_key :: "balance_key \<Rightarrow> int \<times> ustr \<times> ustr" where
  "group_key key = (column_account (k_account key), currency_code (k_currency key), layer_str (k_layer key))"

lemma group_key_inj [simp]: "group_key a = group_key b \<longleftrightarrow> a = b"
  by (auto simp: group_key_def balance_key.expand)

lemma group_matches: "group_of r = group_key key \<longleftrightarrow> posting_matches key r"
  by (simp add: group_of_def group_key_def posting_matches_def)

lemma group_of_row [simp]: "group_of (posting_row_of i k p) = group_key (key_of_posting p)"
  by (simp add: group_matches)

lemma groups_of_rows: "group_of ` set (rows_for es) = group_key ` key_of_posting ` set (all_postings es)"
proof (induction es)
  case (Cons e es)
  have "group_of ` set (map (\<lambda>(k, p). posting_row_of (e_id e) k p) (enumerate n ps)) = group_key ` key_of_posting ` set ps" for n ps
    by (induction ps arbitrary: n) simp_all
  then show ?case using Cons by (simp add: rows_of_def image_Un)
qed simp

lemma add_group_key:
  assumes "valid_currency (k_currency key)"
  shows "add_group tb (group_key key, b) = Ok (tb_set tb key b)"
  using assms
  by (cases key; cases "k_account key"; cases "k_layer key") (auto simp: add_group_def group_key_def account_round [of "AccountId _", simplified])

lemma build_keys:
  assumes "\<forall>key\<in>set ks. valid_currency (k_currency key)"
  shows "\<exists>tb'. try_fold add_group tb (map (\<lambda>key. (group_key key, B key)) ks) = Ok tb'
    \<and> (\<forall>key. bt_get tb' key = (if key \<in> set ks then Some (B key) else bt_get tb key))"
  using assms
proof (induction ks arbitrary: tb)
  case (Cons k ks)
  obtain tb' where "try_fold add_group (tb_set tb k (B k)) (map (\<lambda>key. (group_key key, B key)) ks) = Ok tb'"
    "\<forall>key. bt_get tb' key = (if key \<in> set ks then Some (B key) else bt_get (tb_set tb k (B k)) key)"
    using Cons.IH Cons.prems by fastforce
  then show ?case using Cons.prems by (intro exI [of _ tb']) (auto simp: add_group_key tb_set_def)
qed simp

lemma grouped_balance:
  assumes "\<forall>p\<in>set (all_postings es). 0 < amt (p_amount p) \<and> valid_currency (p_currency p)"
    "\<And>d key. moved d key (all_postings es) \<le> i64_max"
  shows "\<exists>tb. bindR (grouped_sums (rows_for es)) build_trial_balance = Ok tb \<and> shows_postings tb (all_postings es)"
proof -
  let ?ps = "all_postings es" and ?gs = "sort (remdups (map group_of (rows_for es)))"
  have set_gs: "set ?gs = group_key ` key_of_posting ` set ?ps" using groups_of_rows [of es] by simp
  then have "\<forall>g\<in>set ?gs. \<exists>key. g = group_key key" by blast
  then obtain ks where ks: "?gs = map group_key ks" unfolding ex_map_conv [of ?gs group_key, symmetric] ..
  have "group_key ` set ks = group_key ` key_of_posting ` set ?ps" using set_gs unfolding ks by simp
  then have keys: "set ks = key_of_posting ` set ?ps" by (simp add: inj_image_eq_iff inj_def)
  have "\<forall>key. \<exists>b. both_sums (filter (posting_matches key) (rows_for es)) = Ok b \<and> (\<forall>d. side d b = moved d key ?ps)"
    using both_sums_key [of es] assms by blast
  then obtain B where B: "\<And>key. both_sums (filter (posting_matches key) (rows_for es)) = Ok (B key)" "\<And>key d. side d (B key) = moved d key ?ps"
    by metis
  have grouped: "grouped_sums (rows_for es) = Ok (map (\<lambda>key. (group_key key, B key)) ks)"
    unfolding grouped_sums_def ks try_map_map group_matches by (rule try_map_total) (simp add: B(1))
  have valid: "\<forall>key\<in>set ks. valid_currency (k_currency key)" unfolding keys using assms(1) by (auto simp: key_of_posting_def)
  obtain tb where tb: "try_fold add_group bt_empty (map (\<lambda>key. (group_key key, B key)) ks) = Ok tb"
    "\<And>key. bt_get tb key = (if key \<in> set ks then Some (B key) else bt_get bt_empty key)"
    using build_keys [OF valid] by blast
  have "side d (tb_get_or_zero tb key) = moved d key ?ps" for d key
  proof (cases "key \<in> set ks")
    case False
    then have "moved d key ?ps = 0" unfolding keys by (rule moved_absent)
    then show ?thesis using False by (simp add: tb_get_or_zero_def tb(2))
  qed (simp add: tb_get_or_zero_def tb(2) B(2))
  then have "shows_postings tb ?ps" by (simp add: shows_postings_def tb(2) keys)
  then show ?thesis using grouped tb(1) by (simp add: build_trial_balance_def)
qed

lemma part_valid:
  assumes "backed E db j" "set es \<subseteq> set (j_entries j)"
  shows "\<forall>p\<in>set (all_postings es). 0 < amt (p_amount p) \<and> valid_currency (p_currency p)"
proof -
  have "valid_posting p" if "e \<in> set es" "p \<in> set (e_postings e)" for e p
    using storable_parts(1) backedD(7) [OF assms(1)] assms(2) that by (auto simp: stored_list_def)
  then show ?thesis
    using moved_part [OF backedD(6) [OF assms(1)] assms(2)] by (auto simp: all_postings_def valid_posting_def)
qed

lemma sqlite_trial_balance_eq:
  assumes "backed E db j"
  shows "sqlite_trial_balance db n = map_err SqlMoney (trial_balance_at j n)"
proof -
  note inv = backedD(6) [OF assms]
  have "set (part_of j n) \<subseteq> set (j_entries j)" by (auto simp: part_of_def dest: in_set_takeD split: option.splits)
  then obtain tb where tb: "bindR (grouped_sums (rows_for (part_of j n))) build_trial_balance = Ok tb" "shows_postings tb (upto j n)"
    using grouped_balance [of "part_of j n"] part_valid [OF assms] part_fits(2) [OF inv, where n = n] unfolding upto_part by blast
  obtain tb' where tb': "trial_balance_at j n = Ok tb'" "shows_postings tb' (upto j n)" by (rule trial_balance_at_shows [OF inv])
  then show ?thesis
    unfolding sqlite_trial_balance_def joined_prefix [OF assms] tb(1) tb'(1) shows_unique [OF tb(2) tb'(2)] by simp
qed

lemma side_fits: "side d b \<le> i64_max"
  by (cases d) (simp_all add: side_def amt_range)

lemma sqlite_trial_balance_through_eq:
  assumes "backed E db j"
  shows "sqlite_trial_balance_through db d = map_err SqlMoney (trial_balance_through_date j d)"
proof -
  note inv = backedD(6) [OF assms]
  let ?es = "through d (j_entries j)"
  have part: "set ?es \<subseteq> set (j_entries j)" by (auto simp: through_def)
  obtain tb' where tb': "trial_balance_through_date j d = Ok tb'" "shows_postings tb' (all_postings ?es)"
    using through_total [OF inv, of d] by blast
  have "moved s key (all_postings ?es) \<le> i64_max" for s key
    unfolding shows_side [OF tb'(2), symmetric] by (rule side_fits)
  then obtain tb where tb: "bindR (grouped_sums (rows_for ?es)) build_trial_balance = Ok tb" "shows_postings tb (all_postings ?es)"
    using grouped_balance [of ?es] part_valid [OF assms part] by blast
  then show ?thesis
    unfolding sqlite_trial_balance_through_def joined_through [OF assms] tb(1) tb'(1) shows_unique [OF tb(2) tb'(2)] by simp
qed

end
