(* ===== verification/Sqlite_Appends.thy ===== *)
theory Sqlite_Appends
  imports Sqlite_Balances Registry_Audit
begin

text \<open>
  Appending through the tables is appending to the journal they hold: the inserts of one entry, the
  checks that run before and after them, and the accumulator kept beside the log.
\<close>

section \<open>Inserting the rows of an entry\<close>

lemma insert_dimensions:
  assumes "distinct (map di_axis ds)" "\<forall>r\<in>set ds. slot_of r = at" "\<forall>q\<in>set (db_dimensions db). slot_of q \<noteq> at"
    and "list_ex (\<lambda>q. (po_entry q, po_index q) = at) (db_postings db)"
  shows "try_fold insert_dimension db ds = Ok (db\<lparr>db_dimensions := db_dimensions db @ ds\<rparr>)"
proof -
  have "try_fold insert_dimension (db\<lparr>db_dimensions := db_dimensions db @ done\<rparr>) ds = Ok (db\<lparr>db_dimensions := db_dimensions db @ done @ ds\<rparr>)"
    if "distinct (map di_axis (done @ ds))" "\<forall>r\<in>set (done @ ds). slot_of r = at" for "done"
    using that
  proof (induction ds arbitrary: "done")
    case (Cons r ds)
    have "dimension_row_ok (db\<lparr>db_dimensions := db_dimensions db @ done\<rparr>) r"
      using Cons.prems assms(3,4) by (auto simp: dimension_row_ok_def list_ex_iff) (metis imageI)
    then show ?case using Cons.IH [of "done @ [r]"] Cons.prems by (simp add: insert_dimension_def)
  qed simp
  from this [of "[]"] show ?thesis using assms by simp
qed

text \<open>What the inserts of the postings of a new entry need of the database.\<close>

definition ready_for :: "'a sqlite_db_scheme \<Rightarrow> entry_id \<Rightarrow> (nat \<times> posting) list \<Rightarrow> bool" where
  "ready_for db i kps \<longleftrightarrow>
     (\<forall>k\<in>fst ` set kps. (\<forall>q\<in>set (db_postings db). (po_entry q, po_index q) \<noteq> (uuid_bytes i, int k))
        \<and> (\<forall>q\<in>set (db_dimensions db). slot_of q \<noteq> (uuid_bytes i, int k)))
     \<and> list_ex (\<lambda>e. er_id e = uuid_bytes i) (db_entries db)
     \<and> (\<forall>p\<in>snd ` set kps. list_ex (\<lambda>a. ar_index a = column_account (p_account p)) (db_accounts db) \<and> 0 < amt (p_amount p)
        \<and> valid_dims (p_dimensions p))"

lemma insert_rows:
  assumes "distinct (map fst kps)" "\<forall>k\<in>fst ` set kps. k < 32768" "ready_for db i kps"
  shows "try_fold (insert_with_axes i) db kps
    = Ok (db\<lparr>db_postings := db_postings db @ map (\<lambda>(k, p). posting_row_of i k p) kps,
             db_dimensions := db_dimensions db @ concat (map (\<lambda>(k, p). dimension_rows_of i k p) kps)\<rparr>)"
  using assms
proof (induction kps arbitrary: db)
  case (Cons kp kps)
  obtain k p where kp: "kp = (k, p)" by (cases kp)
  let ?at = "(uuid_bytes i, int k)" and ?row = "posting_row_of i k p" and ?axes = "dimension_rows_of i k p"
  let ?db = "db\<lparr>db_postings := db_postings db @ [?row]\<rparr>" and ?next = "db\<lparr>db_postings := db_postings db @ [?row], db_dimensions := db_dimensions db @ ?axes\<rparr>"
  have k: "i64_or_max k = int k" using Cons.prems(2) kp by simp
  have p: "valid_dims (p_dimensions p)" using Cons.prems(3) kp by (simp add: ready_for_def)
  have "posting_row_ok db ?row"
    using Cons.prems(3) kp k
    by (auto simp: posting_row_ok_def ready_for_def list_ex_iff posting_row_of_def direction_str_def layer_str_def split: direction.split layer.split)
  moreover have "try_fold insert_dimension ?db ?axes = Ok ?next"
  proof -
    have "distinct (map di_axis ?axes)"
    proof -
      have "map di_axis ?axes = map label_str (map fst (bt_iter (axes (p_dimensions p))))"
        by (simp add: dimension_rows_of_def split_beta)
      then show ?thesis
        using bt_distinct [of "axes (p_dimensions p)"]
        by (simp only: distinct_map [of _ "map fst _"]) (simp add: inj_on_def label.expand)
    qed
    then show ?thesis
      using Cons.prems(3) kp k dimension_rows_slot [where i = i and k = k and p = p]
      by (subst insert_dimensions [where at = ?at]) (auto simp: ready_for_def)
  qed
  moreover have "ready_for ?next i kps"
  proof -
    have "ready_for db i kps" using Cons.prems(3) kp by (simp add: ready_for_def)
    moreover have slots: "slot_of q = ?at" if "q \<in> set ?axes" for q using dimension_rows_slot [OF that] k by simp
    moreover have fresh: "k' \<noteq> k" if "k' \<in> fst ` set kps" for k' using Cons.prems(1) kp that by auto
    ultimately show ?thesis using k by (fastforce simp: ready_for_def)
  qed
  ultimately show ?case
    using Cons.IH [of ?next] Cons.prems(1,2) by (simp add: kp insert_with_axes_def insert_posting_def)
qed simp

section \<open>The tables of a longer log\<close>

lemma list_ex_rows: "list_ex P (entry_rows E es) \<longleftrightarrow> (\<exists>n<length es. P (row_at E es n))"
  by (auto simp: entry_rows_at list_ex_iff)

lemma tables_snoc:
  "entry_rows E (es @ [e]) = entry_rows E es @ [row_at E (es @ [e]) (length es)]"
  "posting_rows (es @ [e]) = posting_rows es @ map (\<lambda>(k, p). posting_row_of (e_id e) k p) (enumerate 0 (e_postings e))"
  "axis_rows (es @ [e]) = axis_rows es @ concat (map (\<lambda>(k, p). dimension_rows_of (e_id e) k p) (enumerate 0 (e_postings e)))"
proof -
  have "row_at E (es @ [e]) n = row_at E es n" if "n < length es" for n
    using that by (simp add: row_at_def root_through_def nth_append)
  then show "entry_rows E (es @ [e]) = entry_rows E es @ [row_at E (es @ [e]) (length es)]"
    unfolding entry_rows_at by (simp cong: map_cong)
  show "posting_rows (es @ [e]) = posting_rows es @ map (\<lambda>(k, p). posting_row_of (e_id e) k p) (enumerate 0 (e_postings e))"
    by (simp add: posting_rows_def split_beta)
  show "axis_rows (es @ [e]) = axis_rows es @ concat (map (\<lambda>(k, p). dimension_rows_of (e_id e) k p) (enumerate 0 (e_postings e)))"
    by (simp add: axis_rows_def comp_def split_def)
qed

section \<open>The accumulator kept beside the log\<close>

lemma subtrees_stored:
  assumes "good_acc b3 acc ls" "length ls \<le> u64_max"
  shows "distinct (map sr_height (subtree_rows acc))" "sort_key sr_position (subtree_rows acc) = subtree_rows acc"
    "\<forall>s\<in>set (subtrees acc). fst s < 64" "length (subtrees acc) \<le> 64"
proof -
  have heights: "map fst (subtrees acc) = filter (bit (acc_size acc)) (rev [0..<64])"
    using good_acc_cover [OF assms] by (simp add: cover_of_def)
  have "map sr_height (subtree_rows acc) = map int (map fst (subtrees acc))"
    by (intro nth_equalityI) (simp_all add: subtree_rows_def nth_enumerate_eq split_beta)
  then show "distinct (map sr_height (subtree_rows acc))"
    unfolding heights by (simp add: distinct_map inj_on_def)
  show small: "\<forall>s\<in>set (subtrees acc). fst s < 64"
  proof
    fix s
    assume "s \<in> set (subtrees acc)"
    then have "fst s \<in> set (map fst (subtrees acc))" by simp
    then show "fst s < 64" unfolding heights by simp
  qed
  have "length (map fst (subtrees acc)) \<le> length (rev [0..<64])" unfolding heights by (rule length_filter_le)
  then show len: "length (subtrees acc) \<le> 64" by simp
  show "sort_key sr_position (subtree_rows acc) = subtree_rows acc"
    by (rule sort_key_id_if_sorted) (use len in \<open>simp add: subtree_rows_def sorted_iff_nth_mono nth_enumerate_eq split_beta i64_or_max_def i64_max_def\<close>)
qed

lemma stored_accumulator:
  assumes log: "good_acc b3 acc ls" and len: "length ls \<le> u64_max"
    and "db_subtrees db = subtree_rows acc" "length (filter (\<lambda>r. er_index r \<noteq> None) (db_entries db)) = length ls"
  shows "load_accumulator db = Ok acc"
proof -
  note st = subtrees_stored [OF log len]
  have small: "fst (subtrees acc ! n) < 256" if "n < length (subtrees acc)" for n
    using st(3) nth_mem [OF that] by fastforce
  have "try_map (\<lambda>r. bindR (sql_hash (sr_node r)) (\<lambda>h. Ok (if 0 \<le> sr_height r \<and> sr_height r < 256 then nat (sr_height r) else 0, h))) (subtree_rows acc)
      = Ok (map (\<lambda>(pos, s). s) (enumerate 0 (subtrees acc)))"
    unfolding subtree_rows_def try_map_map
    by (rule try_map_total) (use small in \<open>fastforce simp: in_set_enumerate_eq split_beta\<close>)
  moreover have "map (\<lambda>(pos, s). s) (enumerate 0 (subtrees acc)) = subtrees acc"
    by (intro nth_equalityI) (simp_all add: nth_enumerate_eq)
  moreover have "acc_size acc = length ls" using log by (auto simp: good_acc_def)
  moreover have "try_from_parts (subtrees acc) (acc_size acc) = Ok acc"
    using good_acc_cover [OF log len] by (simp add: try_from_parts_def Let_def)
  ultimately show ?thesis using assms(4) by (simp add: load_accumulator_def assms(3) st(2))
qed

lemma load_accumulator_eq:
  assumes "backed E db j"
  shows "load_accumulator db = Ok (accumulator (j_log j))"
proof (rule stored_accumulator)
  note b = backedD [OF assms]
  show "good_acc (env_b3 E) (accumulator (j_log j)) (map (content_hash E) (j_entries j))"
    using derived_okD(4) [OF journal_invD(1) [OF b(6)]] by (metis log_ok_def good_log_def)
  show "length (map (content_hash E) (j_entries j)) \<le> u64_max" using journal_invD(3) [OF b(6)] by simp
  show "db_subtrees db = subtree_rows (accumulator (j_log j))" by (rule b(5))
  show "length (filter (\<lambda>r. er_index r \<noteq> None) (db_entries db)) = length (map (content_hash E) (j_entries j))"
    using sqlite_len_eq [OF b(2)] by (simp add: sqlite_len_def)
qed

lemma find_some: "find P xs = Some x \<Longrightarrow> x \<in> set xs \<and> P x"
  by (auto simp: find_Some_iff)

section \<open>Limits\<close>

lemma account_rows:
  assumes "reachable_registry r"
  shows "a \<in> set (map account_row_of (records r)) \<and> ar_index a = column_account i
    \<longleftrightarrow> (\<exists>acct. reg_get r i = Some acct \<and> a = account_row_of \<lparr>r_id = i, r_account = acct\<rparr>)"
proof -
  have "length (accounts r) \<le> 4294967296" using reachable_inv [OF assms] by (simp add: reg_inv_def reg_len_def)
  then have handles: "idx (handle_at n) = n" if "n < length (accounts r)" for n using that by simp
  have listed_records: "records r = map (\<lambda>n. \<lparr>r_id = handle_at n, r_account = accounts r ! n\<rparr>) [0..<length (accounts r)]"
    by (intro nth_equalityI) (simp_all add: records_def nth_enumerate_eq)
  have "rec \<in> set (records r) \<longleftrightarrow> (\<exists>n<length (accounts r). rec = \<lparr>r_id = handle_at n, r_account = accounts r ! n\<rparr>)" for rec
    unfolding listed_records by auto
  also have "\<dots> rec \<longleftrightarrow> reg_get r (r_id rec) = Some (r_account rec)" for rec
    by (cases rec) (auto simp: reg_get_def handles intro!: exI [of _ "idx (r_id rec)"])
  finally have "rec \<in> set (records r) \<longleftrightarrow> reg_get r (r_id rec) = Some (r_account rec)" for rec .
  note known = this
  show ?thesis
  proof
    assume "a \<in> set (map account_row_of (records r)) \<and> ar_index a = column_account i"
    then obtain rec where rec: "rec \<in> set (records r)" "a = account_row_of rec" "r_id rec = i" by (auto simp: account_row_of_def)
    then have "rec = \<lparr>r_id = i, r_account = r_account rec\<rparr>" by (intro account_record.equality) simp_all
    then show "\<exists>acct. reg_get r i = Some acct \<and> a = account_row_of \<lparr>r_id = i, r_account = acct\<rparr>"
      using rec known [of rec] by metis
  next
    assume "\<exists>acct. reg_get r i = Some acct \<and> a = account_row_of \<lparr>r_id = i, r_account = acct\<rparr>"
    then obtain acct where acct: "reg_get r i = Some acct" "a = account_row_of \<lparr>r_id = i, r_account = acct\<rparr>" by blast
    then have "\<lparr>r_id = i, r_account = acct\<rparr> \<in> set (records r)" using known [of "\<lparr>r_id = i, r_account = acct\<rparr>"] by simp
    then have "a \<in> set (map account_row_of (records r))" unfolding acct(2) list.set_map by (rule imageI)
    then show "a \<in> set (map account_row_of (records r)) \<and> ar_index a = column_account i"
      by (simp add: acct(2)) (simp add: account_row_of_def)
  qed
qed

lemma sql_sum_signed:
  assumes "sum_list (map (max 0) xs) \<le> i64_max" "sum_list (map (\<lambda>x. max 0 (- x)) xs) \<le> i64_max"
  shows "sql_sum xs = Ok (sum_list xs)"
proof -
  have "try_fold (\<lambda>acc x. if in_i64 (acc + x) then Ok (acc + x) else Err SqlDatabase) a xs = Ok (a + sum_list xs)"
    if "a + sum_list (map (max 0) xs) \<le> i64_max" "i64_min \<le> a - sum_list (map (\<lambda>x. max 0 (- x)) xs)" for a
    using that
  proof (induction xs arbitrary: a)
    case (Cons x xs)
    have "0 \<le> sum_list (map (max 0) xs)" "0 \<le> sum_list (map (\<lambda>x. max 0 (- x)) xs)" by (rule sum_list_nonneg; auto)+
    then have "in_i64 (a + x)" "a + x + sum_list (map (max 0) xs) \<le> i64_max" "i64_min \<le> a + x - sum_list (map (\<lambda>x. max 0 (- x)) xs)"
      using Cons.prems by (cases "0 \<le> x"; simp add: in_i64_def max_absorb1 max_absorb2)+
    then show ?case using Cons.IH [of "a + x"] by (simp add: add.assoc)
  qed simp
  from this [of 0] show ?thesis using assms by (simp add: sql_sum_def i64_min_def i64_max_def)
qed

definition row_net :: "posting_row \<Rightarrow> int" where
  "row_net r = (if po_direction r = lit ''D'' then po_amount r else - po_amount r)"

definition row_sum :: "direction \<Rightarrow> posting_row list \<Rightarrow> int" where
  "row_sum d rows = sum_list (map po_amount (filter (\<lambda>r. po_direction r = direction_str d) rows))"

lemma row_sums:
  assumes "\<forall>r\<in>set rows. 0 < po_amount r \<and> (po_direction r = lit ''D'' \<or> po_direction r = lit ''C'')"
  shows "sum_list (map row_net rows) = row_sum Debit rows - row_sum Credit rows"
    "sum_list (map (\<lambda>r. max 0 (row_net r)) rows) = row_sum Debit rows"
    "sum_list (map (\<lambda>r. max 0 (- row_net r)) rows) = row_sum Credit rows"
  using assms by (induction rows) (auto simp: row_net_def row_sum_def direction_str_def)

lemma limit_kept:
  assumes "reachable_registry r" "db_accounts db = map account_row_of (records r)" "db_postings db = posting_rows es"
    and "\<forall>p\<in>set (all_postings es). 0 < amt (p_amount p)" "\<And>d. moved d key (all_postings es) \<le> i64_max"
    and "within_limit (limit_of r (k_account key)) (all_postings es) key"
  shows "sqlite_check_limit db key = Ok ()"
proof (cases "find (\<lambda>a. ar_index a = column_account (k_account key) \<and> ar_limit a \<noteq> lit ''unlimited'') (db_accounts db)")
  case (Some a)
  then have "a \<in> set (map account_row_of (records r))" "ar_index a = column_account (k_account key)"
    by (auto simp: assms(2) find_Some_iff)
  then obtain acct where "reg_get r (k_account key) = Some acct" "a = account_row_of \<lparr>r_id = k_account key, r_account = acct\<rparr>"
    using account_rows [OF assms(1)] by blast
  then have limit: "limit_from_code (ar_limit a) = Some (limit_of r (k_account key))"
    by (simp add: account_row_of_def limit_of_def)
  let ?rows = "filter (posting_matches key) (rows_for es)"
  have "po_direction q = lit ''D'' \<or> po_direction q = lit ''C''" if "q \<in> set (rows_for es)" for q
    using that by (auto simp: rows_for_def rows_of_def direction_str_def split: direction.split)
  then have "\<forall>q\<in>set ?rows. 0 < po_amount q \<and> (po_direction q = lit ''D'' \<or> po_direction q = lit ''C'')"
    using rows_positive [OF assms(4)] by simp
  note sums = row_sums [OF this]
  have moved: "row_sum d ?rows = moved d key (all_postings es)" for d unfolding row_sum_def by (rule sum_on_key)
  have "sql_sum (map row_net ?rows) = Ok (sum_list (map row_net ?rows))"
    by (rule sql_sum_signed) (simp_all only: map_map comp_def sums moved assms(5))
  then have "sql_sum (map row_net ?rows) = Ok (moved Debit key (all_postings es) - moved Credit key (all_postings es))"
    by (simp only: sums moved)
  moreover have "db_postings db = rows_for es" by (simp add: assms(3) posting_rows_concat rows_for_def)
  ultimately show ?thesis
    using assms(6) by (simp add: sqlite_check_limit_def Some limit within_limit_def flip: row_net_def split: balance_limit.splits)
qed (simp add: sqlite_check_limit_def)

lemma limits_kept:
  assumes "\<And>key. key \<in> keys_of (e_postings e) \<Longrightarrow> sqlite_check_limit db key = Ok ()"
  shows "sqlite_check_limits db e = Ok ()"
proof -
  have "\<exists>seen'. try_fold (\<lambda>seen p. let key = key_of_posting p in
         if key \<in> set seen then Ok seen else bindR (sqlite_check_limit db key) (\<lambda>_. Ok (key # seen))) seen ps = Ok seen'"
    if "\<forall>p\<in>set ps. sqlite_check_limit db (key_of_posting p) = Ok ()" for seen ps
    using that by (induction ps arbitrary: seen) (simp_all add: Let_def)
  then show ?thesis using assms by (fastforce simp: sqlite_check_limits_def)
qed

section \<open>What the tables ask of an entry\<close>

text \<open>The foreign key of the postings: every account an entry posts to is in the chart.\<close>

definition accounts_known :: "registry \<Rightarrow> entry \<Rightarrow> bool" where
  "accounts_known r e \<longleftrightarrow> (\<forall>p\<in>set (e_postings e). reg_get r (p_account p) \<noteq> None)"

text \<open>
  The retries the tables replay as the journal does. The journal looks at the key of an entry first; the
  tables check before it that the identifier does not stand under another key and that a reversal is the
  one recorded. So an identifier is not reused under another key, and a reversal is retried as it was
  recorded; any other entry may be retried under a fresh identifier.
\<close>

definition retries_ok :: "entry list \<Rightarrow> entry list \<Rightarrow> bool" where
  "retries_ok es batch \<longleftrightarrow> (\<forall>e\<in>set batch. \<forall>f\<in>set es \<union> set batch.
     (e_id f = e_id e \<longrightarrow> e_key f = e_key e) \<and> (e_reverses e \<noteq> None \<longrightarrow> e_key f = e_key e \<longrightarrow> f = e))"

section \<open>One entry\<close>

text \<open>In the middle of a call the stored accumulator is that of the log before it.\<close>

definition mid_append :: "env \<Rightarrow> 'a sqlite_db_scheme \<Rightarrow> journal \<Rightarrow> bool" where
  "mid_append E db j \<longleftrightarrow> backed E (db\<lparr>db_subtrees := subtree_rows (accumulator (j_log j))\<rparr>) j"

lemma mid_appendD:
  assumes "mid_append E db j"
  shows "db_accounts db = map account_row_of (records (j_accounts j))" "db_entries db = entry_rows E (j_entries j)"
    "db_postings db = posting_rows (j_entries j)" "db_dimensions db = axis_rows (j_entries j)"
    "journal_inv E j" "stored_list (j_entries j)" "int (length (j_entries j)) \<le> i64_max"
  using backedD(1-4,6-8) [OF assms [unfolded mid_append_def]] by simp_all

lemma reversal_passes:
  assumes "mid_append E db j" "t \<in> set (j_entries j)" "e_id t = original" "e_reverses t = None" "is_inversion_of t e"
    and "\<forall>f\<in>set (j_entries j). e_reverses f = Some original \<longrightarrow> e_id f = e_id e"
  shows "sqlite_check_reversal db e original = Ok ()"
proof -
  note m = mid_appendD [OF assms(1)]
  let ?es = "j_entries j"
  obtain n where n: "n < length ?es" "?es ! n = t" using assms(2) by (auto simp: in_set_conv_nth)
  have target: "find (\<lambda>r. er_id r = uuid_bytes original) (db_entries db) = Some (row_at E ?es n)"
    using find_row_id [OF m(6) n(1), of E] n(2) assms(3) m(2) by simp
  have other: "er_id x = uuid_bytes (e_id e)" if found: "find (\<lambda>r. er_reverses r = Some (uuid_bytes original)) (db_entries db) = Some x" for x
  proof -
    obtain k where "k < length ?es" "x = row_at E ?es k" "e_reverses (?es ! k) = Some original"
      using find_some [OF found] by (auto simp: m(2) entry_rows_at)
    then show ?thesis using assms(6) by simp
  qed
  have "load_postings_tx db (uuid_bytes original) = Ok (e_postings t)"
    using postings_tx_read_back [OF m(6,3,4) assms(2)] assms(3) by simp
  then show ?thesis
    using assms(4,5) n(2) other assms(3)
    by (auto simp: sqlite_check_reversal_def target is_inversion_of_def Let_def split: option.split)
qed

text \<open>A new entry.\<close>

lemma new_row_ok:
  assumes "mid_append E db j" "storable e" "e_id e \<notin> e_id ` set (j_entries j)"
    and "\<forall>original. e_reverses e = Some original \<longrightarrow> (\<forall>f\<in>set (j_entries j). e_reverses f \<noteq> Some original)"
    and "e_key e \<notin> e_key ` set (j_entries j)"
  defines "row \<equiv> row_at E (j_entries j @ [e]) (length (j_entries j))"
  shows "insert_entry row db = Ok (Some (Some (int (length (j_entries j))), db\<lparr>db_entries := db_entries db @ [row]\<rparr>))"
proof -
  note m = mid_appendD [OF assms(1)]
  let ?es = "j_entries j"
  have key: "\<not> list_ex (\<lambda>q. er_key q = er_key row) (db_entries db)"
    using assms(5) by (auto simp: m(2) list_ex_rows row_def) (metis idempotency_key.expand image_eqI nth_mem)
  have others: "\<not> (er_id q = er_id row \<or> (er_index row \<noteq> None \<and> er_index q = er_index row)
      \<or> (er_reverses row \<noteq> None \<and> er_reverses q = er_reverses row))" if "n < length ?es" "q = row_at E ?es n" for q n
  proof -
    have "?es ! n \<in> set ?es" using that(1) by simp
    then have "e_id (?es ! n) \<noteq> e_id e" "\<forall>original. e_reverses e = Some original \<longrightarrow> e_reverses (?es ! n) \<noteq> Some original"
      using assms(3,4) by (auto simp: image_iff)
    then show ?thesis using that by (auto simp: row_def)
  qed
  have own: "er_document row \<noteq> None \<or> er_document_hash row = None" "er_reverses row = None \<longleftrightarrow> er_original row = None"
    using assms(2) by (cases "e_document e"; simp add: row_def row_at_def entry_row_of_def storable_def)+
  have "entry_row_ok (db_entries db) row"
    unfolding entry_row_ok_def m(2) list_ex_rows using others own by (simp add: row_def)
  then show ?thesis using key by (simp add: insert_entry_def) (simp add: row_def)
qed

lemma new_entry_ready:
  assumes "mid_append E db j" "storable e" "e_id e \<notin> e_id ` set (j_entries j)" "sound_entry e" "accounts_known (j_accounts j) e"
    and "er_id row = uuid_bytes (e_id e)"
  shows "ready_for (db\<lparr>db_entries := db_entries db @ [row]\<rparr>) (e_id e) (enumerate 0 (e_postings e))"
proof -
  note m = mid_appendD [OF assms(1)]
  have gone: "e_id f \<noteq> e_id e" if "f \<in> set (j_entries j)" for f using assms(3) that by (metis image_eqI)
  have old: "po_entry q \<noteq> uuid_bytes (e_id e)" if "q \<in> set (db_postings db)" for q
    using that assms(3) rows_of_entry by (auto simp: m(3) posting_rows_concat) (metis image_eqI)
  have old_axes: "di_entry q \<noteq> uuid_bytes (e_id e)" if q: "q \<in> set (db_dimensions db)" for q
  proof -
    obtain i k p where "(i, k, p) \<in> set (located (j_entries j))" "slot_of q = (uuid_bytes i, i64_or_max k)"
      by (rule axis_row_from [OF q [unfolded m(4)]])
    then show ?thesis using gone by (auto simp: located_iff)
  qed
  have "list_ex (\<lambda>a. ar_index a = column_account (p_account p)) (db_accounts db) \<and> 0 < amt (p_amount p) \<and> valid_dims (p_dimensions p)"
    if p: "p \<in> set (e_postings e)" for p
  proof -
    have pos: "0 < amt (p_amount p)" using assms(4) p by (simp add: sound_entry_def)
    obtain acct where "reg_get (j_accounts j) (p_account p) = Some acct" using assms(5) p by (auto simp: accounts_known_def)
    then have "\<exists>a. a \<in> set (db_accounts db) \<and> ar_index a = column_account (p_account p)"
      unfolding m(1) account_rows [OF journal_invD(5) [OF m(5)]] by blast
    then have "list_ex (\<lambda>a. ar_index a = column_account (p_account p)) (db_accounts db)" by (auto simp: list_ex_iff)
    then show ?thesis using pos storable_parts(1) [OF assms(2) p] by (simp add: valid_posting_def)
  qed
  then show ?thesis using old old_axes assms(6) by (auto simp: ready_for_def in_set_enumerate_eq)
qed

lemma projected_accumulator:
  assumes "journal_inv E j" "journal_inv E k" "j_entries k = j_entries j @ [e]" "length (j_entries j) < u64_max"
  shows "snd (acc_push (env_b3 E) (accumulator (j_log j)) (content_hash E e)) = accumulator (j_log k)"
    "acc_root (env_b3 E) (accumulator (j_log k)) = root_through E (j_entries j @ [e]) (length (j_entries j))"
proof -
  have log: "good_acc (env_b3 E) (accumulator (j_log l)) (map (content_hash E) (j_entries l))" if "journal_inv E l" for l
    using derived_okD(4) [OF journal_invD(1) [OF that]] by (metis log_ok_def good_log_def)
  have "good_acc (env_b3 E) (snd (acc_push (env_b3 E) (accumulator (j_log j)) (content_hash E e))) (map (content_hash E) (j_entries j) @ [content_hash E e])"
    by (rule acc_push_good(1) [OF log [OF assms(1)]]) (use assms(4) in simp)
  then show "snd (acc_push (env_b3 E) (accumulator (j_log j)) (content_hash E e)) = accumulator (j_log k)"
    using log [OF assms(2)] good_acc_unique by (simp add: assms(3))
  show "acc_root (env_b3 E) (accumulator (j_log k)) = root_through E (j_entries j @ [e]) (length (j_entries j))"
    using acc_root_mth [OF log [OF assms(2)]] by (simp add: root_through_def assms(3))
qed

lemma append_new:
  assumes "mid_append E db j" "storable e" "bookable (j_accounts j) (j_entries j) e" "e_key e \<notin> e_key ` set (j_entries j)"
    and "int (Suc (length (j_entries j))) \<le> i64_max" "journal_inv E k" "j_entries k = j_entries j @ [e]" "same_rest k j"
    and "sound_entry e" "accounts_known (j_accounts j) e"
  shows "\<exists>db'. append_one E e (db, int (length (j_entries j)), accumulator (j_log j))
      = Ok (\<lparr>rec_id = e_id e, rec_index = Some (length (j_entries j)), rec_hash = content_hash E e, rec_new = True\<rparr>,
            db', int (length (j_entries k)), accumulator (j_log k)) \<and> mid_append E db' k"
proof -
  note m = mid_appendD [OF assms(1)]
  let ?es = "j_entries j" and ?n = "length (j_entries j)"
  have ok: "e_id e \<notin> e_id ` set ?es" "reversal_allowed ?es e"
      "\<And>key d. moved d key (all_postings (?es @ [e])) \<le> i64_max"
      "\<And>key. key \<in> keys_of (e_postings e) \<Longrightarrow> within_limit (limit_of (j_accounts j) (k_account key)) (all_postings (?es @ [e])) key"
    using assms(3) unfolding bookable_def by blast+
  have small: "?n < u64_max" using assms(5) by (simp add: i64_max_def u64_max_def)
  note acc = projected_accumulator [OF m(5) assms(6,7) small]
  define row where "row = row_at E (?es @ [e]) ?n"
  have row: "entry_row_of E (int ?n) (acc_root (env_b3 E) (snd (acc_push (env_b3 E) (accumulator (j_log j)) (content_hash E e)))) e = row"
    unfolding acc row_def row_at_def by simp
  let ?db1 = "db\<lparr>db_entries := db_entries db @ [row]\<rparr>"
  let ?db2 = "db\<lparr>db_entries := entry_rows E (?es @ [e]), db_postings := posting_rows (?es @ [e]), db_dimensions := axis_rows (?es @ [e])\<rparr>"
  have fresh: "\<not> list_ex (\<lambda>r. er_id r = uuid_bytes (e_id e) \<and> er_key r \<noteq> key_bytes (e_key e)) (db_entries db)"
    using ok(1) by (auto simp: m(2) list_ex_rows) (metis image_eqI nth_mem)
  have rev: "sqlite_check_reversal db e original = Ok ()" if "e_reverses e = Some original" for original
  proof -
    obtain t where "t \<in> set ?es" "e_id t = original" "e_reverses t = None" "is_inversion_of t e" "\<forall>f\<in>set ?es. e_reverses f \<noteq> Some original"
      using ok(2) \<open>e_reverses e = Some original\<close> unfolding reversal_allowed_def by blast
    then show ?thesis by (intro reversal_passes [OF assms(1)]) auto
  qed
  have inserted: "insert_entry row db = Ok (Some (Some (int ?n), ?db1))"
    unfolding row_def by (rule new_row_ok [OF assms(1,2) ok(1) _ assms(4)]) (use ok(2) in \<open>auto simp: reversal_allowed_def\<close>)
  have len: "length (e_postings e) \<le> 32767" using storable_parts(2) [OF assms(2)] by (simp add: max_postings_def)
  have "try_fold (insert_with_axes (e_id e)) ?db1 (enumerate 0 (e_postings e)) = Ok ?db2"
    unfolding tables_snoc
    by (subst insert_rows) (use len new_entry_ready [OF assms(1,2) ok(1) assms(9,10), of row] in \<open>auto simp: row_def m in_set_enumerate_eq\<close>)
  moreover have "sqlite_check_limits ?db2 e = Ok ()"
  proof (rule limits_kept)
    fix key
    assume key: "key \<in> keys_of (e_postings e)"
    have "\<forall>p\<in>set (all_postings (?es @ [e])). 0 < amt (p_amount p)"
      using moved_part [OF assms(6), of "?es @ [e]"] assms(7) by simp
    then show "sqlite_check_limit ?db2 key = Ok ()"
      using ok(3,4) key journal_invD(5) [OF m(5)] by (intro limit_kept [of "j_accounts j" _ "?es @ [e]"]) (simp_all add: m(1))
  qed
  moreover have "mid_append E ?db2 k"
  proof -
    have "storable f" if "f \<in> set (?es @ [e])" for f using m(6) assms(2) that by (auto simp: stored_list_def)
    then show ?thesis using assms(5-8) m(1) by (simp add: mid_append_def backed_def db_shows_def same_rest_def)
  qed
  moreover have "min i64_max (int ?n + 1) = int (length (j_entries k))" using assms(5,7) by simp
  ultimately show ?thesis
    using fresh rev inserted row acc(1)
    by (intro exI [of _ ?db2]) (simp add: append_one_def Let_def u64_or_zero_def split: option.split)
qed

section \<open>A retry\<close>

text \<open>An entry whose key and content are already in the log, submitted again, changes nothing.\<close>

lemma reversal_links_at:
  assumes "journal_inv E j" "e \<in> set (j_entries j)" "e_reverses e = Some original"
  shows "\<exists>t\<in>set (j_entries j). e_id t = original \<and> e_reverses t = None \<and> is_inversion_of t e"
    "\<forall>f\<in>set (j_entries j). e_reverses f = Some original \<longrightarrow> e_id f = e_id e"
proof -
  obtain m where m: "m < length (j_entries j)" "j_entries j ! m = e" using assms(2) by (auto simp: in_set_conv_nth)
  then show "\<exists>t\<in>set (j_entries j). e_id t = original \<and> e_reverses t = None \<and> is_inversion_of t e"
    using journal_invD(4) [OF assms(1)] assms(3) unfolding reversal_links_def by (metis nth_mem order_less_trans)
  have "reversal_of j original = Some (e_id f)" if "f \<in> set (j_entries j)" "e_reverses f = Some original" for f
    using that reversal_of_iff [OF assms(1)] by (auto simp: in_set_conv_nth entry_at_def)
  from this [OF assms(2,3)] this show "\<forall>f\<in>set (j_entries j). e_reverses f = Some original \<longrightarrow> e_id f = e_id e" by fastforce
qed

lemma append_retry:
  assumes "mid_append E db j" "n < length (j_entries j)" "e_key (j_entries j ! n) = e_key e"
    and "content_hash E (j_entries j ! n) = content_hash E e"
    and "\<forall>f\<in>set (j_entries j). e_id f = e_id e \<longrightarrow> e_key f = e_key e" "e_reverses e \<noteq> None \<longrightarrow> e = j_entries j ! n"
  shows "append_one E e (db, int (length (j_entries j)), acc)
    = Ok (\<lparr>rec_id = e_id (j_entries j ! n), rec_index = Some n, rec_hash = content_hash E e, rec_new = False\<rparr>, db, int (length (j_entries j)), acc)"
proof -
  note m = mid_appendD [OF assms(1)]
  let ?es = "j_entries j"
  have key: "k = n" if "k < length ?es" "e_key (?es ! k) = e_key e" for k
  proof -
    have "bt_get (j_by_key j) (e_key e) = Some (e_id (?es ! i), i, content_hash E (?es ! i))" if "i < length ?es" "e_key (?es ! i) = e_key e" for i
      using derived_okD(2) [OF journal_invD(1) [OF m(5)]] that by (auto simp: keys_ok_def)
    from this [OF that] this [OF assms(2,3)] show ?thesis by simp
  qed
  have fresh: "\<not> list_ex (\<lambda>r. er_id r = uuid_bytes (e_id e) \<and> er_key r \<noteq> key_bytes (e_key e)) (db_entries db)"
    using assms(5) by (auto simp: m(2) list_ex_rows)
  have rev: "sqlite_check_reversal db e original = Ok ()" if "e_reverses e = Some original" for original
  proof -
    have e: "e \<in> set ?es" using assms(2,6) that by simp
    note links = reversal_links_at [OF m(5) e that]
    obtain t where "t \<in> set ?es" "e_id t = original" "e_reverses t = None" "is_inversion_of t e"
      using links(1) by blast
    then show ?thesis using links(2) by (rule reversal_passes [OF assms(1)])
  qed
  have row: "find (\<lambda>r. er_key r = key_bytes (e_key e)) (db_entries db) = Some (row_at E ?es n)"
    unfolding m(2) entry_rows_at
  proof (rule find_upt)
    fix k
    assume k: "k < length ?es"
    have "key_bytes (e_key (?es ! k)) = key_bytes (e_key e) \<longleftrightarrow> e_key (?es ! k) = e_key e"
      by (cases "e_key (?es ! k)"; cases "e_key e") simp
    also have "\<dots> \<longleftrightarrow> k = n" using key [OF k] assms(3) by blast
    finally show "er_key (row_at E ?es k) = key_bytes (e_key e) \<longleftrightarrow> k = n" by simp
  qed (rule assms(2))
  then have "list_ex (\<lambda>q. er_key q = key_bytes (e_key e)) (db_entries db)" using find_some by (fastforce simp: list_ex_iff)
  then show ?thesis
    using fresh rev row assms(4)
    by (simp add: append_one_def Let_def insert_entry_def entry_row_of_def stored_replay_def u64_or_zero_def split: option.split)
qed

section \<open>A batch\<close>

lemma append_one_refines:
  assumes "mid_append E db j" "storable e" "was_sealed E e" "accounts_known (j_accounts j) e"
    and "\<forall>f\<in>set (j_entries j). (e_id f = e_id e \<longrightarrow> e_key f = e_key e) \<and> (e_reverses e \<noteq> None \<longrightarrow> e_key f = e_key e \<longrightarrow> f = e)"
    and "int (Suc (length (j_entries j))) \<le> i64_max" "record_validated E e j = (Ok r, k)"
  shows "\<exists>db'. append_one E e (db, int (length (j_entries j)), accumulator (j_log j))
      = Ok (r, db', int (length (j_entries k)), accumulator (j_log k)) \<and> mid_append E db' k
      \<and> (k = j \<or> j_entries k = j_entries j @ [e]) \<and> same_rest k j"
proof -
  note inv = mid_appendD(5) [OF assms(1)] and sound = was_sealed_sound [OF assms(3)]
  have small: "length (j_entries j) < u64_max" using assms(6) by (simp add: i64_max_def u64_max_def)
  show ?thesis
  proof (cases "bt_get (j_by_key j) (e_key e)")
    case (Some found)
    then obtain n where n: "n < length (j_entries j)" "found = (e_id (j_entries j ! n), n, content_hash E (j_entries j ! n))" "e_key (j_entries j ! n) = e_key e"
      using derived_okD(2) [OF journal_invD(1) [OF inv]] by (cases found) (auto simp: keys_ok_def)
    have r: "content_hash E (j_entries j ! n) = content_hash E e" "k = j"
        "r = \<lparr>rec_id = e_id (j_entries j ! n), rec_index = Some n, rec_hash = content_hash E e, rec_new = False\<rparr>"
      using assms(7) n(2) by (auto simp: record_validated_seen [OF Some] replay_def split: if_splits)
    have "e_reverses e \<noteq> None \<longrightarrow> e = j_entries j ! n" using assms(5) n by (metis nth_mem)
    then show ?thesis using append_retry [OF assms(1) n(1,3) r(1)] assms(1,5) r(2,3) by (auto simp: same_rest_def)
  next
    case None
    then have key: "e_key e \<notin> e_key ` set (j_entries j)" using keys_absent [OF derived_okD(2) [OF journal_invD(1) [OF inv]]] by simp
    then have rec: "bookable (j_accounts j) (j_entries j) e" "j_entries k = j_entries j @ [e]"
        "r = \<lparr>rec_id = e_id e, rec_index = Some (length (j_entries j)), rec_hash = content_hash E e, rec_new = True\<rparr>"
      using validated_outcome [OF inv small sound key] assms(7) by (auto split: if_splits)
    have "same_rest k j" using record_validated_grows [OF journal_invD(1) [OF inv] small assms(7)] by blast
    moreover have "journal_inv E k" using record_validated_inv [OF inv small sound assms(7)] .
    ultimately show ?thesis using append_new [OF assms(1,2) rec(1) key assms(6) _ rec(2) _ sound assms(4)] rec(2,3) by auto
  qed
qed

lemma retries_step:
  assumes "retries_ok es (e # batch)" "set es' \<subseteq> insert e (set es)"
  shows "retries_ok es' batch"
  unfolding retries_ok_def
proof (intro ballI)
  fix g f
  assume g: "g \<in> set batch" and "f \<in> set es' \<union> set batch"
  then have "f \<in> set es \<union> set (e # batch)" using assms(2) by auto
  then show "(e_id f = e_id g \<longrightarrow> e_key f = e_key g) \<and> (e_reverses g \<noteq> None \<longrightarrow> e_key f = e_key g \<longrightarrow> f = g)"
    using assms(1) g unfolding retries_ok_def by (meson list.set_intros(2))
qed

lemma append_all_refines:
  assumes "mid_append E db j" "\<forall>e\<in>set es. storable e \<and> was_sealed E e \<and> accounts_known (j_accounts j) e"
    and "retries_ok (j_entries j) es"
    and "int (length (j_entries j) + length es) \<le> i64_max" "record_all E mark out es j = (Ok rs, k)"
  shows "\<exists>new db'. rs = out @ new \<and> mid_append E db' k
    \<and> append_all E es (db, int (length (j_entries j)), accumulator (j_log j)) = Ok (new, db', int (length (j_entries k)), accumulator (j_log k))"
  using assms
proof (induction es arbitrary: db j out)
  case (Cons e es)
  obtain res j1 where r: "record_validated E e j = (res, j1)" by fastforce
  then obtain r where res: "res = Ok r" using Cons.prems(5) by (cases res) auto
  have small: "int (Suc (length (j_entries j))) \<le> i64_max" using Cons.prems(4) by simp
  have ready: "storable e" "was_sealed E e" "accounts_known (j_accounts j) e" using Cons.prems(2) by simp_all
  have "\<forall>f\<in>set (j_entries j). (e_id f = e_id e \<longrightarrow> e_key f = e_key e) \<and> (e_reverses e \<noteq> None \<longrightarrow> e_key f = e_key e \<longrightarrow> f = e)"
    using Cons.prems(3) by (simp add: retries_ok_def)
  then obtain db1 where one: "append_one E e (db, int (length (j_entries j)), accumulator (j_log j)) = Ok (r, db1, int (length (j_entries j1)), accumulator (j_log j1))"
      "mid_append E db1 j1" "j1 = j \<or> j_entries j1 = j_entries j @ [e]" "same_rest j1 j"
    using append_one_refines [OF Cons.prems(1) ready _ small r [unfolded res]] by blast
  have keys: "retries_ok (j_entries j1) es"
    by (rule retries_step [OF Cons.prems(3)]) (use one(3) in auto)
  have all: "\<forall>e\<in>set es. storable e \<and> was_sealed E e \<and> accounts_known (j_accounts j1) e"
    using Cons.prems(2) one(4) by (simp add: same_rest_def)
  have rest: "record_all E mark (out @ [r]) es j1 = (Ok rs, k)" using Cons.prems(5) r res by simp
  have "int (length (j_entries j1) + length es) \<le> i64_max" using Cons.prems(4) one(3) by auto
  then obtain new db' where "rs = (out @ [r]) @ new" "mid_append E db' k"
      "append_all E es (db1, int (length (j_entries j1)), accumulator (j_log j1)) = Ok (new, db', int (length (j_entries k)), accumulator (j_log k))"
    using Cons.IH [OF one(2) all keys _ rest] by blast
  then show ?case using one(1) by (intro exI [of _ "r # new"] exI [of _ db']) auto
qed simp

lemma sql_max_upt: "sql_max (map int [0..<n]) = (if n = 0 then None else Some (int n - 1))"
proof -
  have "foldl max (int m) (map int [Suc m..<n]) = int (n - 1)" if "m < n" for m
    using that
  proof (induction "n - m" arbitrary: m)
    case (Suc d)
    show ?case
    proof (cases "Suc m < n")
      case True
      then have "[Suc m..<n] = Suc m # [Suc (Suc m)..<n]" by (simp add: upt_rec)
      then show ?thesis using Suc.hyps(1) [of "Suc m"] Suc.hyps(2) True by (simp add: max_def)
    next
      case False
      then show ?thesis using Suc.prems by simp
    qed
  qed simp
  from this [of 0] show ?thesis by (cases n) (simp_all add: sql_max_def upt_conv_Cons del: upt_Suc)
qed

lemma next_position:
  assumes "db_entries db = entry_rows E es"
  shows "(case sql_max (List.map_filter er_index (db_entries db)) of None \<Rightarrow> 0 | Some m \<Rightarrow> m + 1) = int (length es)"
proof -
  have "List.map_filter er_index (entry_rows E es) = map int [0..<length es]"
    by (simp add: entry_rows_at List.map_filter_def comp_def)
  then show ?thesis by (simp add: assms sql_max_upt)
qed

lemma append_refines:
  assumes "backed E db j" "\<forall>e\<in>set es. storable e \<and> was_sealed E e \<and> accounts_known (j_accounts j) e"
    and "retries_ok (j_entries j) es"
    and "int (length (j_entries j) + length es) \<le> i64_max" "record_batch E es j = (Ok rs, k)"
  shows "\<exists>db'. sqlite_append E \<lparr>eb_entries = es\<rparr> db = (Ok rs, db') \<and> backed E db' k"
proof -
  note b = backedD [OF assms(1)]
  have "db\<lparr>db_subtrees := subtree_rows (accumulator (j_log j))\<rparr> = db"
    by (rule sqlite_db.equality) (simp_all add: b(5))
  then have mid: "mid_append E db j" using assms(1) by (simp add: mid_append_def)
  obtain db1 where db1: "mid_append E db1 k"
      "append_all E es (db, int (length (j_entries j)), accumulator (j_log j)) = Ok (rs, db1, int (length (j_entries k)), accumulator (j_log k))"
    using append_all_refines [OF mid assms(2-4), of "length (j_entries j)" "[]" rs k] assms(5)
    by (auto simp: record_batch_def)
  have inv: "journal_inv E k" by (rule mid_appendD(5) [OF db1(1)])
  have "good_acc (env_b3 E) (accumulator (j_log k)) (map (content_hash E) (j_entries k))"
    using derived_okD(4) [OF journal_invD(1) [OF inv]] by (metis log_ok_def good_log_def)
  then have "store_accumulator (accumulator (j_log k)) db1 = Ok (db1\<lparr>db_subtrees := subtree_rows (accumulator (j_log k))\<rparr>)"
    using subtrees_stored(1) journal_invD(3) [OF inv] by (simp add: store_accumulator_def)
  then show ?thesis
    using db1 by (simp add: sqlite_append_def Let_def next_position [OF b(2)] load_accumulator_eq [OF assms(1)] mid_append_def)
qed

end
