(* ===== verification/Sqlite_Audit.thy ===== *)
theory Sqlite_Audit
  imports Sqlite_Appends
begin

text \<open>
  The SQLite backend implements the same ledger as the in-memory store: appending to the one is appending
  to the other, and every read of the log and of the balances answers alike.
\<close>

section \<open>The tables of a journal\<close>

definition tables_of :: "env \<Rightarrow> journal \<Rightarrow> sqlite_db" where
  "tables_of E j =
     \<lparr>db_ledger = Some (label_str (ledger_label (j_ledger j))), db_accounts = map account_row_of (records (j_accounts j)),
      db_periods = map period_row_of (cal_iter (j_calendar j)), db_entries = entry_rows E (j_entries j),
      db_postings = posting_rows (j_entries j), db_dimensions = axis_rows (j_entries j),
      db_subtrees = subtree_rows (accumulator (j_log j)), db_seals = [], db_clearings = [], db_clearing_items = [], db_checkpoints = []\<rparr>"

lemma tables_backed:
  assumes "journal_inv E j" "\<forall>e\<in>set (j_entries j). storable e" "int (length (j_entries j)) \<le> i64_max"
  shows "backed E (tables_of E j) j"
  using assms by (simp add: backed_def db_shows_def tables_of_def)

lemma demo_storable: "storable (demo_sale n x day)" if "n \<in> {1, 2}" "day \<in> {35, 40}" "x \<in> {5, 7}"
proof -
  have "valid_currency EUR" by code_simp
  then show ?thesis
    using that
    by (auto simp: storable_def valid_entry_def demo_sale_def entry_credit_def entry_debit_def post_def entry_new_def key_new_def
        max_idempotency_key_len_def valid_date_def date_min_def date_max_def description_new_def valid_str_def
        u64_max_def valid_posting_def posting_credit_def posting_debit_def posting_new_def valid_provenance_def
        provenance_none_def max_postings_def)
qed

lemma demo_reversal_storable: "storable demo_reversal"
proof -
  have "valid_currency EUR" by code_simp
  then show ?thesis
    by (simp add: storable_def valid_entry_def demo_reversal_def entry_reverse_def demo_sale_def entry_credit_def entry_debit_def post_def
        entry_new_def key_new_def max_idempotency_key_len_def valid_date_def date_min_def date_max_def description_new_def valid_str_def
        u64_max_def valid_posting_def posting_credit_def posting_debit_def posting_new_def valid_provenance_def
        provenance_none_def max_postings_def inverted_def reversing_def with_description_def)
qed

lemma demo_backed: "backed toy_env (tables_of toy_env demo_empty) demo_empty" "backed toy_env (tables_of toy_env (demo_books toy_env)) (demo_books toy_env)"
proof -
  have "journal_inv toy_env demo_empty" "journal_inv toy_env (demo_books toy_env)"
    using reachable_journal_inv demo_empty_reachable demo_books(1) by blast+
  then show "backed toy_env (tables_of toy_env demo_empty) demo_empty" "backed toy_env (tables_of toy_env (demo_books toy_env)) (demo_books toy_env)"
    by (intro tables_backed; simp add: demo_empty_entries demo_books(2) demo_storable demo_reversal_storable i64_max_def)+
qed

section \<open>Appending\<close>

lemma store_append_run:
  assumes "store_append E batch st = (Ok rs, tt)"
  shows "record_batch E (eb_entries batch) (ms_inner st) = (Ok rs, ms_inner tt)"
  using assms by (auto simp: store_append_def with_mut_def split: prod.splits)

text \<open>
  C21. Appending to the tables refines appending to the in-memory store, for a batch the store accepts
  that meets the following conditions: on a database that holds the books of the store, it is accepted
  with the same outcomes, and the tables then hold the store's new books, the accumulator and the root
  kept with every entry included. The conditions are that every entry was sealed at some time, not
  necessarily under the rules of today; that its fields are what the validated types admit; that the
  accounts it posts to are in the chart, which the foreign key asks for; that it uses no recorded
  identifier under another key and, if it retries a reversal, is the reversal recorded, since the tables
  check both before they look at the key; and that the log fits the signed integers of the database. A
  retry of any other entry may carry a fresh identifier.
\<close>

theorem sqlite_append_refines:
  assumes "backed E db (ms_inner st)"
    and "\<forall>e\<in>set (eb_entries batch). was_sealed E e \<and> storable e \<and> accounts_known (j_accounts (ms_inner st)) e"
    and "retries_ok (j_entries (ms_inner st)) (eb_entries batch)"
    and "int (store_len st + batch_len batch) \<le> i64_max"
    and "store_append E batch st = (Ok rs, tt)"
  shows "\<exists>db'. sqlite_append E batch db = (Ok rs, db') \<and> backed E db' (ms_inner tt)"
  using append_refines [OF assms(1) _ assms(3) _ store_append_run [OF assms(5)]] assms(2,4)
  by (cases batch) (simp add: store_len_def batch_len_def)

lemma valid_accounts_known: "entry_ok (journal_context j) e \<Longrightarrow> accounts_known (j_accounts j) e"
  by (auto simp: entry_ok_def posting_ok_def journal_context_def accounts_known_def)

lemma retries_ok_single: "retries_ok [] [e]"
  by (simp add: retries_ok_def)

lemma demo_append_ready:
  "\<forall>e\<in>set [demo_sale 1 7 35]. was_sealed E e \<and> storable e \<and> accounts_known (j_accounts demo_empty) e"
  "\<exists>rs. store_append toy_env (batch_single (demo_sale 1 7 35)) (from_journal demo_empty) = (Ok rs, demo_store toy_env) \<and> length rs = 1"
proof -
  have "recordable demo_empty (demo_sale 1 7 35)" using demo_recordable(1) by (simp add: demo_empty_entries)
  then have ok: "entry_ok (journal_context demo_empty) (demo_sale 1 7 35)" by (simp add: recordable_def)
  then have "accounts_known (j_accounts demo_empty) (demo_sale 1 7 35)" by (rule valid_accounts_known)
  then show "\<forall>e\<in>set [demo_sale 1 7 35]. was_sealed E e \<and> storable e \<and> accounts_known (j_accounts demo_empty) e"
    using ok by (auto simp: demo_storable was_sealed_iff)
  have "bt_get (j_by_key demo_empty) (IdempotencyKey [1]) = None" by (simp add: demo_empty_def journal_new_def)
  then have "record_validated toy_env (demo_sale 1 7 35) demo_empty = record_draft toy_env (demo_sale 1 7 35) demo_empty"
    using ok by (simp add: record_draft_def demo_sale_fields entry_seal_Ok [THEN iffD2])
  then show "\<exists>rs. store_append toy_env (batch_single (demo_sale 1 7 35)) (from_journal demo_empty) = (Ok rs, demo_store toy_env) \<and> length rs = 1"
    by (simp add: demo_store_def store_append_def with_mut_def batch_single_def from_journal_def record_batch_def demo_one(4))
qed

lemma sqlite_append_refines_witness:
  "\<exists>rs db. length rs = 1 \<and> sqlite_append toy_env (batch_single (demo_sale 1 7 35)) (tables_of toy_env demo_empty) = (Ok rs, db)
    \<and> backed toy_env db (demo_one toy_env)"
proof -
  obtain rs where rs: "store_append toy_env (batch_single (demo_sale 1 7 35)) (from_journal demo_empty) = (Ok rs, demo_store toy_env)" "length rs = 1"
    using demo_append_ready(2) by blast
  have "\<exists>db'. sqlite_append toy_env (batch_single (demo_sale 1 7 35)) (tables_of toy_env demo_empty) = (Ok rs, db') \<and> backed toy_env db' (ms_inner (demo_store toy_env))"
    by (rule sqlite_append_refines [OF _ _ _ _ rs(1)])
      (use demo_backed(1) demo_append_ready(1) retries_ok_single in
        \<open>simp_all add: from_journal_def batch_single_def store_len_def batch_len_def demo_empty_entries i64_max_def\<close>)
  then show ?thesis using rs(2) demo_store(2) by auto
qed

text \<open>
  What is appended is read back: after an accepted batch, \<^verbatim>\<open>get\<close> rebuilds each entry of the books from
  the columns and rows written for it, every field and every axis included, with its position in the log
  and its content hash.
\<close>

theorem sqlite_round_trip:
  assumes "backed E db (ms_inner st)"
    and "\<forall>e\<in>set (eb_entries batch). was_sealed E e \<and> storable e \<and> accounts_known (j_accounts (ms_inner st)) e"
    and "retries_ok (j_entries (ms_inner st)) (eb_entries batch)"
    and "int (store_len st + batch_len batch) \<le> i64_max"
    and "store_append E batch st = (Ok rs, tt)" "sqlite_append E batch db = (res, db')" "e \<in> set (j_entries (ms_inner tt))"
  shows "\<exists>n < store_len tt. sqlite_get E db' (e_id e) = Ok (Some \<lparr>se_index = Some n, se_entry = e, se_hash = content_hash E e\<rparr>)"
proof -
  have b: "backed E db' (ms_inner tt)"
    using append_refines [OF assms(1) _ assms(3) _ store_append_run [OF assms(5)]] assms(2,4,6)
    by (cases batch) (simp add: store_len_def batch_len_def)
  obtain n where n: "n < store_len tt" "j_entries (ms_inner tt) ! n = e" using assms(7) by (auto simp: in_set_conv_nth store_len_def)
  then have "index_of (ms_inner tt) (e_id e) = Some n" using index_of_at [OF backedD(6) [OF b]] by (auto simp: store_len_def)
  then show ?thesis
    using n sqlite_get_eq [OF b] by (intro exI [of _ n]) (simp add: store_get_def entry_at_def store_len_def)
qed

lemma sqlite_round_trip_witness:
  "\<exists>rs db. sqlite_append toy_env (batch_single (demo_sale 1 7 35)) (tables_of toy_env demo_empty) = (Ok rs, db)
    \<and> sqlite_get toy_env db (EntryId 1) = Ok (Some \<lparr>se_index = Some 0, se_entry = demo_sale 1 7 35, se_hash = content_hash toy_env (demo_sale 1 7 35)\<rparr>)"
proof -
  obtain rs where rs: "store_append toy_env (batch_single (demo_sale 1 7 35)) (from_journal demo_empty) = (Ok rs, demo_store toy_env)" "length rs = 1"
    using demo_append_ready(2) by blast
  note ready = demo_backed(1) demo_append_ready(1)
  have len: "store_len (demo_store toy_env) = 1" by (simp add: store_len_def demo_store(2) demo_one(2))
  have keys: "retries_ok (j_entries demo_empty) [demo_sale 1 7 35]"
    and fits: "int (length (j_entries demo_empty) + length [demo_sale 1 7 35]) \<le> i64_max"
    by (simp_all add: demo_empty_entries i64_max_def retries_ok_single)
  have run: "record_batch toy_env [demo_sale 1 7 35] demo_empty = (Ok rs, demo_one toy_env)"
    using store_append_run [OF rs(1)] demo_store(2) [of toy_env] by (simp only: batch_single_def from_journal_def entry_batch.simps memory_store.simps)
  obtain db where db: "sqlite_append toy_env (batch_single (demo_sale 1 7 35)) (tables_of toy_env demo_empty) = (Ok rs, db)"
    using append_refines [OF ready(1) _ keys fits run] ready(2) [of toy_env] unfolding batch_single_def by blast
  have "\<exists>n < store_len (demo_store toy_env). sqlite_get toy_env db (e_id (demo_sale 1 7 35))
      = Ok (Some \<lparr>se_index = Some n, se_entry = demo_sale 1 7 35, se_hash = content_hash toy_env (demo_sale 1 7 35)\<rparr>)"
    by (rule sqlite_round_trip [OF _ _ _ _ rs(1) db])
      (use ready keys in \<open>simp_all add: from_journal_def batch_single_def store_len_def batch_len_def demo_empty_entries i64_max_def demo_store(2) demo_one(2)\<close>)
  then show ?thesis using db len by (simp add: demo_sale_fields)
qed

section \<open>Reading\<close>

text \<open>
  C22. On a database that holds the books of an in-memory store, every read of the log answers as that
  store does: an entry by its identifier, a page and where it goes on, the length, the head now and at
  any size up to the length, and both proofs at any size, errors included.
\<close>

theorem sqlite_reads_agree:
  assumes "backed E db (ms_inner st)"
  shows "sqlite_get E db i = Ok (store_get E st i) \<and> sqlite_page E db c = Ok (store_page E st c)
    \<and> sqlite_len db = store_len st \<and> sqlite_head E db = Ok (store_head E st)
    \<and> (m \<le> store_len st \<longrightarrow> (\<exists>h. sqlite_head_at E db m = Ok h \<and> store_head_at E st m = Ok h))
    \<and> (sqlite_prove_inclusion_at E db k m = Ok p \<longleftrightarrow> store_prove_inclusion_at E st k m = Ok p)
    \<and> (sqlite_prove_consistency_between E db n m = Ok q \<longleftrightarrow> store_prove_consistency_between E st n m = Ok q)"
proof -
  note inv = journal_invD(1) [OF backedD(6) [OF assms]]
  have "\<exists>h. sqlite_head_at E db m = Ok h \<and> store_head_at E st m = Ok h" if "m \<le> store_len st"
    using that sqlite_head_at_eq [OF assms, of m] head_at_size [OF inv, of m] by (simp add: store_head_at_def store_len_def)
  then show ?thesis
    using sqlite_get_eq [OF assms] sqlite_page_eq [OF assms] sqlite_len_eq [OF backedD(2) [OF assms]] sqlite_head_eq [OF assms]
    by (simp add: store_len_def store_head_def sqlite_prove_inclusion_at_def sqlite_prove_consistency_between_def sqlite_log_eq [OF assms]
        store_prove_inclusion_at_def store_prove_consistency_between_def prove_inclusion_at_def prove_consistency_between_def)
qed

lemma sqlite_reads_agree_witness:
  "sqlite_get toy_env (tables_of toy_env (demo_books toy_env)) (EntryId 2)
     = Ok (Some \<lparr>se_index = Some 1, se_entry = demo_sale 2 5 40, se_hash = content_hash toy_env (demo_sale 2 5 40)\<rparr>)
   \<and> sqlite_len (tables_of toy_env (demo_books toy_env)) = 3"
proof -
  let ?st = "from_journal (demo_books toy_env)"
  have b: "backed toy_env (tables_of toy_env (demo_books toy_env)) (ms_inner ?st)" using demo_backed(2) by (simp add: from_journal_def)
  have "index_of (demo_books toy_env) (EntryId 2) = Some 1"
    using index_of_at [OF reachable_journal_inv [OF demo_books(1)], where n = 1 and E = toy_env] by (simp add: demo_books(2) demo_sale_fields)
  then show ?thesis
    using sqlite_reads_agree [OF b, of "EntryId 2"] by (simp add: store_get_def store_len_def from_journal_def entry_at_def demo_books(2))
qed

text \<open>
  C23. The figures the database sums are the in-memory store's: the balance of a key and the trial
  balance over every prefix of the log, and the trial balance through any day, all of which are answered
  without an overflow.
\<close>

theorem sqlite_figures_agree:
  assumes "backed E db (ms_inner st)"
  shows "(\<exists>b. sqlite_balance db key n = Ok b \<and> store_balance st key n = Ok b)
    \<and> (\<exists>tb. sqlite_trial_balance db n = Ok tb \<and> store_trial_balance st n = Ok tb)
    \<and> (\<exists>tb. sqlite_trial_balance_through db d = Ok tb \<and> store_trial_balance_through st d = Ok tb)"
proof -
  note inv = backedD(6) [OF assms]
  obtain b where "balance_at (ms_inner st) key n = Ok b" using balance_at_shows [OF inv] by blast
  moreover obtain tb where "trial_balance_at (ms_inner st) n = Ok tb" using trial_balance_at_shows [OF inv] by blast
  moreover obtain td where "trial_balance_through_date (ms_inner st) d = Ok td" using through_total [OF inv] by blast
  ultimately show ?thesis
    by (simp add: sqlite_balance_eq [OF assms] sqlite_trial_balance_eq [OF assms] sqlite_trial_balance_through_eq [OF assms]
        store_balance_def store_trial_balance_def store_trial_balance_through_def)
qed

lemma sqlite_figures_agree_witness:
  "\<exists>tb b. sqlite_trial_balance (tables_of toy_env (demo_books toy_env)) None = Ok tb \<and> store_trial_balance (from_journal (demo_books toy_env)) None = Ok tb
    \<and> sqlite_balance (tables_of toy_env (demo_books toy_env)) (BalanceKey (AccountId 0) EUR Settled) (Some 2) = Ok b"
proof -
  have "backed toy_env (tables_of toy_env (demo_books toy_env)) (ms_inner (from_journal (demo_books toy_env)))"
    using demo_backed(2) by (simp add: from_journal_def)
  from sqlite_figures_agree [OF this, of _ None] sqlite_figures_agree [OF this, of "BalanceKey (AccountId 0) EUR Settled" "Some 2"]
  show ?thesis by blast
qed

section \<open>Where the tables depart from the contract\<close>

text \<open>
  C24. A retry of a recorded reversal that carries a fresh identifier, which the in-memory store replays
  since the identifier is no part of the content hash, is refused by the tables: the check that an entry
  is reversed once compares identifiers, and runs before the idempotency key is looked at.
\<close>

theorem sqlite_refuses_retried_reversal:
  assumes "backed E db j" "e \<in> set (j_entries j)" "e_reverses e = Some original" "i \<notin> e_id ` set (j_entries j)"
  shows "sqlite_append E (batch_single (e\<lparr>e_id := i\<rparr>)) db = (Err (SqlAlreadyReversed original), db)
    \<and> (\<exists>n. record_validated E (e\<lparr>e_id := i\<rparr>) j
          = (Ok \<lparr>rec_id = e_id e, rec_index = Some n, rec_hash = content_hash E e, rec_new = False\<rparr>, j))"
proof -
  note b = backedD [OF assms(1)]
  let ?es = "j_entries j" and ?e = "e\<lparr>e_id := i\<rparr>"
  obtain n where n: "n < length ?es" "?es ! n = e" using assms(2) by (auto simp: in_set_conv_nth)
  obtain t where t: "t \<in> set ?es" "e_id t = original" "e_reverses t = None" using reversal_links_at(1) [OF b(6) assms(2,3)] by blast
  then obtain m where m: "m < length ?es" "?es ! m = t" by (auto simp: in_set_conv_nth)
  have target: "find (\<lambda>r. er_id r = uuid_bytes original) (db_entries db) = Some (row_at E ?es m)"
    using find_row_id [OF b(7) m(1), of E] m(2) t(2) b(2) by simp
  have "\<exists>x\<in>set (db_entries db). er_reverses x = Some (uuid_bytes original)"
    using n assms(3) by (auto simp: b(2) entry_rows_at intro!: bexI [of _ "row_at E ?es n"])
  then obtain x where x: "find (\<lambda>r. er_reverses r = Some (uuid_bytes original)) (db_entries db) = Some x"
    by (cases "find (\<lambda>r. er_reverses r = Some (uuid_bytes original)) (db_entries db)") (auto simp: find_None_iff)
  have other: "er_id x \<noteq> uuid_bytes i"
    using find_some [OF x] assms(4) by (auto simp: b(2) entry_rows_at)
  have "sqlite_check_reversal db ?e original = Err (SqlAlreadyReversed original)"
    using other m(2) t(2,3) by (simp add: sqlite_check_reversal_def target x)
  moreover have "\<not> list_ex (\<lambda>r. er_id r = uuid_bytes i \<and> er_key r \<noteq> key_bytes (e_key e)) (db_entries db)"
    using assms(4) by (auto simp: b(2) list_ex_rows)
  ultimately have "sqlite_append E (batch_single ?e) db = (Err (SqlAlreadyReversed original), db)"
    using assms(3) by (simp add: sqlite_append_def Let_def load_accumulator_eq [OF assms(1)] batch_single_def append_one_def)
  moreover have "bt_get (j_by_key j) (e_key e) = Some (e_id e, n, content_hash E e)"
    using derived_okD(2) [OF journal_invD(1) [OF b(6)]] n by (simp add: keys_ok_def)
  moreover have "content_hash E ?e = content_hash E e" by (simp add: content_hash_def enc_entry_def)
  ultimately show ?thesis by (intro conjI exI [of _ n]) (simp_all add: record_validated_def replay_def Let_def)
qed

lemma sqlite_refuses_retried_reversal_witness:
  "sqlite_append toy_env (batch_single (demo_reversal\<lparr>e_id := EntryId 9\<rparr>)) (tables_of toy_env (demo_books toy_env))
     = (Err (SqlAlreadyReversed (EntryId 1)), tables_of toy_env (demo_books toy_env))"
  using sqlite_refuses_retried_reversal [OF demo_backed(2), of demo_reversal "EntryId 1" "EntryId 9"]
  by (simp add: demo_books(2) demo_reversal_fields demo_sale_fields)

text \<open>
  Declaring again, open, a period whose row is sealed is accepted and overwrites the state, so the
  calendar read back from the rows takes postings on its days again.
\<close>

theorem sqlite_define_reopens:
  assumes "db_periods db = [period_row_of (demo_period ''m1'' 0 30 Sealed)]"
  shows "\<exists>c c' db'. sqlite_calendar db = Ok c \<and> \<not> cal_accepts c (Date 5)
    \<and> sqlite_define_period (demo_period ''m1'' 0 30 Open) db = (Ok (), db') \<and> sqlite_calendar db' = Ok c' \<and> cal_accepts c' (Date 5)"
proof -
  let ?p = "\<lambda>s. demo_period ''m1'' 0 30 s"
  have rows: "period_of_row (period_row_of (?p Sealed)) = Ok (?p Sealed)" "period_of_row (period_row_of (?p Open)) = Ok (?p Open)"
    by code_simp+
  have cal: "case from_periods [?p Sealed] of Err _ \<Rightarrow> False | Ok c \<Rightarrow> \<not> cal_accepts c (Date 5) \<and> fst (cal_ensure (?p Open) c) = Ok ()"
    "case from_periods [?p Open] of Err _ \<Rightarrow> False | Ok c \<Rightarrow> cal_accepts c (Date 5)"
    by code_simp+
  then obtain c c' where c: "from_periods [?p Sealed] = Ok c" "\<not> cal_accepts c (Date 5)" "fst (cal_ensure (?p Open) c) = Ok ()"
      "from_periods [?p Open] = Ok c'" "cal_accepts c' (Date 5)"
    by (auto split: sum.splits)
  let ?db = "db\<lparr>db_periods := [period_row_of (?p Open)]\<rparr>"
  have read: "sqlite_calendar db = Ok c" "sqlite_calendar ?db = Ok c'"
    by (simp_all add: sqlite_calendar_def sqlite_periods_def assms rows c)
  moreover have "upsert_period (period_row_of (?p Open)) (db_periods db) = [period_row_of (?p Open)]"
    by (simp add: assms upsert_period_def period_row_of_def demo_period_def)
  moreover have "\<not> pd_end (?p Open) < pd_start (?p Open)" by code_simp
  ultimately show ?thesis using c by (simp add: sqlite_define_period_def)
qed

end
