(* ===== verification/Postgres_Store.thy ===== *)
theory Postgres_Store
  imports Sqlite_Books
begin

text \<open>
  \<^verbatim>\<open>src/storage/postgres.rs\<close> over the tables of \<^verbatim>\<open>schema/postgres.sql\<close>: the same tables and columns as the
  SQLite backend's, with one more column, the transaction that inserted an entry. A \<^verbatim>\<open>UUID\<close> column holds the
  sixteen bytes of the identifier and compares as they do. The two error enumerations share every variant but
  one, so \<open>PgError\<close> wraps the shared ones where \<^verbatim>\<open>WrongSearchPath\<close> can occur. A call takes effect at its
  commit; the transaction it runs in, and the oldest one still open anywhere, are arguments.
\<close>

section \<open>Types\<close>

datatype postgres_error = PgError sqlite_error | WrongSearchPath ustr ustr

datatype placement = PlaceInline | PlaceDeferred

datatype sequencing = Inline | Deferred

text \<open>The column \<^verbatim>\<open>insert_xid\<close> is read by the identifier of its row.\<close>

record pg_db = sqlite_db +
  pg_xid :: "byte list \<Rightarrow> nat"

section \<open>Columns\<close>

definition i32_or_max :: "u32 \<Rightarrow> int" where
  "i32_or_max w = (if uint w < 2 ^ 31 then uint w else 2 ^ 31 - 1)"

definition i16_or_max :: "nat \<Rightarrow> int" where
  "i16_or_max n = (if n < 2 ^ 15 then int n else 2 ^ 15 - 1)"

definition pg_account :: "account_id \<Rightarrow> int" where
  "pg_account a = i32_or_max (account_index a)"

text \<open>\<^verbatim>\<open>SUM(..)::BIGINT\<close>: the sum is exact, and the cast fails when it is no 64-bit integer.\<close>

definition to_bigint :: "int \<Rightarrow> (sqlite_error, int) res" where
  "to_bigint n = (if in_i64 n then Ok n else Err SqlDatabase)"

definition pg_sum :: "int list \<Rightarrow> (sqlite_error, int) res" where
  "pg_sum xs = to_bigint (sum_list xs)"

definition pg_prefix_bound :: "nat option \<Rightarrow> int" where
  "pg_prefix_bound n = (case n of None \<Rightarrow> i64_max | Some m \<Rightarrow> i64_or_max m)"

definition pg_direction_str :: "direction \<Rightarrow> ustr" where
  "pg_direction_str d = (case d of Debit \<Rightarrow> lit ''D'' | Credit \<Rightarrow> lit ''C'')"

definition pg_layer_str :: "layer \<Rightarrow> ustr" where
  "pg_layer_str l = (case l of Settled \<Rightarrow> lit ''settled'' | Pending \<Rightarrow> lit ''pending'')"

definition pg_period_state_str :: "period_state \<Rightarrow> ustr" where
  "pg_period_state_str s = (case s of Open \<Rightarrow> lit ''open'' | Closing \<Rightarrow> lit ''closing'' | Sealed \<Rightarrow> lit ''sealed'')"

definition pg_period_state_from :: "ustr \<Rightarrow> period_state option" where
  "pg_period_state_from s =
     (if s = lit ''open'' then Some Open
      else if s = lit ''closing'' then Some Closing
      else if s = lit ''sealed'' then Some Sealed
      else None)"

definition pg_limit_code :: "balance_limit \<Rightarrow> ustr" where
  "pg_limit_code l =
     (case l of Unlimited \<Rightarrow> lit ''unlimited'' | NoCreditBalance \<Rightarrow> lit ''no_credit'' | NoDebitBalance \<Rightarrow> lit ''no_debit'')"

definition pg_limit_from_code :: "ustr \<Rightarrow> balance_limit option" where
  "pg_limit_from_code s =
     (if s = lit ''unlimited'' then Some Unlimited
      else if s = lit ''no_credit'' then Some NoCreditBalance
      else if s = lit ''no_debit'' then Some NoDebitBalance
      else None)"

definition pg_kind_code :: "account_kind \<Rightarrow> ustr" where
  "pg_kind_code k =
     (case k of Asset \<Rightarrow> lit ''asset'' | Liability \<Rightarrow> lit ''liability'' | Equity \<Rightarrow> lit ''equity''
      | Income \<Rightarrow> lit ''income'' | Expense \<Rightarrow> lit ''expense'')"

definition pg_kind_from_code :: "ustr \<Rightarrow> account_kind option" where
  "pg_kind_from_code s =
     (if s = lit ''asset'' then Some Asset
      else if s = lit ''liability'' then Some Liability
      else if s = lit ''equity'' then Some Equity
      else if s = lit ''income'' then Some Income
      else if s = lit ''expense'' then Some Expense
      else None)"

definition pg_hash_from_bytes :: "byte list \<Rightarrow> (sqlite_error, hash) res" where
  "pg_hash_from_bytes bs = (if length bs = 32 then Ok (hash_from_bytes bs) else Err SqlMalformed)"

definition pg_uuid :: "byte list \<Rightarrow> entry_id" where
  "pg_uuid bs = EntryId (of_nat (be_val bs))"

section \<open>Opening\<close>

text \<open>
  \<^verbatim>\<open>migrate\<close>, given the schema the store expects and what \<^verbatim>\<open>current_schema()\<close> answers; the first ledger
  to open a database claims it.
\<close>

definition pg_migrate :: "ustr \<Rightarrow> ustr option \<Rightarrow> ledger_id \<Rightarrow> pg_db \<Rightarrow> (postgres_error, unit) res \<times> pg_db" where
  "pg_migrate schema current ledger db =
     (if current \<noteq> Some schema
      then (Err (WrongSearchPath schema (case current of None \<Rightarrow> [] | Some s \<Rightarrow> s)), db)
      else
        let text = label_str (ledger_label ledger);
            claimed = (case db_ledger db of None \<Rightarrow> db\<lparr>db_ledger := Some text\<rparr> | Some _ \<Rightarrow> db) in
        (case db_ledger claimed of
           None \<Rightarrow> (Err (PgError SqlDatabase), claimed)
         | Some found \<Rightarrow>
             if found = text then (Ok (), claimed)
             else (case ledger_id_new found of
                     Err _ \<Rightarrow> (Err (PgError SqlMalformed), claimed)
                   | Ok other \<Rightarrow> (Err (PgError (WrongLedger ledger other)), claimed))))"

section \<open>Accounts\<close>

definition pg_account_row_of :: "account_record \<Rightarrow> account_row" where
  "pg_account_row_of r =
     \<lparr>ar_index = pg_account (r_id r), ar_path = path_display (a_path (r_account r)),
      ar_kind = map_option pg_kind_code (a_kind (r_account r)), ar_opened = opened_on (r_account r),
      ar_closed = closed_on (r_account r), ar_limit = pg_limit_code (a_limit (r_account r))\<rparr>"

definition pg_account_record :: "account_row \<Rightarrow> (sqlite_error, account_record) res" where
  "pg_account_record row =
     bindR (map_err (\<lambda>_. SqlMalformed) (path_parse (ar_path row))) (\<lambda>path.
     bindR (ok_or (pg_limit_from_code (ar_limit row)) SqlMalformed) (\<lambda>limit.
       Ok \<lparr>r_id = AccountId (u32_or_zero (ar_index row)),
           r_account = \<lparr>a_path = path, a_kind = Option.bind (ar_kind row) pg_kind_from_code, opened_on = ar_opened row,
                        closed_on = ar_closed row, a_limit = limit\<rparr>\<rparr>))"

text \<open>
  The upsert: a handle that is already bound keeps its path and takes the rest, and is left alone when the
  path differs; a path already bound elsewhere breaks the schema, as does a window that ends before it starts.
\<close>

definition pg_register_account :: "account_record \<Rightarrow> pg_db \<Rightarrow> (sqlite_error, unit) res \<times> pg_db" where
  "pg_register_account rec db =
     (let r = pg_account_row_of rec; rows = db_accounts db;
          window = (case ar_closed r of None \<Rightarrow> True | Some c \<Rightarrow> ar_opened r \<le> c) in
      if \<not> window then (Err SqlDatabase, db)
      else if list_ex (\<lambda>q. ar_index q = ar_index r) rows
      then if list_ex (\<lambda>q. ar_index q = ar_index r \<and> ar_path q = ar_path r) rows
           then (Ok (), db\<lparr>db_accounts := map (\<lambda>q. if ar_index q = ar_index r then r else q) rows\<rparr>)
           else (Err (AccountRebound (r_id rec)), db)
      else if list_ex (\<lambda>q. ar_path q = ar_path r) rows then (Err SqlDatabase, db)
      else (Ok (), db\<lparr>db_accounts := rows @ [r]\<rparr>))"

definition pg_accounts :: "pg_db \<Rightarrow> (sqlite_error, account_record list) res" where
  "pg_accounts db = try_map pg_account_record (sort_key ar_index (db_accounts db))"

section \<open>Reading postings back\<close>

definition pg_build_posting :: "posting_row \<Rightarrow> (sqlite_error, posting) res" where
  "pg_build_posting row =
     bindR (if po_direction row = lit ''D'' then Ok Debit else if po_direction row = lit ''C'' then Ok Credit else Err SqlMalformed) (\<lambda>d.
     bindR (if po_layer row = lit ''settled'' then Ok Settled else if po_layer row = lit ''pending'' then Ok Pending else Err SqlMalformed) (\<lambda>l.
     bindR (map_err (\<lambda>_. SqlMalformed) (currency_new (str_trim (po_currency row)))) (\<lambda>c.
       Ok \<lparr>p_account = AccountId (u32_or_zero (po_account row)), p_direction = d, p_amount = from_minor (po_amount row),
           p_currency = c, p_layer = l, p_dimensions = dims_none\<rparr>)))"

definition pg_add_dimension :: "dimension_index \<Rightarrow> dimension_row \<Rightarrow> (sqlite_error, dimension_index) res" where
  "pg_add_dimension out row =
     (let at = (di_entry row, di_index row); slot = (case bt_get out at of None \<Rightarrow> dims_none | Some d \<Rightarrow> d) in
      bindR (map_err (\<lambda>_. SqlMalformed) (label_new (di_axis row))) (\<lambda>axis.
      bindR (map_err (\<lambda>_. SqlMalformed) (label_new (di_value row))) (\<lambda>val.
      bindR (map_err (\<lambda>_. SqlMalformed) (dims_set slot axis val)) (\<lambda>(_, d). Ok (bt_insert at d out)))))"

definition pg_dimensions_from :: "dimension_row list \<Rightarrow> (sqlite_error, dimension_index) res" where
  "pg_dimensions_from rows = try_fold pg_add_dimension bt_empty rows"

definition pg_add_loaded :: "dimension_index \<Rightarrow> (byte list, posting list) btmap \<Rightarrow> posting_row
    \<Rightarrow> (sqlite_error, (byte list, posting list) btmap) res" where
  "pg_add_loaded dims grouped row =
     bindR (pg_build_posting row) (\<lambda>p.
     let old = (case bt_get grouped (po_entry row) of None \<Rightarrow> [] | Some ps \<Rightarrow> ps) in
     Ok (bt_insert (po_entry row) (old @ [with_stored_dimensions dims row p]) grouped))"

definition pg_load_postings_for :: "pg_db \<Rightarrow> byte list list \<Rightarrow> (sqlite_error, (byte list, posting list) btmap) res" where
  "pg_load_postings_for db ids =
     (if ids = [] then Ok bt_empty
      else bindR (pg_dimensions_from
            (sort_key (\<lambda>r. (di_entry r, di_index r, di_axis r)) (filter (\<lambda>r. di_entry r \<in> set ids) (db_dimensions db)))) (\<lambda>dims.
        try_fold (pg_add_loaded dims) bt_empty
          (sort_key (\<lambda>r. (po_entry r, po_index r)) (filter (\<lambda>r. po_entry r \<in> set ids) (db_postings db)))))"

definition pg_load_postings_tx :: "pg_db \<Rightarrow> byte list \<Rightarrow> (sqlite_error, posting list) res" where
  "pg_load_postings_tx db i =
     bindR (pg_dimensions_from (sort_key (\<lambda>r. (di_index r, di_axis r)) (filter (\<lambda>r. di_entry r = i) (db_dimensions db)))) (\<lambda>dims.
     try_map (\<lambda>row. bindR (pg_build_posting row) (\<lambda>p. Ok (with_stored_dimensions dims row p)))
       (sort_key po_index (filter (\<lambda>r. po_entry r = i) (db_postings db))))"

text \<open>One entry from its row and its postings; its hash is compared with the stored one.\<close>

definition pg_build_stored_entry :: "env \<Rightarrow> entry_row \<Rightarrow> posting list \<Rightarrow> (sqlite_error, stored_entry) res" where
  "pg_build_stored_entry E row ps =
     bindR (pg_hash_from_bytes (er_hash row)) (\<lambda>stored_hash.
     bindR (case er_actor row of None \<Rightarrow> Ok provenance_none | Some v \<Rightarrow> map_err (\<lambda>_. SqlMalformed) (with_actor provenance_none v)) (\<lambda>prov1.
     bindR (case er_source row of None \<Rightarrow> Ok prov1 | Some v \<Rightarrow> map_err (\<lambda>_. SqlMalformed) (with_source prov1 v)) (\<lambda>prov2.
     bindR (case er_correlation row of None \<Rightarrow> Ok prov2 | Some v \<Rightarrow> map_err (\<lambda>_. SqlMalformed) (with_correlation prov2 v)) (\<lambda>prov.
     bindR (map_err (\<lambda>_. SqlMalformed) (key_new (er_key row))) (\<lambda>key.
     bindR (map_err (\<lambda>_. SqlMalformed) (description_new (er_description row))) (\<lambda>desc.
     let draft0 = with_provenance (with_description (with_value_date (entry_new (pg_uuid (er_id row)) key (er_booking row)) (er_value row)) desc) prov in
     bindR (case er_kind row of None \<Rightarrow> Ok draft0
            | Some s \<Rightarrow> bindR (map_err (\<lambda>_. SqlMalformed) (label_new s)) (\<lambda>kind. Ok (entry_with_kind draft0 kind))) (\<lambda>draft1.
     bindR (case er_document row of None \<Rightarrow> Ok draft1
            | Some s \<Rightarrow>
                bindR (case er_document_hash row of
                         Some bs \<Rightarrow> bindR (pg_hash_from_bytes bs) (\<lambda>h. map_err (\<lambda>_. SqlMalformed) (document_new s h))
                       | None \<Rightarrow> map_err (\<lambda>_. SqlMalformed) (document_unverified s)) (\<lambda>d. Ok (with_document draft1 d))) (\<lambda>draft2.
     let draft3 = (case (er_reverses row, er_original row) of
                     (Some r, Some d) \<Rightarrow> reversing draft2 (pg_uuid r) d | _ \<Rightarrow> draft2) in
     bindR (map_err SqlIntegrity (adopt_verified E (foldl post draft3 ps) stored_hash)) (\<lambda>e.
       Ok \<lparr>se_index = map_option u64_or_zero (er_index row), se_entry = e, se_hash = stored_hash\<rparr>)))))))))"

end
