(* ===== verification/Postgres_Log.thy ===== *)
theory Postgres_Log
  imports Postgres_Store
begin

text \<open>
  \<^verbatim>\<open>src/storage/postgres.rs\<close>: appending, sequencing, and reading the log and the balances. An append
  writes its rows with the number of its transaction; in deferred mode they get their positions from a
  later pass of \<^verbatim>\<open>sequence\<close>, which only takes rows of transactions older than every open one.
\<close>

section \<open>Rows of an entry\<close>

definition pg_entry_row_of :: "env \<Rightarrow> (int \<times> hash) option \<Rightarrow> entry \<Rightarrow> entry_row" where
  "pg_entry_row_of E place e =
     \<lparr>er_index = map_option fst place, er_id = uuid_bytes (e_id e), er_key = key_bytes (e_key e),
      er_hash = hash_bytes (content_hash E e),
      er_booking = booking_date e, er_value = value_date e, er_description = description_str (e_description e),
      er_actor = map_option label_str (actor (e_provenance e)), er_source = map_option label_str (source (e_provenance e)),
      er_correlation = map_option label_str (correlation (e_provenance e)),
      er_document = map_option (\<lambda>d. label_str (doc_id d)) (e_document e),
      er_document_hash = Option.bind (e_document e) (\<lambda>d. map_option hash_bytes (doc_hash d)),
      er_reverses = map_option uuid_bytes (e_reverses e), er_original = original_booking_date e,
      er_root = map_option (\<lambda>p. hash_bytes (snd p)) place, er_kind = map_option label_str (e_kind e)\<rparr>"

definition pg_posting_row_of :: "entry_id \<Rightarrow> nat \<Rightarrow> posting \<Rightarrow> posting_row" where
  "pg_posting_row_of i k p =
     \<lparr>po_entry = uuid_bytes i, po_index = i16_or_max k, po_account = pg_account (p_account p),
      po_direction = pg_direction_str (p_direction p), po_amount = amt (p_amount p), po_currency = currency_code (p_currency p),
      po_layer = pg_layer_str (p_layer p)\<rparr>"

definition pg_dimension_rows_of :: "entry_id \<Rightarrow> nat \<Rightarrow> posting \<Rightarrow> dimension_row list" where
  "pg_dimension_rows_of i k p =
     map (\<lambda>(axis, val). \<lparr>di_entry = uuid_bytes i, di_index = i16_or_max k, di_axis = label_str axis, di_value = label_str val\<rparr>)
       (bt_iter (axes (p_dimensions p)))"

definition pg_insert_with_axes :: "entry_id \<Rightarrow> pg_db \<Rightarrow> nat \<times> posting \<Rightarrow> (sqlite_error, pg_db) res" where
  "pg_insert_with_axes i db kp =
     (case kp of (k, p) \<Rightarrow>
      bindR (insert_posting db (pg_posting_row_of i k p)) (\<lambda>db1. try_fold insert_dimension db1 (pg_dimension_rows_of i k p)))"

section \<open>The checks of an append\<close>

definition pg_check_reversal :: "pg_db \<Rightarrow> entry \<Rightarrow> entry_id \<Rightarrow> (sqlite_error, unit) res" where
  "pg_check_reversal db e original =
     (case find (\<lambda>r. er_id r = uuid_bytes original) (db_entries db) of
        None \<Rightarrow> Err (SqlUnknownOriginal original)
      | Some target \<Rightarrow>
          let reversed_by_row = map_option er_id (find (\<lambda>r. er_reverses r = Some (er_id target)) (db_entries db)) in
          if er_reverses target \<noteq> None then Err (SqlReversalOfReversal original)
          else if (case reversed_by_row of None \<Rightarrow> False | Some by_id \<Rightarrow> by_id \<noteq> uuid_bytes (e_id e))
          then Err (SqlAlreadyReversed original)
          else bindR (pg_load_postings_tx db (uuid_bytes original)) (\<lambda>ps.
            if length ps = length (e_postings e)
               \<and> list_all (\<lambda>(o', r). p_account r = p_account o' \<and> p_amount r = p_amount o' \<and> p_currency r = p_currency o'
                   \<and> p_layer r = p_layer o' \<and> p_dimensions r = p_dimensions o' \<and> p_direction r = dir_inverse (p_direction o'))
                   (zip ps (e_postings e))
            then Ok () else Err (SqlNotAnInversion original)))"

definition pg_matches :: "balance_key \<Rightarrow> posting_row \<Rightarrow> bool" where
  "pg_matches key r \<longleftrightarrow>
     po_account r = pg_account (k_account key) \<and> po_currency r = currency_code (k_currency key) \<and> po_layer r = pg_layer_str (k_layer key)"

text \<open>Sequenced or not, every posting stored counts against the limit.\<close>

definition pg_check_limit :: "pg_db \<Rightarrow> balance_key \<Rightarrow> (sqlite_error, unit) res" where
  "pg_check_limit db key =
     (case find (\<lambda>a. ar_index a = pg_account (k_account key) \<and> ar_limit a \<noteq> lit ''unlimited'') (db_accounts db) of
        None \<Rightarrow> Ok ()
      | Some a \<Rightarrow>
          bindR (ok_or (pg_limit_from_code (ar_limit a)) SqlMalformed) (\<lambda>limit.
          bindR (pg_sum (map (\<lambda>r. if po_direction r = lit ''D'' then po_amount r else - po_amount r)
            (filter (pg_matches key) (db_postings db)))) (\<lambda>net.
          if (case limit of Unlimited \<Rightarrow> True | NoCreditBalance \<Rightarrow> 0 \<le> net | NoDebitBalance \<Rightarrow> net \<le> 0) then Ok ()
          else Err (SqlLimitBreached (k_account key) (k_currency key) (k_layer key) limit net))))"

definition pg_check_limits :: "pg_db \<Rightarrow> entry \<Rightarrow> (sqlite_error, unit) res" where
  "pg_check_limits db e =
     bindR (try_fold (\<lambda>seen p.
         let key = key_of_posting p in
         if key \<in> set seen then Ok seen else bindR (pg_check_limit db key) (\<lambda>_. Ok (key # seen)))
       [] (e_postings e)) (\<lambda>_. Ok ())"

text \<open>What a key that is already stored answers; the position may still be missing.\<close>

definition pg_stored_replay :: "pg_db \<Rightarrow> entry \<Rightarrow> hash \<Rightarrow> (sqlite_error, recorded_entry) res" where
  "pg_stored_replay db e h =
     (case find (\<lambda>r. er_key r = key_bytes (e_key e)) (db_entries db) of
        None \<Rightarrow> Err SqlDatabase
      | Some r \<Rightarrow>
          bindR (pg_hash_from_bytes (er_hash r)) (\<lambda>stored_hash.
          if stored_hash \<noteq> h then Err (SqlIdempotencyConflict (pg_uuid (er_id r)))
          else Ok \<lparr>rec_id = pg_uuid (er_id r), rec_index = map_option u64_or_zero (er_index r), rec_hash = h, rec_new = False\<rparr>))"

section \<open>Appending\<close>

type_synonym pg_append_state = "pg_db \<times> int \<times> accumulator"

definition pg_append_one :: "env \<Rightarrow> placement \<Rightarrow> nat \<Rightarrow> entry \<Rightarrow> pg_append_state
    \<Rightarrow> (sqlite_error, recorded_entry \<times> pg_append_state) res" where
  "pg_append_one E placement xid e st =
     (case st of (db, next_index, acc) \<Rightarrow>
      let h = content_hash E e in
      if list_ex (\<lambda>r. er_id r = uuid_bytes (e_id e) \<and> er_key r \<noteq> key_bytes (e_key e)) (db_entries db)
      then Err (SqlDuplicateId (e_id e))
      else bindR (case e_reverses e of None \<Rightarrow> Ok () | Some original \<Rightarrow> pg_check_reversal db e original) (\<lambda>_.
        let projected = (case placement of
              PlaceInline \<Rightarrow> Some (snd (acc_push (env_b3 E) acc h)) | PlaceDeferred \<Rightarrow> None);
            place = map_option (\<lambda>a. (next_index, acc_root (env_b3 E) a)) projected in
        bindR (insert_entry (pg_entry_row_of E place e) db) (\<lambda>inserted.
        case inserted of
          None \<Rightarrow> bindR (pg_stored_replay db e h) (\<lambda>r. Ok (r, db, next_index, acc))
        | Some (_, db1) \<Rightarrow>
            bindR (try_fold (pg_insert_with_axes (e_id e)) (db1\<lparr>pg_xid := (pg_xid db1)(uuid_bytes (e_id e) := xid)\<rparr>)
              (enumerate 0 (e_postings e))) (\<lambda>db2.
            bindR (pg_check_limits db2 e) (\<lambda>_.
              Ok (\<lparr>rec_id = e_id e, rec_index = map_option (\<lambda>p. u64_or_zero (fst p)) place, rec_hash = h, rec_new = True\<rparr>,
                  db2, (case projected of None \<Rightarrow> next_index | Some _ \<Rightarrow> min i64_max (next_index + 1)),
                  (case projected of None \<Rightarrow> acc | Some a \<Rightarrow> a)))))))"

fun pg_append_all :: "env \<Rightarrow> placement \<Rightarrow> nat \<Rightarrow> entry list \<Rightarrow> pg_append_state
    \<Rightarrow> (sqlite_error, recorded_entry list \<times> pg_append_state) res" where
  "pg_append_all E placement xid [] st = Ok ([], st)"
| "pg_append_all E placement xid (e # es) st =
     bindR (pg_append_one E placement xid e st) (\<lambda>(r, st1).
     bindR (pg_append_all E placement xid es st1) (\<lambda>(rs, st2). Ok (r # rs, st2)))"

definition pg_accumulator :: "pg_db \<Rightarrow> (sqlite_error, accumulator) res" where
  "pg_accumulator db =
     bindR (try_map (\<lambda>r. bindR (pg_hash_from_bytes (sr_node r)) (\<lambda>h. Ok (if 0 \<le> sr_height r \<and> sr_height r < 256 then nat (sr_height r) else 0, h)))
       (sort_key sr_position (db_subtrees db))) (\<lambda>sts.
     map_err SqlAccumulator (try_from_parts sts (length (filter (\<lambda>r. er_index r \<noteq> None) (db_entries db)))))"

definition pg_subtree_rows :: "accumulator \<Rightarrow> subtree_row list" where
  "pg_subtree_rows acc =
     map (\<lambda>(pos, height, node). \<lparr>sr_height = int height, sr_node = hash_bytes node, sr_position = i16_or_max pos\<rparr>)
       (enumerate 0 (subtrees acc))"

definition pg_store_accumulator :: "accumulator \<Rightarrow> pg_db \<Rightarrow> (sqlite_error, pg_db) res" where
  "pg_store_accumulator acc db =
     (if distinct (map sr_height (pg_subtree_rows acc)) then Ok (db\<lparr>db_subtrees := pg_subtree_rows acc\<rparr>) else Err SqlDatabase)"

text \<open>\<^verbatim>\<open>SELECT COALESCE(MAX(log_index) + 1, 0)\<close>.\<close>

definition pg_next_index :: "pg_db \<Rightarrow> (sqlite_error, int) res" where
  "pg_next_index db = (case sql_max (List.map_filter er_index (db_entries db)) of None \<Rightarrow> Ok 0 | Some m \<Rightarrow> to_bigint (m + 1))"

text \<open>The deferred triggers, run at commit for every posting row the transaction inserted.\<close>

definition rows_balance_per_currency :: "pg_db \<Rightarrow> byte list \<Rightarrow> bool" where
  "rows_balance_per_currency db i \<longleftrightarrow>
     (let rows = filter (\<lambda>r. po_entry r = i) (db_postings db) in
      list_all (\<lambda>c. sum_list (map (\<lambda>r. if po_direction r = lit ''D'' then po_amount r else - po_amount r)
          (filter (\<lambda>r. po_currency r = c) rows)) = 0)
        (map po_currency rows))"

definition rows_at_least_two :: "pg_db \<Rightarrow> byte list \<Rightarrow> bool" where
  "rows_at_least_two db i \<longleftrightarrow> 2 \<le> length (filter (\<lambda>r. po_entry r = i) (db_postings db))"

definition pg_commit :: "pg_db \<Rightarrow> pg_db \<Rightarrow> (sqlite_error, pg_db) res" where
  "pg_commit before after =
     (if list_all (\<lambda>r. rows_balance_per_currency after (po_entry r) \<and> rows_at_least_two after (po_entry r))
           (drop (length (db_postings before)) (db_postings after))
      then Ok after else Err SqlDatabase)"

definition pg_append :: "env \<Rightarrow> sequencing \<Rightarrow> nat \<Rightarrow> entry_batch \<Rightarrow> pg_db \<Rightarrow> (sqlite_error, recorded_entry list) res \<times> pg_db" where
  "pg_append E mode xid batch db =
     (case
        (case mode of
           Inline \<Rightarrow>
             bindR (pg_next_index db) (\<lambda>next_index.
             bindR (pg_accumulator db) (\<lambda>acc.
             bindR (pg_append_all E PlaceInline xid (eb_entries batch) (db, next_index, acc)) (\<lambda>(out, db1, _, acc1).
             bindR (pg_store_accumulator acc1 db1) (\<lambda>db2.
             bindR (pg_commit db db2) (\<lambda>db3. Ok (out, db3))))))
         | Deferred \<Rightarrow>
             bindR (pg_append_all E PlaceDeferred xid (eb_entries batch) (db, 0, acc_new)) (\<lambda>(out, db1, _).
             bindR (pg_commit db db1) (\<lambda>db2. Ok (out, db2))))
      of Err x \<Rightarrow> (Err x, db) | Ok (out, db') \<Rightarrow> (Ok out, db'))"

section \<open>Sequencing\<close>

text \<open>The rows that can be placed: no position yet, and their transaction older than every open one.\<close>

definition settled_rows :: "nat \<Rightarrow> pg_db \<Rightarrow> entry_row list" where
  "settled_rows xmin db =
     sort_key (\<lambda>r. (pg_xid db (er_id r), er_id r)) (filter (\<lambda>r. er_index r = None \<and> pg_xid db (er_id r) < xmin) (db_entries db))"

text \<open>\<^verbatim>\<open>UPDATE entries SET log_index, tree_root WHERE entry_id\<close>, under the unique index of positions.\<close>

definition update_position :: "byte list \<Rightarrow> int \<Rightarrow> hash \<Rightarrow> pg_db \<Rightarrow> (sqlite_error, pg_db) res" where
  "update_position i index root db =
     (if index < 0 \<or> list_ex (\<lambda>q. er_index q = Some index \<and> er_id q \<noteq> i) (db_entries db) then Err SqlDatabase
      else Ok (db\<lparr>db_entries := map (\<lambda>r. if er_id r = i then r\<lparr>er_index := Some index, er_root := Some (hash_bytes root)\<rparr> else r)
                   (db_entries db)\<rparr>))"

definition place_row :: "env \<Rightarrow> pg_append_state \<times> nat \<Rightarrow> entry_row \<Rightarrow> (sqlite_error, pg_append_state \<times> nat) res" where
  "place_row E st row =
     (case st of ((db, index, acc), cnt) \<Rightarrow>
      bindR (pg_hash_from_bytes (er_hash row)) (\<lambda>h.
      let acc1 = snd (acc_push (env_b3 E) acc h) in
      bindR (update_position (er_id row) index (acc_root (env_b3 E) acc1) db) (\<lambda>db1.
        Ok ((db1, min i64_max (index + 1), acc1), min u64_max (cnt + 1)))))"

definition pg_sequence :: "env \<Rightarrow> sequencing \<Rightarrow> nat \<Rightarrow> pg_db \<Rightarrow> (sqlite_error, nat) res \<times> pg_db" where
  "pg_sequence E mode xmin db =
     (if mode = Inline then (Ok 0, db)
      else let rows = settled_rows xmin db in
        if rows = [] then (Ok 0, db)
        else case
          bindR (pg_next_index db) (\<lambda>index.
          bindR (pg_accumulator db) (\<lambda>acc.
          bindR (try_fold (place_row E) ((db, index, acc), 0) rows) (\<lambda>((db1, _, acc1), cnt).
          bindR (pg_store_accumulator acc1 db1) (\<lambda>db2. Ok (cnt, db2)))))
        of Err x \<Rightarrow> (Err x, db) | Ok (cnt, db') \<Rightarrow> (Ok cnt, db'))"

section \<open>Reading the log\<close>

definition pg_get :: "env \<Rightarrow> pg_db \<Rightarrow> entry_id \<Rightarrow> (sqlite_error, stored_entry option) res" where
  "pg_get E db i =
     (case find (\<lambda>r. er_id r = uuid_bytes i) (db_entries db) of
        None \<Rightarrow> Ok None
      | Some row \<Rightarrow>
          bindR (pg_load_postings_for db [uuid_bytes i]) (\<lambda>grouped.
          bindR (pg_build_stored_entry E row (case bt_get grouped (uuid_bytes i) of None \<Rightarrow> [] | Some ps \<Rightarrow> ps)) (\<lambda>s. Ok (Some s))))"

definition pg_len :: "pg_db \<Rightarrow> nat" where
  "pg_len db = length (filter (\<lambda>r. er_index r \<noteq> None) (db_entries db))"

definition pg_page :: "env \<Rightarrow> pg_db \<Rightarrow> cursor \<Rightarrow> (sqlite_error, log_page) res" where
  "pg_page E db c =
     (let after = (case cu_after c of None \<Rightarrow> - 1 | Some i \<Rightarrow> i64_or_max i);
          rows = take (effective_limit c) (filter (\<lambda>r. case er_index r of None \<Rightarrow> False | Some i \<Rightarrow> after < i) (sequenced db)) in
      bindR (pg_load_postings_for db (map er_id rows)) (\<lambda>grouped.
      bindR (try_map (\<lambda>row. pg_build_stored_entry E row (case bt_get grouped (er_id row) of None \<Rightarrow> [] | Some ps \<Rightarrow> ps)) rows) (\<lambda>records.
        Ok \<lparr>pg_records = records,
            pg_next = (if records = [] then None else
              (case se_index (last records) of
                 None \<Rightarrow> None
               | Some index \<Rightarrow> if min u64_max (index + 1) < pg_len db
                               then Some \<lparr>cu_after = Some index, cu_limit = cu_limit c\<rparr> else None))\<rparr>)))"

definition pg_head :: "env \<Rightarrow> pg_db \<Rightarrow> (sqlite_error, tree_head) res" where
  "pg_head E db =
     (let rows = sequenced db in
      if rows = [] then Ok \<lparr>th_size = 0, th_root = empty_root (env_b3 E)\<rparr>
      else case (er_index (last rows), er_root (last rows)) of
        (Some i, Some root) \<Rightarrow>
          bindR (pg_hash_from_bytes root) (\<lambda>h. Ok \<lparr>th_size = min u64_max (u64_or_zero i + 1), th_root = h\<rparr>)
      | _ \<Rightarrow> Err SqlDatabase)"

definition pg_head_at :: "env \<Rightarrow> pg_db \<Rightarrow> nat \<Rightarrow> (sqlite_error, tree_head) res" where
  "pg_head_at E db n =
     (if n = 0 then Ok \<lparr>th_size = 0, th_root = empty_root (env_b3 E)\<rparr>
      else case find (\<lambda>r. er_index r = Some (i64_or_max (n - 1))) (db_entries db) of
        None \<Rightarrow> Err (SqlProof (SizeOutOfRange n 0))
      | Some r \<Rightarrow>
          bindR (ok_or (er_root r) SqlDatabase) (\<lambda>root.
          bindR (pg_hash_from_bytes root) (\<lambda>h. Ok \<lparr>th_size = n, th_root = h\<rparr>)))"

text \<open>\<^verbatim>\<open>leaves\<close> checks the positions to be dense from zero.\<close>

definition pg_leaf :: "nat \<times> entry_row \<Rightarrow> (sqlite_error, hash) res" where
  "pg_leaf pr =
     (case pr of (pos, row) \<Rightarrow>
      bindR (ok_or (er_index row) SqlDatabase) (\<lambda>stored.
      if stored \<noteq> i64_or_max pos then Err (LogNotDense (u64_or_zero (i64_or_max pos)) (u64_or_zero stored))
      else pg_hash_from_bytes (er_hash row)))"

definition pg_leaves :: "pg_db \<Rightarrow> (sqlite_error, hash list) res" where
  "pg_leaves db = try_map pg_leaf (enumerate 0 (sequenced db))"

definition pg_log :: "env \<Rightarrow> pg_db \<Rightarrow> (sqlite_error, merkle_log) res" where
  "pg_log E db = bindR (pg_leaves db) (\<lambda>ls. Ok (log_from_leaves (env_b3 E) ls))"

definition pg_prove_inclusion :: "env \<Rightarrow> pg_db \<Rightarrow> log_index \<Rightarrow> (sqlite_error, inclusion_proof) res" where
  "pg_prove_inclusion E db i = bindR (pg_log E db) (\<lambda>lg. map_err SqlProof (log_inclusion_proof (env_b3 E) lg i))"

definition pg_prove_inclusion_at :: "env \<Rightarrow> pg_db \<Rightarrow> log_index \<Rightarrow> nat \<Rightarrow> (sqlite_error, inclusion_proof) res" where
  "pg_prove_inclusion_at E db i n = bindR (pg_log E db) (\<lambda>lg. map_err SqlProof (inclusion_proof_at (env_b3 E) lg i n))"

definition pg_prove_consistency :: "env \<Rightarrow> pg_db \<Rightarrow> nat \<Rightarrow> (sqlite_error, consistency_proof) res" where
  "pg_prove_consistency E db m = bindR (pg_log E db) (\<lambda>lg. map_err SqlProof (log_consistency_proof (env_b3 E) lg m))"

definition pg_prove_consistency_between :: "env \<Rightarrow> pg_db \<Rightarrow> nat \<Rightarrow> nat \<Rightarrow> (sqlite_error, consistency_proof) res" where
  "pg_prove_consistency_between E db m n =
     bindR (pg_log E db) (\<lambda>lg. map_err SqlProof (consistency_proof_between (env_b3 E) lg m n))"

section \<open>Balances\<close>

definition pg_both_sums :: "posting_row list \<Rightarrow> (sqlite_error, balance) res" where
  "pg_both_sums rows =
     bindR (pg_sum (map po_amount (filter (\<lambda>r. po_direction r = lit ''D'') rows))) (\<lambda>d.
     bindR (pg_sum (map po_amount (filter (\<lambda>r. po_direction r = lit ''C'') rows))) (\<lambda>c.
       Ok \<lparr>debits = from_minor d, credits = from_minor c\<rparr>))"

definition pg_balance :: "pg_db \<Rightarrow> balance_key \<Rightarrow> nat option \<Rightarrow> (sqlite_error, balance) res" where
  "pg_balance db key n =
     pg_both_sums (filter (pg_matches key)
       (joined db (\<lambda>e. case er_index e of None \<Rightarrow> False | Some i \<Rightarrow> i < pg_prefix_bound n)))"

text \<open>\<^verbatim>\<open>GROUP BY account, currency, layer\<close> with the sums of every group, in the order of the groups.\<close>

definition pg_grouped_sums :: "posting_row list \<Rightarrow> (sqlite_error, ((int \<times> ustr \<times> ustr) \<times> balance) list) res" where
  "pg_grouped_sums rows =
     try_map (\<lambda>g. bindR (pg_both_sums (filter (\<lambda>r. group_of r = g) rows)) (\<lambda>b. Ok (g, b))) (sort (remdups (map group_of rows)))"

definition pg_add_group :: "trial_balance \<Rightarrow> (int \<times> ustr \<times> ustr) \<times> balance \<Rightarrow> (sqlite_error, trial_balance) res" where
  "pg_add_group tb gb =
     (case gb of ((account, currency, layer), b) \<Rightarrow>
      bindR (map_err (\<lambda>_. SqlMalformed) (currency_new (str_trim currency))) (\<lambda>c.
      bindR (if layer = lit ''settled'' then Ok Settled else if layer = lit ''pending'' then Ok Pending else Err SqlMalformed) (\<lambda>l.
        Ok (tb_set tb (BalanceKey (AccountId (u32_or_zero account)) c l) b))))"

definition pg_trial_balance :: "pg_db \<Rightarrow> nat option \<Rightarrow> (sqlite_error, trial_balance) res" where
  "pg_trial_balance db n =
     bindR (pg_grouped_sums (joined db (\<lambda>e. case er_index e of None \<Rightarrow> False | Some i \<Rightarrow> i < pg_prefix_bound n)))
       (try_fold pg_add_group bt_empty)"

text \<open>Through a day, a layer that is not \<^verbatim>\<open>settled\<close> counts as pending.\<close>

definition pg_add_group_through :: "trial_balance \<Rightarrow> (int \<times> ustr \<times> ustr) \<times> balance \<Rightarrow> (sqlite_error, trial_balance) res" where
  "pg_add_group_through tb gb =
     (case gb of ((account, currency, layer), b) \<Rightarrow>
      bindR (map_err (\<lambda>_. SqlMalformed) (currency_new (str_trim currency))) (\<lambda>c.
        Ok (tb_set tb (BalanceKey (AccountId (u32_or_zero account)) c (if layer = lit ''settled'' then Settled else Pending)) b)))"

definition pg_trial_balance_through :: "pg_db \<Rightarrow> date \<Rightarrow> (sqlite_error, trial_balance) res" where
  "pg_trial_balance_through db end_day =
     bindR (pg_grouped_sums (joined db (\<lambda>e. er_index e \<noteq> None \<and> er_booking e \<le> end_day)))
       (try_fold pg_add_group_through bt_empty)"

end
