(* ===== verification/Postgres_Books.thy ===== *)
theory Postgres_Books
  imports Postgres_Log
begin

text \<open>
  The rest of \<^verbatim>\<open>src/storage/postgres.rs\<close>: periods and seals, clearings and open items, statements,
  balances of several accounts and checkpoints.
\<close>

section \<open>Periods\<close>

definition pg_period_of_row :: "period_row \<Rightarrow> (sqlite_error, period) res" where
  "pg_period_of_row row =
     bindR (map_err (\<lambda>_. SqlMalformed) (period_id_new (pr_id row))) (\<lambda>i.
     bindR (map_err (\<lambda>_. SqlMalformed) (period_new i (pr_starts row) (pr_ends row))) (\<lambda>p.
     bindR (ok_or (pg_period_state_from (pr_state row)) SqlMalformed) (\<lambda>s. Ok (p\<lparr>pd_state := s\<rparr>))))"

definition pg_periods :: "pg_db \<Rightarrow> (sqlite_error, period list) res" where
  "pg_periods db = try_map pg_period_of_row (sort_key pr_starts (db_periods db))"

definition pg_calendar :: "pg_db \<Rightarrow> (sqlite_error, calendar) res" where
  "pg_calendar db = bindR (pg_periods db) (\<lambda>ps. map_err SqlPeriod (from_periods ps))"

text \<open>
  The upsert, which overwrites the range and the state of a period already stored; the exclusion
  constraint refuses a range that shares a day with another period's.
\<close>

definition pg_define_period :: "period \<Rightarrow> pg_db \<Rightarrow> (sqlite_error, unit) res \<times> pg_db" where
  "pg_define_period p db =
     (let r = \<lparr>pr_id = label_str (period_label (pd_id p)), pr_starts = pd_start p, pr_ends = pd_end p,
               pr_state = pg_period_state_str (pd_state p)\<rparr> in
      if pr_ends r < pr_starts r then (Err SqlDatabase, db)
      else if list_ex (\<lambda>q. pr_id q \<noteq> pr_id r \<and> pr_starts q \<le> pr_ends r \<and> pr_starts r \<le> pr_ends q) (db_periods db)
      then (Err SqlDatabase, db)
      else (Ok (), db\<lparr>db_periods := upsert_period r (db_periods db)\<rparr>))"

definition pg_transition_period :: "period_id \<Rightarrow> period_state \<Rightarrow> pg_db \<Rightarrow> (sqlite_error, unit) res \<times> pg_db" where
  "pg_transition_period i to_state db =
     (case bindR (pg_calendar db) (\<lambda>c. map_err SqlPeriod (fst (transition i to_state c))) of
        Err x \<Rightarrow> (Err x, db)
      | Ok _ \<Rightarrow> (Ok (), db\<lparr>db_periods := set_state (label_str (period_label i)) (pg_period_state_str to_state) (db_periods db)\<rparr>))"

section \<open>Seals\<close>

definition pg_seal_of_row :: "ledger_id \<Rightarrow> seal_row \<Rightarrow> (sqlite_error, seal) res" where
  "pg_seal_of_row ledger row =
     bindR (map_err (\<lambda>_. SqlMalformed) (period_id_new (lr_period row))) (\<lambda>i.
     bindR (pg_hash_from_bytes (lr_tree_root row)) (\<lambda>tree.
     bindR (pg_hash_from_bytes (lr_balance_root row)) (\<lambda>balance.
     bindR (pg_hash_from_bytes (lr_accounts_root row)) (\<lambda>accts.
     bindR (case lr_prev row of None \<Rightarrow> Ok None | Some b \<Rightarrow> bindR (pg_hash_from_bytes b) (\<lambda>h. Ok (Some h))) (\<lambda>prev.
     bindR (pg_hash_from_bytes (lr_hash row)) (\<lambda>h.
       Ok \<lparr>sl_ledger = ledger, sl_period = i, sl_first = map_option u64_or_zero (lr_first row),
           sl_last = map_option u64_or_zero (lr_last row), sl_count = u64_or_zero (lr_count row),
           sl_tree_head = \<lparr>th_size = u64_or_zero (lr_tree_size row), th_root = tree\<rparr>,
           sl_trial_balance = \<lparr>th_size = u64_or_zero (lr_balance_size row), th_root = balance\<rparr>,
           sl_accounts = \<lparr>th_size = u64_or_zero (lr_accounts_size row), th_root = accts\<rparr>,
           sl_prev = prev, sl_hash = h\<rparr>))))))"

definition pg_seals :: "ledger_id \<Rightarrow> pg_db \<Rightarrow> (sqlite_error, seal list) res" where
  "pg_seals ledger db = try_map (pg_seal_of_row ledger) (sort_key lr_position (db_seals db))"

definition pg_seal_period :: "env \<Rightarrow> ledger_id \<Rightarrow> period_id \<Rightarrow> pg_db \<Rightarrow> (sqlite_error, seal) res \<times> pg_db" where
  "pg_seal_period E ledger i db =
     (case
        bindR (pg_calendar db) (\<lambda>c.
        bindR (map_err SqlPeriod (check_sealable c i)) (\<lambda>definition_of_period.
        bindR (pg_trial_balance_through db (pd_end definition_of_period)) (\<lambda>closing.
        bindR (pg_seals ledger db) (\<lambda>ss.
        bindR (map_err (\<lambda>_. SqlMalformed) (from_seals (env_b3 E) ledger ss)) (\<lambda>chain.
        bindR (pg_head E db) (\<lambda>head.
        bindR (pg_accounts db) (\<lambda>rs.
        bindR (map_err (\<lambda>_. SqlMalformed) (from_records rs)) (\<lambda>registry.
        let s = seal_build E ledger i (booked_in db (pd_start definition_of_period) (pd_end definition_of_period)) head closing
                  (commitment (env_b3 E) registry) (chain_head chain);
            row = seal_row_of (length (ch_seals chain)) s in
        if seal_row_ok db row
        then Ok (s, db\<lparr>db_seals := db_seals db @ [row],
                      db_periods := set_state (label_str (period_label i)) (lit ''sealed'') (db_periods db)\<rparr>)
        else Err SqlDatabase))))))))
      of Err x \<Rightarrow> (Err x, db) | Ok (s, db') \<Rightarrow> (Ok s, db'))"

section \<open>Clearings\<close>

text \<open>What the clearings that have not been released apply to one posting, exactly.\<close>

definition pg_applied :: "pg_db \<Rightarrow> byte list \<Rightarrow> int \<Rightarrow> int" where
  "pg_applied db entry posting_index =
     sum_list (concat (map (\<lambda>ci. map (\<lambda>_. cx_applied ci)
         (filter (\<lambda>c. cw_id c = cx_clearing ci \<and> cw_reset c = None) (db_clearings db)))
       (filter (\<lambda>ci. cx_entry ci = entry \<and> cx_posting ci = posting_index) (db_clearing_items db))))"

definition pg_posting_facts :: "pg_db \<Rightarrow> posting_ref \<Rightarrow> (sqlite_error, posting_facts) res" where
  "pg_posting_facts db r =
     (case find (\<lambda>p. po_entry p = uuid_bytes (ref_entry r) \<and> po_index p = i16_or_max (unat (ref_index r))) (db_postings db) of
        None \<Rightarrow> Err (SqlClearing (UnknownPosting r))
      | Some p \<Rightarrow>
          bindR (to_bigint (po_amount p - pg_applied db (po_entry p) (po_index p))) (\<lambda>residual.
          bindR (map_err (\<lambda>_. SqlMalformed) (currency_new (str_trim (po_currency p)))) (\<lambda>c.
            Ok \<lparr>pf_direction = (if po_direction p = lit ''D'' then Debit else Credit),
                pf_account = AccountId (u32_or_zero (po_account p)), pf_currency = c,
                pf_layer = (if po_layer p = lit ''pending'' then Pending else Settled),
                pf_residual = from_minor residual\<rparr>)))"

definition pg_check_item :: "env \<Rightarrow> pg_db \<Rightarrow> clearing \<Rightarrow> balance \<Rightarrow> cleared_item \<Rightarrow> (sqlite_error, balance) res" where
  "pg_check_item E db c sides item =
     bindR (pg_posting_facts db (ci_posting item)) (\<lambda>facts.
     if pf_account facts \<noteq> cl_account c then Err (SqlClearing (WrongAccount (ci_posting item) (cl_account c)))
     else if pf_currency facts \<noteq> cl_currency c then Err (SqlClearing (WrongCurrency (ci_posting item) (cl_currency c)))
     else if pf_layer facts \<noteq> cl_layer c then Err (SqlClearing (WrongLayer (ci_posting item) (cl_layer c)))
     else if ci_applied item > pf_residual facts
     then Err (SqlClearing (OverApplied (ci_posting item) (to_minor (ci_applied item)) (to_minor (pf_residual facts)) (env_prec E)))
     else map_err SqlMoney (balance_add sides (pf_direction facts) (ci_applied item)))"

definition pg_item_row_of :: "clearing_id \<Rightarrow> cleared_item \<Rightarrow> clearing_item_row" where
  "pg_item_row_of i item =
     \<lparr>cx_clearing = clearing_bytes i, cx_entry = uuid_bytes (ref_entry (ci_posting item)),
      cx_posting = i16_or_max (unat (ref_index (ci_posting item))), cx_applied = amt (ci_applied item)\<rparr>"

text \<open>The rows of a clearing, under the foreign key to its account and the primary key of its items.\<close>

definition pg_insert_clearing :: "clearing \<Rightarrow> pg_db \<Rightarrow> (sqlite_error, pg_db) res" where
  "pg_insert_clearing c db =
     (let rows = map (pg_item_row_of (cl_id c)) (cl_items c) in
      if \<not> list_ex (\<lambda>a. ar_index a = pg_account (cl_account c)) (db_accounts db)
         \<or> \<not> distinct (map (\<lambda>r. (cx_entry r, cx_posting r)) rows)
      then Err SqlDatabase
      else Ok (db\<lparr>
        db_clearings := db_clearings db @ [\<lparr>cw_id = clearing_bytes (cl_id c), cw_account = pg_account (cl_account c),
          cw_currency = currency_code (cl_currency c), cw_layer = pg_layer_str (cl_layer c), cw_cleared = cleared_on c, cw_reset = None\<rparr>],
        db_clearing_items := db_clearing_items db @ rows\<rparr>))"

definition pg_clear :: "env \<Rightarrow> clearing \<Rightarrow> pg_db \<Rightarrow> (sqlite_error, unit) res \<times> pg_db" where
  "pg_clear E c db =
     (case
        bindR (guardR (2 \<le> length (cl_items c)) (SqlClearing (TooFewItems (length (cl_items c))))) (\<lambda>_.
        bindR (try_fold check_items_alone [] (cl_items c)) (\<lambda>_.
        if list_ex (\<lambda>r. cw_id r = clearing_bytes (cl_id c)) (db_clearings db)
        then Err (SqlClearing (ClearingDuplicateId (cl_id c)))
        else bindR (try_fold (pg_check_item E db c) balance_zero (cl_items c)) (\<lambda>sides.
          if \<not> is_balanced sides
          then Err (SqlClearing (ClearingUnbalanced (to_minor (debits sides)) (to_minor (credits sides)) (env_prec E)))
          else pg_insert_clearing c db)))
      of Err x \<Rightarrow> (Err x, db) | Ok db' \<Rightarrow> (Ok (), db'))"

definition pg_reset_clearing :: "clearing_id \<Rightarrow> date \<Rightarrow> pg_db \<Rightarrow> (sqlite_error, unit) res \<times> pg_db" where
  "pg_reset_clearing i on db =
     (let matched = (\<lambda>r. cw_id r = clearing_bytes i \<and> cw_reset r = None) in
      if list_ex matched (db_clearings db)
      then (Ok (), db\<lparr>db_clearings := map (\<lambda>r. if matched r then r\<lparr>cw_reset := Some on\<rparr> else r) (db_clearings db)\<rparr>)
      else (Err (ClearingNotResettable i), db))"

section \<open>Statements and open items\<close>

text \<open>
  Postings of one key joined to their sequenced entries, in log order. The posting a cursor names is bound
  as a \<^verbatim>\<open>SMALLINT\<close>.
\<close>

definition pg_placed :: "pg_db \<Rightarrow> balance_key \<Rightarrow> ((int \<times> int) \<times> entry_row \<times> posting_row) list" where
  "pg_placed db key =
     sort_key fst
       (concat (map (\<lambda>p. List.map_filter (\<lambda>e. if er_id e = po_entry p then map_option (\<lambda>i. ((i, po_index p), e, p)) (er_index e) else None)
           (db_entries db))
         (filter (pg_matches key) (db_postings db))))"

text \<open>The view \<^verbatim>\<open>open_items\<close> on one key.\<close>

definition pg_open_row :: "pg_db \<Rightarrow> (int \<times> int) \<times> entry_row \<times> posting_row \<Rightarrow> (sqlite_error, (int \<times> int) \<times> posting_row \<times> int) res" where
  "pg_open_row db row =
     (case row of (at, _, p) \<Rightarrow>
      bindR (to_bigint (pg_applied db (po_entry p) (po_index p))) (\<lambda>applied_minor. Ok (at, p, applied_minor)))"

definition pg_item_of_row :: "(int \<times> int) \<times> posting_row \<times> int \<Rightarrow> open_item" where
  "pg_item_of_row row =
     (case row of ((i, k), p, applied_minor) \<Rightarrow>
      \<lparr>oi_position = \<lparr>pos_index = u64_or_zero i, pos_posting = u16_or_zero k\<rparr>,
       oi_posting = PostingRef (pg_uuid (po_entry p)) (u16_or_zero k),
       oi_direction = (if po_direction p = lit ''D'' then Debit else Credit), oi_original = from_minor (po_amount p),
       oi_applied = from_minor applied_minor, oi_residual = from_minor (po_amount p - applied_minor)\<rparr>)"

definition pg_open_items :: "pg_db \<Rightarrow> balance_key \<Rightarrow> posting_cursor \<Rightarrow> (sqlite_error, open_item_page) res" where
  "pg_open_items db key c =
     (let after = (case pc_after c of None \<Rightarrow> (- 1, - 1) | Some p \<Rightarrow> (i64_or_max (pos_index p), i16_or_max (unat (pos_posting p))));
          limit = posting_effective_limit c in
      bindR (try_map (pg_open_row db) (pg_placed db key)) (\<lambda>all.
      let rows = take (limit + 1) (filter (\<lambda>(at, p, applied_minor). 0 < po_amount p - applied_minor \<and> after < at) all);
          items = map pg_item_of_row (take limit rows) in
        Ok \<lparr>op_items = items,
            op_next = (if items \<noteq> [] \<and> limit < length rows
                       then Some \<lparr>pc_after = Some (oi_position (last items)), pc_limit = pc_limit c\<rparr> else None)\<rparr>))"

definition pg_line_of_row :: "statement_line list \<times> balance \<Rightarrow> (int \<times> int) \<times> entry_row \<times> posting_row
    \<Rightarrow> (sqlite_error, statement_line list \<times> balance) res" where
  "pg_line_of_row st row =
     (case (st, row) of ((lines, running), ((i, k), e, p)) \<Rightarrow>
      let d = (if po_direction p = lit ''D'' then Debit else Credit);
          kind = Option.bind (er_kind e) (\<lambda>s. case label_new s of Err _ \<Rightarrow> None | Ok l \<Rightarrow> Some l) in
      bindR (map_err SqlMoney (balance_add running d (from_minor (po_amount p)))) (\<lambda>b.
        Ok (lines @ [\<lparr>ln_index = u64_or_zero i, ln_posting = PostingRef (pg_uuid (er_id e)) (u16_or_zero k),
               ln_booking_date = er_booking e, ln_direction = d, ln_amount = from_minor (po_amount p), ln_running = b,
               ln_kind = kind\<rparr>], b)))"

definition pg_statement :: "pg_db \<Rightarrow> balance_key \<Rightarrow> posting_cursor \<Rightarrow> (sqlite_error, statement_page) res" where
  "pg_statement db key c =
     (let after = (case pc_after c of None \<Rightarrow> (- 1, - 1)
                   | Some p \<Rightarrow> (i64_or_max (pos_index p), i16_or_max (unat (pos_posting p))));
          limit = posting_effective_limit c; all = pg_placed db key in
      bindR (case pc_after c of
          None \<Rightarrow> Ok balance_zero
        | Some _ \<Rightarrow> pg_both_sums (map (\<lambda>(_, _, p). p) (filter (\<lambda>(at, _). at \<le> after) all))) (\<lambda>opening.
      let rows = take (limit + 1) (filter (\<lambda>(at, _). after < at) all) in
      bindR (try_fold pg_line_of_row ([], opening) (take limit rows)) (\<lambda>(lines, _).
        Ok \<lparr>sp_lines = lines,
            sp_next = (if lines \<noteq> [] \<and> limit < length rows
                       then Some \<lparr>pc_after = Some (line_position (last lines)), pc_limit = pc_limit c\<rparr> else None)\<rparr>)))"

section \<open>Several balances, checkpoints\<close>

definition pg_balances :: "pg_db \<Rightarrow> account_id list \<Rightarrow> currency \<Rightarrow> layer \<Rightarrow> nat option
    \<Rightarrow> (sqlite_error, (account_id, balance) btmap) res" where
  "pg_balances db wanted currency layer n =
     (let rows = filter (\<lambda>r. po_account r \<in> set (map pg_account wanted) \<and> po_currency r = currency_code currency
                   \<and> po_layer r = pg_layer_str layer)
                 (joined db (\<lambda>e. case er_index e of None \<Rightarrow> False | Some i \<Rightarrow> i < pg_prefix_bound n)) in
      try_fold (\<lambda>out a. bindR (pg_both_sums (filter (\<lambda>r. po_account r = a) rows)) (\<lambda>b. Ok (bt_insert (AccountId (u32_or_zero a)) b out)))
        bt_empty (remdups (map po_account rows)))"

definition pg_checkpoint_at :: "balance_key \<Rightarrow> checkpoint_row \<Rightarrow> bool" where
  "pg_checkpoint_at key r \<longleftrightarrow>
     kr_account r = pg_account (k_account key) \<and> kr_currency r = currency_code (k_currency key) \<and> kr_layer r = pg_layer_str (k_layer key)"

definition pg_save_checkpoint :: "checkpoint \<Rightarrow> pg_db \<Rightarrow> pg_db" where
  "pg_save_checkpoint c db =
     (let row = \<lparr>kr_account = pg_account (k_account (cp_key c)), kr_currency = currency_code (k_currency (cp_key c)),
                 kr_layer = pg_layer_str (k_layer (cp_key c)), kr_debits = amt (debits (cp_balance c)),
                 kr_credits = amt (credits (cp_balance c)),
                 kr_size = i64_or_max (th_size (cp_tree_head c)), kr_root = hash_bytes (th_root (cp_tree_head c))\<rparr> in
      db\<lparr>db_checkpoints := (if list_ex (pg_checkpoint_at (cp_key c)) (db_checkpoints db)
           then map (\<lambda>r. if pg_checkpoint_at (cp_key c) r then row else r) (db_checkpoints db)
           else db_checkpoints db @ [row])\<rparr>)"

definition pg_load_checkpoint :: "pg_db \<Rightarrow> balance_key \<Rightarrow> (sqlite_error, checkpoint option) res" where
  "pg_load_checkpoint db key =
     (case find (pg_checkpoint_at key) (db_checkpoints db) of
        None \<Rightarrow> Ok None
      | Some r \<Rightarrow>
          bindR (pg_hash_from_bytes (kr_root r)) (\<lambda>h.
            Ok (Some (checkpoint_new key \<lparr>debits = from_minor (kr_debits r), credits = from_minor (kr_credits r)\<rparr>
              \<lparr>th_size = u64_or_zero (kr_size r), th_root = h\<rparr>))))"

end
