(* ===== verification/Postgres_Sequence.thy ===== *)
theory Postgres_Sequence
  imports Postgres_Books Sqlite_Appends
begin

text \<open>
  The log of the PostgreSQL backend: what is stored of it, and that appending in either mode and passes of
  \<^verbatim>\<open>sequence\<close> keep it dense, rooted and in order.
\<close>

section \<open>The log that is stored\<close>

definition leaf_of :: "entry_row \<Rightarrow> hash" where
  "leaf_of r = hash_from_bytes (er_hash r)"

definition log_leaves :: "'a sqlite_db_scheme \<Rightarrow> hash list" where
  "log_leaves db = map leaf_of (sequenced db)"

text \<open>The rows that have a position have them in order from zero, each with the root of the log up to it.\<close>

definition rows_in_place :: "env \<Rightarrow> entry_row list \<Rightarrow> bool" where
  "rows_in_place E rows \<longleftrightarrow>
     (\<forall>k<length rows. er_index (rows ! k) = Some (int k)
        \<and> er_root (rows ! k) = Some (hash_bytes (mth (env_b3 E) (map leaf_of (take (Suc k) rows)))))"

definition log_stored :: "env \<Rightarrow> 'a sqlite_db_scheme \<Rightarrow> accumulator \<Rightarrow> bool" where
  "log_stored E db acc \<longleftrightarrow>
     distinct (map er_id (db_entries db)) \<and> (\<forall>r\<in>set (db_entries db). length (er_hash r) = 32)
     \<and> rows_in_place E (sequenced db) \<and> good_acc (env_b3 E) acc (log_leaves db)"

lemma log_storedD:
  assumes "log_stored E db acc"
  shows "distinct (map er_id (db_entries db))" "\<And>r. r \<in> set (db_entries db) \<Longrightarrow> length (er_hash r) = 32"
    "rows_in_place E (sequenced db)" "good_acc (env_b3 E) acc (log_leaves db)"
  using assms by (auto simp: log_stored_def)

lemma length_log_leaves [simp]: "length (log_leaves db) = length (sequenced db)"
  by (simp add: log_leaves_def)

lemma mset_sequenced: "mset (sequenced db) = mset (filter (\<lambda>r. er_index r \<noteq> None) (db_entries db))"
  by (simp only: sequenced_def mset_sort)

lemma length_sequenced: "length (sequenced db) = length (filter (\<lambda>r. er_index r \<noteq> None) (db_entries db))"
  by (simp add: sequenced_def)

lemma sequenced_le: "length (sequenced db) \<le> length (db_entries db)"
  by (simp add: length_sequenced)

lemma set_sequenced: "set (sequenced db) = {r \<in> set (db_entries db). er_index r \<noteq> None}"
  by (auto simp: sequenced_def)

lemma in_place_snoc:
  "rows_in_place E (rows @ [r]) \<longleftrightarrow> rows_in_place E rows \<and> er_index r = Some (int (length rows))
     \<and> er_root r = Some (hash_bytes (mth (env_b3 E) (map leaf_of (rows @ [r]))))"
  by (auto simp: rows_in_place_def nth_append less_Suc_eq)

text \<open>Sorting by distinct positions is determined by the rows.\<close>

lemma sequenced_unique:
  assumes "mset rows = mset (filter (\<lambda>r. er_index r \<noteq> None) (db_entries db))"
    and "\<And>k. k < length rows \<Longrightarrow> er_index (rows ! k) = Some (int k)"
  shows "sequenced db = rows"
  unfolding sequenced_def
proof (rule sort_key_inj_key_eq)
  show "mset (filter (\<lambda>r. er_index r \<noteq> None) (db_entries db)) = mset rows" using assms(1) by simp
  have "inj_on er_index (set rows)"
  proof (rule inj_onI)
    fix r q
    assume rq: "r \<in> set rows" "q \<in> set rows" "er_index r = er_index q"
    obtain k m where "k < length rows" "r = rows ! k" "m < length rows" "q = rows ! m"
      using rq(1,2) unfolding in_set_conv_nth by blast
    then show "r = q" using rq(3) assms(2) by simp
  qed
  moreover have "set rows = set (filter (\<lambda>r. er_index r \<noteq> None) (db_entries db))"
    using assms(1) by (metis set_mset_mset)
  ultimately show "inj_on er_index (set (filter (\<lambda>r. er_index r \<noteq> None) (db_entries db)))" by simp
  show "sorted (map er_index rows)" by (simp add: sorted_iff_nth_mono assms(2))
qed

lemma sequenced_snoc:
  assumes "rows_in_place E (sequenced db)" "er_index r = Some (int (length (sequenced db)))"
    and "mset (filter (\<lambda>r. er_index r \<noteq> None) (db_entries db')) = add_mset r (mset (filter (\<lambda>r. er_index r \<noteq> None) (db_entries db)))"
  shows "sequenced db' = sequenced db @ [r]"
proof (rule sequenced_unique)
  show "mset (sequenced db @ [r]) = mset (filter (\<lambda>r. er_index r \<noteq> None) (db_entries db'))"
    by (simp only: mset_append mset_sequenced assms(3)) simp
qed (use assms(1,2) in \<open>auto simp: rows_in_place_def nth_append less_Suc_eq\<close>)

lemma sequenced_cong: "db_entries db' = db_entries db \<Longrightarrow> sequenced db' = sequenced db"
  by (simp add: sequenced_def)

lemma log_stored_cong: "db_entries db' = db_entries db \<Longrightarrow> log_stored E db' acc = log_stored E db acc"
  by (simp add: log_stored_def sequenced_def log_leaves_def)

section \<open>The next position and the accumulator\<close>

lemma in_place_positions:
  assumes "rows_in_place E (sequenced db)"
  shows "set (List.map_filter er_index (db_entries db)) = int ` {..<length (sequenced db)}"
proof -
  have "set (List.map_filter er_index (db_entries db)) = (\<lambda>r. the (er_index r)) ` set (sequenced db)"
    by (auto simp: set_sequenced List.map_filter_def)
  also have "\<dots> = int ` {..<length (sequenced db)}"
    using assms by (force simp: rows_in_place_def in_set_conv_nth image_iff)
  finally show ?thesis .
qed

lemma foldl_max_Max: "foldl max x xs = Max (insert x (set xs))" for x :: int
proof (induction xs arbitrary: x)
  case (Cons y ys)
  have "Max (insert (max x y) (set ys)) = Max (insert x (insert y (set ys)))"
    by (cases "ys = []") (simp_all add: max.assoc)
  then show ?case using Cons.IH by simp
qed simp

lemma sql_max_Max: "xs \<noteq> [] \<Longrightarrow> sql_max xs = Some (Max (set xs))"
  by (cases xs) (simp_all add: sql_max_def foldl_max_Max)

lemma Max_int_upto: "0 < n \<Longrightarrow> Max (int ` {..<n}) = int n - 1"
  by (intro Max_eqI) (auto intro!: image_eqI [of _ _ "n - 1"])

lemma pg_next_index_eq:
  assumes "rows_in_place E (sequenced db)" "int (length (sequenced db)) \<le> i64_max"
  shows "pg_next_index db = Ok (int (length (sequenced db)))"
proof -
  note found = in_place_positions [OF assms(1)]
  show ?thesis
  proof (cases "sequenced db")
    case Nil
    then have "List.map_filter er_index (db_entries db) = []" using found by simp
    then show ?thesis by (simp add: pg_next_index_def sql_max_def Nil)
  next
    case Cons
    then have "0 < length (sequenced db)" by simp
    moreover from this have "List.map_filter er_index (db_entries db) \<noteq> []" using found by (metis empty_set image_is_empty lessThan_iff empty_iff)
    ultimately show ?thesis
      using assms(2) by (simp add: pg_next_index_def sql_max_Max found Max_int_upto to_bigint_def in_i64_def i64_min_def)
  qed
qed

lemma pg_hash_from_bytes_eq: "pg_hash_from_bytes = sql_hash"
  by (simp add: fun_eq_iff pg_hash_from_bytes_def sql_hash_def)

lemma pg_subtree_rows_short:
  assumes "length (subtrees acc) \<le> 64"
  shows "pg_subtree_rows acc = subtree_rows acc"
proof -
  have "i16_or_max k = i64_or_max k" if "k < length (subtrees acc)" for k
    using assms that by (simp add: i16_or_max_def)
  then show ?thesis unfolding pg_subtree_rows_def subtree_rows_def by (auto simp: in_set_enumerate_eq)
qed

lemma pg_subtree_rows_eq:
  assumes "good_acc b3 acc ls" "length ls \<le> u64_max"
  shows "pg_subtree_rows acc = subtree_rows acc"
  by (rule pg_subtree_rows_short) (rule subtrees_stored(4) [OF assms])

lemma pg_accumulator_load: "pg_accumulator db = load_accumulator db"
  by (simp add: pg_accumulator_def load_accumulator_def pg_hash_from_bytes_eq)

lemma pg_accumulator_eq:
  assumes "log_stored E db acc" "db_subtrees db = pg_subtree_rows acc" "length (sequenced db) \<le> u64_max"
  shows "pg_accumulator db = Ok acc"
proof -
  note good = log_storedD(4) [OF assms(1)]
  have len: "length (log_leaves db) \<le> u64_max" using assms(3) by simp
  have "pg_accumulator db = load_accumulator db" by (rule pg_accumulator_load)
  moreover have "load_accumulator db = Ok acc"
    by (rule stored_accumulator [OF good len]) (simp_all add: assms(2) pg_subtree_rows_eq [OF good len] length_sequenced)
  ultimately show ?thesis by simp
qed

lemma pg_store_accumulator_eq:
  assumes "good_acc b3 acc ls" "length ls \<le> u64_max"
  shows "pg_store_accumulator acc db = Ok (db\<lparr>db_subtrees := pg_subtree_rows acc\<rparr>)"
  using subtrees_stored(1) [OF assms] by (simp add: pg_store_accumulator_def pg_subtree_rows_eq [OF assms])

section \<open>Placing rows\<close>

definition pending :: "'a sqlite_db_scheme \<Rightarrow> entry_row list" where
  "pending db = filter (\<lambda>r. er_index r = None) (db_entries db)"

definition placed_row :: "env \<Rightarrow> entry_row list \<Rightarrow> entry_row \<Rightarrow> entry_row" where
  "placed_row E before r =
     r\<lparr>er_index := Some (int (length before)), er_root := Some (hash_bytes (mth (env_b3 E) (map leaf_of before @ [leaf_of r])))\<rparr>"

fun placed_rows :: "env \<Rightarrow> entry_row list \<Rightarrow> entry_row list \<Rightarrow> entry_row list" where
  "placed_rows E before [] = []"
| "placed_rows E before (r # rs) = placed_row E before r # placed_rows E (before @ [placed_row E before r]) rs"

lemma placed_row_fields [simp]:
  "er_index (placed_row E before r) = Some (int (length before))" "er_id (placed_row E before r) = er_id r"
  "er_hash (placed_row E before r) = er_hash r" "leaf_of (placed_row E before r) = leaf_of r"
  "er_key (placed_row E before r) = er_key r"
  "er_root (placed_row E before r) = Some (hash_bytes (mth (env_b3 E) (map leaf_of before @ [leaf_of r])))"
  by (simp_all add: placed_row_def leaf_of_def)

lemma placed_rows_fields [simp]:
  "length (placed_rows E before rs) = length rs" "map er_id (placed_rows E before rs) = map er_id rs"
  "map leaf_of (placed_rows E before rs) = map leaf_of rs"
  by (induction rs arbitrary: before) simp_all

text \<open>A row keeps everything but a position and root it did not have.\<close>

definition row_kept :: "entry_row \<Rightarrow> entry_row \<Rightarrow> bool" where
  "row_kept r q \<longleftrightarrow> q\<lparr>er_index := er_index r, er_root := er_root r\<rparr> = r \<and> (er_index r \<noteq> None \<longrightarrow> q = r)"

lemma row_kept_refl [simp]: "row_kept r r"
  by (simp add: row_kept_def)

lemma row_kept_trans: "row_kept r q \<Longrightarrow> row_kept q p \<Longrightarrow> row_kept r p"
proof -
  assume rq: "row_kept r q" and qp: "row_kept q p"
  have "p\<lparr>er_index := er_index r, er_root := er_root r\<rparr>
      = (p\<lparr>er_index := er_index q, er_root := er_root q\<rparr>)\<lparr>er_index := er_index r, er_root := er_root r\<rparr>" by simp
  also have "\<dots> = r" using rq qp by (simp add: row_kept_def)
  finally show ?thesis using rq qp by (auto simp: row_kept_def)
qed

lemma row_kept_placed [simp]: "er_index r = None \<Longrightarrow> row_kept r (placed_row E before r)"
  by (simp add: row_kept_def placed_row_def)

definition beside_log :: "pg_db \<Rightarrow> pg_db" where
  "beside_log db = db\<lparr>db_entries := [], db_subtrees := []\<rparr>"

definition placed_in :: "env \<Rightarrow> entry_row list \<Rightarrow> pg_db \<Rightarrow> pg_db \<Rightarrow> bool" where
  "placed_in E rows db db1 \<longleftrightarrow>
     beside_log db1 = beside_log db
     \<and> sequenced db1 = sequenced db @ placed_rows E (sequenced db) rows
     \<and> pending db1 = filter (\<lambda>r. er_id r \<notin> er_id ` set rows) (pending db)
     \<and> list_all2 row_kept (db_entries db) (db_entries db1)"

lemma placed_in_Nil: "placed_in E [] db db"
  by (simp add: placed_in_def list_all2_refl)

lemma placed_in_Cons:
  assumes "placed_in E [r] db db1" "placed_in E rs db1 db2"
  shows "placed_in E (r # rs) db db2"
proof -
  have "list_all2 row_kept (db_entries db) (db_entries db2)"
    by (rule list_all2_trans [of row_kept row_kept row_kept, rotated, of _ "db_entries db1"])
      (use assms in \<open>auto simp: placed_in_def intro: row_kept_trans\<close>)
  then show ?thesis using assms by (auto simp: placed_in_def intro!: filter_cong)
qed

lemma place_row_ok:
  assumes log: "log_stored E db acc" and r: "r \<in> set (pending db)"
    and small: "int (length (sequenced db)) < i64_max" and n: "n = length (sequenced db)"
  shows "\<exists>db1 acc1. place_row E ((db, int n, acc), c) r = Ok ((db1, int (Suc n), acc1), min u64_max (c + 1))
    \<and> log_stored E db1 acc1 \<and> placed_in E [r] db db1"
proof -
  note l = log_storedD [OF log]
  let ?q = "placed_row E (sequenced db) r"
  have r': "r \<in> set (db_entries db)" "er_index r = None" using r by (auto simp: pending_def)
  obtain xs ys where split: "db_entries db = xs @ r # ys" using split_list [OF r'(1)] by blast
  have other: "er_id q \<noteq> er_id r" if "q \<in> set xs \<union> set ys" for q
  proof -
    have "er_id q \<in> er_id ` (set xs \<union> set ys)" using that by blast
    then show ?thesis using l(1) by (auto simp: split)
  qed
  define acc1 where "acc1 = snd (acc_push (env_b3 E) acc (leaf_of r))"
  have fits: "length (log_leaves db) < u64_max" using small by (simp add: i64_max_def u64_max_def)
  have good: "good_acc (env_b3 E) acc1 (log_leaves db @ [leaf_of r])"
    unfolding acc1_def by (rule acc_push_good(1) [OF l(4) fits])
  have root: "acc_root (env_b3 E) acc1 = mth (env_b3 E) (map leaf_of (sequenced db) @ [leaf_of r])"
    using acc_root_mth [OF good] by (simp add: log_leaves_def)
  define db1 where "db1 = db\<lparr>db_entries := xs @ ?q # ys\<rparr>"
  have map_rows: "map (\<lambda>q. if er_id q = er_id r then q\<lparr>er_index := Some (int n), er_root := Some (hash_bytes (acc_root (env_b3 E) acc1))\<rparr> else q) (db_entries db)
      = xs @ ?q # ys"
  proof -
    have "map (\<lambda>q. if er_id q = er_id r then f q else q) zs = zs" if "set zs \<subseteq> set xs \<union> set ys" for f zs
      by (rule map_idI) (use that other in auto)
    then show ?thesis unfolding split by (simp add: placed_row_def n root)
  qed
  have free: "\<not> list_ex (\<lambda>q. er_index q = Some (int n) \<and> er_id q \<noteq> er_id r) (db_entries db)"
  proof -
    have "er_index q \<noteq> Some (int n)" if "q \<in> set (db_entries db)" for q
    proof
      assume "er_index q = Some (int n)"
      then have "int n \<in> set (List.map_filter er_index (db_entries db))"
        using that by (force simp: List.map_filter_def)
      then show False unfolding in_place_positions [OF l(3)] n by auto
    qed
    then show ?thesis by (auto simp: list_ex_iff)
  qed
  have hash: "pg_hash_from_bytes (er_hash r) = Ok (leaf_of r)"
    using l(2) [OF r'(1)] by (simp add: pg_hash_from_bytes_def leaf_of_def)
  have step: "place_row E ((db, int n, acc), c) r = Ok ((db1, int (Suc n), acc1), min u64_max (c + 1))"
    using small [folded n] free
    by (simp add: place_row_def hash acc1_def update_position_def map_rows [unfolded acc1_def] db1_def Let_def min_def)
  have seq: "sequenced db1 = sequenced db @ [?q]"
    by (rule sequenced_snoc [OF l(3)]) (use r'(2) in \<open>simp_all add: db1_def split\<close>)
  have log1: "log_stored E db1 acc1"
    using l good r' by (auto simp: log_stored_def seq in_place_snoc log_leaves_def) (auto simp: db1_def split)
  have "pending db1 = filter (\<lambda>q. er_id q \<notin> er_id ` set [r]) (pending db)"
  proof -
    have "filter (\<lambda>q. er_index q = None) zs = filter (\<lambda>q. er_id q \<noteq> er_id r) (filter (\<lambda>q. er_index q = None) zs)"
      if "set zs \<subseteq> set xs \<union> set ys" for zs
      unfolding filter_filter by (rule filter_cong) (use that other in auto)
    then show ?thesis by (simp add: pending_def db1_def split)
  qed
  then have "placed_in E [r] db db1"
    using r'(2) by (auto simp: placed_in_def seq)
      (simp_all add: db1_def split list_all2_append list_all2_refl beside_log_def)
  then show ?thesis using step log1 by blast
qed

lemma place_rows_ok:
  assumes "log_stored E db acc" "set rows \<subseteq> set (pending db)" "distinct (map er_id rows)"
    and "int (length (sequenced db) + length rows) \<le> i64_max" "n = length (sequenced db)" "c \<le> u64_max"
  shows "\<exists>db1 acc1. try_fold (place_row E) ((db, int n, acc), c) rows = Ok ((db1, int (n + length rows), acc1), min u64_max (c + length rows))
    \<and> log_stored E db1 acc1 \<and> placed_in E rows db db1"
  using assms
proof (induction rows arbitrary: db acc n c)
  case Nil
  then show ?case by (simp add: placed_in_Nil)
next
  case (Cons r rs)
  obtain db1 acc1 where one: "place_row E ((db, int n, acc), c) r = Ok ((db1, int (Suc n), acc1), min u64_max (c + 1))"
      "log_stored E db1 acc1" "placed_in E [r] db db1"
    using place_row_ok [OF Cons.prems(1), of r n c] Cons.prems(2,4,5) by auto
  have len: "length (sequenced db1) = Suc n" using one(3) Cons.prems(5) by (simp add: placed_in_def)
  have "set rs \<subseteq> set (pending db1)"
    using Cons.prems(2,3) one(3) by (auto simp: placed_in_def image_iff)
  then obtain db2 acc2 where rest: "try_fold (place_row E) ((db1, int (Suc n), acc1), min u64_max (c + 1)) rs
        = Ok ((db2, int (Suc n + length rs), acc2), min u64_max (min u64_max (c + 1) + length rs))"
      "log_stored E db2 acc2" "placed_in E rs db1 db2"
    using Cons.IH [OF one(2), of "Suc n" "min u64_max (c + 1)"] Cons.prems(3,4,5) len by auto
  have "min u64_max (min u64_max (c + 1) + length rs) = min u64_max (c + length (r # rs))" by simp
  then show ?case using one rest placed_in_Cons [OF one(3) rest(3)] by auto
qed

section \<open>A sequencing pass\<close>

text \<open>The log of a database together with the accumulator kept for it.\<close>

definition log_sound :: "env \<Rightarrow> 'a sqlite_db_scheme \<Rightarrow> bool" where
  "log_sound E db \<longleftrightarrow> (\<exists>acc. log_stored E db acc \<and> db_subtrees db = pg_subtree_rows acc)"

lemma set_settled: "set (settled_rows xmin db) = {r \<in> set (pending db). pg_xid db (er_id r) < xmin}"
  by (auto simp: settled_rows_def pending_def)

lemma distinct_settled: "distinct (map er_id (db_entries db)) \<Longrightarrow> distinct (map er_id (settled_rows xmin db))"
  by (simp add: settled_rows_def distinct_map_filter distinct_map inj_on_def)

lemma placed_in_store: "placed_in E rows db db1 \<Longrightarrow> placed_in E rows db (db1\<lparr>db_subtrees := ts\<rparr>)"
  by (simp add: placed_in_def sequenced_def pending_def beside_log_def)

lemma pg_sequence_ok:
  assumes sound: "log_sound E db" and small: "int (length (db_entries db)) \<le> i64_max"
  shows "\<exists>db1. pg_sequence E Deferred xmin db = (Ok (length (settled_rows xmin db)), db1) \<and> log_sound E db1
    \<and> placed_in E (settled_rows xmin db) db db1"
proof -
  obtain acc where acc: "log_stored E db acc" "db_subtrees db = pg_subtree_rows acc" using sound by (auto simp: log_sound_def)
  let ?rows = "settled_rows xmin db"
  show ?thesis
  proof (cases "?rows = []")
    case True
    then show ?thesis using sound by (auto simp: pg_sequence_def placed_in_Nil)
  next
    case False
    have n: "int (length (sequenced db)) \<le> i64_max" "length (sequenced db) \<le> u64_max"
      using sequenced_le [of db] small by (simp_all add: i64_max_def u64_max_def)
    have "length ?rows \<le> length (pending db)"
      by (simp add: settled_rows_def pending_def length_filter_conv_card card_mono Collect_mono_iff)
    moreover have split: "length (sequenced db) + length (pending db) = length (db_entries db)"
      using sum_length_filter_compl [of "\<lambda>r. er_index r = None" "db_entries db"] by (simp add: length_sequenced pending_def)
    ultimately have total: "length (sequenced db) + length ?rows \<le> length (db_entries db)" by simp
    have "set ?rows \<subseteq> set (pending db)" by (auto simp: set_settled)
    then obtain db1 acc1 where rest: "try_fold (place_row E) ((db, int (length (sequenced db)), acc), 0) ?rows
          = Ok ((db1, int (length (sequenced db) + length ?rows), acc1), min u64_max (length ?rows))"
        "log_stored E db1 acc1" "placed_in E ?rows db db1"
      using place_rows_ok [OF acc(1) _ distinct_settled [OF log_storedD(1) [OF acc(1)]], of xmin "length (sequenced db)" 0] total small by auto
    have len: "length (log_leaves db1) \<le> u64_max"
      using rest(3) total small by (simp add: placed_in_def i64_max_def u64_max_def)
    note stored = pg_store_accumulator_eq [OF log_storedD(4) [OF rest(2)] len]
    have "pg_sequence E Deferred xmin db = (Ok (length ?rows), db1\<lparr>db_subtrees := pg_subtree_rows acc1\<rparr>)"
      using False total small
      by (simp add: pg_sequence_def Let_def pg_next_index_eq [OF log_storedD(3) [OF acc(1)] n(1)]
          pg_accumulator_eq [OF acc n(2)] rest(1) stored) (simp add: i64_max_def u64_max_def)
    moreover have "log_sound E (db1\<lparr>db_subtrees := pg_subtree_rows acc1\<rparr>)"
      unfolding log_sound_def using rest(2)
      by (intro exI [of _ acc1]) (simp add: log_stored_cong [of "db1\<lparr>db_subtrees := pg_subtree_rows acc1\<rparr>" db1])
    ultimately show ?thesis using placed_in_store [OF rest(3)] by blast
  qed
qed

section \<open>What an append adds\<close>

definition added :: "placement \<Rightarrow> nat \<Rightarrow> pg_db \<Rightarrow> pg_db \<Rightarrow> bool" where
  "added placement xid db db1 \<longleftrightarrow>
     (\<exists>new. db_entries db1 = db_entries db @ new
        \<and> (\<forall>r\<in>set new. pg_xid db1 (er_id r) = xid \<and> (placement = PlaceDeferred \<longrightarrow> er_index r = None)))
     \<and> (\<forall>r\<in>set (db_entries db). pg_xid db1 (er_id r) = pg_xid db (er_id r))
     \<and> db_subtrees db1 = db_subtrees db
     \<and> (\<exists>rows. sequenced db1 = sequenced db @ rows \<and> (placement = PlaceDeferred \<longrightarrow> rows = []))"

lemma addedI:
  assumes "db_entries db1 = db_entries db @ new"
    and "\<forall>r\<in>set new. pg_xid db1 (er_id r) = xid \<and> (placement = PlaceDeferred \<longrightarrow> er_index r = None)"
    and "\<forall>r\<in>set (db_entries db). pg_xid db1 (er_id r) = pg_xid db (er_id r)" "db_subtrees db1 = db_subtrees db"
    and "sequenced db1 = sequenced db @ rows" "placement = PlaceDeferred \<longrightarrow> rows = []"
  shows "added placement xid db db1"
  using assms by (auto simp: added_def)

lemma added_refl [simp]: "added placement xid db db"
  by (simp add: added_def)

lemma added_trans:
  assumes "added placement xid db db1" "added placement xid db1 db2"
  shows "added placement xid db db2"
proof -
  obtain new where new: "db_entries db1 = db_entries db @ new"
      "\<forall>r\<in>set new. pg_xid db1 (er_id r) = xid \<and> (placement = PlaceDeferred \<longrightarrow> er_index r = None)"
    using assms(1) by (auto simp: added_def)
  obtain new' where new': "db_entries db2 = db_entries db1 @ new'"
      "\<forall>r\<in>set new'. pg_xid db2 (er_id r) = xid \<and> (placement = PlaceDeferred \<longrightarrow> er_index r = None)"
    using assms(2) by (auto simp: added_def)
  have kept: "\<forall>r\<in>set (db_entries db1). pg_xid db2 (er_id r) = pg_xid db1 (er_id r)"
    using assms(2) by (simp add: added_def)
  have "\<exists>new. db_entries db2 = db_entries db @ new
      \<and> (\<forall>r\<in>set new. pg_xid db2 (er_id r) = xid \<and> (placement = PlaceDeferred \<longrightarrow> er_index r = None))"
    by (intro exI [of _ "new @ new'"]) (use new new' kept in auto)
  then show ?thesis using assms kept new(1) by (auto simp: added_def)
qed

definition same_log :: "pg_db \<Rightarrow> pg_db \<Rightarrow> bool" where
  "same_log db db1 \<longleftrightarrow> db_entries db1 = db_entries db \<and> db_subtrees db1 = db_subtrees db \<and> pg_xid db1 = pg_xid db"

lemma same_log_refl [simp]: "same_log db db"
  by (simp add: same_log_def)

lemma same_log_trans: "same_log a b \<Longrightarrow> same_log b c \<Longrightarrow> same_log a c"
  by (simp add: same_log_def)

lemma insert_dimension_same: "insert_dimension db r = Ok db1 \<Longrightarrow> same_log db db1"
  by (auto simp: insert_dimension_def same_log_def split: if_splits)

lemma insert_posting_same: "insert_posting db r = Ok db1 \<Longrightarrow> same_log db db1"
  by (auto simp: insert_posting_def same_log_def split: if_splits)

lemma insert_with_axes_same:
  assumes "pg_insert_with_axes i db kp = Ok db2"
  shows "same_log db db2"
proof -
  obtain db1 where db1: "insert_posting db (pg_posting_row_of i (fst kp) (snd kp)) = Ok db1"
      "try_fold insert_dimension db1 (pg_dimension_rows_of i (fst kp) (snd kp)) = Ok db2"
    using assms by (auto simp: pg_insert_with_axes_def split_beta)
  have "same_log db1 db2"
    by (rule try_fold_invariant [OF db1(2)]) (auto intro: same_log_trans insert_dimension_same)
  then show ?thesis using insert_posting_same [OF db1(1)] same_log_trans by blast
qed

lemma insert_all_same:
  assumes "try_fold (pg_insert_with_axes i) db kps = Ok db1"
  shows "same_log db db1"
  by (rule try_fold_invariant [OF assms]) (auto intro: same_log_trans insert_with_axes_same)

lemma pg_row_fields [simp]:
  "er_index (pg_entry_row_of E pl e) = map_option fst pl" "er_id (pg_entry_row_of E pl e) = uuid_bytes (e_id e)"
  "er_hash (pg_entry_row_of E pl e) = hash_bytes (content_hash E e)"
  "er_root (pg_entry_row_of E pl e) = map_option (\<lambda>p. hash_bytes (snd p)) pl"
  by (simp_all add: pg_entry_row_of_def)

lemma leaf_of_pg_row [simp]: "leaf_of (pg_entry_row_of E pl e) = content_hash E e"
  by (simp add: leaf_of_def hash_from_bytes_def hash_bytes_inverse)

end
