(* ===== verification/Postgres_Appends.thy ===== *)
theory Postgres_Appends
  imports Postgres_Sequence
begin

text \<open>
  What an append leaves of the log, in either mode, and the PostgreSQL backend as a state machine: concurrent
  transactions that hold back the sequencer, appends that commit in any order, and passes of \<^verbatim>\<open>sequence\<close>.
\<close>

section \<open>One entry, one batch\<close>

definition log_ready :: "env \<Rightarrow> placement \<Rightarrow> accumulator \<Rightarrow> pg_append_state \<Rightarrow> bool" where
  "log_ready E placement acc st \<longleftrightarrow>
     (case st of (db, n, a) \<Rightarrow> log_stored E db acc \<and> (placement = PlaceInline \<longrightarrow> n = int (length (sequenced db)) \<and> a = acc))"

lemma inserted_entry:
  assumes "insert_entry row db = Ok (Some (assigned, db1))"
  shows "db1 = db\<lparr>db_entries := db_entries db @ [row]\<rparr>" "er_id row \<notin> er_id ` set (db_entries db)"
  using assms by (auto simp: insert_entry_def entry_row_ok_def list_ex_iff split: if_splits)

lemma pg_append_one_adds:
  assumes "pg_append_one E placement xid e (db, n, a) = Ok (rec, db2, n2, a2)" "log_ready E placement acc (db, n, a)"
    and "int (length (db_entries db2)) \<le> i64_max"
  shows "\<exists>acc2. log_ready E placement acc2 (db2, n2, a2) \<and> added placement xid db db2"
proof -
  have l: "log_stored E db acc" using assms(2) by (simp add: log_ready_def)
  define pl where "pl = (case placement of PlaceInline \<Rightarrow> Some (n, acc_root (env_b3 E) (snd (acc_push (env_b3 E) a (content_hash E e)))) | PlaceDeferred \<Rightarrow> None)"
  obtain inserted where ins: "insert_entry (pg_entry_row_of E pl e) db = Ok inserted"
      "inserted = None \<longrightarrow> (db2, n2, a2) = (db, n, a)"
      "\<forall>assigned db1. inserted = Some (assigned, db1) \<longrightarrow>
         (\<exists>db3. try_fold (pg_insert_with_axes (e_id e)) (db1\<lparr>pg_xid := (pg_xid db1)(uuid_bytes (e_id e) := xid)\<rparr>) (enumerate 0 (e_postings e)) = Ok db3
          \<and> db2 = db3
          \<and> (placement = PlaceInline \<longrightarrow> n2 = min i64_max (n + 1) \<and> a2 = snd (acc_push (env_b3 E) a (content_hash E e))))"
    using assms(1) by (cases placement) (auto simp: pg_append_one_def Let_def pl_def split: if_splits option.splits)
  show ?thesis
  proof (cases inserted)
    case None
    then show ?thesis using ins(2) assms(2) by auto
  next
    case (Some p)
    obtain assigned db1 where p: "p = (assigned, db1)" by (cases p)
    let ?row = "pg_entry_row_of E pl e"
    note row = inserted_entry [OF ins(1) [unfolded Some p]]
    define db3 where "db3 = db1\<lparr>pg_xid := (pg_xid db1)(uuid_bytes (e_id e) := xid)\<rparr>"
    have same: "same_log db3 db2" and state: "placement = PlaceInline \<longrightarrow> n2 = min i64_max (n + 1) \<and> a2 = snd (acc_push (env_b3 E) a (content_hash E e))"
      using ins(3) Some p insert_all_same by (auto simp: db3_def)
    have db2: "db_entries db2 = db_entries db @ [?row]" "db_subtrees db2 = db_subtrees db" "pg_xid db2 = (pg_xid db)(uuid_bytes (e_id e) := xid)"
      using same by (simp_all add: same_log_def db3_def row(1))
    have distinct: "distinct (map er_id (db_entries db2))" using log_storedD(1) [OF l] row(2) by (simp add: db2)
    have hashes: "\<forall>r\<in>set (db_entries db2). length (er_hash r) = 32" using log_storedD(2) [OF l] by (auto simp: db2)
    have others: "\<forall>r\<in>set (db_entries db). pg_xid db2 (er_id r) = pg_xid db (er_id r)" using row(2) by (force simp: db2)
    show ?thesis
    proof (cases placement)
      case PlaceDeferred
      then have idx: "er_index ?row = None" by (simp add: pl_def)
      then have seq: "sequenced db2 = sequenced db" by (simp add: sequenced_def db2)
      have "log_ready E placement acc (db2, n2, a2)"
        using l distinct hashes by (simp add: log_ready_def log_stored_def PlaceDeferred seq log_leaves_def)
      moreover have "added placement xid db db2"
        by (rule addedI [where new = "[?row]" and rows = "[]"]) (use others in \<open>simp_all add: db2 seq pl_def PlaceDeferred\<close>)
      ultimately show ?thesis by blast
    next
      case PlaceInline
      have n: "n = int (length (sequenced db))" "a = acc" using assms(2) PlaceInline by (simp_all add: log_ready_def)
      have len: "Suc (length (sequenced db)) \<le> length (db_entries db2)" using sequenced_le [of db] by (simp add: db2)
      have fits: "length (log_leaves db) < u64_max" using len assms(3) by (simp add: i64_max_def u64_max_def)
      let ?acc = "snd (acc_push (env_b3 E) a (content_hash E e))"
      have good: "good_acc (env_b3 E) ?acc (log_leaves db @ [content_hash E e])"
        unfolding n(2) by (rule acc_push_good(1) [OF log_storedD(4) [OF l] fits])
      have seq: "sequenced db2 = sequenced db @ [?row]"
        by (rule sequenced_snoc [OF log_storedD(3) [OF l]]) (simp_all add: pl_def PlaceInline n db2)
      have "log_ready E placement ?acc (db2, n2, a2)"
        using log_storedD(3) [OF l] distinct hashes good state PlaceInline len assms(3) acc_root_mth [OF good]
        by (simp add: log_ready_def log_stored_def seq in_place_snoc log_leaves_def n pl_def min_def)
      moreover have "added placement xid db db2"
        by (rule addedI [where new = "[?row]" and rows = "[?row]"]) (use others in \<open>simp_all add: db2 seq PlaceInline\<close>)
      ultimately show ?thesis by blast
    qed
  qed
qed

lemma pg_append_one_longer:
  assumes "pg_append_one E placement xid e (db, n, a) = Ok (rec, db2, st)"
  shows "length (db_entries db) \<le> length (db_entries db2)"
proof -
  have "length (db_entries db) \<le> length (db_entries db3)"
    if "insert_entry row db = Ok (Some (assigned, db1))"
      "try_fold (pg_insert_with_axes i) (db1\<lparr>pg_xid := f\<rparr>) kps = Ok db3" for row assigned db1 i f kps db3
    using insert_all_same [OF that(2)] inserted_entry(1) [OF that(1)] by (simp add: same_log_def)
  then show ?thesis
    using assms by (auto simp: pg_append_one_def Let_def split: if_splits option.splits)
qed

lemma pg_append_all_longer:
  "pg_append_all E placement xid es (db, n, a) = Ok (out, db2, st) \<Longrightarrow> length (db_entries db) \<le> length (db_entries db2)"
proof (induction es arbitrary: db n a out)
  case (Cons e es)
  then obtain rec db1 n1 a1 out' where "pg_append_one E placement xid e (db, n, a) = Ok (rec, db1, n1, a1)"
      "pg_append_all E placement xid es (db1, n1, a1) = Ok (out', db2, st)"
    by auto
  then show ?case using Cons.IH pg_append_one_longer by (metis le_trans)
qed simp

lemma pg_append_all_adds:
  assumes "pg_append_all E placement xid es (db, n, a) = Ok (out, db2, n2, a2)" "log_ready E placement acc (db, n, a)"
    and "int (length (db_entries db2)) \<le> i64_max"
  shows "\<exists>acc2. log_ready E placement acc2 (db2, n2, a2) \<and> added placement xid db db2"
  using assms
proof (induction es arbitrary: db n a acc out)
  case Nil
  then show ?case by auto
next
  case (Cons e es)
  obtain rec db1 n1 a1 out' where one: "pg_append_one E placement xid e (db, n, a) = Ok (rec, db1, n1, a1)"
      "pg_append_all E placement xid es (db1, n1, a1) = Ok (out', db2, n2, a2)"
    using Cons.prems(1) by auto
  have "int (length (db_entries db1)) \<le> i64_max" using pg_append_all_longer [OF one(2)] Cons.prems(3) by simp
  then obtain acc1 where first: "log_ready E placement acc1 (db1, n1, a1)" "added placement xid db db1"
    using pg_append_one_adds [OF one(1) Cons.prems(2)] by blast
  then obtain acc2 where "log_ready E placement acc2 (db2, n2, a2)" "added placement xid db1 db2"
    using Cons.IH [OF one(2) _ Cons.prems(3)] by blast
  then show ?case using first(2) added_trans by blast
qed

definition placement_of :: "sequencing \<Rightarrow> placement" where
  "placement_of mode = (case mode of Inline \<Rightarrow> PlaceInline | Deferred \<Rightarrow> PlaceDeferred)"

text \<open>Up to the stored accumulator, an append only adds.\<close>

definition appended :: "sequencing \<Rightarrow> nat \<Rightarrow> pg_db \<Rightarrow> pg_db \<Rightarrow> bool" where
  "appended mode xid db db1 \<longleftrightarrow> (\<exists>ts. added (placement_of mode) xid db (db1\<lparr>db_subtrees := ts\<rparr>))"

lemma pg_append_Ok:
  assumes "pg_append E mode xid batch db = (Ok out, db1)"
  obtains n a db2 n2 a2 where "pg_append_all E (placement_of mode) xid (eb_entries batch) (db, n, a) = Ok (out, db2, n2, a2)"
    "mode = Inline \<Longrightarrow> pg_next_index db = Ok n \<and> pg_accumulator db = Ok a \<and> db1 = db2\<lparr>db_subtrees := pg_subtree_rows a2\<rparr>"
    "mode = Deferred \<Longrightarrow> db1 = db2"
proof (cases mode)
  case Inline
  then obtain n a db2 n2 a2 where "pg_append_all E PlaceInline xid (eb_entries batch) (db, n, a) = Ok (out, db2, n2, a2)"
      "pg_next_index db = Ok n" "pg_accumulator db = Ok a" "db1 = db2\<lparr>db_subtrees := pg_subtree_rows a2\<rparr>"
    using assms unfolding pg_append_def
    by (auto simp: pg_commit_def pg_store_accumulator_def split: sum.splits if_splits)
  then show thesis using that Inline by (simp add: placement_of_def)
next
  case Deferred
  then obtain n2 a2 where "pg_append_all E PlaceDeferred xid (eb_entries batch) (db, 0, acc_new) = Ok (out, db1, n2, a2)"
    using assms unfolding pg_append_def by (auto simp: pg_commit_def split: sum.splits if_splits)
  then show thesis using that Deferred by (simp add: placement_of_def)
qed

lemma pg_append_Err: "pg_append E mode xid batch db = (Err x, db1) \<Longrightarrow> db1 = db"
  by (auto simp: pg_append_def split: sum.splits sequencing.splits)

lemma pg_append_adds:
  assumes "pg_append E mode xid batch db = (res, db1)" "log_sound E db" "int (length (db_entries db1)) \<le> i64_max"
  shows "log_sound E db1 \<and> appended mode xid db db1"
proof (cases res)
  case (Inl x)
  then have "db1 = db" using assms(1) pg_append_Err by blast
  then show ?thesis using assms(2) by (auto simp: appended_def intro: exI [of _ "db_subtrees db"])
next
  case (Inr out)
  obtain acc where acc: "log_stored E db acc" "db_subtrees db = pg_subtree_rows acc" using assms(2) by (auto simp: log_sound_def)
  obtain n a db2 n2 a2 where run: "pg_append_all E (placement_of mode) xid (eb_entries batch) (db, n, a) = Ok (out, db2, n2, a2)"
    and inl: "mode = Inline \<Longrightarrow> pg_next_index db = Ok n \<and> pg_accumulator db = Ok a \<and> db1 = db2\<lparr>db_subtrees := pg_subtree_rows a2\<rparr>"
    and dfr: "mode = Deferred \<Longrightarrow> db1 = db2"
    using pg_append_Ok assms(1) [unfolded Inr] by blast
  have small: "int (length (db_entries db2)) \<le> i64_max" using assms(3) inl dfr by (cases mode) auto
  then have len: "int (length (sequenced db)) \<le> i64_max" "length (sequenced db) \<le> u64_max"
    using pg_append_all_longer [OF run] sequenced_le [of db] by (simp_all add: i64_max_def u64_max_def)
  have "log_ready E (placement_of mode) acc (db, n, a)"
    using inl pg_next_index_eq [OF log_storedD(3) [OF acc(1)] len(1)] pg_accumulator_eq [OF acc len(2)] acc(1)
    by (cases mode) (auto simp: log_ready_def placement_of_def)
  then obtain acc2 where grown: "log_ready E (placement_of mode) acc2 (db2, n2, a2)" "added (placement_of mode) xid db db2"
    using pg_append_all_adds [OF run _ small] by blast
  have subtrees: "db_subtrees db2 = pg_subtree_rows acc" using grown(2) acc(2) by (simp add: added_def)
  have "appended mode xid db db1"
    using grown(2) inl dfr by (cases mode) (auto simp: appended_def intro: exI [of _ "db_subtrees db2"])
  moreover have "log_sound E db1"
  proof (cases mode)
    case Deferred
    have "sequenced db2 = sequenced db" using grown(2) by (simp add: added_def Deferred placement_of_def)
    then have "acc2 = acc"
      using log_storedD(4) [OF acc(1)] grown(1) good_acc_unique
      by (auto simp: log_ready_def log_stored_def log_leaves_def)
    then show ?thesis using grown(1) subtrees dfr [OF Deferred] by (auto simp: log_sound_def log_ready_def)
  next
    case Inline
    then show ?thesis
      using grown(1) inl log_stored_cong [of db1 db2 E acc2] by (auto simp: log_sound_def log_ready_def placement_of_def)
  qed
  ultimately show ?thesis by simp
qed

end
