(* ===== verification/Postgres_Cluster.thy ===== *)
theory Postgres_Cluster
  imports Postgres_Appends Merkle_Audit
begin

text \<open>
  The PostgreSQL backend as a state machine. A transaction gets its number when it first writes and may stay
  open for long; appends take effect when they commit, in any order; a pass of \<^verbatim>\<open>sequence\<close> looks at a snapshot
  whose horizon is at most the oldest transaction still open.
\<close>

section \<open>Steps\<close>

record cluster =
  cl_db :: pg_db
  cl_open :: "nat list"
  cl_next :: nat

definition horizon :: "cluster \<Rightarrow> nat" where
  "horizon s = foldl min (cl_next s) (cl_open s)"

inductive cluster_step :: "env \<Rightarrow> sequencing \<Rightarrow> ledger_id \<Rightarrow> cluster \<Rightarrow> cluster \<Rightarrow> bool"
  for E mode ledger where
  begins: "cluster_step E mode ledger s (s\<lparr>cl_open := cl_next s # cl_open s, cl_next := Suc (cl_next s)\<rparr>)"
| ends: "x \<in> set (cl_open s) \<Longrightarrow> cluster_step E mode ledger s (s\<lparr>cl_open := removeAll x (cl_open s)\<rparr>)"
| appends: "x \<in> set (cl_open s) \<Longrightarrow> pg_append E mode x batch (cl_db s) = (res, db)
    \<Longrightarrow> cluster_step E mode ledger s (s\<lparr>cl_db := db, cl_open := removeAll x (cl_open s)\<rparr>)"
| sequences: "xmin \<le> horizon s \<Longrightarrow> pg_sequence E mode xmin (cl_db s) = (cnt, db)
    \<Longrightarrow> cluster_step E mode ledger s (s\<lparr>cl_db := db\<rparr>)"
| migrates: "pg_migrate schema current ledger (cl_db s) = (opened, db) \<Longrightarrow> cluster_step E mode ledger s (s\<lparr>cl_db := db\<rparr>)"
| registers: "pg_register_account rec (cl_db s) = (u, db) \<Longrightarrow> cluster_step E mode ledger s (s\<lparr>cl_db := db\<rparr>)"
| declares: "pg_define_period p (cl_db s) = (u, db) \<Longrightarrow> cluster_step E mode ledger s (s\<lparr>cl_db := db\<rparr>)"
| transitions: "pg_transition_period i to_state (cl_db s) = (u, db) \<Longrightarrow> cluster_step E mode ledger s (s\<lparr>cl_db := db\<rparr>)"
| seals: "pg_seal_period E ledger i (cl_db s) = (sealed, db) \<Longrightarrow> cluster_step E mode ledger s (s\<lparr>cl_db := db\<rparr>)"
| clears: "pg_clear E c (cl_db s) = (u, db) \<Longrightarrow> cluster_step E mode ledger s (s\<lparr>cl_db := db\<rparr>)"
| resets: "pg_reset_clearing j on (cl_db s) = (u, db) \<Longrightarrow> cluster_step E mode ledger s (s\<lparr>cl_db := db\<rparr>)"
| saves: "pg_save_checkpoint k (cl_db s) = db \<Longrightarrow> cluster_step E mode ledger s (s\<lparr>cl_db := db\<rparr>)"

definition empty_pg :: pg_db where
  "empty_pg = \<lparr>db_ledger = None, db_accounts = [], db_periods = [], db_entries = [], db_postings = [], db_dimensions = [],
     db_subtrees = [], db_seals = [], db_clearings = [], db_clearing_items = [], db_checkpoints = [], pg_xid = (\<lambda>_. 0)\<rparr>"

definition cluster_new :: cluster where
  "cluster_new = \<lparr>cl_db = empty_pg, cl_open = [], cl_next = 0\<rparr>"

definition cluster_reaches :: "env \<Rightarrow> sequencing \<Rightarrow> ledger_id \<Rightarrow> cluster \<Rightarrow> cluster \<Rightarrow> bool" where
  "cluster_reaches E mode ledger = (cluster_step E mode ledger)\<^sup>*\<^sup>*"

section \<open>What a step does to the log\<close>

lemma foldl_min_le: "y \<le> foldl min x xs \<longleftrightarrow> y \<le> x \<and> (\<forall>z\<in>set xs. y \<le> z)" for x :: nat
  by (induction xs arbitrary: x) auto

lemma horizon_ge: "y \<le> horizon s \<longleftrightarrow> y \<le> cl_next s \<and> (\<forall>x\<in>set (cl_open s). y \<le> x)"
  by (simp add: horizon_def foldl_min_le)

text \<open>Operations that leave the entries, the accumulator and the transaction numbers alone.\<close>

lemma other_operations_same_log:
  "pg_migrate schema current ledger db = (opened, db1) \<Longrightarrow> same_log db db1"
  "pg_register_account rec db = (u, db1) \<Longrightarrow> same_log db db1"
  "pg_define_period p db = (u, db1) \<Longrightarrow> same_log db db1"
  "pg_transition_period i to_state db = (u, db1) \<Longrightarrow> same_log db db1"
  "pg_seal_period E ledger i db = (sealed, db1) \<Longrightarrow> same_log db db1"
  "pg_clear E c db = (u, db1) \<Longrightarrow> same_log db db1"
  "pg_reset_clearing j on db = (u, db1) \<Longrightarrow> same_log db db1"
  "pg_save_checkpoint k db = db1 \<Longrightarrow> same_log db db1"
  by (auto simp: same_log_def pg_migrate_def pg_register_account_def pg_define_period_def pg_transition_period_def
      pg_seal_period_def pg_clear_def pg_insert_clearing_def pg_reset_clearing_def pg_save_checkpoint_def Let_def
      split: option.splits sum.splits if_splits)

definition clock_runs :: "cluster \<Rightarrow> cluster \<Rightarrow> bool" where
  "clock_runs s t \<longleftrightarrow> cl_next s \<le> cl_next t \<and> (\<forall>x\<in>set (cl_open t). x \<in> set (cl_open s) \<or> cl_next s \<le> x \<and> x < cl_next t)"

lemma clock_horizon: "clock_runs s t \<Longrightarrow> horizon s \<le> horizon t"
  unfolding clock_runs_def horizon_ge using horizon_ge [of "horizon s" s] by fastforce

lemma step_clock: "cluster_step E mode ledger s t \<Longrightarrow> clock_runs s t"
  by (erule cluster_step.cases) (auto simp: clock_runs_def)

text \<open>Every step is one of three kinds as far as the log is concerned.\<close>

lemma step_kinds:
  assumes "cluster_step E mode ledger s t"
  obtains (same) "same_log (cl_db s) (cl_db t)"
  | (append) x batch res where "x \<in> set (cl_open s)" "pg_append E mode x batch (cl_db s) = (res, cl_db t)"
  | (sequence) xmin cnt where "xmin \<le> horizon s" "pg_sequence E mode xmin (cl_db s) = (cnt, cl_db t)"
  using assms
proof cases
  case (appends x batch res db)
  then show thesis using append by simp
next
  case (sequences xmin cnt db)
  then show thesis using sequence by simp
qed (use same other_operations_same_log in auto)

section \<open>The log only grows\<close>

definition log_extends :: "pg_db \<Rightarrow> pg_db \<Rightarrow> bool" where
  "log_extends db db1 \<longleftrightarrow> (\<exists>rows. sequenced db1 = sequenced db @ rows)
     \<and> (\<forall>r\<in>set (db_entries db). (\<exists>q\<in>set (db_entries db1). row_kept r q) \<and> pg_xid db1 (er_id r) = pg_xid db (er_id r))"

lemma row_kept_id: "row_kept r q \<Longrightarrow> er_id q = er_id r"
  by (drule arg_cong [of _ _ er_id, OF conjunct1 [OF row_kept_def [THEN iffD1]]]) simp

lemma log_extends_refl [simp]: "log_extends db db"
  by (auto simp: log_extends_def intro: row_kept_refl)

lemma log_extends_trans:
  assumes "log_extends a b" "log_extends b c"
  shows "log_extends a c"
proof -
  have "(\<exists>q\<in>set (db_entries c). row_kept r q) \<and> pg_xid c (er_id r) = pg_xid a (er_id r)" if r: "r \<in> set (db_entries a)" for r
  proof -
    obtain q where q: "q \<in> set (db_entries b)" "row_kept r q" "pg_xid b (er_id r) = pg_xid a (er_id r)"
      using assms(1) r by (auto simp: log_extends_def)
    then obtain p where "p \<in> set (db_entries c)" "row_kept q p" "pg_xid c (er_id q) = pg_xid b (er_id q)"
      using assms(2) by (auto simp: log_extends_def)
    then show ?thesis using q row_kept_trans row_kept_id by metis
  qed
  then show ?thesis using assms by (auto simp: log_extends_def)
qed

lemma same_log_extends: "same_log db db1 \<Longrightarrow> log_extends db db1"
  by (auto simp: same_log_def log_extends_def sequenced_def intro: row_kept_refl)

lemma appended_extends:
  assumes "appended mode xid db db1"
  shows "log_extends db db1"
proof -
  obtain ts where ts: "added (placement_of mode) xid db (db1\<lparr>db_subtrees := ts\<rparr>)" using assms by (auto simp: appended_def)
  then show ?thesis
    using sequenced_cong [of "db1\<lparr>db_subtrees := ts\<rparr>" db1] by (auto simp: added_def log_extends_def intro: row_kept_refl)
qed

lemma beside_log_xid: "beside_log db1 = beside_log db \<Longrightarrow> pg_xid db1 = pg_xid db"
  by (drule arg_cong [of _ _ pg_xid]) (simp add: beside_log_def)

lemma placed_extends:
  assumes "placed_in E rows db db1"
  shows "log_extends db db1"
proof -
  have "\<exists>q\<in>set (db_entries db1). row_kept r q" if r: "r \<in> set (db_entries db)" for r
  proof -
    have all: "list_all2 row_kept (db_entries db) (db_entries db1)" using assms by (simp add: placed_in_def)
    obtain k where k: "k < length (db_entries db)" "r = db_entries db ! k" using r unfolding in_set_conv_nth by blast
    then have "db_entries db1 ! k \<in> set (db_entries db1)" using list_all2_lengthD [OF all] by simp
    then show ?thesis using list_all2_nthD [OF all k(1)] k(2) by auto
  qed
  moreover have "pg_xid db1 = pg_xid db" by (rule beside_log_xid) (use assms in \<open>simp add: placed_in_def\<close>)
  moreover have "\<exists>rows. sequenced db1 = sequenced db @ rows" using assms unfolding placed_in_def by blast
  ultimately show ?thesis unfolding log_extends_def by simp
qed

text \<open>Entries are never removed, so a bound on their number holds earlier too.\<close>

lemma place_row_length: "place_row E ((db, n, acc), c) r = Ok ((db1, st), c1) \<Longrightarrow> length (db_entries db1) = length (db_entries db)"
  by (auto simp: place_row_def update_position_def Let_def split: if_splits)

lemma pg_sequence_length:
  assumes "pg_sequence E mode xmin db = (res, db1)"
  shows "length (db_entries db1) = length (db_entries db)"
proof -
  have "length (db_entries (fst (fst st))) = length (db_entries db)"
    if "try_fold (place_row E) ((db, n, acc), 0) rows = Ok st" for n acc rows st
    by (rule try_fold_invariant [OF that, where I = "\<lambda>st. length (db_entries (fst (fst st))) = length (db_entries db)"])
      (auto dest: place_row_length)
  then show ?thesis
    using assms by (fastforce simp: pg_sequence_def pg_store_accumulator_def Let_def split: if_splits sum.splits)
qed

lemma pg_append_length:
  assumes "pg_append E mode x batch db = (res, db1)"
  shows "length (db_entries db) \<le> length (db_entries db1)"
proof (cases res)
  case (Inr out)
  obtain n a db2 n2 a2 where run: "pg_append_all E (placement_of mode) x (eb_entries batch) (db, n, a) = Ok (out, db2, n2, a2)"
    "mode = Inline \<Longrightarrow> pg_next_index db = Ok n \<and> pg_accumulator db = Ok a \<and> db1 = db2\<lparr>db_subtrees := pg_subtree_rows a2\<rparr>"
    "mode = Deferred \<Longrightarrow> db1 = db2"
    using pg_append_Ok assms [unfolded Inr] by blast
  then show ?thesis using pg_append_all_longer [OF run(1)] by (cases mode) auto
qed (use assms in \<open>auto dest: pg_append_Err\<close>)

lemma step_length: "cluster_step E mode ledger s t \<Longrightarrow> length (db_entries (cl_db s)) \<le> length (db_entries (cl_db t))"
  by (erule step_kinds) (auto simp: same_log_def dest: pg_append_length pg_sequence_length)

lemma step_log:
  assumes "cluster_step E mode ledger s t" "log_sound E (cl_db s)" "int (length (db_entries (cl_db t))) \<le> i64_max"
  shows "log_sound E (cl_db t) \<and> log_extends (cl_db s) (cl_db t)"
  using assms(1)
proof (cases rule: step_kinds)
  case same
  then have "log_sound E (cl_db t)"
    using assms(2) log_stored_cong [of "cl_db t" "cl_db s"] by (auto simp: same_log_def log_sound_def)
  then show ?thesis using same_log_extends [OF same] by simp
next
  case (append x batch res)
  then show ?thesis using pg_append_adds [OF append(2) assms(2,3)] appended_extends by blast
next
  case (sequence xmin cnt)
  show ?thesis
  proof (cases mode)
    case Inline
    then show ?thesis using sequence(2) assms(2) by (simp add: pg_sequence_def)
  next
    case Deferred
    have "int (length (db_entries (cl_db s))) \<le> i64_max" using step_length [OF assms(1)] assms(3) by simp
    from pg_sequence_ok [OF assms(2) this, of xmin] show ?thesis
      using sequence(2) placed_extends unfolding Deferred by (metis prod.inject)
  qed
qed

lemma reaches_log:
  assumes "cluster_reaches E mode ledger s t" "log_sound E (cl_db s)" "int (length (db_entries (cl_db t))) \<le> i64_max"
  shows "log_sound E (cl_db t) \<and> log_extends (cl_db s) (cl_db t)"
  using assms(1) [unfolded cluster_reaches_def] assms(3)
proof (induction rule: rtranclp_induct)
  case base
  then show ?case using assms(2) by simp
next
  case (step t u)
  have "int (length (db_entries (cl_db t))) \<le> i64_max" using step_length [OF step.hyps(2)] step.prems by simp
  then show ?case using step.IH step_log [OF step.hyps(2) _ step.prems] log_extends_trans by blast
qed

lemma new_log_sound: "log_sound E (cl_db cluster_new)"
  by (auto simp: log_sound_def log_stored_def cluster_new_def empty_pg_def sequenced_def rows_in_place_def log_leaves_def
      pg_subtree_rows_def acc_new_def intro!: exI [of _ acc_new] good_acc_new [unfolded acc_new_def])

section \<open>Deferred positions follow the transactions\<close>

definition commit_key :: "pg_db \<Rightarrow> entry_row \<Rightarrow> nat \<times> byte list" where
  "commit_key db r = (pg_xid db (er_id r), er_id r)"

definition in_commit_order :: "pg_db \<Rightarrow> bool" where
  "in_commit_order db \<longleftrightarrow> sorted_wrt (<) (map (commit_key db) (sequenced db))"

definition split_at :: "pg_db \<Rightarrow> nat \<Rightarrow> bool" where
  "split_at db h \<longleftrightarrow> (\<forall>r\<in>set (sequenced db). pg_xid db (er_id r) < h) \<and> (\<forall>r\<in>set (pending db). h \<le> pg_xid db (er_id r))"

definition cluster_ordered :: "cluster \<Rightarrow> bool" where
  "cluster_ordered s \<longleftrightarrow> in_commit_order (cl_db s) \<and> (\<exists>h\<le>horizon s. split_at (cl_db s) h)"

lemma set_entries: "set (db_entries db) = set (sequenced db) \<union> set (pending db)"
  by (auto simp: set_sequenced pending_def)

lemma in_order_cong:
  assumes "sequenced db1 = sequenced db" "\<forall>r\<in>set (sequenced db). pg_xid db1 (er_id r) = pg_xid db (er_id r)"
  shows "in_commit_order db1 = in_commit_order db"
proof -
  have keys: "map (commit_key db1) (sequenced db) = map (commit_key db) (sequenced db)"
    using assms(2) by (intro map_cong) (auto simp: commit_key_def)
  show ?thesis by (simp only: in_commit_order_def assms(1) keys)
qed

lemma settled_in_order:
  assumes "distinct (map er_id (db_entries db))"
  shows "sorted_wrt (<) (map (commit_key db) (settled_rows xmin db))"
proof -
  have "sorted (map (commit_key db) (settled_rows xmin db))"
    unfolding settled_rows_def commit_key_def by (rule sorted_sort_key)
  moreover have "distinct (map (commit_key db) (settled_rows xmin db))"
    using distinct_settled [OF assms, of xmin] by (simp add: distinct_map inj_on_def commit_key_def)
  ultimately show ?thesis by (simp add: strict_sorted_iff)
qed

lemma key_by_id: "map er_id xs = map er_id ys \<Longrightarrow> map (commit_key db) xs = map (commit_key db) ys"
proof -
  assume "map er_id xs = map er_id ys"
  then have "map (\<lambda>i. (pg_xid db i, i)) (map er_id xs) = map (\<lambda>i. (pg_xid db i, i)) (map er_id ys)" by simp
  then show ?thesis by (simp add: commit_key_def [abs_def] comp_def)
qed

lemma placed_ids:
  assumes "placed_in E rows db db1"
  shows "map er_id (sequenced db1) = map er_id (sequenced db @ rows)"
  using assms by (simp add: placed_in_def)

lemma append_ordered:
  assumes "added PlaceDeferred x db db1" "in_commit_order db" "split_at db h" "h \<le> x"
  shows "in_commit_order db1 \<and> split_at db1 h"
proof -
  obtain new where new: "db_entries db1 = db_entries db @ new" "\<forall>r\<in>set new. pg_xid db1 (er_id r) = x"
    using assms(1) by (auto simp: added_def)
  have seq: "sequenced db1 = sequenced db" and kept: "\<forall>r\<in>set (db_entries db). pg_xid db1 (er_id r) = pg_xid db (er_id r)"
    using assms(1) by (auto simp: added_def)
  have "set (pending db1) \<subseteq> set (pending db) \<union> set new" by (auto simp: pending_def new(1))
  then have "split_at db1 h" using assms(3,4) kept new(2) set_entries [of db] by (fastforce simp: split_at_def seq)
  then show ?thesis using in_order_cong [OF seq] kept assms(2) set_entries [of db] by auto
qed

lemma sequence_ordered:
  assumes "placed_in E (settled_rows xmin db) db db1" "in_commit_order db" "split_at db h" "distinct (map er_id (db_entries db))"
  shows "in_commit_order db1 \<and> split_at db1 (max h xmin)"
proof -
  let ?rows = "settled_rows xmin db"
  have xid: "pg_xid db1 = pg_xid db" by (rule beside_log_xid) (use assms(1) in \<open>simp add: placed_in_def\<close>)
  have ids: "map er_id (sequenced db1) = map er_id (sequenced db @ ?rows)" by (rule placed_ids [OF assms(1)])
  have keys: "map (commit_key db1) (sequenced db1) = map (commit_key db) (sequenced db @ ?rows)"
    using key_by_id [OF ids, of db] by (simp add: commit_key_def [abs_def] xid)
  have low: "pg_xid db (er_id r) < h" if "r \<in> set (sequenced db)" for r using assms(3) that by (simp add: split_at_def)
  have high: "h \<le> pg_xid db (er_id r) \<and> pg_xid db (er_id r) < xmin" if "r \<in> set ?rows" for r
    using assms(3) that by (auto simp: split_at_def set_settled)
  have order: "in_commit_order db1"
    unfolding in_commit_order_def keys map_append sorted_wrt_append
    using assms(2) settled_in_order [OF assms(4)] low high by (fastforce simp: in_commit_order_def commit_key_def)
  have "pg_xid db (er_id r) < max h xmin" if r: "r \<in> set (sequenced db1)" for r
  proof -
    have "er_id r \<in> set (map er_id (sequenced db @ ?rows))" unfolding ids [symmetric] using r by simp
    then have "er_id r \<in> er_id ` (set (sequenced db) \<union> set ?rows)" by (simp only: set_map set_append)
    then obtain q where "q \<in> set (sequenced db) \<union> set ?rows" "er_id q = er_id r" by (metis imageE)
    then show ?thesis using low high by (metis Un_iff max.strict_coboundedI1 max.strict_coboundedI2)
  qed
  moreover have "max h xmin \<le> pg_xid db (er_id r)" if r: "r \<in> set (pending db1)" for r
  proof -
    have "r \<in> set (pending db)" "er_id r \<notin> er_id ` set ?rows" using r assms(1) by (auto simp: placed_in_def)
    then have "r \<in> set (pending db)" "r \<notin> set ?rows" by auto
    then show ?thesis using assms(3) by (auto simp: split_at_def set_settled)
  qed
  ultimately show ?thesis using order by (simp add: split_at_def xid)
qed

lemma step_ordered:
  assumes "cluster_step E Deferred ledger s t" "log_sound E (cl_db s)" "int (length (db_entries (cl_db t))) \<le> i64_max" "cluster_ordered s"
  shows "cluster_ordered t"
proof -
  obtain h where h: "h \<le> horizon s" "split_at (cl_db s) h" and order: "in_commit_order (cl_db s)"
    using assms(4) by (auto simp: cluster_ordered_def)
  have later: "horizon s \<le> horizon t" by (rule clock_horizon [OF step_clock [OF assms(1)]])
  show ?thesis
    using assms(1)
  proof (cases rule: step_kinds)
    case same
    then have "in_commit_order (cl_db t) \<and> split_at (cl_db t) h"
      using order h(2) by (simp add: same_log_def in_commit_order_def split_at_def sequenced_def pending_def commit_key_def [abs_def])
    then show ?thesis using h(1) later by (auto simp: cluster_ordered_def intro: exI [of _ h])
  next
    case (append x batch res)
    have "h \<le> x" using h(1) append(1) horizon_ge [of h s] by auto
    obtain ts where ts: "added PlaceDeferred x (cl_db s) (cl_db t\<lparr>db_subtrees := ts\<rparr>)"
      using pg_append_adds [OF append(2) assms(2,3)] by (auto simp: appended_def placement_of_def)
    have "in_commit_order (cl_db t) \<and> split_at (cl_db t) h"
      using append_ordered [OF ts order h(2) \<open>h \<le> x\<close>]
      by (simp add: in_commit_order_def split_at_def sequenced_def pending_def commit_key_def [abs_def])
    then show ?thesis using h(1) later by (auto simp: cluster_ordered_def intro: exI [of _ h])
  next
    case (sequence xmin cnt)
    have small: "int (length (db_entries (cl_db s))) \<le> i64_max" using step_length [OF assms(1)] assms(3) by simp
    then have placed: "placed_in E (settled_rows xmin (cl_db s)) (cl_db s) (cl_db t)"
      using pg_sequence_ok [OF assms(2) small, of xmin] sequence(2) by auto
    have "distinct (map er_id (db_entries (cl_db s)))" using assms(2) log_storedD(1) by (auto simp: log_sound_def)
    from sequence_ordered [OF placed order h(2) this] show ?thesis
      using h(1) sequence(1) later by (auto simp: cluster_ordered_def intro!: exI [of _ "max h xmin"])
  qed
qed

lemma reaches_ordered:
  assumes "cluster_reaches E Deferred ledger cluster_new s" "int (length (db_entries (cl_db s))) \<le> i64_max"
  shows "cluster_ordered s"
  using assms(1) [unfolded cluster_reaches_def] assms(2)
proof (induction rule: rtranclp_induct)
  case base
  show ?case
    by (auto simp: cluster_ordered_def in_commit_order_def split_at_def cluster_new_def empty_pg_def sequenced_def pending_def)
next
  case (step t u)
  have small: "int (length (db_entries (cl_db t))) \<le> i64_max" using step_length [OF step.hyps(2)] step.prems by simp
  have "log_sound E (cl_db t)"
    using reaches_log [OF step.hyps(1) [folded cluster_reaches_def] new_log_sound small] by simp
  then show ?case using step_ordered [OF step.hyps(2) _ step.prems] step.IH [OF small] by blast
qed

text \<open>Transaction numbers in use are below the next one.\<close>

definition cluster_timed :: "cluster \<Rightarrow> bool" where
  "cluster_timed s \<longleftrightarrow> (\<forall>x\<in>set (cl_open s). x < cl_next s) \<and> (\<forall>r\<in>set (db_entries (cl_db s)). pg_xid (cl_db s) (er_id r) < cl_next s)"

lemma placed_entry_ids:
  assumes "placed_in E rows db db1"
  shows "map er_id (db_entries db1) = map er_id (db_entries db)"
proof -
  have all: "list_all2 row_kept (db_entries db) (db_entries db1)" using assms by (simp add: placed_in_def)
  show ?thesis
    by (rule nth_equalityI) (use list_all2_lengthD [OF all] list_all2_nthD [OF all] row_kept_id in auto)
qed

lemma step_timed:
  assumes "cluster_step E Deferred ledger s t" "log_sound E (cl_db s)" "int (length (db_entries (cl_db t))) \<le> i64_max" "cluster_timed s"
  shows "cluster_timed t"
proof -
  have clock: "clock_runs s t" by (rule step_clock [OF assms(1)])
  then have opens: "\<forall>x\<in>set (cl_open t). x < cl_next t" using assms(4) by (fastforce simp: clock_runs_def cluster_timed_def)
  have next_le: "cl_next s \<le> cl_next t" using clock by (simp add: clock_runs_def)
  have old: "pg_xid (cl_db s) (er_id r) < cl_next t" if "r \<in> set (db_entries (cl_db s))" for r
    using assms(4) that next_le by (fastforce simp: cluster_timed_def)
  have "\<forall>r\<in>set (db_entries (cl_db t)). pg_xid (cl_db t) (er_id r) < cl_next t"
    using assms(1)
  proof (cases rule: step_kinds)
    case same
    then show ?thesis using old by (simp add: same_log_def)
  next
    case (append x batch res)
    have "x < cl_next t" using append(1) assms(4) next_le by (fastforce simp: cluster_timed_def)
    moreover obtain ts where "added PlaceDeferred x (cl_db s) (cl_db t\<lparr>db_subtrees := ts\<rparr>)"
      using pg_append_adds [OF append(2) assms(2,3)] by (auto simp: appended_def placement_of_def)
    ultimately show ?thesis using old by (auto simp: added_def)
  next
    case (sequence xmin cnt)
    have small: "int (length (db_entries (cl_db s))) \<le> i64_max" using step_length [OF assms(1)] assms(3) by simp
    then have placed: "placed_in E (settled_rows xmin (cl_db s)) (cl_db s) (cl_db t)"
      using pg_sequence_ok [OF assms(2) small, of xmin] sequence(2) by auto
    have "pg_xid (cl_db t) = pg_xid (cl_db s)" by (rule beside_log_xid) (use placed in \<open>simp add: placed_in_def\<close>)
    moreover have ids: "er_id ` set (db_entries (cl_db t)) = er_id ` set (db_entries (cl_db s))"
      using arg_cong [OF placed_entry_ids [OF placed], of set] by simp
    moreover have "\<forall>i\<in>er_id ` set (db_entries (cl_db s)). pg_xid (cl_db s) i < cl_next t" using old by blast
    ultimately have "\<forall>i\<in>er_id ` set (db_entries (cl_db t)). pg_xid (cl_db t) i < cl_next t" by simp
    then show ?thesis by blast
  qed
  then show ?thesis using opens by (simp add: cluster_timed_def)
qed

lemma reaches_timed:
  assumes "cluster_reaches E Deferred ledger cluster_new s" "int (length (db_entries (cl_db s))) \<le> i64_max"
  shows "cluster_timed s"
  using assms(1) [unfolded cluster_reaches_def] assms(2)
proof (induction rule: rtranclp_induct)
  case base
  show ?case by (simp add: cluster_timed_def cluster_new_def empty_pg_def)
next
  case (step t u)
  have small: "int (length (db_entries (cl_db t))) \<le> i64_max" using step_length [OF step.hyps(2)] step.prems by simp
  have "log_sound E (cl_db t)"
    using reaches_log [OF step.hyps(1) [folded cluster_reaches_def] new_log_sound small] by simp
  then show ?case using step_timed [OF step.hyps(2) _ step.prems] step.IH [OF small] by blast
qed

end
