(* ===== verification/Postgres_Demo.thy ===== *)
theory Postgres_Demo
  imports Postgres_Cluster Journal_Demo
begin

text \<open>A concrete run of the deferred mode for the examples: two sales whose transactions overlap.\<close>

section \<open>One sale appended\<close>

definition demo_pg :: pg_db where
  "demo_pg = snd (pg_register_account \<lparr>r_id = AccountId 1, r_account = account_new (AccountPath [lit ''B'']) (Date 0)\<rparr>
     (snd (pg_register_account \<lparr>r_id = AccountId 0, r_account = account_new (AccountPath [lit ''A'']) (Date 0)\<rparr> empty_pg)))"

lemma demo_pg_accounts:
  "list_ex (\<lambda>a. ar_index a = 0) (db_accounts demo_pg)" "list_ex (\<lambda>a. ar_index a = 1) (db_accounts demo_pg)"
  "\<forall>a\<in>set (db_accounts demo_pg). ar_limit a = lit ''unlimited''"
  "demo_pg\<lparr>db_accounts := []\<rparr> = empty_pg"
  by (simp_all add: demo_pg_def pg_register_account_def empty_pg_def Let_def pg_account_row_of_def account_new_def pg_account_def i32_or_max_def
     path_display_def lit_def pg_limit_code_def)

definition sale_rows :: "int \<Rightarrow> int \<Rightarrow> posting_row list" where
  "sale_rows n v =
     [\<lparr>po_entry = uuid_bytes (EntryId (word_of_int n)), po_index = 0, po_account = 0, po_direction = lit ''D'', po_amount = v, po_currency = currency_code EUR, po_layer = lit ''settled''\<rparr>,
      \<lparr>po_entry = uuid_bytes (EntryId (word_of_int n)), po_index = 1, po_account = 1, po_direction = lit ''C'', po_amount = v, po_currency = currency_code EUR, po_layer = lit ''settled''\<rparr>]"

definition sale_added :: "nat \<Rightarrow> int \<Rightarrow> int \<Rightarrow> int \<Rightarrow> pg_db \<Rightarrow> pg_db" where
  "sale_added x n v day db = db\<lparr>db_entries := db_entries db @ [pg_entry_row_of toy_env None (demo_sale n v day)],
     db_postings := db_postings db @ sale_rows n v,
     pg_xid := (pg_xid db)(uuid_bytes (EntryId (word_of_int n)) := x)\<rparr>"

lemma sale_columns:
  "e_document (demo_sale n v day) = None" "original_booking_date (demo_sale n v day) = None"
  by (simp_all add: demo_sale_def entry_credit_def entry_debit_def post_def entry_new_def)

lemma sale_inserts:
  assumes "db_accounts db = db_accounts demo_pg" "v \<in> {5, 7}" "list_ex (\<lambda>r. er_id r = uuid_bytes (EntryId (word_of_int n))) (db_entries db)"
    and fresh: "uuid_bytes (EntryId (word_of_int n)) \<notin> po_entry ` set (db_postings db)"
  shows "try_fold (pg_insert_with_axes (EntryId (word_of_int n))) db (enumerate 0 (e_postings (demo_sale n v day)))
    = Ok (db\<lparr>db_postings := db_postings db @ sale_rows n v\<rparr>)"
proof -
  let ?i = "EntryId (word_of_int n)" and ?e = "demo_sale n v day"
  have amt: "amt (Amount (word_of_int v)) = v" using assms(2) demo_amounts by auto
  have rows: "pg_posting_row_of ?i 0 (e_postings ?e ! 0) = sale_rows n v ! 0" "pg_posting_row_of ?i 1 (e_postings ?e ! 1) = sale_rows n v ! 1"
    by (simp_all add: pg_posting_row_of_def demo_sale_fields sale_rows_def amt i16_or_max_def pg_account_def i32_or_max_def pg_direction_str_def pg_layer_str_def)
  have none: "\<not> list_ex (\<lambda>q. po_entry q = uuid_bytes ?i \<and> P q) (db_postings db)" for P using fresh by (force simp: list_ex_iff)
  have "insert_posting db (sale_rows n v ! 0) = Ok (db\<lparr>db_postings := db_postings db @ [sale_rows n v ! 0]\<rparr>)"
    using assms(2,3) demo_pg_accounts(1) by (auto simp: insert_posting_def posting_row_ok_def sale_rows_def none assms(1))
  moreover have "insert_posting (db\<lparr>db_postings := db_postings db @ [sale_rows n v ! 0]\<rparr>) (sale_rows n v ! 1)
      = Ok (db\<lparr>db_postings := db_postings db @ sale_rows n v\<rparr>)"
    using assms(2,3) demo_pg_accounts(2) by (auto simp: insert_posting_def posting_row_ok_def sale_rows_def none assms(1))
  ultimately show ?thesis
    using rows by (simp add: demo_sale_fields pg_insert_with_axes_def pg_dimension_rows_of_def dims_none_def)
qed

lemma sale_commits:
  assumes "uuid_bytes (EntryId (word_of_int n)) \<notin> po_entry ` set (db_postings db)"
  shows "pg_commit db (sale_added x n v day db) = Ok (sale_added x n v day db)"
proof -
  have "filter (\<lambda>r. po_entry r = uuid_bytes (EntryId (word_of_int n)) \<and> P r) (db_postings db) = []" for P
    using assms by (force simp: filter_empty_conv)
  note none = this this [of "\<lambda>_. True", simplified]
  show ?thesis
    by (simp add: pg_commit_def rows_balance_per_currency_def rows_at_least_two_def sale_added_def sale_rows_def none)
qed

lemma sale_append:
  assumes accounts: "db_accounts db = db_accounts demo_pg" and v: "v \<in> {5, 7}"
    and fresh: "uuid_bytes (EntryId (word_of_int n)) \<notin> er_id ` set (db_entries db)" "[word_of_int n] \<notin> er_key ` set (db_entries db)"
      "uuid_bytes (EntryId (word_of_int n)) \<notin> po_entry ` set (db_postings db)"
  shows "pg_append toy_env Deferred x (batch_single (demo_sale n v day)) db
    = (Ok [\<lparr>rec_id = EntryId (word_of_int n), rec_index = None, rec_hash = content_hash toy_env (demo_sale n v day), rec_new = True\<rparr>], sale_added x n v day db)"
proof -
  let ?i = "EntryId (word_of_int n)" and ?e = "demo_sale n v day"
  let ?row = "pg_entry_row_of toy_env None ?e"
  have row: "er_id ?row = uuid_bytes ?i" "er_key ?row = [word_of_int n]" "er_reverses ?row = None" "er_document_hash ?row = None" "er_original ?row = None"
    by (simp_all add: pg_entry_row_of_def demo_sale_fields sale_columns)
  have free: "\<not> list_ex (\<lambda>q. er_id q = uuid_bytes ?i \<and> P q) (db_entries db)" "\<not> list_ex (\<lambda>q. er_id q = uuid_bytes ?i) (db_entries db)"
    "\<not> list_ex (\<lambda>q. er_key q = [word_of_int n]) (db_entries db)" for P
    using fresh by (force simp: list_ex_iff)+
  define db2 where "db2 = db\<lparr>db_entries := db_entries db @ [?row], pg_xid := (pg_xid db)(uuid_bytes ?i := x)\<rparr>"
  have inserted: "insert_entry ?row db = Ok (Some (None, db\<lparr>db_entries := db_entries db @ [?row]\<rparr>))"
    by (simp add: insert_entry_def entry_row_ok_def row free demo_sale_fields)
  have "try_fold (pg_insert_with_axes ?i) db2 (enumerate 0 (e_postings ?e)) = Ok (db2\<lparr>db_postings := db_postings db2 @ sale_rows n v\<rparr>)"
    by (rule sale_inserts) (use accounts v fresh(3) in \<open>simp_all add: db2_def demo_sale_fields\<close>)
  then have rows: "try_fold (pg_insert_with_axes ?i) db2 (enumerate 0 (e_postings ?e)) = Ok (sale_added x n v day db)"
    by (simp add: db2_def sale_added_def)
  have "find (\<lambda>a. ar_index a = k \<and> ar_limit a \<noteq> lit ''unlimited'') (db_accounts (sale_added x n v day db)) = None" for k
    using demo_pg_accounts(3) by (auto simp: find_None_iff sale_added_def accounts)
  then have "pg_check_limit (sale_added x n v day db) key = Ok ()" for key by (simp add: pg_check_limit_def)
  then have "pg_check_limits (sale_added x n v day db) ?e = Ok ()"
    by (simp add: pg_check_limits_def demo_sale_fields Let_def)
  then have "pg_append_one toy_env PlaceDeferred x ?e (db, 0, acc_new)
      = Ok (\<lparr>rec_id = ?i, rec_index = None, rec_hash = content_hash toy_env ?e, rec_new = True\<rparr>, sale_added x n v day db, 0, acc_new)"
    using inserted rows by (simp add: pg_append_one_def free demo_sale_fields db2_def)
  then show ?thesis using sale_commits [OF fresh(3)] by (simp add: pg_append_def batch_single_def)
qed

section \<open>Two overlapping transactions\<close>

text \<open>
  Transactions 0 and 1 are open at once. The second sale commits first, as transaction 1, the first one
  later, as transaction 0; only then can both be placed, and transaction 0 comes first.
\<close>

definition demo_late :: cluster where
  "demo_late = \<lparr>cl_db = sale_added 1 2 5 40 demo_pg, cl_open = [0], cl_next = 2\<rparr>"

definition demo_settled :: cluster where
  "demo_settled = \<lparr>cl_db = sale_added 0 1 7 35 (cl_db demo_late), cl_open = [], cl_next = 2\<rparr>"

definition demo_placed :: cluster where
  "demo_placed = demo_settled\<lparr>cl_db := snd (pg_sequence toy_env Deferred 2 (cl_db demo_settled))\<rparr>"

lemma demo_pg_empty: "db_entries demo_pg = []" "db_postings demo_pg = []"
  by (simp_all add: demo_pg_def pg_register_account_def empty_pg_def Let_def pg_account_row_of_def account_new_def)

lemma demo_ids [simp]: "uuid_bytes (EntryId 1) \<noteq> uuid_bytes (EntryId 2)" "EntryId 1 \<noteq> EntryId 2"
  by simp_all

lemma reaches_refl [simp]: "cluster_reaches E mode ledger s s"
  by (simp add: cluster_reaches_def)

lemma reaches_step: "cluster_reaches E mode ledger s t \<Longrightarrow> cluster_step E mode ledger t u \<Longrightarrow> cluster_reaches E mode ledger s u"
  unfolding cluster_reaches_def by (rule rtranclp.rtrancl_into_rtrancl)

lemma demo_late_reached: "cluster_reaches toy_env Deferred ledger cluster_new demo_late"
proof -
  let ?db1 = "snd (pg_register_account \<lparr>r_id = AccountId 0, r_account = account_new (AccountPath [lit ''A'']) (Date 0)\<rparr> empty_pg)"
  let ?reach = "cluster_reaches toy_env Deferred ledger cluster_new"
  have "?reach (cluster_new\<lparr>cl_db := ?db1\<rparr>)"
    by (rule reaches_step [OF reaches_refl registers]) (simp add: cluster_new_def prod_eq_iff)
  then have "?reach ((cluster_new\<lparr>cl_db := ?db1\<rparr>)\<lparr>cl_db := demo_pg\<rparr>)"
    by (rule reaches_step [OF _ registers]) (simp add: demo_pg_def prod_eq_iff)
  then have "?reach \<lparr>cl_db = demo_pg, cl_open = [0], cl_next = 1\<rparr>"
    using reaches_step [OF _ begins] by (fastforce simp: cluster_new_def)
  then have "?reach \<lparr>cl_db = demo_pg, cl_open = [1, 0], cl_next = 2\<rparr>"
    using reaches_step [OF _ begins] by (fastforce simp: numeral_2_eq_2)
  moreover have "cluster_step toy_env Deferred ledger \<lparr>cl_db = demo_pg, cl_open = [1, 0], cl_next = 2\<rparr>
      (\<lparr>cl_db = demo_pg, cl_open = [1, 0], cl_next = 2\<rparr>\<lparr>cl_db := sale_added 1 2 5 40 demo_pg, cl_open := removeAll 1 [1, 0]\<rparr>)"
    using appends [where x = 1 and s = "\<lparr>cl_db = demo_pg, cl_open = [1, 0], cl_next = 2\<rparr>"]
      sale_append [of demo_pg 5 2 1 40] by (simp add: demo_pg_empty)
  ultimately show ?thesis using reaches_step by (fastforce simp: demo_late_def)
qed

lemma demo_settled_step: "cluster_step toy_env Deferred ledger demo_late demo_settled"
proof -
  have "pg_append toy_env Deferred 0 (batch_single (demo_sale 1 7 35)) (cl_db demo_late)
      = (Ok [\<lparr>rec_id = EntryId 1, rec_index = None, rec_hash = content_hash toy_env (demo_sale 1 7 35), rec_new = True\<rparr>], cl_db demo_settled)"
    using sale_append [of "cl_db demo_late" 7 1 0 35]
    by (simp add: demo_late_def demo_settled_def sale_added_def sale_rows_def demo_pg_empty demo_sale_fields pg_entry_row_of_def)
  from appends [OF _ this, of ledger] show ?thesis by (simp add: demo_late_def demo_settled_def)
qed

lemma demo_rows: "db_entries (cl_db demo_settled)
    = [pg_entry_row_of toy_env None (demo_sale 2 5 40), pg_entry_row_of toy_env None (demo_sale 1 7 35)]"
  "pg_xid (cl_db demo_settled) (uuid_bytes (EntryId 1)) = 0" "pg_xid (cl_db demo_settled) (uuid_bytes (EntryId 2)) = 1"
  "horizon demo_settled = 2" "cl_open demo_settled = []"
  by (simp_all add: demo_settled_def demo_late_def sale_added_def demo_pg_empty horizon_def)

lemma demo_settled_rows: "settled_rows 2 (cl_db demo_settled)
    = [pg_entry_row_of toy_env None (demo_sale 1 7 35), pg_entry_row_of toy_env None (demo_sale 2 5 40)]"
  by (simp add: settled_rows_def demo_rows demo_sale_fields)

lemma demo_placed_step: "cluster_step toy_env Deferred ledger demo_settled demo_placed"
  unfolding demo_placed_def by (rule sequences [of 2]) (simp_all add: demo_rows prod_eq_iff)

lemma demo_cluster_reached:
  "cluster_reaches toy_env Deferred ledger cluster_new demo_settled" "cluster_reaches toy_env Deferred ledger cluster_new demo_placed"
  "cluster_reaches toy_env Deferred ledger demo_late demo_placed"
  using reaches_step demo_late_reached demo_settled_step demo_placed_step reaches_refl by blast+

lemma demo_settled_unplaced: "sequenced (cl_db demo_settled) = []"
  by (simp add: sequenced_def demo_rows)

lemma demo_settled_length: "length (db_entries (cl_db demo_settled)) = 2"
  by (simp add: demo_rows)

lemma demo_placed_length: "length (db_entries (cl_db demo_placed)) = 2"
  using pg_sequence_length [of toy_env Deferred 2 "cl_db demo_settled"] by (simp add: demo_placed_def demo_settled_length prod_eq_iff)

lemma demo_placed_log: "length (sequenced (cl_db demo_placed)) = 2"
proof -
  have "log_sound toy_env (cl_db demo_settled)"
    using reaches_log [OF demo_cluster_reached(1) new_log_sound] by (simp add: demo_settled_length i64_max_def)
  from pg_sequence_ok [OF this, of 2] show ?thesis
    by (auto simp: demo_settled_length i64_max_def demo_placed_def demo_settled_rows placed_in_def demo_settled_unplaced)
qed

end
