(* ===== verification/Postgres_Audit.thy ===== *)
theory Postgres_Audit
  imports Postgres_Demo
begin

text \<open>
  What the PostgreSQL backend promises of its log: dense positions, true roots, provable entries, and a
  deferred sequencer that loses and reorders nothing.
\<close>

section \<open>Reading a stored log\<close>

lemma pg_leaves_eq:
  assumes "log_stored E db acc" "int (length (sequenced db)) \<le> i64_max"
  shows "pg_leaves db = Ok (log_leaves db)"
proof -
  note l = log_storedD [OF assms(1)]
  have "pg_leaf (k, sequenced db ! k) = Ok (leaf_of (sequenced db ! k))" if k: "k < length (sequenced db)" for k
  proof -
    have "sequenced db ! k \<in> set (db_entries db)" using nth_mem [OF k] by (simp add: set_sequenced)
    then have "length (er_hash (sequenced db ! k)) = 32" by (rule l(2))
    moreover have "er_index (sequenced db ! k) = Some (int k)" using l(3) k by (simp add: rows_in_place_def)
    moreover have "i64_or_max k = int k" using k assms(2) by (simp add: i64_or_max_def)
    ultimately show ?thesis by (simp add: pg_leaf_def pg_hash_from_bytes_def leaf_of_def)
  qed
  then have "try_map pg_leaf (enumerate 0 (sequenced db)) = Ok (map (\<lambda>(k, r). leaf_of r) (enumerate 0 (sequenced db)))"
    by (intro try_map_total) (auto simp: in_set_enumerate_eq)
  moreover have "map (\<lambda>(k, r). leaf_of r) (enumerate 0 (sequenced db)) = log_leaves db"
    by (rule nth_equalityI) (simp_all add: log_leaves_def nth_enumerate_eq)
  ultimately show ?thesis by (simp add: pg_leaves_def)
qed

lemma pg_len_eq: "pg_len db = length (sequenced db)"
  by (simp add: pg_len_def length_sequenced)

lemma stored_root:
  assumes "log_stored E db acc" "k < length (sequenced db)"
  shows "er_root (sequenced db ! k) = Some (hash_bytes (mth (env_b3 E) (take (Suc k) (log_leaves db))))"
  using log_storedD(3) [OF assms(1)] assms(2) by (simp add: rows_in_place_def log_leaves_def take_map)

lemma pg_hash_round [simp]: "pg_hash_from_bytes (hash_bytes h) = Ok h"
  by (simp add: pg_hash_from_bytes_eq)

lemma pg_head_at_eq:
  assumes "log_stored E db acc" "int (length (sequenced db)) \<le> i64_max" "n \<le> length (sequenced db)"
  shows "pg_head_at E db n = Ok \<lparr>th_size = n, th_root = mth (env_b3 E) (take n (log_leaves db))\<rparr>"
proof (cases n)
  case 0
  then show ?thesis by (simp add: pg_head_at_def)
next
  case (Suc k)
  then have k: "k < length (sequenced db)" using assms(3) by simp
  have idx: "i64_or_max k = int k" using k assms(2) by (simp add: i64_or_max_def)
  let ?P = "\<lambda>r. er_index r = Some (int k)"
  have "sequenced db ! k \<in> set (db_entries db)" "?P (sequenced db ! k)"
    using nth_mem [OF k] log_storedD(3) [OF assms(1)] k by (simp_all add: set_sequenced rows_in_place_def)
  then obtain r where r: "find ?P (db_entries db) = Some r" by (cases "find ?P (db_entries db)") (auto simp: find_None_iff)
  then have "r \<in> set (sequenced db)" "?P r" using find_some [OF r] by (auto simp: set_sequenced)
  then have "r = sequenced db ! k"
    using log_storedD(3) [OF assms(1)] by (auto simp: rows_in_place_def in_set_conv_nth)
  then show ?thesis using Suc r idx stored_root [OF assms(1) k] by (simp add: pg_head_at_def)
qed

lemma pg_head_eq:
  assumes "log_stored E db acc" "int (length (sequenced db)) \<le> i64_max"
  shows "pg_head E db = Ok \<lparr>th_size = length (sequenced db), th_root = mth (env_b3 E) (log_leaves db)\<rparr>"
proof (cases "sequenced db" rule: rev_cases)
  case Nil
  then show ?thesis by (simp add: pg_head_def log_leaves_def)
next
  case (snoc rows r)
  have k: "length rows < length (sequenced db)" "sequenced db ! length rows = r" by (simp_all add: snoc)
  have "er_index r = Some (int (length rows))" using log_storedD(3) [OF assms(1)] k by (auto simp: rows_in_place_def)
  moreover have "er_root r = Some (hash_bytes (mth (env_b3 E) (log_leaves db)))"
    using stored_root [OF assms(1) k(1)] k(2) by (simp add: snoc log_leaves_def)
  moreover have "min u64_max (length rows + 1) = Suc (length rows)" using assms(2) by (simp add: snoc i64_max_def u64_max_def)
  ultimately show ?thesis by (simp add: pg_head_def snoc u64_or_zero_def)
qed

lemma head_at_mth: "good_log b3 lg \<Longrightarrow> n \<le> length (leaves lg) \<Longrightarrow> head_at b3 lg n = Ok h \<Longrightarrow> h = \<lparr>th_size = n, th_root = mth b3 (take n (leaves lg))\<rparr>"
  by (auto simp: head_at_def root_at_def log_len_def Let_def good_log_accessors(1) split: if_splits)

lemma pg_provable:
  assumes "log_stored E db acc" "int (length (sequenced db)) \<le> i64_max" "i < n" "n \<le> length (sequenced db)"
  shows "\<exists>pf. pg_prove_inclusion_at E db i n = Ok pf
    \<and> inclusion_verify (env_b3 E) pf (log_leaves db ! i) \<lparr>th_size = n, th_root = mth (env_b3 E) (take n (log_leaves db))\<rparr>"
proof -
  let ?lg = "log_from_leaves (env_b3 E) (log_leaves db)"
  have lg: "good_log (env_b3 E) ?lg" "leaves ?lg = log_leaves db"
    using log_from_leaves_good [of "log_leaves db" "env_b3 E"] assms(2) by (simp_all add: i64_max_def u64_max_def)
  have n: "n \<le> length (leaves ?lg)" using assms(4) lg(2) by simp
  obtain pf head where pf: "inclusion_proof_at (env_b3 E) ?lg i n = Ok pf" "head_at (env_b3 E) ?lg n = Ok head"
      "inclusion_verify (env_b3 E) pf (leaves ?lg ! i) head"
    using inclusion_proof_accepted [of i n ?lg "env_b3 E"] assms(3) n by (auto simp: log_len_def)
  have "head = \<lparr>th_size = n, th_root = mth (env_b3 E) (take n (log_leaves db))\<rparr>" using head_at_mth [OF lg(1) n pf(2)] lg(2) by simp
  then show ?thesis
    using pf lg(2) by (simp add: pg_prove_inclusion_at_def pg_log_def pg_leaves_eq [OF assms(1,2)])
qed

section \<open>The log of a reachable database\<close>

text \<open>
  C27. In every state the PostgreSQL backend reaches, in either mode and with transactions opening, committing
  and failing in any order, the stored log is sound: reading its leaves finds positions dense from zero, every
  row with a position stores the hash of the leaf at that position, the head and every historical head carry
  the Merkle root recomputed from the leaves up to that size, every position has an inclusion proof that
  verifies against the head of any size that contains it, and the accumulator read back from the stored
  subtrees is the one that pushing every leaf of the log in order builds.
\<close>

theorem postgres_log_sound:
  assumes "cluster_reaches E mode ledger cluster_new s" "int (length (db_entries (cl_db s))) \<le> i64_max"
  shows "\<exists>ls. pg_leaves (cl_db s) = Ok ls \<and> length ls = pg_len (cl_db s)
    \<and> (\<forall>r\<in>set (db_entries (cl_db s)). \<forall>i. er_index r = Some i \<longrightarrow> 0 \<le> i \<and> nat i < length ls \<and> er_hash r = hash_bytes (ls ! nat i))
    \<and> pg_head E (cl_db s) = Ok \<lparr>th_size = length ls, th_root = mth (env_b3 E) ls\<rparr>
    \<and> (\<forall>n\<le>length ls. pg_head_at E (cl_db s) n = Ok \<lparr>th_size = n, th_root = mth (env_b3 E) (take n ls)\<rparr>)
    \<and> (\<forall>i n. i < n \<and> n \<le> length ls \<longrightarrow> (\<exists>pf. pg_prove_inclusion_at E (cl_db s) i n = Ok pf
          \<and> inclusion_verify (env_b3 E) pf (ls ! i) \<lparr>th_size = n, th_root = mth (env_b3 E) (take n ls)\<rparr>))
    \<and> pg_accumulator (cl_db s) = Ok (foldl (\<lambda>a leaf. snd (acc_push (env_b3 E) a leaf)) acc_new ls)"
proof -
  obtain acc where acc: "log_stored E (cl_db s) acc" "db_subtrees (cl_db s) = pg_subtree_rows acc"
    using reaches_log [OF assms(1) new_log_sound assms(2)] by (auto simp: log_sound_def)
  have len: "int (length (sequenced (cl_db s))) \<le> i64_max" using sequenced_le [of "cl_db s"] assms(2) by simp
  have fits: "length (sequenced (cl_db s)) \<le> u64_max" using len by (simp add: i64_max_def u64_max_def)
  have pushed: "pg_accumulator (cl_db s) = Ok (foldl (\<lambda>a leaf. snd (acc_push (env_b3 E) a leaf)) acc_new (log_leaves (cl_db s)))"
    using pg_accumulator_eq [OF acc fits] good_acc_unique [OF log_storedD(4) [OF acc(1)] push_all_good] fits by simp
  have rows: "0 \<le> i \<and> nat i < length (log_leaves (cl_db s)) \<and> er_hash r = hash_bytes (log_leaves (cl_db s) ! nat i)"
    if r: "r \<in> set (db_entries (cl_db s))" "er_index r = Some i" for r i
  proof -
    have "r \<in> set (sequenced (cl_db s))" using r by (simp add: set_sequenced)
    then obtain k where k: "k < length (sequenced (cl_db s))" "sequenced (cl_db s) ! k = r" by (auto simp: in_set_conv_nth)
    then have "i = int k" using log_storedD(3) [OF acc(1)] r(2) by (auto simp: rows_in_place_def)
    then show ?thesis
      using k log_storedD(2) [OF acc(1) r(1)] hash_bytes_from [of "er_hash r"] by (simp add: log_leaves_def leaf_of_def)
  qed
  show ?thesis
    by (intro exI [of _ "log_leaves (cl_db s)"] conjI)
      (use rows pushed pg_leaves_eq [OF acc(1) len] pg_head_eq [OF acc(1) len] pg_head_at_eq [OF acc(1) len] pg_provable [OF acc(1) len]
        in \<open>simp_all add: pg_len_eq\<close>)
qed

lemma postgres_log_sound_witness:
  "\<exists>ls. pg_leaves (cl_db demo_placed) = Ok ls \<and> length ls = pg_len (cl_db demo_placed)
    \<and> pg_head toy_env (cl_db demo_placed) = Ok \<lparr>th_size = length ls, th_root = mth toy_hash ls\<rparr> \<and> length ls = 2
    \<and> pg_accumulator (cl_db demo_placed) = Ok (foldl (\<lambda>a leaf. snd (acc_push toy_hash a leaf)) acc_new ls)"
proof -
  have len: "int (length (db_entries (cl_db demo_placed))) \<le> i64_max" by (simp add: demo_placed_length i64_max_def)
  show ?thesis using postgres_log_sound [OF demo_cluster_reached(2) len] demo_placed_log by (auto simp: toy_env_def pg_len_eq)
qed

text \<open>
  C28. A pass of the deferred sequencer over the snapshot of any reachable state succeeds: it reports how many
  rows it placed, puts exactly the rows of transactions older than every open one at the end of the log, in
  the order of their transactions and then of their identifiers, leaves every other row without a position,
  and touches nothing else. When no transaction is open, nothing is left without a position.
\<close>

theorem sequence_places_settled:
  assumes "cluster_reaches E Deferred ledger cluster_new s" "int (length (db_entries (cl_db s))) \<le> i64_max"
  shows "\<exists>db. pg_sequence E Deferred (horizon s) (cl_db s) = (Ok (length (settled_rows (horizon s) (cl_db s))), db)
    \<and> map er_id (sequenced db) = map er_id (sequenced (cl_db s)) @ map er_id (settled_rows (horizon s) (cl_db s))
    \<and> log_leaves db = log_leaves (cl_db s) @ map leaf_of (settled_rows (horizon s) (cl_db s))
    \<and> take (pg_len (cl_db s)) (sequenced db) = sequenced (cl_db s)
    \<and> pending db = filter (\<lambda>r. horizon s \<le> pg_xid (cl_db s) (er_id r)) (pending (cl_db s))
    \<and> beside_log db = beside_log (cl_db s)
    \<and> (cl_open s = [] \<longrightarrow> pending db = [])"
proof -
  let ?db = "cl_db s" and ?rows = "settled_rows (horizon s) (cl_db s)"
  have sound: "log_sound E ?db" using reaches_log [OF assms(1) new_log_sound assms(2)] by simp
  have distinct: "distinct (map er_id (db_entries ?db))" using sound log_storedD(1) by (auto simp: log_sound_def)
  obtain db where db: "pg_sequence E Deferred (horizon s) ?db = (Ok (length ?rows), db)" "placed_in E ?rows ?db db"
    using pg_sequence_ok [OF sound assms(2)] by blast
  have ids: "er_id r \<in> er_id ` set ?rows \<longleftrightarrow> r \<in> set ?rows" if "r \<in> set (pending ?db)" for r
    using that distinct by (auto simp: set_settled pending_def distinct_map inj_on_def)
  have "pending db = filter (\<lambda>r. er_id r \<notin> er_id ` set ?rows) (pending ?db)" using db(2) by (simp add: placed_in_def)
  also have "\<dots> = filter (\<lambda>r. horizon s \<le> pg_xid ?db (er_id r)) (pending ?db)"
    by (rule filter_cong) (use ids set_settled [of "horizon s" ?db] in auto)
  finally have pend: "pending db = filter (\<lambda>r. horizon s \<le> pg_xid ?db (er_id r)) (pending ?db)" .
  have "pending db = []" if "cl_open s = []"
  proof -
    have "horizon s = cl_next s" using that by (simp add: horizon_def)
    then show ?thesis
      unfolding pend using reaches_timed [OF assms] by (auto simp: filter_empty_conv cluster_timed_def pending_def)
  qed
  then show ?thesis
    using db pend by (intro exI [of _ db]) (simp add: placed_in_def log_leaves_def pg_len_eq)
qed

lemma sequence_places_settled_witness:
  "\<exists>db. pg_sequence toy_env Deferred 2 (cl_db demo_settled) = (Ok 2, db)
    \<and> map er_id (sequenced db) = [uuid_bytes (EntryId 1), uuid_bytes (EntryId 2)] \<and> pending db = []"
proof -
  have len: "int (length (db_entries (cl_db demo_settled))) \<le> i64_max" by (simp add: demo_rows i64_max_def)
  show ?thesis
    using sequence_places_settled [OF demo_cluster_reached(1) len]
    by (auto simp: demo_rows demo_settled_rows demo_settled_unplaced demo_sale_fields)
qed

text \<open>
  C29. The log only grows. Whatever happens after a state, in either mode, the log of that state is the
  beginning of every later log, row by row with positions and roots, and an entry once stored stays, with
  every column but a position and a root it did not have yet.
\<close>

theorem postgres_log_only_grows:
  assumes "cluster_reaches E mode ledger cluster_new s" "cluster_reaches E mode ledger s t"
    and "int (length (db_entries (cl_db t))) \<le> i64_max"
  shows "take (pg_len (cl_db s)) (sequenced (cl_db t)) = sequenced (cl_db s)
    \<and> (\<forall>r\<in>set (db_entries (cl_db s)). \<exists>q\<in>set (db_entries (cl_db t)). row_kept r q)"
proof -
  have "length (db_entries (cl_db s)) \<le> length (db_entries (cl_db t))"
    using assms(2) unfolding cluster_reaches_def by (induction rule: rtranclp_induct) (auto dest: step_length)
  then have "log_sound E (cl_db s)" using reaches_log [OF assms(1) new_log_sound] assms(3) by simp
  then show ?thesis using reaches_log [OF assms(2) _ assms(3)] by (auto simp: log_extends_def pg_len_eq)
qed

lemma postgres_log_only_grows_witness:
  "length (db_entries (cl_db demo_late)) = 1
    \<and> list_all (\<lambda>r. list_ex (row_kept r) (db_entries (cl_db demo_placed))) (db_entries (cl_db demo_late))"
proof -
  have len: "int (length (db_entries (cl_db demo_placed))) \<le> i64_max" by (simp add: demo_placed_length i64_max_def)
  show ?thesis
    using postgres_log_only_grows [OF demo_late_reached demo_cluster_reached(3) len]
    by (simp add: list_all_iff list_ex_iff demo_late_def sale_added_def demo_pg_empty)
qed

text \<open>
  C30. Deferred positions follow the order of the transactions: in every reachable state the log is strictly
  sorted by transaction number and then by identifier, and an entry that has no position yet belongs to a
  later transaction than every entry that has one. So an entry that commits late is never placed behind a
  reader.
\<close>

theorem deferred_log_in_order:
  assumes "cluster_reaches E Deferred ledger cluster_new s" "int (length (db_entries (cl_db s))) \<le> i64_max"
  shows "sorted_wrt (<) (map (\<lambda>r. (pg_xid (cl_db s) (er_id r), er_id r)) (sequenced (cl_db s)))
    \<and> (\<forall>r\<in>set (sequenced (cl_db s)). \<forall>q\<in>set (pending (cl_db s)). pg_xid (cl_db s) (er_id r) < pg_xid (cl_db s) (er_id q))"
  using reaches_ordered [OF assms] by (fastforce simp: cluster_ordered_def in_commit_order_def commit_key_def [abs_def] split_at_def)

lemma deferred_log_in_order_witness:
  "length (sequenced (cl_db demo_placed)) = 2
    \<and> sorted_wrt (<) (map (\<lambda>r. (pg_xid (cl_db demo_placed) (er_id r), er_id r)) (sequenced (cl_db demo_placed)))"
proof -
  have len: "int (length (db_entries (cl_db demo_placed))) \<le> i64_max" by (simp add: demo_placed_length i64_max_def)
  show ?thesis using deferred_log_in_order [OF demo_cluster_reached(2) len] demo_placed_log by simp
qed

end
