(* ===== verification/Postgres_Agree.thy ===== *)
theory Postgres_Agree
  imports Postgres_Sequence Sqlite_Audit
begin

text \<open>
  On tables that hold the books of a journal, and with handles that fit its columns, the PostgreSQL
  backend reads, sums and (in inline mode) appends as the SQLite backend does.
\<close>

section \<open>The same columns and queries\<close>

lemma pg_codes_eq:
  "pg_direction_str = direction_str" "pg_layer_str = layer_str" "pg_limit_from_code = limit_from_code" "pg_prefix_bound = prefix_bound"
  by (simp_all add: fun_eq_iff pg_direction_str_def direction_str_def pg_layer_str_def layer_str_def pg_limit_from_code_def
      limit_from_code_def pg_prefix_bound_def prefix_bound_def)

lemma pg_build_posting_eq: "pg_build_posting = build_posting"
  by (simp add: fun_eq_iff pg_build_posting_def build_posting_def)

lemma pg_dimensions_from_eq: "pg_dimensions_from = dimensions_from"
proof -
  have eq: "pg_add_dimension = add_dimension" by (simp add: fun_eq_iff pg_add_dimension_def add_dimension_def)
  show ?thesis unfolding fun_eq_iff pg_dimensions_from_def dimensions_from_def eq by simp
qed

lemma pg_load_postings_for_eq: "pg_load_postings_for db = load_postings_for db"
proof -
  have eq: "pg_add_loaded = add_loaded" by (simp add: fun_eq_iff pg_add_loaded_def add_loaded_def pg_build_posting_eq)
  show ?thesis
    unfolding fun_eq_iff pg_load_postings_for_def load_postings_for_def pg_dimensions_from_eq dimension_rows_for_def posting_rows_for_def eq
    by simp
qed

lemma sort_key_fixed_part:
  assumes "\<forall>x\<in>set xs. f x = c"
  shows "sort_key (\<lambda>x. (f x, g x)) xs = sort_key g xs"
proof -
  have "insort_key (\<lambda>x. (f x, g x)) x ys = insort_key g x ys" if "f x = c" "\<forall>y\<in>set ys. f y = c" for x ys
    using that by (induction ys) auto
  then show ?thesis using assms by (induction xs) auto
qed

lemma pg_load_postings_tx_eq: "pg_load_postings_tx db i = load_postings_tx db i"
proof -
  have "sort_key (\<lambda>r. (po_entry r, po_index r)) (filter (\<lambda>r. po_entry r = i) (db_postings db)) = sort_key po_index (filter (\<lambda>r. po_entry r = i) (db_postings db))"
    "sort_key (\<lambda>r. (di_entry r, di_index r, di_axis r)) (filter (\<lambda>r. di_entry r = i) (db_dimensions db))
      = sort_key (\<lambda>r. (di_index r, di_axis r)) (filter (\<lambda>r. di_entry r = i) (db_dimensions db))"
    by (rule sort_key_fixed_part [of _ _ i]; simp)+
  then show ?thesis
    by (simp add: pg_load_postings_tx_def load_postings_tx_def pg_dimensions_from_eq pg_build_posting_eq dimension_rows_for_def posting_rows_for_def)
qed

lemma pg_uuid_of: "length bs = 16 \<Longrightarrow> uuid_from_bytes bs = Ok (pg_uuid bs)"
  by (simp add: uuid_from_bytes_def pg_uuid_def)

lemma pg_uuid_round [simp]: "pg_uuid (uuid_bytes i) = i"
  using pg_uuid_of [of "uuid_bytes i"] uuid_round [of i] by (simp add: uuid_bytes_def)

lemma pg_build_stored_entry_eq:
  assumes "length (er_id row) = 16" "\<forall>r. er_reverses row = Some r \<longrightarrow> length r = 16"
  shows "pg_build_stored_entry E row ps = build_stored_entry E row ps"
proof -
  have "reversal_columns (er_reverses row) (er_original row) draft
      = Ok (case (er_reverses row, er_original row) of (Some r, Some d) \<Rightarrow> reversing draft (pg_uuid r) d | _ \<Rightarrow> draft)" for draft
    using assms(2) pg_uuid_of by (auto simp: reversal_columns_def split: option.split)
  moreover have "provenance_column f col p = (case col of None \<Rightarrow> Ok p | Some v \<Rightarrow> map_err (\<lambda>_. SqlMalformed) (f p v))" for f col p
    by (simp add: provenance_column_def)
  ultimately show ?thesis
    by (simp add: pg_build_stored_entry_def build_stored_entry_def pg_uuid_of [OF assms(1)] pg_hash_from_bytes_eq Let_def
        kind_column_def document_columns_def document_of_def split_beta cong: option.case_cong)
qed

section \<open>The log\<close>

lemma pg_log_eq: "pg_len db = sqlite_len db" "pg_head E db = sqlite_head E db" "pg_head_at E db n = sqlite_head_at E db n"
  "pg_log E db = sqlite_log E db"
proof -
  have "pg_leaf = dense_leaf" unfolding fun_eq_iff pg_leaf_def dense_leaf_def pg_hash_from_bytes_eq by simp
  then show "pg_log E db = sqlite_log E db" by (simp add: pg_log_def pg_leaves_def sqlite_log_def)
qed (unfold pg_len_def sqlite_len_def pg_head_def sqlite_head_def pg_head_at_def sqlite_head_at_def pg_hash_from_bytes_eq, simp_all)

lemma stored_uuid_columns:
  assumes "backed E db j" "row \<in> set (db_entries db)"
  shows "length (er_id row) = 16" "\<forall>r. er_reverses row = Some r \<longrightarrow> length r = 16"
proof -
  obtain n where "row = row_at E (j_entries j) n" using assms(2) backedD(2) [OF assms(1)] by (auto simp: entry_rows_at)
  then show "length (er_id row) = 16" "\<forall>r. er_reverses row = Some r \<longrightarrow> length r = 16" by (auto simp: uuid_bytes_def)
qed

lemma pg_get_eq:
  assumes "backed E db j"
  shows "pg_get E db i = sqlite_get E db i"
proof (cases "find (\<lambda>r. er_id r = uuid_bytes i) (db_entries db)")
  case (Some row)
  then have "row \<in> set (db_entries db)" using find_some by metis
  from pg_build_stored_entry_eq [OF stored_uuid_columns [OF assms this]] show ?thesis
    by (simp add: pg_get_def sqlite_get_def Some pg_load_postings_for_eq)
qed (simp add: pg_get_def sqlite_get_def)

lemma try_map_cong: "(\<And>x. x \<in> set xs \<Longrightarrow> f x = g x) \<Longrightarrow> try_map f xs = try_map g xs"
  by (induction xs) simp_all

lemma pg_page_eq:
  assumes "backed E db j"
  shows "pg_page E db c = sqlite_page E db c"
proof -
  have "try_map (\<lambda>row. pg_build_stored_entry E row (f row)) (take m (filter P (sequenced db)))
      = try_map (\<lambda>row. build_stored_entry E row (f row)) (take m (filter P (sequenced db)))" for f m P
  proof (intro try_map_cong pg_build_stored_entry_eq stored_uuid_columns [OF assms])
    fix row
    assume "row \<in> set (take m (filter P (sequenced db)))"
    then have "row \<in> set (filter P (sequenced db))" by (rule in_set_takeD)
    then show "row \<in> set (db_entries db)" "row \<in> set (db_entries db)" by (simp_all add: set_sequenced)
  qed
  then show ?thesis unfolding pg_page_def sqlite_page_def Let_def pg_load_postings_for_eq pg_log_eq(1) by simp
qed

section \<open>The figures\<close>

text \<open>Where the sum of SQLite succeeds, with every partial sum in range, so does the exact one.\<close>

lemma sql_sum_pg: "sql_sum xs = Ok n \<Longrightarrow> pg_sum xs = Ok n"
proof -
  have "n = acc + sum_list xs \<and> (in_i64 acc \<longrightarrow> in_i64 n)"
    if "try_fold (\<lambda>acc x. if in_i64 (acc + x) then Ok (acc + x) else Err SqlDatabase) acc xs = Ok n" for acc
    using that
  proof (induction xs arbitrary: acc)
    case (Cons x xs)
    then have "in_i64 (acc + x)" "n = acc + x + sum_list xs \<and> in_i64 n" using Cons.IH [of "acc + x"] by (auto split: if_splits)
    then show ?case by auto
  qed simp
  then show "sql_sum xs = Ok n \<Longrightarrow> pg_sum xs = Ok n"
    by (fastforce simp: sql_sum_def pg_sum_def to_bigint_def)
qed

lemma both_sums_pg: "both_sums rows = Ok b \<Longrightarrow> pg_both_sums rows = Ok b"
  by (auto simp: both_sums_def pg_both_sums_def sum_of_def dest!: sql_sum_pg)

lemma try_map_Ok_mono: "try_map f xs = Ok ys \<Longrightarrow> (\<And>x y. f x = Ok y \<Longrightarrow> g x = Ok y) \<Longrightarrow> try_map g xs = Ok ys"
  by (induction xs arbitrary: ys) auto

lemma try_fold_Ok_mono: "try_fold f s xs = Ok t \<Longrightarrow> (\<And>s x t. f s x = Ok t \<Longrightarrow> g s x = Ok t) \<Longrightarrow> try_fold g s xs = Ok t"
  by (induction xs arbitrary: s) auto

lemma grouped_sums_pg:
  assumes "grouped_sums rows = Ok gs"
  shows "pg_grouped_sums rows = Ok gs"
  unfolding pg_grouped_sums_def
  by (rule try_map_Ok_mono [OF assms [unfolded grouped_sums_def]]) (auto dest: both_sums_pg)

lemma pg_bound: "(\<lambda>e. case er_index e of None \<Rightarrow> False | Some i \<Rightarrow> i < pg_prefix_bound n) = below_bound (prefix_bound n)"
  unfolding fun_eq_iff below_bound_def pg_codes_eq by simp

lemma pg_account_small: "uint (account_index a) < 2 ^ 31 \<Longrightarrow> pg_account a = column_account a"
  by (simp add: pg_account_def i32_or_max_def column_account_def)

lemma pg_matches_small: "uint (account_index (k_account key)) < 2 ^ 31 \<Longrightarrow> pg_matches key = posting_matches key"
  by (simp add: fun_eq_iff pg_matches_def posting_matches_def pg_account_small pg_codes_eq)

lemma pg_balance_Ok:
  "sqlite_balance db key n = Ok b \<Longrightarrow> uint (account_index (k_account key)) < 2 ^ 31 \<Longrightarrow> pg_balance db key n = Ok b"
  by (simp add: pg_balance_def sqlite_balance_def pg_bound pg_matches_small both_sums_pg)

lemma pg_trial_balance_Ok:
  assumes "sqlite_trial_balance db n = Ok tb"
  shows "pg_trial_balance db n = Ok tb"
proof -
  have eq: "pg_add_group = add_group" by (simp add: fun_eq_iff pg_add_group_def add_group_def)
  obtain gs where "grouped_sums (joined db (below_bound (prefix_bound n))) = Ok gs" "build_trial_balance gs = Ok tb"
    using assms by (auto simp: sqlite_trial_balance_def)
  then show ?thesis unfolding pg_trial_balance_def pg_bound eq by (simp add: grouped_sums_pg build_trial_balance_def)
qed

lemma pg_trial_balance_through_Ok:
  assumes "sqlite_trial_balance_through db d = Ok tb"
  shows "pg_trial_balance_through db d = Ok tb"
proof -
  obtain gs where gs: "grouped_sums (joined db (\<lambda>e. er_index e \<noteq> None \<and> er_booking e \<le> d)) = Ok gs" "build_trial_balance gs = Ok tb"
    using assms by (auto simp: sqlite_trial_balance_through_def)
  have "try_fold pg_add_group_through bt_empty gs = Ok tb"
    by (rule try_fold_Ok_mono [OF gs(2) [unfolded build_trial_balance_def]])
      (auto simp: add_group_def pg_add_group_through_def split: prod.splits if_splits)
  then show ?thesis using grouped_sums_pg [OF gs(1)] by (simp add: pg_trial_balance_through_def)
qed

section \<open>Appending inline\<close>

text \<open>The handles an entry names fit the \<^verbatim>\<open>INTEGER\<close> column.\<close>

definition handles_fit :: "entry \<Rightarrow> bool" where
  "handles_fit e \<longleftrightarrow> (\<forall>p\<in>set (e_postings e). uint (account_index (p_account p)) < 2 ^ 31)"

lemma pg_row_inline: "pg_entry_row_of E (Some (i, root)) e = entry_row_of E i root e"
  by (simp add: pg_entry_row_of_def entry_row_of_def)

lemma pg_check_reversal_Ok: "sqlite_check_reversal db e original = Ok () \<Longrightarrow> pg_check_reversal db e original = Ok ()"
  by (auto simp: sqlite_check_reversal_def pg_check_reversal_def pg_load_postings_tx_eq Let_def split: option.splits if_splits)

lemma pg_check_limit_Ok:
  "sqlite_check_limit db key = Ok () \<Longrightarrow> uint (account_index (k_account key)) < 2 ^ 31 \<Longrightarrow> pg_check_limit db key = Ok ()"
  by (auto simp: sqlite_check_limit_def pg_check_limit_def pg_account_small pg_matches_small pg_codes_eq
      split: option.splits if_splits dest!: sql_sum_pg)

lemma pg_check_limits_Ok:
  assumes "sqlite_check_limits db e = Ok ()" "handles_fit e"
  shows "pg_check_limits db e = Ok ()"
proof -
  have "try_fold (\<lambda>seen p. let key = key_of_posting p in
         if key \<in> set seen then Ok seen else bindR (pg_check_limit db key) (\<lambda>_. Ok (key # seen))) seen ps = Ok t"
    if "try_fold (\<lambda>seen p. let key = key_of_posting p in
         if key \<in> set seen then Ok seen else bindR (sqlite_check_limit db key) (\<lambda>_. Ok (key # seen))) seen ps = Ok t"
      "\<forall>p\<in>set ps. uint (account_index (p_account p)) < 2 ^ 31" for seen ps t
    using that
  proof (induction ps arbitrary: seen)
    case (Cons p ps)
    have "pg_check_limit db (key_of_posting p) = Ok ()" if "sqlite_check_limit db (key_of_posting p) = Ok ()"
      using pg_check_limit_Ok [OF that] Cons.prems(2) by (simp add: key_of_posting_def)
    then show ?case using Cons by (auto simp: Let_def split: if_splits)
  qed simp
  then show ?thesis using assms by (auto simp: sqlite_check_limits_def pg_check_limits_def handles_fit_def)
qed

lemma pg_stored_replay_Ok: "stored_replay db e h = Ok r \<Longrightarrow> pg_stored_replay db e h = Ok r"
  by (auto simp: stored_replay_def pg_stored_replay_def pg_hash_from_bytes_eq uuid_from_bytes_def pg_uuid_def split: option.splits if_splits)

text \<open>Inserting postings does not look at the transaction column.\<close>

lemma insert_posting_xid:
  fixes db :: pg_db
  shows "insert_posting db r = Ok db1 \<Longrightarrow> insert_posting (db\<lparr>pg_xid := f\<rparr>) r = Ok (db1\<lparr>pg_xid := f\<rparr>)"
  by (auto simp: insert_posting_def posting_row_ok_def split: if_splits)

lemma insert_dimension_xid:
  fixes db :: pg_db
  shows "insert_dimension db r = Ok db1 \<Longrightarrow> insert_dimension (db\<lparr>pg_xid := f\<rparr>) r = Ok (db1\<lparr>pg_xid := f\<rparr>)"
  by (auto simp: insert_dimension_def dimension_row_ok_def split: if_splits)

lemma try_fold_xid:
  fixes db :: pg_db
  assumes "try_fold f db xs = Ok db1" "\<And>d x d1. x \<in> set xs \<Longrightarrow> f d x = Ok d1 \<Longrightarrow> g (d\<lparr>pg_xid := t\<rparr>) x = Ok (d1\<lparr>pg_xid := t\<rparr>)"
  shows "try_fold g (db\<lparr>pg_xid := t\<rparr>) xs = Ok (db1\<lparr>pg_xid := t\<rparr>)"
  using assms by (induction xs arbitrary: db) fastforce+

lemma insert_with_axes_pg:
  fixes db :: pg_db
  assumes "insert_with_axes i db (k, p) = Ok db1" "k < 2 ^ 15" "uint (account_index (p_account p)) < 2 ^ 31"
  shows "pg_insert_with_axes i (db\<lparr>pg_xid := t\<rparr>) (k, p) = Ok (db1\<lparr>pg_xid := t\<rparr>)"
proof -
  have k: "i16_or_max k = i64_or_max k" using assms(2) by (simp add: i16_or_max_def)
  obtain db0 where db0: "insert_posting db (posting_row_of i k p) = Ok db0" "try_fold insert_dimension db0 (dimension_rows_of i k p) = Ok db1"
    using assms(1) by (auto simp: insert_with_axes_def)
  have "pg_posting_row_of i k p = posting_row_of i k p"
    by (simp add: pg_posting_row_of_def posting_row_of_def k pg_account_small [OF assms(3)] pg_codes_eq)
  moreover have "pg_dimension_rows_of i k p = dimension_rows_of i k p" by (simp add: pg_dimension_rows_of_def dimension_rows_of_def k)
  moreover have "try_fold insert_dimension (db0\<lparr>pg_xid := t\<rparr>) (dimension_rows_of i k p) = Ok (db1\<lparr>pg_xid := t\<rparr>)"
    by (rule try_fold_xid [OF db0(2)]) (rule insert_dimension_xid)
  ultimately show ?thesis using insert_posting_xid [OF db0(1)] by (simp add: pg_insert_with_axes_def)
qed

lemma checks_xid:
  fixes db :: pg_db
  shows "sqlite_check_reversal (db\<lparr>pg_xid := f\<rparr>) e original = sqlite_check_reversal db e original"
    "sqlite_check_limits (db\<lparr>pg_xid := f\<rparr>) e = sqlite_check_limits db e"
    "stored_replay (db\<lparr>pg_xid := f\<rparr>) e h = stored_replay db e h"
proof -
  have entries: "db_entries (db\<lparr>pg_xid := f\<rparr>) = db_entries db"
    and rows: "db_postings (db\<lparr>pg_xid := f\<rparr>) = db_postings db" "db_accounts (db\<lparr>pg_xid := f\<rparr>) = db_accounts db" by simp_all
  have load: "load_postings_tx (db\<lparr>pg_xid := f\<rparr>) = load_postings_tx db"
    by (simp add: fun_eq_iff load_postings_tx_def dimension_rows_for_def posting_rows_for_def)
  show "sqlite_check_reversal (db\<lparr>pg_xid := f\<rparr>) e original = sqlite_check_reversal db e original"
    unfolding sqlite_check_reversal_def entries load by (rule refl)
  have limit: "sqlite_check_limit (db\<lparr>pg_xid := f\<rparr>) = sqlite_check_limit db"
    unfolding fun_eq_iff sqlite_check_limit_def rows by simp
  show "sqlite_check_limits (db\<lparr>pg_xid := f\<rparr>) e = sqlite_check_limits db e"
    unfolding sqlite_check_limits_def limit by (rule refl)
qed (simp add: stored_replay_def)

lemma insert_entry_xid:
  fixes db :: pg_db
  shows "insert_entry row db = Ok None \<Longrightarrow> insert_entry row (db\<lparr>pg_xid := f\<rparr>) = Ok None"
    "insert_entry row db = Ok (Some (i, db1)) \<Longrightarrow> insert_entry row (db\<lparr>pg_xid := f\<rparr>) = Ok (Some (i, db1\<lparr>pg_xid := f\<rparr>))"
  by (auto simp: insert_entry_def split: if_splits)

lemma append_one_pg:
  fixes db :: pg_db
  assumes one: "append_one E e (db, n, acc) = Ok (r, db1, n1, acc1)" and e: "handles_fit e" "length (e_postings e) < 2 ^ 15"
  shows "\<exists>f1. pg_append_one E PlaceInline xid e (db\<lparr>pg_xid := f\<rparr>, n, acc) = Ok (r, db1\<lparr>pg_xid := f1\<rparr>, n1, acc1)"
proof -
  let ?db = "db\<lparr>pg_xid := f\<rparr>" and ?acc = "snd (acc_push (env_b3 E) acc (content_hash E e))"
  let ?row = "entry_row_of E n (acc_root (env_b3 E) ?acc) e"
  have clash: "\<not> list_ex (\<lambda>r. er_id r = uuid_bytes (e_id e) \<and> er_key r \<noteq> key_bytes (e_key e)) (db_entries db)"
    using one by (auto simp: append_one_def split: if_splits)
  have lite: "(case e_reverses e of None \<Rightarrow> Ok () | Some original \<Rightarrow> sqlite_check_reversal db e original) = Ok ()"
  proof (cases "case e_reverses e of None \<Rightarrow> Ok () | Some original \<Rightarrow> sqlite_check_reversal db e original")
    case (Inl x)
    then have "append_one E e (db, n, acc) = Err x" using clash unfolding append_one_def Let_def by simp
    then show ?thesis using one by simp
  qed simp
  have reversal: "(case e_reverses e of None \<Rightarrow> Ok () | Some original \<Rightarrow> pg_check_reversal ?db e original) = Ok ()"
  proof (cases "e_reverses e")
    case (Some original)
    then have "sqlite_check_reversal ?db e original = Ok ()" using lite checks_xid(1) [of f db e original] by simp
    then show ?thesis using Some pg_check_reversal_Ok [of ?db e original] by simp
  qed simp
  obtain inserted where ins: "insert_entry ?row db = Ok inserted"
    using one clash lite by (auto simp: append_one_def Let_def)
  show ?thesis
  proof (cases inserted)
    case None
    then have "stored_replay db e (content_hash E e) = Ok r" "db1 = db" "n1 = n" "acc1 = acc"
      using one clash lite ins by (auto simp: append_one_def Let_def)
    then show ?thesis
      using clash reversal ins None insert_entry_xid(1) [of ?row db f] pg_stored_replay_Ok [of ?db]
      by (intro exI [of _ f]) (simp add: pg_append_one_def Let_def pg_row_inline checks_xid)
  next
    case (Some p)
    obtain i dbi where p: "p = (i, dbi)" by (cases p)
    have i: "i = Some n" and xi: "pg_xid dbi = pg_xid db"
      using ins Some p by (auto simp: insert_entry_def entry_row_of_def split: if_splits)
    obtain db2 where db2: "try_fold (insert_with_axes (e_id e)) dbi (enumerate 0 (e_postings e)) = Ok db2" "sqlite_check_limits db2 e = Ok ()"
        "r = \<lparr>rec_id = e_id e, rec_index = Some (u64_or_zero n), rec_hash = content_hash E e, rec_new = True\<rparr>"
        "db1 = db2" "n1 = min i64_max (n + 1)" "acc1 = ?acc"
      using one clash lite ins i by (auto simp: append_one_def Let_def Some p)
    define f1 where "f1 = f(uuid_bytes (e_id e) := xid)"
    have "try_fold (pg_insert_with_axes (e_id e)) (dbi\<lparr>pg_xid := f1\<rparr>) (enumerate 0 (e_postings e)) = Ok (db2\<lparr>pg_xid := f1\<rparr>)"
    proof (rule try_fold_xid [OF db2(1)])
      fix d :: pg_db and kp :: "nat \<times> posting" and d1 :: pg_db
      assume "kp \<in> set (enumerate 0 (e_postings e))" "insert_with_axes (e_id e) d kp = Ok d1"
      moreover from this have "snd kp \<in> set (e_postings e)" "fst kp < 2 ^ 15"
        using e(2) by (auto simp: in_set_enumerate_eq dest: nth_mem)
      ultimately show "pg_insert_with_axes (e_id e) (d\<lparr>pg_xid := f1\<rparr>) kp = Ok (d1\<lparr>pg_xid := f1\<rparr>)"
        using insert_with_axes_pg [of "e_id e" d "fst kp" "snd kp" d1 f1] e(1) by (simp add: handles_fit_def)
    qed
    moreover have "pg_check_limits (db2\<lparr>pg_xid := f1\<rparr>) e = Ok ()"
      by (rule pg_check_limits_Ok [OF _ e(1)]) (simp add: checks_xid db2(2))
    ultimately show ?thesis
      using clash reversal insert_entry_xid(2) [OF ins [unfolded Some p], of f] i
      by (intro exI [of _ f1]) (simp add: pg_append_one_def Let_def pg_row_inline db2 f1_def)
  qed
qed

lemma append_all_pg:
  fixes db :: pg_db
  assumes "append_all E es (db, n, acc) = Ok (rs, db1, n1, acc1)" "\<forall>e\<in>set es. handles_fit e \<and> length (e_postings e) < 2 ^ 15"
  shows "\<exists>f1. pg_append_all E PlaceInline xid es (db\<lparr>pg_xid := f\<rparr>, n, acc) = Ok (rs, db1\<lparr>pg_xid := f1\<rparr>, n1, acc1)"
  using assms
proof (induction es arbitrary: db n acc rs f)
  case Nil
  then show ?case by (intro exI [of _ f]) simp
next
  case (Cons e es)
  obtain r dbm nm am rs' where one: "append_one E e (db, n, acc) = Ok (r, dbm, nm, am)" "append_all E es (dbm, nm, am) = Ok (rs', db1, n1, acc1)" "rs = r # rs'"
    using Cons.prems(1) by auto
  obtain fm where "pg_append_one E PlaceInline xid e (db\<lparr>pg_xid := f\<rparr>, n, acc) = Ok (r, dbm\<lparr>pg_xid := fm\<rparr>, nm, am)"
    using append_one_pg [OF one(1)] Cons.prems(2) by fastforce
  moreover obtain f1 where "pg_append_all E PlaceInline xid es (dbm\<lparr>pg_xid := fm\<rparr>, nm, am) = Ok (rs', db1\<lparr>pg_xid := f1\<rparr>, n1, acc1)"
    using Cons.IH [OF one(2)] Cons.prems(2) by fastforce
  ultimately show ?case using one(3) by (intro exI [of _ f1]) simp
qed

end
