(* ===== verification/Postgres_Refine.thy ===== *)
theory Postgres_Refine
  imports Postgres_Agree
begin

text \<open>
  Inline, appending to the PostgreSQL tables is appending to the journal they hold: the next position
  and the accumulator are the same, the rows inserted are the same, and the triggers that run at commit
  accept them. And what the backend reads back is what the in-memory store answers.
\<close>

section \<open>The triggers at commit\<close>

lemma signed_rows:
  "sum_list (map (\<lambda>r. if po_direction r = lit ''D'' then po_amount r else - po_amount r)
      (filter (\<lambda>r. po_currency r = currency_code c) (rows_of e)))
    = gross Debit c (e_postings e) - gross Credit c (e_postings e)"
proof -
  have "sum_list (map (\<lambda>r. if po_direction r = lit ''D'' then po_amount r else - po_amount r)
      (filter (\<lambda>r. po_currency r = currency_code c) (map (\<lambda>(k, p). posting_row_of i k p) (enumerate n ps))))
    = gross Debit c ps - gross Credit c ps" for i n ps
  proof (induction ps arbitrary: n)
    case (Cons p ps)
    then show ?case by (cases "p_direction p") (simp_all add: posting_row_of_def direction_str_def)
  qed simp
  then show ?thesis by (simp add: rows_of_def)
qed

lemma triggers_pass:
  assumes "stored_list es" "db_postings db = posting_rows es" "e \<in> set es" "r \<in> set (rows_of e)"
    and "2 \<le> length (e_postings e)" "\<forall>c. gross Debit c (e_postings e) = gross Credit c (e_postings e)"
  shows "rows_balance_per_currency db (po_entry r)" "rows_at_least_two db (po_entry r)"
proof -
  have rows: "filter (\<lambda>q. po_entry q = po_entry r) (db_postings db) = rows_of e"
    using entry_rows_selected [OF assms(1,3)] by (simp add: assms(2) rows_of_entry [OF assms(4)])
  show "rows_at_least_two db (po_entry r)" using assms(5) by (simp add: rows_at_least_two_def rows) (simp add: rows_of_def)
  have "\<exists>c. po_currency q = currency_code c" if "q \<in> set (rows_of e)" for q
    using that by (auto simp: rows_of_def posting_row_of_def)
  then show "rows_balance_per_currency db (po_entry r)"
    using assms(6) by (fastforce simp: rows_balance_per_currency_def rows Let_def list_all_iff signed_rows)
qed

lemma commit_passes:
  assumes "stored_list (es @ fresh)" "db_postings before = posting_rows es" "db_postings after = posting_rows (es @ fresh)"
    and "\<forall>e\<in>set fresh. 2 \<le> length (e_postings e) \<and> (\<forall>c. gross Debit c (e_postings e) = gross Credit c (e_postings e))"
  shows "pg_commit before after = Ok after"
proof -
  have "drop (length (db_postings before)) (db_postings after) = posting_rows fresh"
    by (simp add: assms(2,3) posting_rows_concat)
  moreover have "rows_balance_per_currency after (po_entry r) \<and> rows_at_least_two after (po_entry r)"
    if "r \<in> set (posting_rows fresh)" for r
  proof -
    obtain e where "e \<in> set fresh" "r \<in> set (rows_of e)" using \<open>r \<in> set (posting_rows fresh)\<close> by (auto simp: posting_rows_concat)
    then show ?thesis using triggers_pass [OF assms(1,3), of e r] assms(4) by simp
  qed
  ultimately show ?thesis by (simp add: pg_commit_def list_all_iff)
qed

section \<open>Appending inline\<close>

lemma backed_xid: "backed E (db\<lparr>pg_xid := f\<rparr>) j = backed E db j"
  by (simp add: backed_def db_shows_def)

lemma pg_next_index_backed:
  assumes "db_entries db = entry_rows E es" "int (length es) \<le> i64_max"
  shows "pg_next_index db = Ok (int (length es))"
  using next_position [OF assms(1)] assms(2)
  by (auto simp: pg_next_index_def to_bigint_def in_i64_def i64_min_def i64_max_def split: option.splits)

lemma pg_append_inline:
  assumes "backed E db j" "\<forall>e\<in>set es. was_sealed E e \<and> storable e \<and> accounts_known (j_accounts j) e \<and> handles_fit e"
    and "retries_ok (j_entries j) es"
    and "int (length (j_entries j) + length es) \<le> i64_max" "record_batch E es j = (Ok rs, k)"
  shows "\<exists>db'. pg_append E Inline xid \<lparr>eb_entries = es\<rparr> db = (Ok rs, db') \<and> backed E db' k"
proof -
  note b = backedD [OF assms(1)]
  obtain db' where db': "sqlite_append E \<lparr>eb_entries = es\<rparr> db = (Ok rs, db')" "backed E db' k"
    using append_refines [OF assms(1) _ assms(3-5)] assms(2) by blast
  note bk = backedD [OF db'(2)]
  have acc: "load_accumulator db = Ok (accumulator (j_log j))" by (rule load_accumulator_eq [OF assms(1)])
  obtain db1 n1 acc1 where run: "append_all E es (db, int (length (j_entries j)), accumulator (j_log j)) = Ok (rs, db1, n1, acc1)"
      "store_accumulator acc1 db1 = Ok db'"
    using db'(1) by (auto simp: sqlite_append_def Let_def next_position [OF b(2)] acc split: sum.splits)
  have small: "\<forall>e\<in>set es. handles_fit e \<and> length (e_postings e) < 2 ^ 15"
    using assms(2) storable_parts(2) by (fastforce simp: max_postings_def)
  obtain f1 where pg: "pg_append_all E PlaceInline xid es (db\<lparr>pg_xid := pg_xid db\<rparr>, int (length (j_entries j)), accumulator (j_log j))
      = Ok (rs, db1\<lparr>pg_xid := f1\<rparr>, n1, acc1)"
    using append_all_pg [OF run(1) small] by blast
  have st: "db' = db1\<lparr>db_subtrees := subtree_rows acc1\<rparr>" "distinct (map sr_height (subtree_rows acc1))"
    using run(2) by (auto simp: store_accumulator_def split: if_splits)
  have "length (subtree_rows acc1) = length (subtree_rows (accumulator (j_log k)))" using bk(5) st(1) by simp
  moreover have "length (subtrees (accumulator (j_log k))) \<le> 64"
    using subtrees_stored(4) derived_okD(4) [OF journal_invD(1) [OF bk(6)]] journal_invD(3) [OF bk(6)]
    by (metis log_ok_def good_log_def length_map)
  ultimately have rows: "pg_subtree_rows acc1 = subtree_rows acc1"
    by (intro pg_subtree_rows_short) (simp add: subtree_rows_def)
  have stored: "pg_store_accumulator acc1 (db1\<lparr>pg_xid := f1\<rparr>) = Ok (db'\<lparr>pg_xid := f1\<rparr>)"
    unfolding pg_store_accumulator_def rows using st by simp
  have len: "length (j_entries j) + length es \<le> u64_max" using assms(4) by (simp add: i64_max_def u64_max_def)
  obtain fresh where fresh: "j_entries k = j_entries j @ fresh" "set fresh \<subseteq> set es"
    using record_all_grows [OF journal_invD(1) [OF b(6)] len assms(5) [unfolded record_batch_def]] subseq_members by blast
  have "pg_commit db (db'\<lparr>pg_xid := f1\<rparr>) = Ok (db'\<lparr>pg_xid := f1\<rparr>)"
  proof (rule commit_passes [where es = "j_entries j" and fresh = fresh])
    show "\<forall>e\<in>set fresh. 2 \<le> length (e_postings e) \<and> (\<forall>c. gross Debit c (e_postings e) = gross Credit c (e_postings e))"
      using fresh(2) assms(2) by (auto simp: was_sealed_iff entry_ok_def)
  qed (use b(3) bk(3,7) fresh(1) in simp_all)
  then show ?thesis
    using pg stored db'(2)
    by (intro exI [of _ "db'\<lparr>pg_xid := f1\<rparr>"])
      (simp add: pg_append_def pg_next_index_backed [OF b(2,8)] pg_accumulator_load acc backed_xid)
qed

text \<open>
  C25. Inline, the PostgreSQL backend implements the in-memory store, for a batch the store accepts that
  meets the following conditions: on tables that hold the books of the store it is accepted with the same
  outcomes, the commit-time triggers included, and the tables afterwards hold the books of the store
  after it. The conditions are those of the SQLite backend and one more: every entry was sealed at some
  time, not necessarily under the rules of today; its fields are what the validated types admit; the
  accounts it posts to are in the chart; it uses no recorded identifier under another key and, if it
  retries a reversal, is the reversal recorded; the handles it names fit the \<^verbatim>\<open>INTEGER\<close> column; and the
  log fits the signed integers of the database.
\<close>

theorem postgres_append_refines:
  assumes "backed E db (ms_inner st)"
    and "\<forall>e\<in>set (eb_entries batch). was_sealed E e \<and> storable e \<and> accounts_known (j_accounts (ms_inner st)) e \<and> handles_fit e"
    and "retries_ok (j_entries (ms_inner st)) (eb_entries batch)"
    and "int (store_len st + batch_len batch) \<le> i64_max"
    and "store_append E batch st = (Ok rs, tt)"
  shows "\<exists>db'. pg_append E Inline xid batch db = (Ok rs, db') \<and> backed E db' (ms_inner tt)"
  using pg_append_inline [OF assms(1) _ assms(3) _ store_append_run [OF assms(5)]] assms(2,4)
  by (cases batch) (simp add: store_len_def batch_len_def)

text \<open>The tables of a journal, every row written by the transaction \<^verbatim>\<open>0\<close>.\<close>

definition pg_tables :: "env \<Rightarrow> journal \<Rightarrow> pg_db" where
  "pg_tables E j = sqlite_db.extend (tables_of E j) (pg_db.fields (\<lambda>_. 0))"

lemma pg_tables_backed: "backed E (tables_of E j) j \<Longrightarrow> backed E (pg_tables E j) j"
  by (simp add: backed_def db_shows_def pg_tables_def sqlite_db.defs pg_db.defs)

lemma postgres_append_refines_witness:
  "\<exists>rs db. length rs = 1 \<and> pg_append toy_env Inline 1 (batch_single (demo_sale 1 7 35)) (pg_tables toy_env demo_empty) = (Ok rs, db)
    \<and> backed toy_env db (demo_one toy_env)"
proof -
  obtain rs where rs: "store_append toy_env (batch_single (demo_sale 1 7 35)) (from_journal demo_empty) = (Ok rs, demo_store toy_env)" "length rs = 1"
    using demo_append_ready(2) by blast
  have "handles_fit (demo_sale 1 7 35)" by code_simp
  then have "\<exists>db'. pg_append toy_env Inline 1 (batch_single (demo_sale 1 7 35)) (pg_tables toy_env demo_empty) = (Ok rs, db')
      \<and> backed toy_env db' (ms_inner (demo_store toy_env))"
    by (intro postgres_append_refines [OF _ _ _ _ rs(1)])
      (use pg_tables_backed [OF demo_backed(1)] demo_append_ready(1) retries_ok_single in
        \<open>simp_all add: from_journal_def batch_single_def store_len_def batch_len_def demo_empty_entries i64_max_def\<close>)
  then show ?thesis using rs(2) demo_store(2) by auto
qed

section \<open>Reading\<close>

text \<open>
  C26. On tables that hold the books of an in-memory store, every read answers as that store does: an
  entry by its identifier, a page, the length, the heads, the proofs at any size, the trial balance over
  a prefix and through a day, and the balance of every key whose handle fits the \<^verbatim>\<open>INTEGER\<close> column.
\<close>

theorem postgres_reads_agree:
  assumes "backed E db (ms_inner st)"
  shows "pg_get E db i = Ok (store_get E st i) \<and> pg_page E db c = Ok (store_page E st c)
    \<and> pg_len db = store_len st \<and> pg_head E db = Ok (store_head E st)
    \<and> (m \<le> store_len st \<longrightarrow> (\<exists>h. pg_head_at E db m = Ok h \<and> store_head_at E st m = Ok h))
    \<and> (pg_prove_inclusion_at E db k m = Ok p \<longleftrightarrow> store_prove_inclusion_at E st k m = Ok p)
    \<and> (pg_prove_consistency_between E db n m = Ok q \<longleftrightarrow> store_prove_consistency_between E st n m = Ok q)
    \<and> (\<exists>tb. pg_trial_balance db sz = Ok tb \<and> store_trial_balance st sz = Ok tb)
    \<and> (\<exists>tb. pg_trial_balance_through db d = Ok tb \<and> store_trial_balance_through st d = Ok tb)
    \<and> (uint (account_index (k_account key)) < 2 ^ 31 \<longrightarrow> (\<exists>b. pg_balance db key sz = Ok b \<and> store_balance st key sz = Ok b))"
proof -
  note j = backedD [OF assms]
  note inv = journal_invD(1) [OF j(6)]
  have "\<exists>h. pg_head_at E db m = Ok h \<and> store_head_at E st m = Ok h" if "m \<le> store_len st"
    using that sqlite_head_at_eq [OF assms, of m] head_at_size [OF inv, of m] by (simp add: pg_log_eq store_head_at_def store_len_def)
  moreover obtain tb where tb: "trial_balance_at (ms_inner st) sz = Ok tb" using trial_balance_at_shows [OF j(6)] by blast
  then have "pg_trial_balance db sz = Ok tb" by (intro pg_trial_balance_Ok) (simp add: sqlite_trial_balance_eq [OF assms])
  with tb have "\<exists>tb. pg_trial_balance db sz = Ok tb \<and> store_trial_balance st sz = Ok tb" by (simp add: store_trial_balance_def)
  moreover obtain td where td: "trial_balance_through_date (ms_inner st) d = Ok td" using through_total [OF j(6)] by blast
  then have "pg_trial_balance_through db d = Ok td"
    by (intro pg_trial_balance_through_Ok) (simp add: sqlite_trial_balance_through_eq [OF assms])
  with td have "\<exists>tb. pg_trial_balance_through db d = Ok tb \<and> store_trial_balance_through st d = Ok tb"
    by (simp add: store_trial_balance_through_def)
  moreover obtain b where b: "balance_at (ms_inner st) key sz = Ok b" using balance_at_shows [OF j(6)] by blast
  then have "\<exists>b. pg_balance db key sz = Ok b \<and> store_balance st key sz = Ok b" if "uint (account_index (k_account key)) < 2 ^ 31"
    using pg_balance_Ok [OF _ that, of db sz b] by (simp add: sqlite_balance_eq [OF assms] store_balance_def)
  ultimately show ?thesis
    using sqlite_get_eq [OF assms] sqlite_page_eq [OF assms] sqlite_len_eq [OF j(2)] sqlite_head_eq [OF assms]
    by (simp add: pg_get_eq [OF assms] pg_page_eq [OF assms] pg_log_eq store_len_def store_head_def
        pg_prove_inclusion_at_def pg_prove_consistency_between_def sqlite_log_eq [OF assms]
        store_prove_inclusion_at_def store_prove_consistency_between_def prove_inclusion_at_def prove_consistency_between_def)
qed

lemma postgres_reads_agree_witness:
  "pg_get toy_env (pg_tables toy_env (demo_books toy_env)) (EntryId 2)
     = Ok (Some \<lparr>se_index = Some 1, se_entry = demo_sale 2 5 40, se_hash = content_hash toy_env (demo_sale 2 5 40)\<rparr>)
   \<and> pg_len (pg_tables toy_env (demo_books toy_env)) = 3
   \<and> (\<exists>b. pg_balance (pg_tables toy_env (demo_books toy_env)) (BalanceKey (AccountId 0) EUR Settled) (Some 2) = Ok b)"
proof -
  have b: "backed toy_env (pg_tables toy_env (demo_books toy_env)) (ms_inner (from_journal (demo_books toy_env)))"
    using pg_tables_backed [OF demo_backed(2)] by (simp add: from_journal_def)
  have "uint (account_index (k_account (BalanceKey (AccountId 0) EUR Settled))) < 2 ^ 31" by simp
  then have "\<exists>x. pg_balance (pg_tables toy_env (demo_books toy_env)) (BalanceKey (AccountId 0) EUR Settled) (Some 2) = Ok x"
    using postgres_reads_agree [OF b] by blast
  moreover have "index_of (demo_books toy_env) (EntryId 2) = Some 1"
    using index_of_at [OF reachable_journal_inv [OF demo_books(1)], where n = 1 and E = toy_env] by (simp add: demo_books(2) demo_sale_fields)
  then have "store_get toy_env (from_journal (demo_books toy_env)) (EntryId 2)
      = Some \<lparr>se_index = Some 1, se_entry = demo_sale 2 5 40, se_hash = content_hash toy_env (demo_sale 2 5 40)\<rparr>"
    "store_len (from_journal (demo_books toy_env)) = 3"
    by (simp_all add: store_get_def store_len_def from_journal_def entry_at_def demo_books(2))
  ultimately show ?thesis using postgres_reads_agree [OF b, where i = "EntryId 2"] by metis
qed

end
