(* ===== verification/Iceberg.thy ===== *)
theory Iceberg
  imports Storage_Audit
begin

text \<open>
  \<^verbatim>\<open>src/storage/iceberg.rs\<close>: archiving what a seal covers into an Iceberg table. What the table already
  holds is read from its last snapshot, the entries after that are read from the store, page by page,
  their hashes are pushed onto the accumulator the snapshot carries, and only when the root is the one
  the seal committed to are the rows written and a snapshot committed.

  The crates for identifiers, Arrow, Parquet and Iceberg are the record \<open>lake\<close> of functions the code calls; the
  store is the function its method \<^verbatim>\<open>page\<close> is. Error messages are left out.
\<close>

section \<open>The columns of the archive\<close>

datatype arrow_type = ArrowUtf8 | ArrowInt64 | ArrowInt32 | ArrowDate32

record arrow_field =
  af_name :: ustr
  af_type :: arrow_type
  af_nullable :: bool

definition arrow_schema :: "arrow_field list" where
  "arrow_schema =
     map (\<lambda>(name, ty, nullable). \<lparr>af_name = lit name, af_type = ty, af_nullable = nullable\<rparr>)
      [(''period'', ArrowUtf8, False), (''log_index'', ArrowInt64, False), (''entry_id'', ArrowUtf8, False),
       (''content_hash'', ArrowUtf8, False), (''idempotency_key'', ArrowUtf8, False), (''booking_date'', ArrowDate32, False),
       (''value_date'', ArrowDate32, False), (''description'', ArrowUtf8, False), (''kind'', ArrowUtf8, True),
       (''posting_index'', ArrowInt32, False), (''account_index'', ArrowInt64, False), (''direction'', ArrowUtf8, False),
       (''amount_minor'', ArrowInt64, False), (''currency'', ArrowUtf8, False), (''layer'', ArrowUtf8, False),
       (''dimensions'', ArrowUtf8, True), (''provenance_actor'', ArrowUtf8, True), (''provenance_source'', ArrowUtf8, True),
       (''provenance_correlation'', ArrowUtf8, True), (''document_id'', ArrowUtf8, True),
       (''document_content_hash'', ArrowUtf8, True), (''reverses'', ArrowUtf8, True), (''original_booking_date'', ArrowDate32, True)]"

datatype arrow_column =
    Utf8Array "ustr option list"
  | Int64Array "int option list"
  | Int32Array "int option list"
  | Date32Array "int option list"

text \<open>One row: what the 23 vectors of \<^verbatim>\<open>build_batch\<close> receive for one posting.\<close>

record archive_row =
  av_period :: ustr
  av_index :: int
  av_entry :: ustr
  av_hash :: ustr
  av_key :: ustr
  av_booking :: int
  av_value :: int
  av_description :: ustr
  av_kind :: "ustr option"
  av_posting :: int
  av_account :: int
  av_direction :: ustr
  av_amount :: int
  av_currency :: ustr
  av_layer :: ustr
  av_dimensions :: "ustr option"
  av_actor :: "ustr option"
  av_source :: "ustr option"
  av_correlation :: "ustr option"
  av_document :: "ustr option"
  av_document_hash :: "ustr option"
  av_reverses :: "ustr option"
  av_original :: "int option"

definition batch_columns :: "archive_row list \<Rightarrow> arrow_column list" where
  "batch_columns rows =
     (let every = (\<lambda>f. map (\<lambda>r. Some (f r)) rows); texts = (\<lambda>f. Utf8Array (map (\<lambda>r. Some (f r)) rows)) in
     [texts av_period, Int64Array (every av_index), texts av_entry, texts av_hash, texts av_key,
      Date32Array (every av_booking), Date32Array (every av_value), texts av_description, Utf8Array (map av_kind rows),
      Int32Array (every av_posting), Int64Array (every av_account), texts av_direction, Int64Array (every av_amount),
      texts av_currency, texts av_layer, Utf8Array (map av_dimensions rows), Utf8Array (map av_actor rows),
      Utf8Array (map av_source rows), Utf8Array (map av_correlation rows), Utf8Array (map av_document rows),
      Utf8Array (map av_document_hash rows), Utf8Array (map av_reverses rows), Date32Array (map av_original rows)])"

section \<open>What the other crates provide\<close>

record ('schema, 'arrow, 'batch, 'files, 'table) lake =
  uuid_text :: "entry_id \<Rightarrow> ustr"
  assign_ids :: "arrow_field list \<Rightarrow> (unit, 'schema) res"
  to_arrow :: "'schema \<Rightarrow> (unit, 'arrow) res"
  record_batch :: "'arrow \<Rightarrow> arrow_column list \<Rightarrow> (unit, 'batch) res"
  current_snapshot :: "'table \<Rightarrow> (int \<times> (ustr \<rightharpoonup> ustr)) option"
  write_file :: "'table \<Rightarrow> ustr \<Rightarrow> 'batch \<Rightarrow> (unit, 'files) res"
  commit_append :: "'table \<Rightarrow> 'files \<Rightarrow> (ustr \<rightharpoonup> ustr) \<Rightarrow> (unit, 'table) res"

text \<open>\<open>'e\<close> is the error of the store.\<close>

datatype 'e cold_tier_error =
    ColdIceberg
  | ColdArrow
  | ColdStore 'e
  | NotSequenced ustr
  | SealBehindArchive ustr nat nat
  | MalformedState
  | RootMismatch ustr ustr ustr

section \<open>Rows\<close>

definition push_json_char :: "uchar \<Rightarrow> ustr" where
  "push_json_char c = (if c = 34 then [92, 34] else if c = 92 then [92, 92] else [c])"

definition push_json_string :: "ustr \<Rightarrow> ustr" where
  "push_json_string s = 34 # concat (map push_json_char s) @ [34]"

definition json_pair :: "label \<times> label \<Rightarrow> ustr" where
  "json_pair av = push_json_string (label_str (fst av)) @ 58 # push_json_string (label_str (snd av))"

definition dimensions_json :: "dimensions \<Rightarrow> ustr option" where
  "dimensions_json d =
     (if bt_iter (axes d) = [] then None else Some (123 # join_with 44 (map json_pair (bt_iter (axes d))) @ [125]))"

definition saturating_i32 :: "int \<Rightarrow> int" where
  "saturating_i32 n = max (- (2 ^ 31)) (min (2 ^ 31 - 1) n)"

text \<open>\<^verbatim>\<open>DATE32_EPOCH\<close> is the first of January 1970.\<close>

definition date32_epoch :: int where
  "date32_epoch = 2440588"

definition date32 :: "date \<Rightarrow> int" where
  "date32 d = saturating_i32 (julian d - date32_epoch)"

definition archive_row_of :: "('s, 'w, 'b, 'f, 't) lake \<Rightarrow> seal \<Rightarrow> log_index \<Rightarrow> stored_entry \<Rightarrow> nat \<times> posting \<Rightarrow> archive_row" where
  "archive_row_of L s index r kp =
     (case kp of (k, p) \<Rightarrow>
      let e = se_entry r in
      \<lparr>av_period = label_str (period_label (sl_period s)),
       av_index = (if int index \<le> i64_max then int index else i64_max),
       av_entry = uuid_text L (e_id e),
       av_hash = to_hex (se_hash r),
       av_key = key_to_hex (e_key e),
       av_booking = date32 (booking_date e),
       av_value = date32 (value_date e),
       av_description = description_str (e_description e),
       av_kind = map_option label_str (e_kind e),
       av_posting = (if k < 2 ^ 31 then int k else 2 ^ 31 - 1),
       av_account = uint (account_index (p_account p)),
       av_direction = (case p_direction p of Debit \<Rightarrow> lit ''D'' | Credit \<Rightarrow> lit ''C''),
       av_amount = amt (p_amount p),
       av_currency = currency_code (p_currency p),
       av_layer = (case p_layer p of Settled \<Rightarrow> lit ''settled'' | Pending \<Rightarrow> lit ''pending''),
       av_dimensions = dimensions_json (p_dimensions p),
       av_actor = map_option label_str (actor (e_provenance e)),
       av_source = map_option label_str (source (e_provenance e)),
       av_correlation = map_option label_str (correlation (e_provenance e)),
       av_document = map_option (\<lambda>d. label_str (doc_id d)) (e_document e),
       av_document_hash = Option.bind (e_document e) (\<lambda>d. map_option to_hex (doc_hash d)),
       av_reverses = map_option (uuid_text L) (e_reverses e),
       av_original = map_option date32 (original_booking_date e)\<rparr>)"

definition rows_of_record :: "('s, 'w, 'b, 'f, 't) lake \<Rightarrow> seal \<Rightarrow> stored_entry \<Rightarrow> ('e cold_tier_error, archive_row list) res" where
  "rows_of_record L s r =
     bindR (ok_or (se_index r) (NotSequenced (uuid_text L (e_id (se_entry r))))) (\<lambda>index.
       Ok (map (archive_row_of L s index r) (enumerate 0 (e_postings (se_entry r)))))"

definition iceberg_schema :: "('s, 'w, 'b, 'f, 't) lake \<Rightarrow> ('e cold_tier_error, 's) res" where
  "iceberg_schema L = map_err (\<lambda>_. ColdIceberg) (assign_ids L arrow_schema)"

definition batch_schema :: "('s, 'w, 'b, 'f, 't) lake \<Rightarrow> ('e cold_tier_error, 'w) res" where
  "batch_schema L = bindR (iceberg_schema L) (\<lambda>schema. map_err (\<lambda>_. ColdIceberg) (to_arrow L schema))"

text \<open>One Arrow batch, one row for every posting, and the number of rows.\<close>

definition build_batch :: "('s, 'w, 'b, 'f, 't) lake \<Rightarrow> stored_entry list \<Rightarrow> seal \<Rightarrow> ('e cold_tier_error, 'b \<times> nat) res" where
  "build_batch L entries s =
     bindR (try_map (rows_of_record L s) entries) (\<lambda>parts.
     let rows = concat parts in
     bindR (batch_schema L) (\<lambda>schema.
     bindR (map_err (\<lambda>_. ColdArrow) (record_batch L schema (batch_columns rows))) (\<lambda>batch. Ok (batch, length rows))))"

section \<open>The state of the archive\<close>

record archive_state =
  as_through :: nat
  as_acc :: accumulator

definition archive_empty :: archive_state where
  "archive_empty = \<lparr>as_through = 0, as_acc = acc_new\<rparr>"

definition prop_period :: ustr where "prop_period = lit ''doubleentry.period''"
definition prop_seal_hash :: ustr where "prop_seal_hash = lit ''doubleentry.seal_hash''"
definition prop_tree_root :: ustr where "prop_tree_root = lit ''doubleentry.tree_root''"
definition prop_trial_balance_root :: ustr where "prop_trial_balance_root = lit ''doubleentry.trial_balance_root''"
definition prop_trial_balance_size :: ustr where "prop_trial_balance_size = lit ''doubleentry.trial_balance_size''"
definition prop_accounts_root :: ustr where "prop_accounts_root = lit ''doubleentry.accounts_root''"
definition prop_accounts_size :: ustr where "prop_accounts_size = lit ''doubleentry.accounts_size''"
definition prop_entry_count :: ustr where "prop_entry_count = lit ''doubleentry.entry_count''"
definition prop_archived_through :: ustr where "prop_archived_through = lit ''doubleentry.archived_through''"
definition prop_accumulator :: ustr where "prop_accumulator = lit ''doubleentry.accumulator''"

definition encode_subtree :: "nat \<times> hash \<Rightarrow> ustr" where
  "encode_subtree hn = dec_digits (fst hn) @ 58 # to_hex (snd hn)"

definition encode_accumulator :: "accumulator \<Rightarrow> ustr" where
  "encode_accumulator acc = join_with 44 (map encode_subtree (subtrees acc))"

text \<open>\<^verbatim>\<open>str::parse\<close> on an unsigned type: digits after at most one plus sign, up to the largest value.\<close>

definition parse_unsigned :: "nat \<Rightarrow> ustr \<Rightarrow> nat option" where
  "parse_unsigned limit s =
     (let ds = (case strip_prefix 43 s of None \<Rightarrow> s | Some rest \<Rightarrow> rest) in
      if ds \<noteq> [] \<and> list_all is_digit ds \<and> digits_value ds \<le> limit then Some (digits_value ds) else None)"

definition decode_subtree :: "ustr \<Rightarrow> ('e cold_tier_error, nat \<times> hash) res" where
  "decode_subtree part =
     bindR (ok_or (split_once 58 part) MalformedState) (\<lambda>(height, hex).
     bindR (ok_or (parse_unsigned 255 height) MalformedState) (\<lambda>h.
     bindR (map_err (\<lambda>_. MalformedState) (parse_hex hex)) (\<lambda>node. Ok (h, node))))"

definition decode_accumulator :: "ustr \<Rightarrow> nat \<Rightarrow> ('e cold_tier_error, accumulator) res" where
  "decode_accumulator raw n =
     (if raw = [] then map_err (\<lambda>_. MalformedState) (try_from_parts [] n)
      else bindR (try_map decode_subtree (split_on 44 raw)) (\<lambda>sts. map_err (\<lambda>_. MalformedState) (try_from_parts sts n)))"

definition archive_state_of :: "('s, 'w, 'b, 'f, 't) lake \<Rightarrow> 't \<Rightarrow> ('e cold_tier_error, archive_state) res" where
  "archive_state_of L t =
     (case current_snapshot L t of
        None \<Rightarrow> Ok archive_empty
      | Some (_, summary) \<Rightarrow>
          (case (summary prop_archived_through, summary prop_accumulator) of
             (Some size_text, Some raw) \<Rightarrow>
               bindR (ok_or (parse_unsigned u64_max size_text) MalformedState) (\<lambda>n.
               bindR (decode_accumulator raw n) (\<lambda>acc. Ok \<lparr>as_through = n, as_acc = acc\<rparr>))
           | _ \<Rightarrow> Err MalformedState))"

section \<open>Reading the store\<close>

text \<open>The records of one page, up to the first position that is past the end.\<close>

fun take_until :: "('s, 'w, 'b, 'f, 't) lake \<Rightarrow> nat \<Rightarrow> stored_entry list \<Rightarrow> stored_entry list \<Rightarrow> ('e cold_tier_error, stored_entry list \<times> bool) res" where
  "take_until L end [] out = Ok (out, False)"
| "take_until L end (r # rs) out =
     bindR (ok_or (se_index r) (NotSequenced (uuid_text L (e_id (se_entry r))))) (\<lambda>index.
     if end \<le> index then Ok (out, True) else take_until L end rs (out @ [r]))"

text \<open>The loop over the pages ends when a page says so; a store could say so never.\<close>

partial_function (option) collect_pages ::
    "('s, 'w, 'b, 'f, 't) lake \<Rightarrow> (cursor \<Rightarrow> ('e, log_page) res) \<Rightarrow> nat \<Rightarrow> stored_entry list \<Rightarrow> cursor option
      \<Rightarrow> ('e cold_tier_error, stored_entry list) res option" where
  "collect_pages L page end out cursor =
     (case cursor of
        None \<Rightarrow> Some (Ok out)
      | Some c \<Rightarrow>
          (case page c of
             Err e \<Rightarrow> Some (Err (ColdStore e))
           | Ok p \<Rightarrow>
               if pg_records p = [] then Some (Ok out)
               else
                 (case take_until L end (pg_records p) out of
                    Err e \<Rightarrow> Some (Err e)
                  | Ok (out1, finished) \<Rightarrow>
                      if finished then Some (Ok out1) else collect_pages L page end out1 (pg_next p))))"

definition collect :: "('s, 'w, 'b, 'f, 't) lake \<Rightarrow> (cursor \<Rightarrow> ('e, log_page) res) \<Rightarrow> nat \<Rightarrow> nat
    \<Rightarrow> ('e cold_tier_error, stored_entry list) res option" where
  "collect L page from end =
     (if end \<le> from then Some (Ok [])
      else collect_pages L page end [] (Some (if from = 0 then cursor_start else cursor_after (from - 1))))"

section \<open>Writing\<close>

definition snapshot_properties :: "seal \<Rightarrow> accumulator \<Rightarrow> ustr \<rightharpoonup> ustr" where
  "snapshot_properties s acc = map_of
     [(prop_period, label_str (period_label (sl_period s))),
      (prop_seal_hash, to_hex (sl_hash s)),
      (prop_tree_root, to_hex (th_root (sl_tree_head s))),
      (prop_trial_balance_root, to_hex (th_root (sl_trial_balance s))),
      (prop_trial_balance_size, dec_digits (th_size (sl_trial_balance s))),
      (prop_accounts_root, to_hex (th_root (sl_accounts s))),
      (prop_accounts_size, dec_digits (th_size (sl_accounts s))),
      (prop_entry_count, dec_digits (sl_count s)),
      (prop_archived_through, dec_digits (th_size (sl_tree_head s))),
      (prop_accumulator, encode_accumulator acc)]"

definition write_snapshot :: "('s, 'w, 'b, 'f, 't) lake \<Rightarrow> 't \<Rightarrow> seal \<Rightarrow> 'b \<Rightarrow> accumulator \<Rightarrow> ('e cold_tier_error, int \<times> 't) res" where
  "write_snapshot L t s batch acc =
     map_err (\<lambda>_. ColdIceberg)
       (bindR (write_file L t (label_str (period_label (sl_period s))) batch) (\<lambda>files.
        bindR (commit_append L t files (snapshot_properties s acc)) (\<lambda>committed.
          Ok (case current_snapshot L committed of None \<Rightarrow> 0 | Some (i, _) \<Rightarrow> i, committed))))"

record compaction =
  cm_period :: ustr
  cm_through :: nat
  cm_entries :: nat
  cm_postings :: nat
  cm_root :: hash
  cm_snapshot :: "int option"

text \<open>
  \<^verbatim>\<open>compact\<close>, on the table the catalogue loaded, with the table it leaves there. The commit is its last
  call that can fail, so a compaction that fails leaves the table as it was.
\<close>

definition compact_entries :: "('s, 'w, 'b, 'f, 't) lake \<Rightarrow> env \<Rightarrow> 't \<Rightarrow> archive_state \<Rightarrow> seal \<Rightarrow> stored_entry list
    \<Rightarrow> ('e cold_tier_error, compaction \<times> 't) res" where
  "compact_entries L E t state s entries =
     (let acc = foldl (\<lambda>a r. snd (acc_push (env_b3 E) a (se_hash r))) (as_acc state) entries;
          reached = acc_root (env_b3 E) acc; period = label_str (period_label (sl_period s)) in
      if reached \<noteq> th_root (sl_tree_head s)
      then Err (RootMismatch period (to_hex (th_root (sl_tree_head s))) (to_hex reached))
      else if entries = []
      then Ok (\<lparr>cm_period = period, cm_through = as_through state, cm_entries = 0, cm_postings = 0, cm_root = reached,
               cm_snapshot = None\<rparr>, t)
      else bindR (build_batch L entries s) (\<lambda>(batch, postings).
           bindR (write_snapshot L t s batch acc) (\<lambda>(snapshot_id, committed).
             Ok (\<lparr>cm_period = period, cm_through = th_size (sl_tree_head s), cm_entries = length entries,
                  cm_postings = postings, cm_root = reached, cm_snapshot = Some snapshot_id\<rparr>, committed))))"

definition compact :: "('s, 'w, 'b, 'f, 't) lake \<Rightarrow> env \<Rightarrow> (cursor \<Rightarrow> ('e, log_page) res) \<Rightarrow> (unit, 't) res \<Rightarrow> seal
    \<Rightarrow> ('e cold_tier_error, compaction \<times> 't) res option" where
  "compact L E page loaded s =
     (case bindR (map_err (\<lambda>_. ColdIceberg) loaded) (\<lambda>t. bindR (archive_state_of L t) (\<lambda>state. Ok (t, state))) of
        Err e \<Rightarrow> Some (Err e)
      | Ok (t, state) \<Rightarrow>
          if th_size (sl_tree_head s) < as_through state
          then Some (Err (SealBehindArchive (label_str (period_label (sl_period s))) (th_size (sl_tree_head s)) (as_through state)))
          else map_option (\<lambda>collected. bindR collected (compact_entries L E t state s))
                 (collect L page (as_through state) (th_size (sl_tree_head s))))"

end
