(* ===== verification/Iceberg_Text.thy ===== *)
theory Iceberg_Text
  imports Iceberg Sqlite_Codec
begin

text \<open>
  The texts of the archive read back: the accumulator in the summary of a snapshot, the axes of a posting
  as a JSON object, and the rows of an entry, which carry every field its content hash covers.
\<close>

section \<open>Axes as JSON\<close>

lemma json_char_step:
  "push_json_char c @ x = push_json_char d @ y \<Longrightarrow> c = d \<and> x = y" "push_json_char c @ x \<noteq> 34 # y"
  by (auto simp: push_json_char_def split: if_splits)

lemma json_chars_end:
  "concat (map push_json_char s) @ 34 # r = concat (map push_json_char t) @ 34 # q \<Longrightarrow> s = t \<and> r = q"
proof (induction s arbitrary: t)
  case Nil
  then show ?case using json_char_step(2) by (cases t) (simp_all, metis)
next
  case (Cons c s)
  show ?case
  proof (cases t)
    case Nil
    then show ?thesis using Cons.prems json_char_step(2) by simp
  next
    case (Cons d t')
    then have "c = d \<and> concat (map push_json_char s) @ 34 # r = concat (map push_json_char t') @ 34 # q"
      using Cons.prems by (intro json_char_step(1)) simp
    then show ?thesis using Cons.IH Cons by blast
  qed
qed

interpretation json_text: prefix_code push_json_string "\<lambda>_. True"
proof
  fix x y r s
  assume "push_json_string x @ r = push_json_string y @ s"
  then show "x = y \<and> r = s" using json_chars_end [of x r y s] by (simp add: push_json_string_def)
qed

interpretation json_pair: prefix_code json_pair "\<lambda>_. True"
proof
  fix x y :: "label \<times> label" and r s
  assume "json_pair x @ r = json_pair y @ s"
  then have "label_str (fst x) = label_str (fst y)" "label_str (snd x) = label_str (snd y)" "r = s"
    by (auto simp: json_pair_def json_text.append_iff)
  then show "x = y \<and> r = s" by (simp add: prod_eq_iff label.expand)
qed

lemma joined_pairs_inj:
  assumes "join_with 44 (map json_pair xs) @ [125] = join_with 44 (map json_pair ys) @ [125]" "xs \<noteq> []" "ys \<noteq> []"
  shows "xs = ys"
  using assms
proof (induction xs arbitrary: ys)
  case (Cons x xs)
  obtain y ys' where ys: "ys = y # ys'" using Cons.prems(3) by (cases ys) auto
  have head: "join_with 44 (map json_pair (z # zs)) @ [125] = json_pair z @ (if zs = [] then [125] else 44 # join_with 44 (map json_pair zs) @ [125])"
    for z zs by (cases zs) simp_all
  have "x = y \<and> (if xs = [] then [125] else 44 # join_with 44 (map json_pair xs) @ [125])
      = (if ys' = [] then [125] else 44 # join_with 44 (map json_pair ys') @ [125])"
    using Cons.prems(1) unfolding ys head by (simp only: json_pair.append_iff)
  then show ?case using Cons.IH [of ys'] ys by (auto split: if_splits)
qed simp

lemma dimensions_json_inj: "dimensions_json d = dimensions_json e \<longleftrightarrow> d = e"
proof
  assume "dimensions_json d = dimensions_json e"
  then have "bt_iter (axes d) = bt_iter (axes e)"
    using joined_pairs_inj [of "bt_iter (axes d)" "bt_iter (axes e)"] by (auto simp: dimensions_json_def split: if_splits)
  then show "d = e" by (simp add: bt_iter_inject dimensions.expand)
qed simp

section \<open>Digests and keys as hex\<close>

lemma hex_bytes_inj: "concat (map hex_byte xs) = concat (map hex_byte ys) \<longleftrightarrow> xs = ys"
proof
  assume eq: "concat (map hex_byte xs) = concat (map hex_byte ys)"
  show "xs = ys" using hex_pairs_bytes [of xs] unfolding eq hex_pairs_bytes by simp
qed simp

lemma to_hex_inj [simp]: "to_hex a = to_hex b \<longleftrightarrow> a = b"
  by (simp add: to_hex_def hex_bytes_inj)

lemma key_to_hex_inj [simp]: "key_to_hex a = key_to_hex b \<longleftrightarrow> a = b"
  by (cases a; cases b) (simp add: key_to_hex_def hex_bytes_inj)

lemma hex_chars: "c \<in> set (to_hex h) \<Longrightarrow> 48 \<le> c \<and> c \<noteq> 58"
proof -
  have "48 \<le> hex_digit b \<and> hex_digit b \<noteq> 58" for b by (auto simp: hex_digit_def Let_def)
  then show "c \<in> set (to_hex h) \<Longrightarrow> 48 \<le> c \<and> c \<noteq> 58" by (auto simp: to_hex_def hex_byte_def)
qed

section \<open>The accumulator\<close>

lemma digit_chars: "c \<in> set (dec_digits n) \<Longrightarrow> 48 \<le> c \<and> c \<le> 57"
  using dec_digits_digit [of n] by (auto simp: list_all_iff is_digit_def)

lemma parse_dec_digits [simp]: "parse_unsigned limit (dec_digits n) = (if n \<le> limit then Some n else None)"
proof -
  obtain d ds where ds: "dec_digits n = d # ds" using dec_digits_nonempty [of n] by (cases "dec_digits n") auto
  then have "d \<noteq> 43" using digit_chars [of d n] by auto
  then have "strip_prefix 43 (dec_digits n) = None" by (simp add: ds)
  then show ?thesis using dec_digits_digit [of n] by (simp add: parse_unsigned_def digits_value_dec)
qed

lemma decode_encode_subtree:
  assumes "fst hn \<le> 255"
  shows "decode_subtree (encode_subtree hn) = Ok hn"
proof -
  have "58 \<notin> set (dec_digits (fst hn))" using digit_chars [of 58] by auto
  then have "split_once 58 (encode_subtree hn) = Some (dec_digits (fst hn), to_hex (snd hn))"
    by (simp add: split_once_Some encode_subtree_def)
  then show ?thesis using assms by (simp add: decode_subtree_def parse_hex_to_hex)
qed

lemma decode_encode_accumulator:
  assumes "good_acc b3 acc ls" "length ls \<le> u64_max"
  shows "decode_accumulator (encode_accumulator acc) (length ls) = (Ok acc :: ('e cold_tier_error, accumulator) res)"
proof -
  have n: "acc_size acc = length ls" using assms(1) by (auto simp: good_acc_def)
  have heights: "map fst (subtrees acc) = cover_of (length ls)" using good_acc_cover [OF assms] n by simp
  have parts: "try_from_parts (subtrees acc) (length ls) = Ok acc" by (simp add: try_from_parts_def Let_def heights flip: n)
  have small: "fst hn \<le> 255" if "hn \<in> set (subtrees acc)" for hn
  proof -
    have "fst hn \<in> set (cover_of (length ls))" unfolding heights [symmetric] using that by simp
    then show ?thesis by (simp add: cover_of_def)
  qed
  show ?thesis
  proof (cases "subtrees acc = []")
    case True
    then show ?thesis using parts by (simp add: decode_accumulator_def encode_accumulator_def)
  next
    case False
    let ?texts = "map encode_subtree (subtrees acc)"
    have "44 \<notin> set (encode_subtree hn)" for hn
      using digit_chars [of 44 "fst hn"] hex_chars [of 44 "snd hn"] by (auto simp: encode_subtree_def)
    then have split: "split_on 44 (encode_accumulator acc) = ?texts"
      using False unfolding encode_accumulator_def by (intro split_on_join) auto
    have "encode_accumulator acc \<noteq> []"
    proof
      assume "encode_accumulator acc = []"
      then have "?texts = [[]]" using split by simp
      then show False by (auto simp: encode_subtree_def)
    qed
    moreover have "try_map decode_subtree ?texts = (Ok (subtrees acc) :: ('e cold_tier_error, _) res)"
    proof -
      have "try_map decode_subtree (map encode_subtree sts) = (Ok sts :: ('e cold_tier_error, _) res)" if "\<forall>hn\<in>set sts. fst hn \<le> 255" for sts :: "(nat \<times> hash) list"
        using that by (induction sts) (simp_all add: decode_encode_subtree)
      then show ?thesis using small by blast
    qed
    ultimately show ?thesis using parts split by (simp add: decode_accumulator_def)
  qed
qed

section \<open>Rows determine the entries\<close>

lemma arrow_schema_fits: "map (\<lambda>c. case c of Utf8Array _ \<Rightarrow> ArrowUtf8 | Int64Array _ \<Rightarrow> ArrowInt64 | Int32Array _ \<Rightarrow> ArrowInt32 | Date32Array _ \<Rightarrow> ArrowDate32) (batch_columns rows)
    = map af_type arrow_schema"
  "\<forall>k<length arrow_schema. \<not> af_nullable (arrow_schema ! k) \<longrightarrow>
     (case batch_columns rows ! k of Utf8Array xs \<Rightarrow> None \<notin> set xs | Int64Array xs \<Rightarrow> None \<notin> set xs | Int32Array xs \<Rightarrow> None \<notin> set xs | Date32Array xs \<Rightarrow> None \<notin> set xs)"
  by (simp_all add: batch_columns_def arrow_schema_def All_less_Suc numeral_eq_Suc image_iff)

lemma map_eq_at: "map f xs = map f ys \<Longrightarrow> n < length xs \<Longrightarrow> f (xs ! n) = f (ys ! n)"
  by (metis length_map nth_map)

lemma map_some: "map (\<lambda>r. Some (f r)) xs = map (\<lambda>r. Some (f r)) ys \<longleftrightarrow> map f xs = map f ys"
  by (simp add: list_eq_iff_nth_eq cong: conj_cong)

lemma batch_columns_inj: "batch_columns xs = batch_columns ys \<longleftrightarrow> xs = ys"
proof
  assume "batch_columns xs = batch_columns ys"
  note cols = this [unfolded batch_columns_def Let_def list.inject arrow_column.inject map_some]
  show "xs = ys"
  proof (rule nth_equalityI)
    show "length xs = length ys" using cols map_eq_imp_length_eq by blast
    fix n
    assume n: "n < length xs"
    show "xs ! n = ys ! n" by (rule archive_row.equality) ((rule map_eq_at [OF _ n], use cols in blast)+, simp)
  qed
qed simp

lemma date32_inj: "valid_date a \<Longrightarrow> valid_date b \<Longrightarrow> date32 a = date32 b \<longleftrightarrow> a = b"
  by (auto simp: date32_def saturating_i32_def date32_epoch_def valid_date_def date_min_def date_max_def date.expand)

text \<open>What a record has to be for its rows to be exact: recorded, with a position that fits its column.\<close>

definition archivable :: "stored_entry \<Rightarrow> bool" where
  "archivable r \<longleftrightarrow> valid_entry (se_entry r) \<and> e_postings (se_entry r) \<noteq> [] \<and> length (e_postings (se_entry r)) \<le> max_postings
     \<and> (\<exists>i. se_index r = Some i \<and> int i \<le> i64_max)"

definition plain_rows :: "('s, 'w, 'b, 'f, 't) lake \<Rightarrow> seal \<Rightarrow> stored_entry \<Rightarrow> archive_row list" where
  "plain_rows L s r = map (archive_row_of L s (the (se_index r)) r) (enumerate 0 (e_postings (se_entry r)))"

lemma all_rows: "\<forall>r\<in>set rs. archivable r \<Longrightarrow> try_map (rows_of_record L s) rs = Ok (map (plain_rows L s) rs)"
  by (induction rs) (auto simp: rows_of_record_def plain_rows_def archivable_def)

lemma archive_row_inj:
  assumes "inj (uuid_text L)" "archivable r" "archivable q" "se_index r = Some i" "se_index q = Some j" "k < 2 ^ 31" "l < 2 ^ 31"
    and "archive_row_of L s i r (k, p) = archive_row_of L z j q (l, p')"
  shows "sl_period s = sl_period z \<and> i = j \<and> k = l \<and> p = p' \<and> se_hash r = se_hash q
    \<and> (se_entry r)\<lparr>e_postings := []\<rparr> = (se_entry q)\<lparr>e_postings := []\<rparr>"
proof -
  let ?e = "se_entry r" and ?f = "se_entry q"
  note row = assms(8) [unfolded archive_row_of_def Let_def prod.case archive_row.ext_inject]
  have bounds: "int i \<le> i64_max" "int j \<le> i64_max" using assms(2-5) by (auto simp: archivable_def)
  have dates: "valid_date (booking_date ?e)" "valid_date (value_date ?e)" "valid_date (booking_date ?f)" "valid_date (value_date ?f)"
    "\<forall>d. original_booking_date ?e = Some d \<longrightarrow> valid_date d" "\<forall>d. original_booking_date ?f = Some d \<longrightarrow> valid_date d"
    using assms(2,3) by (auto simp: archivable_def valid_entry_def)
  have texts: "map_option label_str a = map_option label_str b \<longleftrightarrow> a = b" for a b
    by (cases a; cases b) (auto simp: label.expand)
  have ids: "map_option (uuid_text L) a = map_option (uuid_text L) b \<longleftrightarrow> a = b" "uuid_text L x = uuid_text L y \<longleftrightarrow> x = y" for a b x y
    using injD [OF assms(1)] by (cases a; cases b; auto)+
  have "original_booking_date ?e = original_booking_date ?f"
    using row dates(5,6) date32_inj by (cases "original_booking_date ?e"; cases "original_booking_date ?f") auto
  moreover have "e_document ?e = e_document ?f"
  proof (cases "e_document ?e"; cases "e_document ?f")
    fix a b
    assume docs: "e_document ?e = Some a" "e_document ?f = Some b"
    then have "doc_id a = doc_id b" "map_option to_hex (doc_hash a) = map_option to_hex (doc_hash b)"
      using row by (auto simp: label.expand)
    then show ?thesis using docs by (cases "doc_hash a"; cases "doc_hash b") (auto intro: document_ref.equality)
  qed (use row in auto)
  moreover have "e_provenance ?e = e_provenance ?f"
    using row by (intro provenance.equality) (auto simp: texts)
  moreover have "booking_date ?e = booking_date ?f" "value_date ?e = value_date ?f" using row dates(1-4) date32_inj by auto
  moreover have "e_kind ?e = e_kind ?f" "e_key ?e = e_key ?f" "e_id ?e = e_id ?f" "e_reverses ?e = e_reverses ?f" "se_hash r = se_hash q"
    "e_description ?e = e_description ?f" "sl_period s = sl_period z"
    using row by (auto simp: texts ids description.expand period_id.expand label.expand)
  moreover have "i = j" "k = l" using row bounds assms(6,7) by auto
  moreover have "p = p'"
  proof (rule posting.equality)
    show "p_account p = p_account p'" using row by (intro account_id.expand word_uint_eq_iff [THEN iffD2]) blast
    show "p_direction p = p_direction p'" "p_layer p = p_layer p'" using row by (auto simp: lit_inj split: direction.splits layer.splits)
    show "p_amount p = p_amount p'" "p_currency p = p_currency p'" "p_dimensions p = p_dimensions p'"
      using row by (simp_all add: amt_inj dimensions_json_inj)
  qed simp
  ultimately show ?thesis by (auto intro: entry.equality)
qed

lemma plain_row_fields:
  assumes "archivable r" "row \<in> set (plain_rows L s r)" "se_index r = Some i"
  shows "av_index row = int i"
  using assms by (auto simp: plain_rows_def archive_row_of_def Let_def archivable_def)

lemma plain_rows_inj:
  assumes "inj (uuid_text L)" "archivable r" "archivable q" "plain_rows L s r = plain_rows L z q"
  shows "r = q \<and> sl_period s = sl_period z"
proof -
  let ?ps = "e_postings (se_entry r)" and ?qs = "e_postings (se_entry q)"
  obtain i j where at: "se_index r = Some i" "se_index q = Some j" using assms(2,3) by (auto simp: archivable_def)
  have len: "length ?ps = length ?qs" using arg_cong [OF assms(4), of length] by (simp add: plain_rows_def)
  have small: "length ?ps < 2 ^ 31" "0 < length ?ps" using assms(2) by (auto simp: archivable_def max_postings_def)
  have each: "sl_period s = sl_period z \<and> i = j \<and> ?ps ! k = ?qs ! k \<and> se_hash r = se_hash q
      \<and> (se_entry r)\<lparr>e_postings := []\<rparr> = (se_entry q)\<lparr>e_postings := []\<rparr>" if "k < length ?ps" for k
  proof -
    have "archive_row_of L s i r (k, ?ps ! k) = archive_row_of L z j q (k, ?qs ! k)"
      using arg_cong [OF assms(4), of "\<lambda>rows. rows ! k"] that len at by (simp add: plain_rows_def nth_enumerate_eq)
    moreover have "k < 2 ^ 31" using that small by simp
    ultimately show ?thesis using archive_row_inj [OF assms(1-3) at] by blast
  qed
  then have "?ps = ?qs" by (intro nth_equalityI [OF len]) blast
  moreover have "sl_period s = sl_period z" "i = j" "se_hash r = se_hash q"
    and rest: "(se_entry r)\<lparr>e_postings := []\<rparr> = (se_entry q)\<lparr>e_postings := []\<rparr>" using each [OF small(2)] by blast+
  moreover have "e\<lparr>e_postings := []\<rparr> = f\<lparr>e_postings := []\<rparr> \<Longrightarrow> e_postings e = e_postings f \<Longrightarrow> e = f" for e f :: entry
    by (cases e; cases f) simp
  ultimately show ?thesis using at by (auto intro: stored_entry.equality)
qed

text \<open>The rows of several entries part where the position changes.\<close>

lemma rows_part:
  assumes "archivable r" "se_index r = Some i" "\<forall>row\<in>set rest. av_index row \<noteq> int i"
  shows "takeWhile (\<lambda>row. av_index row = int i) (plain_rows L s r @ rest) = plain_rows L s r"
proof -
  have "takeWhile (\<lambda>row. av_index row = int i) (plain_rows L s r @ rest) = plain_rows L s r @ takeWhile (\<lambda>row. av_index row = int i) rest"
    using plain_row_fields [OF assms(1) _ assms(2)] by (intro takeWhile_append2) blast
  then show ?thesis using assms(3) by (cases rest) simp_all
qed

lemma archived_rows_inj:
  assumes "inj (uuid_text L)" "\<forall>r\<in>set rs \<union> set qs. archivable r" "distinct (map se_index rs)" "distinct (map se_index qs)"
    and "concat (map (plain_rows L s) rs) = concat (map (plain_rows L z) qs)"
  shows "rs = qs \<and> (rs \<noteq> [] \<longrightarrow> sl_period s = sl_period z)"
  using assms(2-)
proof (induction rs arbitrary: qs)
  case Nil
  have "plain_rows L z q \<noteq> []" if "q \<in> set qs" for q
    using Nil.prems(1) that by (auto simp: plain_rows_def archivable_def)
  then show ?case using Nil.prems(4) by (cases qs) auto
next
  case (Cons r rs)
  have nonempty: "plain_rows L x a \<noteq> []" if "archivable a" for x a using that by (auto simp: plain_rows_def archivable_def)
  then obtain q qs' where qs: "qs = q # qs'" using Cons.prems(1,4) by (cases qs) auto
  obtain i j where at: "se_index r = Some i" "se_index q = Some j" using Cons.prems(1) by (auto simp: qs archivable_def)
  have other: "\<forall>row\<in>set (concat (map (plain_rows L x) as)). av_index row \<noteq> int n"
    if as: "\<forall>a\<in>set as. archivable a" "Some n \<notin> set (map se_index as)" for x as n
  proof
    fix row
    assume "row \<in> set (concat (map (plain_rows L x) as))"
    then obtain a where a: "a \<in> set as" "row \<in> set (plain_rows L x a)" by auto
    then obtain m where "se_index a = Some m" "Some m \<in> set (map se_index as)" using as(1) by (force simp: archivable_def)
    then show "av_index row \<noteq> int n" using plain_row_fields [of a row L x m] a as by auto
  qed
  let ?R = "concat (map (plain_rows L s) rs)" and ?Q = "concat (map (plain_rows L z) qs')"
  have eq: "plain_rows L s r @ ?R = plain_rows L z q @ ?Q" using Cons.prems(4) qs by simp
  have ok: "archivable r" "archivable q" "\<forall>a\<in>set rs. archivable a" "\<forall>a\<in>set qs'. archivable a" using Cons.prems(1) qs by auto
  have "hd (plain_rows L s r @ ?R) = hd (plain_rows L z q @ ?Q)" using eq by simp
  then have "hd (plain_rows L s r) = hd (plain_rows L z q)" using nonempty ok(1,2) by simp
  moreover have "hd (plain_rows L s r) \<in> set (plain_rows L s r)" "hd (plain_rows L z q) \<in> set (plain_rows L z q)"
    using nonempty ok(1,2) by simp_all
  ultimately have "int i = int j" using plain_row_fields [OF ok(1) _ at(1)] plain_row_fields [OF ok(2) _ at(2)] by metis
  then have ij: "i = j" by simp
  have "plain_rows L s r = plain_rows L z q"
  proof -
    have "takeWhile (\<lambda>row. av_index row = int i) (plain_rows L s r @ ?R) = plain_rows L s r"
      by (rule rows_part [OF ok(1) at(1) other [OF ok(3)]]) (use Cons.prems(2) at in auto)
    moreover have "takeWhile (\<lambda>row. av_index row = int i) (plain_rows L z q @ ?Q) = plain_rows L z q"
      unfolding ij by (rule rows_part [OF ok(2) at(2) other [OF ok(4)]]) (use Cons.prems(3) at qs in auto)
    ultimately show ?thesis using eq by metis
  qed
  then have "r = q \<and> sl_period s = sl_period z" "?R = ?Q" using plain_rows_inj [OF assms(1) ok(1,2)] eq by simp_all
  moreover have "rs = qs' \<and> (rs \<noteq> [] \<longrightarrow> sl_period s = sl_period z)"
    by (rule Cons.IH) (use Cons.prems ok qs calculation(2) in auto)
  ultimately show ?case using qs by simp
qed

end
