(* ===== verification/Iceberg_Reads.thy ===== *)
theory Iceberg_Reads
  imports Iceberg_Text
begin

text \<open>
  What a compaction reads: the loop over the pages of a store that answers as the in-memory store does
  returns, with exactly the entries between the two positions; and the state a committed snapshot
  carries is read back as it was written.
\<close>

section \<open>The loop over the pages\<close>

definition record_at :: "env \<Rightarrow> entry list \<Rightarrow> nat \<Rightarrow> stored_entry" where
  "record_at E es n = \<lparr>se_index = Some n, se_entry = es ! n, se_hash = content_hash E (es ! n)\<rparr>"

lemma log_rows_at: "log_rows E st = map (record_at E (j_entries (ms_inner st))) [0..<length (j_entries (ms_inner st))]"
  by (intro nth_equalityI) (simp_all add: log_rows_def record_at_def nth_enumerate_eq)

lemma take_until_range:
  assumes "k \<le> end"
  shows "take_until L end (map (record_at E es) [k..<m]) out = Ok (out @ map (record_at E es) [k..<min end m], end < m)"
  using assms
proof (induction "m - k" arbitrary: k out)
  case 0
  then show ?case by simp
next
  case (Suc d)
  then have up: "[k..<m] = k # [Suc k..<m]" "d = m - Suc k" by (simp_all add: upt_conv_Cons)
  show ?case
  proof (cases "end = k")
    case False
    then have "[k..<min end m] = k # [Suc k..<min end m]" using Suc.prems Suc.hyps(2) by (simp add: upt_conv_Cons)
    then show ?thesis using Suc.hyps(1) [OF up(2)] Suc.prems False unfolding up(1) by (simp add: record_at_def)
  qed (use Suc.hyps(2) in \<open>simp add: up(1) record_at_def\<close>)
qed

lemma rows_slice: "k \<le> n \<Longrightarrow> take l (drop k (map f [0..<n])) = map f [k..<min n (k + l)]"
  by (intro nth_equalityI) (auto simp: less_diff_conv add.commute)

lemma collect_pages_rest:
  assumes "\<forall>c. page c = Ok (store_page E st c)" "length (j_entries (ms_inner st)) \<le> u64_max"
    and "log_offset (E, st) c \<le> end" "log_offset (E, st) c \<le> length (j_entries (ms_inner st))"
  shows "collect_pages L page end out (Some c)
    = Some (Ok (out @ map (record_at E (j_entries (ms_inner st))) [log_offset (E, st) c..<min end (length (j_entries (ms_inner st)))]))"
  using assms(3,4)
proof (induction "length (j_entries (ms_inner st)) - log_offset (E, st) c" arbitrary: c out rule: less_induct)
  case less
  let ?es = "j_entries (ms_inner st)" and ?N = "length (j_entries (ms_inner st))" and ?rec = "map (record_at E (j_entries (ms_inner st)))"
  define k where "k = log_offset (E, st) c"
  define m where "m = min ?N (k + effective_limit c)"
  have pos: "0 < effective_limit c" by simp
  have k: "k \<le> end" "k \<le> ?N" using less.prems by (simp_all add: k_def)
  have "pg_records (store_page E st c) = ?rec [k..<m]"
    unfolding store_page_rows(1) [OF assms(2)] log_rows_at m_def k_def [symmetric] by (rule rows_slice [OF k(2)])
  then have step: "collect_pages L page end out (Some c) =
      (if m \<le> k then Some (Ok out)
       else if end < m then Some (Ok (out @ ?rec [k..<min end m]))
       else collect_pages L page end (out @ ?rec [k..<min end m]) (pg_next (store_page E st c)))"
    by (subst collect_pages.simps) (simp add: assms(1) take_until_range [OF k(1)])
  consider "?N = k" | "k < m" "end < m" | "k < m" "m \<le> end" using k(2) pos unfolding m_def by linarith
  then have "collect_pages L page end out (Some c) = Some (Ok (out @ ?rec [k..<min end ?N]))"
  proof cases
    case 1
    then show ?thesis using step by (simp add: m_def)
  next
    case 2
    then have "min end m = min end ?N" by (simp add: m_def)
    then show ?thesis using step 2 by simp
  next
    case 3
    note step = step [unfolded min_absorb2 [OF 3(2)]]
    show ?thesis
    proof (cases "k + effective_limit c < ?N")
      case True
      let ?d = "\<lparr>cu_after = Some (k + effective_limit c - 1), cu_limit = cu_limit c\<rparr>"
      have m: "m = k + effective_limit c" "m < ?N" using True by (simp_all add: m_def)
      have next_page: "pg_next (store_page E st c) = Some ?d" using True by (simp add: store_page_rows(2) [OF assms(2)] k_def)
      have d: "log_offset (E, st) ?d = m" using m assms(2) pos by (simp add: log_offset_def)
      have "collect_pages L page end (out @ ?rec [k..<m]) (Some ?d) = Some (Ok ((out @ ?rec [k..<m]) @ ?rec [m..<min end ?N]))"
        unfolding d [symmetric] by (rule less.hyps; unfold d k_def [symmetric]) (use m(2) 3 in linarith)+
      moreover have "?rec [k..<min end ?N] = ?rec [k..<m] @ ?rec [m..<min end ?N]"
        using 3 m(2) upt_add_eq_append [of k m "min end ?N - m"] by simp
      ultimately show ?thesis using step 3 next_page by simp
    next
      case False
      then have "m = ?N" "pg_next (store_page E st c) = None" by (simp_all add: m_def store_page_rows(2) [OF assms(2)] k_def)
      moreover have "collect_pages L page end outs None = Some (Ok outs)" for outs by (subst collect_pages.simps) simp
      moreover have "min end ?N = m" using 3(2) calculation(1) by simp
      ultimately show ?thesis using step 3 by simp
    qed
  qed
  then show ?case by (simp only: k_def)
qed

lemma collect_range:
  assumes "\<forall>c. page c = Ok (store_page E st c)" "length (j_entries (ms_inner st)) \<le> u64_max" "n \<le> length (j_entries (ms_inner st))"
  shows "collect L page n end = Some (Ok (map (record_at E (j_entries (ms_inner st))) [n..<min end (length (j_entries (ms_inner st)))]))"
proof (cases "end \<le> n")
  case False
  have "log_offset (E, st) (if n = 0 then cursor_start else cursor_after (n - 1)) = n"
    using assms(2,3) by (simp add: log_offset_def cursor_start_def cursor_after_def)
  then show ?thesis using False collect_pages_rest [OF assms(1,2), of "if n = 0 then cursor_start else cursor_after (n - 1)" "end" L "[]"] assms(3)
    by (simp add: collect_def)
qed (simp add: collect_def)

section \<open>The archive of a list of entries\<close>

text \<open>
  What the crates promise of a table, as far as the archive relies on it: a committed append leaves the
  batches that were there, adds the new one, and its snapshot is the current one, with the properties set.
\<close>

definition appends_batches :: "('s, 'w, 'b, 'f, 't) lake \<Rightarrow> ('t \<Rightarrow> arrow_column list list) \<Rightarrow> bool" where
  "appends_batches L contents \<longleftrightarrow>
     (\<forall>w cols b t name fs props t'. record_batch L w cols = Ok b \<and> write_file L t name b = Ok fs \<and> commit_append L t fs props = Ok t'
        \<longrightarrow> contents t' = contents t @ [cols] \<and> (\<exists>i stored. current_snapshot L t' = Some (i, stored) \<and> props \<subseteq>\<^sub>m stored))"

text \<open>And that nothing of it fails, for the statements about a compaction that goes through.\<close>

definition lake_works :: "('s, 'w, 'b, 'f, 't) lake \<Rightarrow> bool" where
  "lake_works L \<longleftrightarrow> (\<forall>sch. \<exists>x. assign_ids L sch = Ok x) \<and> (\<forall>x. \<exists>w. to_arrow L x = Ok w) \<and> (\<forall>w cols. \<exists>b. record_batch L w cols = Ok b)
     \<and> (\<forall>t name b. \<exists>fs. write_file L t name b = Ok fs) \<and> (\<forall>t fs props. \<exists>t'. commit_append L t fs props = Ok t')"

text \<open>
  The table holds the first \<open>n\<close> entries, in order and once each, in batches that a seal each gave its
  period, and its current snapshot says so, with the accumulator of those entries.
\<close>

definition archive_holds :: "('s, 'w, 'b, 'f, 't) lake \<Rightarrow> ('t \<Rightarrow> arrow_column list list) \<Rightarrow> env \<Rightarrow> entry list \<Rightarrow> 't \<Rightarrow> nat \<Rightarrow> bool" where
  "archive_holds L contents E es t n \<longleftrightarrow>
     n \<le> length es
     \<and> (\<exists>parts. contents t = map (\<lambda>(s, rs). batch_columns (concat (map (plain_rows L s) rs))) parts
          \<and> concat (map snd parts) = map (record_at E es) [0..<n])
     \<and> (case current_snapshot L t of
          None \<Rightarrow> n = 0
        | Some (_, summary) \<Rightarrow> \<exists>acc. good_acc (env_b3 E) acc (map (content_hash E) (take n es))
            \<and> summary prop_archived_through = Some (dec_digits n) \<and> summary prop_accumulator = Some (encode_accumulator acc))"

lemma archive_state_back:
  assumes "archive_holds L contents E es t n" "length es \<le> u64_max"
  shows "\<exists>acc. good_acc (env_b3 E) acc (map (content_hash E) (take n es))
    \<and> archive_state_of L t = (Ok \<lparr>as_through = n, as_acc = acc\<rparr> :: ('e cold_tier_error, archive_state) res)"
proof (cases "current_snapshot L t")
  case None
  then have "n = 0" using assms(1) by (simp add: archive_holds_def)
  then show ?thesis using None by (intro exI [of _ acc_new]) (simp add: archive_state_of_def archive_empty_def)
next
  case (Some snap)
  obtain i summary where snap: "snap = (i, summary)" by (cases snap)
  obtain acc where acc: "good_acc (env_b3 E) acc (map (content_hash E) (take n es))" "summary prop_archived_through = Some (dec_digits n)"
      "summary prop_accumulator = Some (encode_accumulator acc)" "n \<le> length es"
    using assms(1) Some snap by (auto simp: archive_holds_def)
  have "decode_accumulator (encode_accumulator acc) n = (Ok acc :: ('e cold_tier_error, accumulator) res)"
    using decode_encode_accumulator [OF acc(1)] acc(4) assms(2) by (simp add: min_absorb2)
  then show ?thesis using acc assms(2) Some snap by (intro exI [of _ acc]) (simp add: archive_state_of_def)
qed

text \<open>Only what comes after matters to the archive of a journal that has grown.\<close>

lemma archive_holds_later:
  assumes "archive_holds L contents E es t n" "take (length es) fs = es"
  shows "archive_holds L contents E fs t n"
proof -
  have n: "n \<le> length es" using assms(1) by (simp add: archive_holds_def)
  have len: "length es \<le> length fs" using arg_cong [OF assms(2), of length] by simp
  have "fs ! k = es ! k" if "k < n" for k using that n nth_take [of k "length es" fs] by (simp add: assms(2))
  then have records: "map (record_at E fs) [0..<n] = map (record_at E es) [0..<n]" by (simp add: record_at_def)
  have taken: "take n fs = take n es" using n by (metis assms(2) min.absorb1 take_take)
  have "n \<le> length fs" using n len by simp
  then show ?thesis using assms(1) unfolding archive_holds_def records taken by blast
qed

end
