(* ===== verification/Iceberg_Runs.thy ===== *)
theory Iceberg_Runs
  imports Iceberg_Reads
begin

text \<open>
  One compaction: what a batch that is written adds to the table, what a failed one can fail with, and the
  whole run over a store whose pages are those of the in-memory store.
\<close>

section \<open>One compaction\<close>

lemma push_records:
  assumes "good_acc b3 acc ls" "length ls + length rs \<le> u64_max"
  shows "good_acc b3 (foldl (\<lambda>a r. snd (acc_push b3 a (se_hash r))) acc rs) (ls @ map se_hash rs)"
  using assms
proof (induction rs arbitrary: acc ls)
  case (Cons r rs)
  then have "good_acc b3 (snd (acc_push b3 acc (se_hash r))) (ls @ [se_hash r])" by (intro acc_push_good(1)) simp_all
  from Cons.IH [OF this] show ?case using Cons.prems by simp
qed simp

lemma rows_of_records:
  assumes "\<forall>r\<in>set rs. se_index r \<noteq> None"
  shows "try_map (rows_of_record L s) rs = Ok (map (plain_rows L s) rs)"
  using assms by (induction rs) (auto simp: rows_of_record_def plain_rows_def)

text \<open>A batch that is written goes to the end of the table, and its snapshot carries where to go on.\<close>

lemma write_appends:
  assumes "appends_batches L contents" "\<forall>r\<in>set rs. se_index r \<noteq> None"
    and "build_batch L rs s = (Ok (batch, postings) :: ('e cold_tier_error, _) res)"
    and "write_snapshot L t s batch acc = (Ok (snapshot_id, t') :: ('e cold_tier_error, _) res)"
  shows "contents t' = contents t @ [batch_columns (concat (map (plain_rows L s) rs))]"
    "postings = length (concat (map (plain_rows L s) rs))"
    "\<exists>i summary. current_snapshot L t' = Some (i, summary) \<and> snapshot_properties s acc \<subseteq>\<^sub>m summary"
proof -
  obtain w where batch: "record_batch L w (batch_columns (concat (map (plain_rows L s) rs))) = Ok batch"
      "postings = length (concat (map (plain_rows L s) rs))"
    using assms(3) by (auto simp: build_batch_def rows_of_records [OF assms(2)] Let_def simp del: length_concat)
  obtain fs where "write_file L t (label_str (period_label (sl_period s))) batch = Ok fs"
      "commit_append L t fs (snapshot_properties s acc) = Ok t'"
    using assms(4) by (auto simp: write_snapshot_def)
  then show "contents t' = contents t @ [batch_columns (concat (map (plain_rows L s) rs))]"
    "\<exists>i summary. current_snapshot L t' = Some (i, summary) \<and> snapshot_properties s acc \<subseteq>\<^sub>m summary"
    using assms(1) batch(1) unfolding appends_batches_def by blast+
  show "postings = length (concat (map (plain_rows L s) rs))" by (rule batch(2))
qed

lemma schema_works: "lake_works L \<Longrightarrow> \<exists>w. batch_schema L = (Ok w :: ('e cold_tier_error, 'w) res)"
  for L :: "('s, 'w, 'b, 'f, 't) lake"
proof -
  assume L: "lake_works L"
  then obtain x where x: "assign_ids L arrow_schema = Ok x" unfolding lake_works_def by blast
  obtain w where "to_arrow L x = Ok w" using L unfolding lake_works_def by blast
  then show ?thesis by (simp add: batch_schema_def iceberg_schema_def x)
qed

lemma schema_errors: "batch_schema L = Err x \<Longrightarrow> x = ColdIceberg"
  by (cases "assign_ids L arrow_schema") (auto simp: batch_schema_def iceberg_schema_def)

lemma batch_errors:
  fixes x :: "'e cold_tier_error"
  assumes "\<forall>r\<in>set rs. se_index r \<noteq> None" "build_batch L rs s = Err x"
  shows "(x = ColdIceberg \<or> x = ColdArrow) \<and> \<not> lake_works L"
proof (cases "batch_schema L :: ('e cold_tier_error, _) res")
  case (Inl y)
  then have "x = y" using assms(2) by (simp add: build_batch_def rows_of_records [OF assms(1)] Let_def)
  then show ?thesis using schema_errors [OF Inl] schema_works [of L, where 'e = 'e] Inl by fastforce
next
  case (Inr w)
  then obtain u where u: "record_batch L w (batch_columns (concat (map (plain_rows L s) rs))) = Inl u" "x = ColdArrow"
    using assms(2)
    by (cases "record_batch L w (batch_columns (concat (map (plain_rows L s) rs)))")
      (simp_all add: build_batch_def rows_of_records [OF assms(1)] Let_def)
  then have "\<not> lake_works L" unfolding lake_works_def by (metis Inl_Inr_False)
  then show ?thesis using u(2) by simp
qed

lemma write_errors:
  assumes "write_snapshot L t s batch acc = Err x"
  shows "x = ColdIceberg \<and> \<not> lake_works L"
proof (cases "write_file L t (label_str (period_label (sl_period s))) batch")
  case (Inl y)
  then have "\<not> lake_works L" unfolding lake_works_def by (metis Inl_Inr_False)
  then show ?thesis using assms Inl by (simp add: write_snapshot_def)
next
  case (Inr fs)
  then obtain u where "commit_append L t fs (snapshot_properties s acc) = Inl u" "x = ColdIceberg"
    using assms by (cases "commit_append L t fs (snapshot_properties s acc)") (simp_all add: write_snapshot_def)
  then show ?thesis unfolding lake_works_def by (metis Inl_Inr_False)
qed

lemma prop_names:
  "prop_accumulator \<notin> {prop_period, prop_seal_hash, prop_tree_root, prop_trial_balance_root, prop_trial_balance_size, prop_accounts_root,
     prop_accounts_size, prop_entry_count, prop_archived_through}"
  "prop_archived_through \<notin> {prop_period, prop_seal_hash, prop_tree_root, prop_trial_balance_root, prop_trial_balance_size, prop_accounts_root,
     prop_accounts_size, prop_entry_count}"
  by code_simp+

lemma snapshot_keys:
  assumes "snapshot_properties s acc \<subseteq>\<^sub>m summary"
  shows "summary prop_archived_through = Some (dec_digits (th_size (sl_tree_head s)))" "summary prop_accumulator = Some (encode_accumulator acc)"
proof -
  have written: "snapshot_properties s acc prop_archived_through = Some (dec_digits (th_size (sl_tree_head s)))"
    "snapshot_properties s acc prop_accumulator = Some (encode_accumulator acc)"
    using prop_names by (simp_all add: snapshot_properties_def)
  then show "summary prop_archived_through = Some (dec_digits (th_size (sl_tree_head s)))" "summary prop_accumulator = Some (encode_accumulator acc)"
    using assms by (auto simp: map_le_def dom_def)
qed

text \<open>The whole run, on a store whose pages are those of the in-memory store and a head of its log.\<close>

lemma compact_run:
  fixes page :: "cursor \<Rightarrow> ('e, log_page) res"
  assumes "appends_batches L contents" "\<forall>c. page c = Ok (store_page E st c)" "length (j_entries (ms_inner st)) \<le> u64_max"
    and "archive_holds L contents E (j_entries (ms_inner st)) t n" "n \<le> m" "m \<le> length (j_entries (ms_inner st))"
    and "sl_tree_head s = \<lparr>th_size = m, th_root = mth (env_b3 E) (map (content_hash E) (take m (j_entries (ms_inner st))))\<rparr>"
  shows "\<exists>res. compact L E page (Ok t) s = Some res
    \<and> (case res of
         Err x \<Rightarrow> (x = ColdIceberg \<or> x = ColdArrow) \<and> \<not> lake_works L
       | Ok (c, t') \<Rightarrow> archive_holds L contents E (j_entries (ms_inner st)) t' m \<and> cm_through c = m \<and> cm_entries c = m - n
           \<and> cm_root c = th_root (sl_tree_head s) \<and> (n = m \<longrightarrow> t' = t) \<and> (cm_snapshot c = None \<longleftrightarrow> n = m))"
proof -
  let ?es = "j_entries (ms_inner st)" and ?rs = "map (record_at E (j_entries (ms_inner st))) [n..<m]"
  obtain acc where acc: "good_acc (env_b3 E) acc (map (content_hash E) (take n ?es))"
      "archive_state_of L t = (Ok \<lparr>as_through = n, as_acc = acc\<rparr> :: ('e cold_tier_error, archive_state) res)"
    using archive_state_back [OF assms(4,3)] by blast
  have hashes: "map (content_hash E) (take n ?es) @ map se_hash ?rs = map (content_hash E) (take m ?es)"
  proof (rule nth_equalityI)
    fix k
    assume "k < length (map (content_hash E) (take n ?es) @ map se_hash ?rs)"
    then show "(map (content_hash E) (take n ?es) @ map se_hash ?rs) ! k = map (content_hash E) (take m ?es) ! k"
      using assms(5,6) by (auto simp: nth_append record_at_def)
  qed (use assms(5,6) in simp)
  define acc' where "acc' = foldl (\<lambda>a r. snd (acc_push (env_b3 E) a (se_hash r))) acc ?rs"
  have good: "good_acc (env_b3 E) acc' (map (content_hash E) (take m ?es))"
    using push_records [OF acc(1), of ?rs] assms(3,5,6) unfolding acc'_def hashes by simp
  have root: "acc_root (env_b3 E) acc' = th_root (sl_tree_head s)" by (simp add: acc_root_mth [OF good] assms(7))
  have "collect L page n m = Some (Ok ?rs)"
    using collect_range [OF assms(2,3), of n L m] assms(5,6) by (simp add: min_absorb1)
  then have run: "compact L E page (Ok t) s = Some (compact_entries L E t \<lparr>as_through = n, as_acc = acc\<rparr> s ?rs)"
    using assms(5) by (simp add: compact_def acc(2) assms(7))
  show ?thesis
  proof (cases "n = m")
    case True
    then show ?thesis using assms(4) root unfolding run by (simp add: compact_entries_def acc'_def)
  next
    case False
    then have some: "?rs \<noteq> []" using assms(5) by simp
    have placed: "\<forall>r\<in>set ?rs. se_index r \<noteq> None" by (simp add: record_at_def)
    show ?thesis
    proof (cases "compact_entries L E t \<lparr>as_through = n, as_acc = acc\<rparr> s ?rs :: ('e cold_tier_error, _) res")
      case (Inl x)
      then have "(x = ColdIceberg \<or> x = ColdArrow) \<and> \<not> lake_works L"
        using root some batch_errors [OF placed, of L s] write_errors [of L t s _ acc']
        by (auto simp: compact_entries_def Let_def bindR_Err simp flip: acc'_def split: prod.splits)
      then show ?thesis unfolding run using Inl by simp
    next
      case (Inr ct)
      obtain c t' where ct: "ct = (c, t')" by (cases ct)
      obtain batch postings snapshot_id where built: "build_batch L ?rs s = (Ok (batch, postings) :: ('e cold_tier_error, _) res)"
          "write_snapshot L t s batch acc' = (Ok (snapshot_id, t') :: ('e cold_tier_error, _) res)"
          "c = \<lparr>cm_period = label_str (period_label (sl_period s)), cm_through = m, cm_entries = m - n, cm_postings = postings,
                cm_root = th_root (sl_tree_head s), cm_snapshot = Some snapshot_id\<rparr>"
        using Inr root some by (auto simp: ct compact_entries_def Let_def assms(7) simp flip: acc'_def split: if_splits)
      note w = write_appends [OF assms(1) placed built(1,2)]
      obtain i summary where summary: "current_snapshot L t' = Some (i, summary)" "snapshot_properties s acc' \<subseteq>\<^sub>m summary"
        using w(3) by blast
      obtain parts where parts: "contents t = map (\<lambda>(s, rs). batch_columns (concat (map (plain_rows L s) rs))) parts"
          "concat (map snd parts) = map (record_at E ?es) [0..<n]"
        using assms(4) by (auto simp: archive_holds_def)
      have "archive_holds L contents E ?es t' m"
        unfolding archive_holds_def
      proof (intro conjI)
        have "[0..<m] = [0..<n] @ [n..<m]" using assms(5) upt_add_eq_append [of 0 n "m - n"] by simp
        then have "map (record_at E ?es) [0..<m] = map (record_at E ?es) [0..<n] @ ?rs" by (simp only: map_append)
        then have "concat (map snd (parts @ [(s, ?rs)])) = map (record_at E ?es) [0..<m]" by (simp add: parts(2))
        then show "\<exists>parts. contents t' = map (\<lambda>(s, rs). batch_columns (concat (map (plain_rows L s) rs))) parts
            \<and> concat (map snd parts) = map (record_at E ?es) [0..<m]"
          using w(1) parts(1) by (intro exI [of _ "parts @ [(s, ?rs)]"]) simp
        show "case current_snapshot L t' of None \<Rightarrow> m = 0
            | Some (_, summary) \<Rightarrow> \<exists>acc. good_acc (env_b3 E) acc (map (content_hash E) (take m ?es))
                \<and> summary prop_archived_through = Some (dec_digits m) \<and> summary prop_accumulator = Some (encode_accumulator acc)"
          using good snapshot_keys [OF summary(2)] by (auto simp: summary(1) assms(7))
      qed (rule assms(6))
      then show ?thesis unfolding run using Inr False by (simp add: ct built(3))
    qed
  qed
qed

end
