(* ===== verification/Iceberg_Audit.thy ===== *)
theory Iceberg_Audit
  imports Iceberg_Runs Journal_Seals Seal_Audit Entry_Audit
begin

text \<open>
  The properties of the archive: what a compaction under a seal of the journal does, what its check of the
  root proves of a store that is not trusted, and that the archived rows carry the entries whole.
\<close>

section \<open>A table to try it on\<close>

text \<open>The batches appended so far, and the snapshot with its number and its properties.\<close>

definition demo_lake :: "(unit, unit, arrow_column list, arrow_column list, arrow_column list list \<times> (int \<times> (ustr \<rightharpoonup> ustr)) option) lake" where
  "demo_lake =
     \<lparr>uuid_text = (\<lambda>i. dec_digits (unat (entry_uuid i))), assign_ids = (\<lambda>_. Ok ()), to_arrow = (\<lambda>_. Ok ()),
      record_batch = (\<lambda>_ cols. Ok cols), current_snapshot = snd, write_file = (\<lambda>_ _ batch. Ok batch),
      commit_append = (\<lambda>t files props. Ok (fst t @ [files], Some (int (length (fst t)), props)))\<rparr>"

lemma demo_lake:
  "appends_batches demo_lake fst" "lake_works demo_lake" "inj (uuid_text demo_lake)" "archive_holds demo_lake fst E es ([], None) 0"
proof -
  show "inj (uuid_text demo_lake)"
  proof (rule injI)
    fix x y
    assume "uuid_text demo_lake x = uuid_text demo_lake y"
    then have "dec_digits (unat (entry_uuid x)) = dec_digits (unat (entry_uuid y))" by (simp add: demo_lake_def)
    then have "unat (entry_uuid x) = unat (entry_uuid y)" by (metis digits_value_dec)
    then show "x = y" by (cases x; cases y) (simp add: word_unat_eq_iff)
  qed
qed (auto simp: demo_lake_def appends_batches_def lake_works_def archive_holds_def)

section \<open>Compacting under a seal of the journal\<close>

text \<open>
  C31. A compaction against a store that answers from the journal, under a seal the journal made, always
  returns. A seal older than the archive is refused as such. Any other adds to a table that holds the first
  entries of the log exactly those between it and the seal, in order and once each, leaves the table unwritten
  when there are none, and records a state the next compaction goes on from. The root it reaches is the
  seal's: no error of the store, of the order or of the root arises, only those of the table format.
\<close>

theorem compaction_spec:
  fixes page :: "cursor \<Rightarrow> ('e, log_page) res"
  assumes "appends_batches L contents" "\<forall>c. page c = Ok (store_page E st c)"
    and "reachable_journal E ledger j" "seal_period E i j = (Ok s, k)" "(journal_step E)\<^sup>*\<^sup>* k (ms_inner st)"
    and "archive_holds L contents E (j_entries (ms_inner st)) t n"
  shows "if length (j_entries j) < n
    then compact L E page (Ok t) s = Some (Err (SealBehindArchive (label_str (period_label i)) (length (j_entries j)) n))
    else \<exists>res. compact L E page (Ok t) s = Some res
      \<and> (case res of
           Err x \<Rightarrow> (x = ColdIceberg \<or> x = ColdArrow) \<and> \<not> lake_works L
         | Ok (c, t') \<Rightarrow> archive_holds L contents E (j_entries (ms_inner st)) t' (length (j_entries j))
             \<and> cm_through c = length (j_entries j) \<and> cm_entries c = length (j_entries j) - n
             \<and> cm_root c = th_root (sl_tree_head s) \<and> (n = length (j_entries j) \<longrightarrow> t' = t)
             \<and> (cm_snapshot c = None \<longleftrightarrow> n = length (j_entries j)))"
proof -
  let ?es = "j_entries (ms_inner st)"
  have inv: "journal_inv E j" by (rule reachable_journal_inv [OF assms(3)])
  obtain p closing where l: "s = period_seal E j i p closing" "journal_inv E (ms_inner st)" "take (length (j_entries j)) ?es = j_entries j"
    using sealed_later [OF inv assms(4,5)] by metis
  have small: "length ?es \<le> u64_max" using journal_invD(3) [OF l(2)] by simp
  have size: "length (j_entries j) \<le> length ?es" by (metis l(3) length_take min.cobounded1)
  have head: "sl_tree_head s = \<lparr>th_size = length (j_entries j), th_root = mth (env_b3 E) (map (content_hash E) (take (length (j_entries j)) ?es))\<rparr>"
    by (simp add: l(1,3) period_seal_def journal_head_eq [OF journal_invD(1) [OF inv]])
  show ?thesis
  proof (cases "length (j_entries j) < n")
    case True
    obtain acc where "archive_state_of L t = (Ok \<lparr>as_through = n, as_acc = acc\<rparr> :: ('e cold_tier_error, archive_state) res)"
      using archive_state_back [OF assms(6) small] by blast
    moreover have "sl_period s = i" by (simp add: l(1) period_seal_def)
    ultimately show ?thesis using True by (simp add: compact_def head)
  next
    case False
    then show ?thesis using compact_run [OF assms(1,2) small assms(6) _ size head] by simp
  qed
qed

lemma only_Ok: "lake_works L \<Longrightarrow> (case res of Err x \<Rightarrow> P x \<and> \<not> lake_works L | Ok (c, t') \<Rightarrow> Q c t') \<longleftrightarrow> (\<exists>c t'. res = Ok (c, t') \<and> Q c t')"
  by (cases res) auto

lemma compaction_spec_witness:
  "\<exists>s c t'. seal_period toy_env m2_id (demo_ready toy_env) = (Ok s, demo_sealed toy_env)
     \<and> compact demo_lake toy_env (\<lambda>c. Ok (store_page toy_env (from_journal (demo_sealed toy_env)) c) :: (unit, log_page) res) (Ok ([], None)) s
       = Some (Ok (c, t'))
     \<and> cm_entries c = 2 \<and> archive_holds demo_lake fst toy_env (j_entries (demo_sealed toy_env)) t' 2"
proof -
  define st where "st = from_journal (demo_sealed toy_env)"
  have inner: "ms_inner st = demo_sealed toy_env" by (simp add: st_def from_journal_def)
  have two: "length (j_entries (demo_ready toy_env)) = 2" by (simp add: demo_ready(2))
  obtain s where s: "seal_period toy_env m2_id (demo_ready toy_env) = (Ok s, demo_sealed toy_env)" using demo_sealed by metis
  have steps: "(journal_step toy_env)\<^sup>*\<^sup>* (demo_sealed toy_env) (ms_inner st)" by (simp add: inner)
  have pages: "\<forall>c. (\<lambda>c. Ok (store_page toy_env st c) :: (unit, log_page) res) c = Ok (store_page toy_env st c)" by simp
  have "\<not> (2::nat) < 0" by simp
  note spec = compaction_spec [OF demo_lake(1) pages demo_ready(1) s steps demo_lake(4), unfolded two inner diff_zero
      only_Ok [OF demo_lake(2)], unfolded if_not_P [OF this]]
  then show ?thesis using s unfolding st_def by blast
qed

section \<open>What the check of the root proves\<close>

text \<open>The byte strings the tree hash of a list hashes.\<close>

function mth_preimages :: "blake3 \<Rightarrow> hash list \<Rightarrow> byte list list" where
  "mth_preimages b3 ls =
     (if length ls = 0 then [tagged_preimage tag_empty []]
      else if length ls = 1 then [tagged_preimage tag_leaf (hash_bytes (ls ! 0))]
      else let k = split_point (length ls) in
        tagged_preimage tag_node (hash_bytes (mth b3 (take k ls)) @ hash_bytes (mth b3 (drop k ls)))
        # mth_preimages b3 (take k ls) @ mth_preimages b3 (drop k ls))"
  by auto
termination
  by (relation "measure (\<lambda>(b3, ls). length ls)") (auto simp: split_point_shorter split_point_longer)

declare mth_preimages.simps [simp del]

lemma mth_cases:
  obtains (empty) "ls = []" "mth b3 ls = tagged b3 tag_empty []" "mth_preimages b3 ls = [tagged_preimage tag_empty []]"
  | (leaf) x where "ls = [x]" "mth b3 ls = tagged b3 tag_leaf (hash_bytes x)" "mth_preimages b3 ls = [tagged_preimage tag_leaf (hash_bytes x)]"
  | (node) k where "length ls \<noteq> 0" "length ls \<noteq> 1" "k = split_point (length ls)"
      "mth b3 ls = tagged b3 tag_node (hash_bytes (mth b3 (take k ls)) @ hash_bytes (mth b3 (drop k ls)))"
      "mth_preimages b3 ls = tagged_preimage tag_node (hash_bytes (mth b3 (take k ls)) @ hash_bytes (mth b3 (drop k ls)))
        # mth_preimages b3 (take k ls) @ mth_preimages b3 (drop k ls)"
proof -
  consider "ls = []" | x where "ls = [x]" | "length ls \<noteq> 0" "length ls \<noteq> 1" by (cases ls rule: remdups_adj.cases) auto
  then show ?thesis
  proof cases
    case 1
    then show ?thesis by (intro empty) (simp, simp add: empty_root_def, subst mth_preimages.simps, simp)
  next
    case (2 x)
    then show ?thesis by (intro leaf [of x]) (simp, simp add: leaf_hash_def, subst mth_preimages.simps, simp)
  next
    case 3
    show ?thesis by (rule node [OF 3 refl]) (use 3 in \<open>simp_all add: node_hash_def Let_def mth.simps [of b3 ls] mth_preimages.simps [of b3 ls]\<close>)
  qed
qed

text \<open>The tree hash of a list is the list, as far as the function has no collision among them.\<close>

lemma mth_inj:
  assumes "inj_on b3 X" "set (mth_preimages b3 ls) \<subseteq> X" "set (mth_preimages b3 hs) \<subseteq> X" "mth b3 ls = mth b3 hs"
  shows "ls = hs"
  using assms(2-4)
proof (induction "length ls" arbitrary: ls hs rule: less_induct)
  case less
  have top: "t = u \<and> p = q" if "mth b3 ls = tagged b3 t p" "mth b3 hs = tagged b3 u q" "tagged_preimage t p \<in> set (mth_preimages b3 ls)"
      "tagged_preimage u q \<in> set (mth_preimages b3 hs)" "fits t" "fits u" for t u p q
    using tagged_inj [OF assms(1), of t p u q] that less.prems by auto
  note tags = merkle_tags_fit merkle_tags_distinct merkle_tags_distinct [symmetric]
  show ?case
  proof (cases rule: mth_cases [of ls b3])
    case empty
    show ?thesis by (rule mth_cases [of hs b3]) (use empty top [OF empty(2)] tags in auto)
  next
    case (leaf x)
    show ?thesis
    proof (cases rule: mth_cases [of hs b3])
      case other: (leaf y)
      then show ?thesis using leaf top [OF leaf(2) other(2)] tags(2) by simp
    qed (use leaf top [OF leaf(2)] tags in auto)
  next
    case (node k)
    show ?thesis
    proof (cases rule: mth_cases [of hs b3])
      case empty
      then show ?thesis using top [OF node(4) empty(2)] node(5) tags by auto
    next
      case (leaf x)
      then show ?thesis using top [OF node(4) leaf(2)] node(5) tags by auto
    next
      case other: (node l)
      have "hash_bytes (mth b3 (take k ls)) @ hash_bytes (mth b3 (drop k ls)) = hash_bytes (mth b3 (take l hs)) @ hash_bytes (mth b3 (drop l hs))"
        using top [OF node(4) other(4)] node(5) other(5) tags(3) by simp
      then have eq: "mth b3 (take k ls) = mth b3 (take l hs)" "mth b3 (drop k ls) = mth b3 (drop l hs)"
        by (simp_all add: hash_bytes_append)
      have "k < length ls" "0 < k" using node(1-3) split_point_shorter split_point_longer by auto
      then have short: "length (take k ls) < length ls" "length (drop k ls) < length ls" by simp_all
      have "take k ls = take l hs" "drop k ls = drop l hs"
        by (rule less.hyps [OF short(1) _ _ eq(1)] less.hyps [OF short(2) _ _ eq(2)]; use less.prems node(5) other(5) in auto)+
      then show ?thesis by (metis append_take_drop_id)
    qed
  qed
qed

text \<open>The loop hands on records with a position only.\<close>

lemma take_until_placed:
  "take_until L end rs out = Ok (outs, finished) \<Longrightarrow> \<forall>r\<in>set out. se_index r \<noteq> None \<Longrightarrow> \<forall>r\<in>set outs. se_index r \<noteq> None"
proof (induction rs arbitrary: out)
  case (Cons r rs)
  then show ?case by (fastforce split: if_splits)
qed simp

lemma collect_pages_placed:
  fixes page :: "cursor \<Rightarrow> ('e, log_page) res"
  shows "collect_pages L page end out cursor = Some res \<Longrightarrow> \<forall>r\<in>set out. se_index r \<noteq> None
    \<Longrightarrow> case res of Err _ \<Rightarrow> True | Ok rs \<Rightarrow> \<forall>r\<in>set rs. se_index r \<noteq> None"
proof (induction rule: collect_pages.raw_induct [rotated 1, consumes 1])
  case (1 rec L page to out cursor res)
  show ?case
  proof (cases cursor)
    case None
    then show ?thesis using 1(2,3) by (auto split: sum.splits)
  next
    case (Some c)
    show ?thesis
    proof (cases "page c")
      case (Inl x)
      then show ?thesis using 1(2) Some by auto
    next
      case (Inr p)
      show ?thesis
      proof (cases "pg_records p = []")
        case True
        then show ?thesis using 1(2,3) Some Inr by auto
      next
        case False
        show ?thesis
        proof (cases "take_until L to (pg_records p) out :: ('e cold_tier_error, _) res")
          case (Inl x)
          then show ?thesis using 1(2) Some Inr False by auto
        next
          case taken: (Inr tk)
          obtain outs finished where outs: "tk = (outs, finished)" by (cases tk)
          have "\<forall>r\<in>set outs. se_index r \<noteq> None" using take_until_placed [OF taken [unfolded outs] 1(3)] .
          then show ?thesis using 1(1,2) Some Inr False taken outs by (cases finished) auto
        qed
      qed
    qed
  qed
qed

lemma collect_placed: "collect L page n end = Some (Ok rs) \<Longrightarrow> \<forall>r\<in>set rs. se_index r \<noteq> None"
  using collect_pages_placed [of L page "end" "[]" _ "Ok rs"] by (auto simp: collect_def split: if_splits)

text \<open>
  C32. Whatever the store answered: when a compaction goes through, and the root of the seal is that of a
  list of entry hashes, then what the archive held before and what was read now have exactly those hashes,
  in that order, unless the hash function has a collision among the inputs at hand; and what was appended
  to the table is the rows of what was read, and nothing when nothing was.
\<close>

theorem archive_matches_seal:
  fixes page :: "cursor \<Rightarrow> ('e, log_page) res"
  assumes "appends_batches L contents"
    and "archive_state_of L t = (Ok a :: ('e cold_tier_error, archive_state) res)" "good_acc (env_b3 E) (as_acc a) hs"
    and "compact L E page (Ok t) s = Some (Ok (c, t'))"
    and "collect L page (as_through a) (th_size (sl_tree_head s)) = Some (Ok rs)" "length hs + length rs \<le> u64_max"
    and "th_root (sl_tree_head s) = mth (env_b3 E) ls"
    and "inj_on (env_b3 E) (set (mth_preimages (env_b3 E) ls) \<union> set (mth_preimages (env_b3 E) (hs @ map se_hash rs)))"
  shows "hs @ map se_hash rs = ls
    \<and> contents t' = contents t @ (if rs = [] then [] else [batch_columns (concat (map (plain_rows L s) rs))])"
proof -
  have placed: "\<forall>r\<in>set rs. se_index r \<noteq> None" by (rule collect_placed [OF assms(5)])
  define acc where "acc = foldl (\<lambda>a r. snd (acc_push (env_b3 E) a (se_hash r))) (as_acc a) rs"
  have "good_acc (env_b3 E) acc (hs @ map se_hash rs)" unfolding acc_def by (rule push_records [OF assms(3,6)])
  then have root: "acc_root (env_b3 E) acc = mth (env_b3 E) (hs @ map se_hash rs)" by (rule acc_root_mth)
  have run: "compact_entries L E t a s rs = (Ok (c, t') :: ('e cold_tier_error, _) res)"
    using assms(4,5) by (auto simp: compact_def assms(2) split: if_splits)
  then have eq: "mth (env_b3 E) (hs @ map se_hash rs) = mth (env_b3 E) ls"
    by (auto simp: compact_entries_def Let_def root assms(7) simp flip: acc_def split: if_splits)
  have "hs @ map se_hash rs = ls" by (rule mth_inj [OF assms(8) _ _ eq]) simp_all
  moreover have "contents t' = contents t @ (if rs = [] then [] else [batch_columns (concat (map (plain_rows L s) rs))])"
  proof (cases "rs = []")
    case True
    then show ?thesis using run by (auto simp: compact_entries_def Let_def split: if_splits)
  next
    case False
    then obtain batch postings snapshot_id where "build_batch L rs s = (Ok (batch, postings) :: ('e cold_tier_error, _) res)"
        "write_snapshot L t s batch acc = (Ok (snapshot_id, t') :: ('e cold_tier_error, _) res)"
      using run by (auto simp: compact_entries_def Let_def simp flip: acc_def split: if_splits)
    then show ?thesis using write_appends(1) [OF assms(1) placed] False by simp
  qed
  ultimately show ?thesis ..
qed

definition demo_stored :: "hash \<Rightarrow> stored_entry" where
  "demo_stored h = \<lparr>se_index = Some 0, se_entry = demo_entry (EntryId 1), se_hash = h\<rparr>"

definition demo_answer :: "cursor \<Rightarrow> (unit, log_page) res" where
  "demo_answer c = Ok \<lparr>pg_records = [demo_stored (small_hash 1)], pg_next = None\<rparr>"

definition demo_leaf_seal :: seal where
  "demo_leaf_seal = (demo_seal toy_hash [65] 1 None)\<lparr>sl_tree_head := \<lparr>th_size = 1, th_root = leaf_hash toy_hash (small_hash 1)\<rparr>\<rparr>"

lemma demo_compacts:
  "collect demo_lake demo_answer 0 1 = Some (Ok [demo_stored (small_hash 1)])"
  "archive_state_of demo_lake ([], None) = (Ok archive_empty :: (unit cold_tier_error, _) res)"
  "\<exists>c t'. compact demo_lake toy_env demo_answer (Ok ([], None)) demo_leaf_seal = Some (Ok (c, t'))"
proof -
  have root: "acc_root toy_hash (snd (acc_push toy_hash acc_new (small_hash 1))) = leaf_hash toy_hash (small_hash 1)"
    using acc_root_mth [OF acc_push_good(1) [OF good_acc_new]] by (simp add: u64_max_def)
  show got: "collect demo_lake demo_answer 0 1 = Some (Ok [demo_stored (small_hash 1)])"
    by (simp add: collect_def) (subst collect_pages.simps, simp add: demo_answer_def demo_stored_def, subst collect_pages.simps, simp)
  show none: "archive_state_of demo_lake ([], None) = (Ok archive_empty :: (unit cold_tier_error, _) res)" by (simp add: archive_state_of_def demo_lake_def)
  have head: "th_size (sl_tree_head demo_leaf_seal) = 1" "th_root (sl_tree_head demo_leaf_seal) = leaf_hash toy_hash (small_hash 1)"
    "env_b3 toy_env = toy_hash" by (simp_all add: demo_leaf_seal_def toy_env_def)
  have "\<exists>out. compact_entries demo_lake toy_env ([], None) archive_empty demo_leaf_seal [demo_stored (small_hash 1)] = (Ok out :: (unit cold_tier_error, _) res)"
    by (simp add: compact_entries_def head archive_empty_def root demo_stored_def [of "small_hash 1"] build_batch_def rows_of_record_def
        batch_schema_def iceberg_schema_def write_snapshot_def)
      (simp add: demo_lake_def)
  then show "\<exists>c t'. compact demo_lake toy_env demo_answer (Ok ([], None)) demo_leaf_seal = Some (Ok (c, t'))"
    using got by (auto simp: compact_def none head) (auto simp: archive_empty_def)
qed

lemma archive_matches_seal_witness:
  "\<exists>c t'. compact demo_lake toy_env demo_answer (Ok ([], None)) demo_leaf_seal = Some (Ok (c, t'))
     \<and> [] @ map se_hash [demo_stored (small_hash 1)] = [small_hash 1]
     \<and> fst t' = [batch_columns (plain_rows demo_lake demo_leaf_seal (demo_stored (small_hash 1)))]"
proof -
  obtain c t' where run: "compact demo_lake toy_env demo_answer (Ok ([], None)) demo_leaf_seal = Some (Ok (c, t'))"
    using demo_compacts(3) by blast
  have root: "th_root (sl_tree_head demo_leaf_seal) = mth (env_b3 toy_env) [small_hash 1]" by (simp add: demo_leaf_seal_def toy_env_def)
  have got: "collect demo_lake demo_answer (as_through archive_empty) (th_size (sl_tree_head demo_leaf_seal)) = Some (Ok [demo_stored (small_hash 1)])"
    using demo_compacts(1) by (simp add: archive_empty_def demo_leaf_seal_def)
  have "good_acc (env_b3 toy_env) (as_acc archive_empty) []" by (simp add: archive_empty_def)
  note archive_matches_seal [OF demo_lake(1) demo_compacts(2) this run got _ root]
  moreover have "inj_on (env_b3 toy_env) (set (mth_preimages (env_b3 toy_env) [small_hash 1])
      \<union> set (mth_preimages (env_b3 toy_env) ([] @ map se_hash [demo_stored (small_hash 1)])))"
    by (simp add: demo_stored_def mth_preimages.simps)
  ultimately show ?thesis using run by (auto simp: u64_max_def)
qed

text \<open>
  What the root does not reach: the fields of the entries. Records that carry other entries under the same
  hashes pass the same check and are archived under them.
\<close>

lemma archived_entries_unchecked:
  assumes "lake_works L" "\<forall>r\<in>set qs. se_index r \<noteq> None" "map se_hash rs = map se_hash qs"
    and "compact_entries L E t state s rs = (Ok out :: ('e cold_tier_error, _) res)"
  shows "\<exists>out. compact_entries L E t state s qs = (Ok out :: ('e cold_tier_error, _) res)"
proof -
  have fold: "foldl (\<lambda>a r. snd (acc_push (env_b3 E) a (se_hash r))) a rs = foldl (\<lambda>a r. snd (acc_push (env_b3 E) a (se_hash r))) a qs" for a
    using assms(3) foldl_map [of "\<lambda>a h. snd (acc_push (env_b3 E) a h)" a se_hash rs] foldl_map [of "\<lambda>a h. snd (acc_push (env_b3 E) a h)" a se_hash qs]
    by simp
  have empty: "rs = [] \<longleftrightarrow> qs = []" using assms(3) by (metis map_is_Nil_conv)
  define acc where "acc = foldl (\<lambda>a r. snd (acc_push (env_b3 E) a (se_hash r))) (as_acc state) qs"
  have root: "acc_root (env_b3 E) acc = th_root (sl_tree_head s)"
    using assms(4) by (auto simp: compact_entries_def Let_def fold simp flip: acc_def split: if_splits)
  show ?thesis
  proof (cases "qs = []")
    case True
    then show ?thesis using root by (simp add: compact_entries_def Let_def acc_def)
  next
    case False
    show ?thesis
    proof (cases "build_batch L qs s :: ('e cold_tier_error, _) res")
      case (Inl x)
      then show ?thesis using batch_errors [OF assms(2)] assms(1) by blast
    next
      case (Inr bp)
      obtain batch postings where bp: "bp = (batch, postings)" by (cases bp)
      show ?thesis
      proof (cases "write_snapshot L t s batch acc :: ('e cold_tier_error, _) res")
        case (Inl x)
        then show ?thesis using write_errors [OF Inl] assms(1) by simp
      next
        case out: (Inr y)
        then show ?thesis using root False Inr bp by (cases y) (simp add: compact_entries_def Let_def flip: acc_def)
      qed
    qed
  qed
qed

section \<open>The rows carry the entries whole\<close>

text \<open>
  C33. The batch written for entries the log can hold determines them: two lists of such entries, each at its
  own positions, give the same columns only when they are the same entries at the same positions under the
  same hashes, archived for the same period. Nothing of an entry is dropped on the way to the archive, and no
  two dimension sets, documents or dates are written alike.
\<close>

theorem archive_rows_faithful:
  assumes "inj (uuid_text L)" "\<forall>r\<in>set rs \<union> set qs. archivable r" "distinct (map se_index rs)" "distinct (map se_index qs)"
    and "try_map (rows_of_record L s) rs = (Ok rows :: ('e cold_tier_error, _) res)"
    and "try_map (rows_of_record L z) qs = (Ok rows' :: ('e cold_tier_error, _) res)"
  shows "batch_columns (concat rows) = batch_columns (concat rows') \<longleftrightarrow> rs = qs \<and> (rs = [] \<or> sl_period s = sl_period z)"
proof -
  have "try_map (rows_of_record L s) rs = (Ok (map (plain_rows L s) rs) :: ('e cold_tier_error, _) res)"
    "try_map (rows_of_record L z) qs = (Ok (map (plain_rows L z) qs) :: ('e cold_tier_error, _) res)"
    using assms(2) by (simp_all add: all_rows)
  then have rows: "rows = map (plain_rows L s) rs" "rows' = map (plain_rows L z) qs" using assms(5,6) by simp_all
  have "plain_rows L s = plain_rows L z" if "sl_period s = sl_period z"
    by (intro ext) (simp add: plain_rows_def archive_row_of_def that)
  then show ?thesis
    using archived_rows_inj [OF assms(1-4), of s z] by (auto simp: batch_columns_inj rows)
qed

lemma archive_rows_faithful_witness:
  "\<exists>rows rows'. try_map (rows_of_record demo_lake demo_leaf_seal) [demo_stored (small_hash 1)] = (Ok rows :: (unit cold_tier_error, _) res)
     \<and> try_map (rows_of_record demo_lake demo_leaf_seal) [demo_stored (small_hash 2)] = (Ok rows' :: (unit cold_tier_error, _) res)
     \<and> batch_columns (concat rows) \<noteq> batch_columns (concat rows')"
proof -
  let ?rows = "\<lambda>h. map (plain_rows demo_lake demo_leaf_seal) [demo_stored h]"
  have ok: "archivable (demo_stored h)" for h
    using demo_entry_valid by (simp add: archivable_def demo_stored_def i64_max_def max_postings_def)
      (simp add: demo_entry_def entry_credit_def entry_debit_def post_def entry_new_def)
  then have rows: "try_map (rows_of_record demo_lake demo_leaf_seal) [demo_stored h] = (Ok (?rows h) :: (unit cold_tier_error, _) res)" for h
    by (intro all_rows) simp
  have "small_hash 1 \<noteq> small_hash 2" by code_simp
  then have "[demo_stored (small_hash 1)] \<noteq> [demo_stored (small_hash 2)]" by (simp add: demo_stored_def)
  moreover have "batch_columns (concat (?rows (small_hash 1))) = batch_columns (concat (?rows (small_hash 2)))
      \<longleftrightarrow> [demo_stored (small_hash 1)] = [demo_stored (small_hash 2)]
        \<and> ([demo_stored (small_hash 1)] = [] \<or> sl_period demo_leaf_seal = sl_period demo_leaf_seal)"
    by (rule archive_rows_faithful [OF demo_lake(3) _ _ _ rows rows]) (use ok in auto)
  ultimately show ?thesis using rows [of "small_hash 1"] rows [of "small_hash 2"] by blast
qed

end
