(* ===== verification/Spec2Isabelle.thy ===== *)
theory Spec2Isabelle
  imports Money_Split Money_Text Closing Journal_Audit Journal_Books Journal_Figures Journal_Seals Journal_Items
    Storage_Audit Calendar_Audit Registry_Audit Seal_Audit Seal_Proofs Entry_Audit Merkle_Audit Account_Path Sqlite_Audit
    Postgres_Audit Postgres_Refine Iceberg_Audit
begin

text \<open>
  A verification development of \<^verbatim>\<open>doubleentry\<close>, an append-only double-entry ledger engine in Rust. This
  theory only collects the others; this text says what they model, what they show, and what is left out.

  \<^bold>\<open>The program.\<close> A caller drafts entries (\<^verbatim>\<open>src/entry.rs\<close>): postings that debit and credit accounts in
  amounts of a currency. Sealing a draft validates it. The journal (\<^verbatim>\<open>src/journal.rs\<close>) records sealed
  entries in an append-only list, whose content hashes are the leaves of a Merkle log, and keeps balances
  and indexes beside it. Its accounts and its calendar say where and when postings may go; closing a
  period fixes its balances in a chain of seals. Clearings assign postings to one another and leave open
  items. A store (\<^verbatim>\<open>src/storage.rs\<close>) offers all this to callers in pages: in memory by wrapping the
  journal, or in a database (\<^verbatim>\<open>src/storage/sqlite.rs\<close>, \<^verbatim>\<open>src/storage/postgres.rs\<close>) by tables and queries.
  In PostgreSQL the positions of the log can also be given out after the fact: writers insert without
  waiting for one another, and a sequencing pass places what no open transaction can precede any more.
  What a seal covers can be archived (\<^verbatim>\<open>src/storage/iceberg.rs\<close>): read back from a store page by page, checked
  against the root of the seal, and appended to a table of a data lake.

  \<^bold>\<open>Which theory models which file\<close> (paths below \<^verbatim>\<open>src/\<close>; record fields and function names are the
  source's, with a prefix or suffix where two types share one):
  \<^item> \<open>Prelude\<close>, \<open>Machine_Words\<close>, \<open>Unicode\<close>, \<open>Btree_Map\<close>, \<open>Position_Index\<close>: what the standard library
    provides, that is \<^verbatim>\<open>Result\<close> and the question-mark operator, integers at their width, strings as
    lists of scalar values with their UTF-8 bytes, \<^verbatim>\<open>BTreeMap\<close>; and the contract of an index beside a vector.
  \<^item> \<^verbatim>\<open>src/money.rs\<close>: \<open>Money\<close> (definitions), \<open>Money_Split\<close>, \<open>Money_Text\<close>.
  \<^item> \<^verbatim>\<open>src/canonical.rs\<close>: \<open>Canonical\<close>; \<^verbatim>\<open>src/hash.rs\<close>: \<open>Hashing\<close>; dates and the parameters of the
    model: \<open>Dates\<close>.
  \<^item> \<^verbatim>\<open>src/merkle.rs\<close>: \<open>Merkle\<close> (definitions), \<open>Merkle_Log\<close> (the incremental side), \<open>Merkle_Audit\<close> (proofs).
  \<^item> \<^verbatim>\<open>src/dimensions.rs\<close>: \<open>Dimensions\<close>; \<^verbatim>\<open>src/posting.rs\<close>: \<open>Posting\<close>; \<^verbatim>\<open>src/balance.rs\<close>: \<open>Balance\<close>;
    \<^verbatim>\<open>src/closing.rs\<close>: \<open>Closing\<close>; \<^verbatim>\<open>src/checkpoint.rs\<close>: \<open>Checkpoint\<close>.
  \<^item> \<^verbatim>\<open>src/account.rs\<close>: \<open>Account_Path\<close> and \<open>Account\<close> (definitions), \<open>Registry\<close>, \<open>Registry_Audit\<close>.
  \<^item> \<^verbatim>\<open>src/period.rs\<close>: \<open>Period\<close> (definitions), \<open>Calendar\<close>, \<open>Calendar_Audit\<close>.
  \<^item> \<^verbatim>\<open>src/entry.rs\<close>: \<open>Entry\<close> (definitions), \<open>Entry_Audit\<close>; \<^verbatim>\<open>src/clearing.rs\<close>: \<open>Clearing\<close>, \<open>Clearing_Rules\<close>;
    \<^verbatim>\<open>src/seal.rs\<close>: \<open>Seal\<close>, \<open>Seal_Audit\<close>, \<open>Seal_Proofs\<close>.
  \<^item> \<^verbatim>\<open>src/journal.rs\<close>: \<open>Journal\<close> and \<open>Journal_Reports\<close> (definitions); \<open>Journal_Sites\<close>, \<open>Journal_Inv\<close>,
    \<open>Journal_Rollback\<close>, \<open>Journal_Steps\<close>, \<open>Journal_Record\<close> (the invariant and the step relation); \<open>Journal_Demo\<close>
    (the concrete journal of the examples); \<open>Journal_Audit\<close>, \<open>Journal_Books\<close>, \<open>Journal_Figures\<close>,
    \<open>Journal_Items\<close>, \<open>Journal_Seals\<close> (the properties).
  \<^item> \<^verbatim>\<open>src/storage.rs\<close>: \<open>Storage\<close> (definitions), \<open>Storage_Audit\<close>.
  \<^item> \<^verbatim>\<open>src/storage/sqlite.rs\<close> and \<^verbatim>\<open>src/schema/sqlite.sql\<close>: \<open>Sqlite_Rows\<close>, \<open>Sqlite_Store\<close>, \<open>Sqlite_Books\<close>
    (definitions); \<open>Sqlite_Codec\<close>, \<open>Sqlite_Entries\<close>, \<open>Sqlite_Reads\<close>, \<open>Sqlite_Balances\<close>, \<open>Sqlite_Appends\<close>,
    \<open>Sqlite_Audit\<close>.
  \<^item> \<^verbatim>\<open>src/storage/postgres.rs\<close> and \<^verbatim>\<open>src/schema/postgres.sql\<close>: \<open>Postgres_Store\<close>, \<open>Postgres_Log\<close>, \<open>Postgres_Books\<close>
    (definitions); \<open>Postgres_Sequence\<close>, \<open>Postgres_Appends\<close>, \<open>Postgres_Cluster\<close> (the concurrent writers as a step
    relation), \<open>Postgres_Demo\<close>, \<open>Postgres_Audit\<close>; \<open>Postgres_Agree\<close>, \<open>Postgres_Refine\<close> (agreement with the
    in-memory store).
  \<^item> \<^verbatim>\<open>src/storage/iceberg.rs\<close>: \<open>Iceberg\<close> (definitions); \<open>Iceberg_Text\<close> (what the written text and rows determine),
    \<open>Iceberg_Reads\<close> (the loop over the pages, the state of the archive), \<open>Iceberg_Runs\<close>, \<open>Iceberg_Audit\<close>.

  \<^bold>\<open>How code becomes definitions.\<close> A fallible operation returns \<open>Ok\<close> or \<open>Err\<close> of an error datatype with the
  source's variants; one that takes \<^verbatim>\<open>&mut self\<close> returns its result with the state afterwards, also when
  it fails half-way. An \<^verbatim>\<open>Amount\<close> is a signed 64-bit word and every checked operation can fail as in the
  source; identifiers and indexes of a machine width are words or numbers with the conversion written out.
  Log positions are natural numbers, so theorems about a log carry the bound \<open>u64_max\<close> on its length, and
  those about SQLite, whose integers are signed, \<open>i64_max\<close>. BLAKE3, the calendar fields of a date, the
  table of currency precisions and the Unicode classes outside ASCII are arguments (\<open>env\<close>); a theorem
  that needs more of the hash than that it is a function says so as \<open>no collision among the strings
  hashed\<close>, never as injectivity.

  \<^bold>\<open>What is shown.\<close> The numbers are those of the manifest.
  \<^item> The journal. \<open>journal_step\<close> is one call of a public operation and \<open>reachable\<close> a sequence of them from a new
    journal. In every reachable state the log, the indexes, the balances and the sites are functions of
    the entries (\<open>Journal_Inv\<close>) and each seal is true of them (\<open>Journal_Steps\<close>); the self-checks pass, recording
    is decided by \<open>recordable\<close>, batches are all or nothing, what is added the books admit (\<open>admitted\<close>), retries are
    answered as the first time, books balance, figures agree however they are computed, seals last, closed
    periods stay closed (\<open>closed_books_stay\<close>, with a proviso, below), and statements,
    open items, clearings, checkpoints and reversals do what their specifications say.
  \<^item> The store. \<open>store_append_contract\<close> says when \<^verbatim>\<open>append\<close> succeeds, what it returns for each entry and what it leaves
    (\<open>acceptable\<close>, \<open>fresh_entries\<close>); every call is a step of the journal inside or none; the locale
    \<open>paged_read\<close> gives for every listing that following \<open>next\<close> yields the whole list, and the draining loop,
    which need not return for an arbitrary backend and is a partial function for that reason, returns here.
  \<^item> SQLite. \<open>backed E db j\<close> says which rows the tables hold for a journal. Appending to the tables is appending to
    the journal, under the conditions named below, entries read back field by field, and log reads, heads, proofs and summed balances agree
    with the in-memory store.
  \<^item> PostgreSQL. Inline, it appends and reads as the in-memory store does, under the same conditions and for handles
    that fit its column. In either mode, \<open>cluster_step\<close> lets transactions open, commit and fail in any order: the
    log stays dense with the right root in every row and the right accumulator beside it, it only grows, a pass places whatever is settled, and deferred positions
    follow the transaction numbers.
  \<^item> The archive. Under a seal of the journal a compaction returns, appends exactly the entries after those archived
    up to the seal, and leaves a state from which the next one goes on (\<open>archive_holds\<close>); against any store, what
    passed the check of the root has the hashes the seal commits to; and the rows determine the entries.
  \<^item> Evidence. Proofs of inclusion, consistency, binding and sealed balances verify when they should, and what
    verifies is true up to collisions; the incremental root is the tree hash; chains commit to every seal.
  \<^item> Values. Encodings are prefix codes (the locale \<open>prefix_code\<close>, interpreted at every encoder), splits are
    exact, literals and paths parse back, the registry is rebuilt from its records.

  \<^bold>\<open>Preconditions worth knowing.\<close> \<^verbatim>\<open>record_batch\<close> takes entries the type system knows to be sealed and validates
  nothing again. So a step of the journal takes in a batch whatever was sealed at some time, against whatever
  accounts, calendar and policy (\<open>was_sealed\<close>), and an entry sealed before its period was closed is still recorded
  afterwards: \<open>stale_entry_restates\<close> shows that this changes the closing balances recomputed for a sealed period.
  What needs the precondition \<^verbatim>\<open>record_validated\<close> states, that an entry is valid for the journal it is recorded in, is
  claimed for sequences of \<open>current_step\<close>: every operation but a batch is one. The fields of
  stored entries are those their constructors let through (\<open>storable\<close>). The theorems on appending to the tables ask
  that the accounts of an entry are in the chart (\<open>accounts_known\<close>), as the foreign keys do, and of a retry
  (\<open>retries_ok\<close>) that it reuses no identifier under another key and that a reversal is retried as it was
  recorded: the finding \<open>sqlite_refuses_retried_reversal\<close> shows why.

  \<^bold>\<open>What the database models take for granted.\<close> A call is atomic, as the transactions and the single
  writer make it. Columns hold values of their declared type; dates written as ISO text are ordered as
  dates, so a date column holds dates. An insert with a conflict target is skipped when the named constraint is
  the one that fails, and raises when another one is. PostgreSQL compares a \<^verbatim>\<open>UUID\<close> as its sixteen bytes, runs
  deferred triggers at commit, and hands out transaction numbers in increasing order; a call takes effect
  at its commit, and the watermark of a sequencing pass is at most the oldest number still open. Its
  column \<^verbatim>\<open>insert_xid\<close> is a function of the row; the two backends share the row types and the error variants.

  \<^bold>\<open>What the archive takes for granted.\<close> The crates for identifiers, Arrow, Parquet and Iceberg are the fields of the
  record \<open>lake\<close>, and each can fail. Of a table it is asked (\<open>appends_batches\<close>) that a committed append keeps the batches
  that were there, adds the new one and makes its snapshot, with the properties set, the current one; where
  identifiers are read back, that their text tells them apart. The store is the function its method \<^verbatim>\<open>page\<close> is. It
  could hand out pages for ever, so the loop is a partial function, and that it returns is proved for a
  store whose pages are those of the in-memory one. A compaction runs alone: another one committing to the
  same table between its read and its commit is not modelled.

  \<^bold>\<open>Findings.\<close> The development proves ten places where the code and its contract differ, listed in the
  manifest: among them the retried reversal, a sealed period reopened by declaring it again, the self-check
  that sound books fail, the smallest amount that does not print and parse, a path segment that
  contains the separator, the archive, which checks the hashes of entries but not the entries, and an entry sealed
  before its period was closed, which is recorded into it all the same.

  \<^bold>\<open>Not modelled.\<close> The backend test suite (\<^verbatim>\<open>storage/conformance.rs\<close>), serialisation
  adapters (\<^verbatim>\<open>serde_support.rs\<close> and the impls that use it), the crate root, error messages, the generation of random
  identifiers, connection pools, locks and futures.
\<close>

end
